(* ===== verification/Aprs_Prelude.thy ===== *)
theory Aprs_Prelude
  imports Main "HOL-Library.Word"
begin

text \<open>
  Shared vocabulary of the development: the machine types of the firmware (an AVR, where
  \<^verbatim>\<open>int\<close> and \<^verbatim>\<open>size_t\<close> have 16 bits), byte strings, the C library functions the sources
  call on them, the bit order of a byte on the air, and the generic lemmas on lists, words and
  shift registers that the component theories share.
\<close>

unbundle bit_operations_syntax

section \<open>Machine types\<close>

type_synonym u8 = "8 word"
type_synonym u16 = "16 word"
type_synonym u32 = "32 word"
type_synonym i8 = "8 word"
type_synonym i16 = "16 word"
type_synonym i32 = "32 word"
type_synonym bytes = "u8 list"

named_theorems chan_simps "what the byte channels promise about the bytes they carry"
named_theorems inv_intros "operations that keep the invariant of their component"

section \<open>Byte strings and the C string functions\<close>

text \<open>A C character is a byte; string literals are written as HOL strings and converted.\<close>

definition str :: "string \<Rightarrow> bytes" where
  "str s = map of_char s"

definition chr :: "char \<Rightarrow> u8" where
  "chr c = of_char c"

definition c_toupper :: "u8 \<Rightarrow> u8" where
  "c_toupper c = (if 97 \<le> c \<and> c \<le> 122 then c - 32 else c)"

definition c_tolower :: "u8 \<Rightarrow> u8" where
  "c_tolower c = (if 65 \<le> c \<and> c \<le> 90 then c + 32 else c)"

definition c_isdigit :: "u8 \<Rightarrow> bool" where
  "c_isdigit c \<longleftrightarrow> 48 \<le> c \<and> c \<le> 57"

text \<open>The characters of a buffer before its first NUL: what \<^verbatim>\<open>strlen\<close> counts.\<close>

definition c_str :: "bytes \<Rightarrow> bytes" where
  "c_str s = takeWhile (\<lambda>c. c \<noteq> 0) s"

definition c_strlen :: "bytes \<Rightarrow> nat" where
  "c_strlen s = length (c_str s)"

text \<open>\<^verbatim>\<open>strcasecmp(a, b) == 0\<close> and \<^verbatim>\<open>strncasecmp(a, b, n) == 0\<close>.\<close>

definition c_strcaseeq :: "bytes \<Rightarrow> bytes \<Rightarrow> bool" where
  "c_strcaseeq a b \<longleftrightarrow> map c_tolower (c_str a) = map c_tolower (c_str b)"

definition c_strncaseeq :: "bytes \<Rightarrow> bytes \<Rightarrow> nat \<Rightarrow> bool" where
  "c_strncaseeq a b n \<longleftrightarrow>
     map c_tolower (c_str (take n a)) = map c_tolower (c_str (take n b))"

text \<open>\<^verbatim>\<open>memcpy(dst + off, src, length src)\<close> inside an array of fixed length.\<close>

definition mem_write :: "'a list \<Rightarrow> nat \<Rightarrow> 'a list \<Rightarrow> 'a list" where
  "mem_write a off src = take off a @ src @ drop (off + length src) a"

lemma length_mem_write [simp]:
  "off + length src \<le> length a \<Longrightarrow> length (mem_write a off src) = length a"
  by (simp add: mem_write_def)

lemma take_mem_write_same:
  "off \<le> length a \<Longrightarrow> take (length src) (drop off (mem_write a off src)) = src"
  by (simp add: mem_write_def)

lemma c_str_no_nul: "0 \<notin> set s \<Longrightarrow> c_str s = s"
  by (induction s) (auto simp: c_str_def)

lemma c_str_append_nul: "0 \<notin> set s \<Longrightarrow> c_str (s @ 0 # t) = s"
  by (induction s) (auto simp: c_str_def)

lemma c_str_nul_free [simp]: "0 \<notin> set (c_str s)"
  by (auto simp: c_str_def dest: set_takeWhileD)

lemma length_c_str_le: "length (c_str s) \<le> length s"
  by (simp add: c_str_def length_takeWhile_le)

text \<open>The assertions of the sources: where one fails the program does not go on.\<close>

definition ASSERT :: "bool \<Rightarrow> unit option" where
  "ASSERT c = (if c then Some () else None)"

section \<open>Array updates within the filled part of a buffer\<close>

lemma take_Suc_update:
  "i < length xs \<Longrightarrow> take (Suc i) (xs[i := x]) = take i xs @ [x]"
  by (simp add: take_Suc_conv_app_nth)

lemma take_update_beyond: "n \<le> i \<Longrightarrow> take n (xs[i := x]) = take n xs"
  by simp

section \<open>Words\<close>

lemma word_of_nat_unat_inverse: "word_of_nat (unat w) = (w :: 'a::len word)"
  by simp

lemma unat_u8_less [simp]: "unat (x :: u8) < 256"
proof -
  have "unat x < 2 ^ LENGTH(8)" by (rule unsigned_less)
  then show ?thesis by simp
qed

lemma unat_u16_less [simp]: "unat (x :: u16) < 65536"
proof -
  have "unat x < 2 ^ LENGTH(16)" by (rule unsigned_less)
  then show ?thesis by simp
qed

lemma bit_imp_lt_8: "bit (w :: u8) n \<Longrightarrow> n < 8"
  using bit_imp_le_length [of w n] by simp

lemma bit_imp_lt_16: "bit (w :: u16) n \<Longrightarrow> n < 16"
  using bit_imp_le_length [of w n] by simp

lemma bit_times2_u16: "bit (v * 2 :: u16) n \<longleftrightarrow> n < 16 \<and> n \<noteq> 0 \<and> bit v (n - 1)"
  using bit_double_iff [of v n] by (auto simp: mult.commute)

lemma word_xor_cancel [simp]: "a XOR c = b XOR c \<longleftrightarrow> a = (b :: 'a::len word)"
proof
  assume "a XOR c = b XOR c"
  then have "(a XOR c) XOR c = (b XOR c) XOR c" by (rule arg_cong)
  then show "a = b" by (simp only: xor.assoc xor_self_eq xor.right_neutral)
qed simp

lemma mask_8_u16: "(0xff :: u16) = mask 8"
  by (simp add: mask_eq_exp_minus_1)

text \<open>The macro \<^verbatim>\<open>BV\<close> on the eight bit registers.\<close>

definition BV :: "nat \<Rightarrow> u8" where
  "BV n = push_bit n 1"

lemma bit_BV: "bit (BV n) m \<longleftrightarrow> m = n \<and> n < 8"
  by (auto simp: BV_def bit_exp_iff)

text \<open>Closed lists of small numbers, for exhaustive checks by rewriting.\<close>

lemma upt_0_256: "[0..<256] = 0 # 1 # [2..<256]"
  by (simp add: upt_rec [of 0] upt_rec [of "Suc 0"] numeral_2_eq_2)

lemma funpow_8: "(f ^^ 8) x = f (f (f (f (f (f (f (f x)))))))"
  by (simp add: numeral_eq_Suc)

lemma all_u8_via_nat:
  assumes "\<And>i. i < 256 \<Longrightarrow> P (word_of_nat i :: u8)"
  shows "P (x :: u8)"
proof -
  have "unat x < 256" by (rule unat_u8_less)
  from assms [OF this] show ?thesis by simp
qed

section \<open>Bytes on the air\<close>

text \<open>A byte is sent least significant bit first; a stream of bytes is the concatenation.\<close>

definition byte_bits :: "u8 \<Rightarrow> bool list" where
  "byte_bits c = map (bit c) [0..<8]"

definition stream_bits :: "bytes \<Rightarrow> bool list" where
  "stream_bits bs = concat (map byte_bits bs)"

text \<open>The number whose bits, least significant first, are the list.\<close>

definition bits_val :: "bool list \<Rightarrow> 'a::len word" where
  "bits_val bs = horner_sum of_bool 2 bs"

lemma length_byte_bits [simp]: "length (byte_bits c) = 8"
  by (simp add: byte_bits_def)

lemma byte_bits_inject [simp]: "byte_bits c = byte_bits d \<longleftrightarrow> c = d"
proof
  assume "byte_bits c = byte_bits d"
  then have "\<And>i. i < 8 \<Longrightarrow> bit c i = bit d i"
    by (auto simp: byte_bits_def list_eq_iff_nth_eq)
  then show "c = d" by (intro bit_word_eqI) simp
qed simp

lemma stream_bits_simps [simp]:
  "stream_bits [] = []"
  "stream_bits (b # bs) = byte_bits b @ stream_bits bs"
  "stream_bits (xs @ ys) = stream_bits xs @ stream_bits ys"
  by (simp_all add: stream_bits_def)

lemma stream_bits_inject: "stream_bits xs = stream_bits ys \<Longrightarrow> xs = ys"
proof (induction xs arbitrary: ys)
  case Nil
  then show ?case by (cases ys) (auto simp: byte_bits_def)
next
  case (Cons x xs)
  then obtain y ys' where "ys = y # ys'" by (cases ys) (auto simp: byte_bits_def)
  with Cons show ?case by (simp add: append_eq_append_conv)
qed

lemma bits_val_Nil [simp]: "bits_val [] = 0"
  by (simp add: bits_val_def)

lemma bit_bits_val:
  "length bs \<le> LENGTH('a) \<Longrightarrow>
   bit (bits_val bs :: 'a::len word) i \<longleftrightarrow> i < length bs \<and> bs ! i"
  by (auto simp: bits_val_def bit_horner_sum_bit_word_iff)

lemma bits_val_inject:
  assumes "length bs = length cs" "length bs \<le> LENGTH('a)"
    and "(bits_val bs :: 'a::len word) = bits_val cs"
  shows "bs = cs"
proof (rule nth_equalityI)
  fix i assume "i < length bs"
  then show "bs ! i = cs ! i"
    using assms bit_bits_val [of bs i, where 'a = 'a] bit_bits_val [of cs i, where 'a = 'a] by auto
qed (rule assms(1))

lemma bits_val_byte_bits: "bits_val (byte_bits c) = (ucast c :: u16)"
proof (rule bit_word_eqI)
  fix n
  show "bit (bits_val (byte_bits c) :: u16) n = bit (ucast c :: u16) n"
    by (cases "n < 8") (auto simp: bit_bits_val byte_bits_def bit_simps dest: bit_imp_lt_8)
qed

section \<open>Partial correctness of computations that may not return\<close>

text \<open>
  \<open>ensures m Q\<close>: if the computation \<open>m\<close> returns, its result satisfies \<open>Q\<close>. The rules follow the structure of a program;
  those for the operations of the components are collected as \<open>keeps\<close>.
\<close>

definition ensures :: "'a option \<Rightarrow> ('a \<Rightarrow> bool) \<Rightarrow> bool" where
  "ensures m Q \<longleftrightarrow> (\<forall>r. m = Some r \<longrightarrow> Q r)"

named_theorems keeps "operations whose result is well-formed again"

lemma ensuresD: "ensures m Q \<Longrightarrow> m = Some r \<Longrightarrow> Q r"
  by (simp add: ensures_def)

lemma ensuresI: "(\<And>r. m = Some r \<Longrightarrow> Q r) \<Longrightarrow> ensures m Q"
  by (simp add: ensures_def)

lemma ensures_None [simp]: "ensures None Q"
  by (simp add: ensures_def)

lemma ensures_Some [simp]: "ensures (Some x) Q = Q x"
  by (simp add: ensures_def)

lemma ensures_map: "ensures (map_option f m) Q = ensures m (\<lambda>r. Q (f r))"
  by (auto simp: ensures_def)

lemma ensures_weaken: "ensures m Q \<Longrightarrow> (\<And>r. Q r \<Longrightarrow> R r) \<Longrightarrow> ensures m R"
  by (auto simp: ensures_def)

lemma ensures_bind: "ensures m Q \<Longrightarrow> (\<And>r. Q r \<Longrightarrow> ensures (f r) R) \<Longrightarrow> ensures (Option.bind m f) R"
  by (cases m) (auto simp: ensures_def)

lemma ensures_if: "(b \<Longrightarrow> ensures x Q) \<Longrightarrow> (\<not> b \<Longrightarrow> ensures y Q) \<Longrightarrow> ensures (if b then x else y) Q"
  by simp

lemma ensures_case_option:
  "ensures x Q \<Longrightarrow> (\<And>v. m = Some v \<Longrightarrow> ensures (f v) Q) \<Longrightarrow> ensures (case m of None \<Rightarrow> x | Some v \<Rightarrow> f v) Q"
  by (cases m) simp_all

lemma ensures_case_prod: "(\<And>a b. p = (a, b) \<Longrightarrow> ensures (f a b) Q) \<Longrightarrow> ensures (case p of (a, b) \<Rightarrow> f a b) Q"
  by (cases p) simp

text \<open>A step of which only the result itself is needed.\<close>

lemma ensures_bind_pure: "(\<And>r. m = Some r \<Longrightarrow> ensures (f r) R) \<Longrightarrow> ensures (Option.bind m f) R"
  by (cases m) simp_all

lemmas ensures_structure = ensures_if ensures_case_option ensures_case_prod
lemmas ensures_steps = ensures_Some [THEN iffD2] ensures_if ensures_case_option ensures_bind_pure ensures_case_prod

end
