(* ===== verification/Crc_Ccitt.thy ===== *)
theory Crc_Ccitt
  imports Aprs_Prelude
begin

text \<open>
  The frame check sequence of AX.25: \<^verbatim>\<open>bertos/algo/crc_ccitt.c\<close> and \<^verbatim>\<open>crc_ccitt.h\<close>. The table
  and the table-driven update are translated as written; a bit-serial reference with the
  polynomial 0x8408 is stated beside them, and the two are proved equal. On top of that come the
  residue on a correctly terminated frame and the error detection the receiver relies on.
\<close>

section \<open>The table-driven code\<close>

definition crc_ccitt_tab :: "u16 list" where
  "crc_ccitt_tab = [
   0x0000, 0x1189, 0x2312, 0x329b, 0x4624, 0x57ad, 0x6536, 0x74bf,
   0x8c48, 0x9dc1, 0xaf5a, 0xbed3, 0xca6c, 0xdbe5, 0xe97e, 0xf8f7,
   0x1081, 0x0108, 0x3393, 0x221a, 0x56a5, 0x472c, 0x75b7, 0x643e,
   0x9cc9, 0x8d40, 0xbfdb, 0xae52, 0xdaed, 0xcb64, 0xf9ff, 0xe876,
   0x2102, 0x308b, 0x0210, 0x1399, 0x6726, 0x76af, 0x4434, 0x55bd,
   0xad4a, 0xbcc3, 0x8e58, 0x9fd1, 0xeb6e, 0xfae7, 0xc87c, 0xd9f5,
   0x3183, 0x200a, 0x1291, 0x0318, 0x77a7, 0x662e, 0x54b5, 0x453c,
   0xbdcb, 0xac42, 0x9ed9, 0x8f50, 0xfbef, 0xea66, 0xd8fd, 0xc974,
   0x4204, 0x538d, 0x6116, 0x709f, 0x0420, 0x15a9, 0x2732, 0x36bb,
   0xce4c, 0xdfc5, 0xed5e, 0xfcd7, 0x8868, 0x99e1, 0xab7a, 0xbaf3,
   0x5285, 0x430c, 0x7197, 0x601e, 0x14a1, 0x0528, 0x37b3, 0x263a,
   0xdecd, 0xcf44, 0xfddf, 0xec56, 0x98e9, 0x8960, 0xbbfb, 0xaa72,
   0x6306, 0x728f, 0x4014, 0x519d, 0x2522, 0x34ab, 0x0630, 0x17b9,
   0xef4e, 0xfec7, 0xcc5c, 0xddd5, 0xa96a, 0xb8e3, 0x8a78, 0x9bf1,
   0x7387, 0x620e, 0x5095, 0x411c, 0x35a3, 0x242a, 0x16b1, 0x0738,
   0xffcf, 0xee46, 0xdcdd, 0xcd54, 0xb9eb, 0xa862, 0x9af9, 0x8b70,
   0x8408, 0x9581, 0xa71a, 0xb693, 0xc22c, 0xd3a5, 0xe13e, 0xf0b7,
   0x0840, 0x19c9, 0x2b52, 0x3adb, 0x4e64, 0x5fed, 0x6d76, 0x7cff,
   0x9489, 0x8500, 0xb79b, 0xa612, 0xd2ad, 0xc324, 0xf1bf, 0xe036,
   0x18c1, 0x0948, 0x3bd3, 0x2a5a, 0x5ee5, 0x4f6c, 0x7df7, 0x6c7e,
   0xa50a, 0xb483, 0x8618, 0x9791, 0xe32e, 0xf2a7, 0xc03c, 0xd1b5,
   0x2942, 0x38cb, 0x0a50, 0x1bd9, 0x6f66, 0x7eef, 0x4c74, 0x5dfd,
   0xb58b, 0xa402, 0x9699, 0x8710, 0xf3af, 0xe226, 0xd0bd, 0xc134,
   0x39c3, 0x284a, 0x1ad1, 0x0b58, 0x7fe7, 0x6e6e, 0x5cf5, 0x4d7c,
   0xc60c, 0xd785, 0xe51e, 0xf497, 0x8028, 0x91a1, 0xa33a, 0xb2b3,
   0x4a44, 0x5bcd, 0x6956, 0x78df, 0x0c60, 0x1de9, 0x2f72, 0x3efb,
   0xd68d, 0xc704, 0xf59f, 0xe416, 0x90a9, 0x8120, 0xb3bb, 0xa232,
   0x5ac5, 0x4b4c, 0x79d7, 0x685e, 0x1ce1, 0x0d68, 0x3ff3, 0x2e7a,
   0xe70e, 0xf687, 0xc41c, 0xd595, 0xa12a, 0xb0a3, 0x8238, 0x93b1,
   0x6b46, 0x7acf, 0x4854, 0x59dd, 0x2d62, 0x3ceb, 0x0e70, 0x1ff9,
   0xf78f, 0xe606, 0xd49d, 0xc514, 0xb1ab, 0xa022, 0x92b9, 0x8330,
   0x7bc7, 0x6a4e, 0x58d5, 0x495c, 0x3de3, 0x2c6a, 0x1ef1, 0x0f78]"

definition updcrc_ccitt :: "u8 \<Rightarrow> u16 \<Rightarrow> u16" where
  "updcrc_ccitt c oldcrc =
     drop_bit 8 oldcrc XOR crc_ccitt_tab ! unat ((oldcrc XOR ucast c) AND 0xff)"

definition CRC_CCITT_INIT_VAL :: u16 where
  "CRC_CCITT_INIT_VAL = 0xFFFF"

text \<open>The buffer of the C function is the list of its \<^verbatim>\<open>len\<close> bytes.\<close>

fun crc_ccitt :: "u16 \<Rightarrow> bytes \<Rightarrow> u16" where
  "crc_ccitt crc [] = crc"
| "crc_ccitt crc (b # buf) = crc_ccitt (updcrc_ccitt b crc) buf"

section \<open>The bit-serial reference\<close>

definition crc_bit :: "u16 \<Rightarrow> u16" where
  "crc_bit crc = drop_bit 1 crc XOR (if bit crc 0 then 0x8408 else 0)"

definition crc_byte :: "u8 \<Rightarrow> u16 \<Rightarrow> u16" where
  "crc_byte c crc = (crc_bit ^^ 8) (crc XOR ucast c)"

fun crc_serial :: "u16 \<Rightarrow> bytes \<Rightarrow> u16" where
  "crc_serial crc [] = crc"
| "crc_serial crc (b # buf) = crc_serial (crc_byte b crc) buf"

lemma length_crc_ccitt_tab [simp]: "length crc_ccitt_tab = 256"
  by (simp add: crc_ccitt_tab_def)

lemma crc_bit_xor: "crc_bit (a XOR b) = crc_bit a XOR crc_bit b"
  by (cases "bit a 0"; cases "bit b 0")
    (simp_all add: crc_bit_def bit_xor_iff drop_bit_xor ac_simps)

lemma crc_bits_xor: "(crc_bit ^^ n) (a XOR b) = (crc_bit ^^ n) a XOR (crc_bit ^^ n) b"
  by (induction n) (simp_all add: crc_bit_xor)

lemma crc_bits_high:
  "(\<And>i. i < n \<Longrightarrow> \<not> bit x i) \<Longrightarrow> (crc_bit ^^ n) x = drop_bit n x"
proof (induction n)
  case (Suc n)
  then have "(crc_bit ^^ n) x = drop_bit n x" by simp
  moreover have "\<not> bit (drop_bit n x) 0" using Suc.prems [of n] by (simp add: bit_drop_bit_eq)
  ultimately show ?case by (simp add: crc_bit_def [of "drop_bit n x"])
qed simp

lemma crc_ccitt_tab_eq: "crc_ccitt_tab = map (crc_bit ^^ 8) (map word_of_nat [0..<256])"
proof -
  have idx: "map word_of_nat [0..<256] = (0 :: u16) # 1 # map word_of_nat [2..<256]"
    by (simp add: upt_0_256)
  show ?thesis
    unfolding idx by (simp add: upt_rec_numeral crc_bit_def funpow_8 crc_ccitt_tab_def)
qed

lemma crc_ccitt_tab_entry: "i < 256 \<Longrightarrow> crc_ccitt_tab ! i = (crc_bit ^^ 8) (word_of_nat i)"
  by (simp add: crc_ccitt_tab_eq)

lemma byte_split: "y = (y AND 0xff) XOR push_bit 8 (drop_bit 8 (y :: u16))"
  unfolding mask_8_u16 by (rule bit_word_eqI) (auto simp: bit_simps)

lemma updcrc_ccitt_eq_byte: "updcrc_ccitt c crc = crc_byte c crc"
proof -
  let ?y = "crc XOR ucast c"
  have low: "unat (?y AND 0xff) < 256"
    using word_and_le1 [of ?y "0xff"] by (simp add: word_le_nat_alt)
  have high: "(crc_bit ^^ 8) (push_bit 8 (drop_bit 8 ?y)) = drop_bit 8 (push_bit 8 (drop_bit 8 ?y))"
    by (rule crc_bits_high) (simp add: bit_simps)
  have keep: "drop_bit 8 (push_bit 8 (drop_bit 8 ?y)) = drop_bit 8 crc"
    by (rule bit_word_eqI) (auto simp: bit_simps dest: bit_imp_lt_8 bit_imp_lt_16)
  have "crc_byte c crc = (crc_bit ^^ 8) (?y AND 0xff) XOR drop_bit 8 crc"
    unfolding crc_byte_def by (subst byte_split [of ?y]) (simp only: crc_bits_xor high keep)
  then show ?thesis
    by (simp add: updcrc_ccitt_def crc_ccitt_tab_entry [OF low] xor.commute)
qed

lemma crc_ccitt_append: "crc_ccitt crc (xs @ ys) = crc_ccitt (crc_ccitt crc xs) ys"
  by (induction xs arbitrary: crc) simp_all

section \<open>The check value as a function of the bits on the air\<close>

fun crc_on_bits :: "u16 \<Rightarrow> bool list \<Rightarrow> u16" where
  "crc_on_bits s [] = s"
| "crc_on_bits s (b # bs) = crc_on_bits (crc_bit (s XOR of_bool b)) bs"

lemma crc_on_bits_append: "crc_on_bits s (xs @ ys) = crc_on_bits (crc_on_bits s xs) ys"
  by (induction xs arbitrary: s) simp_all

lemma crc_bit_kernel: "crc_bit a = 0 \<Longrightarrow> a = 0"
proof -
  assume z: "crc_bit a = 0"
  have "\<not> bit a 0"
  proof
    assume "bit a 0"
    with z have "bit (drop_bit 1 a XOR 0x8408) 15 = bit (0 :: u16) 15" by (simp add: crc_bit_def)
    then show False by (auto simp: bit_simps dest: bit_imp_lt_16)
  qed
  with z have d: "drop_bit 1 a = 0" by (simp add: crc_bit_def)
  show "a = 0"
  proof (rule bit_word_eqI)
    fix n
    show "bit a n \<longleftrightarrow> bit 0 n"
      using \<open>\<not> bit a 0\<close> arg_cong [OF d, of "\<lambda>w. bit w (n - 1)"]
      by (cases n) (simp_all add: bit_simps)
  qed
qed

lemma crc_bit_inject: "crc_bit a = crc_bit b \<longleftrightarrow> a = b"
proof
  assume "crc_bit a = crc_bit b"
  then have "crc_bit (a XOR b) = 0" by (simp add: crc_bit_xor)
  then have "a XOR b = b XOR b" using crc_bit_kernel by simp
  then show "a = b" by (simp only: word_xor_cancel)
qed simp

lemma crc_bits_inject: "(crc_bit ^^ n) a = (crc_bit ^^ n) b \<longleftrightarrow> a = b"
  by (induction n) (simp_all add: crc_bit_inject)

lemma crc_on_bits_inject: "crc_on_bits a bs = crc_on_bits b bs \<longleftrightarrow> a = b"
  by (induction bs arbitrary: a b) (simp_all add: crc_bit_inject)

text \<open>Up to 16 bits enter the register as one number, before any feedback reaches them.\<close>

lemma crc_bit_push: "\<not> bit v 15 \<Longrightarrow> crc_bit (push_bit 1 v) = v"
proof -
  assume "\<not> bit v 15"
  have "drop_bit 1 (push_bit 1 v) = v"
  proof (rule bit_word_eqI)
    fix n assume "n < LENGTH(16)"
    with \<open>\<not> bit v 15\<close> show "bit (drop_bit 1 (push_bit 1 v)) n = bit v n"
      by (cases "n = 15") (auto simp: bit_simps bit_times2_u16)
  qed
  then show ?thesis by (simp add: crc_bit_def bit_simps bit_times2_u16)
qed

lemma crc_on_bits_block:
  "length bs \<le> 16 \<Longrightarrow> crc_on_bits s bs = (crc_bit ^^ length bs) (s XOR bits_val bs)"
proof (induction bs arbitrary: s)
  case (Cons b bs)
  then have "length bs \<le> 15" by simp
  then have top: "\<not> bit (bits_val bs :: u16) 15" by (simp add: bit_bits_val)
  have val: "bits_val (b # bs) = (of_bool b :: u16) XOR push_bit 1 (bits_val bs)"
    using \<open>length bs \<le> 15\<close>
    by (intro bit_word_eqI) (auto simp: bit_bits_val bit_simps bit_times2_u16 nth_Cons split: nat.splits)
  have "crc_on_bits s (b # bs) = (crc_bit ^^ length bs) (crc_bit (s XOR of_bool b) XOR bits_val bs)"
    using Cons by simp
  also have "\<dots> = (crc_bit ^^ length bs) (crc_bit (s XOR bits_val (b # bs)))"
    unfolding val by (simp only: crc_bit_xor crc_bit_push [OF top] xor.assoc)
  finally show ?case by (simp add: funpow_swap1)
qed simp

lemma crc_on_byte_bits: "crc_on_bits s (byte_bits c) = updcrc_ccitt c s"
  by (simp add: crc_on_bits_block bits_val_byte_bits updcrc_ccitt_eq_byte crc_byte_def)

lemma crc_ccitt_on_bits: "crc_ccitt s bs = crc_on_bits s (stream_bits bs)"
  by (induction bs arbitrary: s) (simp_all add: crc_on_bits_append crc_on_byte_bits)

section \<open>The frame check as an interface\<close>

text \<open>
  What a link layer needs of a running check: the sender appends a trailer computed from the
  state after the payload, and the receiver, which runs the same update over payload and trailer
  together, ends in one fixed state exactly when the trailer is the sender's.
\<close>

locale frame_check =
  fixes upd :: "u8 \<Rightarrow> 's \<Rightarrow> 's"
    and init :: 's
    and good :: 's
    and trailer :: "'s \<Rightarrow> bytes"
    and run :: "'s \<Rightarrow> bytes \<Rightarrow> 's"
  assumes run_Nil: "run s [] = s"
    and run_Cons: "run s (b # bs) = run (upd b s) bs"
    and trailer_good: "run s (trailer s) = good"
    and trailer_unique:
      "length t = length (trailer s) \<Longrightarrow> run s t = good \<Longrightarrow> t = trailer s"
begin

lemma run_append: "run s (xs @ ys) = run (run s xs) ys"
  by (induction xs arbitrary: s) (simp_all add: run_Nil run_Cons)

lemma run_snoc: "run s (xs @ [b]) = upd b (run s xs)"
  by (simp add: run_append run_Nil run_Cons)

lemma sent_frame_good: "run init (d @ trailer (run init d)) = good"
  by (simp add: run_append trailer_good)

lemma good_frame_iff:
  "length t = length (trailer (run init d)) \<Longrightarrow>
   run init (d @ t) = good \<longleftrightarrow> t = trailer (run init d)"
  using trailer_unique by (auto simp: run_append trailer_good)

end

definition AX25_CRC_CORRECT :: u16 where
  "AX25_CRC_CORRECT = 0xF0B8"

text \<open>The two check bytes a sender appends: the low byte first, both complemented.\<close>

definition crcl :: "u16 \<Rightarrow> u8" where
  "crcl crc_out = ucast (crc_out AND 0xff) XOR 0xff"

definition crch :: "u16 \<Rightarrow> u8" where
  "crch crc_out = ucast (drop_bit 8 crc_out) XOR 0xff"

abbreviation fcs :: "u16 \<Rightarrow> bytes" where
  "fcs crc \<equiv> [crcl crc, crch crc]"

lemma bits_val_two_bytes:
  "bits_val (byte_bits a @ byte_bits b) = (ucast a XOR push_bit 8 (ucast b) :: u16)"
proof (rule bit_word_eqI)
  fix n
  show "bit (bits_val (byte_bits a @ byte_bits b) :: u16) n =
        bit (ucast a XOR push_bit 8 (ucast b) :: u16) n"
    by (cases "n < 8"; cases "n < 16")
      (auto simp: bit_bits_val byte_bits_def nth_append bit_simps dest: bit_imp_lt_8 bit_imp_lt_16)
qed

lemma crc_two_bytes:
  "crc_ccitt s [a, b] = (crc_bit ^^ 16) (s XOR (ucast a XOR push_bit 8 (ucast b)))"
proof -
  have "crc_ccitt s [a, b] = crc_on_bits s (byte_bits a @ byte_bits b)"
    by (simp add: crc_ccitt_on_bits)
  also have "\<dots> = (crc_bit ^^ 16) (s XOR bits_val (byte_bits a @ byte_bits b))"
    by (subst crc_on_bits_block) simp_all
  finally show ?thesis by (simp only: bits_val_two_bytes)
qed

lemma mask_8_u8: "(0xff :: u8) = mask 8"
  by (simp add: mask_eq_exp_minus_1)

lemma fcs_complement: "ucast (crcl s) XOR push_bit 8 (ucast (crch s)) = NOT s"
  unfolding crcl_def crch_def mask_8_u16 mask_8_u8
  by (rule bit_word_eqI) (auto simp: bit_simps dest: bit_imp_lt_8 bit_imp_lt_16)

lemma residue_const: "(crc_bit ^^ 16) 0xFFFF = AX25_CRC_CORRECT"
proof -
  have "(crc_bit ^^ 16) x = (crc_bit ^^ 8) ((crc_bit ^^ 8) x)" for x
    using funpow_add [of 8 8 crc_bit] by simp
  moreover have "(crc_bit ^^ 8) 0xFFFF = 0x0F87" by (simp add: crc_bit_def funpow_8)
  moreover have "(crc_bit ^^ 8) 0x0F87 = 0xF0B8" by (simp add: crc_bit_def funpow_8)
  ultimately show ?thesis by (simp add: AX25_CRC_CORRECT_def)
qed

lemma byte_pair_inject:
  fixes a b c d :: u8
  shows "(ucast a XOR push_bit 8 (ucast b) :: u16) = ucast c XOR push_bit 8 (ucast d) \<longleftrightarrow>
    a = c \<and> b = d"
proof
  assume "(ucast a XOR push_bit 8 (ucast b) :: u16) = ucast c XOR push_bit 8 (ucast d)"
  then have "byte_bits a @ byte_bits b = byte_bits c @ byte_bits d"
    by (intro bits_val_inject [where 'a = 16]) (simp_all add: bits_val_two_bytes)
  then show "a = c \<and> b = d" by (simp add: append_eq_append_conv)
qed simp

lemma fcs_residue_iff: "crc_ccitt s [a, b] = AX25_CRC_CORRECT \<longleftrightarrow> a = crcl s \<and> b = crch s"
proof -
  let ?v = "ucast a XOR push_bit 8 (ucast b) :: u16"
  have "s XOR NOT s = - 1" by (rule bit_word_eqI) (simp add: bit_simps)
  then have "s XOR NOT s = 0xFFFF" by simp
  then have "crc_ccitt s [a, b] = AX25_CRC_CORRECT \<longleftrightarrow> s XOR ?v = s XOR NOT s"
    by (simp only: crc_two_bytes crc_bits_inject residue_const [symmetric])
  also have "\<dots> \<longleftrightarrow> ?v = NOT s" by (metis word_xor_cancel xor.commute)
  also have "\<dots> \<longleftrightarrow> a = crcl s \<and> b = crch s"
    by (simp only: fcs_complement [symmetric] byte_pair_inject)
  finally show ?thesis .
qed

interpretation ccitt: frame_check updcrc_ccitt CRC_CCITT_INIT_VAL AX25_CRC_CORRECT fcs crc_ccitt
proof unfold_locales
  show "crc_ccitt s (fcs s) = AX25_CRC_CORRECT" for s
    by (simp only: fcs_residue_iff)
  show "t = fcs s" if "length t = length (fcs s)" and "crc_ccitt s t = AX25_CRC_CORRECT" for t s
  proof -
    from that(1) obtain a b where "t = [a, b]" by (auto simp: length_Suc_conv)
    with that(2) show ?thesis using fcs_residue_iff by auto
  qed
qed simp_all

section \<open>Properties\<close>

text \<open>
  C26. The table-driven \<^verbatim>\<open>crc_ccitt\<close> computes, on every buffer and from every starting value, the
  bit-serial CRC with the polynomial 0x8408; in particular all 256 table entries are right.
\<close>

theorem crc_ccitt_is_serial: "crc_ccitt crc buf = crc_serial crc buf"
  by (induction buf arbitrary: crc) (simp_all add: updcrc_ccitt_eq_byte)

text \<open>
  A receiver that runs \<^verbatim>\<open>crc_ccitt\<close> over a payload and two more bytes reaches
  \<^verbatim>\<open>AX25_CRC_CORRECT\<close> exactly when the two bytes are the complemented check value the sender
  appends, low byte first.
\<close>

theorem crc_residue_iff:
  "crc_ccitt CRC_CCITT_INIT_VAL (d @ [a, b]) = AX25_CRC_CORRECT \<longleftrightarrow>
   a = crcl (crc_ccitt CRC_CCITT_INIT_VAL d) \<and> b = crch (crc_ccitt CRC_CCITT_INIT_VAL d)"
  using ccitt.good_frame_iff [of "[a, b]" d] by simp

text \<open>
  C7. Burst errors: if two byte streams differ, on the air, only inside one window of at most 16
  consecutive bits, their check values differ, so the receiver cannot accept both.
\<close>

theorem crc_burst_detection:
  assumes "stream_bits m1 = p @ w1 @ q" and "stream_bits m2 = p @ w2 @ q"
    and "length w1 = length w2" and "length w1 \<le> 16" and "m1 \<noteq> m2"
  shows "crc_ccitt crc m1 \<noteq> crc_ccitt crc m2"
proof
  assume "crc_ccitt crc m1 = crc_ccitt crc m2"
  then have "crc_on_bits (crc_on_bits crc p) w1 = crc_on_bits (crc_on_bits crc p) w2"
    using assms(1,2) by (simp add: crc_ccitt_on_bits crc_on_bits_append crc_on_bits_inject)
  then have "bits_val w1 = (bits_val w2 :: u16)"
    using assms(3,4) by (simp add: crc_on_bits_block crc_bits_inject) (metis word_xor_cancel xor.commute)
  then have "w1 = w2" using assms(3,4) bits_val_inject [of w1 w2, where 'a = 16] by simp
  with assms(1,2,5) show False using stream_bits_inject [of m1 m2] by simp
qed

theorem crc_burst_detection_witness:
  "crc_ccitt 0xFFFF [0x41, 0x42] \<noteq> crc_ccitt 0xFFFF [0x41, 0x43]"
proof -
  have "stream_bits [0x41, 0x42] = byte_bits 0x41 @ byte_bits 0x42 @ []"
    "stream_bits [0x41, 0x43] = byte_bits 0x41 @ byte_bits 0x43 @ []" by simp_all
  from crc_burst_detection [OF this] show ?thesis by simp
qed

end
