(* ===== verification/Fifobuf.thy ===== *)
theory Fifobuf
  imports Aprs_Prelude
begin

text \<open>
  The circular byte buffer of \<^verbatim>\<open>bertos/struct/fifobuf.h\<close>, the one data structure between the
  interrupt handlers and the main loop: the modem's receive, transmit and delay lines and the
  serial port's two queues. Pointers are offsets into the array the buffer was initialised with.
  The list of waiting bytes is its abstraction, and the operations are an instance of the
  interface of a bounded queue that the channel theories build on. The \<^verbatim>\<open>_locked\<close> variants are
  the same operations inside a critical section.
\<close>

section \<open>The buffer and its operations\<close>

record FIFOBuffer =
  fb_mem :: bytes
  fb_head :: nat
  fb_tail :: nat
  fb_begin :: nat
  fb_end :: nat

definition fifo_init :: "bytes \<Rightarrow> nat \<Rightarrow> FIFOBuffer" where
  "fifo_init buf sz =
     \<lparr>fb_mem = buf, fb_head = 0, fb_tail = 0, fb_begin = 0, fb_end = sz - 1\<rparr>"

definition fifo_isempty :: "FIFOBuffer \<Rightarrow> bool" where
  "fifo_isempty fb \<longleftrightarrow> fb_head fb = fb_tail fb"

definition fifo_isfull :: "FIFOBuffer \<Rightarrow> bool" where
  "fifo_isfull fb \<longleftrightarrow>
     (fb_head fb = fb_begin fb \<and> fb_tail fb = fb_end fb)
     \<or> int (fb_tail fb) = int (fb_head fb) - 1"

definition fifo_push :: "FIFOBuffer \<Rightarrow> u8 \<Rightarrow> FIFOBuffer" where
  "fifo_push fb c =
     (let fb = fb\<lparr>fb_mem := (fb_mem fb)[fb_tail fb := c]\<rparr>
      in if fb_tail fb = fb_end fb then fb\<lparr>fb_tail := fb_begin fb\<rparr>
         else fb\<lparr>fb_tail := Suc (fb_tail fb)\<rparr>)"

definition fifo_pop :: "FIFOBuffer \<Rightarrow> u8 \<times> FIFOBuffer" where
  "fifo_pop fb =
     (if fb_head fb = fb_end fb
      then (fb_mem fb ! fb_end fb, fb\<lparr>fb_head := fb_begin fb\<rparr>)
      else (fb_mem fb ! fb_head fb, fb\<lparr>fb_head := Suc (fb_head fb)\<rparr>))"

definition fifo_flush :: "FIFOBuffer \<Rightarrow> FIFOBuffer" where
  "fifo_flush fb = fb\<lparr>fb_head := fb_tail fb\<rparr>"

definition fifo_len :: "FIFOBuffer \<Rightarrow> nat" where
  "fifo_len fb = fb_end fb - fb_begin fb"

section \<open>Validity and abstraction\<close>

text \<open>What \<^verbatim>\<open>ASSERT_VALID_FIFO\<close> states, with the array behind the pointers.\<close>

definition fifo_valid :: "FIFOBuffer \<Rightarrow> bool" where
  "fifo_valid fb \<longleftrightarrow>
     fb_begin fb \<le> fb_head fb \<and> fb_head fb \<le> fb_end fb \<and>
     fb_begin fb \<le> fb_tail fb \<and> fb_tail fb \<le> fb_end fb \<and>
     fb_end fb < length (fb_mem fb)"

definition fifo_list :: "FIFOBuffer \<Rightarrow> bytes" where
  "fifo_list fb =
     (if fb_head fb \<le> fb_tail fb then map ((!) (fb_mem fb)) [fb_head fb..<fb_tail fb]
      else map ((!) (fb_mem fb)) [fb_head fb..<Suc (fb_end fb)] @
           map ((!) (fb_mem fb)) [fb_begin fb..<fb_tail fb])"

lemma map_nth_update_outside:
  "k < i \<or> j \<le> k \<Longrightarrow> map ((!) (xs[k := c])) [i..<j] = map ((!) xs) [i..<j]"
  by auto

lemma fifo_valid_init: "1 < sz \<Longrightarrow> sz \<le> length buf \<Longrightarrow> fifo_valid (fifo_init buf sz)"
  by (simp add: fifo_valid_def fifo_init_def)

lemma fifo_list_init [simp]: "fifo_list (fifo_init buf sz) = []"
  by (simp add: fifo_list_def fifo_init_def)

lemma fifo_len_init [simp]: "fifo_len (fifo_init buf sz) = sz - 1"
  by (simp add: fifo_len_def fifo_init_def)

lemma fifo_isempty_list: "fifo_valid fb \<Longrightarrow> fifo_isempty fb \<longleftrightarrow> fifo_list fb = []"
  by (auto simp: fifo_valid_def fifo_isempty_def fifo_list_def)

lemma fifo_isfull_list: "fifo_valid fb \<Longrightarrow> fifo_isfull fb \<longleftrightarrow> length (fifo_list fb) = fifo_len fb"
  by (auto simp: fifo_valid_def fifo_isfull_def fifo_list_def fifo_len_def)

lemma fifo_list_bound: "fifo_valid fb \<Longrightarrow> length (fifo_list fb) \<le> fifo_len fb"
  by (auto simp: fifo_valid_def fifo_list_def fifo_len_def)

lemma fifo_push_valid: "fifo_valid fb \<Longrightarrow> fifo_valid (fifo_push fb c)"
  by (auto simp: fifo_valid_def fifo_push_def Let_def)

lemma fifo_push_list:
  "fifo_valid fb \<Longrightarrow> \<not> fifo_isfull fb \<Longrightarrow> fifo_list (fifo_push fb c) = fifo_list fb @ [c]"
  by (auto simp: fifo_valid_def fifo_isfull_def fifo_push_def fifo_list_def Let_def
      map_nth_update_outside)

lemma fifo_len_push [simp]: "fifo_len (fifo_push fb c) = fifo_len fb"
  by (simp add: fifo_len_def fifo_push_def Let_def)

lemma fifo_pop_valid: "fifo_valid fb \<Longrightarrow> fifo_valid (snd (fifo_pop fb))"
  by (auto simp: fifo_valid_def fifo_pop_def)

lemma fifo_len_pop [simp]: "fifo_len (snd (fifo_pop fb)) = fifo_len fb"
  by (simp add: fifo_len_def fifo_pop_def)

lemma fifo_pop_list:
  assumes "fifo_valid fb" and "fifo_list fb = x # xs"
  shows "fst (fifo_pop fb) = x \<and> fifo_list (snd (fifo_pop fb)) = xs"
proof (cases "fb_head fb \<le> fb_tail fb")
  case True
  then have "fb_head fb < fb_tail fb"
    using assms(2) by (cases "fb_head fb = fb_tail fb") (auto simp: fifo_list_def)
  with True assms show ?thesis
    by (auto simp: fifo_valid_def fifo_pop_def fifo_list_def upt_conv_Cons)
next
  case False
  with assms show ?thesis
    by (auto simp: fifo_valid_def fifo_pop_def fifo_list_def upt_conv_Cons simp del: upt_Suc)
qed

lemma fifo_flush_list [simp]: "fifo_list (fifo_flush fb) = []"
  by (simp add: fifo_list_def fifo_flush_def)

lemma fifo_flush_valid: "fifo_valid fb \<Longrightarrow> fifo_valid (fifo_flush fb)"
  by (simp add: fifo_valid_def fifo_flush_def)

lemma fifo_len_flush [simp]: "fifo_len (fifo_flush fb) = fifo_len fb"
  by (simp add: fifo_len_def fifo_flush_def)

section \<open>The interface of a bounded queue\<close>

locale bounded_queue =
  fixes push :: "'q \<Rightarrow> u8 \<Rightarrow> 'q"
    and pop :: "'q \<Rightarrow> u8 \<times> 'q"
    and isempty :: "'q \<Rightarrow> bool"
    and isfull :: "'q \<Rightarrow> bool"
    and contents :: "'q \<Rightarrow> bytes"
    and capacity :: "'q \<Rightarrow> nat"
    and valid :: "'q \<Rightarrow> bool"
  assumes isempty_contents: "valid q \<Longrightarrow> isempty q \<longleftrightarrow> contents q = []"
    and isfull_contents: "valid q \<Longrightarrow> isfull q \<longleftrightarrow> length (contents q) = capacity q"
    and contents_bound: "valid q \<Longrightarrow> length (contents q) \<le> capacity q"
    and valid_push: "valid q \<Longrightarrow> valid (push q c)"
    and valid_pop: "valid q \<Longrightarrow> valid (snd (pop q))"
    and capacity_push: "capacity (push q c) = capacity q"
    and capacity_pop: "capacity (snd (pop q)) = capacity q"
    and contents_push: "valid q \<Longrightarrow> \<not> isfull q \<Longrightarrow> contents (push q c) = contents q @ [c]"
    and contents_pop: "valid q \<Longrightarrow> contents q = x # xs \<Longrightarrow>
      fst (pop q) = x \<and> contents (snd (pop q)) = xs"
begin

lemma room_iff: "valid q \<Longrightarrow> \<not> isfull q \<longleftrightarrow> length (contents q) < capacity q"
  using isfull_contents [of q] contents_bound [of q] by auto

lemma fold_push:
  "valid q \<Longrightarrow> length (contents q) + length cs \<le> capacity q \<Longrightarrow>
   valid (fold (\<lambda>c q. push q c) cs q) \<and> capacity (fold (\<lambda>c q. push q c) cs q) = capacity q \<and>
   contents (fold (\<lambda>c q. push q c) cs q) = contents q @ cs"
proof (induction cs arbitrary: q)
  case (Cons c cs)
  then have "contents (push q c) = contents q @ [c]"
    by (intro contents_push) (simp_all add: room_iff)
  with Cons.prems Cons.IH [of "push q c"] show ?case
    by (simp add: valid_push capacity_push)
qed simp

lemma pop_nonempty:
  "valid q \<Longrightarrow> \<not> isempty q \<Longrightarrow>
   contents q = fst (pop q) # contents (snd (pop q))"
  using contents_pop [of q] isempty_contents [of q] by (cases "contents q") auto

end

interpretation fifo: bounded_queue
  fifo_push fifo_pop fifo_isempty fifo_isfull fifo_list fifo_len fifo_valid
proof unfold_locales
  show "fifo_valid q \<Longrightarrow> fifo_list q = x # xs \<Longrightarrow>
      fst (fifo_pop q) = x \<and> fifo_list (snd (fifo_pop q)) = xs" for q x xs
    by (rule fifo_pop_list)
qed (simp_all add: fifo_isempty_list fifo_isfull_list fifo_list_bound fifo_push_valid
    fifo_pop_valid fifo_push_list)

section \<open>Properties\<close>

fun fifo_pop_n :: "nat \<Rightarrow> FIFOBuffer \<Rightarrow> bytes \<times> FIFOBuffer" where
  "fifo_pop_n 0 fb = ([], fb)"
| "fifo_pop_n (Suc n) fb =
     (let (c, fb1) = fifo_pop fb; (cs, fb2) = fifo_pop_n n fb1 in (c # cs, fb2))"

lemma fifo_pop_n_contents:
  "fifo_valid fb \<Longrightarrow> fifo_list fb = xs \<Longrightarrow>
   fst (fifo_pop_n (length xs) fb) = xs \<and> fifo_valid (snd (fifo_pop_n (length xs) fb)) \<and>
   fifo_isempty (snd (fifo_pop_n (length xs) fb))"
proof (induction xs arbitrary: fb)
  case Nil
  then show ?case by (simp add: fifo.isempty_contents)
next
  case (Cons x xs)
  then have "fst (fifo_pop fb) = x \<and> fifo_list (snd (fifo_pop fb)) = xs"
    by (intro fifo.contents_pop)
  with Cons.IH [of "snd (fifo_pop fb)"] fifo.valid_pop [OF Cons.prems(1)] show ?case
    by (simp add: split_beta)
qed



end
