(* ===== verification/Hdlc.thy ===== *)
theory Hdlc
  imports Fifobuf
begin

text \<open>
  HDLC framing at the bit level: the bit stream parser \<^verbatim>\<open>hdlc_parse\<close> of \<^verbatim>\<open>bertos/net/afsk.c\<close>, and
  the line code as a specification (flags and bit-stuffed bytes). The parser is a shift register;
  its tests on the register are characterised by the number of ones since the last zero, and from
  that it is proved to recover every byte of a correctly coded line, escaped the way the AX.25
  layer expects it. The receive LED the code switches is left out: nothing reads it.
\<close>

section \<open>The parser\<close>

definition HDLC_FLAG :: u8 where "HDLC_FLAG = 0x7E"
definition HDLC_RESET :: u8 where "HDLC_RESET = 0x7F"
definition AX25_ESC :: u8 where "AX25_ESC = 0x1B"

lemmas hdlc_consts = HDLC_FLAG_def HDLC_RESET_def AX25_ESC_def

record Hdlc =
  demod_bits :: u8
  bit_idx :: u8
  currchar :: u8
  rxstart :: bool

definition hdlc_needs_esc :: "u8 \<Rightarrow> bool" where
  "hdlc_needs_esc c \<longleftrightarrow> c = HDLC_FLAG \<or> c = HDLC_RESET \<or> c = AX25_ESC"

text \<open>The result of \<^verbatim>\<open>hdlc_parse\<close> is its return value (false: the FIFO was full), the HDLC
  context and the FIFO.\<close>

definition hdlc_parse :: "Hdlc \<Rightarrow> bool \<Rightarrow> FIFOBuffer \<Rightarrow> bool \<times> Hdlc \<times> FIFOBuffer" where
  "hdlc_parse h0 b fifo =
     (let h = h0\<lparr>demod_bits := push_bit 1 (demod_bits h0) OR (if b then 1 else 0)\<rparr>
      in if demod_bits h = HDLC_FLAG then
           (if \<not> fifo_isfull fifo
            then (True, h\<lparr>rxstart := True, currchar := 0, bit_idx := 0\<rparr>, fifo_push fifo HDLC_FLAG)
            else (False, h\<lparr>rxstart := False, currchar := 0, bit_idx := 0\<rparr>, fifo))
         else if demod_bits h AND HDLC_RESET = HDLC_RESET then
           (True, h\<lparr>rxstart := False\<rparr>, fifo)
         else if \<not> rxstart h then (True, h, fifo)
         else if demod_bits h AND 0x3f = 0x3e then (True, h, fifo)
         else
           let h = (if demod_bits h AND 0x01 \<noteq> 0 then h\<lparr>currchar := currchar h OR 0x80\<rparr> else h);
               h = h\<lparr>bit_idx := bit_idx h + 1\<rparr>
           in if 8 \<le> bit_idx h then
                let (ret, h, fifo) =
                      (if hdlc_needs_esc (currchar h) then
                         (if \<not> fifo_isfull fifo then (True, h, fifo_push fifo AX25_ESC)
                          else (False, h\<lparr>rxstart := False\<rparr>, fifo))
                       else (True, h, fifo));
                    (ret, h, fifo) =
                      (if \<not> fifo_isfull fifo then (ret, h, fifo_push fifo (currchar h))
                       else (False, h\<lparr>rxstart := False\<rparr>, fifo))
                in (ret, h\<lparr>currchar := 0, bit_idx := 0\<rparr>, fifo)
              else (True, h\<lparr>currchar := drop_bit 1 (currchar h)\<rparr>, fifo))"

text \<open>Feeding the parser a sequence of bits; the result says whether every call succeeded.\<close>

fun hdlc_parse_bits :: "Hdlc \<Rightarrow> bool list \<Rightarrow> FIFOBuffer \<Rightarrow> bool \<times> Hdlc \<times> FIFOBuffer" where
  "hdlc_parse_bits h [] fifo = (True, h, fifo)"
| "hdlc_parse_bits h (b # bs) fifo =
     (let (r1, h1, fifo1) = hdlc_parse h b fifo; (r2, h2, fifo2) = hdlc_parse_bits h1 bs fifo1
      in (r1 \<and> r2, h2, fifo2))"

lemma hdlc_parse_bits_append:
  "hdlc_parse_bits h (xs @ ys) fifo =
     (let (r1, h1, fifo1) = hdlc_parse_bits h xs fifo;
          (r2, h2, fifo2) = hdlc_parse_bits h1 ys fifo1
      in (r1 \<and> r2, h2, fifo2))"
  by (induction xs arbitrary: h fifo) (simp_all add: split_beta Let_def)

section \<open>The line code\<close>

text \<open>
  What is on the line is a sequence of characters, each either sent as it is (an unescaped flag or
  reset) or bit-stuffed. A stuffed zero is inserted before the next bit of a stuffed character
  once five ones have been sent in a row; the count runs across stuffed characters and starts
  afresh after an unstuffed one.
\<close>

datatype line_char = Raw u8 | Data u8

fun stuff_bits :: "nat \<Rightarrow> bool list \<Rightarrow> bool list \<times> nat" where
  "stuff_bits n [] = ([], n)"
| "stuff_bits n (b # bs) =
     (let (pre, n0) = (if 5 \<le> n then ([False], 0) else ([], n));
          (out, n2) = stuff_bits (if b then Suc n0 else 0) bs
      in (pre @ b # out, n2))"

fun line_bits :: "nat \<Rightarrow> line_char list \<Rightarrow> bool list" where
  "line_bits n [] = []"
| "line_bits n (Raw c # cs) = byte_bits c @ line_bits 0 cs"
| "line_bits n (Data c # cs) =
     (let (out, n') = stuff_bits n (byte_bits c) in out @ line_bits n' cs)"

text \<open>The bytes the parser is to hand to the next layer for such a line.\<close>

definition rx_char :: "line_char \<Rightarrow> bytes" where
  "rx_char x = (case x of Raw c \<Rightarrow> [c] | Data c \<Rightarrow> if hdlc_needs_esc c then [AX25_ESC, c] else [c])"

definition rx_bytes :: "line_char list \<Rightarrow> bytes" where
  "rx_bytes cs = concat (map rx_char cs)"

section \<open>The shift register\<close>

text \<open>\<open>ones d n\<close>: the last \<open>n\<close> bits of the register are ones and the bit before is a zero.\<close>

definition ones :: "u8 \<Rightarrow> nat \<Rightarrow> bool" where
  "ones d n \<longleftrightarrow> n \<le> 6 \<and> (\<forall>i<n. bit d i) \<and> \<not> bit d n"

abbreviation shifted :: "u8 \<Rightarrow> bool \<Rightarrow> u8" where
  "shifted d b \<equiv> push_bit 1 d OR (if b then 1 else 0)"

lemma bit_shifted: "bit (shifted d b) i \<longleftrightarrow> i < 8 \<and> (if i = 0 then b else bit d (i - 1))"
proof -
  have "bit (push_bit 1 d) i \<longleftrightarrow> i < 8 \<and> 1 \<le> i \<and> bit d (i - 1)"
    using bit_push_bit_iff [of 1 d i] by auto
  moreover have "bit (if b then 1 else 0 :: u8) i \<longleftrightarrow> i = 0 \<and> b" by (simp add: bit_1_iff)
  ultimately show ?thesis by (auto simp: bit_or_iff simp del: push_bit_of_Suc_0)
qed

lemma u8_eq_bits:
  "(x :: u8) = y \<longleftrightarrow>
   (bit x 0 \<longleftrightarrow> bit y 0) \<and> (bit x 1 \<longleftrightarrow> bit y 1) \<and> (bit x 2 \<longleftrightarrow> bit y 2) \<and> (bit x 3 \<longleftrightarrow> bit y 3) \<and>
   (bit x 4 \<longleftrightarrow> bit y 4) \<and> (bit x 5 \<longleftrightarrow> bit y 5) \<and> (bit x 6 \<longleftrightarrow> bit y 6) \<and> (bit x 7 \<longleftrightarrow> bit y 7)"
proof -
  have "x = y \<longleftrightarrow> (\<forall>n<8. bit x n \<longleftrightarrow> bit y n)"
    using bit_word_eqI [of x y] by auto
  then show ?thesis by (simp add: All_less_Suc numeral_eq_Suc conj_ac)
qed

lemma all_less_6: "(\<forall>i<6. P i) \<longleftrightarrow> P 0 \<and> P 1 \<and> P 2 \<and> P 3 \<and> P 4 \<and> P (5 :: nat)"
  by (simp add: All_less_Suc numeral_eq_Suc conj_ac)

lemma all_less_5: "(\<forall>i<5. P i) \<longleftrightarrow> P 0 \<and> P 1 \<and> P 2 \<and> P 3 \<and> P (4 :: nat)"
  by (simp add: All_less_Suc numeral_eq_Suc conj_ac)

lemma ones_ge: "ones d n \<Longrightarrow> k \<le> 6 \<Longrightarrow> (\<forall>i<k. bit d i) \<longleftrightarrow> k \<le> n"
  unfolding ones_def by (meson leD leI less_le_trans)

text \<open>The three tests of the parser and the next count, in terms of the count of ones.\<close>

lemma flag_iff:
  assumes "ones d n"
  shows "shifted d b = HDLC_FLAG \<longleftrightarrow> \<not> b \<and> n = 6"
proof -
  have "shifted d b = 0x7E \<longleftrightarrow> \<not> b \<and> (\<forall>i<6. bit d i) \<and> \<not> bit d 6"
    unfolding u8_eq_bits [of "shifted d b"] bit_shifted all_less_6 by simp
  with ones_ge [OF assms, of 6] assms show ?thesis by (auto simp: HDLC_FLAG_def ones_def)
qed

lemma reset_iff:
  assumes "ones d n"
  shows "shifted d b AND HDLC_RESET = HDLC_RESET \<longleftrightarrow> b \<and> n = 6"
proof -
  have "shifted d b AND 0x7F = 0x7F \<longleftrightarrow> b \<and> (\<forall>i<6. bit d i)"
    unfolding u8_eq_bits [of "shifted d b AND 0x7F"] bit_and_iff bit_shifted all_less_6 by simp
  with ones_ge [OF assms, of 6] assms show ?thesis by (auto simp: HDLC_RESET_def ones_def)
qed

lemma stuffed_iff:
  assumes "ones d n"
  shows "shifted d b AND 0x3f = 0x3e \<longleftrightarrow> \<not> b \<and> 5 \<le> n"
proof -
  have "shifted d b AND 0x3f = 0x3e \<longleftrightarrow> \<not> b \<and> (\<forall>i<5. bit d i)"
    unfolding u8_eq_bits [of "shifted d b AND 0x3f"] bit_and_iff bit_shifted all_less_5 by simp
  with ones_ge [OF assms, of 5] show ?thesis by simp
qed

lemma low_bit_iff: "shifted d b AND 0x01 = 0 \<longleftrightarrow> \<not> b"
  unfolding u8_eq_bits [of "shifted d b AND 0x01"] bit_and_iff bit_shifted by simp

lemma ones_shifted_0: "ones (shifted d False) 0"
  unfolding ones_def bit_shifted by simp

lemma ones_shifted_1: "ones d n \<Longrightarrow> n < 6 \<Longrightarrow> ones (shifted d True) (Suc n)"
  unfolding ones_def bit_shifted by auto

lemma ones_0: "ones 0 0"
  by (simp add: ones_def)

section \<open>One bit at a time\<close>

text \<open>\<open>assembled h ps\<close>: the bits \<open>ps\<close> of the current character have been received.\<close>

definition assembled :: "Hdlc \<Rightarrow> bool list \<Rightarrow> bool" where
  "assembled h ps \<longleftrightarrow> length ps < 8 \<and> bit_idx h = word_of_nat (length ps) \<and>
     currchar h = push_bit (7 - length ps) (bits_val ps)"

definition receiving :: "Hdlc \<Rightarrow> nat \<Rightarrow> bool list \<Rightarrow> bool" where
  "receiving h n ps \<longleftrightarrow> rxstart h \<and> ones (demod_bits h) n \<and> assembled h ps"

lemma assemble_bit:
  assumes "length ps < 8"
  shows "(if b then push_bit (7 - length ps) (bits_val ps) OR 0x80
          else push_bit (7 - length ps) (bits_val ps)) =
         (push_bit (7 - length ps) (bits_val (ps @ [b])) :: u8)"
proof -
  have "bit (2 ^ 7 :: u8) i \<longleftrightarrow> i = 7" for i
    by (simp only: bit_exp_iff) (auto simp: possible_bit_word)
  then have top: "bit (0x80 :: u8) i \<longleftrightarrow> i = 7" for i by simp
  show ?thesis
  proof (rule bit_word_eqI)
    fix n assume "n < LENGTH(8)"
    then show "bit (if b then push_bit (7 - length ps) (bits_val ps) OR 0x80
          else push_bit (7 - length ps) (bits_val ps) :: u8) n =
        bit (push_bit (7 - length ps) (bits_val (ps @ [b])) :: u8) n"
      using assms top [of n]
      by (cases "n = 7") (auto simp: bit_or_iff bit_push_bit_iff bit_bits_val nth_append)
  qed
qed

lemma assemble_shift:
  assumes "length ps < 7"
  shows "drop_bit 1 (push_bit (7 - length ps) (bits_val (ps @ [b]))) =
         (push_bit (7 - length (ps @ [b])) (bits_val (ps @ [b])) :: u8)"
  using assms by (intro bit_word_eqI) (auto simp: bit_simps bit_bits_val)

lemma bits_val_byte_bits_u8: "bits_val (byte_bits c) = c"
proof (rule bit_word_eqI)
  fix n
  show "bit (bits_val (byte_bits c) :: u8) n = bit c n"
    by (cases "n < 8") (auto simp: bit_bits_val byte_bits_def dest: bit_imp_lt_8)
qed

lemma assemble_last: "byte_bits c = ps @ [b] \<Longrightarrow> bits_val (ps @ [b]) = c"
  using bits_val_byte_bits_u8 [of c] by simp

text \<open>The parser's paths, with the shifted register as one value \<open>d\<close>.\<close>

lemma parse_path_flag:
  assumes "shifted (demod_bits h) b = d" and "d = HDLC_FLAG" and "\<not> fifo_isfull fifo"
  shows "hdlc_parse h b fifo =
    (True, h\<lparr>demod_bits := d, rxstart := True, currchar := 0, bit_idx := 0\<rparr>,
     fifo_push fifo HDLC_FLAG)"
  unfolding hdlc_parse_def Let_def assms(1) using assms(2,3) by simp

lemma parse_path_idle:
  assumes "shifted (demod_bits h) b = d" and "d \<noteq> HDLC_FLAG" and "d AND HDLC_RESET \<noteq> HDLC_RESET"
    and "\<not> rxstart h \<or> d AND 0x3f = 0x3e"
  shows "hdlc_parse h b fifo = (True, h\<lparr>demod_bits := d\<rparr>, fifo)"
  unfolding hdlc_parse_def Let_def assms(1) using assms(2-) by auto

lemma parse_path_bit:
  assumes "shifted (demod_bits h) b = d" and "d \<noteq> HDLC_FLAG" and "d AND HDLC_RESET \<noteq> HDLC_RESET"
    and "rxstart h" and "d AND 0x3f \<noteq> 0x3e" and "d AND 0x01 = 0 \<longleftrightarrow> \<not> b"
    and "(if b then currchar h OR 0x80 else currchar h) = cc"
    and "bit_idx h + 1 = i" and "\<not> 8 \<le> i"
  shows "hdlc_parse h b fifo =
    (True, h\<lparr>demod_bits := d, bit_idx := i, currchar := drop_bit 1 cc\<rparr>, fifo)"
  unfolding hdlc_parse_def Let_def assms(1) assms(7) [symmetric] assms(8) [symmetric]
  using assms(2-6,9) by (simp add: assms(8))

lemma parse_path_byte:
  assumes "shifted (demod_bits h) b = d" and "d \<noteq> HDLC_FLAG" and "d AND HDLC_RESET \<noteq> HDLC_RESET"
    and "rxstart h" and "d AND 0x3f \<noteq> 0x3e" and "d AND 0x01 = 0 \<longleftrightarrow> \<not> b"
    and "(if b then currchar h OR 0x80 else currchar h) = cc"
    and "8 \<le> bit_idx h + 1"
    and "fifo_valid fifo"
    and "length (fifo_list fifo) + length (rx_char (Data cc)) \<le> fifo_len fifo"
  shows "\<exists>fifo'. hdlc_parse h b fifo =
      (True, h\<lparr>demod_bits := d, bit_idx := 0, currchar := 0\<rparr>, fifo') \<and>
    fifo_valid fifo' \<and> fifo_len fifo' = fifo_len fifo \<and>
    fifo_list fifo' = fifo_list fifo @ rx_char (Data cc)"
proof (cases "hdlc_needs_esc cc")
  case True
  then have room: "\<not> fifo_isfull fifo" "\<not> fifo_isfull (fifo_push fifo AX25_ESC)"
    using assms(9,10) by (simp_all add: fifo.room_iff fifo.valid_push fifo.contents_push rx_char_def)
  then have "hdlc_parse h b fifo =
      (True, h\<lparr>demod_bits := d, bit_idx := 0, currchar := 0\<rparr>,
       fifo_push (fifo_push fifo AX25_ESC) cc)"
    unfolding hdlc_parse_def Let_def assms(1)
    using assms(2-8) True by (cases b) simp_all
  with room True assms(9) show ?thesis
    by (simp add: fifo.valid_push fifo.contents_push rx_char_def)
next
  case False
  then have room: "\<not> fifo_isfull fifo"
    using assms(9,10) by (simp add: fifo.room_iff rx_char_def)
  then have "hdlc_parse h b fifo =
      (True, h\<lparr>demod_bits := d, bit_idx := 0, currchar := 0\<rparr>, fifo_push fifo cc)"
    unfolding hdlc_parse_def Let_def assms(1)
    using assms(2-8) False by (cases b) simp_all
  with room False assms(9) show ?thesis
    by (simp add: fifo.valid_push fifo.contents_push rx_char_def)
qed

lemma parse_stuffed:
  assumes "receiving h 5 ps"
  shows "\<exists>h'. hdlc_parse h False fifo = (True, h', fifo) \<and> receiving h' 0 ps"
proof -
  let ?d = "demod_bits h"
  from assms have o: "ones ?d 5" by (simp add: receiving_def)
  have "hdlc_parse h False fifo = (True, h\<lparr>demod_bits := shifted ?d False\<rparr>, fifo)"
    by (rule parse_path_idle [OF refl])
      (simp_all only: flag_iff [OF o] reset_iff [OF o] stuffed_iff [OF o], simp_all)
  with assms ones_shifted_0 [of ?d] show ?thesis
    by (simp only: receiving_def assembled_def) simp
qed

text \<open>A bit of a character: shifted in, and handed on when it completes the byte.\<close>

lemma data_tests:
  assumes "ones d n" and "n < 6" and "\<not> b \<Longrightarrow> n < 5"
  shows "shifted d b \<noteq> HDLC_FLAG" "shifted d b AND HDLC_RESET \<noteq> HDLC_RESET"
    "shifted d b AND 0x3f \<noteq> 0x3e" "ones (shifted d b) (if b then Suc n else 0)"
  using assms flag_iff [OF assms(1), of b] reset_iff [OF assms(1), of b] stuffed_iff [OF assms(1), of b]
    ones_shifted_1 [OF assms(1,2)] ones_shifted_0 [of d]
  by (auto split: if_splits)

lemma unat_bit_idx: "k < 256 \<Longrightarrow> (8 :: u8) \<le> word_of_nat k \<longleftrightarrow> 8 \<le> k"
  by (simp add: word_le_nat_alt unat_of_nat)

lemma assembled_cc:
  assumes "assembled h ps"
  shows "(if b then currchar h OR 0x80 else currchar h) =
    push_bit (7 - length ps) (bits_val (ps @ [b]))"
    and "bit_idx h + 1 = word_of_nat (Suc (length ps))"
    and "8 \<le> bit_idx h + 1 \<longleftrightarrow> length ps = 7"
proof -
  from assms have l: "length ps < 8" by (simp add: assembled_def)
  show "(if b then currchar h OR 0x80 else currchar h) =
    push_bit (7 - length ps) (bits_val (ps @ [b]))"
    using assms assemble_bit [OF l, of b] by (simp only: assembled_def)
  show i: "bit_idx h + 1 = word_of_nat (Suc (length ps))"
    using assms by (simp add: assembled_def)
  show "8 \<le> bit_idx h + 1 \<longleftrightarrow> length ps = 7"
    unfolding i using l by (subst unat_bit_idx) auto
qed

lemma parse_bit:
  assumes r: "receiving h n ps" and n: "n < 6" "\<not> b \<Longrightarrow> n < 5" and l: "length ps < 7"
  shows "\<exists>h'. hdlc_parse h b fifo = (True, h', fifo) \<and>
           receiving h' (if b then Suc n else 0) (ps @ [b])"
proof -
  let ?d = "demod_bits h"
  from r have o: "ones ?d n" and st: "rxstart h" and a: "assembled h ps"
    by (auto simp: receiving_def)
  have "hdlc_parse h b fifo =
    (True, h\<lparr>demod_bits := shifted ?d b, bit_idx := word_of_nat (Suc (length ps)),
             currchar := drop_bit 1 (push_bit (7 - length ps) (bits_val (ps @ [b])))\<rparr>, fifo)"
  proof (rule parse_path_bit [OF refl])
    show "\<not> 8 \<le> (word_of_nat (Suc (length ps)) :: u8)"
      using l by (subst unat_bit_idx) auto
  qed (use data_tests [OF o n] st low_bit_iff assembled_cc [OF a] in \<open>simp_all only: not_False_eq_True\<close>)
  moreover have "length (ps @ [b]) < 8" using l by simp
  ultimately show ?thesis
    using data_tests(4) [OF o n] st
    unfolding assemble_shift [OF l] by (simp only: receiving_def assembled_def) simp
qed

lemma parse_last_bit:
  assumes r: "receiving h n ps" and n: "n < 6" "\<not> b \<Longrightarrow> n < 5" and l: "byte_bits c = ps @ [b]"
    and v: "fifo_valid fifo" and room: "length (fifo_list fifo) + length (rx_char (Data c)) \<le> fifo_len fifo"
  shows "\<exists>h' fifo'. hdlc_parse h b fifo = (True, h', fifo') \<and>
           receiving h' (if b then Suc n else 0) [] \<and>
           fifo_valid fifo' \<and> fifo_len fifo' = fifo_len fifo \<and>
           fifo_list fifo' = fifo_list fifo @ rx_char (Data c)"
proof -
  let ?d = "demod_bits h"
  from r have o: "ones ?d n" and st: "rxstart h" and a: "assembled h ps"
    by (auto simp: receiving_def)
  have "length (byte_bits c) = length (ps @ [b])" by (simp only: l)
  then have len: "length ps = 7" by simp
  have cc: "(if b then currchar h OR 0x80 else currchar h) = c"
    using assembled_cc(1) [OF a, of b] len assemble_last [OF l] by simp
  have "\<exists>fifo'. hdlc_parse h b fifo =
      (True, h\<lparr>demod_bits := shifted ?d b, bit_idx := 0, currchar := 0\<rparr>, fifo') \<and>
    fifo_valid fifo' \<and> fifo_len fifo' = fifo_len fifo \<and>
    fifo_list fifo' = fifo_list fifo @ rx_char (Data c)"
    by (rule parse_path_byte [OF refl _ _ st _ _ cc _ v room])
      (use data_tests [OF o n] low_bit_iff assembled_cc(3) [OF a] len in \<open>simp_all only: not_False_eq_True\<close>)
  then obtain fifo' where "hdlc_parse h b fifo =
      (True, h\<lparr>demod_bits := shifted ?d b, bit_idx := 0, currchar := 0\<rparr>, fifo')"
    and "fifo_valid fifo'" "fifo_len fifo' = fifo_len fifo"
    "fifo_list fifo' = fifo_list fifo @ rx_char (Data c)" by blast
  moreover have "receiving (h\<lparr>demod_bits := shifted ?d b, bit_idx := 0, currchar := 0\<rparr>)
      (if b then Suc n else 0) []"
    using data_tests(4) [OF o n] st by (simp only: receiving_def assembled_def) simp
  ultimately show ?thesis by blast
qed

section \<open>Characters and lines\<close>

text \<open>\<open>fifo_gains fifo cs fifo'\<close>: the FIFO is as before with the bytes \<open>cs\<close> appended.\<close>

definition fifo_gains :: "FIFOBuffer \<Rightarrow> bytes \<Rightarrow> FIFOBuffer \<Rightarrow> bool" where
  "fifo_gains fifo cs fifo' \<longleftrightarrow> fifo_valid fifo' \<and> fifo_len fifo' = fifo_len fifo \<and>
     fifo_list fifo' = fifo_list fifo @ cs"

definition fifo_room :: "FIFOBuffer \<Rightarrow> bytes \<Rightarrow> bool" where
  "fifo_room fifo cs \<longleftrightarrow> fifo_valid fifo \<and> length (fifo_list fifo) + length cs \<le> fifo_len fifo"

lemma fifo_room_append:
  "fifo_room fifo (xs @ ys) \<Longrightarrow> fifo_gains fifo xs fifo' \<Longrightarrow> fifo_room fifo' ys"
  by (simp add: fifo_room_def fifo_gains_def)

lemma fifo_room_prefix: "fifo_room fifo (xs @ ys) \<Longrightarrow> fifo_room fifo xs"
  by (simp add: fifo_room_def)

lemma fifo_gains_trans:
  "fifo_gains f xs g \<Longrightarrow> fifo_gains g ys k \<Longrightarrow> fifo_gains f (xs @ ys) k"
  by (simp add: fifo_gains_def)

lemma fifo_gains_refl: "fifo_valid f \<Longrightarrow> fifo_gains f [] f"
  by (simp add: fifo_gains_def)

lemma parse_pending_zero:
  assumes "receiving h n ps" and "n \<le> 5"
  shows "\<exists>h'. hdlc_parse_bits h (if 5 \<le> n then [False] else []) fifo = (True, h', fifo) \<and>
    receiving h' (if 5 \<le> n then 0 else n) ps"
proof (cases "5 \<le> n")
  case True
  with assms parse_stuffed [of h ps fifo] show ?thesis by auto
next
  case False
  with assms show ?thesis by auto
qed

lemma stuff_bits_Cons:
  "stuff_bits n (b # bs) =
    (let m = (if b then Suc (if 5 \<le> n then 0 else n) else 0)
     in ((if 5 \<le> n then [False] else []) @ [b] @ fst (stuff_bits m bs), snd (stuff_bits m bs)))"
  by (simp add: split_beta Let_def)

lemma parse_stuffed_bits:
  assumes "receiving h n ps" and "n \<le> 5" and "bs \<noteq> []" and "byte_bits c = ps @ bs"
    and "fifo_room fifo (rx_char (Data c))"
  shows "\<exists>h' fifo'. hdlc_parse_bits h (fst (stuff_bits n bs)) fifo = (True, h', fifo') \<and>
    receiving h' (snd (stuff_bits n bs)) [] \<and> snd (stuff_bits n bs) \<le> 5 \<and>
    fifo_gains fifo (rx_char (Data c)) fifo'"
  using assms(1-4)
proof (induction bs arbitrary: h n ps)
  case (Cons b bs)
  let ?n0 = "if 5 \<le> n then 0 else n"
  let ?m = "if b then Suc ?n0 else 0"
  have n0: "?n0 < 6" "\<not> b \<Longrightarrow> ?n0 < 5" "?m \<le> 5" using Cons.prems(2) by auto
  obtain h1 where h1: "hdlc_parse_bits h (if 5 \<le> n then [False] else []) fifo = (True, h1, fifo)"
    and r1: "receiving h1 ?n0 ps" using parse_pending_zero [OF Cons.prems(1,2)] by blast
  show ?case
  proof (cases "bs = []")
    case True
    with Cons.prems(4) have "byte_bits c = ps @ [b]" by simp
    from parse_last_bit [OF r1 n0(1,2) this] assms(5) obtain h2 fifo' where
      "hdlc_parse h1 b fifo = (True, h2, fifo')" "receiving h2 ?m []"
      "fifo_gains fifo (rx_char (Data c)) fifo'"
      unfolding fifo_room_def fifo_gains_def by blast
    with h1 n0(3) True show ?thesis
      by (simp add: stuff_bits_Cons Let_def hdlc_parse_bits_append del: stuff_bits.simps(2))
  next
    case False
    have "length (byte_bits c) = length (ps @ b # bs)" by (simp only: Cons.prems(4))
    with False have "length ps < 7" by (cases bs) simp_all
    from parse_bit [OF r1 n0(1,2) this, where fifo = fifo] obtain h2 where
      h2: "hdlc_parse h1 b fifo = (True, h2, fifo)" and r2: "receiving h2 ?m (ps @ [b])" by blast
    have "byte_bits c = (ps @ [b]) @ bs" using Cons.prems(4) by simp
    from Cons.IH [OF r2 n0(3) False this] h1 h2 show ?thesis
      by (auto simp: stuff_bits_Cons Let_def hdlc_parse_bits_append simp del: stuff_bits.simps(2))
  qed
qed simp

lemma parse_data_char:
  assumes "receiving h n []" and "n \<le> 5" and "fifo_room fifo (rx_char (Data c))"
  shows "\<exists>h' fifo'. hdlc_parse_bits h (fst (stuff_bits n (byte_bits c))) fifo = (True, h', fifo') \<and>
    receiving h' (snd (stuff_bits n (byte_bits c))) [] \<and> snd (stuff_bits n (byte_bits c)) \<le> 5 \<and>
    fifo_gains fifo (rx_char (Data c)) fifo'"
  using parse_stuffed_bits [OF assms(1,2) _ _ assms(3), of "byte_bits c"]
  by (simp add: byte_bits_def)

text \<open>A flag is found from any point between characters, in a frame or not.\<close>

definition between :: "Hdlc \<Rightarrow> nat \<Rightarrow> bool" where
  "between h n \<longleftrightarrow> ones (demod_bits h) n \<and> n \<le> 5 \<and> (rxstart h \<longrightarrow> assembled h [])"

definition settling :: "Hdlc \<Rightarrow> nat \<Rightarrow> bool" where
  "settling h k \<longleftrightarrow> ones (demod_bits h) k \<and>
     (rxstart h \<longrightarrow> (\<exists>ps. length ps \<le> Suc k \<and> assembled h ps))"

lemma parse_idle_bit:
  assumes "\<not> rxstart h" and "ones (demod_bits h) n" and "n < 6"
  shows "hdlc_parse h b fifo = (True, h\<lparr>demod_bits := shifted (demod_bits h) b\<rparr>, fifo)"
  by (rule parse_path_idle [OF refl])
    (use assms flag_iff [OF assms(2), of b] reset_iff [OF assms(2), of b] in auto)

lemma parse_first_zero:
  assumes "between h n"
  shows "\<exists>h'. hdlc_parse h False fifo = (True, h', fifo) \<and> settling h' 0"
proof (cases "rxstart h")
  case True
  with assms have r: "receiving h n []" and "n \<le> 5" by (simp_all add: between_def receiving_def)
  show ?thesis
  proof (cases "n = 5")
    case True
    with r parse_stuffed [of h "[]" fifo] show ?thesis
      by (auto simp: receiving_def settling_def intro!: exI [of _ "[]"])
  next
    case False
    with r \<open>n \<le> 5\<close> parse_bit [of h n "[]" False fifo] show ?thesis
      by (auto simp: receiving_def settling_def intro!: exI [of _ "[False]"])
  qed
next
  case False
  with assms parse_idle_bit [of h n False fifo] ones_shifted_0 [of "demod_bits h"] show ?thesis
    by (auto simp: between_def settling_def)
qed

lemma parse_ones:
  "settling h k \<Longrightarrow> k + j \<le> 6 \<Longrightarrow>
   \<exists>h'. hdlc_parse_bits h (replicate j True) fifo = (True, h', fifo) \<and> settling h' (k + j)"
proof (induction j arbitrary: h k)
  case (Suc j)
  from Suc.prems have o: "ones (demod_bits h) k" and k: "k < 6" by (auto simp: settling_def)
  have "\<exists>h1. hdlc_parse h True fifo = (True, h1, fifo) \<and> settling h1 (Suc k)"
  proof (cases "rxstart h")
    case True
    with Suc.prems obtain ps where ps: "length ps \<le> Suc k" "assembled h ps"
      by (auto simp: settling_def)
    with True o have "receiving h k ps" by (simp add: receiving_def)
    then show ?thesis
      using parse_bit [of h k ps True fifo] ps k
      by (auto simp: receiving_def settling_def intro!: exI [of _ "ps @ [True]"])
  next
    case False
    with o k parse_idle_bit [of h k True fifo] ones_shifted_1 [OF o k] show ?thesis
      by (auto simp: settling_def)
  qed
  then obtain h1 where "hdlc_parse h True fifo = (True, h1, fifo)" "settling h1 (Suc k)" by blast
  with Suc.IH [of h1 "Suc k"] Suc.prems show ?case by auto
qed auto

lemma byte_bits_flag: "byte_bits HDLC_FLAG = [False] @ replicate 6 True @ [False]"
  by (simp add: byte_bits_def HDLC_FLAG_def upt_rec numeral_eq_Suc)

lemma parse_flag_char:
  assumes "between h n" and "fifo_room fifo [HDLC_FLAG]"
  shows "\<exists>h' fifo'. hdlc_parse_bits h (byte_bits HDLC_FLAG) fifo = (True, h', fifo') \<and>
    receiving h' 0 [] \<and> fifo_gains fifo [HDLC_FLAG] fifo'"
proof -
  obtain h1 where h1: "hdlc_parse h False fifo = (True, h1, fifo)" and s1: "settling h1 0"
    using parse_first_zero [OF assms(1)] by blast
  obtain h2 where h2: "hdlc_parse_bits h1 (replicate 6 True) fifo = (True, h2, fifo)"
    and s2: "settling h2 6" using parse_ones [OF s1, of 6] by auto
  let ?d = "shifted (demod_bits h2) False"
  have flag: "?d = HDLC_FLAG" using s2 flag_iff [of "demod_bits h2" 6 False] by (simp add: settling_def)
  have room: "\<not> fifo_isfull fifo" using assms(2) by (simp add: fifo_room_def fifo.room_iff)
  have "hdlc_parse h2 False fifo =
    (True, h2\<lparr>demod_bits := ?d, rxstart := True, currchar := 0, bit_idx := 0\<rparr>, fifo_push fifo HDLC_FLAG)"
    by (rule parse_path_flag [OF refl flag room])
  moreover have "receiving (h2\<lparr>demod_bits := ?d, rxstart := True, currchar := 0, bit_idx := 0\<rparr>) 0 []"
    using ones_shifted_0 [of "demod_bits h2"] by (simp only: receiving_def assembled_def) simp
  moreover have "fifo_gains fifo [HDLC_FLAG] (fifo_push fifo HDLC_FLAG)"
    using assms(2) room
    by (simp add: fifo_gains_def fifo_room_def fifo.valid_push fifo.contents_push)
  ultimately show ?thesis
    using h1 h2 by (auto simp: byte_bits_flag hdlc_parse_bits_append)
qed

lemma receiving_between: "receiving h n [] \<Longrightarrow> n \<le> 5 \<Longrightarrow> between h n"
  by (simp add: receiving_def between_def)

text \<open>A line the transmitter can produce: the only unstuffed character is the flag, and stuffed
  characters come after one.\<close>

fun well_framed :: "bool \<Rightarrow> line_char list \<Rightarrow> bool" where
  "well_framed started [] = True"
| "well_framed started (Raw c # cs) \<longleftrightarrow> c = HDLC_FLAG \<and> well_framed True cs"
| "well_framed started (Data c # cs) \<longleftrightarrow> started \<and> well_framed True cs"

lemma rx_bytes_Cons [simp]: "rx_bytes (x # cs) = rx_char x @ rx_bytes cs"
  by (simp add: rx_bytes_def)

lemma rx_bytes_Nil [simp]: "rx_bytes [] = []"
  by (simp add: rx_bytes_def)

lemma parse_line:
  "between h n \<Longrightarrow> well_framed (rxstart h) cs \<Longrightarrow> fifo_room fifo (rx_bytes cs) \<Longrightarrow>
   \<exists>h' fifo'. hdlc_parse_bits h (line_bits n cs) fifo = (True, h', fifo') \<and>
     fifo_gains fifo (rx_bytes cs) fifo'"
proof (induction cs arbitrary: h n fifo)
  case Nil
  then show ?case by (auto simp: fifo_gains_def fifo_room_def)
next
  case (Cons x cs)
  have room: "fifo_room fifo (rx_char x)" using Cons.prems(3) by (auto intro: fifo_room_prefix)
  have "\<exists>h1 fifo1 m bits. line_bits n (x # cs) = bits @ line_bits m cs \<and> m \<le> 5 \<and>
      hdlc_parse_bits h bits fifo = (True, h1, fifo1) \<and> receiving h1 m [] \<and>
      fifo_gains fifo (rx_char x) fifo1"
  proof (cases x)
    case (Raw c)
    with Cons.prems room parse_flag_char [OF Cons.prems(1), of fifo] show ?thesis
      by (auto simp: rx_char_def)
  next
    case (Data c)
    with Cons.prems have "receiving h n []" "n \<le> 5" by (auto simp: between_def receiving_def)
    from parse_data_char [OF this, of fifo c] room Data show ?thesis
      by (auto simp: split_beta Let_def)
  qed
  then obtain h1 fifo1 m bits where *: "line_bits n (x # cs) = bits @ line_bits m cs" "m \<le> 5"
      "hdlc_parse_bits h bits fifo = (True, h1, fifo1)" "receiving h1 m []"
      "fifo_gains fifo (rx_char x) fifo1" by blast
  have "well_framed (rxstart h1) cs"
    using Cons.prems(2) *(4) by (cases x) (auto simp: receiving_def)
  with *(2,4,5) Cons.prems(3) Cons.IH [of h1 m fifo1]
  obtain h2 fifo2 where "hdlc_parse_bits h1 (line_bits m cs) fifo1 = (True, h2, fifo2)"
    "fifo_gains fifo1 (rx_bytes cs) fifo2"
    by (auto intro: receiving_between fifo_room_append)
  with *(1,3,5) show ?case
    by (auto simp: hdlc_parse_bits_append intro: fifo_gains_trans)
qed

section \<open>Arbitrary bits\<close>

text \<open>\<open>offer fifo c\<close>: the code's guarded push, and whether there was room.\<close>

definition offer :: "FIFOBuffer \<Rightarrow> u8 \<Rightarrow> bool \<times> FIFOBuffer" where
  "offer fifo c = (if \<not> fifo_isfull fifo then (True, fifo_push fifo c) else (False, fifo))"

lemma offer_gains:
  "fifo_valid fifo \<Longrightarrow> fifo_gains fifo (if fst (offer fifo c) then [c] else []) (snd (offer fifo c))"
  by (auto simp: offer_def fifo_gains_def fifo.valid_push fifo.contents_push)

text \<open>Whatever arrives, one call appends at most an escape and a byte, keeps the FIFO valid and
  the bit index below 8, and a refused push leaves the parser waiting for a flag.\<close>

lemma hdlc_parse_cases:
  assumes "hdlc_parse h b fifo = (ret, h', fifo')" and "fifo_valid fifo" and "bit_idx h < 8"
  shows "bit_idx h' < 8 \<and> (\<not> ret \<longrightarrow> \<not> rxstart h') \<and>
    (\<exists>cs. length cs \<le> 2 \<and> fifo_gains fifo cs fifo')"
proof -
  define grown where "grown f \<longleftrightarrow> (\<exists>cs. length cs \<le> 2 \<and> fifo_gains fifo cs f)" for f
  have grownI: "fifo_gains fifo cs f \<Longrightarrow> length cs \<le> 2 \<Longrightarrow> grown f" for cs f
    by (auto simp: grown_def)
  have g0: "grown fifo" by (rule grownI [of "[]"]) (simp_all add: fifo_gains_refl assms(2))
  have g1: "\<not> fifo_isfull fifo \<Longrightarrow> grown (fifo_push fifo c)" for c
    using offer_gains [OF assms(2), of c] by (intro grownI [of "[c]"]) (simp_all add: offer_def)
  have g2: "\<not> fifo_isfull fifo \<Longrightarrow> \<not> fifo_isfull (fifo_push fifo c) \<Longrightarrow>
      grown (fifo_push (fifo_push fifo c) e)" for c e
    using offer_gains [OF fifo.valid_push [OF assms(2)], of c e] offer_gains [OF assms(2), of c]
      fifo_gains_trans [of fifo "[c]" "fifo_push fifo c" "[e]"]
    by (intro grownI [of "[c, e]"]) (simp_all add: offer_def)
  have "bit_idx h' < 8 \<and> (\<not> ret \<longrightarrow> \<not> rxstart h') \<and> grown fifo'"
    using assms(1,3) g0 g1 g2 unfolding hdlc_parse_def Let_def
    by (auto split: if_splits)
  then show ?thesis by (simp add: grown_def)
qed

definition hdlc_init :: Hdlc where
  "hdlc_init = \<lparr>demod_bits = 0, bit_idx = 0, currchar = 0, rxstart = False\<rparr>"

lemma between_init: "between hdlc_init 0"
  by (simp add: between_def hdlc_init_def ones_0)

text \<open>
  C5. \<^verbatim>\<open>hdlc_parse\<close> decodes the line code: fed, from its initial state, the bits of any line of
  flags and bit-stuffed characters that starts with a flag, it pushes on the FIFO exactly one flag
  per flag and every data byte (with an escape before 0x7E, 0x7F and 0x1B), and never reports an
  overrun while they fit.
\<close>

theorem hdlc_decodes_line:
  assumes "well_framed False cs" and "fifo_valid fifo"
    and "length (fifo_list fifo) + length (rx_bytes cs) \<le> fifo_len fifo"
  shows "\<exists>h' fifo'. hdlc_parse_bits hdlc_init (line_bits 0 cs) fifo = (True, h', fifo') \<and>
    fifo_valid fifo' \<and> fifo_list fifo' = fifo_list fifo @ rx_bytes cs"
  using parse_line [OF between_init, of cs fifo] assms
  by (auto simp: hdlc_init_def fifo_room_def fifo_gains_def)

theorem hdlc_decodes_line_witness:
  "\<exists>h' fifo'. hdlc_parse_bits hdlc_init
     (line_bits 0 [Raw HDLC_FLAG, Data 0xFF, Data 0x7E, Raw HDLC_FLAG]) (fifo_init (replicate 64 0) 64)
     = (True, h', fifo') \<and> fifo_valid fifo' \<and> fifo_list fifo' = [0x7E, 0xFF, 0x1B, 0x7E, 0x7E]"
proof -
  let ?cs = "[Raw HDLC_FLAG, Data 0xFF, Data 0x7E, Raw HDLC_FLAG]"
  let ?f = "fifo_init (replicate 64 0) 64"
  have rx: "rx_bytes ?cs = [0x7E, 0xFF, 0x1B, 0x7E, 0x7E]"
    by (simp add: rx_char_def hdlc_needs_esc_def hdlc_consts)
  have "well_framed False ?cs" "fifo_valid ?f"
    "length (fifo_list ?f) + length (rx_bytes ?cs) \<le> fifo_len ?f"
    unfolding rx by (simp_all add: fifo_valid_init)
  from hdlc_decodes_line [OF this] show ?thesis by (simp only: rx fifo_list_init append_Nil)
qed

end
