(* ===== verification/Kfile.thy ===== *)
theory Kfile
  imports Aprs_Prelude "HOL-Library.Monad_Syntax"
begin

text \<open>
  The byte channel interface of \<^verbatim>\<open>bertos/io/kfile.[ch]\<close>: a table of operations that the modem and
  the serial port fill in, and the generic operations built on it. A blocking operation that never
  returns is \<open>None\<close>. The locale \<open>kfile_writer\<close> states what the layers above rely on: a write returns,
  accepts every byte in order, and leaves the channel ready for the next one; \<open>kfile_out\<close> adds that a flush returns.
\<close>

section \<open>The table of operations\<close>

record 'ch KFile =
  k_read :: "nat \<Rightarrow> 'ch \<Rightarrow> bytes \<times> 'ch"
  k_write :: "bytes \<Rightarrow> 'ch \<Rightarrow> (nat \<times> 'ch) option"
  k_flush :: "'ch \<Rightarrow> 'ch option"
  k_error :: "'ch \<Rightarrow> i16"
  k_clearerr :: "'ch \<Rightarrow> 'ch"

text \<open>\<^verbatim>\<open>EOF\<close> is \<open>None\<close> in the result of \<^verbatim>\<open>kfile_getc\<close> and of \<^verbatim>\<open>kfile_putc\<close>.\<close>

definition kfile_putc :: "'ch KFile \<Rightarrow> u8 \<Rightarrow> 'ch \<Rightarrow> (u8 option \<times> 'ch) option" where
  "kfile_putc fd c ch =
     do { (n, ch) \<leftarrow> k_write fd [c] ch;
          Some (if n = 1 then Some c else None, ch) }"

definition kfile_getc :: "'ch KFile \<Rightarrow> 'ch \<Rightarrow> u8 option \<times> 'ch" where
  "kfile_getc fd ch =
     (case k_read fd 1 ch of
        ([c], ch') \<Rightarrow> (Some c, ch')
      | (_, ch') \<Rightarrow> (None, ch'))"

text \<open>A C string is the bytes before its terminator; the flag is the return value 0.\<close>

fun kfile_print :: "'ch KFile \<Rightarrow> bytes \<Rightarrow> 'ch \<Rightarrow> (bool \<times> 'ch) option" where
  "kfile_print fd [] ch = Some (True, ch)"
| "kfile_print fd (c # s) ch =
     do { (r, ch) \<leftarrow> kfile_putc fd c ch;
          if r = None then Some (False, ch) else kfile_print fd s ch }"

text \<open>Copying between two channels in blocks of at most 32 bytes.\<close>

function kfile_copy ::
  "'a KFile \<Rightarrow> 'b KFile \<Rightarrow> nat \<Rightarrow> nat \<Rightarrow> 'a \<Rightarrow> 'b \<Rightarrow> (nat \<times> 'a \<times> 'b) option" where
  "kfile_copy src dst sz cp_len a b =
     (if sz = 0 then Some (cp_len, a, b)
      else let len = min 32 sz; (buf, a) = k_read src len a
           in if length buf \<noteq> len then Some (cp_len, a, b)
              else (case k_write dst buf b of
                  None \<Rightarrow> None
                | Some (wr_len, b) \<Rightarrow>
                    if wr_len \<noteq> len then Some (cp_len + wr_len, a, b)
                    else kfile_copy src dst (sz - len) (cp_len + wr_len) a b))"
  by pat_completeness auto
termination by (relation "measure (\<lambda>(src, dst, sz, cp_len, a, b). sz)") auto

declare kfile_copy.simps [simp del]

section \<open>The position of a file\<close>

datatype KSeekMode = KSM_SEEK_SET | KSM_SEEK_CUR | KSM_SEEK_END

record KFilePos =
  seek_pos :: i32
  fsize :: i32

definition kfile_genericSeek :: "'a KFilePos_scheme \<Rightarrow> i32 \<Rightarrow> KSeekMode \<Rightarrow> i32 \<times> 'a KFilePos_scheme" where
  "kfile_genericSeek fd offset whence =
     (let pos = (case whence of KSM_SEEK_SET \<Rightarrow> 0 | KSM_SEEK_END \<Rightarrow> fsize fd | KSM_SEEK_CUR \<Rightarrow> seek_pos fd);
          fd = fd\<lparr>seek_pos := pos + offset\<rparr>
      in (seek_pos fd, fd))"

text \<open>\<^verbatim>\<open>kfile_init\<close>: every operation is the stub that returns 0.\<close>

definition kfile_init :: "'ch KFile" where
  "kfile_init =
     \<lparr>k_read = \<lambda>n ch. ([], ch), k_write = \<lambda>bs ch. Some (0, ch), k_flush = Some, k_error = \<lambda>ch. 0,
      k_clearerr = \<lambda>ch. ch\<rparr>"

section \<open>What a channel promises\<close>

locale kfile_writer =
  fixes fd :: "'ch KFile"
    and ready :: "'ch \<Rightarrow> bool"
    and accepted :: "'ch \<Rightarrow> bytes"
  assumes write_all: "ready ch \<Longrightarrow>
      \<exists>ch'. k_write fd bs ch = Some (length bs, ch') \<and> ready ch' \<and> accepted ch' = accepted ch @ bs"
begin

lemma putc_ok: "ready ch \<Longrightarrow>
    \<exists>ch'. kfile_putc fd c ch = Some (Some c, ch') \<and> ready ch' \<and> accepted ch' = accepted ch @ [c]"
  using write_all [of ch "[c]"] by (auto simp: kfile_putc_def)

lemma print_ok: "ready ch \<Longrightarrow>
    \<exists>ch'. kfile_print fd s ch = Some (True, ch') \<and> ready ch' \<and> accepted ch' = accepted ch @ s"
proof (induction s arbitrary: ch)
  case (Cons c s)
  obtain ch1 where 1: "kfile_putc fd c ch = Some (Some c, ch1)" "ready ch1"
    "accepted ch1 = accepted ch @ [c]" using putc_ok [OF Cons.prems] by blast
  with Cons.IH [OF 1(2)] show ?case by auto
qed simp

end

text \<open>A channel on which also a flush returns.\<close>

locale kfile_out = kfile_writer fd ready accepted
  for fd :: "'ch KFile" and ready accepted +
  assumes flush_done: "ready ch \<Longrightarrow>
      \<exists>ch'. k_flush fd ch = Some ch' \<and> ready ch' \<and> accepted ch' = accepted ch"

text \<open>An input side: what is waiting, and that a read takes it in order.\<close>

locale kfile_in =
  fixes fd :: "'ch KFile"
    and readable :: "'ch \<Rightarrow> bool"
    and waiting :: "'ch \<Rightarrow> bytes"
  assumes read_prefix: "readable ch \<Longrightarrow> k_read fd n ch = (bs, ch') \<Longrightarrow>
      bs = take n (waiting ch) \<and> waiting ch' = drop n (waiting ch) \<and> readable ch'"
begin

lemma getc_ok: "readable ch \<Longrightarrow>
    fst (kfile_getc fd ch) = (case waiting ch of [] \<Rightarrow> None | c # _ \<Rightarrow> Some c) \<and>
    waiting (snd (kfile_getc fd ch)) = tl (waiting ch) \<and> readable (snd (kfile_getc fd ch))"
proof -
  assume r: "readable ch"
  obtain bs ch' where k: "k_read fd 1 ch = (bs, ch')" by (cases "k_read fd 1 ch")
  from read_prefix [OF r k] show ?thesis
    by (cases "waiting ch") (auto simp: kfile_getc_def k [unfolded One_nat_def] drop_Suc)
qed

end

locale kfile_copying = src: kfile_in sfd readable waiting + dst: kfile_writer dfd ready accepted
  for sfd :: "'a KFile" and readable waiting and dfd :: "'b KFile" and ready accepted
begin

lemma copy_all:
  "readable a \<Longrightarrow> ready b \<Longrightarrow> sz \<le> length (waiting a) \<Longrightarrow>
   \<exists>a' b'. kfile_copy sfd dfd sz cp a b = Some (cp + sz, a', b') \<and>
     accepted b' = accepted b @ take sz (waiting a) \<and> waiting a' = drop sz (waiting a)"
proof (induction sz arbitrary: cp a b rule: less_induct)
  case (less sz)
  show ?case
  proof (cases "sz = 0")
    case True
    then show ?thesis by (simp add: kfile_copy.simps [of _ _ 0])
  next
    case False
    let ?len = "min 32 sz"
    obtain buf a1 where r: "k_read sfd ?len a = (buf, a1)" by (cases "k_read sfd ?len a")
    from src.read_prefix [OF less.prems(1) r] have buf: "buf = take ?len (waiting a)"
      "waiting a1 = drop ?len (waiting a)" "readable a1" by auto
    then have len: "length buf = ?len" using less.prems(3) by simp
    obtain b1 where w: "k_write dfd buf b = Some (?len, b1)" "ready b1"
      "accepted b1 = accepted b @ buf" using dst.write_all [OF less.prems(2), of buf] len by auto
    have step: "kfile_copy sfd dfd sz cp a b = kfile_copy sfd dfd (sz - ?len) (cp + ?len) a1 b1"
      by (subst kfile_copy.simps) (simp add: False r len w(1) Let_def)
    from less.IH [of "sz - ?len", OF _ buf(3) w(2), of "cp + ?len"] False less.prems(3) buf(1,2) w(3)
    show ?thesis unfolding step by (auto simp: take_add [symmetric])
  qed
qed

end

end
