(* ===== verification/Timer.thy ===== *)
theory Timer
  imports Aprs_Prelude "HOL-Library.Monad_Syntax" "HOL-Library.Multiset"
begin

text \<open>
  The system timer of \<^verbatim>\<open>bertos/drv/timer.[ch]\<close> with 1000 ticks per second. Ticks and milliseconds are
  signed 32-bit integers that wrap (the sources are compiled with \<^verbatim>\<open>-fwrapv\<close>), so times are compared
  by the sign of their difference. A queue of soft timers is the list of its nodes in link order; the
  event of a timer is whatever function its owner registered, and is a parameter of \<open>timer_poll\<close>,
  which may not end when an event adds an expired timer again.
\<close>

section \<open>Time\<close>

definition TIMER_TICKS_PER_SEC :: int where "TIMER_TICKS_PER_SEC = 1000"

definition ms_to_ticks :: "i32 \<Rightarrow> i32" where
  "ms_to_ticks ms = ms * word_of_int ((TIMER_TICKS_PER_SEC + 500) div 1000)"

text \<open>C division truncates towards zero.\<close>

definition c_div :: "int \<Rightarrow> int \<Rightarrow> int" where
  "c_div a b = sgn a * sgn b * (\<bar>a\<bar> div \<bar>b\<bar>)"

definition ticks_to_ms :: "i32 \<Rightarrow> i32" where
  "ticks_to_ms t = word_of_int (c_div (sint t) (TIMER_TICKS_PER_SEC div 1000))"

definition timer_clock_seconds :: "i32 \<Rightarrow> i32" where
  "timer_clock_seconds clock = word_of_int (c_div (sint (ticks_to_ms clock)) 1000)"

text \<open>The busy wait: the timer interrupt advances the clock while it spins.\<close>

partial_function (option) timer_spin :: "i32 \<Rightarrow> i32 \<Rightarrow> i32 \<Rightarrow> i32 option" where
  "timer_spin start delay clock =
     (if sint (clock - start) < sint delay then timer_spin start delay (clock + 1) else Some clock)"

definition timer_delayTicks :: "i32 \<Rightarrow> i32 \<Rightarrow> i32 option" where
  "timer_delayTicks delay clock = timer_spin clock delay clock"

definition timer_delay :: "i32 \<Rightarrow> i32 \<Rightarrow> i32 option" where
  "timer_delay ms clock = timer_delayTicks (ms_to_ticks ms) clock"

text \<open>
  The high precision wait on the hardware counter, which counts 0 up to \<open>TIMER_HW_CNT\<close>: the list is
  the sequence of its readings.
\<close>

definition TIMER_HW_CNT :: u8 where "TIMER_HW_CNT = 249"

fun timer_busyWait :: "u8 list \<Rightarrow> u8 \<Rightarrow> u8 \<Rightarrow> unit option" where
  "timer_busyWait [] prev delay = None"
| "timer_busyWait (now # env) prev delay =
     (let delta = (if now < prev then TIMER_HW_CNT - prev + now else now - prev)
      in if delay \<le> delta then Some () else timer_busyWait env now (delay - delta))"

section \<open>Soft timers\<close>

record 'ev Timer =
  t_delay :: i32
  t_tick :: i32
  t_expire :: 'ev

fun timer_addToList :: "'ev Timer \<Rightarrow> 'ev Timer list \<Rightarrow> 'ev Timer list" where
  "timer_addToList timer [] = [timer]"
| "timer_addToList timer (node # queue) =
     (if 0 < sint (t_tick node - t_tick timer) then timer # node # queue
      else node # timer_addToList timer queue)"

definition timer_add :: "i32 \<Rightarrow> 'ev Timer \<Rightarrow> 'ev Timer list \<Rightarrow> 'ev Timer list" where
  "timer_add clock timer queue = timer_addToList (timer\<lparr>t_tick := clock + t_delay timer\<rparr>) queue"

definition synctimer_readd :: "'ev Timer \<Rightarrow> 'ev Timer list \<Rightarrow> 'ev Timer list" where
  "synctimer_readd timer queue = timer_addToList (timer\<lparr>t_tick := t_tick timer + t_delay timer\<rparr>) queue"

definition timer_abort :: "'ev Timer \<Rightarrow> 'ev Timer list \<Rightarrow> 'ev Timer list" where
  "timer_abort timer queue = remove1 timer queue"

partial_function (option) timer_poll ::
  "('ev \<Rightarrow> 'ev Timer list \<times> 's \<Rightarrow> 'ev Timer list \<times> 's) \<Rightarrow> i32 \<Rightarrow> 'ev Timer list \<times> 's \<Rightarrow> ('ev Timer list \<times> 's) option" where
  "timer_poll event_do clock s =
     (case fst s of
        [] \<Rightarrow> Some s
      | timer # queue \<Rightarrow>
          if sint (clock - t_tick timer) < 0 then Some s
          else timer_poll event_do clock (event_do (t_expire timer) (queue, snd s)))"

definition synctimer_nextTimeout :: "i32 \<Rightarrow> 'ev Timer list \<Rightarrow> i32" where
  "synctimer_nextTimeout clock queue =
     (case queue of [] \<Rightarrow> - 1
      | timer # _ \<Rightarrow> if 0 < sint (t_tick timer - clock) then t_tick timer - clock else 0)"

text \<open>The timer interrupt.\<close>

definition TIMER0_COMPA_vect ::
  "('ev \<Rightarrow> 'ev Timer list \<times> 's \<Rightarrow> 'ev Timer list \<times> 's) \<Rightarrow> i32 \<times> 'ev Timer list \<times> 's \<Rightarrow> (i32 \<times> 'ev Timer list \<times> 's) option" where
  "TIMER0_COMPA_vect event_do s =
     (let clock = fst s + 1 in do { q \<leftarrow> timer_poll event_do clock (snd s); Some (clock, q) })"

section \<open>Waiting ends\<close>

lemma sint_sub_i32:
  "- 2147483648 \<le> sint a - sint b \<Longrightarrow> sint a - sint b < 2147483648 \<Longrightarrow> sint (a - b :: i32) = sint a - sint b"
  by (simp add: sint_word_ariths signed_take_bit_int_eq_self)

lemma sint_add_i32:
  "- 2147483648 \<le> sint a + sint b \<Longrightarrow> sint a + sint b < 2147483648 \<Longrightarrow> sint (a + b :: i32) = sint a + sint b"
  by (simp add: sint_word_ariths signed_take_bit_int_eq_self)

lemma ms_to_ticks_id [simp]: "ms_to_ticks ms = ms"
  by (simp add: ms_to_ticks_def TIMER_TICKS_PER_SEC_def)

lemma sint_i32_less: "sint (d :: i32) < 2147483648"
  using sint_lt [of d] by simp

lemma timer_spin_returns:
  "0 \<le> sint (clock - start) \<Longrightarrow> sint (clock - start) \<le> sint delay \<Longrightarrow> timer_spin start delay clock = Some (start + delay)"
proof (induction "nat (sint delay - sint (clock - start))" arbitrary: clock)
  case 0
  then have "sint delay = sint (clock - start)" by simp
  then have "delay = clock - start" by (simp add: signed_word_eqI)
  then show ?case by (subst timer_spin.simps) simp
next
  case (Suc n)
  have lt: "sint (clock - start) < sint delay" using Suc.hyps(2) by linarith
  have "sint (clock - start + 1) = sint (clock - start) + 1"
    using lt Suc.prems sint_i32_less [of delay] by (subst sint_add_i32) simp_all
  then have s: "sint (clock + 1 - start) = sint (clock - start) + 1" by (simp add: algebra_simps)
  have "timer_spin start delay (clock + 1) = Some (start + delay)"
    using Suc.hyps(2) Suc.prems lt s by (intro Suc.hyps(1)) linarith+
  with lt show ?case by (subst timer_spin.simps) simp
qed

lemma timer_delay_returns: "0 \<le> sint ms \<Longrightarrow> timer_delay ms clock = Some (clock + ms)"
  by (simp add: timer_delay_def timer_delayTicks_def timer_spin_returns)

lemma timer_delay_negative: "sint ms < 0 \<Longrightarrow> timer_delay ms clock = Some clock"
  by (simp add: timer_delay_def timer_delayTicks_def timer_spin.simps)

section \<open>Soft timers run in order\<close>

text \<open>The ticks left until a timer expires, and the window in which the wrap-around comparison is
  exact: all deadlines within half an epoch of 2 to the 31 ticks.\<close>

definition due :: "i32 \<Rightarrow> 'ev Timer \<Rightarrow> int" where
  "due clock t = sint (t_tick t - clock)"

definition in_window :: "i32 \<Rightarrow> 'ev Timer \<Rightarrow> bool" where
  "in_window clock t \<longleftrightarrow> \<bar>due clock t\<bar> < 1073741824"

definition timers_ok :: "i32 \<Rightarrow> 'ev Timer list \<Rightarrow> bool" where
  "timers_ok clock q \<longleftrightarrow> list_all (in_window clock) q \<and> sorted (map (due clock) q)"

lemma due_compare:
  "in_window clock a \<Longrightarrow> in_window clock b \<Longrightarrow> sint (t_tick a - t_tick b) = due clock a - due clock b"
proof -
  assume "in_window clock a" "in_window clock b"
  then have "sint ((t_tick a - clock) - (t_tick b - clock)) = due clock a - due clock b"
    by (subst sint_sub_i32) (auto simp: in_window_def due_def)
  then show ?thesis by (simp add: algebra_simps)
qed

lemma due_expired: "in_window clock t \<Longrightarrow> sint (clock - t_tick t) < 0 \<longleftrightarrow> 0 < due clock t"
proof -
  assume "in_window clock t"
  then have "sint (0 - (t_tick t - clock)) = - due clock t"
    by (subst sint_sub_i32) (auto simp: in_window_def due_def)
  then show ?thesis by (simp add: algebra_simps)
qed

lemma addToList_mset: "mset (timer_addToList t q) = add_mset t (mset q)"
  by (induction q) auto

lemma addToList_set: "set (timer_addToList t q) = insert t (set q)"
  using addToList_mset [of t q] by (metis set_mset_add_mset_insert set_mset_mset)

lemma addToList_ok: "timers_ok clock q \<Longrightarrow> in_window clock t \<Longrightarrow> timers_ok clock (timer_addToList t q)"
proof (induction q)
  case (Cons n q)
  then have n: "in_window clock n" and q: "timers_ok clock q" "\<forall>x \<in> set q. due clock n \<le> due clock x"
    by (auto simp: timers_ok_def)
  from Cons.IH [OF q(1) Cons.prems(2)] n q(2) Cons.prems show ?case
    by (auto simp: timers_ok_def due_compare addToList_set list_all_iff)
qed (simp add: timers_ok_def)

definition log_event :: "'ev \<Rightarrow> 'ev Timer list \<times> 'ev list \<Rightarrow> 'ev Timer list \<times> 'ev list" where
  "log_event ev s = (fst s, snd s @ [ev])"

lemma log_event_apply: "log_event ev (q, evs) = (q, evs @ [ev])"
  by (simp add: log_event_def)

lemma timer_poll_log:
  "timers_ok clock q \<Longrightarrow> timer_poll log_event clock (q, evs) =
     Some (filter (\<lambda>t. 0 < due clock t) q, evs @ map t_expire (filter (\<lambda>t. due clock t \<le> 0) q))"
proof (induction q arbitrary: evs)
  case Nil
  then show ?case by (subst timer_poll.simps) simp
next
  case (Cons t q)
  then have t: "in_window clock t" and q: "timers_ok clock q" "\<forall>x \<in> set q. due clock t \<le> due clock x"
    by (auto simp: timers_ok_def)
  show ?case
  proof (cases "0 < due clock t")
    case True
    then have "filter (\<lambda>t. 0 < due clock t) q = q" "filter (\<lambda>t. due clock t \<le> 0) q = []"
      using q(2) by (fastforce intro: filter_True filter_False)+
    with True t show ?thesis by (subst timer_poll.simps) (simp add: due_expired)
  next
    case False
    with t Cons.IH [OF q(1)] show ?thesis by (subst timer_poll.simps) (simp add: due_expired log_event_apply)
  qed
qed

text \<open>
  C35. The soft timers fire in the order of their deadlines across the wrap-around of the 32-bit
  clock: as long as all deadlines are within half an epoch, adding a timer keeps the queue sorted and
  loses none, and a poll runs exactly the expired ones, earliest first, and leaves the others waiting.
\<close>

theorem timers_fire_in_order:
  assumes "timers_ok clock q" and "0 \<le> sint (t_delay t)" and "sint (t_delay t) < 1073741824"
  shows "let q' = timer_add clock t q
    in timers_ok clock q' \<and> mset q' = add_mset (t\<lparr>t_tick := clock + t_delay t\<rparr>) (mset q) \<and>
       timer_poll log_event clock (q', evs) =
         Some (filter (\<lambda>t. 0 < due clock t) q', evs @ map t_expire (filter (\<lambda>t. due clock t \<le> 0) q')) \<and>
       sorted (map (due clock) (filter (\<lambda>t. due clock t \<le> 0) q'))"
proof -
  have "in_window clock (t\<lparr>t_tick := clock + t_delay t\<rparr>)"
    using assms(2,3) by (simp add: in_window_def due_def)
  from addToList_ok [OF assms(1) this] have ok: "timers_ok clock (timer_add clock t q)"
    by (simp add: timer_add_def)
  moreover have "sorted (map (due clock) (filter (\<lambda>t. due clock t \<le> 0) (timer_add clock t q)))"
    using ok by (simp add: timers_ok_def sorted_filter)
  ultimately show ?thesis by (simp add: Let_def timer_poll_log) (simp add: timer_add_def addToList_mset)
qed

theorem timers_fire_in_order_witness:
  "mset (timer_add 0x7fffffff \<lparr>t_delay = 5, t_tick = 0, t_expire = True\<rparr> [\<lparr>t_delay = 2, t_tick = 0x80000001, t_expire = False\<rparr>])
     = {#\<lparr>t_delay = 5, t_tick = 0x80000004, t_expire = True\<rparr>, \<lparr>t_delay = 2, t_tick = 0x80000001, t_expire = False\<rparr>#}"
proof -
  let ?q = "[\<lparr>t_delay = 2, t_tick = 0x80000001, t_expire = False\<rparr>]"
  let ?t = "\<lparr>t_delay = 5, t_tick = 0, t_expire = True\<rparr>"
  have "timers_ok 0x7fffffff ?q" by (simp add: timers_ok_def in_window_def due_def)
  moreover have "0 \<le> sint (t_delay ?t)" "sint (t_delay ?t) < 1073741824" by simp_all
  ultimately show ?thesis using timers_fire_in_order [of "0x7fffffff" ?q ?t] by (simp add: Let_def)
qed

end
