(* ===== verification/Kfile_Generic.thy ===== *)
theory Kfile_Generic
  imports Kfile Timer Fifobuf
begin

text \<open>
  The rest of \<^verbatim>\<open>bertos/io/kfile.c\<close>, generic operations that work on every channel: reading lines, resynchronisation,
  reopening and closing. Then two further channels of the library, over a FIFO (\<^verbatim>\<open>bertos/struct/kfile_fifo.c\<close>) and over
  a block of memory (\<^verbatim>\<open>bertos/struct/kfile_mem.c\<close>). The FIFO channel is an instance of the interface of an input
  channel, so that the lemma on reading lines holds for it. \<open>None\<close> stands for a write or copy outside an object.
\<close>

section \<open>Lines\<close>

text \<open>The value is the number of characters or -1, with the buffer and the channel; the size is an \<^verbatim>\<open>int\<close>.\<close>

function kfile_gets_loop :: "'ch KFile \<Rightarrow> bool \<Rightarrow> int \<Rightarrow> nat \<Rightarrow> bytes \<Rightarrow> 'ch \<Rightarrow> (int \<times> bytes \<times> 'ch) option" where
  "kfile_gets_loop fd echo sz i buf ch =
     (if length buf \<le> i then None
      else case kfile_getc fd ch of
        (None, ch) \<Rightarrow> Some (- 1, buf[i := 0], ch)
      | (Some c, ch) \<Rightarrow>
          if c = 13 \<or> c = 10 \<or> sz - 1 \<le> int i then
            (if echo then do { (_, ch) \<leftarrow> kfile_print fd [13, 10] ch; Some (int i, buf[i := 0], ch) }
             else Some (int i, buf[i := 0], ch))
          else
            (case (if echo then map_option snd (kfile_putc fd c ch) else Some ch) of
               None \<Rightarrow> None
             | Some ch \<Rightarrow> kfile_gets_loop fd echo sz (Suc i) (buf[i := c]) ch))"
  by pat_completeness auto
termination by (relation "measure (\<lambda>(fd, echo, sz, i, buf, ch). length buf - i)") auto

declare kfile_gets_loop.simps [simp del]

definition kfile_gets_echo :: "'ch KFile \<Rightarrow> bytes \<Rightarrow> int \<Rightarrow> bool \<Rightarrow> 'ch \<Rightarrow> (int \<times> bytes \<times> 'ch) option" where
  "kfile_gets_echo fd buf sz echo ch = kfile_gets_loop fd echo sz 0 buf ch"

definition kfile_gets :: "'ch KFile \<Rightarrow> bytes \<Rightarrow> int \<Rightarrow> 'ch \<Rightarrow> (int \<times> bytes \<times> 'ch) option" where
  "kfile_gets fd buf sz ch = kfile_gets_echo fd buf sz False ch"

section \<open>Resynchronisation, reopening and closing\<close>

text \<open>
  A turn of the loop of \<^verbatim>\<open>kfile_resync\<close>: what interrupts do to the channel before it, the time when a character was
  received and the time of the comparison. At the end of the list of turns it is still running.
\<close>

fun kfile_resync_loop :: "'ch KFile \<Rightarrow> i32 \<Rightarrow> i32 \<Rightarrow> (('ch \<Rightarrow> 'ch) \<times> i32 \<times> i32) list \<Rightarrow> 'ch \<Rightarrow> 'ch option" where
  "kfile_resync_loop fd delay start_time [] ch = None"
| "kfile_resync_loop fd delay start_time ((irq, t1, t2) # turns) ch =
     (let (c, ch) = kfile_getc fd (irq ch);
          start_time = (if c \<noteq> None then t1 else start_time)
      in if sint (ms_to_ticks delay) < sint (t2 - start_time) then Some (k_clearerr fd ch)
         else kfile_resync_loop fd delay start_time turns ch)"

definition kfile_resync :: "'ch KFile \<Rightarrow> i32 \<Rightarrow> i32 \<Rightarrow> (('ch \<Rightarrow> 'ch) \<times> i32 \<times> i32) list \<Rightarrow> 'ch \<Rightarrow> 'ch option" where
  "kfile_resync fd delay clock turns ch = kfile_resync_loop fd delay clock turns ch"

definition kfile_genericReopen :: "('a KFilePos_scheme) KFile \<Rightarrow> 'a KFilePos_scheme \<Rightarrow> 'a KFilePos_scheme option" where
  "kfile_genericReopen fd ch =
     do { ch \<leftarrow> k_flush fd ch; Some (snd (kfile_genericSeek ch 0 KSM_SEEK_SET)) }"

definition kfile_genericClose :: "'ch KFile \<Rightarrow> 'ch \<Rightarrow> 'ch option" where
  "kfile_genericClose fd ch = k_flush fd ch"

section \<open>A channel over a FIFO\<close>

fun kfilefifo_read :: "nat \<Rightarrow> FIFOBuffer \<Rightarrow> bytes \<times> FIFOBuffer" where
  "kfilefifo_read 0 fb = ([], fb)"
| "kfilefifo_read (Suc n) fb =
     (if fifo_isempty fb then ([], fb)
      else let (c, fb) = fifo_pop fb; (bs, fb) = kfilefifo_read n fb in (c # bs, fb))"

fun kfilefifo_write :: "bytes \<Rightarrow> FIFOBuffer \<Rightarrow> nat \<times> FIFOBuffer" where
  "kfilefifo_write [] fb = (0, fb)"
| "kfilefifo_write (c # buf) fb =
     (if fifo_isfull fb then (0, fb)
      else let (n, fb) = kfilefifo_write buf (fifo_push fb c) in (Suc n, fb))"

text \<open>\<^verbatim>\<open>kfilefifo_init\<close> sets the two operations; the other entries of the table are left null and are not called.\<close>

definition kfilefifo_init :: "FIFOBuffer KFile" where
  "kfilefifo_init = kfile_init\<lparr>k_read := kfilefifo_read, k_write := \<lambda>bs fb. Some (kfilefifo_write bs fb)\<rparr>"

section \<open>A file in memory\<close>

record KFileMem = KFilePos +
  mem :: bytes

text \<open>The smaller of the size asked for and what is left, as a 32-bit integer that is stored into a \<^verbatim>\<open>size_t\<close>.\<close>

definition kfilemem_size :: "u16 \<Rightarrow> KFileMem \<Rightarrow> u16" where
  "kfilemem_size sz fd =
     (let left = fsize fd - seek_pos fd
      in if sint (ucast sz :: i32) < sint left then sz else ucast left)"

definition kfilemem_inside :: "u16 \<Rightarrow> KFileMem \<Rightarrow> bool" where
  "kfilemem_inside n fd \<longleftrightarrow> 0 \<le> sint (seek_pos fd) \<and> sint (seek_pos fd) + int (unat n) \<le> int (length (mem fd))"

definition kfilemem_read :: "u16 \<Rightarrow> KFileMem \<Rightarrow> (bytes \<times> KFileMem) option" where
  "kfilemem_read sz fd =
     (let n = kfilemem_size sz fd
      in if kfilemem_inside n fd
         then Some (take (unat n) (drop (unat (seek_pos fd)) (mem fd)), fd\<lparr>seek_pos := seek_pos fd + ucast n\<rparr>)
         else None)"

definition kfilemem_write :: "bytes \<Rightarrow> KFileMem \<Rightarrow> (u16 \<times> KFileMem) option" where
  "kfilemem_write buf fd =
     (let n = kfilemem_size (of_nat (length buf)) fd
      in if kfilemem_inside n fd
         then Some (n, fd\<lparr>mem := mem_write (mem fd) (unat (seek_pos fd)) (take (unat n) buf),
                          seek_pos := seek_pos fd + ucast n\<rparr>)
         else None)"

definition kfilemem_init :: "bytes \<Rightarrow> u16 \<Rightarrow> KFileMem" where
  "kfilemem_init m len = \<lparr>seek_pos = 0, fsize = ucast len, mem = m\<rparr>"

section \<open>The FIFO channel is an input channel\<close>

lemma kfilefifo_read_take:
  "fifo_valid fb \<Longrightarrow> kfilefifo_read n fb = (bs, fb') \<Longrightarrow>
   bs = take n (fifo_list fb) \<and> fifo_list fb' = drop n (fifo_list fb) \<and> fifo_valid fb'"
proof (induction n arbitrary: fb bs)
  case (Suc n)
  show ?case
  proof (cases "fifo_list fb")
    case Nil
    with Suc.prems show ?thesis by (auto simp: fifo_isempty_list)
  next
    case (Cons c cs)
    obtain fb1 where p: "fifo_pop fb = (c, fb1)" "fifo_list fb1 = cs" "fifo_valid fb1"
      using fifo_pop_list [OF Suc.prems(1) Cons] fifo_pop_valid [OF Suc.prems(1)] by (cases "fifo_pop fb") auto
    obtain bs1 where "kfilefifo_read n fb1 = (bs1, fb')" "bs = c # bs1"
      using Suc.prems Cons p(1) by (auto simp: fifo_isempty_list split: prod.splits)
    with Suc.IH [OF p(3)] p(2) Cons show ?thesis by simp
  qed
qed simp

interpretation fifo_in: kfile_in kfilefifo_init fifo_valid fifo_list
  by unfold_locales (simp add: kfilefifo_init_def kfilefifo_read_take)

text \<open>A write takes what there is room for.\<close>

lemma kfilefifo_write_room:
  "fifo_valid fb \<Longrightarrow> n = fifo_len fb - length (fifo_list fb) \<Longrightarrow> kfilefifo_write buf fb = (k, fb') \<Longrightarrow>
   k = min n (length buf) \<and> fifo_list fb' = fifo_list fb @ take n buf \<and> fifo_valid fb' \<and> fifo_len fb' = fifo_len fb"
proof (induction buf arbitrary: fb n k)
  case (Cons c buf)
  show ?case
  proof (cases "fifo_isfull fb")
    case True
    with Cons.prems show ?thesis by (auto simp: fifo_isfull_list)
  next
    case False
    then have "length (fifo_list fb) < fifo_len fb"
      using fifo_isfull_list [OF Cons.prems(1)] fifo_list_bound [OF Cons.prems(1)] by simp
    moreover obtain k1 where "kfilefifo_write buf (fifo_push fb c) = (k1, fb')" "k = Suc k1"
      using Cons.prems(3) False by (auto split: prod.splits)
    ultimately show ?thesis
      using Cons.IH [OF fifo_push_valid [OF Cons.prems(1)] refl, of c k1] Cons.prems(2) fifo_push_list [OF Cons.prems(1) False]
      by (auto simp: take_Cons' Suc_diff_Suc)
  qed
qed simp

section \<open>Reading lines\<close>

context kfile_in
begin

text \<open>The loop stores the characters before a line end, or before the one for which there is no room.\<close>

lemma gets_loop_ok:
  "readable ch \<Longrightarrow> \<forall>c \<in> set line. c \<noteq> 13 \<and> c \<noteq> 10 \<Longrightarrow> waiting ch = line @ e # rest \<Longrightarrow>
   e = 13 \<or> e = 10 \<or> sz - 1 \<le> int i + int (length line) \<Longrightarrow> int i + int (length line) < sz \<Longrightarrow>
   i + length line < length buf \<Longrightarrow>
   \<exists>ch'. kfile_gets_loop fd False sz i buf ch = Some (int (i + length line), mem_write buf i (line @ [0]), ch') \<and>
     waiting ch' = rest \<and> readable ch'"
proof (induction line arbitrary: i buf ch)
  case Nil
  obtain ch1 where "kfile_getc fd ch = (Some e, ch1)" "waiting ch1 = rest" "readable ch1"
    using getc_ok [OF Nil.prems(1)] Nil.prems(3) by (cases "kfile_getc fd ch") auto
  moreover have "buf[i := 0] = mem_write buf i [0]" using Nil.prems(6) by (simp add: mem_write_def upd_conv_take_nth_drop)
  ultimately show ?case using Nil.prems by (subst kfile_gets_loop.simps) auto
next
  case (Cons c line)
  obtain ch1 where g: "kfile_getc fd ch = (Some c, ch1)" "waiting ch1 = line @ e # rest" "readable ch1"
    using getc_ok [OF Cons.prems(1)] Cons.prems(3) by (cases "kfile_getc fd ch") auto
  have step: "kfile_gets_loop fd False sz i buf ch = kfile_gets_loop fd False sz (Suc i) (buf[i := c]) ch1"
    using Cons.prems g by (subst kfile_gets_loop.simps) auto
  have "mem_write (buf[i := c]) (Suc i) (line @ [0]) = mem_write buf i (c # line @ [0])"
    using Cons.prems(6) by (simp add: mem_write_def take_Suc_update drop_update_cancel)
  with Cons.IH [OF g(3) _ g(2), of "Suc i" "buf[i := c]"] Cons.prems show ?case by (auto simp: step)
qed

text \<open>A line that fits is delivered without its end; of a longer one the first part, and one character is lost.\<close>

lemma gets_line:
  assumes "readable ch" "\<forall>c \<in> set line. c \<noteq> 13 \<and> c \<noteq> 10" "waiting ch = line @ e # rest" "e = 13 \<or> e = 10"
    and "int (length line) < sz" "sz \<le> int (length buf)"
  shows "\<exists>ch'. kfile_gets fd buf sz ch = Some (int (length line), mem_write buf 0 (line @ [0]), ch') \<and> waiting ch' = rest"
  using gets_loop_ok [OF assms(1-3), of sz 0 buf] assms(4-6)
  by (auto simp: kfile_gets_def kfile_gets_echo_def)

lemma gets_long_line:
  assumes "readable ch" "\<forall>c \<in> set line. c \<noteq> 13 \<and> c \<noteq> 10" "waiting ch = line @ lost # rest"
    and "int (length line) + 1 = sz" "sz \<le> int (length buf)"
  shows "\<exists>ch'. kfile_gets fd buf sz ch = Some (int (length line), mem_write buf 0 (line @ [0]), ch') \<and> waiting ch' = rest"
  using gets_loop_ok [OF assms(1-3), of sz 0 buf] assms(4,5)
  by (auto simp: kfile_gets_def kfile_gets_echo_def)

text \<open>On a channel that stays silent, resynchronisation ends with the first comparison later than the delay.\<close>

lemma resync_quiet:
  "readable ch \<Longrightarrow> waiting ch = [] \<Longrightarrow>
   \<forall>(irq, t1, t2) \<in> set turns. \<forall>ch. readable ch \<and> waiting ch = [] \<longrightarrow> readable (irq ch) \<and> waiting (irq ch) = [] \<Longrightarrow>
   \<exists>(irq, t1, t2) \<in> set turns. sint (ms_to_ticks delay) < sint (t2 - start) \<Longrightarrow>
   \<exists>ch'. kfile_resync_loop fd delay start turns ch = Some ch'"
proof (induction turns arbitrary: ch)
  case (Cons turn turns)
  obtain irq t1 t2 where t: "turn = (irq, t1, t2)" by (cases turn)
  have irq: "readable (irq ch)" "waiting (irq ch) = []" using Cons.prems t by auto
  obtain c ch1 where g: "kfile_getc fd (irq ch) = (c, ch1)" by (cases "kfile_getc fd (irq ch)")
  have "c = None" "waiting ch1 = []" "readable ch1" using getc_ok [OF irq(1)] g irq(2) by simp_all
  with Cons.IH [of ch1] Cons.prems t g show ?case by (auto simp: Let_def)
qed simp

end


text \<open>These hold for the channel over a FIFO.\<close>

lemma fifo_gets_line:
  assumes "fifo_valid fb" "\<forall>c \<in> set line. c \<noteq> 13 \<and> c \<noteq> 10" "fifo_list fb = line @ e # rest" "e = 13 \<or> e = 10"
    and "int (length line) < sz" "sz \<le> int (length buf)"
  shows "\<exists>fb'. kfile_gets kfilefifo_init buf sz fb = Some (int (length line), mem_write buf 0 (line @ [0]), fb') \<and>
    fifo_list fb' = rest"
  by (rule fifo_in.gets_line [OF assms])

section \<open>Files in memory\<close>

definition kfilemem_ok :: "KFileMem \<Rightarrow> bool" where
  "kfilemem_ok fd \<longleftrightarrow> length (mem fd) < 65536 \<and> sint (fsize fd) = int (length (mem fd)) \<and>
     0 \<le> sint (seek_pos fd) \<and> sint (seek_pos fd) \<le> sint (fsize fd)"

text \<open>What is left, and how much an operation moves.\<close>

lemma uint_sint_i32: "0 \<le> sint (x :: i32) \<Longrightarrow> uint x = sint x"
  using sint_lt [of x] by (simp add: uint_sint take_bit_int_eq_self)

lemma sint_ucast_u16: "sint (ucast (n :: u16) :: i32) = uint n"
proof -
  have "int (unat n) < int 65536" using unat_u16_less [of n] by (simp only: of_nat_less_iff)
  then have "uint n < 65536" by simp
  then have "signed_take_bit 31 (uint n) = uint n" by (intro signed_take_bit_int_eq_self) (auto intro: order_trans [of _ 0])
  moreover have "take_bit 32 (uint n) = uint n" using \<open>uint n < 65536\<close> by (simp add: take_bit_int_eq_self)
  ultimately show ?thesis by (simp add: sint_uint unsigned_ucast_eq)
qed

lemma kfilemem_size_ok:
  assumes "kfilemem_ok fd"
  shows "unat (seek_pos fd) \<le> length (mem fd)" "int (unat (seek_pos fd)) = sint (seek_pos fd)"
    "unat (kfilemem_size sz fd) = min (unat sz) (length (mem fd) - unat (seek_pos fd))"
proof -
  let ?p = "seek_pos fd" and ?left = "fsize fd - seek_pos fd"
  have p: "0 \<le> sint ?p" "sint ?p \<le> int (length (mem fd))" "length (mem fd) < 65536"
    using assms by (simp_all add: kfilemem_ok_def)
  have u: "uint ?p = sint ?p" using p(1) by (rule uint_sint_i32)
  then show "int (unat ?p) = sint ?p" by simp
  then show le: "unat ?p \<le> length (mem fd)" using p(2) by linarith
  have left: "sint ?left = int (length (mem fd)) - sint ?p"
    using assms p by (subst sint_sub_i32) (simp_all add: kfilemem_ok_def)
  then have ul: "uint ?left = int (length (mem fd)) - uint ?p" using uint_sint_i32 [of ?left] p u by simp
  then have "uint (ucast ?left :: u16) = int (length (mem fd)) - uint ?p"
    using p u by (simp add: unsigned_ucast_eq take_bit_int_eq_self)
  then have "int (unat (ucast ?left :: u16)) = int (length (mem fd)) - int (unat ?p)" by simp
  then have m: "unat (ucast ?left :: u16) = length (mem fd) - unat ?p" by linarith
  have "sint (ucast sz :: i32) < sint ?left \<longleftrightarrow> int (unat sz) < int (length (mem fd)) - int (unat ?p)"
    using left u by (simp add: sint_ucast_u16)
  also have "\<dots> \<longleftrightarrow> unat sz < length (mem fd) - unat ?p" by linarith
  finally show "unat (kfilemem_size sz fd) = min (unat sz) (length (mem fd) - unat ?p)"
    by (simp add: kfilemem_size_def Let_def m)
qed

text \<open>The position and the number of bytes moved as natural numbers.\<close>

lemma kfilemem_view:
  assumes "kfilemem_ok fd"
  obtains p n where "unat (seek_pos fd) = p" "sint (seek_pos fd) = int p" "unat (kfilemem_size sz fd) = n"
    "uint (kfilemem_size sz fd) = int n" "n = min (unat sz) (length (mem fd) - p)" "p + n \<le> length (mem fd)"
proof -
  note s = kfilemem_size_ok(1,2) [OF assms] kfilemem_size_ok(3) [OF assms, of sz]
  show ?thesis
  proof (rule that [OF refl s(2) [symmetric] refl])
    show "uint (kfilemem_size sz fd) = int (unat (kfilemem_size sz fd))" by simp
    show "unat (seek_pos fd) + unat (kfilemem_size sz fd) \<le> length (mem fd)" using s(1,3) by auto
  qed (rule s(3))
qed

lemma kfilemem_moved:
  assumes "kfilemem_ok fd" "length m = length (mem fd)"
  shows "kfilemem_inside (kfilemem_size sz fd) fd"
    "kfilemem_ok (fd\<lparr>mem := m, seek_pos := seek_pos fd + ucast (kfilemem_size sz fd)\<rparr>)"
proof -
  obtain p n where v: "sint (seek_pos fd) = int p" "uint (kfilemem_size sz fd) = int n" "p + n \<le> length (mem fd)"
    using kfilemem_view [OF assms(1), of sz] by metis
  then show "kfilemem_inside (kfilemem_size sz fd) fd" by (simp add: kfilemem_inside_def)
  have "sint (seek_pos fd + ucast (kfilemem_size sz fd)) = int (p + n)"
    using v assms(1) by (subst sint_add_i32) (simp_all add: kfilemem_ok_def sint_ucast_u16)
  with v assms show "kfilemem_ok (fd\<lparr>mem := m, seek_pos := seek_pos fd + ucast (kfilemem_size sz fd)\<rparr>)"
    by (simp add: kfilemem_ok_def)
qed

lemma kfilemem_read_ok:
  assumes "kfilemem_ok fd"
  shows "\<exists>fd'. kfilemem_read sz fd = Some (take (unat sz) (drop (unat (seek_pos fd)) (mem fd)), fd') \<and> kfilemem_ok fd'"
  using kfilemem_size_ok(3) [OF assms, of sz] kfilemem_moved [OF assms refl, of sz]
  by (simp add: kfilemem_read_def Let_def min_def)

lemma kfilemem_write_ok:
  assumes "kfilemem_ok fd" "unat (seek_pos fd) + length buf \<le> length (mem fd)"
  shows "\<exists>fd'. kfilemem_write buf fd = Some (of_nat (length buf), fd') \<and> kfilemem_ok fd' \<and>
    mem fd' = mem_write (mem fd) (unat (seek_pos fd)) buf \<and> fsize fd' = fsize fd"
proof -
  have len: "length buf < 65536" using assms by (simp add: kfilemem_ok_def)
  then have u: "unat (of_nat (length buf) :: u16) = length buf" by (simp add: unat_of_nat)
  then have "unat (kfilemem_size (of_nat (length buf)) fd) = length buf"
    using kfilemem_size_ok(3) [OF assms(1), of "of_nat (length buf)"] assms(2) by auto
  with u have n: "kfilemem_size (of_nat (length buf)) fd = of_nat (length buf)" by (simp add: word_unat_eq_iff)
  from kfilemem_moved [OF assms(1), of "mem_write (mem fd) (unat (seek_pos fd)) buf" "of_nat (length buf)"] n u assms(2)
  show ?thesis by (simp add: kfilemem_write_def Let_def)
qed

text \<open>What is written to a file in memory is read back from the same position.\<close>

lemma kfilemem_roundtrip:
  assumes "kfilemem_ok fd" "unat (seek_pos fd) + length buf \<le> length (mem fd)"
  shows "\<exists>fd' fd''. kfilemem_write buf fd = Some (of_nat (length buf), fd') \<and>
    kfilemem_read (of_nat (length buf)) (snd (kfile_genericSeek fd' (seek_pos fd) KSM_SEEK_SET)) = Some (buf, fd'')"
proof -
  obtain fd' where w: "kfilemem_write buf fd = Some (of_nat (length buf), fd')" "kfilemem_ok fd'"
    "mem fd' = mem_write (mem fd) (unat (seek_pos fd)) buf" "fsize fd' = fsize fd"
    using kfilemem_write_ok [OF assms] by blast
  let ?fd = "fd'\<lparr>seek_pos := seek_pos fd\<rparr>"
  have "kfilemem_ok ?fd" using w assms by (simp add: kfilemem_ok_def)
  from kfilemem_read_ok [OF this, of "of_nat (length buf)"] w take_mem_write_same [of "unat (seek_pos fd)" "mem fd" buf] assms
  show ?thesis by (auto simp: kfile_genericSeek_def Let_def unat_of_nat kfilemem_ok_def)
qed

text \<open>
  The generic seek accepts positions past the end. What is left is then negative, and a read of any size becomes a copy
  of almost 64 KB from outside the block.
\<close>

lemma kfilemem_past_end:
  assumes "kfilemem_ok fd" "0 < k" "k < 32768"
    and fd': "fd' = snd (kfile_genericSeek fd (of_int k) KSM_SEEK_END)"
  shows "int (unat (kfilemem_size sz fd')) = 65536 - k" "kfilemem_read sz fd' = None"
proof -
  have k: "sint (of_int k :: i32) = k" "sint (- of_int k :: i32) = - k"
    using assms(2,3) by (simp_all add: sint_sbintrunc' signed_take_bit_int_eq_self flip: of_int_minus)
  have pos: "seek_pos fd' = fsize fd + of_int k" "fsize fd' = fsize fd" "mem fd' = mem fd"
    by (simp_all add: fd' kfile_genericSeek_def Let_def)
  have sp: "sint (seek_pos fd') = int (length (mem fd)) + k"
    unfolding pos using assms k by (subst sint_add_i32) (simp_all add: kfilemem_ok_def)
  have left: "fsize fd' - seek_pos fd' = - of_int k" by (simp add: pos)
  have "\<not> sint (ucast sz :: i32) < sint (fsize fd' - seek_pos fd')"
    unfolding left sint_ucast_u16 k using assms(2) by (simp add: not_less order_trans [of _ 0])
  then have n: "kfilemem_size sz fd' = ucast (- of_int k :: i32)" by (simp add: kfilemem_size_def Let_def left)
  have "uint (ucast (- of_int k :: i32) :: u16) = (- k) mod 65536"
    by (simp add: unsigned_ucast_eq uint_word_of_int take_bit_eq_mod mod_mod_cancel flip: of_int_minus)
  also have "\<dots> = 65536 - k" using assms(2,3) by (simp add: zmod_zminus1_eq_if)
  finally show "int (unat (kfilemem_size sz fd')) = 65536 - k" by (simp add: n)
  then have "\<not> kfilemem_inside (kfilemem_size sz fd') fd'"
    unfolding kfilemem_inside_def sp pos(3) using assms(2,3) by simp
  then show "kfilemem_read sz fd' = None" by (simp add: kfilemem_read_def Let_def)
qed

end
