(* ===== verification/Linked_List.thy ===== *)
theory Linked_List
  imports Aprs_Prelude "HOL-Library.Monad_Syntax"
begin

text \<open>
  The intrusive doubly linked lists of \<^verbatim>\<open>bertos/struct/list.h\<close> on an explicit memory: a \<^verbatim>\<open>Node\<close> for every
  address, with 0 for \<^verbatim>\<open>NULL\<close>. The operations are the assignments of the macros one by one, so that what they do depends
  on which nodes are the same. \<open>is_list\<close> relates a memory to the list of the nodes linked in it; every operation is then
  one on lists, and leaves the other lists of the memory alone.
\<close>

section \<open>Nodes and lists\<close>

type_synonym addr = u16

record Node =
  succ :: addr
  pred :: addr

type_synonym node_mem = "addr \<Rightarrow> Node"

definition set_succ :: "addr \<Rightarrow> addr \<Rightarrow> node_mem \<Rightarrow> node_mem" where
  "set_succ p q m = m(p := (m p)\<lparr>succ := q\<rparr>)"

definition set_pred :: "addr \<Rightarrow> addr \<Rightarrow> node_mem \<Rightarrow> node_mem" where
  "set_pred p q m = m(p := (m p)\<lparr>pred := q\<rparr>)"

text \<open>A \<^verbatim>\<open>List\<close> is two nodes in a row; a node takes two pointers of two bytes.\<close>

definition l_head :: "addr \<Rightarrow> addr" where "l_head l = l"
definition l_tail :: "addr \<Rightarrow> addr" where "l_tail l = l + 4"

definition LIST_HEAD :: "addr \<Rightarrow> node_mem \<Rightarrow> addr" where
  "LIST_HEAD l m = succ (m (l_head l))"

definition LIST_TAIL :: "addr \<Rightarrow> node_mem \<Rightarrow> addr" where
  "LIST_TAIL l m = pred (m (l_tail l))"

definition LIST_EMPTY :: "addr \<Rightarrow> node_mem \<Rightarrow> bool" where
  "LIST_EMPTY l m \<longleftrightarrow> succ (m (l_head l)) = l_tail l"

definition LIST_INIT :: "addr \<Rightarrow> node_mem \<Rightarrow> node_mem" where
  "LIST_INIT l m =
     (let m = set_succ (l_head l) (l_tail l) m;
          m = set_pred (l_head l) 0 m;
          m = set_succ (l_tail l) 0 m
      in set_pred (l_tail l) (l_head l) m)"

definition ADDHEAD :: "addr \<Rightarrow> addr \<Rightarrow> node_mem \<Rightarrow> node_mem" where
  "ADDHEAD l n m =
     (let m = set_succ n (succ (m (l_head l))) m;
          m = set_pred n (pred (m (succ (m (l_head l))))) m;
          m = set_pred (succ (m n)) n m
      in set_succ (pred (m n)) n m)"

definition ADDTAIL :: "addr \<Rightarrow> addr \<Rightarrow> node_mem \<Rightarrow> node_mem" where
  "ADDTAIL l n m =
     (let m = set_succ n (l_tail l) m;
          m = set_pred n (pred (m (l_tail l))) m;
          m = set_succ (pred (m n)) n m
      in set_pred (l_tail l) n m)"

definition INSERT_BEFORE :: "addr \<Rightarrow> addr \<Rightarrow> node_mem \<Rightarrow> node_mem" where
  "INSERT_BEFORE n ln m =
     (let m = set_succ n ln m;
          m = set_pred n (pred (m ln)) m;
          m = set_succ (pred (m ln)) n m
      in set_pred ln n m)"

definition REMOVE :: "addr \<Rightarrow> node_mem \<Rightarrow> node_mem" where
  "REMOVE n m =
     (let m = set_succ (pred (m n)) (succ (m n)) m
      in set_pred (succ (m n)) (pred (m n)) m)"

text \<open>A null pointer is the answer for an empty list.\<close>

definition list_remHead :: "addr \<Rightarrow> node_mem \<Rightarrow> addr \<times> node_mem" where
  "list_remHead l m =
     (if LIST_EMPTY l m then (0, m)
      else let n = succ (m (l_head l));
               m = set_succ (l_head l) (succ (m n)) m
           in (n, set_pred (succ (m n)) (l_head l) m))"

definition list_remTail :: "addr \<Rightarrow> node_mem \<Rightarrow> addr \<times> node_mem" where
  "list_remTail l m =
     (if LIST_EMPTY l m then (0, m)
      else let n = pred (m (l_tail l));
               m = set_pred (l_tail l) (pred (m n)) m
           in (n, set_succ (pred (m n)) (l_tail l) m))"

text \<open>
  The iteration over a list: the nodes \<^verbatim>\<open>FOREACH_NODE\<close> visits, and the node at which a search for the first one
  that satisfies \<open>stop\<close> ends. On a memory whose links form a ring they do not return.
\<close>

partial_function (option) FOREACH_NODE :: "node_mem \<Rightarrow> addr \<Rightarrow> addr list option" where
  "FOREACH_NODE m n =
     (if succ (m n) \<noteq> 0 then do { ns \<leftarrow> FOREACH_NODE m (succ (m n)); Some (n # ns) } else Some [])"

partial_function (option) REVERSE_FOREACH_NODE :: "node_mem \<Rightarrow> addr \<Rightarrow> addr list option" where
  "REVERSE_FOREACH_NODE m n =
     (if pred (m n) \<noteq> 0 then do { ns \<leftarrow> REVERSE_FOREACH_NODE m (pred (m n)); Some (n # ns) } else Some [])"

partial_function (option) list_seek :: "(addr \<Rightarrow> bool) \<Rightarrow> node_mem \<Rightarrow> addr \<Rightarrow> addr option" where
  "list_seek stop m n =
     (if succ (m n) \<noteq> 0 then if stop n then Some n else list_seek stop m (succ (m n)) else Some n)"

text \<open>Priority queues: \<open>pri\<close> is the field of that name of the nodes.\<close>

definition LIST_ENQUEUE_HEAD :: "(addr \<Rightarrow> i16) \<Rightarrow> addr \<Rightarrow> addr \<Rightarrow> node_mem \<Rightarrow> node_mem option" where
  "LIST_ENQUEUE_HEAD pri l n m =
     do { ln \<leftarrow> list_seek (\<lambda>ln. sint (pri ln) \<le> sint (pri n)) m (LIST_HEAD l m); Some (INSERT_BEFORE n ln m) }"

definition LIST_ENQUEUE :: "(addr \<Rightarrow> i16) \<Rightarrow> addr \<Rightarrow> addr \<Rightarrow> node_mem \<Rightarrow> node_mem option" where
  "LIST_ENQUEUE pri l n m =
     do { ln \<leftarrow> list_seek (\<lambda>ln. sint (pri ln) < sint (pri n)) m (LIST_HEAD l m); Some (INSERT_BEFORE n ln m) }"

section \<open>Links\<close>

lemma set_succ_sel [simp]:
  "succ (set_succ p q m x) = (if x = p then q else succ (m x))" "pred (set_succ p q m x) = pred (m x)"
  "pred (set_pred p q m x) = (if x = p then q else pred (m x))" "succ (set_pred p q m x) = succ (m x)"
  by (simp_all add: set_succ_def set_pred_def)

fun linked :: "node_mem \<Rightarrow> addr list \<Rightarrow> bool" where
  "linked m (a # b # ns) \<longleftrightarrow> succ (m a) = b \<and> pred (m b) = a \<and> linked m (b # ns)"
| "linked m ns \<longleftrightarrow> True"

lemma linked_append: "linked m (as @ a # b # bs) \<longleftrightarrow> linked m (as @ [a]) \<and> succ (m a) = b \<and> pred (m b) = a \<and> linked m (b # bs)"
proof (induction as)
  case (Cons x as)
  then show ?case by (cases as) auto
qed simp

lemma linked_cong:
  "(\<And>x. x \<in> set (butlast ns) \<Longrightarrow> succ (m' x) = succ (m x)) \<Longrightarrow> (\<And>x. x \<in> set (tl ns) \<Longrightarrow> pred (m' x) = pred (m x)) \<Longrightarrow>
   linked m' ns = linked m ns"
  by (induction m ns rule: linked.induct) auto

lemma linked_front:
  assumes "\<And>x. x \<in> set as \<Longrightarrow> succ (m' x) = succ (m x)" and "\<And>x. x \<in> set (as @ [a]) \<Longrightarrow> pred (m' x) = pred (m x)"
  shows "linked m' (as @ [a]) = linked m (as @ [a])"
proof (rule linked_cong)
  show "succ (m' x) = succ (m x)" if "x \<in> set (butlast (as @ [a]))" for x using that assms(1) by simp
  show "pred (m' x) = pred (m x)" if "x \<in> set (tl (as @ [a]))" for x
    using list.set_sel(2) [of "as @ [a]", OF _ that] assms(2) by simp
qed

lemma linked_back:
  assumes "\<And>x. x \<in> set (b # bs) \<Longrightarrow> succ (m' x) = succ (m x)" and "\<And>x. x \<in> set bs \<Longrightarrow> pred (m' x) = pred (m x)"
  shows "linked m' (b # bs) = linked m (b # bs)"
  using assms by (intro linked_cong) (auto dest: in_set_butlastD split: if_splits)

lemma linked_insert:
  assumes "linked m (as @ a # b # bs)" and "distinct (as @ a # b # bs)" and "n \<notin> set (as @ a # b # bs)"
  shows "linked (INSERT_BEFORE n b m) (as @ a # n # b # bs)"
proof -
  let ?m = "INSERT_BEFORE n b m"
  have p: "pred (m b) = a" and l: "linked m (as @ [a])" "linked m (b # bs)" using assms(1) by (simp_all add: linked_append)
  have s: "succ (?m x) = (if x = n then b else if x = a then n else succ (m x))"
    "pred (?m x) = (if x = b then n else if x = n then a else pred (m x))" for x
    using assms(3) p by (auto simp: INSERT_BEFORE_def Let_def)
  have "linked ?m (as @ [a]) = linked m (as @ [a])" "linked ?m (b # bs) = linked m (b # bs)"
    using assms(2,3) by (intro linked_front linked_back; auto simp: s)+
  with l show ?thesis using assms(2,3) by (auto simp: linked_append s)
qed

lemma linked_remove:
  assumes "linked m (as @ a # n # b # bs)" and "distinct (as @ a # n # b # bs)"
  shows "linked (REMOVE n m) (as @ a # b # bs)"
proof -
  let ?m = "REMOVE n m"
  have p: "pred (m n) = a" "succ (m n) = b" and l: "linked m (as @ [a])" "linked m (b # bs)"
    using assms(1) by (simp_all add: linked_append)
  have s: "succ (?m x) = (if x = a then b else succ (m x))" "pred (?m x) = (if x = b then a else pred (m x))" for x
    using assms(2) p by (auto simp: REMOVE_def Let_def)
  have "linked ?m (as @ [a]) = linked m (as @ [a])" "linked ?m (b # bs) = linked m (b # bs)"
    using assms(2) by (intro linked_front linked_back; auto simp: s)+
  with l show ?thesis by (auto simp: linked_append s)
qed

section \<open>Lists in memory\<close>

definition ends :: "addr \<Rightarrow> addr list \<Rightarrow> addr list" where
  "ends l ns = l_head l # ns @ [l_tail l]"

definition is_list :: "addr \<Rightarrow> addr list \<Rightarrow> node_mem \<Rightarrow> bool" where
  "is_list l ns m \<longleftrightarrow> linked m (ends l ns) \<and> distinct (ends l ns) \<and> 0 \<notin> set (ends l ns) \<and>
     pred (m (l_head l)) = 0 \<and> succ (m (l_tail l)) = 0"

text \<open>The node after a part of the list, and the one before the rest.\<close>

abbreviation at_or_tail :: "addr \<Rightarrow> addr list \<Rightarrow> addr" where
  "at_or_tail l ns \<equiv> hd (ns @ [l_tail l])"

lemma ends_split:
  obtains as a bs where "ends l (xs @ ys) = as @ a # at_or_tail l ys # bs" "ends l (xs @ n # ys) = as @ a # n # at_or_tail l ys # bs"
proof -
  obtain as a where a: "l_head l # xs = as @ [a]" by (cases xs rule: rev_cases) auto
  obtain b bs where b: "ys @ [l_tail l] = b # bs" by (cases ys) auto
  have "ends l (xs @ ys) = (l_head l # xs) @ (ys @ [l_tail l])" "ends l (xs @ n # ys) = (l_head l # xs) @ n # (ys @ [l_tail l])"
    by (simp_all add: ends_def)
  then have "ends l (xs @ ys) = as @ a # b # bs" "ends l (xs @ n # ys) = as @ a # n # b # bs" unfolding a b by simp_all
  with b that show thesis by simp
qed

lemma split_not_ends:
  assumes "ends l ns = as @ a # b # bs" and "distinct (as @ a # b # bs)"
  shows "l_head l \<noteq> b" and "l_tail l \<noteq> a"
proof -
  have "hd (ends l ns) = hd (as @ [a])" "last (ends l ns) = last (b # bs)" using assms(1) by (simp_all add: hd_append)
  then have h: "l_head l = hd (as @ [a])" "l_tail l = last (b # bs)" by (simp_all add: ends_def)
  show "l_head l \<noteq> b" using assms(2) hd_in_set [of "as @ [a]"] unfolding h(1) by auto
  show "l_tail l \<noteq> a" using assms(2) last_in_set [of "b # bs"] unfolding h(2) by auto
qed

lemma is_list_insert:
  assumes "is_list l (xs @ ys) m" and "n \<notin> set (ends l (xs @ ys))" and "n \<noteq> 0"
  shows "is_list l (xs @ n # ys) (INSERT_BEFORE n (at_or_tail l ys) m)"
proof -
  obtain as a bs where e: "ends l (xs @ ys) = as @ a # at_or_tail l ys # bs" "ends l (xs @ n # ys) = as @ a # n # at_or_tail l ys # bs"
    by (rule ends_split)
  have l: "linked m (as @ a # at_or_tail l ys # bs)" and d: "distinct (as @ a # at_or_tail l ys # bs)" and p: "pred (m (at_or_tail l ys)) = a"
    using assms(1) unfolding is_list_def e by (simp_all add: linked_append)
  note h = split_not_ends [OF e(1) d]
  have n: "l_head l \<noteq> n" "l_tail l \<noteq> n" using assms(2) by (auto simp: ends_def)
  have "linked (INSERT_BEFORE n (at_or_tail l ys) m) (ends l (xs @ n # ys))"
    unfolding e using linked_insert [OF l d] assms(2) e(1) by simp
  moreover have "distinct (ends l (xs @ n # ys))" "0 \<notin> set (ends l (xs @ n # ys))"
    using assms e by (auto simp: is_list_def)
  moreover have "pred (INSERT_BEFORE n (at_or_tail l ys) m (l_head l)) = 0" "succ (INSERT_BEFORE n (at_or_tail l ys) m (l_tail l)) = 0"
    using assms(1) h n p by (auto simp: INSERT_BEFORE_def is_list_def Let_def)
  ultimately show ?thesis by (simp add: is_list_def)
qed

lemma is_list_remove:
  assumes "is_list l (xs @ n # ys) m"
  shows "is_list l (xs @ ys) (REMOVE n m)"
proof -
  obtain as a bs where e: "ends l (xs @ ys) = as @ a # at_or_tail l ys # bs" "ends l (xs @ n # ys) = as @ a # n # at_or_tail l ys # bs"
    by (rule ends_split)
  have l: "linked m (as @ a # n # at_or_tail l ys # bs)" and d: "distinct (as @ a # n # at_or_tail l ys # bs)"
    and p: "pred (m n) = a" "succ (m n) = at_or_tail l ys"
    using assms unfolding is_list_def e by (simp_all add: linked_append)
  have "l_head l \<noteq> at_or_tail l ys" "l_tail l \<noteq> a" using split_not_ends [OF e(1)] d by auto
  with assms p have "pred (REMOVE n m (l_head l)) = 0" "succ (REMOVE n m (l_tail l)) = 0"
    by (auto simp: REMOVE_def is_list_def Let_def)
  moreover have "linked (REMOVE n m) (ends l (xs @ ys))" unfolding e by (rule linked_remove [OF l d])
  moreover have "distinct (ends l (xs @ ys))" "0 \<notin> set (ends l (xs @ ys))" using assms e by (auto simp: is_list_def)
  ultimately show ?thesis by (simp add: is_list_def)
qed

section \<open>The operations on lists\<close>

lemma l_head_tail [simp]: "l_head l \<noteq> l_tail l" "l_tail l \<noteq> l_head l"
  by (simp_all add: l_head_def l_tail_def)

lemma is_list_init: "l_head l \<noteq> 0 \<Longrightarrow> l_tail l \<noteq> 0 \<Longrightarrow> is_list l [] (LIST_INIT l m)"
  by (simp add: is_list_def ends_def LIST_INIT_def Let_def)

lemma list_head: "is_list l ns m \<Longrightarrow> LIST_HEAD l m = at_or_tail l ns"
  by (cases ns) (simp_all add: is_list_def ends_def LIST_HEAD_def)

lemma list_tail: "is_list l ns m \<Longrightarrow> LIST_TAIL l m = last (l_head l # ns)"
proof -
  assume l: "is_list l ns m"
  obtain as a where a: "l_head l # ns = as @ [a]" by (cases ns rule: rev_cases) auto
  have "ends l ns = (l_head l # ns) @ [l_tail l]" by (simp add: ends_def)
  then have "linked m (as @ a # [l_tail l])" using l unfolding a by (simp add: is_list_def)
  then have "pred (m (l_tail l)) = a" by (simp only: linked_append)
  then show ?thesis unfolding a by (simp add: LIST_TAIL_def)
qed

lemma list_empty: "is_list l ns m \<Longrightarrow> LIST_EMPTY l m \<longleftrightarrow> ns = []"
  using list_head [of l ns m] by (cases ns) (auto simp: LIST_EMPTY_def LIST_HEAD_def is_list_def ends_def)

lemma node_eqI: "succ a = succ b \<Longrightarrow> pred a = pred b \<Longrightarrow> a = (b :: Node)"
  by simp

lemma addhead_insert:
  assumes "n \<noteq> l_head l" and "n \<noteq> LIST_HEAD l m" and "pred (m (LIST_HEAD l m)) \<noteq> n"
  shows "ADDHEAD l n m = INSERT_BEFORE n (LIST_HEAD l m) m"
  using assms by (intro ext node_eqI) (auto simp: ADDHEAD_def INSERT_BEFORE_def LIST_HEAD_def Let_def)

lemma addtail_insert: "ADDTAIL l n m = INSERT_BEFORE n (l_tail l) m"
  by (simp add: ADDTAIL_def INSERT_BEFORE_def Let_def)

lemma is_list_addhead:
  assumes "is_list l ns m" and "n \<notin> set (ends l ns)" and "n \<noteq> 0"
  shows "is_list l (n # ns) (ADDHEAD l n m)"
proof -
  have h: "LIST_HEAD l m = at_or_tail l ns" using assms(1) by (rule list_head)
  have p: "pred (m (LIST_HEAD l m)) = l_head l" using assms(1) unfolding h by (cases ns) (simp_all add: is_list_def ends_def)
  have "at_or_tail l ns \<in> set (ends l ns)" by (cases ns) (simp_all add: ends_def)
  then have "ADDHEAD l n m = INSERT_BEFORE n (at_or_tail l ns) m"
    using assms(2) h p by (subst addhead_insert) (auto simp: ends_def)
  with is_list_insert [of l "[]" ns m n] assms show ?thesis by simp
qed

lemma is_list_addtail:
  assumes "is_list l ns m" and "n \<notin> set (ends l ns)" and "n \<noteq> 0"
  shows "is_list l (ns @ [n]) (ADDTAIL l n m)"
  using is_list_insert [of l ns "[]" m n] assms by (simp add: addtail_insert)

lemma rem_head: "is_list l (n # ns) m \<Longrightarrow> list_remHead l m = (n, REMOVE n m)"
  using list_empty [of l "n # ns" m] by (auto simp: list_remHead_def REMOVE_def is_list_def ends_def Let_def)

lemma rem_tail:
  assumes "is_list l (ns @ [n]) m"
  shows "list_remTail l m = (n, REMOVE n m)"
proof -
  have t: "pred (m (l_tail l)) = n" using list_tail [OF assms] by (simp add: LIST_TAIL_def)
  obtain as a where "l_head l # ns = as @ [a]" by (cases ns rule: rev_cases) auto
  then have e: "ends l (ns @ [n]) = as @ a # n # [l_tail l]" by (simp add: ends_def)
  then have p: "pred (m n) = a" "succ (m n) = l_tail l" "a \<noteq> n" "n \<noteq> l_tail l"
    using assms unfolding is_list_def e by (auto simp: linked_append)
  have "\<not> LIST_EMPTY l m" using list_empty [OF assms] by simp
  then have "list_remTail l m = (n, set_succ a (l_tail l) (set_pred (l_tail l) a m))"
    using t p by (simp add: list_remTail_def Let_def)
  moreover have "set_succ a (l_tail l) (set_pred (l_tail l) a m) = REMOVE n m"
    using p by (intro ext node_eqI) (auto simp: REMOVE_def Let_def)
  ultimately show ?thesis by simp
qed

section \<open>Iterations\<close>

lemma linked_tail: "linked m (a # ns) \<Longrightarrow> linked m ns"
  by (cases ns) simp_all

lemma foreach_from: "linked m (ns @ [t]) \<Longrightarrow> t \<noteq> 0 \<Longrightarrow> 0 \<notin> set ns \<Longrightarrow> succ (m t) = 0 \<Longrightarrow> FOREACH_NODE m (hd (ns @ [t])) = Some ns"
proof (induction ns)
  case Nil
  then show ?case by (subst FOREACH_NODE.simps) simp
next
  case (Cons n ns)
  have "succ (m n) = hd (ns @ [t])" using Cons.prems(1) by (cases ns) simp_all
  moreover have "hd (ns @ [t]) \<noteq> 0" using Cons.prems by (cases ns) auto
  ultimately show ?case using Cons by (subst FOREACH_NODE.simps) (simp add: linked_tail)
qed

lemma foreach_visits: "is_list l ns m \<Longrightarrow> FOREACH_NODE m (LIST_HEAD l m) = Some ns"
  using foreach_from [of m ns "l_tail l"] linked_tail [of m "l_head l" "ns @ [l_tail l]"]
  by (simp add: list_head) (simp add: is_list_def ends_def)

lemma seek_from:
  "linked m (ns @ [t]) \<Longrightarrow> t \<noteq> 0 \<Longrightarrow> 0 \<notin> set ns \<Longrightarrow> succ (m t) = 0 \<Longrightarrow>
   list_seek stop m (hd (ns @ [t])) = Some (hd (dropWhile (\<lambda>n. \<not> stop n) ns @ [t]))"
proof (induction ns)
  case Nil
  then show ?case by (subst list_seek.simps) simp
next
  case (Cons n ns)
  have "succ (m n) = hd (ns @ [t])" using Cons.prems(1) by (cases ns) simp_all
  moreover have "hd (ns @ [t]) \<noteq> 0" using Cons.prems by (cases ns) auto
  ultimately show ?case using Cons by (subst list_seek.simps) (simp add: linked_tail)
qed

lemma seek_finds: "is_list l ns m \<Longrightarrow> list_seek stop m (LIST_HEAD l m) = Some (at_or_tail l (dropWhile (\<lambda>n. \<not> stop n) ns))"
  using seek_from [of m ns "l_tail l" stop] linked_tail [of m "l_head l" "ns @ [l_tail l]"]
  by (simp add: list_head) (simp add: is_list_def ends_def)

text \<open>A search followed by an insertion.\<close>

lemma seek_insert:
  assumes "is_list l ns m" and "n \<notin> set (ends l ns)" and "n \<noteq> 0"
  shows "\<exists>m'. do { ln \<leftarrow> list_seek stop m (LIST_HEAD l m); Some (INSERT_BEFORE n ln m) } = Some m' \<and>
    is_list l (takeWhile (\<lambda>n. \<not> stop n) ns @ n # dropWhile (\<lambda>n. \<not> stop n) ns) m'"
  using is_list_insert [of l "takeWhile (\<lambda>n. \<not> stop n) ns" "dropWhile (\<lambda>n. \<not> stop n) ns" m n] assms by (simp add: seek_finds)

section \<open>Other lists\<close>

lemma is_list_frame:
  assumes "is_list k zs m" and "\<And>x. x \<in> set (ends k zs) \<Longrightarrow> m' x = m x"
  shows "is_list k zs m'"
proof -
  have "set (tl (ends k zs)) \<subseteq> set (ends k zs)" by (auto simp: ends_def)
  then have "linked m' (ends k zs) = linked m (ends k zs)"
    using assms(2) by (intro linked_cong) (auto dest: in_set_butlastD)
  moreover have "l_head k \<in> set (ends k zs)" "l_tail k \<in> set (ends k zs)" by (simp_all add: ends_def)
  ultimately show ?thesis using assms by (simp add: is_list_def)
qed

lemma insert_elsewhere:
  assumes "is_list l (xs @ ys) m" and "x \<notin> set (ends l (xs @ n # ys))"
  shows "INSERT_BEFORE n (at_or_tail l ys) m x = m x"
proof -
  obtain as a bs where e: "ends l (xs @ ys) = as @ a # at_or_tail l ys # bs" "ends l (xs @ n # ys) = as @ a # n # at_or_tail l ys # bs"
    by (rule ends_split)
  have p: "pred (m (at_or_tail l ys)) = a" using assms(1) unfolding is_list_def e by (simp add: linked_append)
  have "x \<noteq> n" "x \<noteq> at_or_tail l ys" "x \<noteq> a" using assms(2) unfolding e(2) by auto
  with p show ?thesis by (intro node_eqI) (auto simp: INSERT_BEFORE_def Let_def)
qed

lemma remove_elsewhere:
  assumes "is_list l (xs @ n # ys) m" and "x \<notin> set (ends l (xs @ ys))"
  shows "REMOVE n m x = m x"
proof -
  obtain as a bs where e: "ends l (xs @ ys) = as @ a # at_or_tail l ys # bs" "ends l (xs @ n # ys) = as @ a # n # at_or_tail l ys # bs"
    by (rule ends_split)
  have p: "pred (m n) = a" "succ (m n) = at_or_tail l ys" using assms(1) unfolding is_list_def e by (simp_all add: linked_append)
  have "x \<noteq> at_or_tail l ys" "x \<noteq> a" using assms(2) unfolding e(1) by auto
  with p show ?thesis by (intro node_eqI) (auto simp: REMOVE_def Let_def)
qed

section \<open>Priority queues\<close>

text \<open>A queue in the order of decreasing priority stays so, and a new node comes after those of its own priority.\<close>

definition by_priority :: "(addr \<Rightarrow> i16) \<Rightarrow> addr list \<Rightarrow> bool" where
  "by_priority pri ns \<longleftrightarrow> sorted (map (\<lambda>n. - sint (pri n)) ns)"

lemma by_priority_append:
  "by_priority pri (xs @ ys) \<longleftrightarrow> by_priority pri xs \<and> by_priority pri ys \<and> (\<forall>x\<in>set xs. \<forall>y\<in>set ys. sint (pri y) \<le> sint (pri x))"
  by (auto simp: by_priority_def sorted_append)

lemma split_by_priority:
  assumes "by_priority pri ns"
  shows "filter (\<lambda>x. sint (pri n) \<le> sint (pri x)) ns = takeWhile (\<lambda>x. \<not> sint (pri x) < sint (pri n)) ns"
    and "filter (\<lambda>x. sint (pri x) < sint (pri n)) ns = dropWhile (\<lambda>x. \<not> sint (pri x) < sint (pri n)) ns"
proof -
  have "filter (\<lambda>x. sint (pri n) \<le> sint (pri x)) ns = takeWhile (\<lambda>x. \<not> sint (pri x) < sint (pri n)) ns \<and>
      filter (\<lambda>x. sint (pri x) < sint (pri n)) ns = dropWhile (\<lambda>x. \<not> sint (pri x) < sint (pri n)) ns"
    using assms
  proof (induction ns)
    case (Cons x ns)
    then have p: "by_priority pri ns" and le: "\<And>y. y \<in> set ns \<Longrightarrow> sint (pri y) \<le> sint (pri x)" by (auto simp: by_priority_def)
    show ?case
    proof (cases "sint (pri x) < sint (pri n)")
      case True
      then have "filter (\<lambda>x. sint (pri n) \<le> sint (pri x)) ns = []" "filter (\<lambda>x. sint (pri x) < sint (pri n)) ns = ns"
        using le by (force intro: filter_False filter_True)+
      with True show ?thesis by simp
    qed (use Cons.IH [OF p] in \<open>simp add: not_less\<close>)
  qed simp
  then show "filter (\<lambda>x. sint (pri n) \<le> sint (pri x)) ns = takeWhile (\<lambda>x. \<not> sint (pri x) < sint (pri n)) ns"
    "filter (\<lambda>x. sint (pri x) < sint (pri n)) ns = dropWhile (\<lambda>x. \<not> sint (pri x) < sint (pri n)) ns" by blast+
qed

lemma enqueue_ok:
  assumes "is_list l ns m" and "n \<notin> set (ends l ns)" and "n \<noteq> 0" and "by_priority pri ns"
  shows "\<exists>m'. LIST_ENQUEUE pri l n m = Some m' \<and>
    is_list l (filter (\<lambda>x. sint (pri n) \<le> sint (pri x)) ns @ n # filter (\<lambda>x. sint (pri x) < sint (pri n)) ns) m' \<and>
    by_priority pri (filter (\<lambda>x. sint (pri n) \<le> sint (pri x)) ns @ n # filter (\<lambda>x. sint (pri x) < sint (pri n)) ns)"
proof -
  have "by_priority pri (filter P ns)" for P using assms(4) by (simp add: by_priority_def sorted_filter)
  then have "by_priority pri (filter (\<lambda>x. sint (pri n) \<le> sint (pri x)) ns @ n # filter (\<lambda>x. sint (pri x) < sint (pri n)) ns)"
    by (auto simp: by_priority_def sorted_append)
  with seek_insert [OF assms(1-3), of "\<lambda>x. sint (pri x) < sint (pri n)"] show ?thesis
    unfolding LIST_ENQUEUE_def split_by_priority [OF assms(4)] by blast
qed

lemma by_priority_insert:
  "by_priority pri (xs @ ys) \<Longrightarrow> \<forall>x\<in>set xs. sint (pri n) \<le> sint (pri x) \<Longrightarrow> \<forall>y\<in>set ys. sint (pri y) \<le> sint (pri n) \<Longrightarrow>
   by_priority pri (xs @ n # ys)"
  by (auto simp: by_priority_def sorted_append)

lemma enqueue_head_ok:
  assumes "is_list l ns m" and "n \<notin> set (ends l ns)" and "n \<noteq> 0" and "by_priority pri ns"
  shows "\<exists>m' xs ys. ns = xs @ ys \<and> LIST_ENQUEUE_HEAD pri l n m = Some m' \<and> is_list l (xs @ n # ys) m' \<and> by_priority pri (xs @ n # ys) \<and>
    (\<forall>x\<in>set xs. sint (pri n) < sint (pri x))"
proof -
  let ?P = "\<lambda>x. \<not> sint (pri x) \<le> sint (pri n)"
  let ?xs = "takeWhile ?P ns" and ?ys = "dropWhile ?P ns"
  have xs: "\<forall>x\<in>set ?xs. sint (pri n) < sint (pri x)" by (auto dest: set_takeWhileD)
  have split: "by_priority pri (?xs @ ?ys)" using assms(4) by simp
  have ys: "\<forall>y\<in>set ?ys. sint (pri y) \<le> sint (pri n)"
  proof (cases ?ys)
    case (Cons y ys)
    then have "sint (pri y) \<le> sint (pri n)" using hd_dropWhile [of ?P ns] by simp
    moreover have "by_priority pri ?ys" using split unfolding by_priority_append by blast
    ultimately show ?thesis unfolding Cons by (auto simp: by_priority_def)
  next
    case Nil
    then show ?thesis by (simp only: list.set) simp
  qed
  have "\<forall>x\<in>set ?xs. sint (pri n) \<le> sint (pri x)" using xs less_imp_le by blast
  note p = by_priority_insert [OF split this ys]
  obtain m' where m': "LIST_ENQUEUE_HEAD pri l n m = Some m'" "is_list l (?xs @ n # ?ys) m'"
    using seek_insert [OF assms(1-3), of "\<lambda>x. sint (pri x) \<le> sint (pri n)"] unfolding LIST_ENQUEUE_HEAD_def by blast
  have "ns = ?xs @ ?ys" by simp
  with m' p xs show ?thesis by blast
qed

lemma reverse_from: "linked m (h # ns) \<Longrightarrow> h \<noteq> 0 \<Longrightarrow> 0 \<notin> set ns \<Longrightarrow> pred (m h) = 0 \<Longrightarrow> REVERSE_FOREACH_NODE m (last (h # ns)) = Some (rev ns)"
proof (induction ns rule: rev_induct)
  case Nil
  then show ?case by (subst REVERSE_FOREACH_NODE.simps) simp
next
  case (snoc n ns)
  obtain as a where a: "h # ns = as @ [a]" by (cases ns rule: rev_cases) auto
  have "h # ns @ [n] = as @ a # [n]" using a by (metis append_Cons append_Nil append_assoc)
  with snoc.prems(1) have "linked m (as @ a # [n])" by simp
  then have l: "linked m (as @ [a])" "pred (m n) = a" by (simp_all only: linked_append)
  have "a \<in> set (h # ns)" unfolding a by simp
  then have "a \<noteq> 0" using snoc.prems by auto
  moreover have "REVERSE_FOREACH_NODE m a = Some (rev ns)"
    using snoc.IH l(1) snoc.prems unfolding a [symmetric] by (simp add: a split: if_splits)
  ultimately show ?case using l(2) by (subst REVERSE_FOREACH_NODE.simps) simp
qed

lemma reverse_foreach_visits: "is_list l ns m \<Longrightarrow> REVERSE_FOREACH_NODE m (LIST_TAIL l m) = Some (rev ns)"
proof -
  assume l: "is_list l ns m"
  have "linked m (l_head l # ns)"
  proof (cases ns rule: rev_cases)
    case (snoc as a)
    then have "linked m ((l_head l # as) @ a # [l_tail l])" using l by (simp add: is_list_def ends_def)
    then show ?thesis unfolding linked_append by (simp add: snoc)
  qed simp
  with reverse_from [of m "l_head l" ns] l show ?thesis unfolding list_tail [OF l] by (simp add: is_list_def ends_def)
qed

end
