(* ===== verification/Timer_Links.thy ===== *)
theory Timer_Links
  imports Timer Linked_List
begin

text \<open>
  The soft timers of \<^verbatim>\<open>bertos/drv/timer.[ch]\<close> as they are in memory: a queue is a linked list of the \<^verbatim>\<open>Timer\<close>
  structures themselves, whose first field is the link. The operations refine the ones on lists of timers, and the
  functions of the synchronous timers, which look at the link of a timer to tell whether it is queued, are defined here only.
\<close>

section \<open>Timers in memory\<close>

record 'ev timer_mem =
  links :: node_mem
  timers :: "addr \<Rightarrow> 'ev Timer"

definition set_timer :: "addr \<Rightarrow> 'ev Timer \<Rightarrow> 'ev timer_mem \<Rightarrow> 'ev timer_mem" where
  "set_timer timer t s = s\<lparr>timers := (timers s)(timer := t)\<rparr>"

definition addToList_mem :: "addr \<Rightarrow> addr \<Rightarrow> 'ev timer_mem \<Rightarrow> 'ev timer_mem option" where
  "addToList_mem timer queue s =
     do { node \<leftarrow> list_seek (\<lambda>node. 0 < sint (t_tick (timers s node) - t_tick (timers s timer))) (links s) (LIST_HEAD queue (links s));
          Some (s\<lparr>links := INSERT_BEFORE timer node (links s)\<rparr>) }"

definition synctimer_add :: "i32 \<Rightarrow> addr \<Rightarrow> addr \<Rightarrow> 'ev timer_mem \<Rightarrow> 'ev timer_mem option" where
  "synctimer_add clock timer queue s =
     (let t = timers s timer in addToList_mem timer queue (set_timer timer (t\<lparr>t_tick := clock + t_delay t\<rparr>) s))"

definition synctimer_readd_mem :: "addr \<Rightarrow> addr \<Rightarrow> 'ev timer_mem \<Rightarrow> 'ev timer_mem option" where
  "synctimer_readd_mem timer queue s =
     (let t = timers s timer in addToList_mem timer queue (set_timer timer (t\<lparr>t_tick := t_tick t + t_delay t\<rparr>) s))"

definition timer_abort_mem :: "addr \<Rightarrow> 'ev timer_mem \<Rightarrow> 'ev timer_mem" where
  "timer_abort_mem timer s = s\<lparr>links := REMOVE timer (links s)\<rparr>"

definition timer_setDelay :: "addr \<Rightarrow> i32 \<Rightarrow> 'ev timer_mem \<Rightarrow> 'ev timer_mem" where
  "timer_setDelay timer delay s = set_timer timer ((timers s timer)\<lparr>t_delay := delay\<rparr>) s"

definition timer_setSoftint :: "addr \<Rightarrow> 'ev \<Rightarrow> 'ev timer_mem \<Rightarrow> 'ev timer_mem" where
  "timer_setSoftint timer ev s = set_timer timer ((timers s timer)\<lparr>t_expire := ev\<rparr>) s"

definition synctimer_executed :: "addr \<Rightarrow> 'ev timer_mem \<Rightarrow> 'ev timer_mem" where
  "synctimer_executed timer s = s\<lparr>links := (links s)(timer := \<lparr>succ = 0, pred = 0\<rparr>)\<rparr>"

definition synctimer_active :: "addr \<Rightarrow> 'ev timer_mem \<Rightarrow> bool" where
  "synctimer_active timer s \<longleftrightarrow> \<not> (pred (links s timer) = 0 \<and> succ (links s timer) = 0)"

definition synctimer_stop :: "addr \<Rightarrow> 'ev timer_mem \<Rightarrow> 'ev timer_mem" where
  "synctimer_stop timer s = (if synctimer_active timer s then synctimer_executed timer (timer_abort_mem timer s) else s)"

definition synctimer_restart :: "i32 \<Rightarrow> addr \<Rightarrow> addr \<Rightarrow> i32 \<Rightarrow> 'ev timer_mem \<Rightarrow> 'ev timer_mem option" where
  "synctimer_restart clock timer queue timeout s =
     synctimer_add clock timer queue (timer_setDelay timer (ms_to_ticks timeout) (synctimer_stop timer s))"

text \<open>A poll of a queue; the events work on the memory and on the state of their owners.\<close>

partial_function (option) synctimer_poll ::
  "('ev \<Rightarrow> 'ev timer_mem \<times> 's \<Rightarrow> 'ev timer_mem \<times> 's) \<Rightarrow> i32 \<Rightarrow> addr \<Rightarrow> 'ev timer_mem \<times> 's \<Rightarrow> ('ev timer_mem \<times> 's) option" where
  "synctimer_poll event_do clock queue s =
     (let timer = LIST_HEAD queue (links (fst s)); t = timers (fst s) timer
      in if succ (links (fst s) timer) = 0 then Some s
         else if sint (clock - t_tick t) < 0 then Some s
         else synctimer_poll event_do clock queue (event_do (t_expire t) (timer_abort_mem timer (fst s), snd s)))"

text \<open>\<^verbatim>\<open>timer_init\<close>: the clock and the queue of the asynchronous timers.\<close>

definition timer_init :: "addr \<Rightarrow> 'ev timer_mem \<Rightarrow> i32 \<times> 'ev timer_mem" where
  "timer_init timers_queue s = (0, s\<lparr>links := LIST_INIT timers_queue (links s)\<rparr>)"

section \<open>Refinement of the timer queue\<close>

definition queued_as :: "addr \<Rightarrow> addr list \<Rightarrow> 'ev timer_mem \<Rightarrow> 'ev Timer list \<Rightarrow> bool" where
  "queued_as queue ns s q \<longleftrightarrow> is_list queue ns (links s) \<and> map (timers s) ns = q"

lemma addToList_split:
  "timer_addToList t q = takeWhile (\<lambda>node. \<not> 0 < sint (t_tick node - t_tick t)) q @ t # dropWhile (\<lambda>node. \<not> 0 < sint (t_tick node - t_tick t)) q"
  by (induction q) simp_all

lemma addToList_refines:
  assumes "queued_as queue ns s q" and "timer \<notin> set (ends queue ns)" and "timer \<noteq> 0"
  shows "\<exists>s' ns'. addToList_mem timer queue s = Some s' \<and> queued_as queue ns' s' (timer_addToList (timers s timer) q) \<and>
    timers s' = timers s \<and> set ns' = insert timer (set ns)"
proof -
  let ?stop = "\<lambda>node. 0 < sint (t_tick (timers s node) - t_tick (timers s timer))"
  let ?ns = "takeWhile (\<lambda>n. \<not> ?stop n) ns @ timer # dropWhile (\<lambda>n. \<not> ?stop n) ns"
  have l: "is_list queue ns (links s)" and q: "q = map (timers s) ns" using assms(1) by (simp_all add: queued_as_def)
  obtain m' where m': "do { ln \<leftarrow> list_seek ?stop (links s) (LIST_HEAD queue (links s)); Some (INSERT_BEFORE timer ln (links s)) } = Some m'"
    "is_list queue ?ns m'" using seek_insert [OF l assms(2,3), of ?stop] by blast
  have "addToList_mem timer queue s = Some (s\<lparr>links := m'\<rparr>)" using m'(1) by (auto simp: addToList_mem_def bind_eq_Some_conv)
  moreover have "map (timers s) ?ns = timer_addToList (timers s timer) q"
    by (simp add: addToList_split q takeWhile_map dropWhile_map comp_def)
  moreover have "set ?ns = insert timer (set (takeWhile (\<lambda>n. \<not> ?stop n) ns @ dropWhile (\<lambda>n. \<not> ?stop n) ns))"
    by (simp only: set_append list.set Un_insert_right)
  then have "set ?ns = insert timer (set ns)" by (simp only: takeWhile_dropWhile_id)
  ultimately show ?thesis using m'(2) by (auto simp: queued_as_def)
qed

lemma set_timer_queued: "timer \<notin> set ns \<Longrightarrow> queued_as queue ns (set_timer timer t s) q = queued_as queue ns s q"
  by (simp add: queued_as_def set_timer_def)

lemma add_refines:
  assumes "queued_as queue ns s q" and "timer \<notin> set (ends queue ns)" and "timer \<noteq> 0"
  shows "\<exists>s' ns'. synctimer_add clock timer queue s = Some s' \<and> queued_as queue ns' s' (timer_add clock (timers s timer) q) \<and>
    set ns' = insert timer (set ns)"
proof -
  let ?t = "(timers s timer)\<lparr>t_tick := clock + t_delay (timers s timer)\<rparr>"
  have "timer \<notin> set ns" using assms(2) by (simp add: ends_def)
  then have "queued_as queue ns (set_timer timer ?t s) q" using assms(1) by (simp add: set_timer_queued)
  from addToList_refines [OF this assms(2,3)] show ?thesis
    by (simp add: synctimer_add_def timer_add_def Let_def set_timer_def) blast
qed

lemma abort_refines:
  assumes "queued_as queue (xs @ timer # ys) s q"
  shows "queued_as queue (xs @ ys) (timer_abort_mem timer s) (map (timers s) (xs @ ys))"
  using assms is_list_remove [of queue xs timer ys "links s"] by (simp add: queued_as_def timer_abort_mem_def)

section \<open>Refinement of the poll\<close>

text \<open>The state of a poll in memory and the one on lists of timers.\<close>

definition poll_rel :: "addr \<Rightarrow> 'ev timer_mem \<times> 's \<Rightarrow> 'ev Timer list \<times> 's \<Rightarrow> bool" where
  "poll_rel queue a b \<longleftrightarrow> (\<exists>ns. queued_as queue ns (fst a) (fst b)) \<and> snd a = snd b"

lemma head_timer:
  assumes "queued_as queue ns s q"
  shows "succ (links s (LIST_HEAD queue (links s))) = 0 \<longleftrightarrow> q = []"
    and "q = t # q' \<Longrightarrow> timers s (LIST_HEAD queue (links s)) = t \<and>
      (\<exists>ns'. queued_as queue ns' (timer_abort_mem (LIST_HEAD queue (links s)) s) q')"
proof -
  have l: "is_list queue ns (links s)" and q: "q = map (timers s) ns" using assms by (simp_all add: queued_as_def)
  show "succ (links s (LIST_HEAD queue (links s))) = 0 \<longleftrightarrow> q = []"
  proof (cases ns)
    case (Cons n ns')
    then have "succ (links s n) = at_or_tail queue ns'" using l by (cases ns') (simp_all add: is_list_def ends_def)
    moreover have "at_or_tail queue ns' \<noteq> 0" using l Cons by (cases ns') (auto simp: is_list_def ends_def)
    ultimately show ?thesis using Cons q by (simp add: list_head [OF l])
  qed (use l q in \<open>simp add: list_head [OF l]; simp add: is_list_def\<close>)
  assume "q = t # q'"
  with q obtain n ns' where n: "ns = n # ns'" "timers s n = t" "map (timers s) ns' = q'" by auto
  with abort_refines [of queue "[]" n ns' s q] assms show "timers s (LIST_HEAD queue (links s)) = t \<and>
      (\<exists>ns'. queued_as queue ns' (timer_abort_mem (LIST_HEAD queue (links s)) s) q')" by (auto simp: list_head [OF l])
qed

lemma poll_refines:
  assumes "\<And>ev a b. poll_rel queue a b \<Longrightarrow> poll_rel queue (event_mem ev a) (event_do ev b)"
    and "timer_poll event_do clock b = Some b'" and "poll_rel queue a b"
  shows "\<exists>a'. synctimer_poll event_mem clock queue a = Some a' \<and> poll_rel queue a' b'"
proof -
  have "f = event_do \<longrightarrow> c = clock \<longrightarrow> (\<forall>a. poll_rel queue a b \<longrightarrow> (\<exists>a'. synctimer_poll event_mem clock queue a = Some a' \<and> poll_rel queue a' b'))"
    if "timer_poll f c b = Some b'" for f c b b'
    using that
  proof (rule timer_poll.raw_induct [rotated], intro impI allI)
    fix rec f c b b' a
    assume ih: "\<And>f c b b'. rec f c b = Some b' \<Longrightarrow> f = event_do \<longrightarrow> c = clock \<longrightarrow>
        (\<forall>a. poll_rel queue a b \<longrightarrow> (\<exists>a'. synctimer_poll event_mem clock queue a = Some a' \<and> poll_rel queue a' b'))"
      and eq: "(case fst b of [] \<Rightarrow> Some b | timer # q \<Rightarrow> if sint (c - t_tick timer) < 0 then Some b
        else rec f c (f (t_expire timer) (q, snd b))) = Some b'"
      and f: "f = event_do" "c = clock" and rel: "poll_rel queue a b"
    let ?n = "LIST_HEAD queue (links (fst a))"
    obtain ns where ns: "queued_as queue ns (fst a) (fst b)" and st: "snd a = snd b" using rel by (auto simp: poll_rel_def)
    show "\<exists>a'. synctimer_poll event_mem clock queue a = Some a' \<and> poll_rel queue a' b'"
    proof (cases "fst b")
      case Nil
      with eq rel head_timer(1) [OF ns] show ?thesis by (subst synctimer_poll.simps) simp
    next
      case (Cons t q)
      note h = head_timer [OF ns]
      show ?thesis
      proof (cases "sint (clock - t_tick t) < 0")
        case True
        with eq rel Cons h f show ?thesis by (subst synctimer_poll.simps) simp
      next
        case False
        have "poll_rel queue (timer_abort_mem ?n (fst a), snd a) (q, snd b)"
          using h(2) [OF Cons] st by (auto simp: poll_rel_def)
        from assms(1) [OF this] have "poll_rel queue (event_mem (t_expire t) (timer_abort_mem ?n (fst a), snd a)) (event_do (t_expire t) (q, snd b))" .
        moreover have "rec event_do clock (event_do (t_expire t) (q, snd b)) = Some b'" using eq Cons False f by simp
        ultimately obtain a' where "synctimer_poll event_mem clock queue (event_mem (t_expire t) (timer_abort_mem ?n (fst a), snd a)) = Some a'"
          "poll_rel queue a' b'" using ih by blast
        with h Cons False show ?thesis by (subst synctimer_poll.simps) (simp add: Let_def)
      qed
    qed
  qed
  with assms(2,3) show ?thesis by blast
qed

section \<open>Timers that are stopped and restarted\<close>

lemma active_queued:
  assumes "queued_as queue ns s q" and "timer \<in> set ns"
  shows "synctimer_active timer s"
proof -
  obtain xs ys where ns: "ns = xs @ timer # ys" using assms(2) by (meson split_list)
  obtain as a bs where e: "ends queue ns = as @ a # timer # at_or_tail queue ys # bs"
    using ends_split [of queue xs ys timer] unfolding ns by blast
  have l: "is_list queue ns (links s)" using assms(1) by (simp add: queued_as_def)
  then have "pred (links s timer) = a" "a \<noteq> 0" unfolding is_list_def e by (auto simp: linked_append)
  then show ?thesis by (simp add: synctimer_active_def)
qed

lemma executed_queued:
  assumes "queued_as queue ns s q" and "timer \<notin> set (ends queue ns)"
  shows "queued_as queue ns (synctimer_executed timer s) q"
  using assms by (auto simp: queued_as_def synctimer_executed_def intro: is_list_frame [of queue ns "links s"])

text \<open>Stopping takes a queued timer out of its queue; one that is not queued and not active is left alone.\<close>

lemma stop_refines:
  assumes "queued_as queue ns s q" and "timer \<in> set ns \<or> \<not> synctimer_active timer s"
  shows "queued_as queue (remove1 timer ns) (synctimer_stop timer s) (map (timers s) (remove1 timer ns)) \<and>
    \<not> synctimer_active timer (synctimer_stop timer s) \<and> timers (synctimer_stop timer s) = timers s"
proof (cases "timer \<in> set ns")
  case True
  then obtain xs ys where ns: "ns = xs @ timer # ys" "timer \<notin> set xs" by (meson split_list_first)
  have d: "distinct (ends queue ns)" using assms(1) by (simp add: queued_as_def is_list_def)
  have r: "remove1 timer ns = xs @ ys" using ns by (simp add: remove1_append)
  have "timer \<notin> set (ends queue (xs @ ys))" using d unfolding ns(1) by (auto simp: ends_def)
  from executed_queued [OF abort_refines [OF assms(1) [unfolded ns(1)]] this] active_queued [OF assms(1) True] show ?thesis
    unfolding r by (simp add: synctimer_stop_def synctimer_active_def synctimer_executed_def timer_abort_mem_def)
next
  case False
  with assms show ?thesis by (simp add: synctimer_stop_def remove1_idem queued_as_def)
qed

lemma restart_refines:
  assumes "queued_as queue ns s q" and "timer \<in> set ns \<or> timer \<notin> set (ends queue ns) \<and> timer \<noteq> 0 \<and> \<not> synctimer_active timer s"
  shows "\<exists>s' ns'. synctimer_restart clock timer queue timeout s = Some s' \<and>
    queued_as queue ns' s' (timer_addToList ((timers s timer)\<lparr>t_delay := timeout, t_tick := clock + timeout\<rparr>) (map (timers s) (remove1 timer ns))) \<and>
    set ns' = insert timer (set ns)"
proof -
  let ?s = "timer_setDelay timer timeout (synctimer_stop timer s)"
  have l: "is_list queue ns (links s)" using assms(1) by (simp add: queued_as_def)
  then have d: "distinct ns" and z: "0 \<notin> set ns" "l_head queue \<notin> set ns" "l_tail queue \<notin> set ns" by (auto simp: is_list_def ends_def)
  then have n: "timer \<notin> set (ends queue (remove1 timer ns))" "timer \<noteq> 0" "timer \<notin> set (remove1 timer ns)"
    using assms(2) by (auto simp: ends_def)
  have st: "queued_as queue (remove1 timer ns) (synctimer_stop timer s) (map (timers s) (remove1 timer ns))"
    "timers (synctimer_stop timer s) = timers s" using stop_refines [OF assms(1)] assms(2) by blast+
  then have "queued_as queue (remove1 timer ns) ?s (map (timers s) (remove1 timer ns))"
    using n(3) by (simp add: timer_setDelay_def set_timer_queued)
  from add_refines [OF this n(1,2), of clock] obtain s' ns' where
    "synctimer_add clock timer queue ?s = Some s'" "queued_as queue ns' s' (timer_add clock (timers ?s timer) (map (timers s) (remove1 timer ns)))"
    "set ns' = insert timer (set (remove1 timer ns))" by blast
  moreover have "insert timer (set (remove1 timer ns)) = insert timer (set ns)" using d by auto
  moreover have "timers ?s timer = (timers s timer)\<lparr>t_delay := timeout\<rparr>" using st(2) by (simp add: timer_setDelay_def set_timer_def)
  ultimately show ?thesis by (auto simp: synctimer_restart_def timer_add_def)
qed

text \<open>Events that only take a note.\<close>

definition log_mem :: "'ev \<Rightarrow> 'ev timer_mem \<times> 'ev list \<Rightarrow> 'ev timer_mem \<times> 'ev list" where
  "log_mem ev s = (fst s, snd s @ [ev])"

section \<open>Properties\<close>

text \<open>
  C39. In memory as on paper: on a queue of timers linked into each other, adding a timer links it at its place and a
  poll at the same time unlinks exactly the expired timers and runs their events, earliest first, across the
  wrap-around of the clock; both return, and the timers that wait stay linked in the order of their deadlines.
\<close>

theorem linked_timers_in_order:
  assumes "queued_as queue ns s q" and "timers_ok clock q" and "timer \<notin> set (ends queue ns)" and "timer \<noteq> 0"
    and "0 \<le> sint (t_delay (timers s timer))" and "sint (t_delay (timers s timer)) < 1073741824"
  shows "\<exists>s1 s2 ns1 ns2 q1. synctimer_add clock timer queue s = Some s1 \<and> queued_as queue ns1 s1 q1 \<and>
    set ns1 = insert timer (set ns) \<and> timers_ok clock q1 \<and>
    synctimer_poll log_mem clock queue (s1, evs) = Some (s2, evs @ map t_expire (filter (\<lambda>t. due clock t \<le> 0) q1)) \<and>
    queued_as queue ns2 s2 (filter (\<lambda>t. 0 < due clock t) q1)"
proof -
  let ?q = "timer_add clock (timers s timer) q"
  obtain s1 ns1 where 1: "synctimer_add clock timer queue s = Some s1" "queued_as queue ns1 s1 ?q" "set ns1 = insert timer (set ns)"
    using add_refines [OF assms(1,3,4), of clock] by blast
  have "in_window clock ((timers s timer)\<lparr>t_tick := clock + t_delay (timers s timer)\<rparr>)"
    using assms(5,6) by (simp add: in_window_def due_def)
  from addToList_ok [OF assms(2) this] have ok: "timers_ok clock ?q" by (simp add: timer_add_def)
  have rel: "poll_rel queue (s1, evs) (?q, evs)" using 1(2) by (auto simp: poll_rel_def)
  have "poll_rel queue (log_mem ev a) (log_event ev b)" if "poll_rel queue a b" for ev a and b :: "'a Timer list \<times> 'a list"
    using that by (auto simp: poll_rel_def log_mem_def log_event_def)
  from poll_refines [where event_mem = log_mem and event_do = log_event, OF this timer_poll_log [OF ok] rel] obtain a' where
    a': "synctimer_poll log_mem clock queue (s1, evs) = Some a'"
    "poll_rel queue a' (filter (\<lambda>t. 0 < due clock t) ?q, evs @ map t_expire (filter (\<lambda>t. due clock t \<le> 0) ?q))" by blast
  then obtain s2 ns2 where "a' = (s2, evs @ map t_expire (filter (\<lambda>t. due clock t \<le> 0) ?q))" "queued_as queue ns2 s2 (filter (\<lambda>t. 0 < due clock t) ?q)"
    by (cases a') (auto simp: poll_rel_def)
  with 1 ok a'(1) show ?thesis by blast
qed

text \<open>A queue of one timer at the wrap-around of the clock; a second one is added.\<close>

definition example_queue :: "bool timer_mem" where
  "example_queue =
     \<lparr>links = (\<lambda>a. if a = 100 then \<lparr>succ = 200, pred = 0\<rparr> else if a = 200 then \<lparr>succ = 104, pred = 100\<rparr> else \<lparr>succ = 0, pred = 200\<rparr>),
      timers = (\<lambda>a. if a = 200 then \<lparr>t_delay = 2, t_tick = 0x80000001, t_expire = False\<rparr> else \<lparr>t_delay = 0, t_tick = 0, t_expire = True\<rparr>)\<rparr>"

theorem linked_timers_in_order_witness:
  "\<exists>s1 s2 ns1 ns2 q1. synctimer_add 0x7fffffff 300 100 example_queue = Some s1 \<and> queued_as 100 ns1 s1 q1 \<and> set ns1 = {200, 300} \<and>
    synctimer_poll log_mem 0x7fffffff 100 (s1, []) = Some (s2, map t_expire (filter (\<lambda>t. due 0x7fffffff t \<le> 0) q1)) \<and>
    queued_as 100 ns2 s2 (filter (\<lambda>t. 0 < due 0x7fffffff t) q1)"
proof -
  have "queued_as 100 [200] example_queue [\<lparr>t_delay = 2, t_tick = 0x80000001, t_expire = False\<rparr>]"
    by (simp add: queued_as_def is_list_def ends_def l_head_def l_tail_def example_queue_def)
  moreover have "timers_ok 0x7fffffff [\<lparr>t_delay = 2, t_tick = 0x80000001, t_expire = False\<rparr>]"
    by (simp add: timers_ok_def in_window_def due_def)
  moreover have "300 \<notin> set (ends 100 [200])" by (simp add: ends_def l_head_def l_tail_def)
  ultimately show ?thesis
    using linked_timers_in_order [of 100 "[200]" example_queue _ "0x7fffffff" 300 "[]"] by (fastforce simp: example_queue_def)
qed

text \<open>
  Restarting a timer, queued or not, leaves it in the queue exactly once, with the new deadline and in its place by
  it, and the other timers as they were: no timer is lost and none is queued twice.
\<close>

lemma synctimer_restart_once:
  assumes "queued_as queue ns s q" and "timer \<in> set ns \<or> timer \<notin> set (ends queue ns) \<and> timer \<noteq> 0 \<and> \<not> synctimer_active timer s"
  shows "\<exists>s' ns'. synctimer_restart clock timer queue timeout s = Some s' \<and> set ns' = insert timer (set ns) \<and> distinct ns' \<and>
    queued_as queue ns' s' (timer_addToList ((timers s timer)\<lparr>t_delay := timeout, t_tick := clock + timeout\<rparr>) (map (timers s) (remove1 timer ns))) \<and>
    synctimer_active timer s'"
proof -
  obtain s' ns' where r: "synctimer_restart clock timer queue timeout s = Some s'" "set ns' = insert timer (set ns)"
    "queued_as queue ns' s' (timer_addToList ((timers s timer)\<lparr>t_delay := timeout, t_tick := clock + timeout\<rparr>) (map (timers s) (remove1 timer ns)))"
    using restart_refines [OF assms, of clock timeout] by blast
  moreover have "distinct ns'" using r(3) by (simp add: queued_as_def is_list_def ends_def)
  moreover have "synctimer_active timer s'" using active_queued [OF r(3)] r(2) by simp
  ultimately show ?thesis by blast
qed

end
