(* ===== verification/Timer_Hp.thy ===== *)
theory Timer_Hp
  imports Timer
begin

text \<open>
  Short delays of \<^verbatim>\<open>bertos/drv/timer.[ch]\<close> on the hardware counter of timer 0, which runs at 250 kHz and counts from 0 to
  249 in every tick. The conversions keep the widths of the code: a high precision time is one byte. The busy wait is
  shown to last as long as asked for, and at most two counts more.
\<close>

section \<open>Conversions\<close>

definition TIMER_HW_HPTICKS_PER_SEC :: int where "TIMER_HW_HPTICKS_PER_SEC = (16000000 + 32) div 64"

definition us_to_ticks :: "i32 \<Rightarrow> i32" where
  "us_to_ticks us = word_of_int (c_div (sint (us * word_of_int ((TIMER_TICKS_PER_SEC + 500) div 1000))) 1000)"

definition ticks_to_us :: "i32 \<Rightarrow> i32" where
  "ticks_to_us t = word_of_int (c_div (sint t) (TIMER_TICKS_PER_SEC div 1000)) * 1000"

text \<open>The factor is an \<^verbatim>\<open>unsigned long\<close>, so the division is unsigned; the result is cut to a byte.\<close>

definition us_to_hptime :: "i32 \<Rightarrow> u8" where
  "us_to_hptime us = ucast ((us * word_of_int ((TIMER_HW_HPTICKS_PER_SEC + 500) div 1000) + 500) div 1000 :: u32)"

definition hptime_to_us :: "u8 \<Rightarrow> i32" where
  "hptime_to_us t = ucast t * 1000 div word_of_int ((TIMER_HW_HPTICKS_PER_SEC + 500) div 1000)"

section \<open>Delays\<close>

text \<open>The clock of ticks and the later readings of the counter, the first of which starts the wait.\<close>

definition timer_delayHp :: "u8 \<Rightarrow> i32 \<Rightarrow> u8 list \<Rightarrow> i32 option" where
  "timer_delayHp delay clock readings =
     (let per_tick = TIMER_HW_HPTICKS_PER_SEC div TIMER_TICKS_PER_SEC
      in do { (delay, clock) \<leftarrow>
                (if us_to_hptime 1000 < delay
                 then do { clock \<leftarrow> timer_delayTicks (word_of_int (uint delay div per_tick)) clock;
                           Some (word_of_int (uint delay mod per_tick), clock) }
                 else Some (delay, clock));
              (case readings of
                 [] \<Rightarrow> None
               | prev # readings \<Rightarrow> do { timer_busyWait readings prev delay; Some clock }) })"

definition timer_udelay :: "i32 \<Rightarrow> i32 \<Rightarrow> u8 list \<Rightarrow> i32 option" where
  "timer_udelay delay clock readings = timer_delayHp (us_to_hptime delay) clock readings"

section \<open>How long the wait is\<close>

lemma hpticks [simp]: "TIMER_HW_HPTICKS_PER_SEC = 250000"
  by (simp add: TIMER_HW_HPTICKS_PER_SEC_def)

text \<open>The counter at a time, and what the loop measures: one count less at each wrap-around.\<close>

definition hw_count :: "nat \<Rightarrow> u8" where
  "hw_count a = of_nat (a mod 250)"

definition measured :: "nat \<Rightarrow> nat" where
  "measured a = a - a div 250"

lemma unat_hw_count: "unat (hw_count a) = a mod 250"
  by (simp add: hw_count_def unat_of_nat)

lemma measured_mono: "a \<le> b \<Longrightarrow> measured a \<le> measured b"
  unfolding measured_def by arith

lemma hw_delta:
  assumes "a \<le> b" "b < a + 250"
  shows "unat (if hw_count b < hw_count a then TIMER_HW_CNT - hw_count a + hw_count b else hw_count b - hw_count a) =
    measured b - measured a"
proof -
  obtain q r where a: "a = 250 * q + r" "r < 250" by (metis mod_less_divisor mult_div_mod_eq zero_less_numeral)
  obtain p s where b: "b = 250 * p + s" "s < 250" by (metis mod_less_divisor mult_div_mod_eq zero_less_numeral)
  have m: "measured a = 249 * q + r" "measured b = 249 * p + s" "unat (hw_count a) = r" "unat (hw_count b) = s"
    using a b by (simp_all add: measured_def unat_hw_count)
  have "q \<le> p" "p \<le> Suc q" using assms a b by linarith+
  then consider "p = q" | "p = Suc q" by linarith
  then have "p = q \<and> r \<le> s \<or> p = Suc q \<and> s < r" by cases (use assms a b in simp_all)
  then show ?thesis
  proof
    assume *: "p = q \<and> r \<le> s"
    then have "\<not> hw_count b < hw_count a" by (simp add: word_less_nat_alt m)
    moreover have "unat (hw_count b - hw_count a) = s - r" using * by (simp add: unat_sub word_le_nat_alt m)
    ultimately show ?thesis using * m by simp
  next
    assume *: "p = Suc q \<and> s < r"
    then have "hw_count b < hw_count a" by (simp add: word_less_nat_alt m)
    moreover have "hw_count a \<le> TIMER_HW_CNT" using a(2) by (simp only: word_le_nat_alt m(3)) (simp add: TIMER_HW_CNT_def)
    then have "unat (TIMER_HW_CNT - hw_count a) = 249 - r"
      by (simp only: unat_sub m(3)) (simp add: TIMER_HW_CNT_def)
    then have "unat (TIMER_HW_CNT - hw_count a + hw_count b) = 249 - r + s"
      using * a(2) by (simp only: unat_word_ariths m(4)) (auto intro: mod_less)
    ultimately show ?thesis using * m a by simp
  qed
qed

text \<open>The times of the readings: in order, with less than one turn of the counter between them.\<close>

fun read_at :: "nat \<Rightarrow> nat list \<Rightarrow> bool" where
  "read_at a [] \<longleftrightarrow> True"
| "read_at a (b # bs) \<longleftrightarrow> a \<le> b \<and> b < a + 250 \<and> read_at b bs"

lemma read_at_last: "read_at a bs \<Longrightarrow> a \<le> last (a # bs)"
  by (induction bs arbitrary: a) (auto split: if_splits intro: order_trans)

text \<open>The wait has ended with the last reading exactly if the counts measured by then reach the delay.\<close>

lemma busyWait_measures:
  "read_at a bs \<Longrightarrow> bs \<noteq> [] \<Longrightarrow>
   timer_busyWait (map hw_count bs) (hw_count a) delay = Some () \<longleftrightarrow> unat delay \<le> measured (last bs) - measured a"
proof (induction bs arbitrary: a delay)
  case (Cons b bs)
  let ?delta = "if hw_count b < hw_count a then TIMER_HW_CNT - hw_count a + hw_count b else hw_count b - hw_count a"
  have d: "unat ?delta = measured b - measured a" using Cons.prems by (intro hw_delta) simp_all
  have ab: "measured a \<le> measured b" using Cons.prems by (intro measured_mono) simp
  have bl: "measured b \<le> measured (last (b # bs))"
    using Cons.prems read_at_last [of b bs] by (intro measured_mono) simp
  have step: "timer_busyWait (map hw_count (b # bs)) (hw_count a) delay =
      (if delay \<le> ?delta then Some () else timer_busyWait (map hw_count bs) (hw_count b) (delay - ?delta))"
    by (simp only: list.map timer_busyWait.simps Let_def)
  show ?case
  proof (cases "delay \<le> ?delta")
    case True
    then have "unat delay \<le> measured b - measured a" by (simp only: word_le_nat_alt d)
    with True bl show ?thesis unfolding step by simp
  next
    case False
    then have lt: "measured b - measured a < unat delay" by (simp only: word_le_nat_alt d not_le)
    have u: "unat (delay - ?delta) = unat delay - (measured b - measured a)"
      using False by (subst unat_sub) (simp_all only: word_le_nat_alt d not_le less_imp_le)
    show ?thesis
    proof (cases bs)
      case Nil
      with False lt show ?thesis unfolding step by simp
    next
      case (Cons c cs)
      then have "timer_busyWait (map hw_count bs) (hw_count b) (delay - ?delta) = Some () \<longleftrightarrow>
          unat delay - (measured b - measured a) \<le> measured (last bs) - measured b"
        using Cons.IH [of b "delay - ?delta"] Cons.prems by (simp add: u)
      with False lt ab bl show ?thesis unfolding step using Cons by auto
    qed
  qed
qed simp

text \<open>So the wait is long enough, and over two counts after the delay.\<close>

lemma busyWait_long_enough:
  assumes "read_at a bs" "timer_busyWait (map hw_count bs) (hw_count a) delay = Some ()"
  shows "unat delay \<le> last (a # bs) - a"
proof -
  have "bs \<noteq> []" using assms(2) by auto
  with busyWait_measures [OF assms(1), of delay] assms have "unat delay \<le> measured (last bs) - measured a" by simp
  moreover have "measured y - measured x \<le> y - x" if "x \<le> y" for x y
    using that unfolding measured_def by arith
  ultimately show ?thesis using read_at_last [OF assms(1)] \<open>bs \<noteq> []\<close> by (auto intro: order_trans)
qed

lemma busyWait_ends:
  assumes "read_at a bs" "a + unat delay + 2 \<le> last (a # bs)"
  shows "timer_busyWait (map hw_count bs) (hw_count a) delay = Some ()"
proof -
  have bs: "bs \<noteq> []" using assms(2) by auto
  have "measured (a + unat delay + 2) \<le> measured (last bs)" using assms(2) bs by (intro measured_mono) simp
  moreover have "unat delay \<le> measured (a + unat delay + 2) - measured a"
    using unat_u8_less [of delay] unfolding measured_def by arith
  ultimately show ?thesis using busyWait_measures [OF assms(1) bs, of delay] by simp
qed

text \<open>
  Microseconds in counts are exact to a count below 1022 of them; beyond that the byte wraps: 2000 microseconds become 244
  counts, less than a millisecond.
\<close>

lemma us_to_hptime_bound:
  assumes "us < 1022"
  shows "4 * unat (us_to_hptime (of_nat us)) \<le> us + 2" "us \<le> 4 * unat (us_to_hptime (of_nat us)) + 2"
proof -
  have "unat (of_nat us * 250 + 500 :: u32) = us * 250 + 500"
    using assms by (simp add: unat_word_ariths unat_of_nat)
  then have "unat ((of_nat us * 250 + 500) div 1000 :: u32) = (us * 250 + 500) div 1000"
    by (simp add: unat_div_distrib)
  then have "unat (us_to_hptime (of_nat us)) = (us * 250 + 500) div 1000"
    using assms by (simp add: us_to_hptime_def unsigned_ucast_eq take_bit_nat_eq_self)
  then show "4 * unat (us_to_hptime (of_nat us)) \<le> us + 2" "us \<le> 4 * unat (us_to_hptime (of_nat us)) + 2" by arith+
qed

lemma us_to_hptime_wraps: "us_to_hptime 2000 = 244" "hptime_to_us 244 = 976"
  by (simp_all add: us_to_hptime_def hptime_to_us_def)

text \<open>Every delay of a byte ends; above a millisecond one tick of it is waited for on the clock.\<close>

lemma delayHp_ends:
  assumes "read_at a bs" "a + 257 \<le> last (a # bs)"
  shows "timer_delayHp delay clock (map hw_count (a # bs)) = Some (if 250 < delay then clock + 1 else clock)"
proof -
  have ends: "timer_busyWait (map hw_count bs) (hw_count a) d = Some ()" for d
  proof (rule busyWait_ends [OF assms(1)])
    show "a + unat d + 2 \<le> last (a # bs)" using assms(2) unat_u8_less [of d] by linarith
  qed
  have ms: "us_to_hptime 1000 = 250" by (simp add: us_to_hptime_def)
  have "uint delay div 250 = 1" if "250 < delay"
  proof -
    have "250 < unat delay" "unat delay < 256" using that by (simp_all add: word_less_nat_alt)
    then have "int (unat delay) div 250 = 1" by arith
    then show ?thesis by simp
  qed
  then show ?thesis
    by (simp add: timer_delayHp_def Let_def TIMER_TICKS_PER_SEC_def ms ends timer_delayTicks_def timer_spin_returns)
qed

end
