(* ===== verification/Afsk.thy ===== *)
theory Afsk
  imports Hdlc Kfile
begin

text \<open>
  The AFSK1200 modem of \<^verbatim>\<open>bertos/net/afsk.c\<close> with the hardware hooks of
  \<^verbatim>\<open>TinyAPRS/hw/hw_afsk.[ch]\<close>: the modulator run by the DAC interrupt (character fetch, escape,
  preamble and trailer, bit stuffing, NRZ-S tone keying, direct digital synthesis), the
  demodulator run by the ADC interrupt (discriminator, Chebyshev low pass, bit clock recovery,
  HDLC), and the \<^verbatim>\<open>KFile\<close> operations. The configuration is the one of \<^verbatim>\<open>cfg_afsk.h\<close>: the
  Chebyshev filter with the 800 Hz cutoff, a 9600 Hz DAC, 64-byte FIFOs, receive timeout 0 and no
  carrier detect flag. \<^verbatim>\<open>cpu_relax()\<close> loops wait for the interrupt, so they are modelled as
  repeated interrupts and may fail to return (\<open>None\<close>). Two fields are history
  variables: \<open>tx_done\<close>, the bytes the modulator has taken from \<open>tx_fifo\<close>, and \<open>tone_line\<close>, the bits it has
  put on the line (a one where the tone stays, NRZ-S).
\<close>

section \<open>Constants and the context\<close>

definition DIV_ROUND :: "nat \<Rightarrow> nat \<Rightarrow> nat" where
  "DIV_ROUND dividend divisor = (dividend + divisor div 2) div divisor"

definition SIN_LEN :: nat where "SIN_LEN = 512"
definition MARK_INC :: u16 where "MARK_INC = word_of_nat (DIV_ROUND (SIN_LEN * 1200) 9600)"
definition SPACE_INC :: u16 where "SPACE_INC = word_of_nat (DIV_ROUND (SIN_LEN * 2200) 9600)"
definition DAC_SAMPLEPERBIT :: u8 where "DAC_SAMPLEPERBIT = word_of_nat (9600 div 1200)"
definition BIT_STUFF_LEN :: u8 where "BIT_STUFF_LEN = 5"
definition PREAMBLE_CHARS :: u16 where "PREAMBLE_CHARS = word_of_nat (DIV_ROUND (350 * 1200) 8000)"
definition TRAILER_CHARS :: u16 where "TRAILER_CHARS = word_of_nat (DIV_ROUND (75 * 1200) 8000)"
definition AFSK_RXFIFO_OVERRUN :: i16 where "AFSK_RXFIFO_OVERRUN = 1"

definition sin_table :: "u8 list" where
  "sin_table = [
   128, 129, 131, 132, 134, 135, 137, 138, 140, 142, 143, 145, 146, 148, 149, 151,
   152, 154, 155, 157, 158, 160, 162, 163, 165, 166, 167, 169, 170, 172, 173, 175,
   176, 178, 179, 181, 182, 183, 185, 186, 188, 189, 190, 192, 193, 194, 196, 197,
   198, 200, 201, 202, 203, 205, 206, 207, 208, 210, 211, 212, 213, 214, 215, 217,
   218, 219, 220, 221, 222, 223, 224, 225, 226, 227, 228, 229, 230, 231, 232, 233,
   234, 234, 235, 236, 237, 238, 238, 239, 240, 241, 241, 242, 243, 243, 244, 245,
   245, 246, 246, 247, 248, 248, 249, 249, 250, 250, 250, 251, 251, 252, 252, 252,
   253, 253, 253, 253, 254, 254, 254, 254, 254, 255, 255, 255, 255, 255, 255, 255]"

definition sin_sample :: "u16 \<Rightarrow> u8" where
  "sin_sample idx =
     (let new_idx = idx mod 256;
          new_idx = (if 128 \<le> new_idx then 256 - new_idx - 1 else new_idx);
          data = sin_table ! unat new_idx
      in if 256 \<le> idx then 255 - data else data)"

record Afsk =
  adc_ch :: int
  dac_ch :: int
  sample_count :: u8
  curr_out :: u8
  tx_bit :: u8
  bit_stuff :: bool
  stuff_cnt :: u8
  phase_acc :: u16
  phase_inc :: u16
  delay_fifo :: FIFOBuffer
  rx_fifo :: FIFOBuffer
  tx_fifo :: FIFOBuffer
  iir_x0 :: i16
  iir_x1 :: i16
  iir_y0 :: i16
  iir_y1 :: i16
  sampled_bits :: u8
  curr_phase :: i8
  found_bits :: u8
  sending :: bool
  status :: i16
  hdlc :: Hdlc
  preamble_len :: u16
  trailer_len :: u16
  hw_dac_isr :: bool
  ptt :: bool
  tx_done :: bytes
  tone_line :: "bool list"

section \<open>The modulator\<close>

definition SWITCH_TONE :: "u16 \<Rightarrow> u16" where
  "SWITCH_TONE inc = (if inc = MARK_INC then SPACE_INC else MARK_INC)"

text \<open>\<^verbatim>\<open>AFSK_DAC_IRQ_START\<close> and \<^verbatim>\<open>AFSK_DAC_IRQ_STOP\<close>: the push-to-talk pin and the flag that
  makes the sample interrupt call the modulator.\<close>

definition AFSK_DAC_IRQ_START :: "Afsk \<Rightarrow> Afsk" where
  "AFSK_DAC_IRQ_START af = af\<lparr>ptt := True, hw_dac_isr := True\<rparr>"

definition AFSK_DAC_IRQ_STOP :: "Afsk \<Rightarrow> Afsk" where
  "AFSK_DAC_IRQ_STOP af = af\<lparr>ptt := False, hw_dac_isr := False\<rparr>"

definition afsk_txStart :: "Afsk \<Rightarrow> Afsk" where
  "afsk_txStart af =
     (let af = (if \<not> sending af then
                  AFSK_DAC_IRQ_START (af\<lparr>phase_inc := MARK_INC, phase_acc := 0, stuff_cnt := 0,
                    sending := True, preamble_len := PREAMBLE_CHARS\<rparr>)
                else af)
      in af\<lparr>trailer_len := TRAILER_CHARS\<rparr>)"

definition afsk_tx_pop :: "Afsk \<Rightarrow> Afsk" where
  "afsk_tx_pop af =
     (let (c, f) = fifo_pop (tx_fifo af)
      in af\<lparr>curr_out := c, tx_fifo := f, tx_done := tx_done af @ [c]\<rparr>)"

text \<open>Fetching the next character; the result says whether to go on (false: \<^verbatim>\<open>goto exit\<close>).\<close>

definition afsk_next_char :: "Afsk \<Rightarrow> bool \<times> Afsk" where
  "afsk_next_char af =
     (if fifo_isempty (tx_fifo af) \<and> trailer_len af = 0
      then (False, (AFSK_DAC_IRQ_STOP af)\<lparr>sending := False\<rparr>)
      else
        let af = (if \<not> bit_stuff af then af\<lparr>stuff_cnt := 0\<rparr> else af);
            af = af\<lparr>bit_stuff := True\<rparr>;
            af = (if preamble_len af = 0 then
                    (if fifo_isempty (tx_fifo af)
                     then af\<lparr>trailer_len := trailer_len af - 1, curr_out := HDLC_FLAG\<rparr>
                     else afsk_tx_pop af)
                  else af\<lparr>preamble_len := preamble_len af - 1, curr_out := HDLC_FLAG\<rparr>)
        in if curr_out af = AX25_ESC then
             (if fifo_isempty (tx_fifo af)
              then (False, (AFSK_DAC_IRQ_STOP af)\<lparr>sending := False\<rparr>)
              else (True, (afsk_tx_pop af)\<lparr>tx_bit := 1\<rparr>))
           else if curr_out af = HDLC_FLAG \<or> curr_out af = HDLC_RESET
             then (True, af\<lparr>bit_stuff := False, tx_bit := 1\<rparr>)
           else (True, af\<lparr>tx_bit := 1\<rparr>))"

definition afsk_next_bit :: "Afsk \<Rightarrow> Afsk" where
  "afsk_next_bit af =
     (let line = tone_line af; inc = phase_inc af;
          af = (if bit_stuff af \<and> BIT_STUFF_LEN \<le> stuff_cnt af
                then af\<lparr>stuff_cnt := 0, phase_inc := SWITCH_TONE (phase_inc af)\<rparr>
                else
                  let af = (if curr_out af AND tx_bit af \<noteq> 0
                            then af\<lparr>stuff_cnt := stuff_cnt af + 1\<rparr>
                            else af\<lparr>stuff_cnt := 0, phase_inc := SWITCH_TONE (phase_inc af)\<rparr>)
                  in af\<lparr>tx_bit := push_bit 1 (tx_bit af)\<rparr>)
      in af\<lparr>sample_count := DAC_SAMPLEPERBIT, tone_line := line @ [phase_inc af = inc]\<rparr>)"

text \<open>The start of a sample cycle, and one sample.\<close>

definition afsk_bit_start :: "Afsk \<Rightarrow> bool \<times> Afsk" where
  "afsk_bit_start af =
     (let (go, af) = (if tx_bit af = 0 then afsk_next_char af else (True, af))
      in (go, if go then afsk_next_bit af else af))"

definition afsk_sample :: "Afsk \<Rightarrow> u8 \<times> Afsk" where
  "afsk_sample af =
     (let af = af\<lparr>phase_acc := (phase_acc af + phase_inc af) mod word_of_nat SIN_LEN\<rparr>;
          af = af\<lparr>sample_count := sample_count af - 1\<rparr>
      in (sin_sample (phase_acc af), af))"

definition afsk_dac_isr :: "Afsk \<Rightarrow> u8 \<times> Afsk" where
  "afsk_dac_isr af =
     (let (go, af) = (if sample_count af = 0 then afsk_bit_start af else (True, af))
      in if go then afsk_sample af else (0, af))"

section \<open>The demodulator\<close>

definition PHASE_BIT :: int where "PHASE_BIT = 8"
definition PHASE_INC :: int where "PHASE_INC = 1"
definition PHASE_MAX :: int where "PHASE_MAX = (9600 div 1200) * PHASE_BIT"
definition PHASE_THRES :: int where "PHASE_THRES = PHASE_MAX div 2"

definition EDGE_FOUND :: "u8 \<Rightarrow> bool" where
  "EDGE_FOUND bitline \<longleftrightarrow> (bitline XOR drop_bit 1 bitline) AND 0x01 \<noteq> 0"

text \<open>The discriminator and the first-order low pass: sample times delayed sample, in 16 bits.\<close>

definition afsk_filter :: "Afsk \<Rightarrow> i8 \<Rightarrow> Afsk" where
  "afsk_filter af curr_sample =
     (let af = af\<lparr>iir_x0 := iir_x1 af\<rparr>;
          (delayed, f) = fifo_pop (delay_fifo af);
          af = af\<lparr>delay_fifo := f, iir_x1 := signed_drop_bit 2 (scast delayed * scast curr_sample)\<rparr>;
          af = af\<lparr>iir_y0 := iir_y1 af\<rparr>;
          af = af\<lparr>iir_y1 := iir_x0 af + iir_x1 af + signed_drop_bit 2 (iir_y0 af)\<rparr>;
          af = af\<lparr>sampled_bits := push_bit 1 (sampled_bits af) OR (if 0 < sint (iir_y1 af) then 0 else 1)\<rparr>
      in af\<lparr>delay_fifo := fifo_push (delay_fifo af) curr_sample\<rparr>)"

text \<open>Bit clock recovery: an edge moves the sampling phase by one unit.\<close>

definition afsk_clock :: "Afsk \<Rightarrow> Afsk" where
  "afsk_clock af =
     (let af = (if EDGE_FOUND (sampled_bits af) then
                  (if sint (curr_phase af) < PHASE_THRES
                   then af\<lparr>curr_phase := curr_phase af + word_of_int PHASE_INC\<rparr>
                   else af\<lparr>curr_phase := curr_phase af - word_of_int PHASE_INC\<rparr>)
                else af)
      in af\<lparr>curr_phase := curr_phase af + word_of_int PHASE_BIT\<rparr>)"

text \<open>Sampling a bit: the majority of the last three samples, NRZ-S decoding, HDLC.\<close>

definition afsk_found_bits :: "Afsk \<Rightarrow> u8" where
  "afsk_found_bits af =
     (let found = push_bit 1 (found_bits af);
          bits = sampled_bits af AND 0x07
      in if bits = 0x07 \<or> bits = 0x06 \<or> bits = 0x05 \<or> bits = 0x03 then found OR 1 else found)"

definition afsk_take_bit :: "Afsk \<Rightarrow> Afsk" where
  "afsk_take_bit af =
     (let af = af\<lparr>curr_phase := word_of_int (sint (curr_phase af) mod PHASE_MAX),
                  found_bits := afsk_found_bits af\<rparr>;
          (ret, h, f) = hdlc_parse (hdlc af) (\<not> EDGE_FOUND (found_bits af)) (rx_fifo af);
          af = af\<lparr>hdlc := h, rx_fifo := f\<rparr>
      in if \<not> ret then af\<lparr>status := status af OR AFSK_RXFIFO_OVERRUN\<rparr> else af)"

definition afsk_adc_isr :: "Afsk \<Rightarrow> i8 \<Rightarrow> Afsk" where
  "afsk_adc_isr af curr_sample =
     (let af = afsk_filter af curr_sample;
          af = afsk_clock af
      in if PHASE_MAX \<le> sint (curr_phase af) then afsk_take_bit af else af)"

text \<open>The sample interrupt \<^verbatim>\<open>ADC_vect\<close> of \<^verbatim>\<open>hw_afsk.c\<close>: the ADC reading is 10 bits wide, the
  result is what it writes to the DAC port.\<close>

definition ADC_vect :: "Afsk \<Rightarrow> u16 \<Rightarrow> u8 \<times> Afsk" where
  "ADC_vect af adc =
     (let af = afsk_adc_isr af (ucast (drop_bit 2 adc - 128))
      in if hw_dac_isr af then
           let (v, af) = afsk_dac_isr af in (v AND 0xF0, af)
         else (128, af))"

section \<open>The channel operations\<close>

fun afsk_read :: "nat \<Rightarrow> Afsk \<Rightarrow> bytes \<times> Afsk" where
  "afsk_read 0 af = ([], af)"
| "afsk_read (Suc n) af =
     (if fifo_isempty (rx_fifo af) then ([], af)
      else let (c, f) = fifo_pop (rx_fifo af); (cs, af') = afsk_read n (af\<lparr>rx_fifo := f\<rparr>)
           in (c # cs, af'))"

text \<open>While the main loop waits, the sample interrupt runs the modulator if it is enabled; its
  receive half works on other fields.\<close>

definition afsk_tx_tick :: "Afsk \<Rightarrow> Afsk" where
  "afsk_tx_tick af = (if hw_dac_isr af then snd (afsk_dac_isr af) else af)"

partial_function (option) afsk_wait_room :: "Afsk \<Rightarrow> Afsk option" where
  "afsk_wait_room af =
     (if fifo_isfull (tx_fifo af) then afsk_wait_room (afsk_tx_tick af) else Some af)"

fun afsk_write :: "bytes \<Rightarrow> Afsk \<Rightarrow> Afsk option" where
  "afsk_write [] af = Some af"
| "afsk_write (c # buf) af =
     do { af \<leftarrow> afsk_wait_room af;
          afsk_write buf (afsk_txStart (af\<lparr>tx_fifo := fifo_push (tx_fifo af) c\<rparr>)) }"

partial_function (option) afsk_flush :: "Afsk \<Rightarrow> Afsk option" where
  "afsk_flush af = (if sending af then afsk_flush (afsk_tx_tick af) else Some af)"

definition afsk_error :: "Afsk \<Rightarrow> i16" where
  "afsk_error af = status af"

definition afsk_clearerr :: "Afsk \<Rightarrow> Afsk" where
  "afsk_clearerr af = af\<lparr>status := 0\<rparr>"

definition afsk_init :: "int \<Rightarrow> int \<Rightarrow> Afsk" where
  "afsk_init adc dac =
     \<lparr>adc_ch = adc, dac_ch = dac, sample_count = 0, curr_out = 0, tx_bit = 0, bit_stuff = False,
      stuff_cnt = 0, phase_acc = 0, phase_inc = MARK_INC,
      delay_fifo = fold (\<lambda>_ f. fifo_push f 0) [0..<4] (fifo_init (replicate 5 0) 5),
      rx_fifo = fifo_init (replicate 64 0) 64, tx_fifo = fifo_init (replicate 64 0) 64,
      iir_x0 = 0, iir_x1 = 0, iir_y0 = 0, iir_y1 = 0, sampled_bits = 0, curr_phase = 0,
      found_bits = 0, sending = False, status = 0,
      hdlc = \<lparr>demod_bits = 0, bit_idx = 0, currchar = 0, rxstart = False\<rparr>,
      preamble_len = 0, trailer_len = 0, hw_dac_isr = False, ptt = False, tx_done = [], tone_line = []\<rparr>"

end
