(* ===== verification/Afsk_Line.thy ===== *)
theory Afsk_Line
  imports Afsk
begin

text \<open>
  The modulator against the line code: eight calls of \<^verbatim>\<open>afsk_dac_isr\<close> are one bit, the bits of a
  character are those of the HDLC line code of \<open>Hdlc\<close>, and a whole transmission is the preamble,
  the queued bytes and the trailer.
\<close>

section \<open>What the modulator puts on the line\<close>

lemma tone_consts [simp]: "MARK_INC = 64" "SPACE_INC = 117"
  by (simp_all add: MARK_INC_def SPACE_INC_def DIV_ROUND_def SIN_LEN_def)

lemma timing_consts [simp]: "PREAMBLE_CHARS = 53" "TRAILER_CHARS = 11" "DAC_SAMPLEPERBIT = 8"
  by (simp_all add: PREAMBLE_CHARS_def TRAILER_CHARS_def DIV_ROUND_def DAC_SAMPLEPERBIT_def)

lemma switch_tone_differs: "SWITCH_TONE inc \<noteq> inc"
  by (simp add: SWITCH_TONE_def)

fun after_samples :: "nat \<Rightarrow> Afsk \<Rightarrow> Afsk" where
  "after_samples 0 af = af"
| "after_samples (Suc k) af = after_samples k (snd (afsk_sample af))"

text \<open>
  One bit time from the start of a sample cycle: the bit is a one if the tone stays (NRZ-S), and
  the state is the one after the eight samples of the bit; no bit if the modulator stops.
\<close>

definition afsk_bit_time :: "Afsk \<Rightarrow> bool option \<times> Afsk" where
  "afsk_bit_time af =
     (let (go, af1) = afsk_bit_start af
      in if go then (Some (phase_inc af1 = phase_inc af), after_samples 8 af1)
         else (None, af1))"

inductive emits :: "Afsk \<Rightarrow> bool list \<Rightarrow> Afsk \<Rightarrow> bool" where
  emits_Nil: "emits af [] af"
| emits_Cons: "afsk_bit_time af = (Some b, af1) \<Longrightarrow> emits af1 bs af2 \<Longrightarrow> emits af (b # bs) af2"

lemma emits_append: "emits af bs af1 \<Longrightarrow> emits af1 cs af2 \<Longrightarrow> emits af (bs @ cs) af2"
  by (induction rule: emits.induct) (auto intro: emits.intros)

fun isr_run :: "nat \<Rightarrow> Afsk \<Rightarrow> bytes \<times> Afsk" where
  "isr_run 0 af = ([], af)"
| "isr_run (Suc k) af =
     (let (v, af1) = afsk_dac_isr af; (vs, af2) = isr_run k af1 in (v # vs, af2))"

text \<open>The bits an observer of the tone sees, one per eight interrupts.\<close>

fun tone_bits :: "nat \<Rightarrow> Afsk \<Rightarrow> bool list" where
  "tone_bits 0 af = []"
| "tone_bits (Suc k) af =
     (let af1 = snd (isr_run 8 af) in (phase_inc af1 = phase_inc af) # tone_bits k af1)"

text \<open>The samples of a bit touch the phase accumulator and the sample counter only.\<close>

lemma after_samples_frame:
  "\<exists>p. after_samples k af = af\<lparr>phase_acc := p, sample_count := sample_count af - word_of_nat k\<rparr>"
proof (induction k arbitrary: af)
  case 0
  show ?case by (rule exI [of _ "phase_acc af"]) simp
next
  case (Suc k)
  obtain p where "after_samples k (snd (afsk_sample af)) = (snd (afsk_sample af))
    \<lparr>phase_acc := p, sample_count := sample_count (snd (afsk_sample af)) - word_of_nat k\<rparr>"
    using Suc by blast
  then show ?case by (auto simp: afsk_sample_def Let_def algebra_simps)
qed

lemma isr_run_samples:
  "unat (sample_count af) = k \<Longrightarrow> snd (isr_run k af) = after_samples k af"
proof (induction k arbitrary: af)
  case (Suc k)
  then have "sample_count af \<noteq> 0" by auto
  moreover have "sample_count (snd (afsk_sample af)) = sample_count af - 1"
    by (simp add: afsk_sample_def Let_def)
  moreover have "unat (sample_count af - 1) = k"
    using Suc.prems \<open>sample_count af \<noteq> 0\<close> by (simp add: unat_minus_one)
  ultimately show ?case
    using Suc.IH [of "snd (afsk_sample af)"] by (simp add: afsk_dac_isr_def Let_def split_beta)
qed simp

lemma sample_count_next_bit [simp]: "sample_count (afsk_next_bit af) = 8"
  by (simp add: afsk_next_bit_def Let_def)

lemma bit_start_sample_count: "afsk_bit_start af = (True, af1) \<Longrightarrow> sample_count af1 = 8"
  by (auto simp: afsk_bit_start_def Let_def split_beta split: if_splits)

lemma isr_run_Suc: "snd (isr_run (Suc k) af) = snd (isr_run k (snd (afsk_dac_isr af)))"
  by (simp add: split_beta)

lemma isr_run_bit_time:
  assumes "sample_count af = 0" and "afsk_bit_time af = (Some b, af')"
  shows "snd (isr_run 8 af) = af'"
proof -
  obtain af1 where s: "afsk_bit_start af = (True, af1)" and af': "af' = after_samples 8 af1"
    using assms(2) by (cases "afsk_bit_start af")
      (auto simp: afsk_bit_time_def Let_def split: if_splits)
  have "snd (afsk_dac_isr af) = snd (afsk_sample af1)"
    using assms(1) s by (simp add: afsk_dac_isr_def)
  moreover have "unat (sample_count (snd (afsk_sample af1))) = 7"
    using bit_start_sample_count [OF s] by (simp add: afsk_sample_def Let_def)
  ultimately have "snd (isr_run (Suc 7) af) = after_samples (Suc 7) af1"
    unfolding isr_run_Suc by (simp only: isr_run_samples after_samples.simps)
  with af' show ?thesis by (simp del: after_samples.simps isr_run.simps)
qed

lemma bit_time_Some:
  assumes "afsk_bit_time af = (Some b, af')"
  shows "sample_count af' = 0" "b \<longleftrightarrow> phase_inc af' = phase_inc af"
proof -
  obtain af1 where s: "afsk_bit_start af = (True, af1)" and af': "af' = after_samples 8 af1"
    "b \<longleftrightarrow> phase_inc af1 = phase_inc af"
    using assms by (cases "afsk_bit_start af")
      (auto simp: afsk_bit_time_def Let_def split: if_splits)
  then show "sample_count af' = 0" "b \<longleftrightarrow> phase_inc af' = phase_inc af"
    using after_samples_frame [of 8 af1] bit_start_sample_count [OF s] by auto
qed

lemma isr_run_add: "snd (isr_run (j + k) af) = snd (isr_run k (snd (isr_run j af)))"
  by (induction j arbitrary: af) (simp_all add: split_beta)

lemma emits_tone_bits:
  "emits af bs af' \<Longrightarrow> sample_count af = 0 \<Longrightarrow>
   tone_bits (length bs) af = bs \<and> snd (isr_run (8 * length bs) af) = af'"
proof (induction rule: emits.induct)
  case (emits_Cons af b af1 bs af2)
  note b = bit_time_Some [OF emits_Cons.hyps(1)]
  have run: "snd (isr_run 8 af) = af1" by (rule isr_run_bit_time) fact+
  have "snd (isr_run (8 + 8 * length bs) af) = af2"
    unfolding isr_run_add run using emits_Cons.IH b(1) by blast
  moreover have "tone_bits (length (b # bs)) af = b # bs"
    using emits_Cons.IH b by (simp only: tone_bits.simps length_Cons run Let_def simp_thms)
  ultimately show ?case by simp
qed simp

text \<open>The bits of one character, from the mask \<open>2 ^ i\<close> to the end of the byte.\<close>

definition tx_idle_fields :: "Afsk \<Rightarrow> Afsk \<Rightarrow> bool" where
  "tx_idle_fields af af' \<longleftrightarrow>
     tx_fifo af' = tx_fifo af \<and> preamble_len af' = preamble_len af \<and> trailer_len af' = trailer_len af \<and>
     bit_stuff af' = bit_stuff af \<and> sending af' = sending af \<and> hw_dac_isr af' = hw_dac_isr af \<and>
     ptt af' = ptt af \<and> tx_done af' = tx_done af \<and> curr_out af' = curr_out af"

lemma bit_time_in_char:
  assumes "sample_count af = 0" and "tx_bit af \<noteq> 0"
  shows "\<exists>af'. afsk_bit_time af = (Some (phase_inc (afsk_next_bit af) = phase_inc af), af') \<and>
    sample_count af' = 0 \<and> tx_bit af' = tx_bit (afsk_next_bit af) \<and>
    stuff_cnt af' = stuff_cnt (afsk_next_bit af) \<and> tx_idle_fields (afsk_next_bit af) af'"
proof -
  obtain p where "after_samples 8 (afsk_next_bit af) =
    (afsk_next_bit af)\<lparr>phase_acc := p, sample_count := 0\<rparr>"
    using after_samples_frame [of 8 "afsk_next_bit af"] by auto
  then show ?thesis
    using assms by (simp add: afsk_bit_time_def afsk_bit_start_def tx_idle_fields_def)
qed

lemma next_bit_stuff:
  assumes "bit_stuff af" and "5 \<le> stuff_cnt af"
  shows "phase_inc (afsk_next_bit af) \<noteq> phase_inc af" "stuff_cnt (afsk_next_bit af) = 0"
    "tx_bit (afsk_next_bit af) = tx_bit af" "tx_idle_fields af (afsk_next_bit af)"
  using assms switch_tone_differs
  by (simp_all add: afsk_next_bit_def BIT_STUFF_LEN_def Let_def tx_idle_fields_def)

lemma next_bit_data:
  assumes "\<not> (bit_stuff af \<and> 5 \<le> stuff_cnt af)" and "tx_bit af = 2 ^ i"
  shows "phase_inc (afsk_next_bit af) = phase_inc af \<longleftrightarrow> bit (curr_out af) i"
    "stuff_cnt (afsk_next_bit af) = (if bit (curr_out af) i then stuff_cnt af + 1 else 0)"
    "tx_bit (afsk_next_bit af) = 2 ^ Suc i" "tx_idle_fields af (afsk_next_bit af)"
proof -
  have "curr_out af AND 2 ^ i \<noteq> 0 \<longleftrightarrow> bit (curr_out af) i"
    by (simp add: and_exp_eq_0_iff_not_bit)
  then show "phase_inc (afsk_next_bit af) = phase_inc af \<longleftrightarrow> bit (curr_out af) i"
    "stuff_cnt (afsk_next_bit af) = (if bit (curr_out af) i then stuff_cnt af + 1 else 0)"
    "tx_bit (afsk_next_bit af) = 2 ^ Suc i" "tx_idle_fields af (afsk_next_bit af)"
    using assms switch_tone_differs
    by (auto simp: afsk_next_bit_def BIT_STUFF_LEN_def Let_def tx_idle_fields_def)
qed

lemma tx_idle_fields_trans:
  "tx_idle_fields a b \<Longrightarrow> tx_idle_fields b c \<Longrightarrow> tx_idle_fields a c"
  by (simp add: tx_idle_fields_def)

lemma emits_bit:
  assumes "sample_count af = 0" and "tx_bit af = 2 ^ i" and "i < 8"
    and "stuff_cnt af = word_of_nat n" and "n < 200" and "bit_stuff af \<Longrightarrow> n < 5"
  obtains af' where "afsk_bit_time af = (Some (bit (curr_out af) i), af')"
    "sample_count af' = 0" "tx_bit af' = 2 ^ Suc i"
    "stuff_cnt af' = word_of_nat (if bit (curr_out af) i then Suc n else 0)" "tx_idle_fields af af'"
proof -
  have "\<not> (bit_stuff af \<and> 5 \<le> stuff_cnt af)"
    using assms(4-6) by (auto simp: word_le_nat_alt unat_of_nat)
  from next_bit_data [OF this assms(2)] bit_time_in_char [OF assms(1)] assms(2-4) that
  show ?thesis by (force simp: exp_eq_zero_iff intro: tx_idle_fields_trans)
qed

lemma emits_stuff_bit:
  assumes "sample_count af = 0" and "tx_bit af \<noteq> 0" and "bit_stuff af" and "stuff_cnt af = 5"
  obtains af' where "afsk_bit_time af = (Some False, af')"
    "sample_count af' = 0" "tx_bit af' = tx_bit af" "stuff_cnt af' = 0" "tx_idle_fields af af'"
  using next_bit_stuff [OF assms(3)] bit_time_in_char [OF assms(1,2)] assms(4) that
  by (force intro: tx_idle_fields_trans)

text \<open>What is left of a character, bit-stuffed or not.\<close>

lemma drop_byte_bits: "i < 8 \<Longrightarrow> drop i (byte_bits c) = bit c i # drop (Suc i) (byte_bits c)"
  by (subst Cons_nth_drop_Suc [symmetric]) (simp_all add: byte_bits_def)

lemma emits_stuffed_char:
  assumes "sample_count af = 0" and "tx_bit af = 2 ^ i" and "i \<le> 8" and "bit_stuff af"
    and "stuff_cnt af = word_of_nat n" and "n \<le> 5"
  shows "\<exists>af'. emits af (fst (stuff_bits n (drop i (byte_bits (curr_out af))))) af' \<and>
    sample_count af' = 0 \<and> tx_bit af' = 0 \<and> tx_idle_fields af af' \<and>
    stuff_cnt af' = word_of_nat (snd (stuff_bits n (drop i (byte_bits (curr_out af)))))"
  using assms
proof (induction "8 - i" arbitrary: i n af)
  case 0
  then show ?case
    by (intro exI [of _ af]) (simp add: byte_bits_def emits.intros tx_idle_fields_def)
next
  case (Suc d)
  then have i: "i < 8" "d = 8 - Suc i" by simp_all
  have step: "\<exists>af'. emits af (fst (stuff_bits n (drop i (byte_bits (curr_out af))))) af' \<and>
    sample_count af' = 0 \<and> tx_bit af' = 0 \<and> tx_idle_fields af af' \<and>
    stuff_cnt af' = word_of_nat (snd (stuff_bits n (drop i (byte_bits (curr_out af)))))"
    if h: "sample_count af = 0" "tx_bit af = 2 ^ i" "bit_stuff af" "stuff_cnt af = word_of_nat n" "n < 5"
    for af n
  proof -
    obtain af1 where 1: "afsk_bit_time af = (Some (bit (curr_out af) i), af1)"
      "sample_count af1 = 0" "tx_bit af1 = 2 ^ Suc i" "tx_idle_fields af af1"
      "stuff_cnt af1 = word_of_nat (if bit (curr_out af) i then Suc n else 0)"
      using emits_bit [OF h(1,2) i(1) h(4)] h(5) by auto
    have same: "curr_out af1 = curr_out af" "bit_stuff af1"
      using 1(4) h(3) by (simp_all add: tx_idle_fields_def)
    have "Suc i \<le> 8" "(if bit (curr_out af) i then Suc n else 0) \<le> 5" using i(1) h(5) by auto
    from Suc.hyps(1) [OF i(2) 1(2,3) this(1) same(2) 1(5) this(2)] same(1)
    obtain af2 where 2: "emits af1 (fst (stuff_bits (if bit (curr_out af) i then Suc n else 0)
        (drop (Suc i) (byte_bits (curr_out af))))) af2"
      "sample_count af2 = 0" "tx_bit af2 = 0" "tx_idle_fields af1 af2"
      "stuff_cnt af2 = word_of_nat (snd (stuff_bits (if bit (curr_out af) i then Suc n else 0)
        (drop (Suc i) (byte_bits (curr_out af)))))"
      by auto
    show ?thesis
      using 2(2,3,5) tx_idle_fields_trans [OF 1(4) 2(4)] emits_Cons [OF 1(1) 2(1)] h(5)
      unfolding drop_byte_bits [OF i(1)] by (intro exI [of _ af2]) (simp add: split_beta)
  qed
  show ?case
  proof (cases "n < 5")
    case True
    with step Suc.prems show ?thesis by blast
  next
    case False
    then have n: "n = 5" using Suc.prems by simp
    have "tx_bit af \<noteq> 0" using Suc.prems(2) i(1) by (simp add: exp_eq_zero_iff)
    then obtain af0 where 0: "afsk_bit_time af = (Some False, af0)" "sample_count af0 = 0"
      "tx_bit af0 = 2 ^ i" "stuff_cnt af0 = 0" "tx_idle_fields af af0"
      using emits_stuff_bit [OF Suc.prems(1)] Suc.prems(2,4,5) n by auto
    then have same: "curr_out af0 = curr_out af" "bit_stuff af0"
      using Suc.prems(4) by (simp_all add: tx_idle_fields_def)
    from step [OF 0(2,3) same(2), of 0] 0(4) obtain af' where
      *: "emits af0 (fst (stuff_bits 0 (drop i (byte_bits (curr_out af))))) af'"
      "sample_count af' = 0" "tx_bit af' = 0" "tx_idle_fields af0 af'"
      "stuff_cnt af' = word_of_nat (snd (stuff_bits 0 (drop i (byte_bits (curr_out af)))))"
      by (auto simp: same(1))
    show ?thesis
      using emits_Cons [OF 0(1) *(1)] *(2,3,5) tx_idle_fields_trans [OF 0(5) *(4)] n
      unfolding drop_byte_bits [OF i(1)] by (intro exI [of _ af']) (simp add: split_beta)
  qed
qed

lemma emits_raw_char:
  assumes "sample_count af = 0" and "tx_bit af = 2 ^ i" and "i \<le> 8" and "\<not> bit_stuff af"
    and "stuff_cnt af = word_of_nat n" and "n \<le> 100 + i"
  shows "\<exists>af'. emits af (drop i (byte_bits (curr_out af))) af' \<and>
    sample_count af' = 0 \<and> tx_bit af' = 0 \<and> tx_idle_fields af af'"
  using assms
proof (induction "8 - i" arbitrary: i n af)
  case 0
  then show ?case
    by (intro exI [of _ af]) (simp add: byte_bits_def emits.intros tx_idle_fields_def)
next
  case (Suc d)
  then have i: "i < 8" "d = 8 - Suc i" by simp_all
  obtain af1 where 1: "afsk_bit_time af = (Some (bit (curr_out af) i), af1)"
    "sample_count af1 = 0" "tx_bit af1 = 2 ^ Suc i" "tx_idle_fields af af1"
    "stuff_cnt af1 = word_of_nat (if bit (curr_out af) i then Suc n else 0)"
    using emits_bit [OF Suc.prems(1,2) i(1) Suc.prems(5)] Suc.prems(4,6) i(1) by auto
  have same: "curr_out af1 = curr_out af" "\<not> bit_stuff af1"
    using 1(4) Suc.prems(4) by (simp_all add: tx_idle_fields_def)
  have "Suc i \<le> 8" "(if bit (curr_out af) i then Suc n else 0) \<le> 100 + Suc i"
    using i(1) Suc.prems(6) by auto
  from Suc.hyps(1) [OF i(2) 1(2,3) this(1) same(2) 1(5) this(2)]
  obtain af2 where 2: "emits af1 (drop (Suc i) (byte_bits (curr_out af))) af2"
    "sample_count af2 = 0" "tx_bit af2 = 0" "tx_idle_fields af1 af2"
    by (auto simp: same(1) split: if_splits)
  show ?case
    using 2(2,3) tx_idle_fields_trans [OF 1(4) 2(4)] emits_Cons [OF 1(1) 2(1)]
    unfolding drop_byte_bits [OF i(1)] by (intro exI [of _ af2]) simp
qed

section \<open>Characters\<close>

text \<open>At a character boundary; \<open>n\<close> is the number of ones the stuffing counts from.\<close>

definition at_boundary :: "nat \<Rightarrow> Afsk \<Rightarrow> bool" where
  "at_boundary n af \<longleftrightarrow> sample_count af = 0 \<and> tx_bit af = 0 \<and> fifo_valid (tx_fifo af) \<and>
     n \<le> 5 \<and> (if bit_stuff af then stuff_cnt af = word_of_nat n else n = 0)"

definition sent_char :: "Afsk \<Rightarrow> line_char" where
  "sent_char af = (if bit_stuff af then Data (curr_out af) else Raw (curr_out af))"

lemma stuff_bits_le: "n \<le> 5 \<Longrightarrow> snd (stuff_bits n bs) \<le> 5"
  by (induction bs arbitrary: n) (auto simp: split_beta)

lemma next_char_tx_bit: "afsk_next_char af = (True, af1) \<Longrightarrow> tx_bit af1 = 1"
  by (auto simp: afsk_next_char_def Let_def split: if_splits)

lemma tx_pop_fields [simp]:
  "phase_inc (afsk_tx_pop af) = phase_inc af" "sample_count (afsk_tx_pop af) = sample_count af"
  "stuff_cnt (afsk_tx_pop af) = stuff_cnt af" "bit_stuff (afsk_tx_pop af) = bit_stuff af"
  "preamble_len (afsk_tx_pop af) = preamble_len af" "trailer_len (afsk_tx_pop af) = trailer_len af"
  "sending (afsk_tx_pop af) = sending af" "hw_dac_isr (afsk_tx_pop af) = hw_dac_isr af"
  "ptt (afsk_tx_pop af) = ptt af" "tx_bit (afsk_tx_pop af) = tx_bit af"
  "phase_acc (afsk_tx_pop af) = phase_acc af"
  by (simp_all add: afsk_tx_pop_def split_beta Let_def)

lemma tx_pop_fifo [simp]: "tx_fifo (afsk_tx_pop af) = snd (fifo_pop (tx_fifo af))"
  "curr_out (afsk_tx_pop af) = fst (fifo_pop (tx_fifo af))"
  "tx_done (afsk_tx_pop af) = tx_done af @ [fst (fifo_pop (tx_fifo af))]"
  by (simp_all add: afsk_tx_pop_def split_beta Let_def)

lemma next_char_fields:
  assumes "afsk_next_char af = (True, af1)"
  shows "phase_inc af1 = phase_inc af" "sample_count af1 = sample_count af"
    "stuff_cnt af1 = (if bit_stuff af then stuff_cnt af else 0)"
  using assms by (auto simp: afsk_next_char_def Let_def split: if_splits)

lemma next_char_valid:
  "afsk_next_char af = (go, af1) \<Longrightarrow> fifo_valid (tx_fifo af) \<Longrightarrow> fifo_valid (tx_fifo af1)"
  by (auto simp: afsk_next_char_def AFSK_DAC_IRQ_STOP_def Let_def fifo.valid_pop split: if_splits)

lemma bit_time_next_char:
  assumes "tx_bit af = 0" and "afsk_next_char af = (True, af1)"
  shows "afsk_bit_time af = afsk_bit_time af1"
  using assms next_char_tx_bit [OF assms(2)] next_char_fields(1) [OF assms(2)]
  by (simp add: afsk_bit_time_def afsk_bit_start_def)

lemma byte_bits_Cons: "byte_bits c = bit c 0 # drop 1 (byte_bits c)"
  using drop_byte_bits [of 0 c] by simp

lemma emits_next_char:
  assumes "tx_bit af = 0" and "afsk_next_char af = (True, af1)" and "emits af1 bs af'" and "bs \<noteq> []"
  shows "emits af bs af'"
  using assms(3,4) by cases (auto simp: bit_time_next_char [OF assms(1,2)] intro: emits_Cons)

lemma emits_char:
  assumes "at_boundary n af" and "afsk_next_char af = (True, af1)"
  shows "\<exists>bs n' af'. emits af bs af' \<and> at_boundary n' af' \<and> tx_idle_fields af1 af' \<and>
    (\<forall>cs. line_bits n (sent_char af1 # cs) = bs @ line_bits n' cs)"
proof -
  let ?c = "curr_out af1"
  have 1: "sample_count af1 = 0" "tx_bit af1 = 2 ^ 0" "fifo_valid (tx_fifo af1)"
    using assms next_char_valid next_char_tx_bit next_char_fields(2)
    by (auto simp: at_boundary_def)
  have cnt: "stuff_cnt af1 = word_of_nat n" "n \<le> 5"
    using assms(1) next_char_fields(3) [OF assms(2)] by (auto simp: at_boundary_def split: if_splits)
  have b0: "tx_bit af = 0" using assms(1) by (simp add: at_boundary_def)
  show ?thesis
  proof (cases "bit_stuff af1")
    case True
    obtain af' where *: "emits af1 (fst (stuff_bits n (byte_bits ?c))) af'"
      "sample_count af' = 0" "tx_bit af' = 0" "tx_idle_fields af1 af'"
      "stuff_cnt af' = word_of_nat (snd (stuff_bits n (byte_bits ?c)))"
      using emits_stuffed_char [OF 1(1,2) _ True cnt] by auto
    have "fst (stuff_bits n (byte_bits ?c)) \<noteq> []"
      by (subst byte_bits_Cons) (simp add: split_beta)
    from emits_next_char [OF b0 assms(2) *(1) this] * 1(3) True show ?thesis
      by (intro exI [of _ "fst (stuff_bits n (byte_bits ?c))"]
          exI [of _ "snd (stuff_bits n (byte_bits ?c))"] exI [of _ af'])
        (simp add: at_boundary_def tx_idle_fields_def sent_char_def split_beta stuff_bits_le cnt(2))
  next
    case False
    obtain af' where *: "emits af1 (byte_bits ?c) af'"
      "sample_count af' = 0" "tx_bit af' = 0" "tx_idle_fields af1 af'"
      using emits_raw_char [OF 1(1,2) _ False cnt(1)] cnt(2) by auto
    have "byte_bits ?c \<noteq> []" by (simp add: byte_bits_def)
    from emits_next_char [OF b0 assms(2) *(1) this] * 1(3) False show ?thesis
      by (intro exI [of _ "byte_bits ?c"] exI [of _ 0] exI [of _ af'])
        (simp add: at_boundary_def tx_idle_fields_def sent_char_def)
  qed
qed

section \<open>A transmission\<close>

text \<open>The line characters for the bytes of the transmit FIFO: an escape makes the byte after it data.\<close>

definition plain_char :: "u8 \<Rightarrow> line_char" where
  "plain_char c = (if c = HDLC_FLAG \<or> c = HDLC_RESET then Raw c else Data c)"

fun tx_chars :: "bytes \<Rightarrow> line_char list" where
  "tx_chars [] = []"
| "tx_chars [c] = [plain_char c]"
| "tx_chars (c # d # cs) =
     (if c = AX25_ESC then Data d # tx_chars cs else plain_char c # tx_chars (d # cs))"

text \<open>No escape without a byte to escape.\<close>

fun escapes_complete :: "bytes \<Rightarrow> bool" where
  "escapes_complete [] = True"
| "escapes_complete [c] = (c \<noteq> AX25_ESC)"
| "escapes_complete (c # d # cs) =
     (if c = AX25_ESC then escapes_complete cs else escapes_complete (d # cs))"

definition tx_plan :: "nat \<Rightarrow> bytes \<Rightarrow> nat \<Rightarrow> line_char list" where
  "tx_plan p es t = replicate p (Raw HDLC_FLAG) @ tx_chars es @ replicate t (Raw HDLC_FLAG)"

text \<open>What is queued in the modem: preamble, FIFO and trailer.\<close>

definition queued :: "Afsk \<Rightarrow> nat \<Rightarrow> bytes \<Rightarrow> nat \<Rightarrow> bool" where
  "queued af p es t \<longleftrightarrow> unat (preamble_len af) = p \<and> fifo_list (tx_fifo af) = es \<and>
     unat (trailer_len af) = t \<and> fifo_valid (tx_fifo af)"

lemma queued_idle: "tx_idle_fields af af' \<Longrightarrow> queued af p es t \<Longrightarrow> queued af' p es t"
  by (simp add: queued_def tx_idle_fields_def)

lemma unat_pred: "unat (w :: u16) = Suc n \<Longrightarrow> unat (w - 1) = n \<and> w \<noteq> 0"
  using unat_minus_one [of w] by (cases "w = 0") simp_all

lemma pop_cons: "fifo_valid fb \<Longrightarrow> fifo_list fb = x # xs \<Longrightarrow> \<not> fifo_isempty fb \<and> fst (fifo_pop fb) = x \<and>
    fifo_list (snd (fifo_pop fb)) = xs \<and> fifo_valid (snd (fifo_pop fb))"
  using fifo.contents_pop [of fb x xs] by (simp add: fifo.isempty_contents fifo.valid_pop)

text \<open>The three sources of a character.\<close>

lemma next_char_preamble:
  assumes "queued af (Suc p) es t" and "es \<noteq> [] \<or> 0 < t"
  shows "\<exists>af1. afsk_next_char af = (True, af1) \<and> sent_char af1 = Raw HDLC_FLAG \<and>
    queued af1 p es t \<and> tx_done af1 = tx_done af"
  using assms unat_pred [of "preamble_len af" p]
  by (auto simp: queued_def afsk_next_char_def Let_def fifo.isempty_contents sent_char_def hdlc_consts)

lemma next_char_trailer:
  assumes "queued af 0 [] (Suc t)"
  shows "\<exists>af1. afsk_next_char af = (True, af1) \<and> sent_char af1 = Raw HDLC_FLAG \<and>
    queued af1 0 [] t \<and> tx_done af1 = tx_done af"
  using assms unat_pred [of "trailer_len af" t]
  by (auto simp: queued_def afsk_next_char_def Let_def fifo.isempty_contents sent_char_def hdlc_consts
      unat_eq_0)

lemma next_char_byte:
  assumes "queued af 0 (c # es) t" and "c \<noteq> AX25_ESC"
  shows "\<exists>af1. afsk_next_char af = (True, af1) \<and> sent_char af1 = plain_char c \<and>
    queued af1 0 es t \<and> tx_done af1 = tx_done af @ [c]"
  using assms pop_cons [of "tx_fifo af" c es]
  by (auto simp: queued_def afsk_next_char_def Let_def sent_char_def plain_char_def unat_eq_0)

lemma next_char_escaped:
  assumes "queued af 0 (AX25_ESC # c # es) t"
  shows "\<exists>af1. afsk_next_char af = (True, af1) \<and> sent_char af1 = Data c \<and>
    queued af1 0 es t \<and> tx_done af1 = tx_done af @ [AX25_ESC, c]"
  using assms pop_cons [of "tx_fifo af" AX25_ESC "c # es"]
    pop_cons [of "snd (fifo_pop (tx_fifo af))" c es]
  by (auto simp: queued_def afsk_next_char_def Let_def sent_char_def unat_eq_0)

lemma next_char_stop:
  assumes "queued af p [] 0"
  shows "afsk_next_char af = (False, (AFSK_DAC_IRQ_STOP af)\<lparr>sending := False\<rparr>)"
  using assms by (simp add: queued_def afsk_next_char_def fifo.isempty_contents unat_eq_0)

text \<open>One character of the plan, then the rest.\<close>

definition transmits :: "Afsk \<Rightarrow> nat \<Rightarrow> line_char list \<Rightarrow> bytes \<Rightarrow> bool" where
  "transmits af n cs es \<longleftrightarrow> (\<exists>af'. emits af (line_bits n cs) af' \<and> queued af' 0 [] 0 \<and>
     (\<exists>n'. at_boundary n' af') \<and> tx_done af' = tx_done af @ es)"

lemma transmits_Cons:
  assumes "at_boundary n af" and "afsk_next_char af = (True, af1)" and "sent_char af1 = ch"
    and "queued af1 p es t" and "tx_done af1 = tx_done af @ ds"
    and rest: "\<And>n' af'. at_boundary n' af' \<Longrightarrow> queued af' p es t \<Longrightarrow> transmits af' n' cs es"
  shows "transmits af n (ch # cs) (ds @ es)"
proof -
  from emits_char [OF assms(1,2)] assms(3) obtain bs n' af2 where
    *: "emits af bs af2" "at_boundary n' af2" "tx_idle_fields af1 af2"
    "line_bits n (ch # cs) = bs @ line_bits n' cs" by auto
  have "tx_done af2 = tx_done af @ ds" using *(3) assms(5) by (simp add: tx_idle_fields_def)
  with rest [OF *(2) queued_idle [OF *(3) assms(4)]] *(4) emits_append [OF *(1)] show ?thesis
    by (fastforce simp: transmits_def)
qed

lemma transmits_trailer:
  "at_boundary n af \<Longrightarrow> queued af 0 [] t \<Longrightarrow> transmits af n (replicate t (Raw HDLC_FLAG)) []"
proof (induction t arbitrary: n af)
  case 0
  then show ?case by (auto simp: transmits_def intro: emits.intros)
next
  case (Suc t)
  from next_char_trailer [OF Suc.prems(2)] obtain af1 where
    1: "afsk_next_char af = (True, af1)" "sent_char af1 = Raw HDLC_FLAG"
    "queued af1 0 [] t" "tx_done af1 = tx_done af @ []" by auto
  from transmits_Cons [OF Suc.prems(1) 1] Suc.IH show ?case by simp
qed

lemma transmits_bytes:
  "at_boundary n af \<Longrightarrow> queued af 0 es t \<Longrightarrow> escapes_complete es \<Longrightarrow>
   transmits af n (tx_chars es @ replicate t (Raw HDLC_FLAG)) es"
proof (induction es arbitrary: n af rule: tx_chars.induct)
  case 1
  then show ?case by (simp add: transmits_trailer)
next
  case (2 c)
  from next_char_byte [OF 2(2)] 2(3) obtain af1 where
    1: "afsk_next_char af = (True, af1)" "sent_char af1 = plain_char c"
    "queued af1 0 [] t" "tx_done af1 = tx_done af @ [c]" by auto
  from transmits_Cons [OF 2(1) 1] transmits_trailer show ?case by simp
next
  case (3 c d cs)
  show ?case
  proof (cases "c = AX25_ESC")
    case True
    from next_char_escaped 3(4) True obtain af1 where
      1: "afsk_next_char af = (True, af1)" "sent_char af1 = Data d"
      "queued af1 0 cs t" "tx_done af1 = tx_done af @ [c, d]" by blast
    from transmits_Cons [OF 3(3) 1] 3(1,5) True show ?thesis by simp
  next
    case False
    from next_char_byte [OF 3(4) False] obtain af1 where
      1: "afsk_next_char af = (True, af1)" "sent_char af1 = plain_char c"
      "queued af1 0 (d # cs) t" "tx_done af1 = tx_done af @ [c]" by auto
    from transmits_Cons [OF 3(3) 1] 3(2,5) False show ?thesis by simp
  qed
qed

lemma transmits_plan:
  "at_boundary n af \<Longrightarrow> queued af p es t \<Longrightarrow> escapes_complete es \<Longrightarrow> 0 < t \<Longrightarrow>
   transmits af n (tx_plan p es t) es"
proof (induction p arbitrary: n af)
  case 0
  then show ?case by (simp add: tx_plan_def transmits_bytes)
next
  case (Suc p)
  from next_char_preamble [OF Suc.prems(2)] Suc.prems(4) obtain af1 where
    1: "afsk_next_char af = (True, af1)" "sent_char af1 = Raw HDLC_FLAG"
    "queued af1 p es t" "tx_done af1 = tx_done af @ []" by auto
  from transmits_Cons [OF Suc.prems(1) 1] Suc.IH Suc.prems(3,4) show ?case
    by (simp add: tx_plan_def)
qed

text \<open>
  C6. The modulator codes its queue onto the line: from a character boundary with a preamble of
  \<open>p\<close> flags, the FIFO bytes \<open>es\<close> and a trailer of \<open>t\<close> flags pending, the tone sequence of the next
  bit times is exactly the HDLC line code of the flags, of the bytes (an escaped byte stuffed,
  an unescaped 0x7E or 0x7F sent raw) and of the flags; every FIFO byte has then been taken, in
  order, and the next interrupt switches the transmitter off.
\<close>

theorem dac_isr_line_code:
  assumes "at_boundary n af" and "queued af p es t" and "escapes_complete es" and "0 < t"
  shows "let bits = line_bits n (tx_plan p es t); af' = snd (isr_run (8 * length bits) af);
             af'' = snd (afsk_dac_isr af')
         in tone_bits (length bits) af = bits \<and> tx_done af' = tx_done af @ es \<and>
            fifo_list (tx_fifo af') = [] \<and> \<not> sending af'' \<and> \<not> ptt af'' \<and> \<not> hw_dac_isr af''"
proof -
  from transmits_plan [OF assms] obtain af' n' where
    *: "emits af (line_bits n (tx_plan p es t)) af'" "queued af' 0 [] 0" "at_boundary n' af'"
    "tx_done af' = tx_done af @ es" by (auto simp: transmits_def)
  have "snd (afsk_dac_isr af') = (AFSK_DAC_IRQ_STOP af')\<lparr>sending := False\<rparr>"
    using *(3) by (simp add: afsk_dac_isr_def afsk_bit_start_def next_char_stop [OF *(2)] at_boundary_def)
  then show ?thesis
    using emits_tone_bits [OF *(1)] assms(1) *(2,4)
    by (simp add: at_boundary_def queued_def Let_def AFSK_DAC_IRQ_STOP_def)
qed

lemma init_boundary: "at_boundary 0 (afsk_txStart (afsk_init 0 0))"
  by (simp add: at_boundary_def afsk_txStart_def afsk_init_def AFSK_DAC_IRQ_START_def Let_def fifo_valid_init)

lemma init_queued: "queued (afsk_txStart (afsk_init 0 0)) 53 [] 11"
  by (simp add: queued_def afsk_txStart_def afsk_init_def AFSK_DAC_IRQ_START_def Let_def fifo_valid_init)

theorem dac_isr_line_code_witness:
  "let af = afsk_txStart (afsk_init 0 0); bits = line_bits 0 (tx_plan 53 [] 11)
   in tone_bits (length bits) af = bits"
proof -
  have "escapes_complete []" "0 < (11 :: nat)" by simp_all
  from dac_isr_line_code [OF init_boundary init_queued this] show ?thesis by (simp add: Let_def)
qed

end
