(* ===== verification/Afsk_Channel.thy ===== *)
theory Afsk_Channel
  imports Afsk_Line
begin

text \<open>
  The modem as a channel: the invariants of its two halves under the sample interrupt, the amount
  of work left that bounds the waiting loops of \<^verbatim>\<open>afsk_write\<close> and \<^verbatim>\<open>afsk_flush\<close>, and the modem as an
  instance of the channel interface of \<open>Kfile\<close>.
\<close>

section \<open>The transmitter invariant\<close>

text \<open>
  The state of the transmit half between two interrupts: the bit mask has one bit or none, the
  counters are in range, the three flags that say ``transmitting'' agree, and bytes are only
  waiting while the transmitter runs.
\<close>

definition one_hot :: "u8 \<Rightarrow> bool" where
  "one_hot m \<longleftrightarrow> (\<exists>i\<le>8. m = 2 ^ i)"

definition afsk_tx_ok :: "Afsk \<Rightarrow> bool" where
  "afsk_tx_ok af \<longleftrightarrow>
     fifo_valid (tx_fifo af) \<and> fifo_len (tx_fifo af) = 63 \<and> one_hot (tx_bit af) \<and>
     sample_count af \<le> 8 \<and> (hw_dac_isr af \<longleftrightarrow> sending af) \<and> (ptt af \<longleftrightarrow> sending af) \<and>
     (fifo_list (tx_fifo af) \<noteq> [] \<longrightarrow> sending af) \<and> phase_acc af < 512 \<and>
     (phase_inc af = MARK_INC \<or> phase_inc af = SPACE_INC)"

definition sent :: "Afsk \<Rightarrow> bytes" where
  "sent af = tx_done af @ fifo_list (tx_fifo af)"

lemma one_hot_push: "one_hot m \<Longrightarrow> one_hot (push_bit 1 m)"
proof -
  assume "one_hot m"
  then obtain i where "i \<le> 8" "m = 2 ^ i" by (auto simp: one_hot_def)
  then show ?thesis
    unfolding one_hot_def by (intro exI [of _ "min 8 (Suc i)"]) (auto simp: min_def le_Suc_eq)
qed

lemma one_hot_1: "one_hot 1"
  unfolding one_hot_def by (intro exI [of _ 0]) simp

text \<open>The work left: characters, bits of the current one, samples of the current bit.\<close>

definition chars_left :: "Afsk \<Rightarrow> nat" where
  "chars_left af =
     length (fifo_list (tx_fifo af)) + unat (preamble_len af) + unat (trailer_len af)"

definition bits_left :: "Afsk \<Rightarrow> nat" where
  "bits_left af = 2 * (256 div unat (tx_bit af)) + (if 5 \<le> stuff_cnt af then 1 else 0)"

definition tx_work :: "Afsk \<Rightarrow> nat" where
  "tx_work af = chars_left af * 5000 + bits_left af * 9 + unat (sample_count af)"

text \<open>One interrupt, by cases.\<close>

lemma dac_isr_cases:
  obtains (sample) "sample_count af \<noteq> 0" "snd (afsk_dac_isr af) = snd (afsk_sample af)"
  | (bit) "sample_count af = 0" "tx_bit af \<noteq> 0"
      "snd (afsk_dac_isr af) = snd (afsk_sample (afsk_next_bit af))"
  | (char) af1 where "sample_count af = 0" "tx_bit af = 0" "afsk_next_char af = (True, af1)"
      "snd (afsk_dac_isr af) = snd (afsk_sample (afsk_next_bit af1))"
  | (stop) af1 where "sample_count af = 0" "tx_bit af = 0" "afsk_next_char af = (False, af1)"
      "snd (afsk_dac_isr af) = af1"
  unfolding afsk_dac_isr_def afsk_bit_start_def
  by (cases "afsk_next_char af") (auto split: if_splits)

lemma sample_ok:
  assumes "afsk_tx_ok af" and "sample_count af \<noteq> 0"
  shows "afsk_tx_ok (snd (afsk_sample af)) \<and> tx_work (snd (afsk_sample af)) < tx_work af \<and>
    sent (snd (afsk_sample af)) = sent af"
proof -
  have "sample_count af - 1 \<le> sample_count af" "unat (sample_count af - 1) < unat (sample_count af)"
    using assms(2) unat_minus_one [of "sample_count af"] unat_gt_0 [of "sample_count af"]
    by (auto simp: word_le_nat_alt)
  moreover have "(phase_acc af + phase_inc af) mod 512 < (512 :: u16)"
    by (simp add: word_mod_less_divisor)
  ultimately show ?thesis
    using assms(1) by (auto simp: afsk_tx_ok_def afsk_sample_def tx_work_def chars_left_def
      bits_left_def sent_def Let_def SIN_LEN_def)
qed

lemma one_hot_cases: "one_hot m \<longleftrightarrow> m \<in> {1, 2, 4, 8, 16, 32, 64, 128, 0}"
proof -
  have "{i. i \<le> (8 :: nat)} = {0, 1, 2, 3, 4, 5, 6, 7, 8}" by auto
  moreover have "one_hot m \<longleftrightarrow> m \<in> (\<lambda>i. 2 ^ i) ` {i. i \<le> 8}" by (auto simp: one_hot_def)
  ultimately show ?thesis by auto
qed

lemma one_hot_halves:
  assumes "one_hot m" and "m \<noteq> 0"
  shows "256 div unat (push_bit 1 m) < 256 div unat m" "256 div unat m \<le> 256"
  using assms unfolding one_hot_cases by auto

lemma next_bit_ok:
  assumes "afsk_tx_ok af" and "tx_bit af \<noteq> 0"
  shows "afsk_tx_ok (afsk_next_bit af)" "bits_left (afsk_next_bit af) < bits_left af"
    "chars_left (afsk_next_bit af) = chars_left af" "sent (afsk_next_bit af) = sent af"
    "sending (afsk_next_bit af) = sending af"
  using assms one_hot_halves [of "tx_bit af"] one_hot_push [of "tx_bit af"]
  by (auto simp: afsk_tx_ok_def afsk_next_bit_def Let_def bits_left_def chars_left_def sent_def
      SWITCH_TONE_def BIT_STUFF_LEN_def)

lemma bits_left_bound: "bits_left af \<le> 513"
proof -
  have "256 div k \<le> 256" for k :: nat by simp
  from this [of "unat (tx_bit af)"] show ?thesis by (auto simp: bits_left_def simp del: div_le_dividend)
qed

text \<open>Fetching a character: either the line is over, or there is one character less to send.\<close>

lemma sent_pop: "fifo_valid (tx_fifo af) \<Longrightarrow> \<not> fifo_isempty (tx_fifo af) \<Longrightarrow> sent (afsk_tx_pop af) = sent af"
  using fifo.pop_nonempty [of "tx_fifo af"] by (simp add: sent_def)

lemma pop_ok:
  assumes "fifo_valid (tx_fifo af)" and "\<not> fifo_isempty (tx_fifo af)"
  shows "fifo_list (tx_fifo af) = fst (fifo_pop (tx_fifo af)) # fifo_list (snd (fifo_pop (tx_fifo af)))"
    "fifo_valid (snd (fifo_pop (tx_fifo af)))"
  using assms by (simp_all add: fifo.pop_nonempty fifo.valid_pop)

lemma next_char_ok:
  assumes "afsk_tx_ok af" and "sending af" and "afsk_next_char af = (True, af1)"
  shows "afsk_tx_ok af1" "chars_left af1 < chars_left af" "sent af1 = sent af" "sending af1"
proof -
  have u: "w \<noteq> 0 \<Longrightarrow> unat (w - 1) < unat w" for w :: u16
    using unat_minus_one [of w] unat_gt_0 [of w] by simp
  let ?f1 = "snd (fifo_pop (tx_fifo af))"
  have v: "fifo_valid (tx_fifo af)" using assms(1) by (simp add: afsk_tx_ok_def)
  note p1 = pop_ok [OF v]
  have p2: "\<not> fifo_isempty (tx_fifo af) \<Longrightarrow> \<not> fifo_isempty ?f1 \<Longrightarrow>
      fifo_list ?f1 = fst (fifo_pop ?f1) # fifo_list (snd (fifo_pop ?f1)) \<and> fifo_valid (snd (fifo_pop ?f1))"
    using fifo.pop_nonempty p1(2) by (simp add: fifo.valid_pop)
  show "sending af1" using assms(2,3)
    by (auto simp: afsk_next_char_def Let_def split: if_splits)
  show "afsk_tx_ok af1" using assms v p1 p2
    by (auto simp: afsk_next_char_def afsk_tx_ok_def Let_def one_hot_1 fifo.isempty_contents
        split: if_splits)
  show "chars_left af1 < chars_left af" using assms(3) v p1 p2 u
    by (auto simp: afsk_next_char_def chars_left_def Let_def hdlc_consts split: if_splits)
  show "sent af1 = sent af" using assms(3) v p1 p2
    by (auto simp: afsk_next_char_def sent_def Let_def split: if_splits)
qed

lemma next_char_stop_ok:
  assumes "afsk_tx_ok af" and "afsk_next_char af = (False, af1)"
  shows "afsk_tx_ok af1" "sent af1 = sent af" "\<not> sending af1"
proof -
  have v: "fifo_valid (tx_fifo af)" using assms(1) by (simp add: afsk_tx_ok_def)
  note p1 = pop_ok [OF v]
  show "\<not> sending af1" using assms(2)
    by (auto simp: afsk_next_char_def Let_def split: if_splits)
  show "afsk_tx_ok af1" using assms p1
    by (auto simp: afsk_next_char_def afsk_tx_ok_def Let_def AFSK_DAC_IRQ_STOP_def
        fifo.isempty_contents hdlc_consts split: if_splits)
  show "sent af1 = sent af" using assms(2) p1
    by (auto simp: afsk_next_char_def sent_def Let_def AFSK_DAC_IRQ_STOP_def hdlc_consts split: if_splits)
qed

lemma dac_isr_ok:
  assumes "afsk_tx_ok af" and "sending af"
  shows "afsk_tx_ok (snd (afsk_dac_isr af)) \<and> sent (snd (afsk_dac_isr af)) = sent af \<and>
    (sending (snd (afsk_dac_isr af)) \<longrightarrow> tx_work (snd (afsk_dac_isr af)) < tx_work af)"
proof (cases rule: dac_isr_cases [of af])
  case sample
  then show ?thesis using sample_ok [OF assms(1)] by simp
next
  case bit
  note n = next_bit_ok [OF assms(1) bit(2)]
  have "tx_work (afsk_next_bit af) \<le> tx_work af" using n(2,3) bit(1) by (simp add: tx_work_def)
  with sample_ok [OF n(1)] n(4) bit(3) show ?thesis by simp
next
  case (char af1)
  note c = next_char_ok [OF assms char(3)]
  have "tx_bit af1 \<noteq> 0" using next_char_tx_bit [OF char(3)] by simp
  note n = next_bit_ok [OF c(1) this]
  have "tx_work (afsk_next_bit af1) \<le> tx_work af"
    using n(3) c(2) bits_left_bound [of "afsk_next_bit af1"] by (simp add: tx_work_def)
  with sample_ok [OF n(1)] n(4) c(3) char(4) show ?thesis by simp
next
  case (stop af1)
  then show ?thesis using next_char_stop_ok [OF assms(1) stop(3)] by simp
qed

section \<open>The channel the modem provides\<close>

text \<open>The table \<^verbatim>\<open>afsk_init\<close> fills in; a write returns the number of bytes it took.\<close>

definition afsk_fd :: "Afsk KFile" where
  "afsk_fd = \<lparr>k_read = afsk_read,
     k_write = \<lambda>buf af. do { af \<leftarrow> afsk_write buf af; Some (length buf, af) },
     k_flush = afsk_flush, k_error = afsk_error, k_clearerr = afsk_clearerr\<rparr>"

lemma tick_ok:
  assumes "afsk_tx_ok af" and "sending af"
  shows "afsk_tx_ok (afsk_tx_tick af)" "sent (afsk_tx_tick af) = sent af"
    "sending (afsk_tx_tick af) \<Longrightarrow> tx_work (afsk_tx_tick af) < tx_work af"
  using dac_isr_ok [OF assms] assms by (auto simp: afsk_tx_tick_def afsk_tx_ok_def)

lemma flush_returns:
  "afsk_tx_ok af \<Longrightarrow> \<exists>af'. afsk_flush af = Some af' \<and> afsk_tx_ok af' \<and> sent af' = sent af \<and> \<not> sending af'"
proof (induction "tx_work af" arbitrary: af rule: less_induct)
  case less
  show ?case
  proof (cases "sending af")
    case False
    with less.prems show ?thesis by (subst afsk_flush.simps) simp
  next
    case True
    note t = tick_ok [OF less.prems True]
    have "\<exists>af'. afsk_flush (afsk_tx_tick af) = Some af' \<and> afsk_tx_ok af' \<and>
        sent af' = sent (afsk_tx_tick af) \<and> \<not> sending af'"
    proof (cases "sending (afsk_tx_tick af)")
      case False
      with t(1) show ?thesis by (subst afsk_flush.simps) simp
    qed (use less.hyps t in blast)
    with True t(2) show ?thesis by (subst afsk_flush.simps) simp
  qed
qed

lemma full_sending: "afsk_tx_ok af \<Longrightarrow> fifo_isfull (tx_fifo af) \<Longrightarrow> sending af"
  using fifo.isfull_contents [of "tx_fifo af"] by (auto simp: afsk_tx_ok_def)

lemma wait_room_returns:
  "afsk_tx_ok af \<Longrightarrow> \<exists>af'. afsk_wait_room af = Some af' \<and> afsk_tx_ok af' \<and> sent af' = sent af \<and>
     \<not> fifo_isfull (tx_fifo af')"
proof (induction "tx_work af" arbitrary: af rule: less_induct)
  case less
  show ?case
  proof (cases "fifo_isfull (tx_fifo af)")
    case False
    with less.prems show ?thesis by (subst afsk_wait_room.simps) simp
  next
    case True
    note t = tick_ok [OF less.prems full_sending [OF less.prems True]]
    have "\<exists>af'. afsk_wait_room (afsk_tx_tick af) = Some af' \<and> afsk_tx_ok af' \<and>
        sent af' = sent (afsk_tx_tick af) \<and> \<not> fifo_isfull (tx_fifo af')"
    proof (cases "fifo_isfull (tx_fifo (afsk_tx_tick af))")
      case False
      with t(1) show ?thesis by (subst afsk_wait_room.simps) simp
    qed (use less.hyps t full_sending in blast)
    with True t(2) show ?thesis by (subst afsk_wait_room.simps) simp
  qed
qed

lemma txStart_ok:
  assumes "afsk_tx_ok af" and "\<not> fifo_isfull (tx_fifo af)"
  shows "afsk_tx_ok (afsk_txStart (af\<lparr>tx_fifo := fifo_push (tx_fifo af) c\<rparr>)) \<and>
    sent (afsk_txStart (af\<lparr>tx_fifo := fifo_push (tx_fifo af) c\<rparr>)) = sent af @ [c]"
  using assms
  by (auto simp: afsk_tx_ok_def afsk_txStart_def AFSK_DAC_IRQ_START_def sent_def Let_def
      fifo.valid_push fifo.contents_push)

lemma write_returns:
  "afsk_tx_ok af \<Longrightarrow> \<exists>af'. afsk_write buf af = Some af' \<and> afsk_tx_ok af' \<and> sent af' = sent af @ buf"
proof (induction buf arbitrary: af)
  case (Cons c buf)
  obtain af1 where 1: "afsk_wait_room af = Some af1" "afsk_tx_ok af1" "sent af1 = sent af"
    "\<not> fifo_isfull (tx_fifo af1)" using wait_room_returns [OF Cons.prems] by blast
  from txStart_ok [OF 1(2,4), of c] 1(1,3) Cons.IH show ?case by force
qed simp

interpretation modem_out: kfile_out afsk_fd afsk_tx_ok sent
proof unfold_locales
  show "afsk_tx_ok af \<Longrightarrow> \<exists>af'. k_write afsk_fd bs af = Some (length bs, af') \<and> afsk_tx_ok af' \<and>
      sent af' = sent af @ bs" for af bs
    using write_returns [of af bs] by (auto simp: afsk_fd_def)
  show "afsk_tx_ok af \<Longrightarrow> \<exists>af'. k_flush afsk_fd af = Some af' \<and> afsk_tx_ok af' \<and> sent af' = sent af"
    for af using flush_returns [of af] by (auto simp: afsk_fd_def)
qed

definition afsk_rx_ok :: "Afsk \<Rightarrow> bool" where
  "afsk_rx_ok af \<longleftrightarrow> fifo_valid (rx_fifo af) \<and> fifo_len (rx_fifo af) = 63"

lemma read_takes:
  "afsk_rx_ok af \<Longrightarrow> afsk_read n af = (bs, af') \<Longrightarrow>
   bs = take n (fifo_list (rx_fifo af)) \<and> fifo_list (rx_fifo af') = drop n (fifo_list (rx_fifo af)) \<and>
   afsk_rx_ok af' \<and> af' = af\<lparr>rx_fifo := rx_fifo af'\<rparr>"
proof (induction n arbitrary: af bs)
  case (Suc n)
  show ?case
  proof (cases "fifo_list (rx_fifo af)")
    case Nil
    with Suc.prems show ?thesis by (simp add: afsk_rx_ok_def fifo.isempty_contents)
  next
    case (Cons c cs)
    let ?af1 = "af\<lparr>rx_fifo := snd (fifo_pop (rx_fifo af))\<rparr>"
    from Cons Suc.prems(1) have p: "\<not> fifo_isempty (rx_fifo af)" "fst (fifo_pop (rx_fifo af)) = c"
      "fifo_list (rx_fifo ?af1) = cs" "afsk_rx_ok ?af1"
      using pop_cons [of "rx_fifo af" c cs] by (auto simp: afsk_rx_ok_def)
    obtain bs1 where r: "afsk_read n ?af1 = (bs1, af')" "bs = c # bs1"
      using Suc.prems(2) p(1,2) by (cases "afsk_read n ?af1") (auto simp: split_beta Let_def)
    from Suc.IH [OF p(4) r(1)] r(2) p(3) Cons show ?thesis by simp
  qed
qed simp

interpretation modem_in: kfile_in afsk_fd afsk_rx_ok "\<lambda>af. fifo_list (rx_fifo af)"
  by unfold_locales (auto simp: afsk_fd_def dest: read_takes)

section \<open>The demodulator invariant\<close>

text \<open>
  The receive half between two samples: a full delay line of half a bit, the phase of the bit clock
  within a bit, and filter values in a range in which the 16-bit arithmetic of the filter is exact.
\<close>

definition afsk_demod_ok :: "Afsk \<Rightarrow> bool" where
  "afsk_demod_ok af \<longleftrightarrow>
     fifo_valid (delay_fifo af) \<and> fifo_len (delay_fifo af) = 4 \<and> length (fifo_list (delay_fifo af)) = 4 \<and>
     bit_idx (hdlc af) < 8 \<and> afsk_rx_ok af \<and> 0 \<le> sint (curr_phase af) \<and> sint (curr_phase af) < 64 \<and>
     \<bar>sint (iir_x1 af)\<bar> \<le> 4096 \<and> \<bar>sint (iir_y1 af)\<bar> \<le> 10923"

lemma sint_add_i16:
  "- 32768 \<le> sint (a :: i16) + sint b \<Longrightarrow> sint a + sint b < 32768 \<Longrightarrow> sint (a + b) = sint a + sint b"
  by (simp add: sint_word_ariths signed_take_bit_int_eq_self)

lemma sint_add_i8:
  "- 128 \<le> sint (a :: i8) + sint b \<Longrightarrow> sint a + sint b < 128 \<Longrightarrow> sint (a + b) = sint a + sint b"
  by (simp add: sint_word_ariths signed_take_bit_int_eq_self)

lemma sint_sub_i8:
  "- 128 \<le> sint (a :: i8) - sint b \<Longrightarrow> sint a - sint b < 128 \<Longrightarrow> sint (a - b) = sint a - sint b"
  by (simp add: sint_word_ariths signed_take_bit_int_eq_self)

lemma sint_i8_range: "- 128 \<le> sint (a :: i8) \<and> sint a < 128"
  using sint_range_size [of a] by (simp add: word_size)

lemma discriminator_exact:
  fixes a b :: i8
  shows "sint (signed_drop_bit 2 (scast a * scast b :: i16)) = (sint a * sint b) div 4"
    "\<bar>(sint a * sint b) div 4\<bar> \<le> 4096"
proof -
  have "\<bar>sint a\<bar> \<le> 128" "\<bar>sint b\<bar> \<le> 128" using sint_i8_range [of a] sint_i8_range [of b] by auto
  then have "\<bar>sint a\<bar> * \<bar>sint b\<bar> \<le> 128 * 128" by (intro mult_mono) auto
  then have p: "\<bar>sint a * sint b\<bar> \<le> 16384" by (simp add: abs_mult)
  have "sint (scast a * scast b :: i16) = signed_take_bit 15 (sint a * sint b)"
    by (simp add: sint_word_ariths sint_up_scast is_up)
  also have "\<dots> = sint a * sint b" using p by (intro signed_take_bit_int_eq_self) auto
  finally show "sint (signed_drop_bit 2 (scast a * scast b :: i16)) = (sint a * sint b) div 4"
    by (simp add: sint_signed_drop_bit_eq drop_bit_eq_div)
  show "\<bar>(sint a * sint b) div 4\<bar> \<le> 4096" using p by linarith
qed

lemma delay_step:
  assumes "fifo_valid f" and "fifo_len f = 4" and "length (fifo_list f) = 4"
  shows "fifo_valid (fifo_push (snd (fifo_pop f)) c)" "fifo_len (fifo_push (snd (fifo_pop f)) c) = 4"
    "fifo_list (fifo_push (snd (fifo_pop f)) c) = tl (fifo_list f) @ [c]"
    "fst (fifo_pop f) = hd (fifo_list f)"
proof -
  obtain x xs where l: "fifo_list f = x # xs" "length xs = 3"
    using assms(3) by (cases "fifo_list f") auto
  note p = pop_cons [OF assms(1) l(1)]
  then have "\<not> fifo_isfull (snd (fifo_pop f))" using assms(2) l by (simp add: fifo.room_iff)
  with p l assms show "fifo_valid (fifo_push (snd (fifo_pop f)) c)"
    "fifo_len (fifo_push (snd (fifo_pop f)) c) = 4"
    "fifo_list (fifo_push (snd (fifo_pop f)) c) = tl (fifo_list f) @ [c]"
    "fst (fifo_pop f) = hd (fifo_list f)"
    by (simp_all add: fifo.valid_push fifo.contents_push)
qed

lemma filter_step:
  assumes "afsk_demod_ok af" and "af' = afsk_filter af s"
  shows "sint (iir_x1 af') = (sint (hd (fifo_list (delay_fifo af))) * sint s) div 4"
    "sint (iir_y1 af') = sint (iir_x1 af) + sint (iir_x1 af') + sint (iir_y1 af) div 4"
    "\<bar>sint (iir_x1 af')\<bar> \<le> 4096" "\<bar>sint (iir_y1 af')\<bar> \<le> 10923"
    "fifo_list (delay_fifo af') = tl (fifo_list (delay_fifo af)) @ [s]"
    "fifo_valid (delay_fifo af')" "fifo_len (delay_fifo af') = 4"
proof -
  have d: "fifo_valid (delay_fifo af)" "fifo_len (delay_fifo af) = 4"
    "length (fifo_list (delay_fifo af)) = 4" and x: "\<bar>sint (iir_x1 af)\<bar> \<le> 4096"
    and y: "\<bar>sint (iir_y1 af)\<bar> \<le> 10923"
    using assms(1) by (auto simp: afsk_demod_ok_def)
  note ds = delay_step [OF d]
  show "fifo_list (delay_fifo af') = tl (fifo_list (delay_fifo af)) @ [s]"
    "fifo_valid (delay_fifo af')" "fifo_len (delay_fifo af') = 4"
    using ds by (simp_all add: assms(2) afsk_filter_def Let_def split_beta)
  have x1: "iir_x1 af' = signed_drop_bit 2 (scast (hd (fifo_list (delay_fifo af))) * scast s)"
    using ds(4) by (simp add: assms(2) afsk_filter_def Let_def split_beta)
  then show sx: "sint (iir_x1 af') = (sint (hd (fifo_list (delay_fifo af))) * sint s) div 4"
    by (simp only: discriminator_exact(1))
  then show xb: "\<bar>sint (iir_x1 af')\<bar> \<le> 4096" by (simp only: discriminator_exact(2))
  have q: "sint (signed_drop_bit 2 (iir_y1 af)) = sint (iir_y1 af) div 4"
    by (simp add: sint_signed_drop_bit_eq drop_bit_eq_div)
  have "iir_y1 af' = iir_x1 af + iir_x1 af' + signed_drop_bit 2 (iir_y1 af)"
    by (simp add: assms(2) afsk_filter_def Let_def split_beta)
  moreover have s1: "sint (iir_x1 af + iir_x1 af') = sint (iir_x1 af) + sint (iir_x1 af')"
    using x xb by (intro sint_add_i16) auto
  moreover have "sint (iir_x1 af + iir_x1 af' + signed_drop_bit 2 (iir_y1 af)) =
      sint (iir_x1 af + iir_x1 af') + sint (signed_drop_bit 2 (iir_y1 af))"
    using x xb y s1 q by (intro sint_add_i16) linarith+
  ultimately show sy: "sint (iir_y1 af') = sint (iir_x1 af) + sint (iir_x1 af') + sint (iir_y1 af) div 4"
    using q by simp
  show "\<bar>sint (iir_y1 af')\<bar> \<le> 10923" using x xb y unfolding sy by linarith
qed

text \<open>The rest of the sample interrupt leaves the filter alone, and both halves work on
  disjoint fields.\<close>

lemma filter_frame:
  "curr_phase (afsk_filter af s) = curr_phase af" "hdlc (afsk_filter af s) = hdlc af"
  "rx_fifo (afsk_filter af s) = rx_fifo af"
  by (simp_all add: afsk_filter_def Let_def split_beta)

definition same_tx :: "Afsk \<Rightarrow> Afsk \<Rightarrow> bool" where
  "same_tx af af' \<longleftrightarrow> tx_fifo af' = tx_fifo af \<and> tx_bit af' = tx_bit af \<and>
     sample_count af' = sample_count af \<and> hw_dac_isr af' = hw_dac_isr af \<and> sending af' = sending af \<and>
     ptt af' = ptt af \<and> phase_acc af' = phase_acc af \<and> phase_inc af' = phase_inc af \<and>
     tx_done af' = tx_done af"

lemma adc_isr_same_tx: "same_tx af (afsk_adc_isr af s)"
proof -
  have "same_tx af (afsk_filter af s)" by (simp add: afsk_filter_def same_tx_def Let_def split_beta)
  moreover have "same_tx af1 (afsk_clock af1)" for af1
    by (simp add: afsk_clock_def same_tx_def Let_def)
  moreover have "same_tx af1 (afsk_take_bit af1)" for af1
    by (simp add: afsk_take_bit_def same_tx_def Let_def split_beta)
  ultimately show ?thesis unfolding afsk_adc_isr_def Let_def same_tx_def by simp
qed

text \<open>The receive state without the clock phase, which the clock and the bit sampling move.\<close>

definition demod_base :: "Afsk \<Rightarrow> bool" where
  "demod_base af \<longleftrightarrow>
     fifo_valid (delay_fifo af) \<and> fifo_len (delay_fifo af) = 4 \<and> length (fifo_list (delay_fifo af)) = 4 \<and>
     bit_idx (hdlc af) < 8 \<and> afsk_rx_ok af \<and> \<bar>sint (iir_x1 af)\<bar> \<le> 4096 \<and> \<bar>sint (iir_y1 af)\<bar> \<le> 10923"

lemma demod_ok_split:
  "afsk_demod_ok af \<longleftrightarrow> demod_base af \<and> 0 \<le> sint (curr_phase af) \<and> sint (curr_phase af) < 64"
  by (auto simp: afsk_demod_ok_def demod_base_def)

lemma clock_base: "demod_base af \<Longrightarrow> demod_base (afsk_clock af)"
  by (simp add: demod_base_def afsk_clock_def afsk_rx_ok_def Let_def)

lemma clock_phase:
  assumes "0 \<le> sint (curr_phase af)" and "sint (curr_phase af) < 64"
  shows "8 \<le> sint (curr_phase (afsk_clock af))" "sint (curr_phase (afsk_clock af)) < 72"
proof -
  let ?p = "curr_phase af"
  have one: "sint (1 :: i8) = 1" "sint (8 :: i8) = 8" by simp_all
  have s: "sint (p + 8) = sint p + 8" if "0 \<le> sint p" "sint p < 64" for p :: i8
    using sint_add_i8 [of p 8] one that by auto
  have "sint (?p + 1) = sint ?p + 1" "sint (?p - 1) = sint ?p - 1"
    using assms sint_add_i8 [of ?p 1] sint_sub_i8 [of ?p 1] one by auto
  with assms s [of ?p] s [of "?p + 1"] s [of "?p - 1"]
  show "8 \<le> sint (curr_phase (afsk_clock af))" "sint (curr_phase (afsk_clock af)) < 72"
    by (auto simp: afsk_clock_def Let_def PHASE_THRES_def PHASE_MAX_def PHASE_BIT_def PHASE_INC_def)
qed

lemma phase_wrap: "sint (word_of_int (k mod PHASE_MAX) :: i8) = k mod 64"
proof -
  have "signed_take_bit 7 (k mod 64) = k mod 64"
  proof (rule signed_take_bit_int_eq_self)
    have "0 \<le> k mod 64" "k mod 64 < 64" by simp_all
    then show "- (2 ^ 7) \<le> k mod 64" "k mod 64 < 2 ^ 7" by auto
  qed
  moreover have "PHASE_MAX = 64" by (simp add: PHASE_MAX_def PHASE_BIT_def)
  ultimately show ?thesis by (simp only: sint_sbintrunc') simp
qed

lemma take_bit_ok:
  assumes "demod_base af"
  shows "afsk_demod_ok (afsk_take_bit af)"
proof -
  obtain r h f where p: "hdlc_parse (hdlc af) (\<not> EDGE_FOUND (afsk_found_bits af)) (rx_fifo af) = (r, h, f)"
    by (metis prod_cases3)
  have "bit_idx h < 8" "fifo_valid f" "fifo_len f = 63"
    using hdlc_parse_cases [OF p] assms by (auto simp: fifo_gains_def demod_base_def afsk_rx_ok_def)
  with assms p show ?thesis
    by (simp add: afsk_take_bit_def afsk_demod_ok_def demod_base_def afsk_rx_ok_def phase_wrap Let_def)
qed

lemma adc_isr_ok:
  assumes "afsk_demod_ok af"
  shows "afsk_demod_ok (afsk_adc_isr af s)"
proof -
  define af1 where "af1 = afsk_filter af s"
  note f = filter_step [OF assms af1_def]
  have fr: "curr_phase af1 = curr_phase af" "hdlc af1 = hdlc af" "rx_fifo af1 = rx_fifo af"
    by (simp_all add: af1_def filter_frame)
  have "demod_base af1"
    using f assms by (simp add: demod_base_def fr afsk_demod_ok_def afsk_rx_ok_def)
  with clock_phase [of af1] clock_base take_bit_ok assms show ?thesis
    by (auto simp: afsk_adc_isr_def Let_def af1_def [symmetric] fr demod_ok_split PHASE_MAX_def
        PHASE_BIT_def)
qed

section \<open>The modem and its clients, interleaved\<close>

text \<open>
  The modem runs in interrupts while the main loop writes and reads it. A write is two steps, the
  push and \<^verbatim>\<open>afsk_txStart\<close>; the flag says that the second is still to come, and the sample interrupt
  may fall between any two steps.
\<close>

inductive modem_step :: "Afsk \<times> bool \<Rightarrow> Afsk \<times> bool \<Rightarrow> bool" where
  sample: "modem_step (af, w) (snd (ADC_vect af adc), w)"
| push: "\<not> fifo_isfull (tx_fifo af) \<Longrightarrow>
    modem_step (af, False) (af\<lparr>tx_fifo := fifo_push (tx_fifo af) c\<rparr>, True)"
| start: "modem_step (af, True) (afsk_txStart af, False)"
| read: "modem_step (af, w) (snd (afsk_read n af), w)"
| clearerr: "modem_step (af, w) (afsk_clearerr af, w)"

definition modem_inv :: "Afsk \<times> bool \<Rightarrow> bool" where
  "modem_inv m \<longleftrightarrow> (let (af, w) = m in
     afsk_demod_ok af \<and> (if w then afsk_tx_ok (af\<lparr>tx_fifo := fifo_flush (tx_fifo af)\<rparr>) \<and>
       fifo_valid (tx_fifo af) else afsk_tx_ok af))"

lemma tx_ok_same: "same_tx af af' \<Longrightarrow> afsk_tx_ok af' = afsk_tx_ok af"
  by (simp add: same_tx_def afsk_tx_ok_def)

definition same_rx :: "Afsk \<Rightarrow> Afsk \<Rightarrow> bool" where
  "same_rx af af' \<longleftrightarrow> delay_fifo af' = delay_fifo af \<and> hdlc af' = hdlc af \<and> rx_fifo af' = rx_fifo af \<and>
     curr_phase af' = curr_phase af \<and> iir_x1 af' = iir_x1 af \<and> iir_y1 af' = iir_y1 af"

lemma demod_ok_same: "same_rx af af' \<Longrightarrow> afsk_demod_ok af' = afsk_demod_ok af"
  by (simp add: same_rx_def afsk_demod_ok_def afsk_rx_ok_def)

lemma same_rx_pop: "same_rx af (afsk_tx_pop af)"
  by (simp add: same_rx_def afsk_tx_pop_def split_beta Let_def)

lemma next_char_same_rx: "same_rx af (snd (afsk_next_char af))"
  using same_rx_pop
  by (auto simp: afsk_next_char_def same_rx_def AFSK_DAC_IRQ_STOP_def Let_def)

lemma dac_isr_same_rx: "same_rx af (snd (afsk_dac_isr af))"
proof -
  have sample: "same_rx af1 (snd (afsk_sample af1))" for af1
    by (simp add: same_rx_def afsk_sample_def Let_def)
  have bit: "same_rx af1 (afsk_next_bit af1)" for af1
    by (simp add: same_rx_def afsk_next_bit_def Let_def)
  show ?thesis
  proof (cases rule: dac_isr_cases [of af])
    case (char af1)
    with next_char_same_rx [of af] show ?thesis
      using sample [of "afsk_next_bit af1"] bit [of af1] by (simp add: same_rx_def)
  next
    case (stop af1)
    with next_char_same_rx [of af] show ?thesis by simp
  qed (use sample [of af] sample [of "afsk_next_bit af"] bit [of af] in \<open>simp_all add: same_rx_def\<close>)
qed

lemma ADC_vect_state: "snd (ADC_vect af adc) =
    afsk_tx_tick (afsk_adc_isr af (ucast (drop_bit 2 adc - 128)))"
  by (simp add: ADC_vect_def afsk_tx_tick_def Let_def split_beta)

lemma tx_tick_demod: "afsk_demod_ok af \<Longrightarrow> afsk_demod_ok (afsk_tx_tick af)"
  using demod_ok_same [OF dac_isr_same_rx] by (simp add: afsk_tx_tick_def)

lemma tx_tick_ok: "afsk_tx_ok af \<Longrightarrow> afsk_tx_ok (afsk_tx_tick af) \<and> sent (afsk_tx_tick af) = sent af"
  using tick_ok [of af] by (cases "sending af") (auto simp: afsk_tx_tick_def afsk_tx_ok_def)

text \<open>Between the push and the start the queue may be ahead of the flags; unless the transmitter
  is off, nothing is different.\<close>

lemma pending_sending:
  "sending af \<Longrightarrow> fifo_valid (tx_fifo af) \<Longrightarrow>
   afsk_tx_ok (af\<lparr>tx_fifo := fifo_flush (tx_fifo af)\<rparr>) \<longleftrightarrow> afsk_tx_ok af"
  by (auto simp: afsk_tx_ok_def fifo_flush_valid)

lemma pending_weaker: "afsk_tx_ok af \<Longrightarrow>
    afsk_tx_ok (af\<lparr>tx_fifo := fifo_flush (tx_fifo af)\<rparr>) \<and> fifo_valid (tx_fifo af)"
  by (auto simp: afsk_tx_ok_def fifo_flush_valid)

lemma pending_sample:
  assumes "afsk_tx_ok (af\<lparr>tx_fifo := fifo_flush (tx_fifo af)\<rparr>)" and "fifo_valid (tx_fifo af)"
  shows "afsk_tx_ok ((afsk_tx_tick af)\<lparr>tx_fifo := fifo_flush (tx_fifo (afsk_tx_tick af))\<rparr>) \<and>
    fifo_valid (tx_fifo (afsk_tx_tick af)) \<and> sent (afsk_tx_tick af) = sent af"
proof (cases "sending af")
  case True
  with assms have "afsk_tx_ok af" by (simp add: pending_sending)
  from tx_tick_ok [OF this] pending_weaker show ?thesis by blast
next
  case False
  with assms have "afsk_tx_tick af = af" by (auto simp: afsk_tx_ok_def afsk_tx_tick_def)
  with assms show ?thesis by simp
qed

lemma modem_inv_step:
  assumes "modem_step m m'" and "modem_inv m"
  shows "modem_inv m'"
  using assms
proof cases
  case (sample af w adc)
  let ?af1 = "afsk_adc_isr af (ucast (drop_bit 2 adc - 128))"
  have same: "same_tx af ?af1" by (rule adc_isr_same_tx)
  then have tx: "afsk_tx_ok ?af1 = afsk_tx_ok af" by (rule tx_ok_same)
  have "same_tx (af\<lparr>tx_fifo := fifo_flush (tx_fifo af)\<rparr>) (?af1\<lparr>tx_fifo := fifo_flush (tx_fifo ?af1)\<rparr>)"
    using same by (simp add: same_tx_def)
  from tx_ok_same [OF this] tx same tx_tick_demod [OF adc_isr_ok] assms(2) sample
    tx_tick_ok [of ?af1] pending_sample [of ?af1]
  show ?thesis by (auto simp: modem_inv_def ADC_vect_state same_tx_def split: if_splits)
next
  case (push af c)
  with assms(2) show ?thesis
    by (auto simp: modem_inv_def afsk_tx_ok_def fifo_flush_valid fifo.valid_push afsk_demod_ok_def
        afsk_rx_ok_def)
next
  case (start af)
  with assms(2) show ?thesis
    by (auto simp: modem_inv_def afsk_tx_ok_def afsk_txStart_def AFSK_DAC_IRQ_START_def Let_def
        afsk_demod_ok_def afsk_rx_ok_def)
next
  case (read af w n)
  obtain bs af' where r: "afsk_read n af = (bs, af')" by (cases "afsk_read n af")
  then have "af' = af\<lparr>rx_fifo := rx_fifo af'\<rparr>" "afsk_rx_ok af'"
    using read_takes [of af n bs af'] assms(2) read by (auto simp: modem_inv_def afsk_demod_ok_def)
  moreover obtain f where "rx_fifo af' = f" by blast
  ultimately have "af' = af\<lparr>rx_fifo := f\<rparr>" "afsk_rx_ok af'" by simp_all
  with r read assms(2) show ?thesis
    by (auto simp: modem_inv_def afsk_demod_ok_def afsk_tx_ok_def afsk_rx_ok_def split: if_splits)
next
  case (clearerr af w)
  with assms(2) show ?thesis
    by (auto simp: modem_inv_def afsk_clearerr_def afsk_demod_ok_def afsk_tx_ok_def afsk_rx_ok_def
        split: if_splits)
qed

lemma afsk_init_ok: "afsk_tx_ok (afsk_init a d)" "afsk_demod_ok (afsk_init a d)"
proof -
  let ?f = "fold (\<lambda>_ f. fifo_push f 0) [0..<4] (fifo_init (replicate 5 0) 5)"
  have f: "?f = fold (\<lambda>c f. fifo_push f c) [0, 0, 0, 0] (fifo_init (replicate 5 0) 5)"
    by (simp add: numeral_eq_Suc)
  have "fifo_valid ?f \<and> fifo_len ?f = 4 \<and> fifo_list ?f = [0, 0, 0, 0]"
    unfolding f using fifo.fold_push [of "fifo_init (replicate 5 0) 5" "[0, 0, 0, 0]"]
    by (simp add: fifo_valid_init)
  then show "afsk_demod_ok (afsk_init a d)"
    by (simp add: afsk_demod_ok_def afsk_init_def afsk_rx_ok_def fifo_valid_init)
  show "afsk_tx_ok (afsk_init a d)"
    by (simp add: afsk_tx_ok_def afsk_init_def fifo_valid_init one_hot_cases)
qed

lemma modem_inv_init: "modem_inv (afsk_init a d, False)"
  by (simp add: modem_inv_def afsk_init_ok)

lemma modem_inv_reachable: "modem_step\<^sup>*\<^sup>* m m' \<Longrightarrow> modem_inv m \<Longrightarrow> modem_inv m'"
  by (induction rule: rtranclp_induct) (auto intro: modem_inv_step)

section \<open>Properties\<close>


lemma modem_step_example:
  "modem_step\<^sup>*\<^sup>* (afsk_init 0 0, False)
     (afsk_txStart ((afsk_init 0 0)\<lparr>tx_fifo := fifo_push (tx_fifo (afsk_init 0 0)) 7\<rparr>), False)"
proof -
  have "\<not> fifo_isfull (tx_fifo (afsk_init 0 0))" by (simp add: afsk_init_def fifo_isfull_def fifo_init_def)
  from push [OF this, of 7] start show ?thesis
    by (meson converse_rtranclp_into_rtranclp r_into_rtranclp)
qed


text \<open>
  C37. In every reachable state and for every sample the discriminator and the low pass compute the
  exact integer filter: the 16-bit products, shifts and sums never overflow.
\<close>

theorem demodulator_no_overflow:
  assumes "modem_step\<^sup>*\<^sup>* (afsk_init adc dac, False) (af, w)"
  shows "let af' = afsk_filter af s; d = hd (fifo_list (delay_fifo af))
         in sint (iir_x1 af') = (sint d * sint s) div 4 \<and>
            sint (iir_y1 af') = sint (iir_x1 af) + sint (iir_x1 af') + sint (iir_y1 af) div 4 \<and>
            \<bar>sint (iir_y1 af')\<bar> \<le> 10923 \<and>
            fifo_list (delay_fifo af') = tl (fifo_list (delay_fifo af)) @ [s]"
proof -
  have "afsk_demod_ok af"
    using modem_inv_reachable [OF assms modem_inv_init] by (auto simp: modem_inv_def)
  from filter_step [OF this refl, of s] show ?thesis by (simp add: Let_def)
qed

theorem demodulator_no_overflow_witness:
  "\<bar>sint (iir_y1 (afsk_filter (afsk_init 0 0) 127))\<bar> \<le> 10923"
proof -
  have "modem_step\<^sup>*\<^sup>* (afsk_init 0 0, False) (afsk_init 0 0, False)" by simp
  from demodulator_no_overflow [OF this, of 127] show ?thesis unfolding Let_def by (elim conjE)
qed

text \<open>
  C24. \<^verbatim>\<open>afsk_write\<close> and \<^verbatim>\<open>afsk_flush\<close> terminate: with the sample interrupt running while they wait,
  a write of any length returns having queued or sent its bytes in order after everything written
  before, and a flush returns with the transmitter off, the FIFO empty and every byte written so
  far taken by the modulator.
\<close>

theorem write_flush_terminate:
  assumes "afsk_tx_ok af"
  shows "\<exists>af1 af2. afsk_write buf af = Some af1 \<and> sent af1 = sent af @ buf \<and>
    afsk_flush af1 = Some af2 \<and> \<not> sending af2 \<and> \<not> ptt af2 \<and> tx_done af2 = sent af @ buf"
proof -
  obtain af1 where 1: "afsk_write buf af = Some af1" "afsk_tx_ok af1" "sent af1 = sent af @ buf"
    using write_returns [OF assms] by blast
  obtain af2 where 2: "afsk_flush af1 = Some af2" "afsk_tx_ok af2" "sent af2 = sent af1" "\<not> sending af2"
    using flush_returns [OF 1(2)] by blast
  then have "fifo_list (tx_fifo af2) = []" "\<not> ptt af2" by (auto simp: afsk_tx_ok_def)
  with 1 2 show ?thesis by (auto simp: sent_def)
qed

theorem write_flush_terminate_witness:
  "\<exists>af1 af2. afsk_write [1, 2, 3] (afsk_init 0 0) = Some af1 \<and> afsk_flush af1 = Some af2 \<and>
     tx_done af2 = [1, 2, 3]"
  using write_flush_terminate [OF afsk_init_ok(1) [of 0 0], of "[1, 2, 3]"]
  by (auto simp: sent_def afsk_init_def)

end
