(* ===== verification/Formatwr.thy ===== *)
theory Formatwr
  imports Kfile
begin

text \<open>
  The formatter \<^verbatim>\<open>_formatted_write\<close> of \<^verbatim>\<open>bertos/mware/formatwr.c\<close> in the configuration of the
  firmware (\<^verbatim>\<open>PRINTF_NOFLOAT\<close>, no \<^verbatim>\<open>%n\<close>, no \<^verbatim>\<open>%o\<close>), behind every \<^verbatim>\<open>kfile_printf\<close>. The output is the
  sequence of characters handed to \<^verbatim>\<open>put_one_char\<close>. The variable arguments are what lies on the
  AVR stack: 16-bit words, a \<^verbatim>\<open>long\<close> being two of them, low half first, and pointers with the
  memory they point to. Reading an argument of the wrong sort or running off a string is undefined
  in C and has no result (\<open>None\<close>).
\<close>

section \<open>Arguments and tables\<close>

datatype va_word = W u16 | P "bytes option"

definition va_long :: "u32 \<Rightarrow> va_word list" where
  "va_long w = [W (ucast w), W (ucast (drop_bit 16 w))]"

definition va_str :: "bytes \<Rightarrow> va_word" where
  "va_str s = P (Some (s @ [0]))"

definition hex_tab :: bytes where
  "hex_tab = str ''0123456789abcdef''"

definition HEX_tab :: bytes where
  "HEX_tab = str ''0123456789ABCDEF''"

definition FRMWRI_BUFSIZE :: nat where "FRMWRI_BUFSIZE = 134"

datatype psf = PSF_NONE | PSF_PLUS | PSF_MINUS

record fmt_flags =
  plus_space_flag :: psf
  left_adjust :: bool
  l_L_modifier :: bool
  h_modifier :: bool
  alternate_flag :: bool
  zeropad :: bool

definition fmt_flags0 :: fmt_flags where
  "fmt_flags0 = \<lparr>plus_space_flag = PSF_NONE, left_adjust = False, l_L_modifier = False,
     h_modifier = False, alternate_flag = False, zeropad = False\<rparr>"

section \<open>Reading a conversion specification\<close>

text \<open>The end of the format list is the terminating NUL of the format string.\<close>

fun fmt_read_flags :: "fmt_flags \<Rightarrow> bytes \<Rightarrow> fmt_flags \<times> bytes" where
  "fmt_read_flags fl [] = (fl, [])"
| "fmt_read_flags fl (c # fmt) =
     (if c = chr CHR '' '' then
        fmt_read_flags (if plus_space_flag fl \<noteq> PSF_NONE then fl else fl\<lparr>plus_space_flag := PSF_PLUS\<rparr>) fmt
      else if c = chr CHR ''+'' then fmt_read_flags (fl\<lparr>plus_space_flag := PSF_PLUS\<rparr>) fmt
      else if c = chr CHR ''-'' then fmt_read_flags (fl\<lparr>left_adjust := True\<rparr>) fmt
      else if c = chr CHR ''#'' then fmt_read_flags (fl\<lparr>alternate_flag := True\<rparr>) fmt
      else if c = chr CHR ''0'' then fmt_read_flags (fl\<lparr>zeropad := True\<rparr>) fmt
      else (fl, c # fmt))"

fun fmt_read_num :: "int \<Rightarrow> bytes \<Rightarrow> int \<times> bytes" where
  "fmt_read_num acc [] = (acc, [])"
| "fmt_read_num acc (c # fmt) =
     (if c_isdigit c then fmt_read_num (acc * 10 + (uint c - 48)) fmt else (acc, c # fmt))"

definition va_int :: "va_word list \<Rightarrow> (u16 \<times> va_word list) option" where
  "va_int args = (case args of W w # rest \<Rightarrow> Some (w, rest) | _ \<Rightarrow> None)"

text \<open>Field width, with the flags a negative \<^verbatim>\<open>*\<close> argument changes.\<close>

definition fmt_read_width ::
  "fmt_flags \<Rightarrow> bytes \<Rightarrow> va_word list \<Rightarrow> (int \<times> fmt_flags \<times> bytes \<times> va_word list) option" where
  "fmt_read_width fl fmt args =
     do { (w, fl, fmt, args) \<leftarrow>
            (case fmt of
               c # fmt' \<Rightarrow>
                 if c = chr CHR ''*'' then
                   do { (a, args) \<leftarrow> va_int args;
                        Some (if sint a < 0 then (- sint a, fl\<lparr>left_adjust := True\<rparr>, fmt', args)
                              else (sint a, fl, fmt', args)) }
                 else let (n, fmt) = fmt_read_num 0 fmt in Some (n, fl, fmt, args)
             | [] \<Rightarrow> Some (0, fl, [], args));
          Some (w, if left_adjust fl then fl\<lparr>zeropad := False\<rparr> else fl, fmt, args) }"

definition fmt_read_precision :: "bytes \<Rightarrow> va_word list \<Rightarrow> (int \<times> bytes \<times> va_word list) option" where
  "fmt_read_precision fmt args =
     (case fmt of
        c # fmt' \<Rightarrow>
          if c = chr CHR ''.'' then
            (case fmt' of
               d # fmt'' \<Rightarrow>
                 if d = chr CHR ''*'' then
                   do { (a, args) \<leftarrow> va_int args; Some (sint a, fmt'', args) }
                 else let (n, fmt) = fmt_read_num 0 fmt' in Some (n, fmt, args)
             | [] \<Rightarrow> Some (0, [], args))
          else Some (- 1, fmt, args)
      | [] \<Rightarrow> Some (- 1, [], args))"

text \<open>The size modifier: \<^verbatim>\<open>l\<close> and \<^verbatim>\<open>L\<close> fall through to \<^verbatim>\<open>z\<close>, which only skips itself.\<close>

definition fmt_read_modifier :: "fmt_flags \<Rightarrow> bytes \<Rightarrow> fmt_flags \<times> bytes" where
  "fmt_read_modifier fl fmt =
     (case fmt of
        c # fmt' \<Rightarrow>
          if c = chr CHR ''l'' \<or> c = chr CHR ''L'' then (fl\<lparr>l_L_modifier := True\<rparr>, fmt')
          else if c = chr CHR ''z'' then (fl, fmt')
          else if c = chr CHR ''h'' then (fl\<lparr>h_modifier := True\<rparr>, fmt')
          else (fl, fmt)
      | [] \<Rightarrow> (fl, fmt))"

section \<open>Conversions\<close>

function fmt_digits :: "nat \<Rightarrow> bytes \<Rightarrow> nat \<Rightarrow> bytes" where
  "fmt_digits b tab u =
     (if b < 2 \<or> u div b = 0 then [tab ! (u mod b)]
      else fmt_digits b tab (u div b) @ [tab ! (u mod b)])"
  by pat_completeness auto
termination
  by (relation "measure (\<lambda>(b, tab, u). u)") (auto simp: div_greater_zero_iff intro!: div_less_dividend)

declare fmt_digits.simps [simp del]

text \<open>The characters between \<^verbatim>\<open>buf_pointer\<close> and \<^verbatim>\<open>ptr\<close> after \<^verbatim>\<open>INTEGRAL_CONVERSION\<close>.\<close>

definition fmt_integral :: "fmt_flags \<Rightarrow> int \<Rightarrow> int \<Rightarrow> nat \<Rightarrow> bytes \<Rightarrow> u8 \<Rightarrow> nat \<Rightarrow> bytes" where
  "fmt_integral fl field_width precision base tab format_flag ulong =
     (let txt = (if precision \<noteq> 0 \<or> ulong \<noteq> 0 then fmt_digits base tab ulong else []);
          precision = (if precision < 0 \<and> zeropad fl
                       then field_width - (if plus_space_flag fl \<noteq> PSF_NONE then 1 else 0) else precision);
          txt = replicate (nat (precision - int (length txt))) (chr CHR ''0'') @ txt
      in if alternate_flag fl \<and> ulong \<noteq> 0 \<and> (format_flag = chr CHR ''x'' \<or> format_flag = chr CHR ''X'')
         then chr CHR ''0'' # format_flag # txt else txt)"

definition va_ulong :: "va_word list \<Rightarrow> (u32 \<times> va_word list) option" where
  "va_ulong args =
     (case args of W lo # W hi # rest \<Rightarrow> Some (push_bit 16 (ucast hi) OR ucast lo, rest) | _ \<Rightarrow> None)"

text \<open>\<^verbatim>\<open>for (n=0; *ptr && n < precision; n++) ++ptr;\<close> on the memory behind the pointer.\<close>

fun fmt_strn :: "nat \<Rightarrow> bytes \<Rightarrow> bytes option" where
  "fmt_strn 0 mem = Some []"
| "fmt_strn (Suc n) [] = None"
| "fmt_strn (Suc n) (c # mem) =
     (if c = 0 then Some [] else do { s \<leftarrow> fmt_strn n mem; Some (c # s) })"

definition fmt_string :: "int \<Rightarrow> bytes option \<Rightarrow> bytes option" where
  "fmt_string precision p =
     (let mem = (case p of None \<Rightarrow> str ''<NULL>'' @ [0] | Some m \<Rightarrow> m)
      in fmt_strn (nat (if precision < 0 then 10000 else precision)) mem)"

text \<open>The conversion switch: the text, the flags (the sign), the rest of the format and of the
  arguments.\<close>

definition fmt_convert ::
  "fmt_flags \<Rightarrow> int \<Rightarrow> int \<Rightarrow> bytes \<Rightarrow> va_word list \<Rightarrow> (bytes \<times> fmt_flags \<times> bytes \<times> va_word list) option"
where
  "fmt_convert fl field_width precision fmt args =
     (case fmt of
        [] \<Rightarrow> Some (str ''???'', fl, [], args)
      | c # fmt \<Rightarrow>
          if c = chr CHR ''c'' then
            do { (a, args) \<leftarrow> va_int args; Some ([ucast a], fl, fmt, args) }
          else if c = chr CHR ''s'' \<or> c = chr CHR ''S'' then
            (case args of
               P p # args \<Rightarrow> do { s \<leftarrow> fmt_string precision p; Some (s, fl, fmt, args) }
             | _ \<Rightarrow> None)
          else if c = chr CHR ''x'' \<or> c = chr CHR ''u'' \<or> c = chr CHR ''p'' \<or> c = chr CHR ''X'' then
            do { (ulong, args) \<leftarrow>
                   (if c \<noteq> chr CHR ''p'' \<and> l_L_modifier fl then va_ulong args
                    else do { (a, args) \<leftarrow> va_int args; Some (ucast a, args) });
                 let fl = fl\<lparr>plus_space_flag := PSF_NONE\<rparr>;
                 Some (fmt_integral fl field_width precision (if c = chr CHR ''u'' then 10 else 16)
                         (if c = chr CHR ''x'' then hex_tab else HEX_tab) c (unat ulong), fl, fmt, args) }
          else if c = chr CHR ''d'' \<or> c = chr CHR ''i'' then
            do { (ulong, args) \<leftarrow>
                   (if l_L_modifier fl then va_ulong args
                    else do { (a, args) \<leftarrow> va_int args; Some (scast a, args) });
                 let (fl, ulong) = (if sint ulong < 0 then (fl\<lparr>plus_space_flag := PSF_MINUS\<rparr>, - ulong)
                                    else (fl, ulong));
                 Some (fmt_integral fl field_width precision 10 HEX_tab c (unat ulong), fl, fmt, args) }
          else Some (str ''???'', fl, fmt, args))"

text \<open>Padding and sign around the text.\<close>

definition fmt_emit :: "fmt_flags \<Rightarrow> int \<Rightarrow> bytes \<Rightarrow> bytes" where
  "fmt_emit fl field_width txt =
     (let precision = int (length txt);
          n = (if precision > field_width then 0
               else field_width - precision - (if plus_space_flag fl \<noteq> PSF_NONE then 1 else 0));
          pad = replicate (nat n) (chr CHR '' '');
          sign = (case plus_space_flag fl of PSF_NONE \<Rightarrow> [] | PSF_PLUS \<Rightarrow> [chr CHR ''+''] | PSF_MINUS \<Rightarrow> [chr CHR ''-''])
      in (if left_adjust fl then [] else pad) @ sign @ txt @ (if left_adjust fl then pad else []))"

definition fmt_spec :: "bytes \<Rightarrow> va_word list \<Rightarrow> (bytes \<times> bytes \<times> va_word list) option" where
  "fmt_spec fmt args =
     do { let (fl, fmt) = fmt_read_flags fmt_flags0 fmt;
          (field_width, fl, fmt, args) \<leftarrow> fmt_read_width fl fmt args;
          (precision, fmt, args) \<leftarrow> fmt_read_precision fmt args;
          let (fl, fmt) = fmt_read_modifier fl fmt;
          (txt, fl, fmt, args) \<leftarrow> fmt_convert fl field_width precision fmt args;
          Some (fmt_emit fl field_width txt, fmt, args) }"

section \<open>The formatter\<close>

lemma fmt_read_flags_length: "length (snd (fmt_read_flags fl fmt)) \<le> length fmt"
  by (induction fl fmt rule: fmt_read_flags.induct) (auto simp: chr_def intro: le_SucI)

lemma fmt_read_num_length: "length (snd (fmt_read_num n fmt)) \<le> length fmt"
  by (induction n fmt rule: fmt_read_num.induct) (auto intro: le_SucI)

lemma fmt_read_width_length:
  "fmt_read_width fl fmt args = Some (w, fl', fmt', args') \<Longrightarrow> length fmt' \<le> length fmt"
  using fmt_read_num_length [of 0 fmt]
  by (auto simp: fmt_read_width_def bind_eq_Some_conv Let_def split_beta split: list.splits if_splits)

lemma fmt_read_precision_length:
  "fmt_read_precision fmt args = Some (p, fmt', args') \<Longrightarrow> length fmt' \<le> length fmt"
  using fmt_read_num_length [of 0 "tl fmt"]
  by (auto simp: fmt_read_precision_def bind_eq_Some_conv Let_def split_beta
      split: list.splits if_splits)

lemma fmt_read_modifier_length: "length (snd (fmt_read_modifier fl fmt)) \<le> length fmt"
  by (auto simp: fmt_read_modifier_def split: list.split)

lemma fmt_convert_length:
  "fmt_convert fl w p fmt args = Some (txt, fl', fmt', args') \<Longrightarrow> length fmt' \<le> length fmt"
  by (auto simp: fmt_convert_def bind_eq_Some_conv Let_def split_beta
      split: list.splits if_splits va_word.splits)

lemma fmt_spec_length: "fmt_spec fmt args = Some (txt, fmt', args') \<Longrightarrow> length fmt' \<le> length fmt"
proof -
  assume "fmt_spec fmt args = Some (txt, fmt', args')"
  then obtain fl1 f1 w fl2 f2 a2 p f3 a3 fl4 f4 txt4 fl5 where
    "fmt_read_flags fmt_flags0 fmt = (fl1, f1)" "fmt_read_width fl1 f1 args = Some (w, fl2, f2, a2)"
    "fmt_read_precision f2 a2 = Some (p, f3, a3)" "fmt_read_modifier fl2 f3 = (fl4, f4)"
    "fmt_convert fl4 w p f4 a3 = Some (txt4, fl5, fmt', args')"
    by (auto simp: fmt_spec_def bind_eq_Some_conv Let_def split_beta)
      (metis surjective_pairing)
  then show ?thesis
    using fmt_read_flags_length [of fmt_flags0 fmt] fmt_read_width_length fmt_read_precision_length
      fmt_read_modifier_length [of fl2 f3] fmt_convert_length by fastforce
qed

function formatted_write :: "bytes \<Rightarrow> va_word list \<Rightarrow> bytes option" where
  "formatted_write fmt args =
     (case fmt of
        [] \<Rightarrow> Some []
      | c # fmt \<Rightarrow>
          if c = 0 then Some []
          else if c \<noteq> chr CHR ''%'' then do { out \<leftarrow> formatted_write fmt args; Some (c # out) }
          else if fmt \<noteq> [] \<and> hd fmt = chr CHR ''%'' then
            do { out \<leftarrow> formatted_write (tl fmt) args; Some (chr CHR ''%'' # out) }
          else (case fmt_spec fmt args of
              None \<Rightarrow> None
            | Some (txt, fmt, args) \<Rightarrow> do { out \<leftarrow> formatted_write fmt args; Some (txt @ out) }))"
  by pat_completeness auto
termination
  by (relation "measure (\<lambda>(fmt, args). length fmt)")
    (auto simp: less_Suc_eq_le dest: fmt_spec_length)

declare formatted_write.simps [simp del]

definition kfile_printf :: "'ch KFile \<Rightarrow> bytes \<Rightarrow> va_word list \<Rightarrow> 'ch \<Rightarrow> 'ch option" where
  "kfile_printf fd fmt args ch =
     do { out \<leftarrow> formatted_write fmt args;
          (ok, ch) \<leftarrow> kfile_print fd out ch;
          Some ch }"

section \<open>Decimal conversion\<close>

definition dec_val :: "bytes \<Rightarrow> nat" where
  "dec_val s = foldl (\<lambda>a c. a * 10 + (unat c - 48)) 0 s"

text \<open>A reference reader of signed decimal numbers.\<close>

definition read_dec :: "bytes \<Rightarrow> int" where
  "read_dec s = (case s of c # cs \<Rightarrow> if c = chr CHR ''-'' then - int (dec_val cs) else int (dec_val s) | [] \<Rightarrow> 0)"

lemma upto_10: "d < 10 \<Longrightarrow> d \<in> {0, 1, 2, 3, 4, 5, 6, 7, 8, 9 :: nat}"
  by auto

lemma HEX_tab_dec: "d < 10 \<Longrightarrow> HEX_tab ! d = word_of_nat (48 + d)"
  by (drule upto_10) (auto simp: HEX_tab_def str_def)

lemma dec_digit: "d < 10 \<Longrightarrow> c_isdigit (HEX_tab ! d) \<and> unat (HEX_tab ! d) = 48 + d"
  by (drule upto_10) (auto simp: HEX_tab_def str_def c_isdigit_def)

lemma fmt_digits_dec:
  "dec_val (fmt_digits 10 HEX_tab u) = u \<and> list_all c_isdigit (fmt_digits 10 HEX_tab u) \<and>
   fmt_digits 10 HEX_tab u \<noteq> []"
proof (induction u rule: less_induct)
  case (less u)
  show ?case
  proof (cases "u div 10 = 0")
    case True
    then have "u mod 10 = u" by (simp add: div_eq_0_iff)
    with True dec_digit [of "u mod 10"] show ?thesis
      by (subst (1 2 3) fmt_digits.simps) (simp add: dec_val_def)
  next
    case False
    then have "u div 10 < u" by simp
    from less [OF this] False dec_digit [of "u mod 10"] show ?thesis
      by (subst (1 2 3) fmt_digits.simps) (simp add: dec_val_def)
  qed
qed

lemma fmt_digits_length: "u < b ^ Suc k \<Longrightarrow> 2 \<le> b \<Longrightarrow> length (fmt_digits b tab u) \<le> Suc k"
proof (induction k arbitrary: u)
  case 0
  then show ?case by (subst fmt_digits.simps) simp
next
  case (Suc k)
  then have "u div b < b ^ Suc k" by (simp add: div_less_iff_less_mult mult.commute)
  with Suc.IH [OF this] Suc.prems(2) show ?case by (subst fmt_digits.simps) simp
qed

lemma read_dec_digits:
  "list_all c_isdigit s \<Longrightarrow> s \<noteq> [] \<Longrightarrow> read_dec s = int (dec_val s)"
  by (cases s) (auto simp: read_dec_def chr_def c_isdigit_def)

lemma unat_word_of_int: "0 \<le> k \<Longrightarrow> k < 2 ^ 32 \<Longrightarrow> unat (word_of_int k :: u32) = nat k"
  by (simp add: unsigned_of_int take_bit_int_eq_self)

lemma fmt_convert_d:
  "fmt_convert fmt_flags0 0 (- 1) (chr CHR ''d'' # fmt) (W w # args) =
   Some (fmt_digits 10 HEX_tab (nat \<bar>sint w\<bar>),
         fmt_flags0\<lparr>plus_space_flag := if sint w < 0 then PSF_MINUS else PSF_NONE\<rparr>, fmt, args)"
proof -
  have r: "- 32768 \<le> sint w" "sint w < 32768" using sint_range_size [of w] by (auto simp: word_size)
  have s: "sint (scast w :: u32) = sint w" by (simp add: sint_up_scast is_up)
  have w: "scast w = (word_of_int (sint w) :: u32)" by (rule scast_eq)
  have "unat (- scast w :: u32) = nat (- sint w)" if "sint w < 0"
    unfolding w wi_hom_neg using r that by (intro unat_word_of_int) auto
  moreover have "unat (scast w :: u32) = nat (sint w)" if "0 \<le> sint w"
    unfolding w using r that by (intro unat_word_of_int) auto
  ultimately show ?thesis using s
    by (simp add: fmt_convert_def va_int_def chr_def fmt_flags0_def fmt_integral_def Let_def)
qed

lemma fmt_spec_d:
  "fmt_spec (chr CHR ''d'' # fmt) (W w # args) =
   Some ((if sint w < 0 then [chr CHR ''-''] else []) @ fmt_digits 10 HEX_tab (nat \<bar>sint w\<bar>), fmt, args)"
proof -
  have read: "fmt_read_flags fmt_flags0 (chr CHR ''d'' # fmt) = (fmt_flags0, chr CHR ''d'' # fmt)"
    "fmt_read_width fmt_flags0 (chr CHR ''d'' # fmt) (W w # args) =
       Some (0, fmt_flags0, chr CHR ''d'' # fmt, W w # args)"
    "fmt_read_precision (chr CHR ''d'' # fmt) (W w # args) = Some (- 1, chr CHR ''d'' # fmt, W w # args)"
    "fmt_read_modifier fmt_flags0 (chr CHR ''d'' # fmt) = (fmt_flags0, chr CHR ''d'' # fmt)"
    by (simp_all add: chr_def fmt_read_width_def fmt_read_precision_def fmt_read_modifier_def
        fmt_flags0_def c_isdigit_def)
  let ?fl = "fmt_flags0\<lparr>plus_space_flag := if sint w < 0 then PSF_MINUS else PSF_NONE\<rparr>"
  have "fmt_emit ?fl 0 s = (if sint w < 0 then [chr CHR ''-''] else []) @ s" if "s \<noteq> []" for s
    using that by (simp add: fmt_emit_def fmt_flags0_def)
  then show ?thesis
    using fmt_digits_dec [of "nat \<bar>sint w\<bar>"]
    by (simp add: fmt_spec_def read fmt_convert_d del: fmt_read_flags.simps)
qed

text \<open>
  C38. \<^verbatim>\<open>%d\<close> prints a 16-bit integer in decimal: for every value, negative ones and -32768 included,
  the formatter succeeds and the text reads back as the value.
\<close>

theorem printf_d_reads_back:
  "\<exists>out. formatted_write (str ''%d'') [W w] = Some out \<and> read_dec out = sint w"
proof -
  let ?u = "nat \<bar>sint w\<bar>"
  have "formatted_write (str ''%d'') [W w] =
      Some ((if sint w < 0 then [chr CHR ''-''] else []) @ fmt_digits 10 HEX_tab ?u)"
    using fmt_spec_d [of "[]" w "[]"]
    by (subst formatted_write.simps) (simp add: str_def chr_def formatted_write.simps [of "[]"])
  then show ?thesis
    using fmt_digits_dec [of ?u] read_dec_digits [of "fmt_digits 10 HEX_tab ?u"]
    by (cases "sint w < 0") (simp_all add: read_dec_def [of "_ # _"])
qed

text \<open>
  An integer conversion never leaves its buffer: with field width and precision of at most
  131, for any flags, base and value, the characters of \<^verbatim>\<open>INTEGRAL_CONVERSION\<close> fit below the end
  of \<^verbatim>\<open>buf\<close>, from which they are written backwards.
\<close>

lemma integral_fits_buffer:
  assumes "field_width \<le> 131" and "precision \<le> 131" and "u < 2 ^ 32" and "base = 10 \<or> base = 16"
  shows "length (fmt_integral fl field_width precision base tab c u) \<le> FRMWRI_BUFSIZE - 1"
proof -
  have "length (fmt_digits base tab u) \<le> Suc 9" using assms(3,4) by (intro fmt_digits_length) auto
  then show ?thesis
    using assms(1,2) by (auto simp: fmt_integral_def FRMWRI_BUFSIZE_def Let_def)
qed

context kfile_writer
begin

lemma printf_ok:
  assumes "formatted_write fmt args = Some out" and "ready ch"
  shows "\<exists>ch'. kfile_printf fd fmt args ch = Some ch' \<and> ready ch' \<and> accepted ch' = accepted ch @ out"
  using print_ok [OF assms(2), of out] assms(1) by (auto simp: kfile_printf_def)

end

end
