(* ===== verification/Ax25.thy ===== *)
theory Ax25
  imports Crc_Ccitt Hdlc Formatwr
begin

text \<open>
  The AX.25 layer \<^verbatim>\<open>bertos/net/ax25.[ch]\<close> in the configuration of \<^verbatim>\<open>cfg_ax25.h\<close> (330-byte frame buffer,
  repeater list and statistics on): reception of escaped bytes into frames, decoding of a frame into
  a message, and the three ways to send. The channel is any \<open>KFile\<close>; the receive hook is an
  argument that acts on the context, the channel and the rest of the program's state. A message's
  \<open>m_info\<close> is the memory its pointer points to, its length is the separate field the code computes.
  \<open>None\<close> is a call that does not return or whose behaviour is undefined in C.
\<close>

section \<open>Data\<close>

definition CONFIG_AX25_FRAME_BUF_LEN :: nat where "CONFIG_AX25_FRAME_BUF_LEN = 330"
definition AX25_MIN_FRAME_LEN :: nat where "AX25_MIN_FRAME_LEN = 18"
definition AX25_MAX_RPT :: nat where "AX25_MAX_RPT = 8"
definition AX25_CTRL_UI :: u8 where "AX25_CTRL_UI = 0x03"
definition AX25_PID_NOLAYER3 :: u8 where "AX25_PID_NOLAYER3 = 0xF0"

lemmas ax25_consts = CONFIG_AX25_FRAME_BUF_LEN_def AX25_MIN_FRAME_LEN_def AX25_MAX_RPT_def
  AX25_CTRL_UI_def AX25_PID_NOLAYER3_def

record AX25Call =
  call :: bytes
  ssid :: u8

record AX25Msg =
  m_src :: AX25Call
  m_dst :: AX25Call
  rpt_lst :: "AX25Call list"
  rpt_cnt :: u8
  rpt_flags :: u8
  m_ctrl :: u16
  m_pid :: u8
  m_info :: bytes
  m_len :: u16

record AX25Stat =
  rx_ok :: u32
  tx_ok :: u32
  rx_err :: u32

record AX25Ctx =
  ax_buf :: bytes
  frm_len :: nat
  crc_in :: u16
  crc_out :: u16
  pass_through :: bool
  sync :: bool
  escape :: bool
  dcd_state :: u8
  dcd :: bool
  stat :: AX25Stat

definition AX25_REPEATED :: "AX25Msg \<Rightarrow> nat \<Rightarrow> bool" where
  "AX25_REPEATED msg idx \<longleftrightarrow> rpt_flags msg AND push_bit idx 1 \<noteq> 0"

definition AX25_SET_REPEATED :: "AX25Msg \<Rightarrow> nat \<Rightarrow> bool \<Rightarrow> AX25Msg" where
  "AX25_SET_REPEATED msg idx val =
     (if val then msg\<lparr>rpt_flags := rpt_flags msg OR push_bit idx 1\<rparr>
      else msg\<lparr>rpt_flags := rpt_flags msg AND NOT (push_bit idx 1)\<rparr>)"

definition ax25_init :: "AX25Ctx" where
  "ax25_init = \<lparr>ax_buf = replicate CONFIG_AX25_FRAME_BUF_LEN 0, frm_len = 0,
     crc_in = CRC_CCITT_INIT_VAL, crc_out = CRC_CCITT_INIT_VAL, pass_through = False, sync = False,
     escape = False, dcd_state = 0, dcd = False, stat = \<lparr>rx_ok = 0, tx_ok = 0, rx_err = 0\<rparr>\<rparr>"

section \<open>Decoding a frame\<close>

definition DECODE_CALL :: "bytes \<Rightarrow> nat \<Rightarrow> bytes" where
  "DECODE_CALL buf off =
     map (\<lambda>i. let c = drop_bit 1 (buf ! (off + i)) in if c = chr CHR '' '' then 0 else c) [0..<6]"

lemma unat_suc_u8: "unat (w :: u8) < 255 \<Longrightarrow> unat (w + 1) = Suc (unat w)"
  by (simp add: unat_word_ariths)

text \<open>The address loop: \<open>off\<close> is at the SSID byte of the last address read; the result is the
  offset after the address field.\<close>

definition ax25_decode_rpt :: "bytes \<Rightarrow> nat \<Rightarrow> AX25Msg \<Rightarrow> AX25Msg" where
  "ax25_decode_rpt buf off msg =
     (let i = unat (rpt_cnt msg);
          b = buf ! (off + 7);
          msg = msg\<lparr>rpt_lst := (rpt_lst msg)[i := \<lparr>call = DECODE_CALL buf (off + 1),
                                             ssid = drop_bit 1 b AND 0x0F\<rparr>]\<rparr>;
          msg = AX25_SET_REPEATED msg i (b AND 0x80 \<noteq> 0)
      in msg\<lparr>rpt_cnt := rpt_cnt msg + 1\<rparr>)"

lemma decode_rpt_cnt [simp]: "rpt_cnt (ax25_decode_rpt buf off msg) = rpt_cnt msg + 1"
  by (simp add: ax25_decode_rpt_def AX25_SET_REPEATED_def Let_def)

function ax25_decode_rpts :: "bytes \<Rightarrow> nat \<Rightarrow> AX25Msg \<Rightarrow> nat \<times> AX25Msg" where
  "ax25_decode_rpts buf off msg =
     (if buf ! off AND 0x01 = 0 \<and> unat (rpt_cnt msg) < AX25_MAX_RPT
      then ax25_decode_rpts buf (off + 7) (ax25_decode_rpt buf off msg)
      else (off + 1, msg))"
  by pat_completeness auto
termination
  by (relation "measure (\<lambda>(buf, off, msg). 8 - unat (rpt_cnt msg))")
    (auto simp: AX25_MAX_RPT_def unat_suc_u8)

declare ax25_decode_rpts.simps [simp del]

text \<open>\<^verbatim>\<open>ax25_decode\<close>: the addresses, then the message for the hook, if any. The local \<^verbatim>\<open>msg\<close> starts
  with whatever is on the stack, \<open>msg0\<close>.\<close>

definition ax25_decode_addr :: "AX25Msg \<Rightarrow> bytes \<Rightarrow> nat \<times> AX25Msg" where
  "ax25_decode_addr msg0 buf =
     (let msg = msg0\<lparr>m_dst := \<lparr>call = DECODE_CALL buf 0, ssid = drop_bit 1 (buf ! 6) AND 0x0F\<rparr>\<rparr>;
          msg = msg\<lparr>m_src := \<lparr>call = DECODE_CALL buf 7, ssid = drop_bit 1 (buf ! 13) AND 0x0F\<rparr>\<rparr>
      in ax25_decode_rpts buf 13 (msg\<lparr>rpt_cnt := 0\<rparr>))"

definition ax25_decode_msg :: "AX25Msg \<Rightarrow> AX25Ctx \<Rightarrow> AX25Msg option" where
  "ax25_decode_msg msg0 ctx =
     (let buf = ax_buf ctx;
          (off, msg) = ax25_decode_addr msg0 buf;
          msg = msg\<lparr>m_ctrl := ucast (buf ! off)\<rparr>
      in if m_ctrl msg \<noteq> ucast AX25_CTRL_UI then None
         else
           let msg = msg\<lparr>m_pid := buf ! (off + 1)\<rparr>
           in if m_pid msg \<noteq> AX25_PID_NOLAYER3 then None
              else Some (msg\<lparr>m_len := word_of_nat (frm_len ctx) - 2 - word_of_nat (off + 2),
                             m_info := drop (off + 2) buf\<rparr>))"

section \<open>Receiving\<close>

type_synonym ('ch, 'w) ax_hook =
  "AX25Msg option \<Rightarrow> AX25Ctx \<times> 'ch \<times> 'w \<Rightarrow> (AX25Ctx \<times> 'ch \<times> 'w) option"

definition ax25_decode ::
  "('ch, 'w) ax_hook option \<Rightarrow> AX25Msg \<Rightarrow> AX25Ctx \<times> 'ch \<times> 'w \<Rightarrow> (AX25Ctx \<times> 'ch \<times> 'w) option" where
  "ax25_decode hook msg0 s =
     (case ax25_decode_msg msg0 (fst s) of
        None \<Rightarrow> Some s
      | Some msg \<Rightarrow> (case hook of None \<Rightarrow> Some s | Some h \<Rightarrow> h (Some msg) s))"

definition stat_rx_ok :: "AX25Ctx \<Rightarrow> AX25Ctx" where
  "stat_rx_ok ctx = ctx\<lparr>stat := (stat ctx)\<lparr>rx_ok := rx_ok (stat ctx) + 1\<rparr>\<rparr>"

definition stat_rx_err :: "AX25Ctx \<Rightarrow> AX25Ctx" where
  "stat_rx_err ctx = ctx\<lparr>stat := (stat ctx)\<lparr>rx_err := rx_err (stat ctx) + 1\<rparr>\<rparr>"

definition stat_tx_ok :: "AX25Ctx \<Rightarrow> AX25Ctx" where
  "stat_tx_ok ctx = ctx\<lparr>stat := (stat ctx)\<lparr>tx_ok := tx_ok (stat ctx) + 1\<rparr>\<rparr>"

text \<open>A flag: what was received since the last one is a frame if it is long enough and its checksum
  is right.\<close>

definition ax25_frame_end ::
  "('ch, 'w) ax_hook option \<Rightarrow> AX25Msg \<Rightarrow> AX25Ctx \<times> 'ch \<times> 'w \<Rightarrow> (AX25Ctx \<times> 'ch \<times> 'w) option" where
  "ax25_frame_end hook msg0 s =
     (let (ctx, r) = s
      in if AX25_MIN_FRAME_LEN \<le> frm_len ctx then
           if crc_in ctx = AX25_CRC_CORRECT then
             let ctx = stat_rx_ok ctx
             in if pass_through ctx then (case hook of None \<Rightarrow> Some (ctx, r) | Some h \<Rightarrow> h None (ctx, r))
                else ax25_decode hook msg0 (ctx, r)
           else Some (stat_rx_err ctx, r)
         else Some s)"

definition ax25_flag :: "AX25Ctx \<Rightarrow> AX25Ctx" where
  "ax25_flag ctx = ctx\<lparr>sync := True, crc_in := CRC_CCITT_INIT_VAL, frm_len := 0, dcd_state := 0, dcd := False\<rparr>"

text \<open>A data byte of a frame.\<close>

definition ax25_store :: "AX25Ctx \<Rightarrow> u8 \<Rightarrow> AX25Ctx" where
  "ax25_store ctx c =
     (if frm_len ctx < CONFIG_AX25_FRAME_BUF_LEN then
        let ctx = ctx\<lparr>ax_buf := (ax_buf ctx)[frm_len ctx := c], frm_len := Suc (frm_len ctx)\<rparr>;
            ctx = ctx\<lparr>crc_in := updcrc_ccitt c (crc_in ctx)\<rparr>;
            ctx = (if dcd_state ctx = 1 \<and> c = AX25_PID_NOLAYER3
                   then ctx\<lparr>dcd_state := dcd_state ctx + 1, dcd := True\<rparr> else ctx)
        in if dcd_state ctx = 0 \<and> c = AX25_CTRL_UI then ctx\<lparr>dcd_state := dcd_state ctx + 1\<rparr> else ctx
      else stat_rx_err (ctx\<lparr>sync := False, dcd := False\<rparr>))"

definition ax25_rx_char ::
  "('ch, 'w) ax_hook option \<Rightarrow> AX25Msg \<Rightarrow> u8 \<Rightarrow> AX25Ctx \<times> 'ch \<times> 'w \<Rightarrow> (AX25Ctx \<times> 'ch \<times> 'w) option" where
  "ax25_rx_char hook msg0 c s =
     (let (ctx, r) = s
      in if \<not> escape ctx \<and> c = HDLC_FLAG then
           do { (ctx, r) \<leftarrow> ax25_frame_end hook msg0 s; Some (ax25_flag ctx, r) }
         else if \<not> escape ctx \<and> c = HDLC_RESET then Some (ctx\<lparr>sync := False, dcd := False\<rparr>, r)
         else if \<not> escape ctx \<and> c = AX25_ESC then Some (ctx\<lparr>escape := True\<rparr>, r)
         else Some ((if sync ctx then ax25_store ctx c else ctx)\<lparr>escape := False\<rparr>, r))"

partial_function (option) ax25_poll_loop ::
  "'ch KFile \<Rightarrow> ('ch, 'w) ax_hook option \<Rightarrow> AX25Msg \<Rightarrow> AX25Ctx \<times> 'ch \<times> 'w \<Rightarrow> (AX25Ctx \<times> 'ch \<times> 'w) option" where
  "ax25_poll_loop fd hook msg0 s =
     (case kfile_getc fd (fst (snd s)) of
        (None, ch) \<Rightarrow> Some (fst s, ch, snd (snd s))
      | (Some c, ch) \<Rightarrow>
          do { s \<leftarrow> ax25_rx_char hook msg0 c (fst s, ch, snd (snd s)); ax25_poll_loop fd hook msg0 s })"

definition ax25_poll ::
  "'ch KFile \<Rightarrow> ('ch, 'w) ax_hook option \<Rightarrow> AX25Msg \<Rightarrow> AX25Ctx \<times> 'ch \<times> 'w \<Rightarrow> (AX25Ctx \<times> 'ch \<times> 'w) option" where
  "ax25_poll fd hook msg0 s =
     do { (ctx, ch, w) \<leftarrow> ax25_poll_loop fd hook msg0 s;
          if k_error fd ch \<noteq> 0 then
            let ch = k_clearerr fd ch;
                ctx = (if dcd ctx then stat_rx_err ctx else ctx)
            in Some (ctx\<lparr>dcd := False\<rparr>, ch, w)
          else Some (ctx, ch, w) }"

section \<open>Sending\<close>

definition ax25_putchar :: "'ch KFile \<Rightarrow> u8 \<Rightarrow> AX25Ctx \<times> 'ch \<Rightarrow> (AX25Ctx \<times> 'ch) option" where
  "ax25_putchar fd c s =
     (let (ctx, ch) = s
      in do { ch \<leftarrow> (if c = HDLC_FLAG \<or> c = HDLC_RESET \<or> c = AX25_ESC
                     then do { (_, ch) \<leftarrow> kfile_putc fd AX25_ESC ch; Some ch } else Some ch);
              let ctx = ctx\<lparr>crc_out := updcrc_ccitt c (crc_out ctx)\<rparr>;
              (_, ch) \<leftarrow> kfile_putc fd c ch;
              Some (ctx, ch) })"

fun ax25_putchars :: "'ch KFile \<Rightarrow> bytes \<Rightarrow> AX25Ctx \<times> 'ch \<Rightarrow> (AX25Ctx \<times> 'ch) option" where
  "ax25_putchars fd [] s = Some s"
| "ax25_putchars fd (c # cs) s = do { s \<leftarrow> ax25_putchar fd c s; ax25_putchars fd cs s }"

text \<open>\<^verbatim>\<open>call\<close> is an array of six characters, NUL-padded.\<close>

definition ax25_call_bytes :: "AX25Call \<Rightarrow> bool \<Rightarrow> bool \<Rightarrow> bytes" where
  "ax25_call_bytes addr is_last repeated =
     (let len = min 6 (c_strlen (call addr));
          name = map (\<lambda>c. push_bit 1 (c_toupper c)) (take len (call addr));
          pad = replicate (6 - len) (push_bit 1 (chr CHR '' ''));
          s = 0x60 OR push_bit 1 (ssid addr) OR (if is_last then 0x01 else 0);
          s = (if repeated then s OR 0x80 else s)
      in name @ pad @ [s])"

definition ax25_sendCall ::
  "'ch KFile \<Rightarrow> AX25Call \<Rightarrow> bool \<Rightarrow> bool \<Rightarrow> AX25Ctx \<times> 'ch \<Rightarrow> (AX25Ctx \<times> 'ch) option" where
  "ax25_sendCall fd addr is_last repeated s = ax25_putchars fd (ax25_call_bytes addr is_last repeated) s"

text \<open>The start of a frame, and its end: the checksum, low byte first, and a flag.\<close>

definition ax25_begin :: "'ch KFile \<Rightarrow> AX25Ctx \<times> 'ch \<Rightarrow> (AX25Ctx \<times> 'ch) option" where
  "ax25_begin fd s =
     do { (_, ch) \<leftarrow> kfile_putc fd HDLC_FLAG (snd s);
          Some ((fst s)\<lparr>crc_out := CRC_CCITT_INIT_VAL\<rparr>, ch) }"

definition ax25_end :: "'ch KFile \<Rightarrow> AX25Ctx \<times> 'ch \<Rightarrow> (AX25Ctx \<times> 'ch) option" where
  "ax25_end fd s =
     do { let l = crcl (crc_out (fst s)); let h = crch (crc_out (fst s));
          s \<leftarrow> ax25_putchar fd l s;
          s \<leftarrow> ax25_putchar fd h s;
          (_, ch) \<leftarrow> kfile_putc fd HDLC_FLAG (snd s);
          Some (fst s, ch) }"

fun ax25_sendPath :: "'ch KFile \<Rightarrow> AX25Call list \<Rightarrow> AX25Ctx \<times> 'ch \<Rightarrow> (AX25Ctx \<times> 'ch) option" where
  "ax25_sendPath fd [] s = Some s"
| "ax25_sendPath fd (p # path) s =
     do { s \<leftarrow> ax25_sendCall fd p (path = []) False s; ax25_sendPath fd path s }"

definition ax25_sendVia ::
  "'ch KFile \<Rightarrow> AX25Call list \<Rightarrow> bytes \<Rightarrow> AX25Ctx \<times> 'ch \<Rightarrow> (AX25Ctx \<times> 'ch) option" where
  "ax25_sendVia fd path buf s =
     do { s \<leftarrow> ax25_begin fd s;
          s \<leftarrow> ax25_sendPath fd path s;
          s \<leftarrow> ax25_putchar fd AX25_CTRL_UI s;
          s \<leftarrow> ax25_putchar fd AX25_PID_NOLAYER3 s;
          s \<leftarrow> ax25_putchars fd buf s;
          s \<leftarrow> ax25_end fd s;
          Some (stat_tx_ok (fst s), snd s) }"

fun ax25_sendRpts ::
  "'ch KFile \<Rightarrow> AX25Msg \<Rightarrow> nat \<Rightarrow> AX25Call list \<Rightarrow> AX25Ctx \<times> 'ch \<Rightarrow> (AX25Ctx \<times> 'ch) option" where
  "ax25_sendRpts fd msg i [] s = Some s"
| "ax25_sendRpts fd msg i (p # rpts) s =
     do { s \<leftarrow> ax25_sendCall fd p (rpts = []) (AX25_REPEATED msg i) s; ax25_sendRpts fd msg (Suc i) rpts s }"

text \<open>Reading the payload past the memory behind \<open>m_info\<close>, or a repeater past the array, is undefined.\<close>

definition ax25_sendMsg :: "'ch KFile \<Rightarrow> AX25Msg \<Rightarrow> AX25Ctx \<times> 'ch \<Rightarrow> (AX25Ctx \<times> 'ch) option" where
  "ax25_sendMsg fd msg s =
     (if rpt_cnt msg = 0 \<or> m_len msg = 0 then Some s
      else if length (m_info msg) < unat (m_len msg) \<or> length (rpt_lst msg) < unat (rpt_cnt msg) then None
      else
        do { s \<leftarrow> ax25_begin fd s;
             s \<leftarrow> ax25_sendCall fd (m_dst msg) False False s;
             s \<leftarrow> ax25_sendCall fd (m_src msg) False False s;
             s \<leftarrow> ax25_sendRpts fd msg 0 (take (unat (rpt_cnt msg)) (rpt_lst msg)) s;
             s \<leftarrow> ax25_putchar fd AX25_CTRL_UI s;
             s \<leftarrow> ax25_putchar fd AX25_PID_NOLAYER3 s;
             s \<leftarrow> ax25_putchars fd (take (unat (m_len msg)) (m_info msg)) s;
             s \<leftarrow> ax25_end fd s;
             ch \<leftarrow> k_flush fd (snd s);
             Some (stat_tx_ok (fst s), ch) })"

definition ax25_sendRaw :: "'ch KFile \<Rightarrow> bytes \<Rightarrow> AX25Ctx \<times> 'ch \<Rightarrow> (AX25Ctx \<times> 'ch) option" where
  "ax25_sendRaw fd buf s =
     do { s \<leftarrow> ax25_begin fd s;
          s \<leftarrow> ax25_putchars fd buf s;
          s \<leftarrow> ax25_end fd s;
          ch \<leftarrow> k_flush fd (snd s);
          Some (stat_tx_ok (fst s), ch) }"

section \<open>Printing\<close>

definition print_call :: "'ch KFile \<Rightarrow> AX25Call \<Rightarrow> 'ch \<Rightarrow> 'ch option" where
  "print_call fd c ch =
     do { ch \<leftarrow> kfile_printf fd (str ''%.6s'') [P (Some (call c))] ch;
          if ssid c \<noteq> 0 then kfile_printf fd (str ''-%d'') [W (ucast (ssid c))] ch else Some ch }"

fun ax25_print_rpts :: "'ch KFile \<Rightarrow> AX25Msg \<Rightarrow> nat \<Rightarrow> AX25Call list \<Rightarrow> 'ch \<Rightarrow> 'ch option" where
  "ax25_print_rpts fd msg i [] ch = Some ch"
| "ax25_print_rpts fd msg i (p # rpts) ch =
     do { (_, ch) \<leftarrow> kfile_putc fd (chr CHR '','') ch;
          ch \<leftarrow> print_call fd p ch;
          ch \<leftarrow> (if AX25_REPEATED msg i then do { (_, ch) \<leftarrow> kfile_putc fd (chr CHR ''*'') ch; Some ch }
                else Some ch);
          ax25_print_rpts fd msg (Suc i) rpts ch }"

definition ax25_print :: "'ch KFile \<Rightarrow> AX25Msg \<Rightarrow> 'ch \<Rightarrow> 'ch option" where
  "ax25_print fd msg ch =
     do { ch \<leftarrow> print_call fd (m_src msg) ch;
          (_, ch) \<leftarrow> kfile_putc fd (chr CHR ''>'') ch;
          ch \<leftarrow> print_call fd (m_dst msg) ch;
          ch \<leftarrow> ax25_print_rpts fd msg 0 (take (unat (rpt_cnt msg)) (rpt_lst msg)) ch;
          kfile_printf fd (str '':%.*s'' @ [10, 13]) [W (m_len msg), P (Some (m_info msg))] ch }"

end
