(* ===== verification/Ax25_Link.thy ===== *)
theory Ax25_Link
  imports Ax25
begin

text \<open>
  What the AX.25 layer does on a channel that keeps the promises of \<open>Kfile\<close>: the bytes the senders
  put on it, what the receiver makes of the bytes of a frame, and that decoding inverts the
  senders' encoding of addresses and payload.
\<close>

section \<open>What is sent\<close>

text \<open>The escaped form of bytes on the channel, and a complete frame with its check sequence.\<close>

definition ax25_escape :: "bytes \<Rightarrow> bytes" where
  "ax25_escape bs = concat (map (\<lambda>c. if hdlc_needs_esc c then [AX25_ESC, c] else [c]) bs)"

lemma ax25_escape_simps [simp]:
  "ax25_escape [] = []"
  "ax25_escape (c # bs) = (if hdlc_needs_esc c then [AX25_ESC, c] else [c]) @ ax25_escape bs"
  "ax25_escape (bs @ cs) = ax25_escape bs @ ax25_escape cs"
  by (simp_all add: ax25_escape_def)

definition with_fcs :: "bytes \<Rightarrow> bytes" where
  "with_fcs body = body @ fcs (crc_ccitt CRC_CCITT_INIT_VAL body)"

definition on_channel :: "bytes \<Rightarrow> bytes" where
  "on_channel body = [HDLC_FLAG] @ ax25_escape (with_fcs body) @ [HDLC_FLAG]"

lemma with_fcs_good: "crc_ccitt CRC_CCITT_INIT_VAL (with_fcs body) = AX25_CRC_CORRECT"
  unfolding with_fcs_def by (rule ccitt.sent_frame_good)

text \<open>Consecutive addresses, the last one marked; \<open>rep\<close> says which have the repeated bit.\<close>

fun rpt_bytes :: "(nat \<Rightarrow> bool) \<Rightarrow> nat \<Rightarrow> AX25Call list \<Rightarrow> bytes" where
  "rpt_bytes rep i [] = []"
| "rpt_bytes rep i (p # rpts) = ax25_call_bytes p (rpts = []) (rep i) @ rpt_bytes rep (Suc i) rpts"

abbreviation path_bytes :: "AX25Call list \<Rightarrow> bytes" where
  "path_bytes path \<equiv> rpt_bytes (\<lambda>i. False) 0 path"

lemma rpt_bytes_shift: "rpt_bytes (\<lambda>i. False) i path = rpt_bytes (\<lambda>i. False) j path"
  by (induction path arbitrary: i j) auto

definition via_body :: "AX25Call list \<Rightarrow> bytes \<Rightarrow> bytes" where
  "via_body path buf = path_bytes path @ [AX25_CTRL_UI, AX25_PID_NOLAYER3] @ buf"

definition msg_body :: "AX25Msg \<Rightarrow> bytes" where
  "msg_body msg =
     ax25_call_bytes (m_dst msg) False False @ ax25_call_bytes (m_src msg) False False @
     rpt_bytes (AX25_REPEATED msg) 0 (take (unat (rpt_cnt msg)) (rpt_lst msg)) @ [AX25_CTRL_UI, AX25_PID_NOLAYER3] @
     take (unat (m_len msg)) (m_info msg)"

context kfile_writer
begin

text \<open>\<open>puts op bs\<close>: \<open>op\<close> sends the bytes \<open>bs\<close> of a frame, escaped, and counts them in the checksum.\<close>

definition puts :: "(AX25Ctx \<times> 'ch \<Rightarrow> (AX25Ctx \<times> 'ch) option) \<Rightarrow> bytes \<Rightarrow> bool" where
  "puts op bs \<longleftrightarrow> (\<forall>ctx ch. ready ch \<longrightarrow> (\<exists>ch'.
     op (ctx, ch) = Some (ctx\<lparr>crc_out := crc_ccitt (crc_out ctx) bs\<rparr>, ch') \<and> ready ch' \<and>
     accepted ch' = accepted ch @ ax25_escape bs))"

lemma putsE:
  assumes "puts op bs" and "ready ch"
  obtains ch' where "op (ctx, ch) = Some (ctx\<lparr>crc_out := crc_ccitt (crc_out ctx) bs\<rparr>, ch')" "ready ch'"
    "accepted ch' = accepted ch @ ax25_escape bs"
  using assms unfolding puts_def by blast

lemma puts_bind: "puts f bs \<Longrightarrow> puts g cs \<Longrightarrow> puts (\<lambda>s. do { s \<leftarrow> f s; g s }) (bs @ cs)"
  unfolding puts_def
proof (intro allI impI)
  fix ctx ch
  assume f: "\<forall>ctx ch. ready ch \<longrightarrow> (\<exists>ch'. f (ctx, ch) =
      Some (ctx\<lparr>crc_out := crc_ccitt (crc_out ctx) bs\<rparr>, ch') \<and> ready ch' \<and>
      accepted ch' = accepted ch @ ax25_escape bs)"
    and g: "\<forall>ctx ch. ready ch \<longrightarrow> (\<exists>ch'. g (ctx, ch) =
      Some (ctx\<lparr>crc_out := crc_ccitt (crc_out ctx) cs\<rparr>, ch') \<and> ready ch' \<and>
      accepted ch' = accepted ch @ ax25_escape cs)"
    and r: "ready ch"
  obtain ch1 where 1: "f (ctx, ch) = Some (ctx\<lparr>crc_out := crc_ccitt (crc_out ctx) bs\<rparr>, ch1)" "ready ch1"
    "accepted ch1 = accepted ch @ ax25_escape bs" using f r by blast
  obtain ch2 where 2: "g (ctx\<lparr>crc_out := crc_ccitt (crc_out ctx) bs\<rparr>, ch1) =
      Some (ctx\<lparr>crc_out := crc_ccitt (crc_ccitt (crc_out ctx) bs) cs\<rparr>, ch2)" "ready ch2"
    "accepted ch2 = accepted ch1 @ ax25_escape cs"
    using g [rule_format, OF 1(2), of "ctx\<lparr>crc_out := crc_ccitt (crc_out ctx) bs\<rparr>"] by auto
  show "\<exists>ch'. do { s \<leftarrow> f (ctx, ch); g s } =
      Some (ctx\<lparr>crc_out := crc_ccitt (crc_out ctx) (bs @ cs)\<rparr>, ch') \<and> ready ch' \<and>
      accepted ch' = accepted ch @ ax25_escape (bs @ cs)"
    using 1 2 by (auto simp: crc_ccitt_append)
qed

lemma puts_char: "puts (ax25_putchar fd c) [c]"
  unfolding puts_def
proof (intro allI impI)
  fix ctx ch
  assume r: "ready ch"
  obtain ch1 where 1: "(if hdlc_needs_esc c then do { (_, ch) \<leftarrow> kfile_putc fd AX25_ESC ch; Some ch } else Some ch)
      = Some ch1" "ready ch1" "accepted ch1 = accepted ch @ (if hdlc_needs_esc c then [AX25_ESC] else [])"
    using putc_ok [OF r, of AX25_ESC] r by (cases "hdlc_needs_esc c") auto
  obtain ch2 where 2: "kfile_putc fd c ch1 = Some (Some c, ch2)" "ready ch2"
    "accepted ch2 = accepted ch1 @ [c]" using putc_ok [OF 1(2)] by blast
  show "\<exists>ch'. ax25_putchar fd c (ctx, ch) = Some (ctx\<lparr>crc_out := crc_ccitt (crc_out ctx) [c]\<rparr>, ch') \<and>
      ready ch' \<and> accepted ch' = accepted ch @ ax25_escape [c]"
    using 1 2 by (auto simp: ax25_putchar_def hdlc_needs_esc_def split: if_splits)
qed

lemma puts_chars: "puts (ax25_putchars fd cs) cs"
proof (induction cs)
  case Nil
  then show ?case by (simp add: puts_def)
next
  case (Cons c cs)
  from puts_bind [OF puts_char [of c] Cons] show ?case by (simp add: puts_def)
qed

lemma puts_call: "puts (ax25_sendCall fd a l r) (ax25_call_bytes a l r)"
  using puts_chars [of "ax25_call_bytes a l r"] by (simp add: puts_def ax25_sendCall_def)

lemma puts_path: "puts (ax25_sendPath fd path) (path_bytes path)"
proof (induction path)
  case Nil
  then show ?case by (simp add: puts_def)
next
  case (Cons p path)
  from puts_bind [OF puts_call [of p "path = []" False] Cons] show ?case
    by (simp add: puts_def rpt_bytes_shift [of "Suc 0" _ 0])
qed

lemma puts_rpts: "puts (ax25_sendRpts fd msg i rpts) (rpt_bytes (AX25_REPEATED msg) i rpts)"
proof (induction rpts arbitrary: i)
  case Nil
  then show ?case by (simp add: puts_def)
next
  case (Cons p rpts)
  from puts_bind [OF puts_call [of p "rpts = []" "AX25_REPEATED msg i"] Cons] show ?case
    by (simp add: puts_def)
qed

text \<open>A frame around any body; the checksum register ends at the value a receiver expects.\<close>

lemma frame_sent:
  assumes "puts op body" and "ready ch"
  shows "\<exists>ch'. do { s \<leftarrow> ax25_begin fd (ctx, ch); s \<leftarrow> op s; ax25_end fd s } =
      Some (ctx\<lparr>crc_out := AX25_CRC_CORRECT\<rparr>, ch') \<and> ready ch' \<and>
    accepted ch' = accepted ch @ on_channel body"
proof -
  obtain ch1 where 1: "kfile_putc fd HDLC_FLAG ch = Some (Some HDLC_FLAG, ch1)" "ready ch1"
    "accepted ch1 = accepted ch @ [HDLC_FLAG]" using putc_ok [OF assms(2)] by blast
  let ?c0 = "ctx\<lparr>crc_out := CRC_CCITT_INIT_VAL\<rparr>"
  let ?crc = "crc_ccitt CRC_CCITT_INIT_VAL body"
  let ?c1 = "ctx\<lparr>crc_out := ?crc\<rparr>"
  obtain ch2 where 2: "op (?c0, ch1) = Some (?c1, ch2)" "ready ch2"
    "accepted ch2 = accepted ch1 @ ax25_escape body"
    using assms(1) 1(2) by (rule putsE [where ctx = ?c0]) simp
  have "puts (\<lambda>s. do { s \<leftarrow> ax25_putchar fd (crcl ?crc) s; ax25_putchar fd (crch ?crc) s }) (fcs ?crc)"
    using puts_bind [OF puts_char [of "crcl ?crc"] puts_char [of "crch ?crc"]] by simp
  then obtain ch3 where "do { s \<leftarrow> ax25_putchar fd (crcl ?crc) (?c1, ch2); ax25_putchar fd (crch ?crc) s }
      = Some (?c1\<lparr>crc_out := crc_ccitt (crc_out ?c1) (fcs ?crc)\<rparr>, ch3)" "ready ch3"
    "accepted ch3 = accepted ch2 @ ax25_escape (fcs ?crc)"
    by (rule putsE [OF _ 2(2), where ctx = ?c1])
  moreover have "crc_ccitt (crc_out ?c1) (fcs ?crc) = AX25_CRC_CORRECT"
    using ccitt.trailer_good [of ?crc] by simp
  ultimately have 3: "do { s \<leftarrow> ax25_putchar fd (crcl ?crc) (?c1, ch2); ax25_putchar fd (crch ?crc) s }
      = Some (ctx\<lparr>crc_out := AX25_CRC_CORRECT\<rparr>, ch3)" "ready ch3"
    "accepted ch3 = accepted ch2 @ ax25_escape (fcs ?crc)"
    by (simp_all only:) simp_all
  obtain ch4 where 4: "kfile_putc fd HDLC_FLAG ch3 = Some (Some HDLC_FLAG, ch4)" "ready ch4"
    "accepted ch4 = accepted ch3 @ [HDLC_FLAG]" using putc_ok [OF 3(2)] by blast
  have "ax25_end fd (?c1, ch2) = Some (ctx\<lparr>crc_out := AX25_CRC_CORRECT\<rparr>, ch4)"
    using 3(1) 4(1) by (auto simp: ax25_end_def bind_eq_Some_conv)
  with 1 2 3 4 show ?thesis
    by (auto simp: ax25_begin_def on_channel_def with_fcs_def)
qed

lemma puts_via_body:
  "puts (\<lambda>s. do { s \<leftarrow> ax25_sendPath fd path s; s \<leftarrow> ax25_putchar fd AX25_CTRL_UI s;
     s \<leftarrow> ax25_putchar fd AX25_PID_NOLAYER3 s; ax25_putchars fd buf s }) (via_body path buf)"
  using puts_bind [OF puts_path [of path] puts_bind [OF puts_char [of AX25_CTRL_UI]
      puts_bind [OF puts_char [of AX25_PID_NOLAYER3] puts_chars [of buf]]]]
  by (simp add: via_body_def)

lemma sendVia_ok:
  assumes "ready ch"
  shows "\<exists>ch'. ax25_sendVia fd path buf (ctx, ch) =
      Some (stat_tx_ok (ctx\<lparr>crc_out := AX25_CRC_CORRECT\<rparr>), ch') \<and>
    ready ch' \<and> accepted ch' = accepted ch @ on_channel (via_body path buf)"
  using frame_sent [OF puts_via_body [of path buf] assms, of ctx]
  by (auto simp: ax25_sendVia_def bind_eq_Some_conv)

lemma puts_msg_body:
  "puts (\<lambda>s. do { s \<leftarrow> ax25_sendCall fd (m_dst msg) False False s;
     s \<leftarrow> ax25_sendCall fd (m_src msg) False False s;
     s \<leftarrow> ax25_sendRpts fd msg 0 (take (unat (rpt_cnt msg)) (rpt_lst msg)) s;
     s \<leftarrow> ax25_putchar fd AX25_CTRL_UI s; s \<leftarrow> ax25_putchar fd AX25_PID_NOLAYER3 s;
     ax25_putchars fd (take (unat (m_len msg)) (m_info msg)) s }) (msg_body msg)"
  using puts_bind [OF puts_call [of "m_dst msg" False False] puts_bind [OF puts_call [of "m_src msg" False False]
      puts_bind [OF puts_rpts [of msg 0 "take (unat (rpt_cnt msg)) (rpt_lst msg)"]
      puts_bind [OF puts_char [of AX25_CTRL_UI] puts_bind [OF puts_char [of AX25_PID_NOLAYER3]
      puts_chars [of "take (unat (m_len msg)) (m_info msg)"]]]]]]
  by (simp add: msg_body_def)

lemma sendMsg_empty:
  "rpt_cnt msg = 0 \<or> m_len msg = 0 \<Longrightarrow> ax25_sendMsg fd msg s = Some s"
  by (simp add: ax25_sendMsg_def)

end

text \<open>The two routines that also flush the channel.\<close>

context kfile_out
begin

lemma sendRaw_ok:
  assumes "ready ch"
  shows "\<exists>ch'. ax25_sendRaw fd buf (ctx, ch) = Some (stat_tx_ok (ctx\<lparr>crc_out := AX25_CRC_CORRECT\<rparr>), ch') \<and>
    ready ch' \<and> accepted ch' = accepted ch @ on_channel buf"
proof -
  obtain ch1 where 1: "do { s \<leftarrow> ax25_begin fd (ctx, ch); s \<leftarrow> ax25_putchars fd buf s; ax25_end fd s } =
      Some (ctx\<lparr>crc_out := AX25_CRC_CORRECT\<rparr>, ch1)" "ready ch1" "accepted ch1 = accepted ch @ on_channel buf"
    using frame_sent [OF puts_chars assms] by blast
  obtain ch2 where 2: "k_flush fd ch1 = Some ch2" "ready ch2" "accepted ch2 = accepted ch1"
    using flush_done [OF 1(2)] by blast
  with 1 show ?thesis by (auto simp: ax25_sendRaw_def bind_eq_Some_conv)
qed

lemma sendMsg_ok:
  assumes "ready ch" and "rpt_cnt msg \<noteq> 0" and "m_len msg \<noteq> 0"
    and "unat (m_len msg) \<le> length (m_info msg)" and "unat (rpt_cnt msg) \<le> length (rpt_lst msg)"
  shows "\<exists>ch'. ax25_sendMsg fd msg (ctx, ch) =
      Some (stat_tx_ok (ctx\<lparr>crc_out := AX25_CRC_CORRECT\<rparr>), ch') \<and>
    ready ch' \<and> accepted ch' = accepted ch @ on_channel (msg_body msg)"
proof -
  obtain ch1 where 1: "do { s \<leftarrow> ax25_begin fd (ctx, ch); s \<leftarrow> ax25_sendCall fd (m_dst msg) False False s;
     s \<leftarrow> ax25_sendCall fd (m_src msg) False False s;
     s \<leftarrow> ax25_sendRpts fd msg 0 (take (unat (rpt_cnt msg)) (rpt_lst msg)) s;
     s \<leftarrow> ax25_putchar fd AX25_CTRL_UI s; s \<leftarrow> ax25_putchar fd AX25_PID_NOLAYER3 s;
     s \<leftarrow> ax25_putchars fd (take (unat (m_len msg)) (m_info msg)) s; ax25_end fd s } =
      Some (ctx\<lparr>crc_out := AX25_CRC_CORRECT\<rparr>, ch1)" "ready ch1"
    "accepted ch1 = accepted ch @ on_channel (msg_body msg)"
    using frame_sent [OF puts_msg_body [of msg] assms(1), of ctx] by (auto simp: bind_eq_Some_conv)
  obtain ch2 where 2: "k_flush fd ch1 = Some ch2" "ready ch2" "accepted ch2 = accepted ch1"
    using flush_done [OF 1(2)] by blast
  have "ax25_sendMsg fd msg (ctx, ch) = Some (stat_tx_ok (ctx\<lparr>crc_out := AX25_CRC_CORRECT\<rparr>), ch2)"
    using 1(1) 2(1) assms(2-5) by (auto simp: ax25_sendMsg_def bind_eq_Some_conv)
  with 1(3) 2(2,3) show ?thesis by simp
qed

end

section \<open>What is received\<close>

text \<open>The loop body of \<^verbatim>\<open>ax25_poll\<close>, for the bytes of a list.\<close>

fun ax25_rx_chars ::
  "('ch, 'w) ax_hook option \<Rightarrow> AX25Msg \<Rightarrow> bytes \<Rightarrow> AX25Ctx \<times> 'ch \<times> 'w \<Rightarrow> (AX25Ctx \<times> 'ch \<times> 'w) option" where
  "ax25_rx_chars hook msg0 [] s = Some s"
| "ax25_rx_chars hook msg0 (c # cs) s =
     do { s \<leftarrow> ax25_rx_char hook msg0 c s; ax25_rx_chars hook msg0 cs s }"

lemma ax25_rx_chars_append:
  "ax25_rx_chars hook msg0 (cs @ ds) s =
     do { s \<leftarrow> ax25_rx_chars hook msg0 cs s; ax25_rx_chars hook msg0 ds s }"
proof (induction cs arbitrary: s)
  case (Cons c cs)
  then show ?case by (cases "ax25_rx_char hook msg0 c s") simp_all
qed simp

definition ax25_ctx_ok :: "AX25Ctx \<Rightarrow> bool" where
  "ax25_ctx_ok ctx \<longleftrightarrow> length (ax_buf ctx) = CONFIG_AX25_FRAME_BUF_LEN \<and> frm_len ctx \<le> CONFIG_AX25_FRAME_BUF_LEN"

text \<open>What storing the bytes of a frame does to the context.\<close>

definition same_link :: "AX25Ctx \<Rightarrow> AX25Ctx \<Rightarrow> bool" where
  "same_link ctx ctx' \<longleftrightarrow> escape ctx' = escape ctx \<and> sync ctx' = sync ctx \<and>
     pass_through ctx' = pass_through ctx \<and> stat ctx' = stat ctx \<and> crc_out ctx' = crc_out ctx"

lemma store_ok:
  assumes "frm_len ctx < CONFIG_AX25_FRAME_BUF_LEN" and "length (ax_buf ctx) = CONFIG_AX25_FRAME_BUF_LEN"
  shows "same_link ctx (ax25_store ctx c)" "frm_len (ax25_store ctx c) = Suc (frm_len ctx)"
    "crc_in (ax25_store ctx c) = updcrc_ccitt c (crc_in ctx)"
    "ax_buf (ax25_store ctx c) = (ax_buf ctx)[frm_len ctx := c]"
  using assms by (simp_all add: ax25_store_def same_link_def Let_def)

lemma rx_data_char:
  assumes "sync ctx" and "\<not> escape ctx" and "frm_len ctx < CONFIG_AX25_FRAME_BUF_LEN"
    and "length (ax_buf ctx) = CONFIG_AX25_FRAME_BUF_LEN"
  shows "ax25_rx_chars hook msg0 (ax25_escape [c]) (ctx, r) = Some (ax25_store ctx c, r)"
proof -
  have keep: "(ax25_store ctx c)\<lparr>escape := False\<rparr> = ax25_store ctx c"
    using store_ok(1) [OF assms(3,4), of c] assms(2)
    by (cases "ax25_store ctx c") (simp add: same_link_def)
  have esc: "(ax25_store (ctx\<lparr>escape := True\<rparr>) c)\<lparr>escape := False\<rparr> = ax25_store ctx c"
    using assms(2,3) by (cases ctx) (simp add: ax25_store_def Let_def)
  show ?thesis
    using assms keep esc by (auto simp: ax25_rx_char_def hdlc_needs_esc_def hdlc_consts)
qed

lemma rx_frame_bytes:
  assumes "sync ctx" and "\<not> escape ctx" and "length (ax_buf ctx) = CONFIG_AX25_FRAME_BUF_LEN"
    and "frm_len ctx + length bs \<le> CONFIG_AX25_FRAME_BUF_LEN"
  shows "\<exists>ctx'. ax25_rx_chars hook msg0 (ax25_escape bs) (ctx, r) = Some (ctx', r) \<and> same_link ctx ctx' \<and>
    frm_len ctx' = frm_len ctx + length bs \<and> crc_in ctx' = crc_ccitt (crc_in ctx) bs \<and>
    ax_buf ctx' = mem_write (ax_buf ctx) (frm_len ctx) bs"
  using assms
proof (induction bs arbitrary: ctx)
  case Nil
  then show ?case by (simp add: same_link_def mem_write_def)
next
  case (Cons c bs)
  let ?ctx1 = "ax25_store ctx c"
  have room: "frm_len ctx < CONFIG_AX25_FRAME_BUF_LEN" using Cons.prems(4) by simp
  note st = store_ok [OF room Cons.prems(3), of c]
  have "sync ?ctx1" "\<not> escape ?ctx1" "length (ax_buf ?ctx1) = CONFIG_AX25_FRAME_BUF_LEN"
    "frm_len ?ctx1 + length bs \<le> CONFIG_AX25_FRAME_BUF_LEN"
    using st Cons.prems by (simp_all add: same_link_def)
  from Cons.IH [OF this] obtain ctx' where
    *: "ax25_rx_chars hook msg0 (ax25_escape bs) (?ctx1, r) = Some (ctx', r)" "same_link ?ctx1 ctx'"
    "frm_len ctx' = frm_len ?ctx1 + length bs" "crc_in ctx' = crc_ccitt (crc_in ?ctx1) bs"
    "ax_buf ctx' = mem_write (ax_buf ?ctx1) (frm_len ?ctx1) bs" by blast
  have "ax25_rx_chars hook msg0 (ax25_escape ([c] @ bs)) (ctx, r) = Some (ctx', r)"
    unfolding ax25_escape_simps(3) ax25_rx_chars_append
    by (simp only: rx_data_char [OF Cons.prems(1,2) room Cons.prems(3)] *(1) Option.bind.simps)
  moreover have "mem_write ((ax_buf ctx)[frm_len ctx := c]) (Suc (frm_len ctx)) bs =
      mem_write (ax_buf ctx) (frm_len ctx) (c # bs)"
    using room Cons.prems(3) by (simp add: mem_write_def take_update_swap take_Suc_conv_app_nth upd_conv_take_nth_drop
        add.commute)
  ultimately show ?case
    using * st by (auto simp: same_link_def)
qed

text \<open>A whole frame between two flags. Up to the closing flag nothing but the context changes; then
  it is ignored, counted as an error, or handed on.\<close>

definition idle :: "AX25Ctx \<Rightarrow> bool" where
  "idle ctx \<longleftrightarrow> frm_len ctx < AX25_MIN_FRAME_LEN \<and> \<not> escape ctx \<and>
     length (ax_buf ctx) = CONFIG_AX25_FRAME_BUF_LEN \<and> \<not> pass_through ctx"

lemma rx_flag:
  "\<not> escape ctx \<Longrightarrow> ax25_rx_chars hook msg0 [HDLC_FLAG] (ctx, r) =
     do { (ctx, r) \<leftarrow> ax25_frame_end hook msg0 (ctx, r); Some (ax25_flag ctx, r) }"
  by (simp add: ax25_rx_char_def split_beta cong: Option.bind_cong)

lemma rx_frame:
  assumes "idle ctx" and "length fr \<le> CONFIG_AX25_FRAME_BUF_LEN"
  shows "\<exists>ctx1. (ax25_rx_chars hook msg0 ([HDLC_FLAG] @ ax25_escape fr @ [HDLC_FLAG]) (ctx, r) =
       do { (ctx, r) \<leftarrow> ax25_frame_end hook msg0 (ctx1, r); Some (ax25_flag ctx, r) }) \<and>
    frm_len ctx1 = length fr \<and>
    crc_in ctx1 = crc_ccitt CRC_CCITT_INIT_VAL fr \<and>
    take (length fr) (ax_buf ctx1) = fr \<and>
    length (ax_buf ctx1) = CONFIG_AX25_FRAME_BUF_LEN \<and>
    \<not> escape ctx1 \<and>
    \<not> pass_through ctx1 \<and>
    stat ctx1 = stat ctx \<and>
    crc_out ctx1 = crc_out ctx"
proof -
  let ?c0 = "ax25_flag ctx"
  have e: "\<not> escape ctx" using assms(1) by (simp add: idle_def)
  have 1: "ax25_rx_chars hook msg0 [HDLC_FLAG] (ctx, r) = Some (?c0, r)"
    using assms(1) unfolding rx_flag [OF e] by (simp add: ax25_frame_end_def idle_def)
  have c0: "sync ?c0" "\<not> escape ?c0" "length (ax_buf ?c0) = CONFIG_AX25_FRAME_BUF_LEN"
    "frm_len ?c0 + length fr \<le> CONFIG_AX25_FRAME_BUF_LEN"
    using assms by (simp_all add: ax25_flag_def idle_def)
  from rx_frame_bytes [OF c0, of hook msg0 r] obtain ctx1 where
    2: "ax25_rx_chars hook msg0 (ax25_escape fr) (?c0, r) = Some (ctx1, r)" "same_link ?c0 ctx1"
    "frm_len ctx1 = frm_len ?c0 + length fr" "crc_in ctx1 = crc_ccitt (crc_in ?c0) fr"
    "ax_buf ctx1 = mem_write (ax_buf ?c0) (frm_len ?c0) fr" by blast
  have e1: "\<not> escape ctx1" using 2(2) c0(2) by (simp add: same_link_def)
  have "ax25_rx_chars hook msg0 ([HDLC_FLAG] @ ax25_escape fr @ [HDLC_FLAG]) (ctx, r) =
      do { (ctx, r) \<leftarrow> ax25_frame_end hook msg0 (ctx1, r); Some (ax25_flag ctx, r) }"
    by (simp only: ax25_rx_chars_append 1 2(1) rx_flag [OF e1] Option.bind.simps)
  moreover have "take (length fr) (ax_buf ctx1) = fr" "length (ax_buf ctx1) = CONFIG_AX25_FRAME_BUF_LEN"
    using 2(5) assms by (simp_all add: ax25_flag_def mem_write_def idle_def)
  ultimately show ?thesis
    using 2(2-4) e1 assms(1) by (intro exI [of _ ctx1]) (simp add: ax25_flag_def same_link_def idle_def)
qed

section \<open>Decoding what was encoded\<close>

text \<open>Call signs as the program stores them: up to six printable upper case characters, NUL-padded,
  and an SSID of four bits.\<close>

definition call_char :: "u8 \<Rightarrow> bool" where
  "call_char c \<longleftrightarrow> 33 \<le> c \<and> c < 127 \<and> \<not> (97 \<le> c \<and> c \<le> 122)"

definition valid_call :: "AX25Call \<Rightarrow> bool" where
  "valid_call a \<longleftrightarrow> length (call a) = 6 \<and> list_all call_char (c_str (call a)) \<and>
     call a = c_str (call a) @ replicate (6 - c_strlen (call a)) 0 \<and> ssid a < 16"

lemma call_char_round: "call_char c \<Longrightarrow>
    drop_bit 1 (push_bit 1 (c_toupper c)) = c \<and> c \<noteq> 32 \<and> c \<noteq> 0"
proof -
  assume c: "call_char c"
  then have "c < 128" "c_toupper c = c" "c \<noteq> 32" "c \<noteq> 0"
    by (auto simp: call_char_def c_toupper_def word_less_nat_alt word_le_nat_alt)
  moreover have "drop_bit 1 (push_bit 1 c) = c" if "c < 128"
  proof -
    have "unat (push_bit 1 c) = 2 * unat c"
      using that by (simp add: push_bit_eq_mult unat_word_ariths word_less_nat_alt)
    then show ?thesis by (simp add: word_unat_eq_iff unat_drop_bit_eq drop_bit_eq_div unat_div)
  qed
  ultimately show ?thesis by simp
qed

lemma length_call_bytes [simp]: "length (call a) = 6 \<Longrightarrow> length (ax25_call_bytes a l r) = 7"
  by (simp add: ax25_call_bytes_def c_strlen_def c_str_def Let_def length_takeWhile_le min_def)

lemma call_bytes_decode:
  assumes "valid_call a" and "i < 6"
  shows "(let c = drop_bit 1 (ax25_call_bytes a l r ! i) in if c = chr CHR '' '' then 0 else c) = call a ! i"
proof -
  let ?n = "c_strlen (call a)"
  have n: "?n \<le> 6" using assms(1) length_takeWhile_le [of _ "call a"] by (simp add: valid_call_def c_strlen_def c_str_def)
  have six: "length (call a) = 6" using assms(1) by (simp add: valid_call_def)
  show ?thesis
  proof (cases "i < ?n")
    case True
    have c: "call a ! i = c_str (call a) ! i"
      using assms True by (subst valid_call_def [THEN iffD1, OF assms(1), THEN conjunct2, THEN conjunct2, THEN conjunct1])
        (simp add: nth_append c_strlen_def)
    have "call_char (call a ! i)"
      using assms(1) True unfolding c by (simp add: valid_call_def list_all_length c_strlen_def)
    then show ?thesis
      using call_char_round [of "call a ! i"] True n six
      by (simp add: ax25_call_bytes_def Let_def nth_append chr_def)
  next
    case False
    have "call a ! i = 0"
      using assms False six by (subst valid_call_def [THEN iffD1, OF assms(1), THEN conjunct2, THEN conjunct2, THEN conjunct1])
        (simp add: nth_append c_strlen_def)
    with False n six assms(2) show ?thesis
      by (simp add: ax25_call_bytes_def Let_def nth_append chr_def)
  qed
qed

definition ssid_byte :: "u8 \<Rightarrow> bool \<Rightarrow> bool \<Rightarrow> u8" where
  "ssid_byte s is_last repeated =
     (let b = 0x60 OR push_bit 1 s OR (if is_last then 0x01 else 0) in if repeated then b OR 0x80 else b)"

lemma less_16_cases: "(s :: u8) < 16 \<Longrightarrow> s \<in> {0, 1, 2, 3, 4, 5, 6, 7, 8, 9, 10, 11, 12, 13, 14, 15}"
proof -
  assume "s < 16"
  then have "unat s \<in> {..<16}" by (simp add: word_less_nat_alt)
  then have "word_of_nat (unat s) \<in> (word_of_nat ` {..<16} :: u8 set)" by (rule imageI)
  then have "s \<in> word_of_nat ` {..<16}" by simp
  then show ?thesis by (auto simp: lessThan_Suc numeral_eq_Suc)
qed

lemma ssid_byte_fields:
  assumes "s < 16"
  shows "ssid_byte s l r AND 0x01 = 0 \<longleftrightarrow> \<not> l" "drop_bit 1 (ssid_byte s l r) AND 0x0F = s"
    "ssid_byte s l r AND 0x80 \<noteq> 0 \<longleftrightarrow> r"
  using less_16_cases [OF assms] by (cases l; cases r; auto simp: ssid_byte_def)+

lemma call_bytes_ssid: "length (call a) = 6 \<Longrightarrow> ax25_call_bytes a l r ! 6 = ssid_byte (ssid a) l r"
  by (simp add: ax25_call_bytes_def ssid_byte_def Let_def nth_append c_strlen_def c_str_def
      length_takeWhile_le min_def)

text \<open>An address at an offset of the buffer.\<close>

definition call_at :: "bytes \<Rightarrow> nat \<Rightarrow> AX25Call \<Rightarrow> bool \<Rightarrow> bool \<Rightarrow> bool" where
  "call_at buf off a l r \<longleftrightarrow> off + 7 \<le> length buf \<and> take 7 (drop off buf) = ax25_call_bytes a l r"

lemma call_at_nth:
  assumes "call_at buf off a l r" and "i < 7"
  shows "buf ! (off + i) = ax25_call_bytes a l r ! i"
proof -
  have "off + 7 \<le> length buf" using assms(1) by (simp add: call_at_def)
  with assms(2) have "take 7 (drop off buf) ! i = buf ! (off + i)" by simp
  with assms(1) show ?thesis by (simp add: call_at_def)
qed

lemma call_at_decode:
  assumes "call_at buf off a l r" and "valid_call a"
  shows "DECODE_CALL buf off = call a" "drop_bit 1 (buf ! (off + 6)) AND 0x0F = ssid a"
    "buf ! (off + 6) AND 0x01 = 0 \<longleftrightarrow> \<not> l" "buf ! (off + 6) AND 0x80 \<noteq> 0 \<longleftrightarrow> r"
proof -
  have v: "length (call a) = 6" "ssid a < 16" using assms(2) by (simp_all add: valid_call_def)
  have "DECODE_CALL buf off ! i = call a ! i" if "i < 6" for i
    using that call_at_nth [OF assms(1), of i] call_bytes_decode [OF assms(2) that, of l r]
    by (auto simp: DECODE_CALL_def Let_def split: if_splits)
  then show "DECODE_CALL buf off = call a" using v by (intro nth_equalityI) (simp_all add: DECODE_CALL_def)
  have "buf ! (off + 6) = ssid_byte (ssid a) l r"
    using call_at_nth [OF assms(1), of 6] call_bytes_ssid [OF v(1)] by simp
  with ssid_byte_fields [OF v(2), of l r] show "drop_bit 1 (buf ! (off + 6)) AND 0x0F = ssid a"
    "buf ! (off + 6) AND 0x01 = 0 \<longleftrightarrow> \<not> l" "buf ! (off + 6) AND 0x80 \<noteq> 0 \<longleftrightarrow> r" by simp_all
qed

text \<open>A list of repeaters from an offset on, the last one marked, the flags given by \<open>rep\<close>.\<close>

fun rpts_at :: "bytes \<Rightarrow> nat \<Rightarrow> AX25Call list \<Rightarrow> (nat \<Rightarrow> bool) \<Rightarrow> nat \<Rightarrow> bool" where
  "rpts_at buf off [] rep i = True"
| "rpts_at buf off (a # as) rep i = (call_at buf off a (as = []) (rep i) \<and> rpts_at buf (off + 7) as rep (Suc i))"

definition flags_set :: "u8 \<Rightarrow> (nat \<Rightarrow> bool) \<Rightarrow> nat \<Rightarrow> bool" where
  "flags_set fl rep n \<longleftrightarrow> (\<forall>i<n. bit fl i \<longleftrightarrow> rep i)"

lemma REPEATED_bit: "AX25_REPEATED msg i \<longleftrightarrow> bit (rpt_flags msg) i"
  by (simp add: AX25_REPEATED_def push_bit_of_1 and_exp_eq_0_iff_not_bit)

lemma SET_REPEATED_bit: "i < 8 \<Longrightarrow> j < 8 \<Longrightarrow>
    bit (rpt_flags (AX25_SET_REPEATED msg i v)) j = (if j = i then v else bit (rpt_flags msg) j)"
  by (auto simp: AX25_SET_REPEATED_def bit_simps)

lemma SET_REPEATED_fields [simp]:
  "rpt_lst (AX25_SET_REPEATED msg i v) = rpt_lst msg" "rpt_cnt (AX25_SET_REPEATED msg i v) = rpt_cnt msg"
  "m_src (AX25_SET_REPEATED msg i v) = m_src msg" "m_dst (AX25_SET_REPEATED msg i v) = m_dst msg"
  by (simp_all add: AX25_SET_REPEATED_def)

lemma decode_rpts_ok:
  assumes "rpts_at buf (off + 1) as rep i" and "list_all valid_call as"
    and "unat (rpt_cnt msg) = i" and "i + length as \<le> 8" and "length (rpt_lst msg) = 8"
    and "flags_set (rpt_flags msg) rep i" and "buf ! off AND 0x01 = 0 \<longleftrightarrow> as \<noteq> []"
  shows "\<exists>msg'. ax25_decode_rpts buf off msg = (off + 7 * length as + 1, msg') \<and>
    unat (rpt_cnt msg') = i + length as \<and> take (i + length as) (rpt_lst msg') = take i (rpt_lst msg) @ as \<and>
    length (rpt_lst msg') = 8 \<and> flags_set (rpt_flags msg') rep (i + length as) \<and>
    m_src msg' = m_src msg \<and> m_dst msg' = m_dst msg"
  using assms
proof (induction as arbitrary: off msg i)
  case Nil
  then show ?case by (subst ax25_decode_rpts.simps) simp
next
  case (Cons a as)
  define msg1 where "msg1 = ax25_decode_rpt buf off msg"
  have at: "call_at buf (off + 1) a (as = []) (rep i)" and rest: "rpts_at buf ((off + 7) + 1) as rep (Suc i)"
    using Cons.prems(1) by (simp_all add: ac_simps)
  have v: "valid_call a" using Cons.prems(2) by simp
  note d = call_at_decode [OF at v]
  have eq: "\<lparr>call = call a, ssid = ssid a\<rparr> = a" by (cases a) simp
  have m1: "msg1 = (AX25_SET_REPEATED (msg\<lparr>rpt_lst := (rpt_lst msg)[i := a]\<rparr>) i (rep i))
      \<lparr>rpt_cnt := rpt_cnt msg + 1\<rparr>"
    using Cons.prems d by (simp add: ax25_decode_rpt_def Let_def msg1_def eq ac_simps)
  have step: "ax25_decode_rpts buf off msg = ax25_decode_rpts buf (off + 7) msg1"
    by (subst ax25_decode_rpts.simps) (use Cons.prems in \<open>simp add: msg1_def AX25_MAX_RPT_def\<close>)
  have cnt: "unat (rpt_cnt msg1) = Suc i"
    using Cons.prems(3,4) unat_suc_u8 [of "rpt_cnt msg"] by (simp add: m1)
  have fl: "flags_set (rpt_flags msg1) rep (Suc i)"
    using Cons.prems(4,6) by (auto simp: flags_set_def m1 SET_REPEATED_bit less_Suc_eq)
  have more: "buf ! (off + 7) AND 0x01 = 0 \<longleftrightarrow> as \<noteq> []" using d(3) by (simp add: ac_simps)
  have lst: "length (rpt_lst msg1) = 8" "take (Suc i) (rpt_lst msg1) = take i (rpt_lst msg) @ [a]"
    using Cons.prems(4,5) by (simp_all add: m1 take_Suc_conv_app_nth)
  from Cons.IH [OF rest _ cnt _ lst(1) fl more] Cons.prems(2,4) obtain msg' where
    "ax25_decode_rpts buf (off + 7) msg1 = (off + 7 + 7 * length as + 1, msg')"
    "unat (rpt_cnt msg') = Suc i + length as"
    "take (Suc i + length as) (rpt_lst msg') = take (Suc i) (rpt_lst msg1) @ as"
    "length (rpt_lst msg') = 8" "flags_set (rpt_flags msg') rep (Suc i + length as)"
    "m_src msg' = m_src msg1" "m_dst msg' = m_dst msg1" by auto
  with lst show ?case unfolding step by (auto simp: m1)
qed

text \<open>The frame of a message, and where its parts are in a buffer that begins with it.\<close>

definition frame_body :: "AX25Call \<Rightarrow> AX25Call \<Rightarrow> AX25Call list \<Rightarrow> (nat \<Rightarrow> bool) \<Rightarrow> bytes \<Rightarrow> bytes" where
  "frame_body dst src rpts rep info =
     ax25_call_bytes dst False False @ ax25_call_bytes src (rpts = []) False @ rpt_bytes rep 0 rpts @
     [AX25_CTRL_UI, AX25_PID_NOLAYER3] @ info"

lemma call_atI:
  assumes "take n buf = pre @ ax25_call_bytes a l r @ post" and "length (call a) = 6" and "off = length pre"
  shows "call_at buf off a l r"
proof -
  have buf: "buf = pre @ ax25_call_bytes a l r @ post @ drop n buf"
    using append_take_drop_id [of n buf] unfolding assms(1) by simp
  show ?thesis unfolding call_at_def assms(3) using assms(2) by (subst (1 2) buf) simp
qed

lemma length_rpt_bytes: "list_all valid_call as \<Longrightarrow> length (rpt_bytes rep i as) = 7 * length as"
  by (induction as arbitrary: i) (auto simp: valid_call_def)

lemma rpts_atI:
  "take n buf = pre @ rpt_bytes rep i as @ post \<Longrightarrow> list_all valid_call as \<Longrightarrow> off = length pre \<Longrightarrow>
   rpts_at buf off as rep i"
proof (induction as arbitrary: off pre i)
  case (Cons a as)
  have six: "length (call a) = 6" using Cons.prems(2) by (simp add: valid_call_def)
  have "call_at buf off a (as = []) (rep i)"
    using Cons.prems by (intro call_atI [of n buf pre _ _ _ "rpt_bytes rep (Suc i) as @ post"]) (simp_all add: six)
  moreover have "rpts_at buf (off + 7) as rep (Suc i)"
    using Cons.prems six
    by (intro Cons.IH [of "pre @ ax25_call_bytes a (as = []) (rep i)"]) simp_all
  ultimately show ?case by simp
qed simp

lemma decode_frame:
  assumes "take (length fr) (ax_buf ctx) = fr" and "frm_len ctx = length fr"
    and "fr = frame_body dst src rpts rep info @ [f1, f2]"
    and "valid_call dst" and "valid_call src" and "list_all valid_call rpts" and "length rpts \<le> 8"
    and "length (rpt_lst msg0) = 8" and "length fr < 65536"
  shows "\<exists>msg. ax25_decode_msg msg0 ctx = Some msg \<and> m_dst msg = dst \<and> m_src msg = src \<and>
    unat (rpt_cnt msg) = length rpts \<and> take (length rpts) (rpt_lst msg) = rpts \<and>
    length (rpt_lst msg) = 8 \<and> (\<forall>i<length rpts. AX25_REPEATED msg i \<longleftrightarrow> rep i) \<and>
    unat (m_len msg) = length info \<and> take (length info) (m_info msg) = info"
proof -
  let ?buf = "ax_buf ctx" and ?off = "14 + 7 * length rpts"
  have six: "length (call dst) = 6" "length (call src) = 6" using assms(4,5) by (simp_all add: valid_call_def)
  note len = length_rpt_bytes [OF assms(6), of rep 0] six
  note pre = assms(1) [unfolded assms(3) frame_body_def]
  have d: "call_at ?buf 0 dst False False"
    by (rule call_atI [OF _ six(1), of _ _ "[]"]) (use pre in simp_all)
  have s: "call_at ?buf 7 src (rpts = []) False"
    by (rule call_atI [OF _ six(2), of _ _ "ax25_call_bytes dst False False"]) (use pre six in simp_all)
  have r: "rpts_at ?buf (13 + 1) rpts rep 0"
    by (rule rpts_atI [OF _ assms(6), of _ _ "ax25_call_bytes dst False False @ ax25_call_bytes src (rpts = []) False"])
      (use pre six in simp_all)
  note dd = call_at_decode [OF d assms(4)] and ds = call_at_decode [OF s assms(5)]
  let ?m = "msg0\<lparr>m_dst := dst, m_src := src, rpt_cnt := 0\<rparr>"
  have more: "?buf ! 13 AND 0x01 = 0 \<longleftrightarrow> rpts \<noteq> []" using ds(3) by simp
  obtain msg where m: "ax25_decode_rpts ?buf 13 ?m = (?off, msg)"
    "unat (rpt_cnt msg) = length rpts" "take (length rpts) (rpt_lst msg) = rpts"
    "length (rpt_lst msg) = 8" "flags_set (rpt_flags msg) rep (length rpts)"
    "m_src msg = src" "m_dst msg = dst"
    using decode_rpts_ok [OF r assms(6), of ?m] assms(7,8) more by (auto simp: flags_set_def)
  have tail: "take (length fr) ?buf = (ax25_call_bytes dst False False @ ax25_call_bytes src (rpts = []) False @
      rpt_bytes rep 0 rpts) @ [AX25_CTRL_UI, AX25_PID_NOLAYER3] @ info @ [f1, f2]" (is "_ = ?a @ ?b")
    using pre assms(3) by (simp add: frame_body_def)
  have la: "length ?a = ?off" using len by simp
  have lf: "length fr = ?off + 4 + length info" using len by (simp add: assms(3) frame_body_def)
  have drop: "drop ?off ?buf = ?b @ drop (length fr) ?buf"
  proof -
    have "?buf = ?a @ ?b @ drop (length fr) ?buf"
      using append_take_drop_id [of "length fr" ?buf] unfolding tail by simp
    then have "drop (length ?a) ?buf = ?b @ drop (length fr) ?buf" by (metis append_eq_conv_conj)
    then show ?thesis by (simp only: la)
  qed
  then have "?off \<le> length ?buf" by (metis append_is_Nil_conv drop_all list.distinct(1) nat_le_linear)
  then have "?buf ! (?off + i) = (?b @ drop (length fr) ?buf) ! i" for i
    using nth_drop [of ?off ?buf i] drop by simp
  from this [of 0] this [of 1] have cp: "?buf ! ?off = AX25_CTRL_UI" "?buf ! (?off + 1) = AX25_PID_NOLAYER3"
    by simp_all
  have "drop (?off + 2) ?buf = drop 2 (drop ?off ?buf)" by simp
  then have inf: "take (length info) (drop (?off + 2) ?buf) = info" unfolding drop by simp
  have lenw: "unat (word_of_nat (frm_len ctx) - 2 - word_of_nat (?off + 2) :: u16) = length info"
  proof -
    have "word_of_nat (frm_len ctx) - 2 - word_of_nat (?off + 2) = (word_of_nat (length info) :: u16)"
      by (simp add: assms(2) lf)
    then show ?thesis using assms(9) lf by (simp add: unat_of_nat)
  qed
  have eqs: "\<lparr>call = call dst, ssid = ssid dst\<rparr> = dst" "\<lparr>call = call src, ssid = ssid src\<rparr> = src"
    by (cases dst, simp, cases src, simp)
  have b6: "drop_bit 1 (?buf ! 6) AND 0x0F = ssid dst" "drop_bit 1 (?buf ! 13) AND 0x0F = ssid src"
    using dd(2) ds(2) by simp_all
  show ?thesis
    unfolding ax25_decode_msg_def ax25_decode_addr_def Let_def dd(1) ds(1) b6 eqs
    using m cp inf lenw by (auto simp: REPEATED_bit flags_set_def)
qed

lemma via_body_frame: "via_body (dst # src # rpts) info = frame_body dst src rpts (\<lambda>i. False) info"
  by (simp add: via_body_def frame_body_def rpt_bytes_shift [of "Suc (Suc 0)" _ 0])

lemma msg_body_frame:
  "rpt_cnt msg \<noteq> 0 \<Longrightarrow> unat (rpt_cnt msg) \<le> length (rpt_lst msg) \<Longrightarrow>
   msg_body msg = frame_body (m_dst msg) (m_src msg) (take (unat (rpt_cnt msg)) (rpt_lst msg))
     (AX25_REPEATED msg) (take (unat (m_len msg)) (m_info msg))"
  by (cases "rpt_lst msg = []") (auto simp: msg_body_def frame_body_def unat_eq_0)

text \<open>\<open>carries msg dst src rpts rep info\<close>: what the hook is given.\<close>

definition carries ::
  "AX25Msg \<Rightarrow> AX25Call \<Rightarrow> AX25Call \<Rightarrow> AX25Call list \<Rightarrow> (nat \<Rightarrow> bool) \<Rightarrow> bytes \<Rightarrow> bool" where
  "carries msg dst src rpts rep info \<longleftrightarrow>
     m_dst msg = dst \<and> m_src msg = src \<and> unat (rpt_cnt msg) = length rpts \<and>
     take (length rpts) (rpt_lst msg) = rpts \<and> (\<forall>i<length rpts. AX25_REPEATED msg i \<longleftrightarrow> rep i) \<and>
     unat (m_len msg) = length info \<and> take (length info) (m_info msg) = info"

lemma rx_good_frame:
  assumes "idle ctx" and "16 \<le> length body" and "length body \<le> 328"
  shows "\<exists>ctx1. (ax25_rx_chars hook msg0 (on_channel body) (ctx, r) =
       do { (ctx, r) \<leftarrow> ax25_decode hook msg0 (ctx1, r); Some (ax25_flag ctx, r) }) \<and>
    frm_len ctx1 = length (with_fcs body) \<and>
    take (length (with_fcs body)) (ax_buf ctx1) = with_fcs body \<and>
    length (ax_buf ctx1) = CONFIG_AX25_FRAME_BUF_LEN \<and>
    stat ctx1 = (stat ctx)\<lparr>rx_ok := rx_ok (stat ctx) + 1\<rparr> \<and>
    \<not> escape ctx1 \<and>
    \<not> pass_through ctx1"
proof -
  have "length (with_fcs body) \<le> CONFIG_AX25_FRAME_BUF_LEN"
    using assms(3) by (simp add: with_fcs_def CONFIG_AX25_FRAME_BUF_LEN_def)
  from rx_frame [OF assms(1) this, of hook msg0 r] obtain ctx1 where
    1: "ax25_rx_chars hook msg0 ([HDLC_FLAG] @ ax25_escape (with_fcs body) @ [HDLC_FLAG]) (ctx, r) =
       do { (ctx, r) \<leftarrow> ax25_frame_end hook msg0 (ctx1, r); Some (ax25_flag ctx, r) }"
    "frm_len ctx1 = length (with_fcs body)" "crc_in ctx1 = AX25_CRC_CORRECT"
    "take (length (with_fcs body)) (ax_buf ctx1) = with_fcs body"
    "length (ax_buf ctx1) = CONFIG_AX25_FRAME_BUF_LEN"
    "\<not> escape ctx1" "\<not> pass_through ctx1" "stat ctx1 = stat ctx" by (auto simp only: with_fcs_good)
  have "ax25_frame_end hook msg0 (ctx1, r) = ax25_decode hook msg0 (stat_rx_ok ctx1, r)"
    using 1(2,3,7) assms(2)
    by (simp add: ax25_frame_end_def with_fcs_def AX25_MIN_FRAME_LEN_def stat_rx_ok_def)
  with 1 show ?thesis by (intro exI [of _ "stat_rx_ok ctx1"]) (simp add: on_channel_def stat_rx_ok_def)
qed

lemma length_frame_body:
  "valid_call dst \<Longrightarrow> valid_call src \<Longrightarrow> list_all valid_call rpts \<Longrightarrow>
   length (frame_body dst src rpts rep info) = 16 + 7 * length rpts + length info"
  by (simp add: frame_body_def length_rpt_bytes valid_call_def)

lemma rx_message:
  assumes "idle ctx" and "valid_call dst" and "valid_call src" and "list_all valid_call rpts"
    and "length rpts \<le> 8" and "7 * length rpts + length info \<le> 312" and "length (rpt_lst msg0) = 8"
  shows "\<exists>ctx1 msg. (ax25_rx_chars (Some h) msg0 (on_channel (frame_body dst src rpts rep info)) (ctx, r) =
       do { (ctx, r) \<leftarrow> h (Some msg) (ctx1, r); Some (ax25_flag ctx, r) }) \<and>
    carries msg dst src rpts rep info \<and>
    stat ctx1 = (stat ctx)\<lparr>rx_ok := rx_ok (stat ctx) + 1\<rparr> \<and>
    \<not> escape ctx1"
proof -
  let ?body = "frame_body dst src rpts rep info"
  note lb = length_frame_body [OF assms(2-4), of rep info]
  have l: "16 \<le> length ?body" "length ?body \<le> 328" using lb assms(6) by simp_all
  from rx_good_frame [OF assms(1) l, of "Some h" msg0 r] obtain ctx1 where
    1: "ax25_rx_chars (Some h) msg0 (on_channel ?body) (ctx, r) =
       do { (ctx, r) \<leftarrow> ax25_decode (Some h) msg0 (ctx1, r); Some (ax25_flag ctx, r) }"
    "frm_len ctx1 = length (with_fcs ?body)" "take (length (with_fcs ?body)) (ax_buf ctx1) = with_fcs ?body"
    "stat ctx1 = (stat ctx)\<lparr>rx_ok := rx_ok (stat ctx) + 1\<rparr>" "\<not> escape ctx1" by blast
  have "with_fcs ?body = ?body @ [crcl (crc_ccitt CRC_CCITT_INIT_VAL ?body), crch (crc_ccitt CRC_CCITT_INIT_VAL ?body)]"
    "length (with_fcs ?body) < 65536" using l by (simp_all add: with_fcs_def)
  from decode_frame [OF 1(3,2) this(1) assms(2-5,7) this(2)] obtain msg where
    "ax25_decode_msg msg0 ctx1 = Some msg" "carries msg dst src rpts rep info"
    by (auto simp: carries_def)
  with 1 show ?thesis by (intro exI [of _ ctx1] exI [of _ msg]) (simp add: ax25_decode_def)
qed

section \<open>Properties\<close>


lemma idle_init: "idle ax25_init"
  by (simp add: idle_def ax25_init_def ax25_consts)

definition example_call :: AX25Call where
  "example_call = \<lparr>call = [66, 82, 53, 0, 0, 0], ssid = 7\<rparr>"

lemma valid_example_call: "valid_call example_call"
proof -
  have "c_str (call example_call) = [66, 82, 53]" by (simp add: example_call_def c_str_def)
  moreover have "replicate (6 - 3) (0 :: u8) = [0, 0, 0]" by (simp add: numeral_eq_Suc)
  ultimately show ?thesis
    by (simp add: valid_call_def c_strlen_def call_char_def) (simp add: example_call_def)
qed

definition example_msg :: AX25Msg where
  "example_msg = \<lparr>m_src = example_call, m_dst = example_call, rpt_lst = replicate 8 example_call,
     rpt_cnt = 1, rpt_flags = 1, m_ctrl = 3, m_pid = 0xF0, m_info = [72, 105], m_len = 2\<rparr>"




text \<open>Out of sync, the bytes of a frame are ignored.\<close>

lemma rx_unsynced:
  "\<not> sync ctx \<Longrightarrow> \<not> escape ctx \<Longrightarrow> ax25_rx_chars hook msg0 (ax25_escape bs) (ctx, r) = Some (ctx, r)"
proof (induction bs)
  case (Cons c bs)
  have "ax25_rx_chars hook msg0 (ax25_escape [c]) (ctx, r) = Some (ctx, r)"
    using Cons.prems by (cases ctx) (auto simp: ax25_rx_char_def hdlc_needs_esc_def hdlc_consts)
  with Cons show ?case
    using ax25_rx_chars_append [of hook msg0 "ax25_escape [c]" "ax25_escape bs" "(ctx, r)"] by simp
qed simp

lemma rx_overrun_char:
  assumes "sync ctx" and "\<not> escape ctx" and "frm_len ctx = CONFIG_AX25_FRAME_BUF_LEN"
  shows "ax25_rx_chars hook msg0 (ax25_escape [c]) (ctx, r) =
    Some (stat_rx_err (ctx\<lparr>sync := False, dcd := False\<rparr>), r)"
  using assms by (cases ctx)
    (auto simp: ax25_rx_char_def hdlc_needs_esc_def hdlc_consts ax25_store_def stat_rx_err_def)



text \<open>
  An over-long frame never writes past the buffer and is not delivered: when more bytes than
  the buffer holds come between two flags, the receiver drops out of sync at the first byte that
  does not fit and ignores the rest; unless the 330 bytes kept happen to have a good checksum the
  hook is not called, and the frame is counted as two errors, one at the overrun and one at the flag.
\<close>

theorem overlong_frame_dropped:
  assumes "idle ctx" and "CONFIG_AX25_FRAME_BUF_LEN < length fr"
    and "crc_ccitt CRC_CCITT_INIT_VAL (take CONFIG_AX25_FRAME_BUF_LEN fr) \<noteq> AX25_CRC_CORRECT"
  shows "\<exists>ctx'. ax25_rx_chars hook msg0 ([HDLC_FLAG] @ ax25_escape fr @ [HDLC_FLAG]) (ctx, r) = Some (ctx', r) \<and>
    idle ctx' \<and> rx_ok (stat ctx') = rx_ok (stat ctx) \<and> rx_err (stat ctx') = rx_err (stat ctx) + 2"
proof -
  let ?n = "CONFIG_AX25_FRAME_BUF_LEN" and ?c0 = "ax25_flag ctx"
  have e: "\<not> escape ctx" using assms(1) by (simp add: idle_def)
  have 1: "ax25_rx_chars hook msg0 [HDLC_FLAG] (ctx, r) = Some (?c0, r)"
    using assms(1) unfolding rx_flag [OF e] by (simp add: ax25_frame_end_def idle_def)
  have c0: "sync ?c0" "\<not> escape ?c0" "length (ax_buf ?c0) = ?n" "frm_len ?c0 + length (take ?n fr) \<le> ?n"
    using assms by (simp_all add: ax25_flag_def idle_def)
  from rx_frame_bytes [OF c0, of hook msg0 r] obtain ctx1 where
    2: "ax25_rx_chars hook msg0 (ax25_escape (take ?n fr)) (?c0, r) = Some (ctx1, r)" "same_link ?c0 ctx1"
    "frm_len ctx1 = ?n" "crc_in ctx1 \<noteq> AX25_CRC_CORRECT"
    "ax_buf ctx1 = mem_write (ax_buf ?c0) (frm_len ?c0) (take ?n fr)"
    using assms(2,3) by (auto simp: ax25_flag_def)
  obtain c cs where fr: "fr = take ?n fr @ [c] @ cs"
    using assms(2) id_take_nth_drop [of ?n fr] by auto
  have s1: "sync ctx1" "\<not> escape ctx1" using 2(2) c0 by (simp_all add: same_link_def)
  let ?c2 = "stat_rx_err (ctx1\<lparr>sync := False, dcd := False\<rparr>)"
  have s2: "\<not> sync ?c2" "\<not> escape ?c2" using s1 by (simp_all add: stat_rx_err_def)
  have 4: "ax25_rx_chars hook msg0 [HDLC_FLAG] (?c2, r) = Some (ax25_flag (stat_rx_err ?c2), r)"
    using 2(3,4) unfolding rx_flag [OF s2(2)] by (simp add: ax25_frame_end_def stat_rx_err_def ax25_consts)
  have "ax25_rx_chars hook msg0 ([HDLC_FLAG] @ ax25_escape fr @ [HDLC_FLAG]) (ctx, r) =
      Some (ax25_flag (stat_rx_err ?c2), r)"
    by (subst fr) (simp only: ax25_rx_chars_append ax25_escape_simps(3) 1 2(1) 4
        rx_overrun_char [OF s1 2(3)] rx_unsynced [OF s2] Option.bind.simps)
  moreover have "length (ax_buf ctx1) = ?n" "\<not> pass_through ctx1" "stat ctx1 = stat ctx"
    using 2(2,5) assms(1,2) by (simp_all add: same_link_def ax25_flag_def idle_def mem_write_def)
  ultimately show ?thesis
    using s2 by (intro exI [of _ "ax25_flag (stat_rx_err ?c2)"])
      (simp add: idle_def ax25_flag_def stat_rx_err_def AX25_MIN_FRAME_LEN_def)
qed

theorem overlong_frame_dropped_witness:
  "\<exists>fr ctx'. length fr = 331 \<and>
    ax25_rx_chars None example_msg ([HDLC_FLAG] @ ax25_escape fr @ [HDLC_FLAG]) (ax25_init, (), ()) =
      Some (ctx', (), ()) \<and> rx_err (stat ctx') = 2"
proof -
  let ?s = "crc_ccitt CRC_CCITT_INIT_VAL (replicate 328 0)"
  let ?fr = "replicate 328 0 @ [0, crch ?s + 1] @ [0]"
  have "take CONFIG_AX25_FRAME_BUF_LEN ?fr = replicate 328 0 @ [0, crch ?s + 1]"
    by (simp add: CONFIG_AX25_FRAME_BUF_LEN_def)
  moreover have "crc_ccitt CRC_CCITT_INIT_VAL (replicate 328 0 @ [0, crch ?s + 1]) \<noteq> AX25_CRC_CORRECT"
    unfolding crc_ccitt_append fcs_residue_iff by simp
  ultimately have bad: "crc_ccitt CRC_CCITT_INIT_VAL (take CONFIG_AX25_FRAME_BUF_LEN ?fr) \<noteq> AX25_CRC_CORRECT"
    by (simp only:) simp
  have long: "CONFIG_AX25_FRAME_BUF_LEN < length ?fr" by (simp add: CONFIG_AX25_FRAME_BUF_LEN_def)
  from overlong_frame_dropped [OF idle_init long bad, of None example_msg "((), ())"] obtain ctx' where
    "ax25_rx_chars None example_msg ([HDLC_FLAG] @ ax25_escape ?fr @ [HDLC_FLAG]) (ax25_init, (), ()) =
      Some (ctx', (), ())" "rx_err (stat ctx') = 2" by (auto simp: ax25_init_def)
  then show ?thesis by (intro exI [of _ ?fr] exI [of _ ctx']) simp
qed

text \<open>How far decoding can read: nine more bytes than the largest address field.\<close>

lemma decode_rpts_off:
  "fst (ax25_decode_rpts buf off msg) = off + 7 * (unat (rpt_cnt (snd (ax25_decode_rpts buf off msg))) - unat (rpt_cnt msg)) + 1 \<and>
   unat (rpt_cnt msg) \<le> unat (rpt_cnt (snd (ax25_decode_rpts buf off msg))) \<and>
   (unat (rpt_cnt msg) \<le> 8 \<longrightarrow> unat (rpt_cnt (snd (ax25_decode_rpts buf off msg))) \<le> 8)"
proof (induction buf off msg rule: ax25_decode_rpts.induct)
  case (1 buf off msg)
  show ?case
  proof (cases "buf ! off AND 0x01 = 0 \<and> unat (rpt_cnt msg) < AX25_MAX_RPT")
    case False
    then show ?thesis by (subst (1 2 3 4) ax25_decode_rpts.simps) auto
  next
    case True
    then have step: "ax25_decode_rpts buf off msg = ax25_decode_rpts buf (off + 7) (ax25_decode_rpt buf off msg)"
      by (subst ax25_decode_rpts.simps) simp
    have "unat (rpt_cnt msg + 1) = Suc (unat (rpt_cnt msg))"
      using True by (simp add: unat_suc_u8 AX25_MAX_RPT_def)
    with 1 [OF True] True show ?thesis unfolding step by (auto simp: AX25_MAX_RPT_def)
  qed
qed

text \<open>Two buffers that agree on their first 72 bytes are decoded alike.\<close>

definition same_prefix :: "bytes \<Rightarrow> bytes \<Rightarrow> bool" where
  "same_prefix buf buf' \<longleftrightarrow> (\<forall>i<72. buf ! i = buf' ! i)"

lemma DECODE_CALL_cong:
  "\<forall>i<6. buf ! (off + i) = buf' ! (off + i) \<Longrightarrow> DECODE_CALL buf off = DECODE_CALL buf' off"
  unfolding DECODE_CALL_def by (rule map_cong) (auto simp: Let_def)

lemma decode_rpt_cong:
  "same_prefix buf buf' \<Longrightarrow> off + 7 < 72 \<Longrightarrow> ax25_decode_rpt buf off msg = ax25_decode_rpt buf' off msg"
  using DECODE_CALL_cong [of buf "off + 1" buf']
  unfolding ax25_decode_rpt_def Let_def same_prefix_def by simp

lemma decode_rpts_go:
  "buf ! off AND 0x01 = 0 \<and> unat (rpt_cnt msg) < AX25_MAX_RPT \<Longrightarrow>
   ax25_decode_rpts buf off msg = ax25_decode_rpts buf (off + 7) (ax25_decode_rpt buf off msg)"
  using ax25_decode_rpts.simps [of buf off msg] by (simp only: simp_thms if_True)

lemma decode_rpts_stop:
  "\<not> (buf ! off AND 0x01 = 0 \<and> unat (rpt_cnt msg) < AX25_MAX_RPT) \<Longrightarrow>
   ax25_decode_rpts buf off msg = (off + 1, msg)"
  using ax25_decode_rpts.simps [of buf off msg] by (simp only: if_False)

lemma decode_rpts_cong:
  "same_prefix buf buf' \<Longrightarrow> unat (rpt_cnt msg) \<le> 8 \<Longrightarrow> off + 7 * (8 - unat (rpt_cnt msg)) \<le> 69 \<Longrightarrow>
   ax25_decode_rpts buf off msg = ax25_decode_rpts buf' off msg"
proof (induction buf off msg rule: ax25_decode_rpts.induct)
  case (1 buf off msg)
  have same: "buf ! off = buf' ! off" using "1.prems" by (simp add: same_prefix_def)
  show ?case
  proof (cases "buf ! off AND 0x01 = 0 \<and> unat (rpt_cnt msg) < AX25_MAX_RPT")
    case False
    with same show ?thesis by (simp add: decode_rpts_stop)
  next
    case True
    let ?m = "ax25_decode_rpt buf off msg"
    have cnt: "unat (rpt_cnt ?m) = Suc (unat (rpt_cnt msg))" "unat (rpt_cnt msg) < 8"
      using True by (simp_all add: unat_suc_u8 AX25_MAX_RPT_def)
    have "ax25_decode_rpts buf (off + 7) ?m = ax25_decode_rpts buf' (off + 7) ?m"
      using cnt "1.prems" by (intro "1.IH" [OF True]) auto
    moreover have "?m = ax25_decode_rpt buf' off msg"
      using cnt(2) "1.prems" by (intro decode_rpt_cong) auto
    moreover have "buf' ! off AND 0x01 = 0 \<and> unat (rpt_cnt msg) < AX25_MAX_RPT" using True same by simp
    ultimately show ?thesis using True by (simp only: decode_rpts_go)
  qed
qed

lemma decode_addr_off:
  assumes "ax25_decode_addr msg0 buf = (off, msg)"
  shows "off = 14 + 7 * unat (rpt_cnt msg)" "unat (rpt_cnt msg) \<le> 8"
proof -
  obtain m where m: "ax25_decode_rpts buf 13 m = (off, msg)" "rpt_cnt m = 0"
    using assms by (auto simp: ax25_decode_addr_def)
  from decode_rpts_off [of buf 13 m] m show "off = 14 + 7 * unat (rpt_cnt msg)" "unat (rpt_cnt msg) \<le> 8"
    by auto
qed

lemma decode_addr_cong:
  assumes "same_prefix buf buf'"
  shows "ax25_decode_addr msg0 buf = ax25_decode_addr msg0 buf'"
proof -
  have "DECODE_CALL buf 0 = DECODE_CALL buf' 0" "DECODE_CALL buf 7 = DECODE_CALL buf' 7"
    "buf ! 6 = buf' ! 6" "buf ! 13 = buf' ! 13"
    using assms by (simp_all add: DECODE_CALL_cong same_prefix_def)
  then show ?thesis using decode_rpts_cong [OF assms] by (simp add: ax25_decode_addr_def)
qed

lemma decode_msg_off:
  assumes "ax25_decode_msg msg0 ctx = Some msg"
  shows "m_info msg = drop (16 + 7 * unat (rpt_cnt msg)) (ax_buf ctx)"
    "m_len msg = word_of_nat (frm_len ctx) - 2 - word_of_nat (16 + 7 * unat (rpt_cnt msg))"
    "unat (rpt_cnt msg) \<le> 8"
proof -
  obtain off msg' where d: "ax25_decode_addr msg0 (ax_buf ctx) = (off, msg')"
    by (cases "ax25_decode_addr msg0 (ax_buf ctx)")
  show "m_info msg = drop (16 + 7 * unat (rpt_cnt msg)) (ax_buf ctx)"
    "m_len msg = word_of_nat (frm_len ctx) - 2 - word_of_nat (16 + 7 * unat (rpt_cnt msg))"
    "unat (rpt_cnt msg) \<le> 8"
    using assms decode_addr_off [OF d] by (auto simp: ax25_decode_msg_def Let_def d split: if_splits)
qed

text \<open>
  Decoding never reads outside the frame buffer: whatever the buffer holds (the bytes of this
  frame and those left over from earlier ones), the decoded message depends on its first 72 bytes
  only, and has at most eight repeaters.
\<close>

theorem decode_reads_72_bytes:
  assumes "\<forall>i<72. buf ! i = buf' ! i"
  shows "map_option (m_info_update (\<lambda>_. [])) (ax25_decode_msg msg0 (ctx\<lparr>ax_buf := buf\<rparr>)) =
    map_option (m_info_update (\<lambda>_. [])) (ax25_decode_msg msg0 (ctx\<lparr>ax_buf := buf'\<rparr>))"
proof -
  have same: "same_prefix buf buf'" using assms by (simp add: same_prefix_def)
  obtain off msg where d: "ax25_decode_addr msg0 buf' = (off, msg)" by (cases "ax25_decode_addr msg0 buf'")
  have "buf ! off = buf' ! off" "buf ! Suc off = buf' ! Suc off"
    using assms decode_addr_off [OF d] by simp_all
  then show ?thesis
    by (simp add: ax25_decode_msg_def Let_def decode_addr_cong [OF same] d)
qed

theorem decode_reads_72_bytes_witness:
  "map_option m_len (map_option (m_info_update (\<lambda>_. []))
     (ax25_decode_msg example_msg (ax25_init\<lparr>ax_buf := replicate 330 1\<rparr>))) =
   map_option m_len (map_option (m_info_update (\<lambda>_. []))
     (ax25_decode_msg example_msg (ax25_init\<lparr>ax_buf := replicate 72 1 @ replicate 258 2\<rparr>)))"
proof -
  have "\<forall>i<72. (replicate 330 1 :: bytes) ! i = (replicate 72 1 @ replicate 258 2) ! i"
    by (simp add: nth_append)
  from decode_reads_72_bytes [OF this, of example_msg ax25_init] show ?thesis by simp
qed

text \<open>
  The payload length, in 16-bit arithmetic: for an accepted frame whose address field, control
  and protocol bytes and checksum fit into the frame it is the number of bytes in between; but if
  the address field runs on into what earlier frames left in the buffer, the subtraction wraps and
  the hook is given a length above 65000.
\<close>

theorem decode_length_wraps:
  assumes "ax25_decode_msg msg0 ctx = Some msg" and "18 \<le> frm_len ctx" and "frm_len ctx \<le> 330"
  shows "let hdr = 16 + 7 * unat (rpt_cnt msg)
         in if hdr + 2 \<le> frm_len ctx then unat (m_len msg) = frm_len ctx - 2 - hdr
            else 65000 < unat (m_len msg)"
proof -
  define hdr where "hdr = 16 + 7 * unat (rpt_cnt msg)"
  have d: "m_len msg = word_of_nat (frm_len ctx) - 2 - word_of_nat hdr" "hdr \<le> 72"
    using decode_msg_off [OF assms(1)] by (simp_all add: hdr_def)
  show ?thesis
  proof (cases "hdr + 2 \<le> frm_len ctx")
    case True
    then obtain n where n: "frm_len ctx = hdr + 2 + n" using le_iff_add by blast
    then have "m_len msg = word_of_nat n" unfolding d(1) by simp
    with n assms(3) have "unat (m_len msg) = frm_len ctx - 2 - hdr" by (simp add: unat_of_nat)
    with True show ?thesis unfolding hdr_def Let_def by simp
  next
    case False
    then obtain k where k: "frm_len ctx + k = hdr + 2" "0 < k" by (metis less_imp_add_positive not_le)
    then have "k \<le> 100" using assms(2) d(2) by simp
    have "m_len msg + word_of_nat k = word_of_nat (frm_len ctx + k) - word_of_nat (hdr + 2)"
      unfolding d(1) by simp
    also have "\<dots> = word_of_nat (65536 - k) + word_of_nat k"
      using k \<open>k \<le> 100\<close> of_nat_add [of "65536 - k" k, where 'a = u16] by simp
    finally have "m_len msg = word_of_nat (65536 - k)" by (rule add_right_imp_eq)
    with k \<open>k \<le> 100\<close> have "65000 < unat (m_len msg)" by (simp only: unat_of_nat) simp
    with False show ?thesis unfolding hdr_def Let_def by simp
  qed
qed

text \<open>The wrapped case occurs: a frame of 18 bytes, its address field continued by older bytes.\<close>

definition wrap_ctx :: AX25Ctx where
  "wrap_ctx = ax25_init\<lparr>ax_buf := replicate 20 0 @ [0x01, 0x03, 0xF0] @ replicate 307 0, frm_len := 18\<rparr>"

lemma wrap_ctx_decoded:
  "\<exists>msg. ax25_decode_msg example_msg wrap_ctx = Some msg \<and> rpt_cnt msg = 1"
proof -
  let ?buf = "replicate 20 0 @ [0x01, 0x03, 0xF0] @ replicate 307 0 :: bytes"
  have "\<exists>m. ax25_decode_addr example_msg ?buf = (21, m) \<and> rpt_cnt m = 1"
    by (simp add: ax25_decode_addr_def decode_rpts_go decode_rpts_stop nth_append AX25_MAX_RPT_def)
  then show ?thesis
    by (auto simp: ax25_decode_msg_def wrap_ctx_def nth_append ax25_consts)
qed

theorem decode_length_wraps_witness:
  "\<exists>msg. ax25_decode_msg example_msg wrap_ctx = Some msg \<and> frm_len wrap_ctx = 18 \<and> 65000 < unat (m_len msg)"
proof -
  obtain msg where m: "ax25_decode_msg example_msg wrap_ctx = Some msg" "rpt_cnt msg = 1"
    using wrap_ctx_decoded by blast
  have f: "frm_len wrap_ctx = 18" by (simp add: wrap_ctx_def)
  then have "18 \<le> frm_len wrap_ctx" "frm_len wrap_ctx \<le> 330" by simp_all
  from decode_length_wraps [OF m(1) this] m f show ?thesis by (simp add: Let_def)
qed

section \<open>Polling a channel\<close>

text \<open>
  A hook that returns and does not touch what waits on the channel: then \<^verbatim>\<open>ax25_poll\<close> returns, and it
  has consumed exactly what was waiting.
\<close>

locale ax25_receiver = kfile_in fd readable waiting
  for fd :: "'ch KFile" and readable :: "'ch \<Rightarrow> bool" and waiting :: "'ch \<Rightarrow> bytes" +
  fixes hook :: "('ch, 'w) ax_hook option" and good :: "'ch \<times> 'w \<Rightarrow> bool"
  assumes hook_returns: "hook = Some h \<Longrightarrow> readable ch \<Longrightarrow> good (ch, w) \<Longrightarrow>
      \<exists>ctx' ch' w'. h m (ctx, ch, w) = Some (ctx', ch', w') \<and> readable ch' \<and> waiting ch' = waiting ch \<and> good (ch', w')"
    and getc_good: "readable ch \<Longrightarrow> good (ch, w) \<Longrightarrow> good (snd (kfile_getc fd ch), w)"
begin

lemma rx_char_returns:
  assumes "readable ch" and "good (ch, w)"
  shows "\<exists>ctx' ch' w'. ax25_rx_char hook msg0 c (ctx, ch, w) = Some (ctx', ch', w') \<and> readable ch' \<and>
    waiting ch' = waiting ch \<and> good (ch', w')"
proof -
  have "\<exists>ctx' ch' w'. ax25_frame_end hook msg0 (ctx, ch, w) = Some (ctx', ch', w') \<and> readable ch' \<and>
      waiting ch' = waiting ch \<and> good (ch', w')"
  proof (cases hook)
    case None
    with assms show ?thesis by (auto simp: ax25_frame_end_def ax25_decode_def Let_def split: option.splits)
  next
    case (Some h)
    with assms hook_returns [OF Some] show ?thesis
      by (auto simp: ax25_frame_end_def ax25_decode_def Let_def split: option.splits)
  qed
  then show ?thesis using assms by (auto simp: ax25_rx_char_def)
qed

lemma poll_loop_returns:
  "readable ch \<Longrightarrow> good (ch, w) \<Longrightarrow>
   \<exists>ctx' ch' w'. ax25_poll_loop fd hook msg0 (ctx, ch, w) = Some (ctx', ch', w') \<and> readable ch' \<and>
     waiting ch' = [] \<and> good (ch', w')"
proof (induction "waiting ch" arbitrary: ctx ch w)
  case Nil
  obtain ch' where "kfile_getc fd ch = (None, ch')" "readable ch'" "waiting ch' = []"
    using getc_ok [OF Nil.prems(1)] Nil.hyps by (cases "kfile_getc fd ch") auto
  with getc_good [OF Nil.prems] show ?case by (subst ax25_poll_loop.simps) simp
next
  case (Cons c cs)
  obtain ch1 where 1: "kfile_getc fd ch = (Some c, ch1)" "readable ch1" "waiting ch1 = cs"
    using getc_ok [OF Cons.prems(1)] Cons.hyps(2) [symmetric] by (cases "kfile_getc fd ch") auto
  with getc_good [OF Cons.prems] have "good (ch1, w)" by simp
  from rx_char_returns [OF 1(2) this, of msg0 c ctx] obtain ctx2 ch2 w2 where
    2: "ax25_rx_char hook msg0 c (ctx, ch1, w) = Some (ctx2, ch2, w2)" "readable ch2"
    "waiting ch2 = waiting ch1" "good (ch2, w2)" by blast
  with Cons.hyps(1) [of ch2 w2] 1 show ?case by (subst ax25_poll_loop.simps) simp
qed

lemma poll_returns:
  assumes "readable ch" and "good (ch, w)"
  shows "\<exists>s'. ax25_poll fd hook msg0 (ctx, ch, w) = Some s'"
proof -
  obtain ctx' ch' w' where "ax25_poll_loop fd hook msg0 (ctx, ch, w) = Some (ctx', ch', w')"
    using poll_loop_returns [OF assms] by blast
  then show ?thesis by (simp add: ax25_poll_def Let_def)
qed

end

end
