(* ===== verification/Afsk_Stream.thy ===== *)
theory Afsk_Stream
  imports Afsk_Channel Ax25_Link
begin

text \<open>
  A whole transmission on the line, while it is being written: a frame can be longer than the FIFO, so the
  modulator already sends its beginning when the rest is written. The history \<open>tone_line\<close> of the bits on the line
  together with what is still pending stays the line code of everything written and to be written, at every interrupt
  and every write, as long as the FIFO does not run dry before the last byte.
\<close>

section \<open>What is pending\<close>

text \<open>The rest of the character being sent from bit \<open>i\<close> on, and the count of ones it leaves for the stuffing.\<close>

definition char_rest :: "Afsk \<Rightarrow> nat \<Rightarrow> nat \<Rightarrow> bool list \<times> nat" where
  "char_rest af i n =
     (let bs = drop i (byte_bits (curr_out af)) in if bit_stuff af then stuff_bits n bs else (bs, 0))"

definition plan_left :: "Afsk \<Rightarrow> bytes \<Rightarrow> line_char list" where
  "plan_left af fut =
     tx_plan (unat (preamble_len af)) (fifo_list (tx_fifo af) @ fut) (unat (trailer_len af))"

text \<open>The queue is in order: complete escapes, and the trailer is still whole while there is something before it.\<close>

definition queue_ok :: "Afsk \<Rightarrow> bytes \<Rightarrow> bool" where
  "queue_ok af fut \<longleftrightarrow> fifo_valid (tx_fifo af) \<and> escapes_complete (fifo_list (tx_fifo af) @ fut) \<and>
     (preamble_len af \<noteq> 0 \<or> fut \<noteq> [] \<longrightarrow> trailer_len af = TRAILER_CHARS)"

text \<open>The modulator at bit \<open>i\<close> of a character, with \<open>fut\<close> still to be written, on its way to \<open>line\<close>.\<close>

definition streams_at :: "nat \<Rightarrow> nat \<Rightarrow> Afsk \<Rightarrow> bytes \<Rightarrow> bool list \<Rightarrow> bool" where
  "streams_at i n af fut line \<longleftrightarrow>
     i \<le> 8 \<and> tx_bit af = 2 ^ i \<and> n \<le> 5 \<and> (bit_stuff af \<longrightarrow> stuff_cnt af = word_of_nat n) \<and> (\<not> bit_stuff af \<longrightarrow> n = 0) \<and>
     queue_ok af fut \<and>
     line = tone_line af @ fst (char_rest af i n) @ line_bits (snd (char_rest af i n)) (plan_left af fut)"

definition streams :: "Afsk \<Rightarrow> bytes \<Rightarrow> bool list \<Rightarrow> bool" where
  "streams af fut line \<longleftrightarrow> (\<exists>i n. streams_at i n af fut line)"

section \<open>One bit\<close>

lemma next_bit_line: "tone_line (afsk_next_bit af) = tone_line af @ [phase_inc (afsk_next_bit af) = phase_inc af]"
  by (simp add: afsk_next_bit_def Let_def)

lemma idle_left: "tx_idle_fields af af' \<Longrightarrow> plan_left af' fut = plan_left af fut"
  by (simp add: tx_idle_fields_def plan_left_def)

lemma queue_ok_idle: "tx_idle_fields af af' \<Longrightarrow> queue_ok af' fut = queue_ok af fut"
  by (simp add: tx_idle_fields_def queue_ok_def)

lemma char_rest_idle: "tx_idle_fields af af' \<Longrightarrow> char_rest af' i n = char_rest af i n"
  by (simp add: tx_idle_fields_def char_rest_def)

lemma rest_stuffed: "i < 8 \<Longrightarrow> bit_stuff af \<Longrightarrow> char_rest af i 5 = (False # fst (char_rest af i 0), snd (char_rest af i 0))"
  unfolding char_rest_def drop_byte_bits [of i "curr_out af"] by (simp add: split_beta Let_def)

lemma rest_data:
  assumes "i < 8" and "bit_stuff af \<Longrightarrow> n < 5"
  shows "char_rest af i n = (let m = (if bit_stuff af \<and> bit (curr_out af) i then Suc n else 0)
    in (bit (curr_out af) i # fst (char_rest af (Suc i) m), snd (char_rest af (Suc i) m)))"
  using assms(2) unfolding char_rest_def drop_byte_bits [OF assms(1), of "curr_out af"]
  by (cases "bit_stuff af") (simp_all add: split_beta Let_def)

lemma next_bit_streams:
  assumes "streams_at i n af fut line" and "i < 8"
  shows "streams (afsk_next_bit af) fut line"
proof (cases "bit_stuff af \<and> n = 5")
  case True
  have s: "5 \<le> stuff_cnt af" using assms(1) True by (simp add: streams_at_def)
  note b = next_bit_stuff [OF _ s]
  have "streams_at i 0 (afsk_next_bit af) fut line"
    using assms True b rest_stuffed [OF assms(2), of af] next_bit_line [of af] idle_left [OF b(4)] queue_ok_idle [OF b(4)] char_rest_idle [OF b(4)]
    by (auto simp: streams_at_def tx_idle_fields_def)
  then show ?thesis by (auto simp: streams_def)
next
  case False
  let ?m = "if bit_stuff af \<and> bit (curr_out af) i then Suc n else 0"
  have n: "bit_stuff af \<Longrightarrow> n < 5" using False assms(1) by (auto simp: streams_at_def)
  have "\<not> (bit_stuff af \<and> 5 \<le> stuff_cnt af)"
    using n assms(1) by (auto simp: streams_at_def word_le_nat_alt unat_of_nat)
  moreover have "tx_bit af = 2 ^ i" using assms(1) by (simp add: streams_at_def)
  ultimately have b: "phase_inc (afsk_next_bit af) = phase_inc af \<longleftrightarrow> bit (curr_out af) i"
    "stuff_cnt (afsk_next_bit af) = (if bit (curr_out af) i then stuff_cnt af + 1 else 0)"
    "tx_bit (afsk_next_bit af) = 2 ^ Suc i" "tx_idle_fields af (afsk_next_bit af)"
    by (rule next_bit_data)+
  have "streams_at (Suc i) ?m (afsk_next_bit af) fut line"
    using assms n b(1-3) rest_data [OF assms(2) n] next_bit_line [of af] idle_left [OF b(4)] queue_ok_idle [OF b(4)] char_rest_idle [OF b(4)] b(4)
    by (auto simp: streams_at_def tx_idle_fields_def Let_def)
  then show ?thesis by (auto simp: streams_def)
qed

section \<open>The next character\<close>

text \<open>The plan begins with the character the modulator fetches, if the FIFO has not run dry.\<close>

definition not_dry :: "Afsk \<Rightarrow> bytes \<Rightarrow> bool" where
  "not_dry af fut \<longleftrightarrow> fut = [] \<or> 2 \<le> length (fifo_list (tx_fifo af))"

lemma tx_plan_Suc: "tx_plan (Suc p) es t = Raw HDLC_FLAG # tx_plan p es t"
  by (simp add: tx_plan_def)

lemma tx_plan_byte: "c \<noteq> AX25_ESC \<Longrightarrow> tx_plan 0 (c # es) t = plain_char c # tx_plan 0 es t"
  by (cases es) (simp_all add: tx_plan_def)

lemma tx_plan_escaped: "tx_plan 0 (AX25_ESC # c # es) t = Data c # tx_plan 0 es t"
  by (simp add: tx_plan_def)

lemma tx_plan_trailer: "tx_plan 0 [] (Suc t) = Raw HDLC_FLAG # tx_plan 0 [] t"
  by (simp add: tx_plan_def)

lemma escapes_complete_Cons: "c \<noteq> AX25_ESC \<Longrightarrow> escapes_complete (c # es) = escapes_complete es"
  by (cases es) simp_all

lemma queued_left: "queued af p es t \<Longrightarrow> plan_left af fut = tx_plan p (es @ fut) t"
  by (simp add: queued_def plan_left_def)

lemma next_char_line: "afsk_next_char af = (True, af1) \<Longrightarrow> tone_line af1 = tone_line af"
  by (auto simp: afsk_next_char_def afsk_tx_pop_def Let_def split_beta split: if_splits)

lemma unat_11: "unat (w :: u16) = 11 \<longleftrightarrow> w = 11"
  by (simp add: word_unat_eq_iff)

lemma next_char_fetches:
  assumes q: "queued af p es t" and e: "escapes_complete (es @ fut)" and d: "fut = [] \<or> 2 \<le> length es"
    and t: "p \<noteq> 0 \<or> fut \<noteq> [] \<longrightarrow> t = 11" and p: "p \<noteq> 0 \<or> es \<noteq> [] \<or> t \<noteq> 0"
  shows "\<exists>af1 p' es' t'. afsk_next_char af = (True, af1) \<and> queued af1 p' es' t' \<and>
    tx_plan p (es @ fut) t = sent_char af1 # tx_plan p' (es' @ fut) t' \<and> escapes_complete (es' @ fut) \<and>
    (p' \<noteq> 0 \<or> fut \<noteq> [] \<longrightarrow> t' = 11)"
proof (cases p)
  case (Suc p0)
  with next_char_preamble [of af p0 es t] assms obtain af1 where
    "afsk_next_char af = (True, af1)" "sent_char af1 = Raw HDLC_FLAG" "queued af1 p0 es t" by auto
  with Suc e t show ?thesis by (intro exI [of _ af1] exI [of _ p0] exI [of _ es] exI [of _ t]) (simp add: tx_plan_Suc)
next
  case 0
  show ?thesis
  proof (cases es)
    case Nil
    with p 0 d obtain t0 where "t = Suc t0" "fut = []" by (cases t) auto
    with next_char_trailer [of af t0] q 0 Nil show ?thesis by (fastforce simp: tx_plan_trailer)
  next
    case (Cons c cs)
    show ?thesis
    proof (cases "c = AX25_ESC")
      case False
      with next_char_byte [of af c cs t] q 0 Cons e t show ?thesis
        by (fastforce simp: tx_plan_byte escapes_complete_Cons)
    next
      case True
      obtain x xs where x: "cs = x # xs" using e d Cons True by (cases cs; cases fut) auto
      with next_char_escaped [of af x xs t] q 0 Cons e t True show ?thesis by (fastforce simp: tx_plan_escaped)
    qed
  qed
qed

lemma next_char_streams:
  assumes "streams_at 8 n af fut line" and "not_dry af fut" and "plan_left af fut \<noteq> []"
  shows "\<exists>af1 m. afsk_next_char af = (True, af1) \<and> streams_at 0 m af1 fut line"
proof -
  let ?p = "unat (preamble_len af)" and ?es = "fifo_list (tx_fifo af)" and ?t = "unat (trailer_len af)"
  have q: "queued af ?p ?es ?t" using assms(1) by (simp add: queued_def streams_at_def queue_ok_def)
  have "?p \<noteq> 0 \<or> ?es \<noteq> [] \<or> ?t \<noteq> 0" using assms(2,3) by (auto simp: plan_left_def tx_plan_def not_dry_def)
  moreover have "?p \<noteq> 0 \<or> fut \<noteq> [] \<longrightarrow> ?t = 11"
    using assms(1) by (auto simp: streams_at_def queue_ok_def unat_eq_0)
  moreover have "escapes_complete (?es @ fut)" using assms(1) by (simp add: streams_at_def queue_ok_def)
  ultimately obtain af1 p' es' t' where 1: "afsk_next_char af = (True, af1)" "queued af1 p' es' t'"
      "tx_plan ?p (?es @ fut) ?t = sent_char af1 # tx_plan p' (es' @ fut) t'" "escapes_complete (es' @ fut)"
      "p' \<noteq> 0 \<or> fut \<noteq> [] \<longrightarrow> t' = 11"
    using next_char_fetches [OF q] assms(2) unfolding not_dry_def by blast
  let ?m = "if bit_stuff af1 then n else 0"
  have r: "char_rest af 8 n = ([], n)" using assms(1) by (simp add: char_rest_def streams_at_def byte_bits_def)
  have "line = tone_line af1 @ fst (char_rest af1 0 ?m) @ line_bits (snd (char_rest af1 0 ?m)) (plan_left af1 fut)"
    using assms(1) 1(3) next_char_line [OF 1(1)] queued_left [OF q] queued_left [OF 1(2)]
    by (simp add: streams_at_def r sent_char_def char_rest_def split_beta)
  moreover have "queue_ok af1 fut" using 1(2,4,5) by (auto simp: queue_ok_def queued_def unat_eq_0 unat_11)
  moreover have "stuff_cnt af1 = word_of_nat n" using next_char_fields(3) [OF 1(1)] assms(1) by (auto simp: streams_at_def)
  ultimately have "streams_at 0 ?m af1 fut line"
    using next_char_tx_bit [OF 1(1)] assms(1) by (simp add: streams_at_def)
  with 1(1) show ?thesis by blast
qed

section \<open>Interrupts and writes\<close>

lemma sample_streams: "streams af fut line \<Longrightarrow> streams (snd (afsk_sample af)) fut line"
  by (auto simp: streams_def streams_at_def afsk_sample_def char_rest_def plan_left_def queue_ok_def Let_def)

lemma streams_boundary:
  assumes "streams af fut line" and "tx_bit af = 0"
  obtains n where "streams_at 8 n af fut line"
proof -
  obtain i n where s: "streams_at i n af fut line" using assms(1) by (auto simp: streams_def)
  then have "i = 8" using assms(2) by (auto simp: streams_at_def exp_eq_zero_iff)
  with s that show thesis by blast
qed

lemma plan_left_Nil: "plan_left af fut = [] \<longleftrightarrow> preamble_len af = 0 \<and> fifo_list (tx_fifo af) = [] \<and> fut = [] \<and> trailer_len af = 0"
proof -
  have "tx_chars es = [] \<longleftrightarrow> es = []" for es by (cases es rule: tx_chars.cases) auto
  then show ?thesis by (auto simp: plan_left_def tx_plan_def unat_eq_0)
qed

lemma isr_streams:
  assumes "streams af fut line" and "not_dry af fut" and "plan_left af fut \<noteq> [] \<or> tx_bit af \<noteq> 0 \<or> sample_count af \<noteq> 0"
  shows "streams (snd (afsk_dac_isr af)) fut line \<and> sending (snd (afsk_dac_isr af)) = sending af"
proof (cases rule: dac_isr_cases [of af])
  case sample
  then show ?thesis using sample_streams [OF assms(1)] by (simp add: afsk_sample_def Let_def)
next
  case bit
  obtain i n where s: "streams_at i n af fut line" using assms(1) by (auto simp: streams_def)
  with bit(2) have "i < 8" by (auto simp: streams_at_def exp_eq_zero_iff)
  from sample_streams [OF next_bit_streams [OF s this]] bit(3) show ?thesis
    by (simp add: afsk_sample_def afsk_next_bit_def Let_def)
next
  case (char af1)
  obtain n where n: "streams_at 8 n af fut line" using streams_boundary [OF assms(1) char(2)] .
  from next_char_streams [OF n assms(2)] assms(3) char obtain m where m: "streams_at 0 m af1 fut line" by auto
  have "sending af1 = sending af" using char(3) by (auto simp: afsk_next_char_def Let_def split: if_splits)
  with sample_streams [OF next_bit_streams [OF m]] char(4) show ?thesis
    by (simp add: afsk_sample_def afsk_next_bit_def Let_def)
next
  case (stop af1)
  obtain n where "streams_at 8 n af fut line" using streams_boundary [OF assms(1) stop(2)] .
  from next_char_streams [OF this assms(2)] assms(3) stop show ?thesis by auto
qed

text \<open>The transmitter stands still, ready to start.\<close>

definition tx_rest :: "Afsk \<Rightarrow> bool" where
  "tx_rest af \<longleftrightarrow> \<not> sending af \<and> tx_bit af = 0 \<and> sample_count af = 0"

lemma isr_ends:
  assumes "streams af [] line" and "plan_left af [] = []" and "tx_bit af = 0" and "sample_count af = 0"
  shows "tone_line (snd (afsk_dac_isr af)) = line \<and> tx_rest (snd (afsk_dac_isr af))"
proof -
  obtain n where n: "streams_at 8 n af [] line" using streams_boundary [OF assms(1,3)] .
  have "queued af 0 [] 0" using assms(2) n by (simp add: queued_def streams_at_def queue_ok_def plan_left_Nil)
  from next_char_stop [OF this] assms(3,4) n assms(2) show ?thesis
    by (simp add: afsk_dac_isr_def afsk_bit_start_def streams_at_def char_rest_def byte_bits_def AFSK_DAC_IRQ_STOP_def tx_rest_def)
qed

lemma push_streams:
  assumes "streams af (c # fut) line" and "\<not> fifo_isfull (tx_fifo af)" and "sending af"
  shows "streams (afsk_txStart (af\<lparr>tx_fifo := fifo_push (tx_fifo af) c\<rparr>)) fut line"
proof -
  let ?af = "afsk_txStart (af\<lparr>tx_fifo := fifo_push (tx_fifo af) c\<rparr>)"
  obtain i n where s: "streams_at i n af (c # fut) line" using assms(1) by (auto simp: streams_def)
  then have v: "fifo_valid (tx_fifo af)" "trailer_len af = TRAILER_CHARS" by (simp_all add: streams_at_def queue_ok_def)
  have af: "?af = af\<lparr>tx_fifo := fifo_push (tx_fifo af) c, trailer_len := TRAILER_CHARS\<rparr>"
    using assms(3) by (simp add: afsk_txStart_def)
  have "streams_at i n ?af fut line"
    using s v assms(2) unfolding af
    by (simp add: streams_at_def queue_ok_def char_rest_def plan_left_def fifo.valid_push fifo.contents_push)
  then show ?thesis by (auto simp: streams_def)
qed

lemma start_streams:
  assumes "\<not> sending af" and "tx_bit af = 0" and "fifo_valid (tx_fifo af)" and "fifo_list (tx_fifo af) = []"
    and "\<not> fifo_isfull (tx_fifo af)" and "escapes_complete (c # fut)"
  shows "streams (afsk_txStart (af\<lparr>tx_fifo := fifo_push (tx_fifo af) c\<rparr>)) fut (tone_line af @ line_bits 0 (tx_plan 53 (c # fut) 11))"
proof -
  let ?af = "afsk_txStart (af\<lparr>tx_fifo := fifo_push (tx_fifo af) c\<rparr>)"
  have "streams_at 8 0 ?af fut (tone_line af @ line_bits 0 (tx_plan 53 (c # fut) 11))"
    using assms by (simp add: streams_at_def queue_ok_def afsk_txStart_def AFSK_DAC_IRQ_START_def char_rest_def plan_left_def
        byte_bits_def fifo.valid_push fifo.contents_push Let_def)
  then show ?thesis by (auto simp: streams_def)
qed

lemma full_length: "afsk_tx_ok af \<Longrightarrow> fifo_isfull (tx_fifo af) \<Longrightarrow> length (fifo_list (tx_fifo af)) = 63"
  using fifo.isfull_contents [of "tx_fifo af"] by (auto simp: afsk_tx_ok_def)

lemma tick_streams:
  assumes "afsk_tx_ok af" and "fifo_isfull (tx_fifo af)" and "streams af fut line"
  shows "streams (afsk_tx_tick af) fut line \<and> sending (afsk_tx_tick af)"
proof -
  have f: "length (fifo_list (tx_fifo af)) = 63" by (rule full_length) fact+
  then have "not_dry af fut" "plan_left af fut \<noteq> []" by (auto simp: not_dry_def plan_left_Nil)
  with isr_streams [OF assms(3)] full_sending [OF assms(1,2)] assms(1) show ?thesis
    by (simp add: afsk_tx_tick_def afsk_tx_ok_def)
qed

text \<open>
  A transmission that began in the state \<open>a0\<close>: at rest as long as nothing has been written, later on the way to
  the line code of what has been written and of any bytes to come.
\<close>

definition under_way :: "Afsk \<Rightarrow> Afsk \<Rightarrow> bool" where
  "under_way a0 af \<longleftrightarrow> afsk_tx_ok af \<and>
     (\<exists>es. sent af = sent a0 @ es \<and>
       (if es = [] then tx_rest af \<and> tone_line af = tone_line a0
        else sending af \<and> (\<forall>fut. escapes_complete (es @ fut) \<longrightarrow>
          streams af fut (tone_line a0 @ line_bits 0 (tx_plan 53 (es @ fut) 11)))))"

lemma escapes_completable: "\<exists>fut. escapes_complete (es @ fut)"
proof -
  have "escapes_complete es \<or> escapes_complete (es @ [0])"
    by (induction es rule: tx_chars.induct) (auto simp: hdlc_consts)
  then show ?thesis by (metis append_Nil2)
qed

lemma under_way_rest: "afsk_tx_ok a0 \<Longrightarrow> tx_rest a0 \<Longrightarrow> under_way a0 a0"
  by (simp add: under_way_def)

lemma under_way_waits:
  "under_way a0 af \<Longrightarrow> \<exists>af'. afsk_wait_room af = Some af' \<and> under_way a0 af' \<and> sent af' = sent af \<and> \<not> fifo_isfull (tx_fifo af')"
proof (induction "tx_work af" arbitrary: af rule: less_induct)
  case less
  have ok: "afsk_tx_ok af" using less.prems by (simp add: under_way_def)
  show ?case
  proof (cases "fifo_isfull (tx_fifo af)")
    case False
    with less.prems show ?thesis by (subst afsk_wait_room.simps) simp
  next
    case True
    note sn = full_sending [OF ok True]
    note t = tick_ok [OF ok sn]
    from less.prems sn obtain es where es: "sent af = sent a0 @ es" "es \<noteq> []"
      "\<And>fut. escapes_complete (es @ fut) \<Longrightarrow> streams af fut (tone_line a0 @ line_bits 0 (tx_plan 53 (es @ fut) 11))"
      by (auto simp: under_way_def tx_rest_def split: if_splits)
    have s: "sending (afsk_tx_tick af)"
      using escapes_completable [of es] es(3) tick_streams [OF ok True] by blast
    have "under_way a0 (afsk_tx_tick af)"
      using t(1,2) es s tick_streams [OF ok True] by (auto simp: under_way_def)
    from less.hyps [OF t(3) [OF s] this] True t(2) show ?thesis by (subst afsk_wait_room.simps) simp
  qed
qed

lemma under_way_push:
  assumes "under_way a0 af" and "\<not> fifo_isfull (tx_fifo af)"
  shows "under_way a0 (afsk_txStart (af\<lparr>tx_fifo := fifo_push (tx_fifo af) c\<rparr>))"
proof -
  let ?af = "afsk_txStart (af\<lparr>tx_fifo := fifo_push (tx_fifo af) c\<rparr>)"
  obtain es where es: "sent af = sent a0 @ es" "if es = [] then tx_rest af \<and> tone_line af = tone_line a0
      else sending af \<and> (\<forall>fut. escapes_complete (es @ fut) \<longrightarrow>
        streams af fut (tone_line a0 @ line_bits 0 (tx_plan 53 (es @ fut) 11)))"
    and ok: "afsk_tx_ok af" using assms(1) by (auto simp: under_way_def)
  have s: "sending ?af" by (simp add: afsk_txStart_def AFSK_DAC_IRQ_START_def Let_def)
  have "streams ?af fut (tone_line a0 @ line_bits 0 (tx_plan 53 ((es @ [c]) @ fut) 11))" if "escapes_complete ((es @ [c]) @ fut)" for fut
  proof (cases "es = []")
    case True
    with es(2) have r: "tx_rest af" "tone_line af = tone_line a0" by simp_all
    then have "fifo_list (tx_fifo af) = []" using ok by (auto simp: afsk_tx_ok_def tx_rest_def)
    with start_streams [of af c fut] r ok assms(2) that True show ?thesis by (simp add: afsk_tx_ok_def tx_rest_def)
  next
    case False
    with es(2) that push_streams [OF _ assms(2), of c fut] show ?thesis by simp
  qed
  with txStart_ok [OF ok assms(2), of c] es(1) s show ?thesis by (auto simp: under_way_def intro!: exI [of _ "es @ [c]"])
qed

lemma under_way_writes:
  "under_way a0 af \<Longrightarrow> \<exists>af'. afsk_write buf af = Some af' \<and> under_way a0 af' \<and> sent af' = sent af @ buf"
proof (induction buf arbitrary: af)
  case (Cons c buf)
  obtain af1 where 1: "afsk_wait_room af = Some af1" "under_way a0 af1" "sent af1 = sent af" "\<not> fifo_isfull (tx_fifo af1)"
    using under_way_waits [OF Cons.prems] by blast
  have "afsk_tx_ok af1" using 1(2) by (simp add: under_way_def)
  from txStart_ok [OF this 1(4), of c] Cons.IH [OF under_way_push [OF 1(2,4), of c]] 1(1,3) show ?case by force
qed simp

text \<open>Hence the modem is a channel to write on also for this finer promise, and a frame can be sent on it.\<close>

interpretation stream_out: kfile_writer afsk_fd "under_way a0" sent for a0
proof unfold_locales
  show "under_way a0 af \<Longrightarrow> \<exists>af'. k_write afsk_fd bs af = Some (length bs, af') \<and> under_way a0 af' \<and>
      sent af' = sent af @ bs" for af bs
    using under_way_writes [of a0 af bs] by (auto simp: afsk_fd_def)
qed

section \<open>The whole transmission\<close>

text \<open>Flushing sends all of it, and leaves the transmitter at rest.\<close>

lemma flush_streams:
  "afsk_tx_ok af \<Longrightarrow> sending af \<Longrightarrow> streams af [] line \<Longrightarrow>
   \<exists>af'. afsk_flush af = Some af' \<and> afsk_tx_ok af' \<and> sent af' = sent af \<and> tx_rest af' \<and> tone_line af' = line"
proof (induction "tx_work af" arbitrary: af rule: less_induct)
  case less
  note t = tick_ok [OF less.prems(1,2)]
  have tick: "afsk_tx_tick af = snd (afsk_dac_isr af)"
    using less.prems(1,2) by (simp add: afsk_tx_tick_def afsk_tx_ok_def)
  have step: "afsk_flush af = afsk_flush (afsk_tx_tick af)" using less.prems(2) by (subst afsk_flush.simps) simp
  show ?case
  proof (cases "plan_left af [] \<noteq> [] \<or> tx_bit af \<noteq> 0 \<or> sample_count af \<noteq> 0")
    case True
    from isr_streams [OF less.prems(3) _ this] less.prems(2) have
      s: "streams (afsk_tx_tick af) [] line" "sending (afsk_tx_tick af)" by (simp_all add: not_dry_def tick)
    from less.hyps [OF t(3) [OF s(2)] t(1) s(2,1)] t(2) show ?thesis unfolding step by simp
  next
    case False
    then have f: "plan_left af [] = []" "tx_bit af = 0" "sample_count af = 0" by auto
    from isr_ends [OF less.prems(3) f] t(1,2) show ?thesis
      unfolding step by (subst afsk_flush.simps) (simp add: tick tx_rest_def)
  qed
qed

lemma escapes_complete_append: "escapes_complete (ax25_escape bs @ es) = escapes_complete es"
proof (induction bs)
  case (Cons c bs)
  then show ?case by (cases "c = AX25_ESC") (auto simp: hdlc_needs_esc_def escapes_complete_Cons)
qed simp

lemma escapes_complete_on_channel: "escapes_complete (on_channel body)"
proof -
  have "HDLC_FLAG \<noteq> AX25_ESC" by (simp add: hdlc_consts)
  then show ?thesis by (simp add: on_channel_def escapes_complete_append escapes_complete_Cons)
qed

text \<open>A frame written by any of the routines above and flushed is on the line, between its flags.\<close>

lemma flush_on_line:
  assumes "under_way a0 af" and "sent af = sent a0 @ on_channel body"
  shows "\<exists>af'. afsk_flush af = Some af' \<and> afsk_tx_ok af' \<and> sent af' = sent af \<and> tx_rest af' \<and>
    tone_line af' = tone_line a0 @ line_bits 0 (tx_plan 53 (on_channel body) 11)"
proof (rule flush_streams)
  have "on_channel body \<noteq> []" by (simp add: on_channel_def)
  with assms have s: "sending af \<and> (\<forall>fut. escapes_complete (on_channel body @ fut) \<longrightarrow>
      streams af fut (tone_line a0 @ line_bits 0 (tx_plan 53 (on_channel body @ fut) 11)))"
    by (auto simp: under_way_def split: if_splits)
  then show "sending af" ..
  from s [THEN conjunct2, rule_format, of "[]"] escapes_complete_on_channel [of body]
  show "streams af [] (tone_line a0 @ line_bits 0 (tx_plan 53 (on_channel body) 11))" by simp
  show "afsk_tx_ok af" using assms(1) by (simp add: under_way_def)
qed

lemmas stream_sendVia_ok = kfile_writer.sendVia_ok [OF stream_out.kfile_writer_axioms]

lemma sendVia_on_line:
  assumes "afsk_tx_ok tx" and "tx_rest tx"
  shows "\<exists>tx' tx''. ax25_sendVia afsk_fd path buf (ctx, tx) =
      Some (stat_tx_ok (ctx\<lparr>crc_out := AX25_CRC_CORRECT\<rparr>), tx') \<and>
    afsk_flush tx' = Some tx'' \<and> afsk_tx_ok tx'' \<and> tx_rest tx'' \<and>
    tone_line tx'' = tone_line tx @ line_bits 0 (tx_plan 53 (on_channel (via_body path buf)) 11)"
proof -
  obtain tx' where 1: "ax25_sendVia afsk_fd path buf (ctx, tx) =
      Some (stat_tx_ok (ctx\<lparr>crc_out := AX25_CRC_CORRECT\<rparr>), tx')" "under_way tx tx'"
    "sent tx' = sent tx @ on_channel (via_body path buf)"
    using stream_sendVia_ok [OF under_way_rest [OF assms], of path buf ctx] by blast
  from flush_on_line [OF 1(2,3)] 1(1) show ?thesis by blast
qed

end
