(* ===== verification/Utils.thy ===== *)
theory Utils
  imports Ax25_Link
begin

text \<open>
  The helpers of \<^verbatim>\<open>TinyAPRS/utils.c\<close>: call signs to and from text, and the one-byte checksum of the
  settings block and of KISS configuration frames. Its loop counts in 8 bits against a 16-bit
  size, so it is modelled as a loop that may not end.
\<close>

section \<open>Call signs as text\<close>

text \<open>The bytes \<^verbatim>\<open>ax25call_to_string\<close> writes to \<^verbatim>\<open>buf\<close>, the terminator included; it returns their
  number.\<close>

definition ax25call_to_string :: "AX25Call \<Rightarrow> bytes" where
  "ax25call_to_string c =
     (let name = c_str (take 6 (call c));
          s = ssid c AND 0x7f;
          num = (if 0 < s then
                   chr CHR ''-'' #
                   (if s < 10 then [s + chr CHR ''0'']
                    else let d = s div 10 in [d + chr CHR ''0'', (s - d * 10) + chr CHR ''0''])
                 else []);
          rep = (if ssid c AND 0x80 \<noteq> 0 then [chr CHR ''*''] else [])
      in name @ num @ rep @ [0])"

text \<open>The scan of \<^verbatim>\<open>ax25call_from_string\<close>: \<open>i\<close> is the position in the text, \<open>state\<close> whether the dash
  has been seen.\<close>

fun from_string_scan :: "bytes \<Rightarrow> nat \<Rightarrow> bool \<Rightarrow> AX25Call \<Rightarrow> AX25Call" where
  "from_string_scan [] i state c = c"
| "from_string_scan (ch # cs) i state c =
     (if \<not> state then
        (if ch = chr CHR ''-'' then from_string_scan cs (Suc i) True c
         else if 6 \<le> i then from_string_scan cs (Suc i) False c
         else from_string_scan cs (Suc i) False (c\<lparr>call := (call c)[i := c_toupper ch]\<rparr>))
      else
        from_string_scan cs (Suc i) True
          (if c_isdigit ch then c\<lparr>ssid := ssid c * 10 + (ch - chr CHR ''0'')\<rparr> else c))"

definition ax25call_from_string :: "bytes \<Rightarrow> AX25Call" where
  "ax25call_from_string buf =
     from_string_scan (take (c_strlen buf mod 256) buf) 0 False \<lparr>call = replicate 6 0, ssid = 0\<rparr>"

definition kfile_print_P :: "'ch KFile \<Rightarrow> bytes \<Rightarrow> 'ch \<Rightarrow> (bool \<times> 'ch) option" where
  "kfile_print_P fd s ch = kfile_print fd s ch"

section \<open>The checksum\<close>

partial_function (option) calc_crc_loop :: "bytes \<Rightarrow> u16 \<Rightarrow> u8 \<Rightarrow> u8 \<Rightarrow> u8 option" where
  "calc_crc_loop data sz i s =
     (if ucast i < sz then
        if unat i < length data then calc_crc_loop data sz (i + 1) (s + data ! unat i) else None
      else Some (NOT s))"

definition calc_crc :: "bytes \<Rightarrow> u16 \<Rightarrow> u8 option" where
  "calc_crc data sz = calc_crc_loop data sz 0 0"

definition checksum :: "bytes \<Rightarrow> u8" where
  "checksum data = NOT (sum_list data)"

lemma unat_ucast_u16: "unat (ucast (i :: u8) :: u16) = unat i"
proof -
  have "uint (ucast i :: u16) = uint i" by (rule uint_up_ucast) (simp add: is_up)
  then show ?thesis by (simp only: unat_eq_nat_uint)
qed

lemma calc_crc_loop_done:
  "unat sz \<le> length data \<Longrightarrow> unat sz \<le> 255 \<Longrightarrow> unat i \<le> unat sz \<Longrightarrow>
   calc_crc_loop data sz i s = Some (NOT (s + sum_list (drop (unat i) (take (unat sz) data))))"
proof (induction "unat sz - unat i" arbitrary: i s)
  case 0
  then have "\<not> ucast i < sz" by (simp add: word_less_nat_alt unat_ucast_u16)
  with 0 show ?case by (subst calc_crc_loop.simps) simp
next
  case (Suc n)
  then have lt: "unat i < unat sz" by simp
  then have c: "ucast i < sz" by (simp add: word_less_nat_alt unat_ucast_u16)
  have inc: "unat (i + 1) = Suc (unat i)" using lt Suc.prems(2) by (intro unat_suc_u8) simp
  have "drop (unat i) (take (unat sz) data) = data ! unat i # drop (Suc (unat i)) (take (unat sz) data)"
    using lt Suc.prems(1) by (subst Cons_nth_drop_Suc [symmetric]) simp_all
  with Suc.hyps(1) [of "i + 1" "s + data ! unat i"] Suc.hyps(2) Suc.prems inc lt c show ?case
    by (subst calc_crc_loop.simps) (simp add: add.assoc)
qed

lemma calc_crc_checksum:
  "unat sz \<le> length data \<Longrightarrow> unat sz \<le> 255 \<Longrightarrow> calc_crc data sz = Some (checksum (take (unat sz) data))"
  by (simp add: calc_crc_def calc_crc_loop_done checksum_def)

lemma calc_crc_loop_small: "calc_crc_loop data sz i s = Some r \<Longrightarrow> unat sz \<le> 255"
proof -
  assume "calc_crc_loop data sz i s = Some r"
  then show ?thesis
  proof (rule calc_crc_loop.raw_induct [rotated])
    fix f data sz i s r
    assume ih: "\<And>data sz i s r. f data sz i s = Some r \<Longrightarrow> unat (sz :: u16) \<le> 255"
      and eq: "(if ucast (i :: u8) < sz then
        if unat i < length data then f data sz (i + 1) (s + data ! unat i) else None else Some (NOT s)) = Some r"
    show "unat sz \<le> 255"
    proof (cases "ucast i < sz")
      case False
      then have "unat sz \<le> unat i" by (simp add: word_less_nat_alt unat_ucast_u16)
      moreover have "unat i < 256" by simp
      ultimately show ?thesis by linarith
    qed (use eq ih in \<open>auto split: if_splits\<close>)
  qed
qed

section \<open>Properties\<close>

text \<open>
  \<^verbatim>\<open>calc_crc\<close> terminates exactly for blocks of at most 255 bytes, and is then the complement of
  the sum of the bytes; for 256 bytes or more its 8-bit counter never reaches the size and the loop
  does not end.
\<close>

theorem calc_crc_terminates_iff:
  assumes "unat sz \<le> length data"
  shows "calc_crc data sz = (if unat sz \<le> 255 then Some (checksum (take (unat sz) data)) else None)"
proof (cases "unat sz \<le> 255")
  case True
  with assms show ?thesis using calc_crc_loop_done [of sz data 0 0] by (simp add: calc_crc_def checksum_def)
next
  case False
  then have "calc_crc_loop data sz 0 0 = None"
    using calc_crc_loop_small [of data sz 0 0] by (cases "calc_crc_loop data sz 0 0") auto
  with False show ?thesis by (simp add: calc_crc_def)
qed

theorem calc_crc_terminates_iff_witness:
  "calc_crc (replicate 300 1) 300 = None \<and> calc_crc [1, 2] 2 = Some 0xFC"
  using calc_crc_terminates_iff [of 300 "replicate 300 1"] calc_crc_terminates_iff [of 2 "[1, 2]"]
  by (simp add: checksum_def)

section \<open>Reading back a printed call sign\<close>

lemma scan_name:
  "chr CHR ''-'' \<notin> set name \<Longrightarrow> i + length name \<le> 6 \<Longrightarrow> length (call c) = 6 \<Longrightarrow>
   from_string_scan (name @ rest) i False c =
   from_string_scan rest (i + length name) False (c\<lparr>call := mem_write (call c) i (map c_toupper name)\<rparr>)"
proof (induction name arbitrary: i c)
  case Nil
  then show ?case by (simp add: mem_write_def)
next
  case (Cons ch name)
  have "mem_write ((call c)[i := c_toupper ch]) (Suc i) (map c_toupper name) =
      mem_write (call c) i (map c_toupper (ch # name))"
    using Cons.prems by (simp add: mem_write_def take_update_swap take_Suc_conv_app_nth upd_conv_take_nth_drop add.commute)
  with Cons show ?case by auto
qed

lemma chr_dash_0: "chr CHR ''-'' = 45" "chr CHR ''0'' = 48"
  by (simp_all add: chr_def)

definition ssid_text :: "u8 \<Rightarrow> bytes" where
  "ssid_text s = (if 0 < s then chr CHR ''-'' #
     (if s < 10 then [s + chr CHR ''0''] else [s div 10 + chr CHR ''0'', (s - s div 10 * 10) + chr CHR ''0''])
     else [])"

lemma scan_ssid: "s < 16 \<Longrightarrow> from_string_scan (ssid_text s) i False \<lparr>call = n, ssid = 0\<rparr> = \<lparr>call = n, ssid = s\<rparr>"
  unfolding ssid_text_def chr_dash_0
  by (drule less_16_cases) (elim insertE emptyE; simp add: chr_dash_0 c_isdigit_def)

lemma ssid_text_no_nul: "s < 16 \<Longrightarrow> 0 \<notin> set (ssid_text s) \<and> length (ssid_text s) \<le> 3"
  unfolding ssid_text_def chr_dash_0 by (drule less_16_cases) (elim insertE emptyE; simp)

lemma ssid_low: "(s :: u8) < 16 \<Longrightarrow> s AND 0x7f = s \<and> s AND 0x80 = 0"
  by (drule less_16_cases) auto

lemma call_char_upper: "call_char c \<Longrightarrow> c_toupper c = c"
  by (simp add: call_char_def c_toupper_def)

text \<open>
  Printing a call sign and reading it back gives the same call sign: for every NUL-padded name
  of printable upper case characters without a dash and every SSID of four bits,
  \<^verbatim>\<open>ax25call_from_string\<close> inverts \<^verbatim>\<open>ax25call_to_string\<close>.
\<close>

lemma call_string_roundtrip:
  assumes "valid_call c" and "chr CHR ''-'' \<notin> set (call c)"
  shows "ax25call_from_string (ax25call_to_string c) = c"
proof -
  let ?name = "c_str (call c)" and ?s = "ssid c"
  have v: "length (call c) = 6" "list_all call_char ?name" "call c = ?name @ replicate (6 - length ?name) 0" "?s < 16"
    using assms(1) by (auto simp: valid_call_def c_strlen_def)
  have n: "length ?name \<le> 6" using v(1) length_takeWhile_le [of _ "call c"] by (simp add: c_str_def)
  have nn: "0 \<notin> set ?name" by (auto simp: c_str_def dest: set_takeWhileD)
  let ?t = "?name @ ssid_text ?s"
  have str: "ax25call_to_string c = ?t @ [0]"
    using ssid_low [OF v(4)] v(1) by (simp add: ax25call_to_string_def ssid_text_def Let_def)
  have "c_str (?t @ [0]) = ?t"
    using nn ssid_text_no_nul [OF v(4)] by (intro c_str_append_nul) auto
  moreover have "length ?t < 256" using n ssid_text_no_nul [OF v(4)] by simp
  ultimately have scan: "ax25call_from_string (ax25call_to_string c) =
      from_string_scan (?name @ ssid_text ?s) 0 False \<lparr>call = replicate 6 0, ssid = 0\<rparr>"
    by (simp add: ax25call_from_string_def str c_strlen_def)
  have up: "map c_toupper ?name = ?name"
    using v(2) by (intro map_idI) (auto simp: list_all_iff call_char_upper)
  have dash: "chr CHR ''-'' \<notin> set ?name" using assms(2) by (auto simp: c_str_def dest: set_takeWhileD)
  have "mem_write (replicate 6 0) 0 ?name = call c"
    using v(3) n by (simp add: mem_write_def)
  then have "from_string_scan (?name @ ssid_text ?s) 0 False \<lparr>call = replicate 6 0, ssid = 0\<rparr> =
      from_string_scan (ssid_text ?s) (length ?name) False \<lparr>call = call c, ssid = 0\<rparr>"
    using scan_name [OF dash, of 0 "\<lparr>call = replicate 6 0, ssid = 0\<rparr>" "ssid_text ?s"] n up by simp
  then show ?thesis using scan scan_ssid [OF v(4)] by (cases c) simp
qed

text \<open>
  The text of a call sign fits the ten-byte buffers of its callers while the top bit of the
  SSID byte is clear; with it set, which the text \<^verbatim>\<open>ABCDEF-138\<close> achieves, eleven bytes are written.
\<close>

lemma call_string_length:
  "length (ax25call_to_string c) \<le> (if ssid c < 128 then 10 else 11) \<and>
   length (ax25call_to_string (ax25call_from_string (str ''ABCDEF-138''))) = 11"
proof
  have "length (c_str (take 6 (call c))) \<le> 6"
    unfolding c_str_def by (rule order_trans [OF length_takeWhile_le]) simp
  moreover have "ssid c < 128 \<Longrightarrow> ssid c AND 0x80 = 0"
  proof -
    assume "ssid c < 128"
    then have "unat (ssid c div 2 ^ 7) = 0" by (simp add: unat_div word_less_nat_alt)
    then have "\<not> bit (ssid c) 7" by (simp add: bit_iff_odd unat_eq_0)
    then have "ssid c AND 2 ^ 7 = 0" by (simp only: and_exp_eq_0_iff_not_bit not_False_eq_True)
    then show ?thesis by simp
  qed
  ultimately show "length (ax25call_to_string c) \<le> (if ssid c < 128 then 10 else 11)"
    by (auto simp: ax25call_to_string_def Let_def)
  have s: "str ''ABCDEF-138'' = [65, 66, 67, 68, 69, 70, 45, 49, 51, 56]" by (simp add: str_def)
  have z: "replicate 6 (0 :: u8) = [0, 0, 0, 0, 0, 0]" by (simp add: numeral_eq_Suc)
  have "ax25call_from_string (str ''ABCDEF-138'') = \<lparr>call = [65, 66, 67, 68, 69, 70], ssid = 138\<rparr>"
    unfolding ax25call_from_string_def s z
    by (simp add: c_strlen_def c_str_def chr_dash_0 c_isdigit_def c_toupper_def)
  moreover have "ax25call_to_string \<lparr>call = [65, 66, 67, 68, 69, 70], ssid = 138\<rparr> =
      [65, 66, 67, 68, 69, 70] @ [45, 49, 48] @ [42] @ [0]"
    by (simp add: ax25call_to_string_def c_str_def Let_def chr_def)
  ultimately show "length (ax25call_to_string (ax25call_from_string (str ''ABCDEF-138''))) = 11" by simp
qed

end
