(* ===== verification/Uart.thy ===== *)
theory Uart
  imports Aprs_Prelude
begin

text \<open>
  The registers of the first UART as \<^verbatim>\<open>bertos/cpu/avr/drv/ser_mega.c\<close> sets them up, below the port operations of \<open>Ser\<close>:
  baud rate, parity, and the interrupt enables. The divisor is shown to give the rate asked for as exactly as the hardware can.
\<close>

record Uart =
  UCSR0A :: u8
  UCSR0B :: u8
  UCSR0C :: u8
  UBRR0H :: u8
  UBRR0L :: u8
  UDR0 :: u8

text \<open>Positions in the control registers of the ATmega328P.\<close>

definition BIT_RXCIE0 :: nat where "BIT_RXCIE0 = 7"
definition BIT_UDRIE0 :: nat where "BIT_UDRIE0 = 5"
definition BIT_RXEN0 :: nat where "BIT_RXEN0 = 4"
definition BIT_TXEN0 :: nat where "BIT_TXEN0 = 3"
definition U2X0 :: nat where "U2X0 = 1"
definition UPM00 :: nat where "UPM00 = 4"
definition UPM01 :: nat where "UPM01 = 5"

definition SER_UART0_BUS_TXINIT :: "Uart \<Rightarrow> Uart" where
  "SER_UART0_BUS_TXINIT r = r\<lparr>UCSR0A := 0, UCSR0B := BV BIT_RXCIE0 OR BV BIT_RXEN0 OR BV BIT_TXEN0\<rparr>"

definition SER_UART0_BUS_TXBEGIN :: "Uart \<Rightarrow> Uart" where
  "SER_UART0_BUS_TXBEGIN r = r\<lparr>UCSR0B := BV BIT_RXCIE0 OR BV BIT_UDRIE0 OR BV BIT_RXEN0 OR BV BIT_TXEN0\<rparr>"

definition SER_UART0_BUS_TXCHAR :: "u8 \<Rightarrow> Uart \<Rightarrow> Uart" where
  "SER_UART0_BUS_TXCHAR c r = r\<lparr>UDR0 := c\<rparr>"

definition SER_UART0_BUS_TXEND :: "Uart \<Rightarrow> Uart" where
  "SER_UART0_BUS_TXEND r = r\<lparr>UCSR0B := BV BIT_RXCIE0 OR BV BIT_RXEN0 OR BV BIT_TXEN0\<rparr>"

text \<open>The processor runs at 16 MHz; the quotient is rounded, in 32 bits, and stored into 16.\<close>

definition uart_period :: "u32 \<Rightarrow> u16" where
  "uart_period bps = ucast ((16000000 div 8 + bps div 2) div bps - 1)"

definition uart0_init :: "Uart \<Rightarrow> Uart" where
  "uart0_init r = SER_UART0_BUS_TXINIT r"

definition uart0_cleanup :: "Uart \<Rightarrow> Uart" where
  "uart0_cleanup r = r\<lparr>UCSR0B := 0\<rparr>"

definition uart0_setbaudrate :: "u32 \<Rightarrow> Uart \<Rightarrow> Uart" where
  "uart0_setbaudrate rate r =
     (let period = uart_period rate
      in r\<lparr>UCSR0A := BV U2X0, UBRR0H := ucast (drop_bit 8 period), UBRR0L := ucast period\<rparr>)"

definition uart0_setparity :: "u8 \<Rightarrow> Uart \<Rightarrow> Uart" where
  "uart0_setparity parity r =
     r\<lparr>UCSR0C := (UCSR0C r AND NOT (BV UPM01 OR BV UPM00)) OR push_bit UPM00 parity\<rparr>"

section \<open>The rate of the line\<close>

text \<open>The divisor the registers hold, and the rate in double speed mode.\<close>

definition uart_divisor :: "Uart \<Rightarrow> nat" where
  "uart_divisor r = 256 * unat (UBRR0H r) + unat (UBRR0L r) + 1"

lemma uart_divisor_set: "uart_divisor (uart0_setbaudrate bps r) = unat (uart_period bps) + 1"
proof -
  let ?p = "unat (uart_period bps)"
  have "?p < 65536" by simp
  moreover have "unat (ucast (drop_bit 8 (uart_period bps)) :: u8) = ?p div 256"
  proof -
    have "unat (drop_bit 8 (uart_period bps)) = ?p div 256"
      by (simp only: unsigned_drop_bit_eq) (simp add: drop_bit_eq_div take_bit_nat_eq_self)
    moreover have "?p div 256 < 256" using \<open>?p < 65536\<close> by (simp add: less_mult_imp_div_less)
    ultimately show ?thesis by (simp only: unsigned_ucast_eq) (simp add: take_bit_nat_eq_self)
  qed
  moreover have "unat (ucast (uart_period bps) :: u8) = ?p mod 256"
    by (simp add: unsigned_ucast_eq take_bit_eq_mod)
  ultimately show ?thesis by (simp add: uart_divisor_def uart0_setbaudrate_def Let_def)
qed

lemma unat_uart_period:
  assumes "31 \<le> unat bps" "unat bps \<le> 1000000"
  shows "unat (uart_period bps) + 1 = (2000000 + unat bps div 2) div unat bps"
proof -
  let ?b = "unat bps" and ?q = "(2000000 + unat bps div 2) div unat bps"
  have "unat (2000000 + bps div 2) = 2000000 + ?b div 2"
    using assms by (simp add: unat_word_ariths unat_div_distrib)
  then have q: "unat ((2000000 + bps div 2) div bps) = ?q" by (simp add: unat_div_distrib)
  have lo: "1 \<le> ?q" using assms by (simp add: less_eq_div_iff_mult_less_eq)
  have "2000000 + ?b div 2 < 65536 * ?b" using assms by linarith
  then have hi: "?q < 65536" using assms by (simp add: div_less_iff_less_mult)
  have "unat ((2000000 + bps div 2) div bps - 1) = ?q - 1" using q lo by (simp add: unat_sub word_le_nat_alt)
  then show ?thesis using lo hi
    by (simp add: uart_period_def unsigned_ucast_eq take_bit_nat_eq_self)
qed

text \<open>No other divisor comes closer: the clock is missed by at most half a bit time of the rate.\<close>

lemma rounded_quotient:
  assumes "0 < (b :: nat)"
  shows "2 * \<bar>int a - int (b * ((a + b div 2) div b))\<bar> \<le> int b"
proof -
  define x where "x = b * ((a + b div 2) div b)"
  define m where "m = (a + b div 2) mod b"
  define h where "h = b div 2"
  have "x + m = a + h" unfolding x_def m_def h_def by (rule mult_div_mod_eq)
  then have "int x + int m = int a + int h" by (simp flip: of_nat_add)
  moreover have "int m < int b" using assms by (simp add: m_def)
  moreover have "2 * h \<le> b \<and> b \<le> 2 * h + 1" unfolding h_def by arith
  then have "2 * int h \<le> int b" "int b \<le> 2 * int h + 1" by linarith+
  ultimately show ?thesis unfolding x_def [symmetric] by (simp add: abs_if)
qed

lemma uart_rate:
  assumes "31 \<le> unat bps" "unat bps \<le> 1000000"
  shows "2 * \<bar>2000000 - int (unat bps * uart_divisor (uart0_setbaudrate bps r))\<bar> \<le> int (unat bps)"
  using rounded_quotient [of "unat bps" 2000000] unat_uart_period [OF assms] assms
  by (simp only: uart_divisor_set) simp

text \<open>The rates the program uses: the console, and a GPS receiver before and after its set-up.\<close>

lemma uart_rates: "uart_period 9600 = 207" "uart_period 4800 = 416" "uart_period 115200 = 16"
  by (simp_all add: uart_period_def)

text \<open>Parity touches the two parity bits only, and the enables differ in the transmit interrupt alone.\<close>

lemma uart0_setparity_bits:
  assumes "unat parity < 4"
  shows "bit (UCSR0C (uart0_setparity parity r)) n \<longleftrightarrow>
    (if n = 4 then bit parity 0 else if n = 5 then bit parity 1 else bit (UCSR0C r) n)"
proof -
  have p: "\<not> bit parity m" if "2 \<le> m" for m
  proof -
    have "take_bit 2 parity = parity" using assms by (simp add: word_unat_eq_iff unsigned_take_bit_eq take_bit_nat_eq_self)
    then show ?thesis using that by (metis bit_take_bit_iff not_le)
  qed
  have s: "bit (push_bit UPM00 parity) n \<longleftrightarrow> n = 4 \<and> bit parity 0 \<or> n = 5 \<and> bit parity 1"
  proof -
    have "bit (push_bit UPM00 parity) n \<longleftrightarrow> 4 \<le> n \<and> n < 8 \<and> bit parity (n - 4)"
      by (simp only: bit_push_bit_iff) (auto simp: UPM00_def)
    also have "\<dots> \<longleftrightarrow> n = 4 \<and> bit parity 0 \<or> n = 5 \<and> bit parity 1"
      using p [of "n - 4"] by (cases "n < 4"; cases "n = 4"; cases "n = 5") auto
    finally show ?thesis .
  qed
  have b: "bit (BV UPM00) n \<longleftrightarrow> n = 4" "bit (BV UPM01) n \<longleftrightarrow> n = 5"
    by (simp_all add: bit_BV UPM00_def UPM01_def)
  show ?thesis
    by (auto simp: uart0_setparity_def s b bit_or_iff bit_and_iff bit_not_iff dest: bit_imp_lt_8)
qed

lemma uart0_enables:
  "bit (UCSR0B (SER_UART0_BUS_TXBEGIN r)) n \<longleftrightarrow> bit (UCSR0B (SER_UART0_BUS_TXEND r)) n \<or> n = BIT_UDRIE0"
  by (auto simp: SER_UART0_BUS_TXBEGIN_def SER_UART0_BUS_TXEND_def bit_BV bit_or_iff BIT_UDRIE0_def)

end
