(* ===== verification/Ser.thy ===== *)
theory Ser
  imports Timer Fifobuf Kfile Formatwr
begin

text \<open>
  The serial port: \<^verbatim>\<open>bertos/drv/ser.c\<close> over the UART 0 interrupt handlers of
  \<^verbatim>\<open>bertos/cpu/avr/drv/ser_mega.c\<close>, in the configuration of \<^verbatim>\<open>cfg_ser.h\<close> (32-byte buffers, no transmit
  timeout, a receive timeout that defaults to 0, no hardware handshake). The data register empty
  interrupt sends a byte when it is enabled; \<open>wire\<close> is the history of the bytes put on the line.
  A waiting read is given what its loop observes, the elapsed ticks and the interrupts of each
  turn; running out of observations means it is still waiting (\<open>None\<close>).
\<close>

section \<open>State and interrupt handlers\<close>

definition SERRF_RXFIFOOVERRUN :: u8 where "SERRF_RXFIFOOVERRUN = 0x01"
definition SERRF_RXSROVERRUN :: u8 where "SERRF_RXSROVERRUN = 0x08"
definition SERRF_FRAMEERROR :: u8 where "SERRF_FRAMEERROR = 0x10"
definition SERRF_RXTIMEOUT :: u8 where "SERRF_RXTIMEOUT = 0x20"
definition SERRF_PARITYERROR :: u8 where "SERRF_PARITYERROR = 0x80"
definition SERRF_RX :: u8 where
  "SERRF_RX = SERRF_RXFIFOOVERRUN OR SERRF_RXTIMEOUT OR SERRF_RXSROVERRUN OR SERRF_PARITYERROR OR SERRF_FRAMEERROR"

record Serial =
  unit :: u16
  txfifo :: FIFOBuffer
  rxfifo :: FIFOBuffer
  rxtimeout :: i32
  ser_status :: u8
  hw_sending :: bool
  udrie :: bool
  baudrate :: nat
  wire :: bytes

definition uart0_enabletxirq :: "Serial \<Rightarrow> Serial" where
  "uart0_enabletxirq port = (if \<not> hw_sending port then port\<lparr>hw_sending := True, udrie := True\<rparr> else port)"

definition tx_sending :: "Serial \<Rightarrow> bool" where
  "tx_sending port = hw_sending port"

definition USART0_UDRE_vect :: "Serial \<Rightarrow> Serial" where
  "USART0_UDRE_vect port =
     (if fifo_isempty (txfifo port) then port\<lparr>udrie := False, hw_sending := False\<rparr>
      else let (c, f) = fifo_pop (txfifo port) in port\<lparr>txfifo := f, wire := wire port @ [c]\<rparr>)"

definition USART0_RX_vect :: "Serial \<Rightarrow> u8 \<Rightarrow> u8 \<Rightarrow> Serial" where
  "USART0_RX_vect port ucsr0a c =
     (let port = port\<lparr>ser_status := ser_status port OR (ucsr0a AND (SERRF_RXSROVERRUN OR SERRF_FRAMEERROR))\<rparr>
      in if fifo_isfull (rxfifo port) then port\<lparr>ser_status := ser_status port OR SERRF_RXFIFOOVERRUN\<rparr>
         else port\<lparr>rxfifo := fifo_push (rxfifo port) c\<rparr>)"

text \<open>The transmit interrupt while the main loop waits.\<close>

definition ser_tx_tick :: "Serial \<Rightarrow> Serial" where
  "ser_tx_tick port = (if udrie port then USART0_UDRE_vect port else port)"

section \<open>The port operations\<close>

partial_function (option) ser_wait_tx :: "Serial \<Rightarrow> Serial option" where
  "ser_wait_tx port = (if fifo_isfull (txfifo port) then ser_wait_tx (ser_tx_tick port) else Some port)"

definition ser_putchar :: "u8 \<Rightarrow> Serial \<Rightarrow> (u8 option \<times> Serial) option" where
  "ser_putchar c port =
     do { port \<leftarrow> (if fifo_isfull (txfifo port) then ser_wait_tx (ser_tx_tick port) else Some port);
          Some (Some c, uart0_enabletxirq (port\<lparr>txfifo := fifo_push (txfifo port) c\<rparr>)) }"

text \<open>One turn of the receive wait: the ticks since its start, and a receive interrupt if any.\<close>

type_synonym rx_event = "i32 \<times> (u8 \<times> u8) option"

fun ser_wait_rx :: "rx_event list \<Rightarrow> Serial \<Rightarrow> (bool \<times> Serial) option" where
  "ser_wait_rx [] port = None"
| "ser_wait_rx ((elapsed, ev) # env) port =
     (let port = (case ev of None \<Rightarrow> port | Some (st, c) \<Rightarrow> USART0_RX_vect port st c)
      in if sint (rxtimeout port) \<le> sint elapsed
         then Some (False, port\<lparr>ser_status := ser_status port OR SERRF_RXTIMEOUT\<rparr>)
         else if fifo_isempty (rxfifo port) \<and> ser_status port AND SERRF_RX = 0 then ser_wait_rx env port
         else Some (True, port))"

text \<open>\<^verbatim>\<open>EOF\<close> is \<open>None\<close> inside the result.\<close>

definition ser_take :: "Serial \<Rightarrow> u8 option \<times> Serial" where
  "ser_take port =
     (if ser_status port AND SERRF_RX \<noteq> 0 then (None, port)
      else let (c, f) = fifo_pop (rxfifo port) in (Some c, port\<lparr>rxfifo := f\<rparr>))"

definition ser_getchar :: "rx_event list \<Rightarrow> Serial \<Rightarrow> (u8 option \<times> Serial) option" where
  "ser_getchar env port =
     (if fifo_isempty (rxfifo port) then
        if rxtimeout port = 0 then Some (None, port)
        else do { (ok, port) \<leftarrow> ser_wait_rx env port;
                  Some (if ok then ser_take port else (None, port)) }
      else Some (ser_take port))"

definition ser_available :: "Serial \<Rightarrow> bool" where
  "ser_available port \<longleftrightarrow> \<not> fifo_isempty (rxfifo port)"

text \<open>The port with its default receive timeout of 0: a read never waits.\<close>

definition ser_getchar_now :: "Serial \<Rightarrow> u8 option \<times> Serial" where
  "ser_getchar_now port = (if fifo_isempty (rxfifo port) then (None, port) else ser_take port)"

fun ser_read :: "nat \<Rightarrow> Serial \<Rightarrow> bytes \<times> Serial" where
  "ser_read 0 port = ([], port)"
| "ser_read (Suc n) port =
     (case ser_getchar_now port of
        (None, port) \<Rightarrow> ([], port)
      | (Some c, port) \<Rightarrow> let (cs, port) = ser_read n port in (c # cs, port))"

fun ser_write :: "bytes \<Rightarrow> nat \<Rightarrow> Serial \<Rightarrow> (nat \<times> Serial) option" where
  "ser_write [] i port = Some (i, port)"
| "ser_write (c # buf) i port =
     do { (r, port) \<leftarrow> ser_putchar c port;
          if r = None then Some (i, port) else ser_write buf (Suc i) port }"

definition ser_settimeouts :: "i32 \<Rightarrow> Serial \<Rightarrow> Serial" where
  "ser_settimeouts rx port = port\<lparr>rxtimeout := ms_to_ticks rx\<rparr>"

definition ser_setbaudrate :: "nat \<Rightarrow> Serial \<Rightarrow> Serial" where
  "ser_setbaudrate rate port = port\<lparr>baudrate := rate\<rparr>"

definition ser_error :: "Serial \<Rightarrow> i16" where
  "ser_error port = ucast (ser_status port)"

definition ser_clearerr :: "Serial \<Rightarrow> Serial" where
  "ser_clearerr port = port\<lparr>ser_status := 0\<rparr>"

definition ser_purgeRx :: "Serial \<Rightarrow> Serial" where
  "ser_purgeRx port = port\<lparr>rxfifo := fifo_flush (rxfifo port)\<rparr>"

definition ser_purgeTx :: "Serial \<Rightarrow> Serial" where
  "ser_purgeTx port = port\<lparr>txfifo := fifo_flush (txfifo port)\<rparr>"

definition ser_purge :: "Serial \<Rightarrow> Serial" where
  "ser_purge port = ser_purgeTx (ser_purgeRx port)"

partial_function (option) ser_flush :: "Serial \<Rightarrow> Serial option" where
  "ser_flush port =
     (if \<not> fifo_isempty (txfifo port) \<or> tx_sending port then ser_flush (ser_tx_tick port) else Some port)"

definition ser_open :: "u16 \<Rightarrow> Serial \<Rightarrow> Serial" where
  "ser_open u port =
     (let port = port\<lparr>unit := u, txfifo := fifo_init (replicate 32 0) 32, rxfifo := fifo_init (replicate 32 0) 32,
                      hw_sending := False, udrie := False\<rparr>;
          port = ser_settimeouts 0 port
      in port\<lparr>ser_status := 0\<rparr>)"

definition ser_close :: "Serial \<Rightarrow> Serial option" where
  "ser_close port = do { port \<leftarrow> ser_flush port; Some (ser_purge port) }"

definition ser_reopen :: "Serial \<Rightarrow> Serial option" where
  "ser_reopen port = do { port \<leftarrow> ser_close port; Some (ser_open (unit port) port) }"

definition ser_init :: "u16 \<Rightarrow> Serial" where
  "ser_init u = ser_open u \<lparr>unit = 0, txfifo = fifo_init [] 0, rxfifo = fifo_init [] 0, rxtimeout = 0,
     ser_status = 0, hw_sending = False, udrie = False, baudrate = 0, wire = []\<rparr>"

definition ser_fd :: "Serial KFile" where
  "ser_fd = \<lparr>k_read = ser_read, k_write = \<lambda>buf. ser_write buf 0, k_flush = ser_flush,
     k_error = ser_error, k_clearerr = ser_clearerr\<rparr>"

section \<open>The transmitter invariant\<close>

definition ser_tx_ok :: "Serial \<Rightarrow> bool" where
  "ser_tx_ok port \<longleftrightarrow> fifo_valid (txfifo port) \<and> fifo_len (txfifo port) = 31 \<and> (udrie port \<longleftrightarrow> hw_sending port) \<and>
     (fifo_list (txfifo port) \<noteq> [] \<longrightarrow> hw_sending port)"

definition ser_sent :: "Serial \<Rightarrow> bytes" where
  "ser_sent port = wire port @ fifo_list (txfifo port)"

definition ser_work :: "Serial \<Rightarrow> nat" where
  "ser_work port = length (fifo_list (txfifo port)) + (if hw_sending port then 1 else 0)"

lemma ser_tick_ok:
  assumes "ser_tx_ok port" and "hw_sending port"
  shows "ser_tx_ok (ser_tx_tick port)" "ser_sent (ser_tx_tick port) = ser_sent port"
    "ser_work (ser_tx_tick port) < ser_work port"
proof -
  have v: "fifo_valid (txfifo port)" and u: "udrie port" using assms by (simp_all add: ser_tx_ok_def)
  have "ser_tx_ok (ser_tx_tick port) \<and> ser_sent (ser_tx_tick port) = ser_sent port \<and>
      ser_work (ser_tx_tick port) < ser_work port"
  proof (cases "fifo_isempty (txfifo port)")
    case True
    with v u assms show ?thesis
      by (simp add: ser_tx_tick_def USART0_UDRE_vect_def ser_tx_ok_def ser_sent_def ser_work_def fifo.isempty_contents)
  next
    case False
    from fifo.pop_nonempty [OF v False] have
      p: "fifo_list (txfifo port) = fst (fifo_pop (txfifo port)) # fifo_list (snd (fifo_pop (txfifo port)))" .
    with False v u assms fifo.valid_pop [OF v] show ?thesis
      by (auto simp: ser_tx_tick_def USART0_UDRE_vect_def ser_tx_ok_def ser_sent_def ser_work_def split_beta Let_def)
  qed
  then show "ser_tx_ok (ser_tx_tick port)" "ser_sent (ser_tx_tick port) = ser_sent port"
    "ser_work (ser_tx_tick port) < ser_work port" by blast+
qed

lemma ser_full_sending: "ser_tx_ok port \<Longrightarrow> fifo_isfull (txfifo port) \<Longrightarrow> hw_sending port"
  using fifo.isfull_contents [of "txfifo port"] by (auto simp: ser_tx_ok_def)

lemma ser_wait_tx_returns:
  "ser_tx_ok port \<Longrightarrow> \<exists>port'. ser_wait_tx port = Some port' \<and> ser_tx_ok port' \<and> ser_sent port' = ser_sent port \<and>
     \<not> fifo_isfull (txfifo port')"
proof (induction "ser_work port" arbitrary: port rule: less_induct)
  case less
  show ?case
  proof (cases "fifo_isfull (txfifo port)")
    case False
    with less.prems show ?thesis by (subst ser_wait_tx.simps) simp
  next
    case True
    note t = ser_tick_ok [OF less.prems ser_full_sending [OF less.prems True]]
    from less.hyps [OF t(3,1)] True t(2) show ?thesis by (subst ser_wait_tx.simps) simp
  qed
qed

lemma ser_putchar_ok:
  assumes "ser_tx_ok port"
  shows "\<exists>port'. ser_putchar c port = Some (Some c, port') \<and> ser_tx_ok port' \<and> ser_sent port' = ser_sent port @ [c]"
proof -
  have "(if fifo_isfull (txfifo port) then ser_wait_tx (ser_tx_tick port) else Some port) = ser_wait_tx port"
    by (subst (2) ser_wait_tx.simps) simp
  moreover obtain p where p: "ser_wait_tx port = Some p" "ser_tx_ok p" "ser_sent p = ser_sent port"
    "\<not> fifo_isfull (txfifo p)" using ser_wait_tx_returns [OF assms] by blast
  moreover have "ser_tx_ok (uart0_enabletxirq (p\<lparr>txfifo := fifo_push (txfifo p) c\<rparr>))"
    "ser_sent (uart0_enabletxirq (p\<lparr>txfifo := fifo_push (txfifo p) c\<rparr>)) = ser_sent p @ [c]"
    using p by (auto simp: ser_tx_ok_def ser_sent_def uart0_enabletxirq_def fifo.valid_push fifo.contents_push)
  ultimately show ?thesis by (simp add: ser_putchar_def)
qed

lemma ser_write_ok:
  "ser_tx_ok port \<Longrightarrow> \<exists>port'. ser_write buf i port = Some (i + length buf, port') \<and> ser_tx_ok port' \<and>
     ser_sent port' = ser_sent port @ buf"
proof (induction buf arbitrary: i port)
  case (Cons c buf)
  from ser_putchar_ok [OF Cons.prems, of c] obtain p where
    "ser_putchar c port = Some (Some c, p)" "ser_tx_ok p" "ser_sent p = ser_sent port @ [c]" by blast
  with Cons.IH [of p "Suc i"] show ?case by force
qed simp

lemma ser_flush_returns:
  "ser_tx_ok port \<Longrightarrow> \<exists>port'. ser_flush port = Some port' \<and> ser_tx_ok port' \<and> ser_sent port' = ser_sent port \<and>
     fifo_list (txfifo port') = [] \<and> \<not> hw_sending port'"
proof (induction "ser_work port" arbitrary: port rule: less_induct)
  case less
  show ?case
  proof (cases "hw_sending port")
    case False
    with less.prems have "fifo_isempty (txfifo port)" by (auto simp: ser_tx_ok_def fifo.isempty_contents)
    with less.prems False show ?thesis
      by (subst ser_flush.simps) (auto simp: tx_sending_def ser_tx_ok_def)
  next
    case True
    note t = ser_tick_ok [OF less.prems True]
    from less.hyps [OF t(3,1)] True t(2) show ?thesis by (subst ser_flush.simps) (simp add: tx_sending_def)
  qed
qed

interpretation ser_out: kfile_out ser_fd ser_tx_ok ser_sent
proof unfold_locales
  show "ser_tx_ok port \<Longrightarrow> \<exists>port'. k_write ser_fd bs port = Some (length bs, port') \<and> ser_tx_ok port' \<and>
      ser_sent port' = ser_sent port @ bs" for port bs
    using ser_write_ok [of port bs 0] by (simp add: ser_fd_def)
  show "ser_tx_ok port \<Longrightarrow> \<exists>port'. k_flush ser_fd port = Some port' \<and> ser_tx_ok port' \<and> ser_sent port' = ser_sent port"
    for port using ser_flush_returns [of port] by (auto simp: ser_fd_def)
qed

lemma ser_init_ok: "ser_tx_ok (ser_init u)"
  by (simp add: ser_tx_ok_def ser_init_def ser_open_def ser_settimeouts_def Let_def fifo_valid_init)

section \<open>Receiving\<close>

definition ser_rx_ok :: "Serial \<Rightarrow> bool" where
  "ser_rx_ok port \<longleftrightarrow> fifo_valid (rxfifo port) \<and> ser_status port AND SERRF_RX = 0"

lemma ser_getchar_now_ok:
  assumes "ser_rx_ok port"
  shows "fst (ser_getchar_now port) = (case fifo_list (rxfifo port) of [] \<Rightarrow> None | c # _ \<Rightarrow> Some c)"
    "fifo_list (rxfifo (snd (ser_getchar_now port))) = tl (fifo_list (rxfifo port))"
    "ser_rx_ok (snd (ser_getchar_now port))"
  using assms fifo.contents_pop [of "rxfifo port"] fifo.valid_pop [of "rxfifo port"]
  by (cases "fifo_list (rxfifo port)"; auto simp: ser_rx_ok_def ser_getchar_now_def ser_take_def
      fifo.isempty_contents split_beta Let_def)+

lemma ser_getchar_no_timeout: "rxtimeout port = 0 \<Longrightarrow> ser_getchar env port = Some (ser_getchar_now port)"
  by (simp add: ser_getchar_def ser_getchar_now_def)

lemma ser_read_takes:
  "ser_rx_ok port \<Longrightarrow> ser_read n port = (bs, port') \<Longrightarrow>
   bs = take n (fifo_list (rxfifo port)) \<and> fifo_list (rxfifo port') = drop n (fifo_list (rxfifo port)) \<and> ser_rx_ok port'"
proof (induction n arbitrary: port bs)
  case (Suc n)
  note g = ser_getchar_now_ok [OF Suc.prems(1)]
  show ?case
  proof (cases "fifo_list (rxfifo port)")
    case Nil
    with g Suc.prems show ?thesis by (cases "ser_getchar_now port") auto
  next
    case (Cons c cs)
    obtain p where p: "ser_getchar_now port = (Some c, p)" "fifo_list (rxfifo p) = cs" "ser_rx_ok p"
      using g Cons by (cases "ser_getchar_now port") auto
    obtain bs1 where "ser_read n p = (bs1, port')" "bs = c # bs1"
      using Suc.prems(2) p(1) by (cases "ser_read n p") auto
    with Suc.IH [OF p(3)] p(2) Cons show ?thesis by simp
  qed
qed simp

interpretation ser_in: kfile_in ser_fd ser_rx_ok "\<lambda>port. fifo_list (rxfifo port)"
  by unfold_locales (auto simp: ser_fd_def dest: ser_read_takes)

section \<open>Arrivals and reads, interleaved\<close>

datatype ser_event = EvRx u8 u8 | EvGet | EvTx

fun ser_run :: "ser_event list \<Rightarrow> Serial \<Rightarrow> bytes \<times> Serial" where
  "ser_run [] port = ([], port)"
| "ser_run (EvRx st c # evs) port = ser_run evs (USART0_RX_vect port st c)"
| "ser_run (EvTx # evs) port = ser_run evs (ser_tx_tick port)"
| "ser_run (EvGet # evs) port =
     (let (r, port) = ser_getchar_now port; (bs, port) = ser_run evs port
      in (case r of None \<Rightarrow> bs | Some c \<Rightarrow> c # bs, port))"

fun arrivals :: "ser_event list \<Rightarrow> bytes" where
  "arrivals [] = []"
| "arrivals (EvRx st c # evs) = c # arrivals evs"
| "arrivals (EvGet # evs) = arrivals evs"
| "arrivals (EvTx # evs) = arrivals evs"

definition rx_error :: "Serial \<Rightarrow> bool" where
  "rx_error port \<longleftrightarrow> ser_status port AND SERRF_RX \<noteq> 0"

lemma and_or_nonzero: "(a :: u8) AND m \<noteq> 0 \<Longrightarrow> (a OR b) AND m \<noteq> 0"
proof
  assume a: "a AND m \<noteq> 0" and z: "(a OR b) AND m = 0"
  have "bit (a AND m) n = False" for n
  proof -
    have "\<not> bit ((a OR b) AND m) n" using z by simp
    then show ?thesis by (auto simp: bit_simps)
  qed
  then have "a AND m = 0" by (intro bit_word_eqI) simp
  with a show False by simp
qed

lemma rx_error_sticky: "rx_error port \<Longrightarrow> rx_error (USART0_RX_vect port st c)"
  by (cases "fifo_isfull (rxfifo port)")
    (simp_all add: rx_error_def USART0_RX_vect_def Let_def and_or_nonzero)

lemma rx_error_tick: "rx_error (ser_tx_tick port) = rx_error port"
  by (simp add: rx_error_def ser_tx_tick_def USART0_UDRE_vect_def split_beta Let_def)

lemma rxfifo_tick [simp]: "rxfifo (ser_tx_tick port) = rxfifo port"
  by (simp add: ser_tx_tick_def USART0_UDRE_vect_def split_beta Let_def)

lemma rx_error_get: "rx_error port \<Longrightarrow> ser_getchar_now port = (None, port)"
  by (simp add: rx_error_def ser_getchar_now_def ser_take_def)

lemma rx_error_run: "rx_error port \<Longrightarrow> fst (ser_run evs port) = [] \<and> rx_error (snd (ser_run evs port))"
  by (induction evs port rule: ser_run.induct)
    (auto simp: rx_error_sticky rx_error_tick rx_error_get split_beta)

text \<open>
  A receive error stops the serial input for good: once an overrun or a framing error is in the
  status, no later read returns a byte and the status keeps the error, whatever arrives and however
  often the port is read, as long as nobody clears it.
\<close>

theorem serial_error_blocks_reads:
  assumes "ser_status port AND SERRF_RX \<noteq> 0"
  shows "fst (ser_run evs port) = [] \<and> ser_status (snd (ser_run evs port)) AND SERRF_RX \<noteq> 0"
  using rx_error_run [of port evs] assms by (simp add: rx_error_def)

theorem serial_error_blocks_reads_witness:
  "fst (ser_run [EvRx 0 65, EvGet] ((ser_init 0)\<lparr>ser_status := SERRF_RXFIFOOVERRUN\<rparr>)) = []"
proof -
  have "ser_status ((ser_init 0)\<lparr>ser_status := SERRF_RXFIFOOVERRUN\<rparr>) AND SERRF_RX \<noteq> 0"
    by (simp add: SERRF_RXFIFOOVERRUN_def SERRF_RX_def SERRF_RXTIMEOUT_def SERRF_RXSROVERRUN_def
        SERRF_PARITYERROR_def SERRF_FRAMEERROR_def)
  from serial_error_blocks_reads [OF this] show ?thesis by blast
qed

lemma rx_no_error:
  assumes "\<not> rx_error (USART0_RX_vect port st c)" and "fifo_valid (rxfifo port)"
  shows "\<not> fifo_isfull (rxfifo port) \<and> \<not> rx_error port \<and>
    rxfifo (USART0_RX_vect port st c) = fifo_push (rxfifo port) c"
proof -
  have "\<not> fifo_isfull (rxfifo port)"
  proof
    assume "fifo_isfull (rxfifo port)"
    then have "ser_status (USART0_RX_vect port st c) = SERRF_RXFIFOOVERRUN OR
        (ser_status port OR (st AND (SERRF_RXSROVERRUN OR SERRF_FRAMEERROR)))"
      by (simp add: USART0_RX_vect_def Let_def ac_simps)
    moreover have "SERRF_RXFIFOOVERRUN AND SERRF_RX \<noteq> 0"
      by (simp add: SERRF_RXFIFOOVERRUN_def SERRF_RX_def SERRF_RXTIMEOUT_def SERRF_RXSROVERRUN_def
          SERRF_PARITYERROR_def SERRF_FRAMEERROR_def)
    ultimately show False using assms(1) and_or_nonzero by (simp add: rx_error_def)
  qed
  moreover have "\<not> rx_error port" using assms(1) rx_error_sticky by blast
  ultimately show ?thesis by (simp add: USART0_RX_vect_def Let_def)
qed

text \<open>
  C36. Serial reception is lossless while no error is flagged: for any interleaving of arriving
  bytes, reads and transmit interrupts after which the status shows no receive error, the bytes read
  followed by the bytes still waiting are exactly those waiting before followed by those that
  arrived, in order.
\<close>

theorem serial_rx_lossless:
  assumes "fifo_valid (rxfifo port)" and "ser_run evs port = (bs, port')"
    and "ser_status port' AND SERRF_RX = 0"
  shows "fifo_valid (rxfifo port') \<and>
    bs @ fifo_list (rxfifo port') = fifo_list (rxfifo port) @ arrivals evs"
  using assms
proof (induction evs port arbitrary: bs rule: ser_run.induct)
  case (2 st c evs port)
  let ?p = "USART0_RX_vect port st c"
  have "\<not> rx_error ?p" using 2 rx_error_run [of ?p evs] by (auto simp: rx_error_def)
  note p = rx_no_error [OF this 2(2)]
  then have "fifo_valid (rxfifo ?p)" "fifo_list (rxfifo ?p) = fifo_list (rxfifo port) @ [c]"
    using 2(2) by (simp_all add: fifo.valid_push fifo.contents_push)
  with 2 show ?case by simp
next
  case (4 evs port)
  obtain r p where g: "ser_getchar_now port = (r, p)" by (cases "ser_getchar_now port")
  obtain bs1 p1 where r1: "ser_run evs p = (bs1, p1)" by (cases "ser_run evs p")
  then have r: "ser_run evs p = (bs1, port')" "bs = (case r of None \<Rightarrow> bs1 | Some c \<Rightarrow> c # bs1)"
    using 4(3) g by simp_all
  have "\<not> rx_error port"
    using rx_error_run [of "port" "EvGet # evs"] 4(3,4) by (auto simp: rx_error_def)
  then have "ser_rx_ok port" using 4(2) by (simp add: ser_rx_ok_def rx_error_def)
  from ser_getchar_now_ok [OF this] g have
    "r = (case fifo_list (rxfifo port) of [] \<Rightarrow> None | c # _ \<Rightarrow> Some c)"
    "fifo_list (rxfifo p) = tl (fifo_list (rxfifo port))" "fifo_valid (rxfifo p)"
    by (simp_all add: ser_rx_ok_def)
  with 4(1) [OF g [symmetric] refl _ r(1) 4(4)] r(2) show ?case
    by (cases "fifo_list (rxfifo port)") auto
qed auto

theorem serial_rx_lossless_witness:
  "fst (ser_run [EvRx 0 65, EvRx 0 66, EvGet] (ser_init 0)) @
     fifo_list (rxfifo (snd (ser_run [EvRx 0 65, EvRx 0 66, EvGet] (ser_init 0)))) = [65, 66]"
proof -
  let ?evs = "[EvRx 0 65, EvRx 0 66, EvGet]"
  have i: "rxfifo (ser_init 0) = fifo_init (replicate 32 0) 32" "ser_status (ser_init 0) = 0"
    by (simp_all add: ser_init_def ser_open_def ser_settimeouts_def Let_def)
  then have v: "fifo_valid (rxfifo (ser_init 0))" by (simp add: fifo_valid_init)
  have "ser_status (snd (ser_run ?evs (ser_init 0))) AND SERRF_RX = 0"
    using i by (simp add: USART0_RX_vect_def Let_def ser_getchar_now_def ser_take_def fifo_init_def
        fifo_isfull_def fifo_isempty_def fifo_push_def split_beta)
  from serial_rx_lossless [OF v surjective_pairing this] show ?thesis by (simp only: i) simp
qed

end
