(* ===== verification/Settings.thy ===== *)
theory Settings
  imports Utils
begin

text \<open>
  The settings of \<^verbatim>\<open>TinyAPRS/settings.[ch]\<close>: the parameter block in memory, and the EEPROM variables
  that keep it, the call signs and the beacon text over a restart. The structures are copied byte by
  byte, so their memory layout on the AVR (no padding, 16-bit values low byte first) is part of the
  model. The operations act on every record that extends \<open>Store\<close>; the firmware image is the one with
  all modules configured in.
\<close>

section \<open>Data\<close>

definition SETTINGS_BEACON_TEXT_MAX_LEN :: nat where "SETTINGS_BEACON_TEXT_MAX_LEN = 128"
definition NV_SETTINGS_HEAD_BYTE_VALUE :: u8 where "NV_SETTINGS_HEAD_BYTE_VALUE = 0x88"
definition NV_BEACON_TEXT_HEAD_BYTE_VALUE :: u8 where "NV_BEACON_TEXT_HEAD_BYTE_VALUE = 0x99"
definition RF_DUPLEX_HALF :: u8 where "RF_DUPLEX_HALF = 0"
definition RF_DUPLEX_FULL :: u8 where "RF_DUPLEX_FULL = 1"

record CallData =
  destCall :: AX25Call
  myCall :: AX25Call
  path1 :: AX25Call
  path2 :: AX25Call

datatype SettingsParamKey = SETTINGS_SYMBOL | SETTINGS_RUN_MODE | SETTINGS_BEACON_INTERVAL

record BeaconParams =
  symbol :: bytes
  interval :: u16
  beacon_type :: u8

record RfParams =
  txdelay :: u8
  txtail :: u8
  persistence :: u8
  slot_time :: u8
  duplex :: u8

record SettingsData =
  run_mode :: u8
  beacon :: BeaconParams
  rf :: RfParams

record Store =
  g_settings :: SettingsData
  nvSetHeadByte :: u8
  nvSettings :: bytes
  nvSetCrcByte :: u8
  nvCallDataHeadByte :: u8
  nvCallData :: bytes
  nvBeaconTextHeadByte :: u8
  nvBeaconText :: bytes

definition DEFAULT_BEACON_TEXT :: bytes where
  "DEFAULT_BEACON_TEXT = str ''!3014.00N/12009.00E>TinyAPRS Rocks!''"

definition default_calldata :: CallData where
  "default_calldata =
     \<lparr>destCall = \<lparr>call = str ''APTB01'', ssid = 0\<rparr>, myCall = \<lparr>call = str ''NOCALL'', ssid = 0\<rparr>,
      path1 = \<lparr>call = str ''WIDE1'' @ [0], ssid = 1\<rparr>, path2 = \<lparr>call = str ''WIDE2'' @ [0], ssid = 2\<rparr>\<rparr>"

definition default_settings :: SettingsData where
  "default_settings =
     \<lparr>run_mode = 1, beacon = \<lparr>symbol = str ''/>'', interval = 0, beacon_type = 0\<rparr>,
      rf = \<lparr>txdelay = 50, txtail = 5, persistence = 63, slot_time = 10, duplex = RF_DUPLEX_HALF\<rparr>\<rparr>"

section \<open>Memory layout\<close>

definition le16 :: "u16 \<Rightarrow> bytes" where
  "le16 w = [ucast w, ucast (drop_bit 8 w)]"

definition of_le16 :: "u8 \<Rightarrow> u8 \<Rightarrow> u16" where
  "of_le16 l h = ucast l OR push_bit 8 (ucast h)"

definition settings_bytes :: "SettingsData \<Rightarrow> bytes" where
  "settings_bytes s =
     [run_mode s] @ symbol (beacon s) @ le16 (interval (beacon s)) @ [beacon_type (beacon s)] @
     [txdelay (rf s), txtail (rf s), persistence (rf s), slot_time (rf s), duplex (rf s)]"

definition sizeof_SettingsData :: nat where "sizeof_SettingsData = 11"

definition settings_of_bytes :: "bytes \<Rightarrow> SettingsData" where
  "settings_of_bytes b =
     \<lparr>run_mode = b ! 0,
      beacon = \<lparr>symbol = [b ! 1, b ! 2], interval = of_le16 (b ! 3) (b ! 4), beacon_type = b ! 5\<rparr>,
      rf = \<lparr>txdelay = b ! 6, txtail = b ! 7, persistence = b ! 8, slot_time = b ! 9, duplex = b ! 10\<rparr>\<rparr>"

definition call_bytes :: "AX25Call \<Rightarrow> bytes" where
  "call_bytes c = call c @ [ssid c]"

definition call_of_bytes :: "bytes \<Rightarrow> AX25Call" where
  "call_of_bytes b = \<lparr>call = take 6 b, ssid = b ! 6\<rparr>"

definition sizeof_AX25Call :: nat where "sizeof_AX25Call = 7"
definition sizeof_CallData :: nat where "sizeof_CallData = 28"

definition calldata_bytes :: "CallData \<Rightarrow> bytes" where
  "calldata_bytes d = call_bytes (destCall d) @ call_bytes (myCall d) @ call_bytes (path1 d) @ call_bytes (path2 d)"

definition calldata_of_bytes :: "bytes \<Rightarrow> CallData" where
  "calldata_of_bytes b =
     \<lparr>destCall = call_of_bytes b, myCall = call_of_bytes (drop 7 b), path1 = call_of_bytes (drop 14 b),
      path2 = call_of_bytes (drop 21 b)\<rparr>"

text \<open>Writing a block over the start of an EEPROM array, and reading one.\<close>

definition eeprom_update_block :: "bytes \<Rightarrow> bytes \<Rightarrow> bytes" where
  "eeprom_update_block src mem = src @ drop (length src) mem"

definition eeprom_read_block :: "bytes \<Rightarrow> nat \<Rightarrow> bytes" where
  "eeprom_read_block mem n = take n mem"

section \<open>Operations\<close>

definition settings_set_params_bytes :: "bytes \<Rightarrow> u16 \<Rightarrow> 'a Store_scheme \<Rightarrow> bool \<times> 'a Store_scheme" where
  "settings_set_params_bytes data sz st =
     (if unat sz \<noteq> sizeof_SettingsData then (False, st)
      else (True, st\<lparr>g_settings := settings_of_bytes data\<rparr>))"

definition settings_clear :: "'a Store_scheme \<Rightarrow> 'a Store_scheme" where
  "settings_clear st =
     st\<lparr>nvSetHeadByte := 0xFF, nvCallDataHeadByte := 0xFF, nvBeaconTextHeadByte := 0xFF, nvSetCrcByte := 0xFF\<rparr>"

definition settings_load :: "'a Store_scheme \<Rightarrow> (bool \<times> 'a Store_scheme) option" where
  "settings_load st =
     (if nvSetHeadByte st \<noteq> NV_SETTINGS_HEAD_BYTE_VALUE then Some (False, st)
      else
        do { let st = st\<lparr>g_settings := settings_of_bytes (eeprom_read_block (nvSettings st) sizeof_SettingsData)\<rparr>;
             s \<leftarrow> calc_crc (settings_bytes (g_settings st)) (word_of_nat sizeof_SettingsData);
             Some (if nvSetCrcByte st \<noteq> s then (False, settings_clear st) else (True, st)) })"

definition settings_save :: "'a Store_scheme \<Rightarrow> (bool \<times> 'a Store_scheme) option" where
  "settings_save st =
     do { let st = st\<lparr>nvSettings := eeprom_update_block (settings_bytes (g_settings st)) (nvSettings st)\<rparr>;
          let st = st\<lparr>nvSetHeadByte := NV_SETTINGS_HEAD_BYTE_VALUE\<rparr>;
          s \<leftarrow> calc_crc (settings_bytes (g_settings st)) (word_of_nat sizeof_SettingsData);
          Some (True, st\<lparr>nvSetCrcByte := s\<rparr>) }"

text \<open>The bytes put in the caller's buffer and the length reported.\<close>

definition settings_get_params :: "SettingsParamKey \<Rightarrow> u8 \<Rightarrow> 'a Store_scheme \<Rightarrow> bytes \<times> u8" where
  "settings_get_params key valueOutLen st =
     (if valueOutLen = 0 then ([], valueOutLen)
      else (case key of
          SETTINGS_SYMBOL \<Rightarrow> (symbol (beacon (g_settings st)), 2)
        | SETTINGS_RUN_MODE \<Rightarrow> ([run_mode (g_settings st)], 1)
        | SETTINGS_BEACON_INTERVAL \<Rightarrow> (le16 (interval (beacon (g_settings st))), 2)))"

definition settings_set_params :: "SettingsParamKey \<Rightarrow> bytes \<Rightarrow> 'a Store_scheme \<Rightarrow> 'a Store_scheme" where
  "settings_set_params key val st =
     (let s = g_settings st
      in st\<lparr>g_settings :=
          (case key of
             SETTINGS_SYMBOL \<Rightarrow> s\<lparr>beacon := (beacon s)\<lparr>symbol := [val ! 0, val ! 1]\<rparr>\<rparr>
           | SETTINGS_RUN_MODE \<Rightarrow> s\<lparr>run_mode := val ! 0\<rparr>
           | SETTINGS_BEACON_INTERVAL \<Rightarrow> s\<lparr>beacon := (beacon s)\<lparr>interval := of_le16 (val ! 0) (val ! 1)\<rparr>\<rparr>)\<rparr>)"

definition settings_set_call_data :: "CallData \<Rightarrow> 'a Store_scheme \<Rightarrow> 'a Store_scheme" where
  "settings_set_call_data d st =
     st\<lparr>nvCallData := eeprom_update_block (calldata_bytes d) (nvCallData st),
        nvCallDataHeadByte := NV_SETTINGS_HEAD_BYTE_VALUE\<rparr>"

definition settings_get_call_data :: "'a Store_scheme \<Rightarrow> CallData" where
  "settings_get_call_data st =
     (if nvCallDataHeadByte st = NV_SETTINGS_HEAD_BYTE_VALUE
      then calldata_of_bytes (eeprom_read_block (nvCallData st) sizeof_CallData)
      else default_calldata)"

definition settings_get_mycall :: "'a Store_scheme \<Rightarrow> AX25Call" where
  "settings_get_mycall st =
     (if nvCallDataHeadByte st = NV_SETTINGS_HEAD_BYTE_VALUE
      then call_of_bytes (eeprom_read_block (drop sizeof_AX25Call (nvCallData st)) sizeof_AX25Call)
      else myCall default_calldata)"

text \<open>
  The text put in the caller's buffer (before its terminator) and the value returned. The buffer
  length is a byte; a length of 0 would make the count wrap, which is undefined here.
  \<^verbatim>\<open>snprintf\<close> truncates to the buffer and returns the full length.
\<close>

definition settings_get_beacon_text :: "u8 \<Rightarrow> 'a Store_scheme \<Rightarrow> (bytes \<times> u8) option" where
  "settings_get_beacon_text bufLen st =
     (if bufLen = 0 then None
      else let bytesToRead = min (unat bufLen - 1) SETTINGS_BEACON_TEXT_MAX_LEN
           in if nvBeaconTextHeadByte st \<noteq> NV_BEACON_TEXT_HEAD_BYTE_VALUE
              then Some (take (unat bufLen - 1) DEFAULT_BEACON_TEXT, word_of_nat (length DEFAULT_BEACON_TEXT))
              else let t = c_str (eeprom_read_block (nvBeaconText st) bytesToRead)
                   in Some (t, word_of_nat (length t)))"

definition settings_set_beacon_text :: "bytes \<Rightarrow> u8 \<Rightarrow> 'a Store_scheme \<Rightarrow> u8 \<times> 'a Store_scheme" where
  "settings_set_beacon_text data dataLen st =
     (let bytesToWrite = min (unat dataLen) (SETTINGS_BEACON_TEXT_MAX_LEN - 1);
          mem = eeprom_update_block (take bytesToWrite data) (nvBeaconText st);
          mem = mem[bytesToWrite := 0]
      in (word_of_nat bytesToWrite, st\<lparr>nvBeaconText := mem, nvBeaconTextHeadByte := NV_BEACON_TEXT_HEAD_BYTE_VALUE\<rparr>))"

section \<open>The layout is faithful\<close>

lemma of_le16_bytes [simp]: "of_le16 (ucast w) (ucast (drop_bit 8 w)) = w"
  by (rule bit_word_eqI) (auto simp: of_le16_def bit_simps)

lemma no_bit_u8 [simp]: "\<not> bit (w :: u8) (8 + n)"
  using bit_imp_le_length [of w "8 + n"] by auto

lemma le16_of_le16 [simp]: "le16 (of_le16 l h) = [l, h]"
  by (auto simp: of_le16_def le16_def bit_simps intro!: bit_word_eqI)

lemma two_bytes: "length xs = 2 \<Longrightarrow> [xs ! 0, xs ! 1] = xs"
  by (cases xs; cases "tl xs") auto

definition store_ok :: "'a Store_scheme \<Rightarrow> bool" where
  "store_ok st \<longleftrightarrow> length (symbol (beacon (g_settings st))) = 2 \<and> length (nvSettings st) = sizeof_SettingsData \<and>
     length (nvCallData st) = sizeof_CallData \<and> length (nvBeaconText st) = SETTINGS_BEACON_TEXT_MAX_LEN"

definition calldata_ok :: "CallData \<Rightarrow> bool" where
  "calldata_ok d \<longleftrightarrow> length (call (destCall d)) = 6 \<and> length (call (myCall d)) = 6 \<and>
     length (call (path1 d)) = 6 \<and> length (call (path2 d)) = 6"

lemma length_settings_bytes: "length (symbol (beacon s)) = 2 \<Longrightarrow> length (settings_bytes s) = sizeof_SettingsData"
  by (simp add: settings_bytes_def le16_def sizeof_SettingsData_def)

lemma settings_of_bytes_bytes: "length (symbol (beacon s)) = 2 \<Longrightarrow> settings_of_bytes (settings_bytes s) = s"
proof -
  assume "length (symbol (beacon s)) = 2"
  then obtain a b where "symbol (beacon s) = [a, b]" by (auto simp: numeral_2_eq_2 length_Suc_conv)
  then show ?thesis by (simp add: settings_bytes_def settings_of_bytes_def le16_def nth_Cons')
qed

lemma nth_list_11: "length b = 11 \<Longrightarrow> [b ! 0, b ! 1, b ! 2, b ! 3, b ! 4, b ! 5, b ! 6, b ! 7, b ! 8, b ! 9, b ! 10] = b"
proof -
  assume "length b = 11"
  then have "b = map ((!) b) [0..<11]" by (metis map_nth)
  also have "\<dots> = [b ! 0, b ! 1, b ! 2, b ! 3, b ! 4, b ! 5, b ! 6, b ! 7, b ! 8, b ! 9, b ! 10]"
    by (simp add: upt_rec eval_nat_numeral)
  finally show ?thesis by simp
qed

lemma settings_bytes_of_bytes: "length b = sizeof_SettingsData \<Longrightarrow> settings_bytes (settings_of_bytes b) = b"
  using nth_list_11 [of b] by (simp add: settings_bytes_def settings_of_bytes_def sizeof_SettingsData_def)

lemma length_call_bytes_struct [simp]: "length (call c) = 6 \<Longrightarrow> length (call_bytes c) = 7"
  by (simp add: call_bytes_def)

lemma call_of_bytes_bytes [simp]: "length (call c) = 6 \<Longrightarrow> call_of_bytes (call_bytes c @ r) = c"
  by (simp add: call_of_bytes_def call_bytes_def nth_append)

lemma call_of_bytes_take: "7 \<le> n \<Longrightarrow> 7 \<le> length b \<Longrightarrow> call_of_bytes (take n b) = call_of_bytes b"
  by (simp add: call_of_bytes_def min_def)

lemma length_calldata_bytes: "calldata_ok d \<Longrightarrow> length (calldata_bytes d) = sizeof_CallData"
  by (simp add: calldata_ok_def calldata_bytes_def sizeof_CallData_def)

lemma calldata_of_bytes_bytes: "calldata_ok d \<Longrightarrow> calldata_of_bytes (calldata_bytes d) = d"
  using call_of_bytes_bytes [of "path2 d" "[]"]
  by (simp add: calldata_ok_def calldata_of_bytes_def calldata_bytes_def)

lemma default_calldata_ok: "calldata_ok default_calldata"
  by (simp add: calldata_ok_def default_calldata_def str_def)

lemma get_call_data_ok: "store_ok st \<Longrightarrow> calldata_ok (settings_get_call_data st)"
  using default_calldata_ok
  by (simp add: settings_get_call_data_def calldata_ok_def calldata_of_bytes_def
      call_of_bytes_def store_ok_def sizeof_CallData_def eeprom_read_block_def)

lemma get_mycall_ok: "store_ok st \<Longrightarrow> length (call (settings_get_mycall st)) = 6"
  using default_calldata_ok
  by (simp add: settings_get_mycall_def calldata_ok_def call_of_bytes_def store_ok_def sizeof_CallData_def
      sizeof_AX25Call_def eeprom_read_block_def)

lemma calc_crc_settings:
  "length (symbol (beacon s)) = 2 \<Longrightarrow> calc_crc (settings_bytes s) (word_of_nat sizeof_SettingsData) = Some (checksum (settings_bytes s))"
  using length_settings_bytes [of s] by (simp add: calc_crc_checksum sizeof_SettingsData_def)

section \<open>Every operation keeps the store well formed\<close>

lemma store_ok_set_params [inv_intros]: "store_ok st \<Longrightarrow> store_ok (settings_set_params key v st)"
  by (simp add: store_ok_def settings_set_params_def Let_def split: SettingsParamKey.split)

lemma store_ok_set_params_bytes [inv_intros]: "store_ok st \<Longrightarrow> store_ok (snd (settings_set_params_bytes b n st))"
  by (simp add: store_ok_def settings_set_params_bytes_def settings_of_bytes_def)

lemma store_ok_clear [inv_intros]: "store_ok st \<Longrightarrow> store_ok (settings_clear st)"
  by (simp add: store_ok_def settings_clear_def)

lemma store_ok_set_call_data [inv_intros]: "store_ok st \<Longrightarrow> calldata_ok d \<Longrightarrow> store_ok (settings_set_call_data d st)"
  by (simp add: store_ok_def settings_set_call_data_def eeprom_update_block_def length_calldata_bytes)

lemma store_ok_set_beacon_text [inv_intros]: "store_ok st \<Longrightarrow> unat n \<le> length b \<Longrightarrow> store_ok (snd (settings_set_beacon_text b n st))"
  by (simp add: store_ok_def settings_set_beacon_text_def eeprom_update_block_def Let_def SETTINGS_BEACON_TEXT_MAX_LEN_def)

lemma settings_load_returns:
  assumes "store_ok st"
  shows "\<exists>ok st'. settings_load st = Some (ok, st') \<and> store_ok st'"
  using assms store_ok_clear
  by (auto simp: settings_load_def Let_def store_ok_def settings_of_bytes_def calc_crc_settings settings_clear_def)

lemma settings_save_returns:
  assumes "store_ok st"
  shows "\<exists>st'. settings_save st = Some (True, st') \<and> store_ok st' \<and> g_settings st' = g_settings st"
  using assms
  by (simp add: settings_save_def Let_def store_ok_def calc_crc_settings eeprom_update_block_def length_settings_bytes)

section \<open>Properties\<close>

definition settings_saved :: "'a Store_scheme \<Rightarrow> 'a Store_scheme" where
  "settings_saved st =
     st\<lparr>nvSettings := settings_bytes (g_settings st), nvSetHeadByte := NV_SETTINGS_HEAD_BYTE_VALUE,
        nvSetCrcByte := checksum (settings_bytes (g_settings st))\<rparr>"

lemma settings_save_ok: "store_ok st \<Longrightarrow> settings_save st = Some (True, settings_saved st)"
  by (simp add: settings_save_def Let_def store_ok_def calc_crc_settings eeprom_update_block_def
      length_settings_bytes settings_saved_def)

lemma settings_load_ok:
  assumes "nvSetHeadByte st = NV_SETTINGS_HEAD_BYTE_VALUE" and "length (nvSettings st) = sizeof_SettingsData"
  shows "settings_load st =
    (let st1 = st\<lparr>g_settings := settings_of_bytes (nvSettings st)\<rparr>
     in Some (if nvSetCrcByte st = checksum (nvSettings st) then (True, st1) else (False, settings_clear st1)))"
  using assms calc_crc_settings [of "settings_of_bytes (nvSettings st)"]
  by (simp add: settings_load_def eeprom_read_block_def settings_bytes_of_bytes Let_def)
    (simp add: settings_of_bytes_def)

text \<open>
  C13. Settings survive a restart: after \<^verbatim>\<open>settings_save\<close>, whatever the memory holds when the
  device comes up again, \<^verbatim>\<open>settings_load\<close> succeeds and restores exactly the saved parameters.
\<close>

theorem settings_persist:
  assumes "store_ok st"
  shows "\<exists>st1 st2. settings_save st = Some (True, st1) \<and> settings_load (st1\<lparr>g_settings := junk\<rparr>) = Some (True, st2) \<and>
    g_settings st2 = g_settings st"
proof -
  have s: "length (symbol (beacon (g_settings st))) = 2" using assms by (simp add: store_ok_def)
  have "settings_load ((settings_saved st)\<lparr>g_settings := junk\<rparr>) = Some (True, settings_saved st)"
    using s by (subst settings_load_ok) (simp_all add: settings_saved_def length_settings_bytes settings_of_bytes_bytes)
  with settings_save_ok [OF assms] show ?thesis by (auto simp: settings_saved_def)
qed

definition example_store :: Store where
  "example_store =
     \<lparr>g_settings = default_settings, nvSetHeadByte = 0xFF, nvSettings = replicate 11 0xFF, nvSetCrcByte = 0xFF,
      nvCallDataHeadByte = 0xFF, nvCallData = replicate 28 0xFF, nvBeaconTextHeadByte = 0xFF,
      nvBeaconText = replicate 128 0xFF\<rparr>"

lemma example_store_ok: "store_ok example_store"
  by (simp add: store_ok_def example_store_def default_settings_def sizeof_SettingsData_def sizeof_CallData_def
      SETTINGS_BEACON_TEXT_MAX_LEN_def str_def)

theorem settings_persist_witness:
  "\<exists>st1 st2. settings_save example_store = Some (True, st1) \<and>
     settings_load (st1\<lparr>g_settings := settings_of_bytes (replicate 11 0)\<rparr>) = Some (True, st2) \<and>
     run_mode (g_settings st2) = 1"
  using settings_persist [OF example_store_ok, of "settings_of_bytes (replicate 11 0)"]
  by (auto simp: example_store_def default_settings_def)

lemma sum_list_update_word:
  "i < length xs \<Longrightarrow> sum_list (xs[i := x]) = sum_list xs - xs ! i + (x :: u8)"
proof (induction xs arbitrary: i)
  case (Cons a xs)
  then show ?case by (cases i) simp_all
qed simp

lemma checksum_detects: "i < length xs \<Longrightarrow> x \<noteq> xs ! i \<Longrightarrow> checksum (xs[i := x]) \<noteq> checksum xs"
proof -
  assume i: "i < length xs" and x: "x \<noteq> xs ! i"
  have "sum_list (xs[i := x]) \<noteq> sum_list xs"
    using x by (simp add: sum_list_update_word [OF i] algebra_simps)
  then show ?thesis by (auto simp: checksum_def dest: arg_cong [where f = "NOT"])
qed

text \<open>
  C34. A stored block in which one byte has changed is never accepted: \<^verbatim>\<open>settings_load\<close> fails, erases
  the markers of the settings, the call signs and the beacon text, so that every later load fails too
  and the call signs are the defaults; but the damaged parameters stay in force in memory.
\<close>

theorem settings_corruption_detected:
  assumes "store_ok st" and "i < sizeof_SettingsData" and "x \<noteq> settings_bytes (g_settings st) ! i"
  shows "\<exists>st1 st2. settings_save st = Some (True, st1) \<and>
    settings_load (st1\<lparr>nvSettings := (nvSettings st1)[i := x]\<rparr>) = Some (False, st2) \<and>
    settings_load st2 = Some (False, st2) \<and> settings_get_call_data st2 = default_calldata \<and>
    g_settings st2 = settings_of_bytes ((settings_bytes (g_settings st))[i := x])"
proof -
  let ?b = "settings_bytes (g_settings st)"
  let ?st = "(settings_saved st)\<lparr>nvSettings := (nvSettings (settings_saved st))[i := x]\<rparr>"
  have l: "length ?b = sizeof_SettingsData" using assms(1) by (simp add: store_ok_def length_settings_bytes)
  have d: "checksum (?b[i := x]) \<noteq> checksum ?b" using l assms(2,3) by (intro checksum_detects) simp_all
  have "settings_load ?st = Some (False, settings_clear (?st\<lparr>g_settings := settings_of_bytes (?b[i := x])\<rparr>))"
    using l d by (subst settings_load_ok) (auto simp: settings_saved_def)
  moreover have "settings_load (settings_clear (?st\<lparr>g_settings := settings_of_bytes (?b[i := x])\<rparr>)) =
      Some (False, settings_clear (?st\<lparr>g_settings := settings_of_bytes (?b[i := x])\<rparr>))"
    by (simp add: settings_load_def settings_clear_def NV_SETTINGS_HEAD_BYTE_VALUE_def)
  ultimately show ?thesis using settings_save_ok [OF assms(1)]
    by (auto simp: settings_clear_def settings_get_call_data_def NV_SETTINGS_HEAD_BYTE_VALUE_def)
qed

theorem settings_corruption_detected_witness:
  "\<exists>st1 st2. settings_save example_store = Some (True, st1) \<and>
     settings_load (st1\<lparr>nvSettings := (nvSettings st1)[0 := 7]\<rparr>) = Some (False, st2) \<and> run_mode (g_settings st2) = 7"
proof -
  have "(7 :: u8) \<noteq> settings_bytes (g_settings example_store) ! 0"
    by (simp add: settings_bytes_def example_store_def default_settings_def)
  from settings_corruption_detected [OF example_store_ok _ this] show ?thesis
    by (auto simp: sizeof_SettingsData_def settings_of_bytes_def settings_bytes_def)
qed

text \<open>
  Call signs survive too: what \<^verbatim>\<open>settings_set_call_data\<close> stores is what
  \<^verbatim>\<open>settings_get_call_data\<close> returns, and \<^verbatim>\<open>settings_get_mycall\<close>, which reads at an offset of its own,
  returns the station's own call.
\<close>

lemma call_data_persists:
  assumes "store_ok st" and "calldata_ok d"
  shows "settings_get_call_data (settings_set_call_data d st) = d \<and>
    settings_get_mycall (settings_set_call_data d st) = myCall d"
proof -
  have l: "length (calldata_bytes d) = 28" "length (nvCallData st) = 28"
    using length_calldata_bytes [OF assms(2)] assms(1) by (simp_all add: store_ok_def sizeof_CallData_def)
  have m: "drop 7 (calldata_bytes d) = call_bytes (myCall d) @ call_bytes (path1 d) @ call_bytes (path2 d)"
    using assms(2) by (simp add: calldata_ok_def calldata_bytes_def)
  have "length (call (myCall d)) = 6" using assms(2) by (simp add: calldata_ok_def)
  with l m calldata_of_bytes_bytes [OF assms(2)] call_of_bytes_bytes [of "myCall d" "[]"] show ?thesis
    by (simp add: settings_get_call_data_def settings_set_call_data_def settings_get_mycall_def eeprom_update_block_def
        eeprom_read_block_def sizeof_CallData_def sizeof_AX25Call_def call_of_bytes_take)
qed

lemma c_str_terminated: "0 \<notin> set xs \<Longrightarrow> c_str (take m (xs @ 0 # r)) = take m xs"
proof (induction xs arbitrary: m)
  case Nil
  then show ?case by (cases m) (simp_all add: c_str_def)
next
  case (Cons x xs)
  then show ?case by (cases m) (simp_all add: c_str_def)
qed

lemma beacon_text_read:
  assumes "store_ok st" and "unat n \<le> length txtb" and "0 \<notin> set (take (unat n) txtb)" and "bufLen \<noteq> 0"
  shows "settings_get_beacon_text bufLen (snd (settings_set_beacon_text txtb n st)) =
    (let t = take (min (unat bufLen - 1) 127) (take (unat n) txtb) in Some (t, word_of_nat (length t)))"
proof -
  let ?k = "min (unat n) 127" and ?m = "min (unat bufLen - 1) 128"
  let ?mem = "(eeprom_update_block (take ?k txtb) (nvBeaconText st))[?k := 0]"
  have "length (nvBeaconText st) = 128" using assms(1) by (simp add: store_ok_def SETTINGS_BEACON_TEXT_MAX_LEN_def)
  then have mem: "?mem = take ?k txtb @ 0 # drop (Suc ?k) (nvBeaconText st)"
    using assms(2) by (simp add: eeprom_update_block_def list_update_append Cons_nth_drop_Suc [symmetric])
  have "0 \<notin> set (take ?k txtb)"
    using assms(3) set_take_subset_set_take [of ?k "unat n" txtb] by auto
  then have "c_str (take ?m ?mem) = take ?m (take ?k txtb)" unfolding mem by (rule c_str_terminated)
  then have "c_str (take ?m ?mem) = take (min (unat bufLen - 1) 127) (take (unat n) txtb)"
    by (simp add: min_def)
  with assms(4) show ?thesis
    by (simp add: settings_get_beacon_text_def settings_set_beacon_text_def Let_def eeprom_read_block_def
        SETTINGS_BEACON_TEXT_MAX_LEN_def)
qed

text \<open>
  The beacon text round trip: a text without NUL is read back as its first 127 characters, cut to
  one less than the size of the caller's buffer.
\<close>

theorem beacon_text_roundtrip:
  assumes "store_ok st" and "unat n \<le> length txtb" and "0 \<notin> set (take (unat n) txtb)" and "bufLen \<noteq> 0"
  shows "settings_get_beacon_text bufLen (snd (settings_set_beacon_text txtb n st)) =
    (let t = take (min (unat bufLen - 1) 127) (take (unat n) txtb) in Some (t, word_of_nat (length t)))"
  using assms by (rule beacon_text_read)

theorem beacon_text_roundtrip_witness:
  "settings_get_beacon_text 64 (snd (settings_set_beacon_text (str ''>hi'') 3 example_store)) = Some (str ''>hi'', 3)"
proof -
  have "settings_get_beacon_text 64 (snd (settings_set_beacon_text (str ''>hi'') 3 example_store)) =
      (let t = take (min (unat (64 :: u8) - 1) 127) (take (unat (3 :: u8)) (str ''>hi'')) in Some (t, word_of_nat (length t)))"
    by (rule beacon_text_roundtrip [OF example_store_ok]) (simp_all add: str_def)
  then show ?thesis by (simp add: str_def)
qed

end
