(* ===== verification/Printf_Rules.thy ===== *)
theory Printf_Rules
  imports Formatwr
begin

text \<open>
  How the conversions the program uses evaluate: rewrite rules, collected as \<open>printf_rules\<close>, that
  take \<open>formatted_write\<close> apart on a literal format string, and the totality of the string conversion.
\<close>

named_theorems printf_rules "evaluation of the formatter on literal formats"

definition show_int :: "u16 \<Rightarrow> bytes" where
  "show_int w = (if sint w < 0 then [chr CHR ''-''] else []) @ fmt_digits 10 HEX_tab (nat \<bar>sint w\<bar>)"

definition show_uint :: "u16 \<Rightarrow> bytes" where
  "show_uint w = fmt_digits 10 HEX_tab (unat w)"

lemma fw_nil [printf_rules]: "formatted_write [] args = Some []"
  by (simp add: formatted_write.simps)

lemma fw_lit [printf_rules]:
  "c \<noteq> 0 \<Longrightarrow> c \<noteq> 37 \<Longrightarrow> formatted_write (c # fmt) args = map_option ((#) c) (formatted_write fmt args)"
  by (subst formatted_write.simps) (cases "formatted_write fmt args", simp_all add: chr_def)

lemma fw_spec:
  assumes "hd fmt \<noteq> 37" and "fmt_spec fmt args = Some (out, fmt', args')"
  shows "formatted_write (37 # fmt) args = map_option ((@) out) (formatted_write fmt' args')"
  using assms by (subst formatted_write.simps) (cases "formatted_write fmt' args'", simp_all add: chr_def)

lemma fw_d [printf_rules]:
  "formatted_write (37 # 100 # fmt) (W w # args) = map_option ((@) (show_int w)) (formatted_write fmt args)"
  using fmt_spec_d [of fmt w args] by (intro fw_spec) (simp_all add: show_int_def chr_def)

lemma fw_u [printf_rules]:
  "formatted_write (37 # 117 # fmt) (W w # args) = map_option ((@) (show_uint w)) (formatted_write fmt args)"
proof (rule fw_spec)
  have u: "unat (ucast w :: u32) = unat w"
  proof -
    have "uint (ucast w :: u32) = uint w" by (rule uint_up_ucast) (simp add: is_up)
    then show ?thesis by (simp only: unat_eq_nat_uint)
  qed
  then show "fmt_spec (117 # fmt) (W w # args) = Some (show_uint w, fmt, args)"
    using fmt_digits_dec [of "unat w"]
    by (simp add: fmt_spec_def chr_def fmt_read_width_def fmt_read_precision_def fmt_read_modifier_def fmt_flags0_def
        c_isdigit_def fmt_convert_def va_int_def fmt_integral_def fmt_emit_def Let_def show_uint_def)
qed simp

lemma fw_c [printf_rules]:
  "formatted_write (37 # 99 # fmt) (W w # args) = map_option ((#) (ucast w)) (formatted_write fmt args)"
proof -
  have "formatted_write (37 # 99 # fmt) (W w # args) = map_option ((@) [ucast w]) (formatted_write fmt args)"
    by (rule fw_spec) (simp_all add: fmt_spec_def chr_def fmt_read_width_def fmt_read_precision_def fmt_read_modifier_def
        fmt_flags0_def c_isdigit_def fmt_convert_def va_int_def fmt_emit_def)
  then show ?thesis by (cases "formatted_write fmt args") simp_all
qed

lemma fw_s [printf_rules]:
  "fmt_strn 10000 m = Some s \<Longrightarrow>
   formatted_write (37 # 115 # fmt) (P (Some m) # args) = map_option ((@) s) (formatted_write fmt args)"
  by (rule fw_spec) (cases s; simp add: fmt_spec_def chr_def fmt_read_width_def fmt_read_precision_def fmt_read_modifier_def
      fmt_flags0_def c_isdigit_def fmt_convert_def fmt_string_def fmt_emit_def)+

lemma fw_6s [printf_rules]:
  "fmt_strn 6 m = Some s \<Longrightarrow>
   formatted_write (37 # 46 # 54 # 115 # fmt) (P (Some m) # args) = map_option ((@) s) (formatted_write fmt args)"
  by (rule fw_spec) (cases s; simp add: fmt_spec_def chr_def fmt_read_width_def fmt_read_precision_def fmt_read_modifier_def
      fmt_flags0_def c_isdigit_def fmt_convert_def fmt_string_def fmt_emit_def)+

lemma fw_star_s [printf_rules]:
  "0 \<le> sint n \<Longrightarrow> fmt_strn (nat (sint n)) m = Some s \<Longrightarrow>
   formatted_write (37 # 46 # 42 # 115 # fmt) (W n # P (Some m) # args) = map_option ((@) s) (formatted_write fmt args)"
  by (rule fw_spec) (cases s; simp add: fmt_spec_def chr_def fmt_read_width_def fmt_read_precision_def fmt_read_modifier_def
      fmt_flags0_def c_isdigit_def fmt_convert_def va_int_def fmt_string_def fmt_emit_def)+

lemma strn_enough: "n \<le> length m \<Longrightarrow> fmt_strn n m = Some (c_str (take n m))"
  by (induction n m rule: fmt_strn.induct) (simp_all add: c_str_def)

lemma strn_terminated: "length s < n \<Longrightarrow> 0 \<notin> set s \<Longrightarrow> fmt_strn n (s @ 0 # r) = Some s"
proof (induction s arbitrary: n)
  case Nil
  then show ?case by (cases n) simp_all
next
  case (Cons c s)
  then show ?case by (cases n) simp_all
qed

text \<open>The 16-bit argument of a 32-bit counter that is printed with \<^verbatim>\<open>%d\<close> is its low half.\<close>

lemma fw_d_long:
  "formatted_write (37 # 100 # fmt) (va_long w @ args) =
   map_option ((@) (show_int (ucast w))) (formatted_write fmt (W (ucast (drop_bit 16 w)) # args))"
  by (simp add: va_long_def fw_d)

end
