(* ===== verification/Reader.thy ===== *)
theory Reader
  imports Printf_Rules Ser Settings
begin

text \<open>
  The line reader of \<^verbatim>\<open>TinyAPRS/reader.[ch]\<close> over the serial port, and the global variables of
  \<^verbatim>\<open>global.h\<close> that the application modules share. The reader's buffer has 330 bytes, its fill counter
  8 bits. Its data pointer is either unset or the buffer itself, so it is a flag here.
\<close>

section \<open>The reader\<close>

record SerialReader =
  rd_buf :: bytes
  bufLen :: u16
  readLen :: u8
  data_set :: bool
  dataLen :: u16

definition READER_BUF_LEN :: nat where "READER_BUF_LEN = CONFIG_AX25_FRAME_BUF_LEN"

definition serialreader_init :: SerialReader where
  "serialreader_init = \<lparr>rd_buf = replicate READER_BUF_LEN 0, bufLen = word_of_nat READER_BUF_LEN, readLen = 0,
     data_set = False, dataLen = 0\<rparr>"

definition serialreader_reset :: "Serial \<times> SerialReader \<Rightarrow> Serial \<times> SerialReader" where
  "serialreader_reset s = (ser_clearerr (fst s), (snd s)\<lparr>dataLen := 0, readLen := 0\<rparr>)"

text \<open>What \<^verbatim>\<open>serialreader_readline\<close> does with a character that has arrived.\<close>

definition serialreader_char :: "u8 \<Rightarrow> SerialReader \<Rightarrow> u16 \<times> SerialReader" where
  "serialreader_char c r =
     (let eol = (c = 13 \<or> c = 10);
          r = (if eol then r else r\<lparr>rd_buf := (rd_buf r)[unat (readLen r) := c], readLen := readLen r + 1\<rparr>)
      in if \<not> eol \<and> ucast (readLen r) < bufLen r - 1 then (0, r)
         else if 0 < readLen r then
           let r = r\<lparr>rd_buf := (rd_buf r)[unat (readLen r) := 0], data_set := True, dataLen := ucast (readLen r)\<rparr>
           in (dataLen r, r\<lparr>readLen := 0\<rparr>)
         else (0, r))"

definition serialreader_readline :: "Serial \<times> SerialReader \<Rightarrow> u16 \<times> Serial \<times> SerialReader" where
  "serialreader_readline s =
     (case ser_getchar_now (fst s) of
        (None, ser) \<Rightarrow> (0, ser, snd s)
      | (Some c, ser) \<Rightarrow> let (n, r) = serialreader_char c (snd s) in (n, ser, r))"

section \<open>The shared globals\<close>

text \<open>
  \<open>clock\<close> is the tick counter of the timer, \<open>free_ram\<close> what \<^verbatim>\<open>freeRam\<close> reports; \<open>resetting\<close> is set when
  \<^verbatim>\<open>soft_reset\<close> has armed the watchdog, after which the program only waits for the restart.
\<close>

record Globals = Store +
  g_serial :: Serial
  g_serialreader :: SerialReader
  clock :: i32
  free_ram :: u16
  resetting :: bool

definition soft_reset :: "'a Globals_scheme \<Rightarrow> 'a Globals_scheme" where
  "soft_reset g = g\<lparr>resetting := True\<rparr>"

definition g_delay :: "i32 \<Rightarrow> 'a Globals_scheme \<Rightarrow> 'a Globals_scheme option" where
  "g_delay ms g = do { t \<leftarrow> timer_delay ms (clock g); Some (g\<lparr>clock := t\<rparr>) }"

text \<open>\<^verbatim>\<open>SERIAL_PRINTF_P\<close>, \<^verbatim>\<open>SERIAL_PRINT_P\<close> and the other calls that write to the serial port.\<close>

definition g_printf :: "bytes \<Rightarrow> va_word list \<Rightarrow> 'a Globals_scheme \<Rightarrow> 'a Globals_scheme option" where
  "g_printf fmt args g = do { ser \<leftarrow> kfile_printf ser_fd fmt args (g_serial g); Some (g\<lparr>g_serial := ser\<rparr>) }"

definition g_putchar :: "u8 \<Rightarrow> 'a Globals_scheme \<Rightarrow> 'a Globals_scheme option" where
  "g_putchar c g = do { (_, ser) \<leftarrow> ser_putchar c (g_serial g); Some (g\<lparr>g_serial := ser\<rparr>) }"

definition g_flush :: "'a Globals_scheme \<Rightarrow> 'a Globals_scheme option" where
  "g_flush g = do { ser \<leftarrow> ser_flush (g_serial g); Some (g\<lparr>g_serial := ser\<rparr>) }"

definition g_purge :: "'a Globals_scheme \<Rightarrow> 'a Globals_scheme" where
  "g_purge g = g\<lparr>g_serial := ser_purge (g_serial g)\<rparr>"

definition g_readline :: "'a Globals_scheme \<Rightarrow> u16 \<times> 'a Globals_scheme" where
  "g_readline g =
     (let (n, ser, r) = serialreader_readline (g_serial g, g_serialreader g)
      in (n, g\<lparr>g_serial := ser, g_serialreader := r\<rparr>))"

section \<open>Output to the serial port\<close>

definition g_puts :: "'a Globals_scheme \<Rightarrow> 'a Globals_scheme option \<Rightarrow> bytes \<Rightarrow> bool" where
  "g_puts g r bs \<longleftrightarrow> (\<exists>ser. r = Some (g\<lparr>g_serial := ser\<rparr>) \<and> ser_tx_ok ser \<and> ser_sent ser = ser_sent (g_serial g) @ bs)"

lemma g_putsE:
  assumes "g_puts g r bs"
  obtains ser where "r = Some (g\<lparr>g_serial := ser\<rparr>)" "ser_tx_ok ser" "ser_sent ser = ser_sent (g_serial g) @ bs"
  using assms by (auto simp: g_puts_def)

lemma g_puts_bind:
  assumes "g_puts g r bs" and "\<And>ser. ser_tx_ok ser \<Longrightarrow> g_puts (g\<lparr>g_serial := ser\<rparr>) (f (g\<lparr>g_serial := ser\<rparr>)) cs"
  shows "g_puts g (do { g \<leftarrow> r; f g }) (bs @ cs)"
proof -
  from assms(1) obtain ser where 1: "r = Some (g\<lparr>g_serial := ser\<rparr>)" "ser_tx_ok ser"
    "ser_sent ser = ser_sent (g_serial g) @ bs" by (rule g_putsE)
  from assms(2) [OF 1(2)] obtain ser2 where
    "f (g\<lparr>g_serial := ser\<rparr>) = Some (g\<lparr>g_serial := ser2\<rparr>)" "ser_tx_ok ser2" "ser_sent ser2 = ser_sent ser @ cs"
    by (auto simp: g_puts_def)
  with 1 show ?thesis by (auto simp: g_puts_def)
qed

lemma g_puts_nothing: "ser_tx_ok (g_serial g) \<Longrightarrow> g_puts g (Some g) []"
  by (auto simp: g_puts_def intro: exI [of _ "g_serial g"])

lemma g_puts_char: "ser_tx_ok (g_serial g) \<Longrightarrow> g_puts g (g_putchar c g) [c]"
  using ser_putchar_ok [of "g_serial g" c] by (auto simp: g_puts_def g_putchar_def)

lemma g_puts_printf:
  "ser_tx_ok (g_serial g) \<Longrightarrow> formatted_write fmt args = Some out \<Longrightarrow> g_puts g (g_printf fmt args g) out"
  using ser_out.printf_ok [of fmt args out "g_serial g"] by (auto simp: g_puts_def g_printf_def)

lemma g_puts_flush: "ser_tx_ok (g_serial g) \<Longrightarrow> g_puts g (g_flush g) []"
  using ser_flush_returns [of "g_serial g"] by (auto simp: g_puts_def g_flush_def)

section \<open>Reading a line\<close>

fun reader_feed :: "bytes \<Rightarrow> SerialReader \<Rightarrow> u16 list \<times> SerialReader" where
  "reader_feed [] r = ([], r)"
| "reader_feed (c # cs) r =
     (let (n, r) = serialreader_char c r; (ns, r) = reader_feed cs r in (n # ns, r))"

lemma reader_feed_append:
  "reader_feed (xs @ ys) r =
     (let (ns, r) = reader_feed xs r; (ms, r) = reader_feed ys r in (ns @ ms, r))"
  by (induction xs arbitrary: r) (simp_all add: split_beta Let_def)

definition eol :: "u8 \<Rightarrow> bool" where
  "eol c \<longleftrightarrow> c = 13 \<or> c = 10"

definition reader_ok :: "SerialReader \<Rightarrow> bool" where
  "reader_ok r \<longleftrightarrow> length (rd_buf r) = READER_BUF_LEN \<and> bufLen r = word_of_nat READER_BUF_LEN"

lemma reader_ok_init: "reader_ok serialreader_init"
  by (simp add: reader_ok_def serialreader_init_def)

lemma u8_below_buffer: "ucast (n :: u8) < (329 :: u16)"
proof -
  have "unat n < 256" by simp
  then have "unat n < 329" by linarith
  then show ?thesis by (simp add: word_less_nat_alt unat_ucast_u16)
qed

lemma reader_char_ok:
  assumes "reader_ok r" and "\<not> eol c"
  shows "serialreader_char c r =
    (0, r\<lparr>rd_buf := (rd_buf r)[unat (readLen r) := c], readLen := readLen r + 1\<rparr>)"
  using assms u8_below_buffer [of "readLen r + 1"]
  by (simp add: serialreader_char_def reader_ok_def eol_def Let_def READER_BUF_LEN_def CONFIG_AX25_FRAME_BUF_LEN_def)

lemma reader_char_keeps: "reader_ok r \<Longrightarrow> reader_ok (snd (serialreader_char c r))"
  by (simp add: serialreader_char_def reader_ok_def Let_def)

lemma mod_256_Suc: "Suc n mod 256 = (if n mod 256 = 255 then 0 else Suc (n mod 256))"
  by (simp add: mod_Suc)

lemma feed_line:
  assumes "reader_ok r" and "readLen r = 0" and "\<not> list_ex eol xs"
  shows "fst (reader_feed xs r) = replicate (length xs) 0 \<and> reader_ok (snd (reader_feed xs r)) \<and>
    unat (readLen (snd (reader_feed xs r))) = length xs mod 256 \<and>
    take (length xs mod 256) (rd_buf (snd (reader_feed xs r))) = drop (length xs - length xs mod 256) xs"
  using assms(3)
proof (induction xs rule: rev_induct)
  case Nil
  with assms(1,2) show ?case by simp
next
  case (snoc x xs)
  define r1 where "r1 = snd (reader_feed xs r)"
  let ?k = "length xs mod 256"
  have ih: "reader_ok r1" "unat (readLen r1) = ?k" "take ?k (rd_buf r1) = drop (length xs - ?k) xs"
    "fst (reader_feed xs r) = replicate (length xs) 0" using snoc by (simp_all add: r1_def)
  have k: "?k < length (rd_buf r1)"
    using ih(1) mod_less_divisor [of 256 "length xs"]
    by (simp add: reader_ok_def READER_BUF_LEN_def CONFIG_AX25_FRAME_BUF_LEN_def del: mod_less_divisor)
  have f: "snd (reader_feed (xs @ [x]) r) = r1\<lparr>rd_buf := (rd_buf r1)[?k := x], readLen := readLen r1 + 1\<rparr>"
    "fst (reader_feed (xs @ [x]) r) = replicate (length xs) 0 @ [0]"
    using snoc.prems reader_char_ok [OF ih(1), of x] ih(2,4)
    by (simp_all add: reader_feed_append split_beta Let_def r1_def)
  have u: "unat (readLen r1 + 1) = length (xs @ [x]) mod 256"
    using ih(2) by (simp add: unat_word_ariths mod_simps)
  have t: "take (length (xs @ [x]) mod 256) ((rd_buf r1)[?k := x]) =
      drop (length (xs @ [x]) - length (xs @ [x]) mod 256) (xs @ [x])"
  proof (cases "?k = 255")
    case True
    then show ?thesis by (simp add: mod_256_Suc)
  next
    case False
    then have "take (Suc ?k) ((rd_buf r1)[?k := x]) = drop (length xs - ?k) xs @ [x]"
      using ih(3) k by (simp add: take_Suc_conv_app_nth)
    with False show ?thesis by (simp add: mod_256_Suc)
  qed
  show ?case using ih(1) u t by (simp add: f reader_ok_def replicate_append_same)
qed

text \<open>
  A line typed on the serial port is delivered when its end arrives, and only then: its length
  is reported and the buffer holds its characters, terminated. That is so for lines of up to 255
  characters; the 8-bit fill counter makes longer ones wrap, so that only the last \<^verbatim>\<open>length mod 256\<close>
  characters are delivered (none at all for a multiple of 256) and the test for a full buffer never
  holds.
\<close>

theorem reader_delivers_line:
  assumes "reader_ok r" and "readLen r = 0" and "\<not> list_ex eol xs" and "eol e"
  shows "let n = length xs mod 256; (ns, r') = reader_feed (xs @ [e]) r
    in ns = replicate (length xs) 0 @ [word_of_nat n] \<and> readLen r' = 0 \<and> reader_ok r' \<and>
       (0 < n \<longrightarrow> take (Suc n) (rd_buf r') = drop (length xs - n) xs @ [0] \<and> dataLen r' = word_of_nat n)"
proof -
  define r1 where "r1 = snd (reader_feed xs r)"
  let ?n = "length xs mod 256"
  note f = feed_line [OF assms(1-3), folded r1_def]
  have k: "?n < length (rd_buf r1)"
    using f mod_less_divisor [of 256 "length xs"]
    by (simp add: reader_ok_def READER_BUF_LEN_def CONFIG_AX25_FRAME_BUF_LEN_def del: mod_less_divisor)
  have w: "ucast (readLen r1) = (word_of_nat ?n :: u16)"
    using f by (metis of_nat_unat)
  have e: "c = 13 \<or> c = 10 \<longleftrightarrow> eol c" for c by (simp add: eol_def)
  have "serialreader_char e r1 =
      (if 0 < ?n then (word_of_nat ?n, r1\<lparr>rd_buf := (rd_buf r1)[?n := 0], data_set := True, dataLen := word_of_nat ?n, readLen := 0\<rparr>)
       else (0, r1))"
    using assms(4) f w by (simp add: serialreader_char_def e Let_def word_greater_zero_iff unat_eq_0 [symmetric] unat_gt_0)
  moreover have "0 < ?n \<Longrightarrow> take (Suc ?n) ((rd_buf r1)[?n := 0]) = drop (length xs - ?n) xs @ [0]"
    using f k by (simp add: take_Suc_conv_app_nth)
  moreover have "?n = 0 \<Longrightarrow> readLen r1 = 0" using f by (simp add: unat_eq_0)
  ultimately show ?thesis using f
    by (auto simp: reader_feed_append split_beta Let_def r1_def [symmetric] reader_ok_def)
qed

theorem reader_delivers_line_witness:
  "take 3 (rd_buf (snd (reader_feed (str ''??'' @ [13]) serialreader_init))) = str ''??'' @ [0]"
proof -
  have "readLen serialreader_init = 0" by (simp add: serialreader_init_def)
  moreover have "\<not> list_ex eol (str ''??'')" by (simp add: str_def eol_def)
  moreover have "eol 13" by (simp add: eol_def)
  ultimately show ?thesis using reader_delivers_line [OF reader_ok_init, of "str ''??''" 13]
    by (simp add: str_def split_beta Let_def numeral_3_eq_3)
qed

end
