(* ===== verification/Kiss.thy ===== *)
theory Kiss
  imports Reader Afsk_Channel
begin

text \<open>
  The KISS host interface of \<^verbatim>\<open>TinyAPRS/net/kiss.[ch]\<close>: framing on the serial port, the data command
  that transmits a frame (with carrier sense under half duplex) and the configuration commands. The
  state is the shared globals extended by the module's two static variables; the commands that reach
  the modem act on the AX.25 context and the modem too. Escapes are as in the source: no log output
  is compiled in at the configured level.
\<close>

section \<open>Data\<close>

definition KISS_FEND :: u8 where "KISS_FEND = 0xc0"
definition KISS_FESC :: u8 where "KISS_FESC = 0xdb"
definition KISS_TFEND :: u8 where "KISS_TFEND = 0xdc"
definition KISS_TFESC :: u8 where "KISS_TFESC = 0xdd"

definition KISS_CMD_DATA :: u8 where "KISS_CMD_DATA = 0"
definition KISS_CMD_CONFIG_TEXT :: u8 where "KISS_CMD_CONFIG_TEXT = 0x0B"
definition KISS_CMD_CONFIG_CALL :: u8 where "KISS_CMD_CONFIG_CALL = 0x0C"
definition KISS_CMD_CONFIG_PARAMS :: u8 where "KISS_CMD_CONFIG_PARAMS = 0x0D"
definition KISS_CMD_CONFIG_MAGIC :: u8 where "KISS_CMD_CONFIG_MAGIC = 0x0F"
definition KISS_CMD_Return :: u8 where "KISS_CMD_Return = 0xFF"
definition VERS_BUILD :: u16 where "VERS_BUILD = 2332"

record Kiss = Globals +
  kiss_rxTick :: i32
  kiss_escaped :: bool

type_synonym 'w tnc = "AX25Ctx \<times> Afsk \<times> 'w"

definition kiss_init :: "'a Kiss_scheme \<Rightarrow> 'a Kiss_scheme" where
  "kiss_init w = w\<lparr>kiss_rxTick := 0\<rparr>"

section \<open>To the serial port\<close>

definition send_to_serial_begin :: "u8 \<Rightarrow> u8 \<Rightarrow> 'a Globals_scheme \<Rightarrow> 'a Globals_scheme option" where
  "send_to_serial_begin port cmd g =
     do { g \<leftarrow> g_putchar KISS_FEND g; g_putchar ((push_bit 4 port AND 0xf0) OR (cmd AND 0x0f)) g }"

fun send_to_serial :: "bytes \<Rightarrow> 'a Globals_scheme \<Rightarrow> 'a Globals_scheme option" where
  "send_to_serial [] g = Some g"
| "send_to_serial (c # buf) g =
     (if c = KISS_FEND then
        do { g \<leftarrow> g_putchar KISS_FESC g; g \<leftarrow> g_putchar KISS_TFEND g; send_to_serial buf g }
      else
        do { g \<leftarrow> g_putchar c g;
             g \<leftarrow> (if c = KISS_FESC then g_putchar KISS_TFESC g else Some g);
             send_to_serial buf g })"

definition send_to_serial_end :: "'a Globals_scheme \<Rightarrow> 'a Globals_scheme option" where
  "send_to_serial_end g = g_putchar KISS_FEND g"

definition kiss_send_to_serial :: "u8 \<Rightarrow> u8 \<Rightarrow> bytes \<Rightarrow> 'a Globals_scheme \<Rightarrow> 'a Globals_scheme option" where
  "kiss_send_to_serial port cmd buf g =
     do { g \<leftarrow> send_to_serial_begin port cmd g; g \<leftarrow> send_to_serial buf g; send_to_serial_end g }"

text \<open>The answer to a configuration command: the data and its checksum in one frame.\<close>

definition kiss_respond :: "u8 \<Rightarrow> bytes \<Rightarrow> u8 \<Rightarrow> 'a Globals_scheme \<Rightarrow> 'a Globals_scheme option" where
  "kiss_respond cmd data crc g =
     do { g \<leftarrow> send_to_serial_begin 0 cmd g; g \<leftarrow> send_to_serial data g; g \<leftarrow> send_to_serial [crc] g;
          send_to_serial_end g }"

definition kiss_respond_config_magic_cmd :: "bytes \<Rightarrow> u16 \<Rightarrow> 'a Globals_scheme \<Rightarrow> 'a Globals_scheme option" where
  "kiss_respond_config_magic_cmd data len g =
     do { crc \<leftarrow> calc_crc data len; g \<leftarrow> kiss_respond KISS_CMD_CONFIG_MAGIC data crc g; g_flush g }"

section \<open>Configuration commands\<close>

text \<open>Reading past the received bytes is undefined (\<open>None\<close>).\<close>

definition verify_config_data :: "bytes \<Rightarrow> u16 \<Rightarrow> bool option" where
  "verify_config_data frame sz =
     (if sz = 0 then Some False
      else let len = sz - 1
           in if length frame \<le> unat len then None
              else do { crc \<leftarrow> calc_crc frame len; Some (frame ! unat len = crc) })"

definition kiss_handle_config_params_cmd :: "bytes \<Rightarrow> u16 \<Rightarrow> 'a Globals_scheme \<Rightarrow> 'a Globals_scheme option" where
  "kiss_handle_config_params_cmd data len g =
     (if len = 0 then
        do { crc \<leftarrow> calc_crc (settings_bytes (g_settings g)) (word_of_nat sizeof_SettingsData);
             kiss_respond KISS_CMD_CONFIG_PARAMS (settings_bytes (g_settings g)) crc g }
      else if unat len = sizeof_SettingsData then
        do { let (_, g) = settings_set_params_bytes data len g;
             (_, g) \<leftarrow> settings_save g;
             kiss_respond_config_magic_cmd [] 0 g }
      else Some g)"

text \<open>The beacon text is read into the reader's own buffer; its length is passed as a byte.\<close>

definition kiss_handle_config_text_cmd :: "bytes \<Rightarrow> u16 \<Rightarrow> 'a Globals_scheme \<Rightarrow> 'a Globals_scheme option" where
  "kiss_handle_config_text_cmd data len g =
     (if len = 0 then
        let r = (g_serialreader g)\<lparr>readLen := 0\<rparr>
        in do { (t, n) \<leftarrow> settings_get_beacon_text (ucast (bufLen r)) g;
                let r = r\<lparr>rd_buf := t @ [0] @ drop (length t + 1) (rd_buf r)\<rparr>;
                let g = g\<lparr>g_serialreader := r\<rparr>;
                if 0 < n then
                  do { crc \<leftarrow> calc_crc (rd_buf r) (ucast n);
                       kiss_respond KISS_CMD_CONFIG_TEXT (take (unat n) (rd_buf r)) crc g }
                else Some g }
      else
        let (_, g) = settings_set_beacon_text data (ucast len) g
        in kiss_respond_config_magic_cmd [] 0 g)"

definition kiss_handle_config_call_cmd :: "bytes \<Rightarrow> u16 \<Rightarrow> 'a Globals_scheme \<Rightarrow> 'a Globals_scheme option" where
  "kiss_handle_config_call_cmd data len g =
     (if len = 0 then
        let b = calldata_bytes (settings_get_call_data g)
        in do { crc \<leftarrow> calc_crc b (word_of_nat sizeof_CallData);
                kiss_respond KISS_CMD_CONFIG_CALL b crc g }
      else if unat len = sizeof_CallData then
        let g = settings_set_call_data (calldata_of_bytes data) g
        in kiss_respond_config_magic_cmd [] 0 g
      else Some g)"

definition kiss_handle_config_magic_cmd :: "bytes \<Rightarrow> u16 \<Rightarrow> 'a Globals_scheme \<Rightarrow> 'a Globals_scheme option" where
  "kiss_handle_config_magic_cmd data len g =
     (if len = 4 \<and> take 4 data = [0x0B, 0x00, 0x00, 0x07] then
        do { g \<leftarrow> kiss_respond_config_magic_cmd [] 0 g; Some (soft_reset g) }
      else if len = 4 \<and> take 4 data = [0x0B, 0x0A, 0x0B, 0x0E] then
        let vers = [0x01, 0x00, ucast (drop_bit 8 VERS_BUILD AND 0xff), ucast (VERS_BUILD AND 0xff)]
        in do { crc \<leftarrow> calc_crc vers 4; kiss_respond KISS_CMD_CONFIG_MAGIC vers crc g }
      else Some g)"

section \<open>To the modem\<close>

text \<open>
  The environment of the carrier sense loop: for each turn, the samples the ADC interrupt takes
  meanwhile and the value of \<^verbatim>\<open>rand\<close>. A turn either finds the channel free and transmits or backs
  off, or finds a frame coming in and polls the receiver. Running out of turns means that the loop
  is still waiting.
\<close>

type_synonym csma_turn = "u16 list \<times> u16"

definition afsk_samples :: "u16 list \<Rightarrow> Afsk \<Rightarrow> Afsk" where
  "afsk_samples adcs af = fold (\<lambda>adc af. snd (ADC_vect af adc)) adcs af"

definition csma_tp :: "u16 \<Rightarrow> u8" where
  "csma_tp i = ucast (drop_bit 8 i XOR (i AND 0xff))"

definition kiss_transmit :: "bytes \<Rightarrow> 'w tnc \<Rightarrow> 'w tnc option" where
  "kiss_transmit buf s =
     (let (ctx, af, w) = s in do { (ctx, af) \<leftarrow> ax25_sendRaw afsk_fd buf (ctx, af); Some (ctx, af, w) })"

fun kiss_csma ::
  "(Afsk, 'a Kiss_scheme) ax_hook option \<Rightarrow> AX25Msg \<Rightarrow> csma_turn list \<Rightarrow> bytes \<Rightarrow> 'a Kiss_scheme tnc \<Rightarrow> 'a Kiss_scheme tnc option" where
  "kiss_csma hook msg0 [] buf s = None"
| "kiss_csma hook msg0 ((adcs, rnd) # env) buf (ctx, af, w) =
     (let af = afsk_samples adcs af
      in if \<not> rxstart (hdlc af) then
           if csma_tp rnd < persistence (rf (g_settings w)) then kiss_transmit buf (ctx, af, w)
           else do { w \<leftarrow> g_delay (ucast (slot_time (rf (g_settings w))) * 10) w;
                     kiss_csma hook msg0 env buf (ctx, af, w) }
         else
           do { (ctx, af, w) \<leftarrow> ax25_poll afsk_fd hook msg0 (ctx, af, w);
                if status af \<noteq> 0 then Some (ctx, af\<lparr>status := 0\<rparr>, w)
                else kiss_csma hook msg0 env buf (ctx, af, w) })"

definition kiss_send_to_modem ::
  "(Afsk, 'a Kiss_scheme) ax_hook option \<Rightarrow> AX25Msg \<Rightarrow> csma_turn list \<Rightarrow> bytes \<Rightarrow> 'a Kiss_scheme tnc \<Rightarrow> 'a Kiss_scheme tnc option" where
  "kiss_send_to_modem hook msg0 env buf s =
     (if duplex (rf (g_settings (snd (snd s)))) = RF_DUPLEX_FULL then kiss_transmit buf s
      else kiss_csma hook msg0 env buf s)"

section \<open>From the serial port\<close>

definition on_globals :: "('w \<Rightarrow> 'w option) \<Rightarrow> 'w tnc \<Rightarrow> 'w tnc option" where
  "on_globals f s = (let (ctx, af, w) = s in do { w \<leftarrow> f w; Some (ctx, af, w) })"

definition kiss_config ::
  "(bytes \<Rightarrow> u16 \<Rightarrow> 'a Kiss_scheme \<Rightarrow> 'a Kiss_scheme option) \<Rightarrow> bytes \<Rightarrow> u16 \<Rightarrow> 'a Kiss_scheme \<Rightarrow> 'a Kiss_scheme option" where
  "kiss_config handler payload sz w =
     do { ok \<leftarrow> verify_config_data payload (sz - 1);
          if ok then handler payload (sz - 2) w else Some w }"

definition kiss_handle_frame ::
  "(Afsk, 'a Kiss_scheme) ax_hook option \<Rightarrow> AX25Msg \<Rightarrow> csma_turn list \<Rightarrow> bytes \<Rightarrow> u16 \<Rightarrow> 'a Kiss_scheme tnc \<Rightarrow> 'a Kiss_scheme tnc option" where
  "kiss_handle_frame hook msg0 env frame sz s =
     (if sz = 0 \<or> (sz = 1 \<and> frame ! 0 = KISS_CMD_Return) \<or> sz < 2 then Some s
      else
        let cmd = frame ! 0 AND 0x0f;
            port = drop_bit 4 (frame ! 0) AND 0x0f;
            payload = drop 1 frame
        in if 0 < port then Some s
           else if cmd = KISS_CMD_DATA then kiss_send_to_modem hook msg0 env (take (unat (sz - 1)) payload) s
           else if cmd = KISS_CMD_CONFIG_PARAMS then on_globals (kiss_config kiss_handle_config_params_cmd payload sz) s
           else if cmd = KISS_CMD_CONFIG_TEXT then on_globals (kiss_config kiss_handle_config_text_cmd payload sz) s
           else if cmd = KISS_CMD_CONFIG_CALL then on_globals (kiss_config kiss_handle_config_call_cmd payload sz) s
           else if cmd = KISS_CMD_CONFIG_MAGIC then on_globals (kiss_config kiss_handle_config_magic_cmd payload sz) s
           else Some s)"

definition set_readLen :: "u8 \<Rightarrow> 'a Globals_scheme \<Rightarrow> 'a Globals_scheme" where
  "set_readLen n g = g\<lparr>g_serialreader := (g_serialreader g)\<lparr>readLen := n\<rparr>\<rparr>"

text \<open>What \<^verbatim>\<open>kiss_poll_serial\<close> does with a character that has arrived: the sanity checks on the
  counter first, then framing and escapes.\<close>

definition kiss_sanity :: "'a Kiss_scheme \<Rightarrow> 'a Kiss_scheme" where
  "kiss_sanity w =
     (let w = (if readLen (g_serialreader w) \<noteq> 0 \<and> sint (ms_to_ticks 2000) < sint (clock w - kiss_rxTick w)
               then set_readLen 0 w else w)
      in if bufLen (g_serialreader w) - 2 \<le> ucast (readLen (g_serialreader w)) then set_readLen 0 w else w)"

definition kiss_store :: "u8 \<Rightarrow> 'a Kiss_scheme \<Rightarrow> 'a Kiss_scheme" where
  "kiss_store c w =
     (let r = g_serialreader w
      in w\<lparr>g_serialreader := r\<lparr>rd_buf := (rd_buf r)[unat (readLen r) := c], readLen := readLen r + 1\<rparr>,
           kiss_rxTick := clock w\<rparr>)"

definition kiss_char ::
  "(Afsk, 'a Kiss_scheme) ax_hook option \<Rightarrow> AX25Msg \<Rightarrow> csma_turn list \<Rightarrow> u8 \<Rightarrow> 'a Kiss_scheme tnc \<Rightarrow> 'a Kiss_scheme tnc option" where
  "kiss_char hook msg0 env c s =
     (let (ctx, af, w) = s; w = kiss_sanity w; r = g_serialreader w
      in if c = KISS_FEND then
           do { (ctx, af, w) \<leftarrow> (if \<not> kiss_escaped w \<and> 0 < readLen r
                                 then kiss_handle_frame hook msg0 env (rd_buf r) (ucast (readLen r)) (ctx, af, w)
                                 else Some (ctx, af, w));
                Some (ctx, af, (set_readLen 0 w)\<lparr>kiss_escaped := False\<rparr>) }
         else if c = KISS_FESC then Some (ctx, af, w\<lparr>kiss_escaped := True\<rparr>)
         else
           let c = (if kiss_escaped w \<and> c = KISS_TFESC then KISS_FESC
                    else if kiss_escaped w \<and> c = KISS_TFEND then KISS_FEND else c)
           in Some (ctx, af, kiss_store c (w\<lparr>kiss_escaped := False\<rparr>)))"

definition kiss_poll_serial ::
  "(Afsk, 'a Kiss_scheme) ax_hook option \<Rightarrow> AX25Msg \<Rightarrow> csma_turn list \<Rightarrow> 'a Kiss_scheme tnc \<Rightarrow> 'a Kiss_scheme tnc option" where
  "kiss_poll_serial hook msg0 env s =
     (let (ctx, af, w) = s
      in case ser_getchar_now (g_serial w) of
           (None, ser) \<Rightarrow> Some (ctx, af, w\<lparr>g_serial := ser\<rparr>)
         | (Some c, ser) \<Rightarrow> kiss_char hook msg0 env c (ctx, af, w\<lparr>g_serial := ser\<rparr>))"

definition kiss_poll ::
  "(Afsk, 'a Kiss_scheme) ax_hook option \<Rightarrow> AX25Msg \<Rightarrow> csma_turn list \<Rightarrow> 'a Kiss_scheme tnc \<Rightarrow> 'a Kiss_scheme tnc option" where
  "kiss_poll hook msg0 env s = kiss_poll_serial hook msg0 env s"

section \<open>Framing on the serial line\<close>

definition kiss_escape :: "bytes \<Rightarrow> bytes" where
  "kiss_escape bs = concat (map (\<lambda>c. if c = KISS_FEND then [KISS_FESC, KISS_TFEND]
     else if c = KISS_FESC then [KISS_FESC, KISS_TFESC] else [c]) bs)"

lemma kiss_escape_simps [simp]:
  "kiss_escape [] = []"
  "kiss_escape (c # bs) = (if c = KISS_FEND then [KISS_FESC, KISS_TFEND]
     else if c = KISS_FESC then [KISS_FESC, KISS_TFESC] else [c]) @ kiss_escape bs"
  by (simp_all add: kiss_escape_def)

lemma kiss_escape_append [simp]: "kiss_escape (xs @ ys) = kiss_escape xs @ kiss_escape ys"
  by (simp add: kiss_escape_def)

lemma fend_not_fesc [simp]: "KISS_FEND \<noteq> KISS_FESC" "KISS_FESC \<noteq> KISS_FEND" "KISS_TFEND \<noteq> KISS_FEND"
  "KISS_TFEND \<noteq> KISS_FESC" "KISS_TFESC \<noteq> KISS_FEND" "KISS_TFESC \<noteq> KISS_FESC" "KISS_TFEND \<noteq> KISS_TFESC"
  by (simp_all add: KISS_FEND_def KISS_FESC_def KISS_TFEND_def KISS_TFESC_def)

definition kiss_cmd_byte :: "u8 \<Rightarrow> u8 \<Rightarrow> u8" where
  "kiss_cmd_byte port cmd = (push_bit 4 port AND 0xf0) OR (cmd AND 0x0f)"

definition kiss_frame :: "u8 \<Rightarrow> bytes \<Rightarrow> bytes" where
  "kiss_frame cmd data = [KISS_FEND, cmd] @ kiss_escape data @ [KISS_FEND]"

lemma puts_serial: "ser_tx_ok (g_serial g) \<Longrightarrow> g_puts g (send_to_serial buf g) (kiss_escape buf)"
proof (induction buf arbitrary: g)
  case Nil
  then show ?case by (simp add: g_puts_nothing)
next
  case (Cons c buf)
  have r: "g_puts (g\<lparr>g_serial := ser\<rparr>) (send_to_serial buf (g\<lparr>g_serial := ser\<rparr>)) (kiss_escape buf)"
    if "ser_tx_ok ser" for ser using Cons.IH [of "g\<lparr>g_serial := ser\<rparr>"] that by simp
  show ?case
  proof (cases "c = KISS_FEND")
    case True
    have "g_puts g (do { g \<leftarrow> g_putchar KISS_FESC g; g \<leftarrow> g_putchar KISS_TFEND g; send_to_serial buf g })
        ([KISS_FESC] @ [KISS_TFEND] @ kiss_escape buf)"
      by (intro g_puts_bind g_puts_char) (use Cons.prems r in \<open>auto intro: g_puts_char\<close>)
    with True show ?thesis by simp
  next
    case False
    have "g_puts g (do { g \<leftarrow> g_putchar c g; g \<leftarrow> (if c = KISS_FESC then g_putchar KISS_TFESC g else Some g);
          send_to_serial buf g })
        ([c] @ (if c = KISS_FESC then [KISS_TFESC] else []) @ kiss_escape buf)"
      by (intro g_puts_bind g_puts_char) (use Cons.prems r in \<open>auto intro: g_puts_char g_puts_nothing\<close>)
    with False show ?thesis by (simp split: if_splits)
  qed
qed

lemma puts_begin: "ser_tx_ok (g_serial g) \<Longrightarrow> g_puts g (send_to_serial_begin port cmd g) [KISS_FEND, kiss_cmd_byte port cmd]"
  using g_puts_bind [OF g_puts_char [of g KISS_FEND], of "g_putchar (kiss_cmd_byte port cmd)" "[kiss_cmd_byte port cmd]"]
  by (simp add: send_to_serial_begin_def g_puts_char kiss_cmd_byte_def)

lemma puts_end: "ser_tx_ok (g_serial g) \<Longrightarrow> g_puts g (send_to_serial_end g) [KISS_FEND]"
  by (simp add: send_to_serial_end_def g_puts_char)

lemma puts_frame:
  "ser_tx_ok (g_serial g) \<Longrightarrow> g_puts g (kiss_send_to_serial port cmd buf g) (kiss_frame (kiss_cmd_byte port cmd) buf)"
proof -
  assume "ser_tx_ok (g_serial g)"
  then have "g_puts g (kiss_send_to_serial port cmd buf g)
      ([KISS_FEND, kiss_cmd_byte port cmd] @ kiss_escape buf @ [KISS_FEND])"
    unfolding kiss_send_to_serial_def
    by (intro g_puts_bind puts_begin puts_serial puts_end) simp_all
  then show ?thesis by (simp add: kiss_frame_def)
qed

lemma puts_respond:
  "ser_tx_ok (g_serial g) \<Longrightarrow> g_puts g (kiss_respond cmd data crc g) (kiss_frame (kiss_cmd_byte 0 cmd) (data @ [crc]))"
proof -
  assume "ser_tx_ok (g_serial g)"
  then have "g_puts g (kiss_respond cmd data crc g)
      ([KISS_FEND, kiss_cmd_byte 0 cmd] @ kiss_escape data @ kiss_escape [crc] @ [KISS_FEND])"
    unfolding kiss_respond_def
    by (intro g_puts_bind puts_begin puts_serial puts_end) simp_all
  then show ?thesis by (simp add: kiss_frame_def)
qed

definition KISS_OK :: bytes where
  "KISS_OK = kiss_frame (kiss_cmd_byte 0 KISS_CMD_CONFIG_MAGIC) [0xFF]"

lemma puts_magic_ok: "ser_tx_ok (g_serial g) \<Longrightarrow> g_puts g (kiss_respond_config_magic_cmd [] 0 g) KISS_OK"
proof -
  assume s: "ser_tx_ok (g_serial g)"
  have c: "calc_crc [] 0 = Some 0xFF" by (simp add: calc_crc_checksum checksum_def)
  have "g_puts g (do { g \<leftarrow> kiss_respond KISS_CMD_CONFIG_MAGIC [] 0xFF g; g_flush g }) (KISS_OK @ [])"
    using s puts_respond [OF s, where cmd = KISS_CMD_CONFIG_MAGIC and data = "[]" and crc = "0xFF"]
    by (intro g_puts_bind) (auto simp: KISS_OK_def intro: g_puts_flush)
  with c show ?thesis by (simp add: kiss_respond_config_magic_cmd_def)
qed

section \<open>Receiving a KISS frame\<close>

fun kiss_feed ::
  "(Afsk, 'a Kiss_scheme) ax_hook option \<Rightarrow> AX25Msg \<Rightarrow> csma_turn list \<Rightarrow> bytes \<Rightarrow> 'a Kiss_scheme tnc \<Rightarrow> 'a Kiss_scheme tnc option" where
  "kiss_feed hook msg0 env [] s = Some s"
| "kiss_feed hook msg0 env (c # cs) s = do { s \<leftarrow> kiss_char hook msg0 env c s; kiss_feed hook msg0 env cs s }"

lemma kiss_feed_append:
  "kiss_feed hook msg0 env (xs @ ys) s = do { s \<leftarrow> kiss_feed hook msg0 env xs s; kiss_feed hook msg0 env ys s }"
proof (induction xs arbitrary: s)
  case (Cons x xs)
  then show ?case by (cases "kiss_char hook msg0 env x s") simp_all
qed simp

lemma kiss_feed_around:
  "kiss_char hook msg0 env c s = Some s1 \<Longrightarrow> kiss_feed hook msg0 env xs s1 = Some s2 \<Longrightarrow>
   kiss_feed hook msg0 env (c # xs @ [d]) s = kiss_char hook msg0 env d s2"
  by (cases "kiss_char hook msg0 env d s2") (simp_all add: kiss_feed_append)

text \<open>The module in the middle of a frame: \<open>bs\<close> has been stored, the last byte less than two seconds ago.\<close>

definition kiss_has :: "bytes \<Rightarrow> 'a Kiss_scheme \<Rightarrow> bool" where
  "kiss_has bs w \<longleftrightarrow> reader_ok (g_serialreader w) \<and> \<not> kiss_escaped w \<and> unat (readLen (g_serialreader w)) = length bs \<and>
     take (length bs) (rd_buf (g_serialreader w)) = bs \<and> (bs \<noteq> [] \<longrightarrow> kiss_rxTick w = clock w)"

lemma kiss_sanity_id:
  assumes "reader_ok (g_serialreader w)" and "readLen (g_serialreader w) = 0 \<or> kiss_rxTick w = clock w"
  shows "kiss_sanity w = w"
proof -
  have "unat (readLen (g_serialreader w)) < 256" by simp
  then have "\<not> 328 \<le> unat (readLen (g_serialreader w))" by linarith
  then have "\<not> (328 :: u16) \<le> ucast (readLen (g_serialreader w))"
    by (simp add: word_le_nat_alt unat_ucast_u16)
  with assms show ?thesis
    by (auto simp: kiss_sanity_def reader_ok_def READER_BUF_LEN_def CONFIG_AX25_FRAME_BUF_LEN_def Let_def)
qed

lemma kiss_has_sanity: "kiss_has bs w \<Longrightarrow> kiss_sanity w = w"
  by (rule kiss_sanity_id) (auto simp: kiss_has_def unat_eq_zero)

lemma kiss_has_store:
  assumes "kiss_has bs w" and "length bs < 255"
  shows "kiss_has (bs @ [c]) (kiss_store c w)"
proof -
  let ?r = "g_serialreader w"
  have l: "length (rd_buf ?r) = 330" "length bs < length (rd_buf ?r)"
    using assms by (simp_all add: kiss_has_def reader_ok_def READER_BUF_LEN_def CONFIG_AX25_FRAME_BUF_LEN_def)
  have "take (Suc (length bs)) ((rd_buf ?r)[length bs := c]) = bs @ [c]"
    using assms(1) l(2) by (simp add: take_Suc_conv_app_nth kiss_has_def)
  moreover have "unat (readLen ?r + 1) = Suc (length bs)"
    using assms by (subst unat_suc_u8) (simp_all add: kiss_has_def)
  ultimately show ?thesis using assms(1) by (simp add: kiss_has_def kiss_store_def reader_ok_def Let_def)
qed

lemma kiss_store_frame: "kiss_store c w = w\<lparr>g_serialreader := g_serialreader (kiss_store c w), kiss_rxTick := clock w\<rparr>"
  by (simp add: kiss_store_def Let_def)

lemma kiss_byte:
  assumes "kiss_has bs w" and "length bs < 255"
  shows "kiss_feed hook msg0 env (kiss_escape [c]) (ctx, af, w) = Some (ctx, af, kiss_store c w)"
proof -
  have s: "kiss_sanity w = w" using kiss_has_sanity [OF assms(1)] .
  have e: "w\<lparr>kiss_escaped := False\<rparr> = w" using assms(1) by (simp add: kiss_has_def)
  have s2: "kiss_sanity (w\<lparr>kiss_escaped := True\<rparr>) = w\<lparr>kiss_escaped := True\<rparr>"
    by (rule kiss_sanity_id) (use assms(1) in \<open>auto simp: kiss_has_def unat_eq_zero\<close>)
  have n: "\<not> kiss_escaped w" using assms(1) by (simp add: kiss_has_def)
  have e2: "kiss_store d (w\<lparr>kiss_escaped := False\<rparr>) = kiss_store d w" for d by (simp only: e)
  show ?thesis using s s2 n by (auto simp: kiss_char_def Let_def e2)
qed

lemma kiss_feed_data:
  "kiss_has bs w \<Longrightarrow> length bs + length xs \<le> 255 \<Longrightarrow>
   \<exists>r. kiss_feed hook msg0 env (kiss_escape xs) (ctx, af, w) =
       Some (ctx, af, if xs = [] then w else w\<lparr>g_serialreader := r, kiss_rxTick := clock w\<rparr>) \<and>
     kiss_has (bs @ xs) (if xs = [] then w else w\<lparr>g_serialreader := r, kiss_rxTick := clock w\<rparr>)"
proof (induction xs arbitrary: bs w)
  case (Cons x xs)
  let ?w = "kiss_store x w"
  have h: "kiss_has (bs @ [x]) ?w" using Cons.prems by (intro kiss_has_store) simp_all
  have f: "kiss_feed hook msg0 env (kiss_escape (x # xs)) (ctx, af, w) =
      kiss_feed hook msg0 env (kiss_escape xs) (ctx, af, ?w)"
    using kiss_byte [OF Cons.prems(1), of hook msg0 env x ctx af] Cons.prems(2) kiss_escape_append [of "[x]" xs]
    by (simp only: append.simps kiss_feed_append) simp
  obtain r0 where s: "?w = w\<lparr>g_serialreader := r0, kiss_rxTick := clock w\<rparr>" using kiss_store_frame by blast
  obtain r where "kiss_feed hook msg0 env (kiss_escape xs) (ctx, af, ?w) =
      Some (ctx, af, if xs = [] then ?w else ?w\<lparr>g_serialreader := r, kiss_rxTick := clock ?w\<rparr>)"
    "kiss_has ((bs @ [x]) @ xs) (if xs = [] then ?w else ?w\<lparr>g_serialreader := r, kiss_rxTick := clock ?w\<rparr>)"
    using Cons.IH [OF h] Cons.prems(2) by auto
  then show ?case unfolding f s by (cases "xs = []") auto
qed simp

definition kiss_idle :: "'a Kiss_scheme \<Rightarrow> bool" where
  "kiss_idle w \<longleftrightarrow> reader_ok (g_serialreader w) \<and> \<not> kiss_escaped w \<and> readLen (g_serialreader w) = 0"

lemma kiss_receives:
  assumes "kiss_idle w" and "length data \<le> 254" and "c \<noteq> KISS_FEND" and "c \<noteq> KISS_FESC"
  shows "\<exists>r. take (Suc (length data)) (rd_buf r) = c # data \<and> reader_ok r \<and>
    kiss_feed hook msg0 env (kiss_frame c data) (ctx, af, w) =
      do { (ctx, af, w) \<leftarrow> kiss_handle_frame hook msg0 env (rd_buf r) (word_of_nat (Suc (length data)))
              (ctx, af, w\<lparr>g_serialreader := r, kiss_rxTick := clock w\<rparr>);
           Some (ctx, af, (set_readLen 0 w)\<lparr>kiss_escaped := False\<rparr>) }"
proof -
  have w0: "kiss_char hook msg0 env KISS_FEND (ctx, af, w) = Some (ctx, af, w)"
    using assms(1) kiss_sanity_id [of w] by (auto simp: kiss_char_def kiss_idle_def set_readLen_def Let_def)
  have h: "kiss_has [] w" using assms(1) by (simp add: kiss_idle_def kiss_has_def)
  obtain r where r: "kiss_feed hook msg0 env (kiss_escape (c # data)) (ctx, af, w) =
      Some (ctx, af, w\<lparr>g_serialreader := r, kiss_rxTick := clock w\<rparr>)"
    "kiss_has (c # data) (w\<lparr>g_serialreader := r, kiss_rxTick := clock w\<rparr>)"
    using kiss_feed_data [OF h, of "c # data" hook msg0 env ctx af] assms(2) by auto
  have e: "kiss_frame c data = KISS_FEND # kiss_escape (c # data) @ [KISS_FEND]"
    using assms(3,4) by (simp add: kiss_frame_def)
  let ?w = "w\<lparr>g_serialreader := r, kiss_rxTick := clock w\<rparr>"
  have s: "kiss_sanity ?w = ?w" using r(2) by (rule kiss_has_sanity)
  have u: "unat (readLen r) = Suc (length data)" using r(2) by (simp add: kiss_has_def)
  then have n: "0 < readLen r" "ucast (readLen r) = (word_of_nat (Suc (length data)) :: u16)"
    by (simp_all add: word_less_nat_alt) (metis of_nat_Suc of_nat_unat)
  have "kiss_feed hook msg0 env (kiss_frame c data) (ctx, af, w) = kiss_char hook msg0 env KISS_FEND (ctx, af, ?w)"
    unfolding e using w0 r(1) by (rule kiss_feed_around)
  also have "\<dots> = do { (ctx, af, w) \<leftarrow> kiss_handle_frame hook msg0 env (rd_buf r) (word_of_nat (Suc (length data))) (ctx, af, ?w);
           Some (ctx, af, (set_readLen 0 w)\<lparr>kiss_escaped := False\<rparr>) }"
    using s n r(2) by (simp add: kiss_char_def kiss_has_def Let_def)
  finally show ?thesis using r(2) u by (auto simp: kiss_has_def)
qed

section \<open>Properties\<close>

lemma port_of_cmd_byte: "port < 12 \<Longrightarrow> drop_bit 4 (kiss_cmd_byte port cmd) = port"
proof -
  assume "port < 12"
  then have "port < 16" by (simp add: word_less_nat_alt)
  then have p: "port \<in> {0, 1, 2, 3, 4, 5, 6, 7, 8, 9, 10, 11, 12, 13, 14, 15}" by (rule less_16_cases)
  have "drop_bit 4 (cmd AND 15) = 0"
    by (rule bit_word_eqI) (auto simp: bit_simps bit_numeral_rec dest: bit_imp_le_length)
  moreover have "drop_bit 4 (push_bit 4 port AND 240) = port" using p by auto
  ultimately show ?thesis by (simp add: kiss_cmd_byte_def)
qed

text \<open>
  C11. KISS framing is transparent: whatever one station writes to its serial port with
  \<^verbatim>\<open>kiss_send_to_serial\<close> (any data of up to 254 bytes, the frame delimiter and the escape included), an
  idle station that reads those bytes hands exactly the command byte and the data to
  \<^verbatim>\<open>kiss_handle_frame\<close>, once, and is idle again.
\<close>

theorem kiss_serial_roundtrip:
  assumes "ser_tx_ok (g_serial g)" and "kiss_idle w" and "length data \<le> 254" and "port < 12"
  shows "\<exists>g' bs r. kiss_send_to_serial port cmd data g = Some g' \<and>
    ser_sent (g_serial g') = ser_sent (g_serial g) @ bs \<and>
    take (Suc (length data)) (rd_buf r) = kiss_cmd_byte port cmd # data \<and>
    kiss_feed hook msg0 env bs (ctx, af, w) =
      do { (ctx, af, w) \<leftarrow> kiss_handle_frame hook msg0 env (rd_buf r) (word_of_nat (Suc (length data)))
              (ctx, af, w\<lparr>g_serialreader := r, kiss_rxTick := clock w\<rparr>);
           Some (ctx, af, (set_readLen 0 w)\<lparr>kiss_escaped := False\<rparr>) }"
proof -
  have "drop_bit 4 (kiss_cmd_byte port cmd) = port"
    using \<open>port < 12\<close> by (rule port_of_cmd_byte)
  then have c: "kiss_cmd_byte port cmd \<noteq> KISS_FEND" "kiss_cmd_byte port cmd \<noteq> KISS_FESC"
    using \<open>port < 12\<close> by (auto simp: KISS_FEND_def KISS_FESC_def)
  from puts_frame [OF assms(1), of port cmd data] obtain ser where
    "kiss_send_to_serial port cmd data g = Some (g\<lparr>g_serial := ser\<rparr>)"
    "ser_sent ser = ser_sent (g_serial g) @ kiss_frame (kiss_cmd_byte port cmd) data"
    by (auto elim: g_putsE)
  with kiss_receives [OF assms(2,3) c, of hook msg0 env ctx af] show ?thesis by force
qed

definition example_kiss :: Kiss where
  "example_kiss =
     \<lparr>g_settings = default_settings, nvSetHeadByte = 0xFF, nvSettings = replicate 11 0xFF, nvSetCrcByte = 0xFF,
      nvCallDataHeadByte = 0xFF, nvCallData = replicate 28 0xFF, nvBeaconTextHeadByte = 0xFF,
      nvBeaconText = replicate 128 0xFF, g_serial = ser_init 0, g_serialreader = serialreader_init, clock = 0,
      free_ram = 100, resetting = False, kiss_rxTick = 0, kiss_escaped = False\<rparr>"

lemma example_kiss_ok:
  "kiss_idle example_kiss" "ser_tx_ok (g_serial example_kiss)" "store_ok example_kiss"
  using ser_init_ok [of 0] reader_ok_init
  by (simp_all add: example_kiss_def kiss_idle_def serialreader_init_def store_ok_def default_settings_def str_def
      sizeof_SettingsData_def sizeof_CallData_def SETTINGS_BEACON_TEXT_MAX_LEN_def)

theorem kiss_serial_roundtrip_witness:
  "\<exists>g' bs r. kiss_send_to_serial 0 0 [0xc0, 0xdb] example_kiss = Some g' \<and>
     ser_sent (g_serial g') = ser_sent (g_serial example_kiss) @ bs \<and> take 3 (rd_buf r) = [0, 0xc0, 0xdb] \<and>
     kiss_feed None example_msg [] bs (ax25_init, afsk_init 0 0, example_kiss) =
      do { (ctx, af, w) \<leftarrow> kiss_handle_frame None example_msg [] (rd_buf r) 3
              (ax25_init, afsk_init 0 0, example_kiss\<lparr>g_serialreader := r, kiss_rxTick := clock example_kiss\<rparr>);
           Some (ctx, af, (set_readLen 0 w)\<lparr>kiss_escaped := False\<rparr>) }"
  using kiss_serial_roundtrip [OF example_kiss_ok(2,1), of "[0xc0, 0xdb]" 0 0 None example_msg "[]" ax25_init "afsk_init 0 0"]
  by (simp add: kiss_cmd_byte_def numeral_3_eq_3)

section \<open>Carrier sense\<close>

lemma poll_clears_status:
  assumes "ax25_poll afsk_fd hook msg0 s = Some (ctx, af, w)"
  shows "status af = 0"
proof -
  obtain ctx1 af1 w1 where l: "ax25_poll_loop afsk_fd hook msg0 s = Some (ctx1, af1, w1)"
    using assms by (cases "ax25_poll_loop afsk_fd hook msg0 s") (auto simp: ax25_poll_def)
  have "k_error afsk_fd af1 = status af1" "status (k_clearerr afsk_fd af1) = 0"
    by (simp_all add: afsk_fd_def afsk_error_def afsk_clearerr_def)
  with assms l show ?thesis by (cases "status af1 = 0") (auto simp: ax25_poll_def Let_def)
qed


lemma sint_of_nat_i32: "k < 2147483648 \<Longrightarrow> sint (word_of_nat k :: i32) = int k"
  by (simp add: signed_of_nat signed_take_bit_int_eq_self)

lemma ucast_i32: "(ucast (n :: u8) :: i32) = word_of_nat (unat n)"
  by simp

lemma u8_times_10: "sint (ucast (n :: u8) * 10 :: i32) = int (unat n * 10)"
proof -
  have "unat n < 256" by simp
  then have "unat n * 10 < 2147483648" by linarith
  then have "sint (word_of_nat (unat n * 10) :: i32) = int (unat n * 10)" by (rule sint_of_nat_i32)
  moreover have "(ucast n * 10 :: i32) = word_of_nat (unat n * 10)" unfolding ucast_i32 by (simp only: of_nat_mult of_nat_numeral)
  ultimately show ?thesis by metis
qed

text \<open>The AX.25 layer on the modem's channel.\<close>

lemmas modem_sendRaw_ok = kfile_out.sendRaw_ok [OF modem_out.kfile_out_axioms]
lemmas modem_sendVia_ok = kfile_writer.sendVia_ok [OF modem_out.kfile_writer_axioms]
lemmas modem_sendMsg_ok = kfile_out.sendMsg_ok [OF modem_out.kfile_out_axioms]

lemma kiss_transmit_ok:
  assumes "afsk_tx_ok af"
  shows "\<exists>af'. kiss_transmit buf (ctx, af, w) = Some (stat_tx_ok (ctx\<lparr>crc_out := AX25_CRC_CORRECT\<rparr>), af', w) \<and>
    afsk_tx_ok af' \<and> sent af' = sent af @ on_channel buf"
  using modem_sendRaw_ok [OF assms, of buf ctx] by (auto simp: kiss_transmit_def)

lemma csma_backoff:
  assumes "afsk_tx_ok af" and "\<not> rxstart (hdlc af)"
  shows "k < length rnds \<Longrightarrow> csma_tp (rnds ! k) < persistence (rf (g_settings w)) \<Longrightarrow>
    (\<forall>i<k. \<not> csma_tp (rnds ! i) < persistence (rf (g_settings w))) \<Longrightarrow>
    \<exists>af'. kiss_csma hook msg0 (map (Pair []) rnds) buf (ctx, af, w) =
        Some (stat_tx_ok (ctx\<lparr>crc_out := AX25_CRC_CORRECT\<rparr>), af',
              w\<lparr>clock := clock w + word_of_nat (k * (unat (slot_time (rf (g_settings w))) * 10))\<rparr>) \<and>
      sent af' = sent af @ on_channel buf"
proof (induction rnds arbitrary: k w)
  case (Cons r rnds)
  have s: "afsk_samples [] af = af" by (simp add: afsk_samples_def)
  show ?case
  proof (cases k)
    case 0
    with Cons.prems(2) assms(2) kiss_transmit_ok [OF assms(1), of buf ctx w] show ?thesis by (auto simp: s)
  next
    case (Suc j)
    let ?n = "unat (slot_time (rf (g_settings w))) * 10"
    let ?w = "w\<lparr>clock := clock w + word_of_nat ?n\<rparr>"
    have "g_delay (ucast (slot_time (rf (g_settings w))) * 10) w = Some ?w"
      using u8_times_10 [of "slot_time (rf (g_settings w))"] by (simp add: g_delay_def timer_delay_returns)
    moreover have "\<not> csma_tp r < persistence (rf (g_settings w))" using Cons.prems(3) Suc by (metis nth_Cons_0 zero_less_Suc)
    ultimately have "kiss_csma hook msg0 (map (Pair []) (r # rnds)) buf (ctx, af, w) =
        kiss_csma hook msg0 (map (Pair []) rnds) buf (ctx, af, ?w)" using assms(2) by (simp add: s)
    moreover have "\<forall>i<j. \<not> csma_tp (rnds ! i) < persistence (rf (g_settings ?w))"
      using Cons.prems(3) Suc by force
    ultimately show ?thesis using Cons.IH [of j ?w] Cons.prems(1,2) Suc by (simp add: add.assoc distrib_right)
  qed
qed simp

lemma example_csma:
  "afsk_tx_ok (afsk_init 0 0)" "\<not> rxstart (hdlc (afsk_init 0 0))" "sent (afsk_init 0 0) = []"
  "csma_tp 0 < persistence (rf (g_settings example_kiss))" "\<not> csma_tp 0xff00 < persistence (rf (g_settings example_kiss))"
  "unat (slot_time (rf (g_settings example_kiss))) = 10" "clock example_kiss = 0"
  by (simp_all add: afsk_init_ok csma_tp_def example_kiss_def default_settings_def)
    (simp_all add: afsk_init_def sent_def)




section \<open>Configuration\<close>

lemma verify_ok:
  assumes "length d \<le> 253"
  shows "verify_config_data (d @ x # r) (word_of_nat (Suc (length d))) = Some (x = checksum d)"
proof -
  have n: "unat (word_of_nat (length d) :: u16) = length d"
    using assms by (simp add: unat_of_nat take_bit_nat_eq_self)
  have z: "(word_of_nat (Suc (length d)) :: u16) \<noteq> 0"
  proof
    assume "(word_of_nat (Suc (length d)) :: u16) = 0"
    then have "unat (word_of_nat (Suc (length d)) :: u16) = 0" by simp
    with assms show False by (simp add: unat_of_nat take_bit_nat_eq_self del: of_nat_Suc)
  qed
  have e: "word_of_nat (Suc (length d)) - 1 = (word_of_nat (length d) :: u16)" by simp
  show ?thesis unfolding verify_config_data_def e Let_def
    using assms n z calc_crc_checksum [of "word_of_nat (length d)" "d @ x # r"]
    by (simp add: nth_append del: of_nat_Suc)
qed

lemma kiss_config_ok:
  assumes "length d \<le> 253"
  shows "kiss_config handler (d @ x # r) (word_of_nat (length d + 2)) w =
    (if x = checksum d then handler (d @ x # r) (word_of_nat (length d)) w else Some w)"
proof -
  have e: "word_of_nat (length d + 2) - 1 = (word_of_nat (Suc (length d)) :: u16)"
    "word_of_nat (length d + 2) - 2 = (word_of_nat (length d) :: u16)" by simp_all
  show ?thesis unfolding kiss_config_def e verify_ok [OF assms] by simp
qed

text \<open>A configuration frame: a command byte on port 0, data and the checksum; \<open>r\<close> is what the buffer holds behind it.\<close>

definition config_cmds :: "u8 set" where
  "config_cmds = {KISS_CMD_CONFIG_PARAMS, KISS_CMD_CONFIG_TEXT, KISS_CMD_CONFIG_CALL, KISS_CMD_CONFIG_MAGIC}"

definition config_handler :: "u8 \<Rightarrow> bytes \<Rightarrow> u16 \<Rightarrow> 'a Kiss_scheme \<Rightarrow> 'a Kiss_scheme option" where
  "config_handler cmd = (if cmd = KISS_CMD_CONFIG_PARAMS then kiss_handle_config_params_cmd
     else if cmd = KISS_CMD_CONFIG_TEXT then kiss_handle_config_text_cmd
     else if cmd = KISS_CMD_CONFIG_CALL then kiss_handle_config_call_cmd else kiss_handle_config_magic_cmd)"

lemma handle_config_frame:
  assumes "cmd \<in> config_cmds" and "length d \<le> 253"
  shows "kiss_handle_frame hook msg0 env (cmd # d @ x # r) (word_of_nat (length d + 2)) (ctx, af, w) =
    (if x = checksum d then do { w \<leftarrow> config_handler cmd (d @ x # r) (word_of_nat (length d)) w; Some (ctx, af, w) }
     else Some (ctx, af, w))"
proof -
  define n where "n = (word_of_nat (length d + 2) :: u16)"
  have "unat n = length d + 2" unfolding n_def unat_of_nat using assms(2) by (intro mod_less) simp
  then have sz: "\<not> n < 2" "n \<noteq> 0" "n \<noteq> 1" by (auto simp: word_less_nat_alt)
  have c: "cmd AND 0x0f = cmd" "drop_bit 4 cmd AND 0x0f = 0" "cmd \<noteq> KISS_CMD_DATA"
    using assms(1) by (auto simp: config_cmds_def KISS_CMD_CONFIG_PARAMS_def KISS_CMD_CONFIG_TEXT_def
        KISS_CMD_CONFIG_CALL_def KISS_CMD_CONFIG_MAGIC_def KISS_CMD_DATA_def)
  show ?thesis unfolding n_def [symmetric]
    using assms(1) sz c by (auto simp: kiss_handle_frame_def Let_def on_globals_def
        kiss_config_ok [OF assms(2), folded n_def] config_cmds_def config_handler_def)
qed

lemma g_puts_SomeE:
  assumes "g_puts g r bs"
  obtains ser where "r = Some (g\<lparr>g_serial := ser\<rparr>)" "ser_sent ser = ser_sent (g_serial g) @ bs" "ser_tx_ok ser"
  using assms by (auto simp: g_puts_def)

lemma config_params_set:
  assumes "ser_tx_ok (g_serial w)" and "store_ok w" and "length (symbol (beacon s)) = 2"
  shows "\<exists>ser. kiss_handle_config_params_cmd (settings_bytes s @ r) 11 w =
      Some ((settings_saved (w\<lparr>g_settings := s\<rparr>))\<lparr>g_serial := ser\<rparr>) \<and>
    ser_sent ser = ser_sent (g_serial w) @ KISS_OK \<and> ser_tx_ok ser"
proof -
  let ?w = "settings_saved (w\<lparr>g_settings := s\<rparr>)"
  have "settings_of_bytes (settings_bytes s @ r) = s"
    using settings_of_bytes_bytes [OF assms(3)] length_settings_bytes [OF assms(3)]
    by (simp add: settings_of_bytes_def nth_append sizeof_SettingsData_def)
  then have 1: "settings_set_params_bytes (settings_bytes s @ r) 11 w = (True, w\<lparr>g_settings := s\<rparr>)"
    by (simp add: settings_set_params_bytes_def sizeof_SettingsData_def)
  have 2: "settings_save (w\<lparr>g_settings := s\<rparr>) = Some (True, ?w)"
    using assms(2,3) by (intro settings_save_ok) (simp add: store_ok_def)
  have "ser_tx_ok (g_serial ?w)" using assms(1) by (simp add: settings_saved_def)
  from puts_magic_ok [OF this] obtain ser where
    "kiss_respond_config_magic_cmd [] 0 ?w = Some (?w\<lparr>g_serial := ser\<rparr>)"
    "ser_sent ser = ser_sent (g_serial ?w) @ KISS_OK" "ser_tx_ok ser" by (rule g_puts_SomeE)
  with 1 2 show ?thesis
    by (simp add: kiss_handle_config_params_cmd_def sizeof_SettingsData_def) (auto simp: settings_saved_def)
qed

lemma config_params_get:
  assumes "ser_tx_ok (g_serial w)" and "length (symbol (beacon (g_settings w))) = 2"
  shows "g_puts w (kiss_handle_config_params_cmd data 0 w)
    (kiss_frame KISS_CMD_CONFIG_PARAMS (settings_bytes (g_settings w) @ [checksum (settings_bytes (g_settings w))]))"
  using puts_respond [OF assms(1), of KISS_CMD_CONFIG_PARAMS] calc_crc_settings [OF assms(2)]
  by (simp add: kiss_handle_config_params_cmd_def kiss_cmd_byte_def KISS_CMD_CONFIG_PARAMS_def)

text \<open>
  Configuration by KISS is a round trip: a parameter frame with a right checksum is acknowledged,
  takes effect at once and survives a restart, and the query that follows answers with exactly the
  parameters set and their checksum. A configuration frame with a wrong checksum changes nothing.
\<close>

theorem kiss_params_roundtrip:
  assumes "ser_tx_ok (g_serial w)" and "store_ok w" and "length (symbol (beacon s)) = 2"
  shows "\<exists>w1 w2 w3.
    kiss_handle_frame hook msg0 env (KISS_CMD_CONFIG_PARAMS # settings_bytes s @ checksum (settings_bytes s) # r) 13 (ctx, af, w)
      = Some (ctx, af, w1) \<and> g_settings w1 = s \<and> ser_sent (g_serial w1) = ser_sent (g_serial w) @ KISS_OK \<and>
    settings_load (w1\<lparr>g_settings := junk\<rparr>) = Some (True, w2) \<and> g_settings w2 = s \<and>
    kiss_handle_frame hook msg0 env (KISS_CMD_CONFIG_PARAMS # 0xFF # r') 2 (ctx, af, w1) = Some (ctx, af, w3) \<and>
    ser_sent (g_serial w3) = ser_sent (g_serial w1) @
      kiss_frame KISS_CMD_CONFIG_PARAMS (settings_bytes s @ [checksum (settings_bytes s)]) \<and>
    (x \<noteq> checksum (settings_bytes s) \<longrightarrow>
      kiss_handle_frame hook msg0 env (KISS_CMD_CONFIG_PARAMS # settings_bytes s @ x # r) 13 (ctx, af, w) = Some (ctx, af, w))"
proof -
  let ?b = "settings_bytes s"
  have cmd: "KISS_CMD_CONFIG_PARAMS \<in> config_cmds" by (simp add: config_cmds_def)
  have h: "config_handler KISS_CMD_CONFIG_PARAMS = kiss_handle_config_params_cmd" by (simp add: config_handler_def)
  have l: "length ?b = 11" using length_settings_bytes [OF assms(3)] by (simp add: sizeof_SettingsData_def)
  note frame = handle_config_frame [OF cmd, of ?b hook msg0 env, simplified l h, simplified]
  from config_params_set [OF assms, of "checksum ?b # r"] obtain ser where
    ser: "kiss_handle_config_params_cmd (?b @ checksum ?b # r) 11 w = Some ((settings_saved (w\<lparr>g_settings := s\<rparr>))\<lparr>g_serial := ser\<rparr>)"
    "ser_sent ser = ser_sent (g_serial w) @ KISS_OK" "ser_tx_ok ser" by blast
  let ?w1 = "(settings_saved (w\<lparr>g_settings := s\<rparr>))\<lparr>g_serial := ser\<rparr>"
  have 1: "g_settings ?w1 = s" by (simp add: settings_saved_def)
  have 2: "settings_load (?w1\<lparr>g_settings := junk\<rparr>) = Some (True, ?w1)"
    using assms(3) by (subst settings_load_ok) (simp_all add: settings_saved_def length_settings_bytes settings_of_bytes_bytes)
  have "g_puts ?w1 (kiss_handle_config_params_cmd [0xFF] 0 ?w1) (kiss_frame KISS_CMD_CONFIG_PARAMS (?b @ [checksum ?b]))"
    using config_params_get [of ?w1 "[0xFF]"] ser(3) assms(3) 1 by simp
  then obtain ser3 where
    3: "kiss_handle_config_params_cmd [0xFF] 0 ?w1 = Some (?w1\<lparr>g_serial := ser3\<rparr>)" "ser_sent ser3 = ser_sent ser @
      kiss_frame KISS_CMD_CONFIG_PARAMS (?b @ [checksum ?b])" by (auto simp: g_puts_def)
  have 4: "kiss_handle_config_params_cmd (0xFF # r') 0 ?w1 = kiss_handle_config_params_cmd [0xFF] 0 ?w1"
    by (simp add: kiss_handle_config_params_cmd_def)
  have "kiss_handle_frame hook msg0 env (KISS_CMD_CONFIG_PARAMS # 0xFF # r') 2 (ctx, af, ?w1) =
      Some (ctx, af, ?w1\<lparr>g_serial := ser3\<rparr>)"
    using handle_config_frame [OF cmd, of "[]" hook msg0 env "0xFF" r' ctx af ?w1] 3(1) 4 by (simp add: checksum_def h)
  then show ?thesis using frame ser 1 2 3(2) by (intro exI [of _ ?w1] exI [of _ ?w1] exI [of _ "?w1\<lparr>g_serial := ser3\<rparr>"]) simp
qed

theorem kiss_params_roundtrip_witness:
  "\<exists>w1. kiss_handle_frame None example_msg [] (KISS_CMD_CONFIG_PARAMS # settings_bytes default_settings @
      checksum (settings_bytes default_settings) # []) 13 (ax25_init, afsk_init 0 0, example_kiss) = Some (ax25_init, afsk_init 0 0, w1) \<and>
    g_settings w1 = default_settings"
proof -
  have "length (symbol (beacon default_settings)) = 2" by (simp add: default_settings_def str_def)
  from kiss_params_roundtrip [OF example_kiss_ok(2,3) this] show ?thesis by blast
qed

lemma config_text_set:
  assumes "ser_tx_ok (g_serial w)" and "length t \<le> 127"
  shows "\<exists>ser. kiss_handle_config_text_cmd (t @ r) (word_of_nat (length t)) w =
      (if t = [] then kiss_handle_config_text_cmd (t @ r) 0 w
       else Some ((snd (settings_set_beacon_text t (word_of_nat (length t)) w))\<lparr>g_serial := ser\<rparr>)) \<and>
    ser_sent ser = ser_sent (g_serial w) @ KISS_OK \<and> ser_tx_ok ser"
proof -
  let ?n = "word_of_nat (length t) :: u8"
  let ?w = "snd (settings_set_beacon_text t ?n w)"
  have u: "unat ?n = length t" "unat (word_of_nat (length t) :: u16) = length t"
    using assms(2) by (simp_all add: unat_of_nat)
  have z: "t = [] \<longleftrightarrow> (word_of_nat (length t) :: u16) = 0" using u(2) by (auto dest: arg_cong [where f = unat])
  have "ucast (word_of_nat (length t) :: u16) = ?n" using u(2) by (metis of_nat_unat)
  moreover have "settings_set_beacon_text (t @ r) ?n w = settings_set_beacon_text t ?n w"
    using u assms(2) by (simp add: settings_set_beacon_text_def SETTINGS_BEACON_TEXT_MAX_LEN_def min_def)
  moreover have "ser_tx_ok (g_serial ?w)" using assms(1) by (simp add: settings_set_beacon_text_def Let_def)
  from puts_magic_ok [OF this] obtain ser where "kiss_respond_config_magic_cmd [] 0 ?w = Some (?w\<lparr>g_serial := ser\<rparr>)"
    "ser_sent ser = ser_sent (g_serial ?w) @ KISS_OK" "ser_tx_ok ser" by (rule g_puts_SomeE)
  moreover have "g_serial ?w = g_serial w" by (simp add: settings_set_beacon_text_def Let_def)
  ultimately show ?thesis using z by (auto simp: kiss_handle_config_text_cmd_def split_beta)
qed

lemma config_text_get:
  assumes "ser_tx_ok (g_serial w)" and "reader_ok (g_serialreader w)" and "t \<noteq> []" and "length t \<le> 73"
    and "settings_get_beacon_text 74 w = Some (t, word_of_nat (length t))"
  shows "\<exists>w'. kiss_handle_config_text_cmd data 0 w = Some w' \<and>
    ser_sent (g_serial w') = ser_sent (g_serial w) @ kiss_frame KISS_CMD_CONFIG_TEXT (t @ [checksum t])"
proof -
  let ?r = "g_serialreader w"
  let ?buf = "t @ [0] @ drop (length t + 1) (rd_buf ?r)"
  let ?w = "w\<lparr>g_serialreader := ?r\<lparr>readLen := 0, rd_buf := ?buf\<rparr>\<rparr>"
  let ?n = "word_of_nat (length t) :: u8"
  have b: "ucast (bufLen ?r) = (74 :: u8)"
    using assms(2) by (simp add: reader_ok_def READER_BUF_LEN_def CONFIG_AX25_FRAME_BUF_LEN_def)
  have u: "unat ?n = length t" "unat (ucast ?n :: u16) = length t"
    using assms(4) unat_ucast_u16 [of ?n] by (simp_all add: unat_of_nat)
  then have p: "0 < ?n" using assms(3) by (simp add: word_less_nat_alt)
  have c: "calc_crc ?buf (ucast ?n) = Some (checksum t)"
    using calc_crc_checksum [of "ucast ?n" ?buf] u(2) assms(4) by simp
  have "ser_tx_ok (g_serial ?w)" using assms(1) by simp
  from puts_respond [OF this, of KISS_CMD_CONFIG_TEXT t "checksum t"] obtain ser where
    "kiss_respond KISS_CMD_CONFIG_TEXT t (checksum t) ?w = Some (?w\<lparr>g_serial := ser\<rparr>)"
    "ser_sent ser = ser_sent (g_serial w) @ kiss_frame KISS_CMD_CONFIG_TEXT (t @ [checksum t])"
    by (auto simp: g_puts_def kiss_cmd_byte_def KISS_CMD_CONFIG_TEXT_def)
  with b u(1) p c assms(5) show ?thesis by (simp add: kiss_handle_config_text_cmd_def Let_def)
qed

text \<open>
  The beacon text set by KISS is acknowledged and stored in full (up to 127 characters), but the
  query answers with its first 73 characters only: the reader's buffer length, 330, is passed as a
  byte.
\<close>

lemma kiss_text_truncated:
  assumes "ser_tx_ok (g_serial w)" and "store_ok w" and "reader_ok (g_serialreader w)"
    and "t \<noteq> []" and "length t \<le> 127" and "0 \<notin> set t"
  shows "\<exists>w1 w2.
    kiss_handle_frame hook msg0 env (KISS_CMD_CONFIG_TEXT # t @ checksum t # r) (word_of_nat (length t + 2)) (ctx, af, w)
      = Some (ctx, af, w1) \<and> ser_sent (g_serial w1) = ser_sent (g_serial w) @ KISS_OK \<and>
    settings_get_beacon_text 129 w1 = Some (t, word_of_nat (length t)) \<and>
    kiss_handle_frame hook msg0 env (KISS_CMD_CONFIG_TEXT # 0xFF # r') 2 (ctx, af, w1) = Some (ctx, af, w2) \<and>
    ser_sent (g_serial w2) = ser_sent (g_serial w1) @ kiss_frame KISS_CMD_CONFIG_TEXT (take 73 t @ [checksum (take 73 t)])"
proof -
  have cmd: "KISS_CMD_CONFIG_TEXT \<in> config_cmds" by (simp add: config_cmds_def)
  have h: "config_handler KISS_CMD_CONFIG_TEXT = kiss_handle_config_text_cmd"
    by (simp add: config_handler_def KISS_CMD_CONFIG_TEXT_def KISS_CMD_CONFIG_PARAMS_def)
  let ?n = "word_of_nat (length t) :: u8"
  let ?w = "snd (settings_set_beacon_text t ?n w)"
  have u: "unat ?n = length t" using assms(5) by (simp add: unat_of_nat)
  from config_text_set [OF assms(1,5), of "checksum t # r"] assms(4) obtain ser where
    1: "kiss_handle_config_text_cmd (t @ checksum t # r) (word_of_nat (length t)) w = Some (?w\<lparr>g_serial := ser\<rparr>)"
    "ser_sent ser = ser_sent (g_serial w) @ KISS_OK" "ser_tx_ok ser" by auto
  let ?w1 = "?w\<lparr>g_serial := ser\<rparr>"
  have same: "settings_get_beacon_text k ?w1 = settings_get_beacon_text k ?w" for k
    by (simp add: settings_get_beacon_text_def)
  have get: "settings_get_beacon_text k ?w1 = (let s = take (min (unat k - 1) 127) t in Some (s, word_of_nat (length s)))"
    if "k \<noteq> 0" for k
    unfolding same using beacon_text_read [OF assms(2), of ?n t k] u assms(6) that by simp
  have "reader_ok (g_serialreader ?w1)" using assms(3) by (simp add: settings_set_beacon_text_def Let_def)
  from config_text_get [of ?w1 "take 73 t" "0xFF # r'"] this 1(3) assms(4) get [of 74] obtain w2 where
    2: "kiss_handle_config_text_cmd (0xFF # r') 0 ?w1 = Some w2"
    "ser_sent (g_serial w2) = ser_sent ser @ kiss_frame KISS_CMD_CONFIG_TEXT (take 73 t @ [checksum (take 73 t)])"
    by (auto simp: Let_def)
  have "kiss_handle_frame hook msg0 env (KISS_CMD_CONFIG_TEXT # 0xFF # r') 2 (ctx, af, ?w1) = Some (ctx, af, w2)"
    using handle_config_frame [OF cmd, of "[]" hook msg0 env "0xFF" r' ctx af ?w1] 2(1) by (simp add: checksum_def h)
  moreover have "kiss_handle_frame hook msg0 env (KISS_CMD_CONFIG_TEXT # t @ checksum t # r) (word_of_nat (length t + 2)) (ctx, af, w) =
      Some (ctx, af, ?w1)"
    using handle_config_frame [OF cmd, of t hook msg0 env "checksum t" r ctx af w] assms(5) 1(1)
    by (simp add: h del: of_nat_add)
  ultimately show ?thesis using 1(2) 2(2) get [of 129] assms(5) by (intro exI [of _ ?w1] exI [of _ w2]) simp
qed

end
