(* ===== verification/Digi.thy ===== *)
theory Digi
  imports Kiss
begin

text \<open>
  The digipeater of \<^verbatim>\<open>TinyAPRS/digi.[ch]\<close> with its debug output on, as configured: a message whose path
  has an unused \<^verbatim>\<open>WIDEn-N\<close> element is sent again with this station's call in that place, unless the
  cache of recent messages has it. The hash of a message is 16 bits, \<^verbatim>\<open>char\<close> is signed, and the age
  of a cache entry is an unsigned 32-bit difference.
\<close>

section \<open>Data\<close>

definition DUP_CHECK_INTERVAL :: u32 where "DUP_CHECK_INTERVAL = 15"
definition CACHE_SIZE :: nat where "CACHE_SIZE = 8"

record CacheEntry =
  ce_hash :: u16
  ce_timestamp :: u32

record Digi = Kiss +
  cache :: "CacheEntry list"
  cacheIndex :: u8
  digi_count :: u32

definition digi_init :: "'a Digi_scheme \<Rightarrow> 'a Digi_scheme" where
  "digi_init w = w\<lparr>cache := replicate CACHE_SIZE \<lparr>ce_hash = 0, ce_timestamp = 0\<rparr>, cacheIndex := 0\<rparr>"

section \<open>Duplicates\<close>

definition hash_step :: "u16 \<Rightarrow> u16 \<Rightarrow> u16" where
  "hash_step hash c = hash * 31 + c"

definition digi_calc_hash :: "AX25Msg \<Rightarrow> u16" where
  "digi_calc_hash msg =
     (let hash = fold (\<lambda>c hash. hash_step hash (scast c)) (take 6 (call (m_src msg))) 0;
          hash = hash_step hash (ucast (ssid (m_src msg)));
          hash = fold (\<lambda>c hash. hash_step hash (scast c)) (take 6 (call (m_dst msg))) hash;
          hash = hash_step hash (ucast (ssid (m_dst msg)))
      in fold (\<lambda>c hash. hash_step hash (ucast c)) (take (unat (m_len msg)) (m_info msg)) hash)"

definition entry_matches :: "u16 \<Rightarrow> u32 \<Rightarrow> CacheEntry \<Rightarrow> bool" where
  "entry_matches hash now e \<longleftrightarrow> ce_hash e = hash \<and> now - ce_timestamp e < DUP_CHECK_INTERVAL"

text \<open>The search, from the latest entry backwards; \<open>i\<close> counts down from the size of the cache.\<close>

fun cache_search :: "u16 \<Rightarrow> u32 \<Rightarrow> CacheEntry list \<Rightarrow> nat \<Rightarrow> nat \<Rightarrow> bool" where
  "cache_search hash now c idx 0 = False"
| "cache_search hash now c idx (Suc i) =
     (0 < idx \<and> (entry_matches hash now (c ! ((idx - 1 + Suc i) mod CACHE_SIZE)) \<or> cache_search hash now c idx i))"

definition digi_check_is_duplicated :: "AX25Msg \<Rightarrow> 'a Digi_scheme \<Rightarrow> bool \<times> 'a Digi_scheme" where
  "digi_check_is_duplicated msg w =
     (let hash = digi_calc_hash msg;
          now = timer_clock_seconds (clock w);
          dup = cache_search hash now (cache w) (unat (cacheIndex w)) CACHE_SIZE
      in if dup then (True, w)
         else let idx = cacheIndex w + 1;
                  idx = (if CACHE_SIZE < unat idx then idx - word_of_nat CACHE_SIZE else idx)
              in (False, w\<lparr>cacheIndex := idx,
                           cache := (cache w)[unat idx - 1 := \<lparr>ce_hash = hash, ce_timestamp = now\<rparr>]\<rparr>))"

section \<open>Repeating\<close>

definition g_print_msg :: "AX25Msg \<Rightarrow> 'a Globals_scheme \<Rightarrow> 'a Globals_scheme option" where
  "g_print_msg msg g = do { ser \<leftarrow> ax25_print ser_fd msg (g_serial g); Some (g\<lparr>g_serial := ser\<rparr>) }"

definition digi_repeat_message :: "AX25Msg \<Rightarrow> 'a Digi_scheme tnc \<Rightarrow> (bool \<times> 'a Digi_scheme tnc) option" where
  "digi_repeat_message msg s =
     (let (ctx, af, w) = s
      in do { w \<leftarrow> g_delay 150 w;
              w \<leftarrow> g_printf (str ''>[%d]digipeat:'' @ [13, 10]) (va_long (digi_count w)) w;
              let w = w\<lparr>digi_count := digi_count w + 1\<rparr>;
              w \<leftarrow> g_print_msg msg w;
              (ctx, af) \<leftarrow> ax25_sendMsg afsk_fd msg (ctx, af);
              Some (True, ctx, af, w) })"

definition is_wide :: "AX25Call \<Rightarrow> bool" where
  "is_wide sta \<longleftrightarrow> c_strncaseeq (call sta) (str ''WIDE1'') 5 \<or> c_strncaseeq (call sta) (str ''WIDE2'') 5 \<or>
     c_strncaseeq (call sta) (str ''WIDE3'') 5"

definition digi_due :: "AX25Msg \<Rightarrow> nat \<Rightarrow> bool" where
  "digi_due msg i \<longleftrightarrow> is_wide (rpt_lst msg ! i) \<and> 0 < ssid (rpt_lst msg ! i) \<and> \<not> AX25_REPEATED msg i"

text \<open>The change to the path at element \<open>i\<close>; \<open>None\<close> when there is no room for the remaining hops.\<close>

definition digi_spread :: "AX25Msg \<Rightarrow> nat \<Rightarrow> AX25Msg option" where
  "digi_spread msg i =
     (let sta = rpt_lst msg ! i
      in if 1 < ssid sta then
           let sta = sta\<lparr>ssid := ssid sta - 1\<rparr>;
               msg = msg\<lparr>rpt_lst := (rpt_lst msg)[i := sta]\<rparr>
           in if i < AX25_MAX_RPT - 1 then
                let msg = msg\<lparr>rpt_lst := (rpt_lst msg)[i + 1 := \<lparr>call = take 5 (call sta) @ [0], ssid = ssid sta\<rparr>]\<rparr>;
                    msg = AX25_SET_REPEATED msg (i + 1) False
                in Some (if i = unat (rpt_cnt msg) - 1 then msg\<lparr>rpt_cnt := rpt_cnt msg + 1\<rparr> else msg)
              else None
         else Some msg)"

definition digi_sign :: "AX25Call \<Rightarrow> AX25Msg \<Rightarrow> nat \<Rightarrow> AX25Msg" where
  "digi_sign mycall msg i = AX25_SET_REPEATED (msg\<lparr>rpt_lst := (rpt_lst msg)[i := mycall]\<rparr>) i True"

definition digi_repeat_at :: "AX25Msg \<Rightarrow> nat \<Rightarrow> 'a Digi_scheme tnc \<Rightarrow> (bool \<times> 'a Digi_scheme tnc) option" where
  "digi_repeat_at msg i s =
     (let (ctx, af, w) = s; (dup, w) = digi_check_is_duplicated msg w
      in if dup then Some (False, ctx, af, w)
         else
           do { w \<leftarrow> g_printf (str ''>[%d]original:'' @ [13, 10]) (va_long (digi_count w)) w;
                w \<leftarrow> g_print_msg msg w;
                (case digi_spread msg i of
                   None \<Rightarrow> Some (False, ctx, af, w)
                 | Some msg \<Rightarrow> digi_repeat_message (digi_sign (settings_get_mycall w) msg i) (ctx, af, w)) })"

fun digi_scan :: "AX25Msg \<Rightarrow> nat list \<Rightarrow> 'a Digi_scheme tnc \<Rightarrow> (bool \<times> 'a Digi_scheme tnc) option" where
  "digi_scan msg [] s = Some (False, s)"
| "digi_scan msg (i # is) s = (if digi_due msg i then digi_repeat_at msg i s else digi_scan msg is s)"

definition digi_handle_aprs_message :: "AX25Msg \<Rightarrow> 'a Digi_scheme tnc \<Rightarrow> (bool \<times> 'a Digi_scheme tnc) option" where
  "digi_handle_aprs_message msg s = digi_scan msg [0..<unat (rpt_cnt msg)] s"

section \<open>The monitor print\<close>

definition call_text :: "AX25Call \<Rightarrow> bytes" where
  "call_text c = c_str (call c) @ (if ssid c \<noteq> 0 then chr CHR ''-'' # show_int (ucast (ssid c)) else [])"

fun rpts_text :: "(nat \<Rightarrow> bool) \<Rightarrow> nat \<Rightarrow> AX25Call list \<Rightarrow> bytes" where
  "rpts_text rep i [] = []"
| "rpts_text rep i (p # rpts) =
     chr CHR '','' # call_text p @ (if rep i then [chr CHR ''*''] else []) @ rpts_text rep (Suc i) rpts"

definition monitor_text :: "AX25Msg \<Rightarrow> bytes" where
  "monitor_text msg =
     call_text (m_src msg) @ chr CHR ''>'' # call_text (m_dst msg) @
     rpts_text (AX25_REPEATED msg) 0 (take (unat (rpt_cnt msg)) (rpt_lst msg)) @
     chr CHR '':'' # c_str (take (unat (m_len msg)) (m_info msg)) @ [10, 13]"

definition msg_ok :: "AX25Msg \<Rightarrow> bool" where
  "msg_ok msg \<longleftrightarrow> length (call (m_src msg)) = 6 \<and> length (call (m_dst msg)) = 6 \<and> length (rpt_lst msg) = AX25_MAX_RPT \<and>
     list_all (\<lambda>c. length (call c) = 6) (rpt_lst msg) \<and> unat (rpt_cnt msg) \<le> AX25_MAX_RPT \<and>
     0 < m_len msg \<and> unat (m_len msg) < 32768 \<and> unat (m_len msg) \<le> length (m_info msg)"

text \<open>What printing needs of it: the entries in use and the payload.\<close>

definition printable :: "AX25Msg \<Rightarrow> bool" where
  "printable msg \<longleftrightarrow> length (call (m_src msg)) = 6 \<and> length (call (m_dst msg)) = 6 \<and>
     list_all (\<lambda>c. length (call c) = 6) (take (unat (rpt_cnt msg)) (rpt_lst msg)) \<and>
     0 < m_len msg \<and> unat (m_len msg) < 32768 \<and> unat (m_len msg) \<le> length (m_info msg)"

lemma msg_ok_printable: "msg_ok msg \<Longrightarrow> printable msg"
  by (auto simp: msg_ok_def printable_def list_all_iff dest: in_set_takeD)

lemma sint_small_u16: "unat (n :: u16) < 32768 \<Longrightarrow> sint n = int (unat n)"
proof -
  assume "unat n < 32768"
  then have "int (unat n) < int 32768" by (simp only: of_nat_less_iff)
  then have "uint n < 32768" by simp
  then have "signed_take_bit 15 (uint n) = uint n"
    by (intro signed_take_bit_int_eq_self) (auto intro: order_trans [of _ 0])
  then show ?thesis by (simp add: sint_uint)
qed

context kfile_writer
begin

lemma print_call_ok:
  assumes "length (call c) = 6" and "ready ch"
  shows "\<exists>ch'. print_call fd c ch = Some ch' \<and> ready ch' \<and> accepted ch' = accepted ch @ call_text c"
proof -
  have "formatted_write (str ''%.6s'') [P (Some (call c))] = Some (c_str (call c))"
    using assms(1) by (simp add: str_def printf_rules strn_enough)
  from printf_ok [OF this assms(2)] obtain ch1 where
    1: "kfile_printf fd (str ''%.6s'') [P (Some (call c))] ch = Some ch1" "ready ch1" "accepted ch1 = accepted ch @ c_str (call c)"
    by blast
  have "formatted_write (str ''-%d'') [W (ucast (ssid c))] = Some (chr CHR ''-'' # show_int (ucast (ssid c)))"
    by (simp add: str_def chr_def printf_rules)
  from printf_ok [OF this 1(2)] 1 show ?thesis by (auto simp: print_call_def call_text_def)
qed

lemma print_rpts_ok:
  "list_all (\<lambda>c. length (call c) = 6) rpts \<Longrightarrow> ready ch \<Longrightarrow>
   \<exists>ch'. ax25_print_rpts fd msg i rpts ch = Some ch' \<and> ready ch' \<and>
     accepted ch' = accepted ch @ rpts_text (AX25_REPEATED msg) i rpts"
proof (induction rpts arbitrary: i ch)
  case (Cons p rpts)
  obtain ch1 where 1: "kfile_putc fd (chr CHR '','') ch = Some (Some (chr CHR '',''), ch1)" "ready ch1"
    "accepted ch1 = accepted ch @ [chr CHR '','']" using putc_ok [OF Cons.prems(2)] by blast
  obtain ch2 where 2: "print_call fd p ch1 = Some ch2" "ready ch2" "accepted ch2 = accepted ch1 @ call_text p"
    using print_call_ok [OF _ 1(2)] Cons.prems(1) by auto
  obtain ch3 where 3: "(if AX25_REPEATED msg i then do { (_, ch) \<leftarrow> kfile_putc fd (chr CHR ''*'') ch2; Some ch } else Some ch2) = Some ch3"
    "ready ch3" "accepted ch3 = accepted ch2 @ (if AX25_REPEATED msg i then [chr CHR ''*''] else [])"
    using putc_ok [OF 2(2), of "chr CHR ''*''"] 2(2) by (cases "AX25_REPEATED msg i") auto
  from Cons.IH [OF _ 3(2), of "Suc i"] Cons.prems(1) 1 2 3 show ?case by auto
qed simp

lemma print_msg_ok:
  assumes "printable msg" and "ready ch"
  shows "\<exists>ch'. ax25_print fd msg ch = Some ch' \<and> ready ch' \<and> accepted ch' = accepted ch @ monitor_text msg"
proof -
  obtain ch1 where 1: "print_call fd (m_src msg) ch = Some ch1" "ready ch1" "accepted ch1 = accepted ch @ call_text (m_src msg)"
    using print_call_ok [OF _ assms(2)] assms(1) by (auto simp: printable_def)
  obtain ch2 where 2: "kfile_putc fd (chr CHR ''>'') ch1 = Some (Some (chr CHR ''>''), ch2)" "ready ch2"
    "accepted ch2 = accepted ch1 @ [chr CHR ''>'']" using putc_ok [OF 1(2)] by blast
  obtain ch3 where 3: "print_call fd (m_dst msg) ch2 = Some ch3" "ready ch3" "accepted ch3 = accepted ch2 @ call_text (m_dst msg)"
    using print_call_ok [OF _ 2(2)] assms(1) by (auto simp: printable_def)
  let ?rpts = "take (unat (rpt_cnt msg)) (rpt_lst msg)"
  have "list_all (\<lambda>c. length (call c) = 6) ?rpts" using assms(1) by (simp add: printable_def)
  from print_rpts_ok [OF this 3(2), of msg 0] obtain ch4 where
    4: "ax25_print_rpts fd msg 0 ?rpts ch3 = Some ch4" "ready ch4"
    "accepted ch4 = accepted ch3 @ rpts_text (AX25_REPEATED msg) 0 ?rpts" by blast
  have "formatted_write (str '':%.*s'' @ [10, 13]) [W (m_len msg), P (Some (m_info msg))] =
      Some (chr CHR '':'' # c_str (take (unat (m_len msg)) (m_info msg)) @ [10, 13])"
    using assms(1) by (simp add: str_def chr_def printf_rules sint_small_u16 printable_def strn_enough)
  from printf_ok [OF this 4(2)] 1 2 3 4 show ?thesis by (auto simp: ax25_print_def monitor_text_def)
qed

end

lemmas serial_print_msg_ok = kfile_writer.print_msg_ok [OF ser_out.kfile_writer_axioms]

lemma g_puts_print_msg: "printable msg \<Longrightarrow> ser_tx_ok (g_serial g) \<Longrightarrow> g_puts g (g_print_msg msg g) (monitor_text msg)"
  using serial_print_msg_ok [of msg "g_serial g"] by (auto simp: g_puts_def g_print_msg_def)

section \<open>What a digipeater should do to a path\<close>

text \<open>
  The path as the list of its stations with their used marks. One hop: the first unused \<^verbatim>\<open>WIDEn-N\<close> is
  replaced by the station's own call, used, and followed by the remaining \<^verbatim>\<open>N-1\<close> hops, if any, in the
  place of what came next.
\<close>

type_synonym path = "(AX25Call \<times> bool) list"

definition path_of :: "AX25Msg \<Rightarrow> path" where
  "path_of msg = map (\<lambda>i. (rpt_lst msg ! i, AX25_REPEATED msg i)) [0..<unat (rpt_cnt msg)]"

definition hop_due :: "AX25Call \<times> bool \<Rightarrow> bool" where
  "hop_due p \<longleftrightarrow> is_wide (fst p) \<and> 0 < ssid (fst p) \<and> \<not> snd p"

fun hop :: "AX25Call \<Rightarrow> path \<Rightarrow> path option" where
  "hop me [] = None"
| "hop me (p # ps) =
     (if hop_due p then
        Some ((me, True) # (if 1 < ssid (fst p) then (\<lparr>call = take 5 (call (fst p)) @ [0], ssid = ssid (fst p) - 1\<rparr>, False) # tl ps else ps))
      else map_option ((#) p) (hop me ps))"

definition hop_at :: "AX25Call \<Rightarrow> path \<Rightarrow> nat \<Rightarrow> path" where
  "hop_at me ps i =
     (let c = fst (ps ! i)
      in take i ps @ (me, True) #
         (if 1 < ssid c then (\<lparr>call = take 5 (call c) @ [0], ssid = ssid c - 1\<rparr>, False) # drop (i + 2) ps else drop (i + 1) ps))"

lemma hop_first:
  "hop me ps = Some ps' \<Longrightarrow>
   \<exists>i<length ps. hop_due (ps ! i) \<and> (\<forall>j<i. \<not> hop_due (ps ! j)) \<and> ps' = hop_at me ps i"
proof (induction ps arbitrary: ps')
  case (Cons p ps)
  show ?case
  proof (cases "hop_due p")
    case True
    with Cons.prems show ?thesis by (intro exI [of _ 0]) (auto simp: hop_at_def drop_Suc Let_def)
  next
    case False
    with Cons.prems obtain qs where q: "hop me ps = Some qs" "ps' = p # qs" by auto
    from Cons.IH [OF q(1)] obtain i where "i < length ps" "hop_due (ps ! i)" "\<forall>j<i. \<not> hop_due (ps ! j)" "qs = hop_at me ps i"
      by blast
    with False q(2) show ?thesis
      by (intro exI [of _ "Suc i"]) (auto simp: hop_at_def Let_def less_Suc_eq_0_disj)
  qed
qed simp

lemma path_of_nth: "i < unat (rpt_cnt msg) \<Longrightarrow> path_of msg ! i = (rpt_lst msg ! i, AX25_REPEATED msg i)"
  by (simp add: path_of_def)

lemma length_path_of [simp]: "length (path_of msg) = unat (rpt_cnt msg)"
  by (simp add: path_of_def)

lemma hop_due_digi: "i < unat (rpt_cnt msg) \<Longrightarrow> hop_due (path_of msg ! i) = digi_due msg i"
  by (simp add: path_of_nth hop_due_def digi_due_def)

lemma digi_scan_first:
  "i < n \<Longrightarrow> digi_due msg i \<Longrightarrow> \<forall>j<i. \<not> digi_due msg j \<Longrightarrow> k \<le> i \<Longrightarrow> digi_scan msg [k..<n] s = digi_repeat_at msg i s"
proof (induction "i - k" arbitrary: k)
  case 0
  then show ?case by (simp add: upt_rec)
next
  case (Suc d)
  then show ?case by (simp add: upt_rec [of k])
qed

lemma digi_scan_none: "\<forall>j \<in> set is. \<not> digi_due msg j \<Longrightarrow> digi_scan msg is s = Some (False, s)"
  by (induction "is") auto

lemma SET_REPEATED_flag: "i < 8 \<Longrightarrow> j < 8 \<Longrightarrow>
    AX25_REPEATED (AX25_SET_REPEATED msg i v) j = (if j = i then v else AX25_REPEATED msg j)"
  by (simp add: REPEATED_bit SET_REPEATED_bit)

lemma REPEATED_upd [simp]:
  "AX25_REPEATED (msg\<lparr>rpt_lst := l\<rparr>) j = AX25_REPEATED msg j" "AX25_REPEATED (msg\<lparr>rpt_cnt := c\<rparr>) j = AX25_REPEATED msg j"
  by (simp_all add: AX25_REPEATED_def)

lemma SET_REPEATED_payload [simp]:
  "m_info (AX25_SET_REPEATED msg i v) = m_info msg" "m_len (AX25_SET_REPEATED msg i v) = m_len msg"
  by (simp_all add: AX25_SET_REPEATED_def)

definition same_payload :: "AX25Msg \<Rightarrow> AX25Msg \<Rightarrow> bool" where
  "same_payload a b \<longleftrightarrow> m_src a = m_src b \<and> m_dst a = m_dst b \<and> m_info a = m_info b \<and> m_len a = m_len b"

lemma sign_last:
  assumes "msg_ok msg" and "i < unat (rpt_cnt msg)" and "\<not> 1 < ssid (rpt_lst msg ! i)"
  shows "path_of (digi_sign me msg i) = hop_at me (path_of msg) i"
proof (rule nth_equalityI)
  have c: "unat (rpt_cnt msg) \<le> 8" "length (rpt_lst msg) = 8" using assms(1) by (simp_all add: msg_ok_def AX25_MAX_RPT_def)
  show "length (path_of (digi_sign me msg i)) = length (hop_at me (path_of msg) i)"
    using assms(2,3) by (simp add: digi_sign_def hop_at_def path_of_nth Let_def)
  fix k
  assume "k < length (path_of (digi_sign me msg i))"
  then have k: "k < unat (rpt_cnt msg)" by (simp add: digi_sign_def)
  then show "path_of (digi_sign me msg i) ! k = hop_at me (path_of msg) i ! k"
    using assms(2,3) c by (auto simp: digi_sign_def hop_at_def path_of_nth Let_def nth_append SET_REPEATED_flag nth_Cons')
qed

text \<open>The message \<open>digi_spread\<close> returns when hops remain.\<close>

definition spread_msg :: "AX25Msg \<Rightarrow> nat \<Rightarrow> AX25Msg" where
  "spread_msg msg i =
     (let c = rpt_lst msg ! i;
          m = AX25_SET_REPEATED (msg\<lparr>rpt_lst := (rpt_lst msg)[i := c\<lparr>ssid := ssid c - 1\<rparr>,
                i + 1 := \<lparr>call = take 5 (call c) @ [0], ssid = ssid c - 1\<rparr>]\<rparr>) (i + 1) False
      in if i = unat (rpt_cnt msg) - 1 then m\<lparr>rpt_cnt := rpt_cnt msg + 1\<rparr> else m)"

lemma digi_spread_eq:
  "1 < ssid (rpt_lst msg ! i) \<Longrightarrow> i < 7 \<Longrightarrow> digi_spread msg i = Some (spread_msg msg i)"
  by (simp add: digi_spread_def spread_msg_def Let_def AX25_MAX_RPT_def)

lemma spread_sign:
  assumes "msg_ok msg" and "i < unat (rpt_cnt msg)" and "1 < ssid (rpt_lst msg ! i)" and "i < 7"
  shows "path_of (digi_sign me (spread_msg msg i) i) = hop_at me (path_of msg) i"
proof (rule nth_equalityI)
  let ?n = "unat (rpt_cnt msg)" and ?m = "digi_sign me (spread_msg msg i) i"
  have c: "?n \<le> 8" "length (rpt_lst msg) = 8" using assms(1) by (simp_all add: msg_ok_def AX25_MAX_RPT_def)
  have inc: "unat (rpt_cnt msg + 1) = Suc ?n" using c by (intro unat_suc_u8) simp
  have n: "unat (rpt_cnt ?m) = (if i = ?n - 1 then Suc ?n else ?n)"
    using inc by (simp add: digi_sign_def spread_msg_def Let_def)
  show l: "length (path_of ?m) = length (hop_at me (path_of msg) i)"
    using assms(2,3) n by (auto simp: hop_at_def path_of_nth Let_def)
  fix k
  assume "k < length (path_of ?m)"
  then have k: "k < unat (rpt_cnt ?m)" by simp
  then have k8: "k < 8" using n c assms(2,4) by (auto split: if_splits)
  have "path_of ?m ! k = (if k = i then (me, True)
      else if k = i + 1 then (\<lparr>call = take 5 (call (rpt_lst msg ! i)) @ [0], ssid = ssid (rpt_lst msg ! i) - 1\<rparr>, False)
      else (rpt_lst msg ! k, AX25_REPEATED msg k))"
    unfolding path_of_nth [OF k] using k8 c assms(4)
    by (auto simp: digi_sign_def spread_msg_def Let_def SET_REPEATED_flag nth_list_update)
  moreover have "k \<noteq> i \<Longrightarrow> k \<noteq> i + 1 \<Longrightarrow> k < ?n" using k n assms(2) by (auto split: if_splits)
  moreover have "\<not> k \<le> Suc i \<Longrightarrow> Suc (Suc (k - 2)) = k" by simp
  ultimately show "path_of ?m ! k = hop_at me (path_of msg) i ! k"
    using assms(2,3) by (cases "k \<le> Suc i") (auto simp: hop_at_def path_of_nth Let_def nth_append nth_Cons' not_less)
qed

lemma list_all_update: "list_all Q xs \<Longrightarrow> Q x \<Longrightarrow> list_all Q (xs[i := x])"
  using set_update_subset_insert [of xs i x] by (auto simp: list_all_iff)

lemma sign_ok:
  assumes "msg_ok msg" and "length (call me) = 6"
  shows "msg_ok (digi_sign me msg i) \<and> same_payload (digi_sign me msg i) msg"
  using assms by (simp add: msg_ok_def digi_sign_def same_payload_def list_all_update)

lemma spread_ok:
  assumes "msg_ok msg" and "i < unat (rpt_cnt msg)" and "i < 7"
  shows "msg_ok (spread_msg msg i) \<and> same_payload (spread_msg msg i) msg"
proof -
  let ?n = "unat (rpt_cnt msg)"
  have c: "?n \<le> 8" "length (rpt_lst msg) = 8" using assms(1) by (simp_all add: msg_ok_def AX25_MAX_RPT_def)
  have inc: "unat (rpt_cnt msg + 1) = Suc ?n" using c by (intro unat_suc_u8) simp
  have "length (call (rpt_lst msg ! i)) = 6" using assms c by (simp add: msg_ok_def list_all_length)
  with assms c inc show ?thesis
    by (auto simp: msg_ok_def spread_msg_def Let_def same_payload_def AX25_MAX_RPT_def intro!: list_all_update)
qed

lemma hop_none: "hop me ps = None \<Longrightarrow> \<forall>j < length ps. \<not> hop_due (ps ! j)"
  by (induction ps) (auto simp: less_Suc_eq_0_disj split: if_splits)

section \<open>Handling a message\<close>

definition seen :: "AX25Msg \<Rightarrow> 'a Digi_scheme \<Rightarrow> bool" where
  "seen msg w = cache_search (digi_calc_hash msg) (timer_clock_seconds (clock w)) (cache w) (unat (cacheIndex w)) CACHE_SIZE"

definition next_index :: "u8 \<Rightarrow> u8" where
  "next_index i = (if CACHE_SIZE < unat (i + 1) then i + 1 - word_of_nat CACHE_SIZE else i + 1)"

definition remember :: "AX25Msg \<Rightarrow> 'a Digi_scheme \<Rightarrow> 'a Digi_scheme" where
  "remember msg w = w\<lparr>cacheIndex := next_index (cacheIndex w), cache := (cache w)[unat (next_index (cacheIndex w)) - 1 :=
     \<lparr>ce_hash = digi_calc_hash msg, ce_timestamp = timer_clock_seconds (clock w)\<rparr>]\<rparr>"

lemma check_eq: "digi_check_is_duplicated msg w = (if seen msg w then (True, w) else (False, remember msg w))"
  by (simp only: digi_check_is_duplicated_def seen_def remember_def next_index_def Let_def)

lemma check_keeps_globals: "\<exists>c i. snd (digi_check_is_duplicated msg w) = w\<lparr>cache := c, cacheIndex := i\<rparr>"
proof (cases "seen msg w")
  case True
  then have "snd (digi_check_is_duplicated msg w) = w\<lparr>cache := cache w, cacheIndex := cacheIndex w\<rparr>"
    by (simp add: check_eq)
  then show ?thesis by blast
next
  case False
  then have "snd (digi_check_is_duplicated msg w) =
      w\<lparr>cache := cache (remember msg w), cacheIndex := cacheIndex (remember msg w)\<rparr>"
    by (simp add: check_eq remember_def)
  then show ?thesis by blast
qed

lemma g_puts_title:
  assumes "ser_tx_ok (g_serial g)"
  shows "\<exists>bs. g_puts g (g_printf (str ''>[%d]original:'' @ [13, 10]) (va_long n) g) bs"
    "\<exists>bs. g_puts g (g_printf (str ''>[%d]digipeat:'' @ [13, 10]) (va_long n) g) bs"
  by (rule exI, rule g_puts_printf [OF assms], simp add: str_def printf_rules va_long_def)+

lemma g_delay_ok: "0 \<le> sint ms \<Longrightarrow> g_delay ms g = Some (g\<lparr>clock := clock g + ms\<rparr>)"
  by (simp add: g_delay_def timer_delay_returns)

lemma digi_repeat_ok:
  assumes "msg_ok msg" and "ser_tx_ok (g_serial w)" and "afsk_tx_ok af" and "rpt_cnt msg \<noteq> 0"
  shows "\<exists>af' ser. digi_repeat_message msg (ctx, af, w) =
      Some (True, stat_tx_ok (ctx\<lparr>crc_out := AX25_CRC_CORRECT\<rparr>), af',
            w\<lparr>clock := clock w + 150, digi_count := digi_count w + 1, g_serial := ser\<rparr>) \<and>
    afsk_tx_ok af' \<and> sent af' = sent af @ on_channel (msg_body msg) \<and> ser_tx_ok ser"
proof -
  let ?w = "w\<lparr>clock := clock w + 150\<rparr>"
  obtain bs ser1 where 1: "g_printf (str ''>[%d]digipeat:'' @ [13, 10]) (va_long (digi_count w)) ?w = Some (?w\<lparr>g_serial := ser1\<rparr>)"
    "ser_tx_ok ser1" using g_puts_title(2) [of ?w "digi_count w"] assms(2) by (auto elim!: g_putsE)
  let ?w1 = "?w\<lparr>g_serial := ser1, digi_count := digi_count w + 1\<rparr>"
  obtain ser2 where 2: "g_print_msg msg ?w1 = Some (?w1\<lparr>g_serial := ser2\<rparr>)" "ser_tx_ok ser2"
    using g_puts_print_msg [OF msg_ok_printable [OF assms(1)], of ?w1] 1(2) by (auto elim!: g_putsE)
  obtain af' where 3: "ax25_sendMsg afsk_fd msg (ctx, af) = Some (stat_tx_ok (ctx\<lparr>crc_out := AX25_CRC_CORRECT\<rparr>), af')"
    "afsk_tx_ok af'" "sent af' = sent af @ on_channel (msg_body msg)"
    using modem_sendMsg_ok [OF assms(3,4), of ctx] assms(1) by (auto simp: msg_ok_def word_greater_zero_iff)
  have "g_delay 150 w = Some ?w" by (intro g_delay_ok) simp
  with 1 2 3 show ?thesis by (auto simp: digi_repeat_message_def Let_def)
qed

lemma path_length_sign: "length (path_of msg) = length qs \<Longrightarrow> qs \<noteq> [] \<Longrightarrow> rpt_cnt msg \<noteq> 0"
  by (auto simp: unat_eq_0 [symmetric])

lemma digi_repeat_at_ok:
  assumes m: "msg_ok msg" and s: "ser_tx_ok (g_serial w)" and a: "afsk_tx_ok af" and st: "store_ok w"
    and d: "\<not> fst (digi_check_is_duplicated msg w)" and i: "i < unat (rpt_cnt msg)"
  shows "if length (hop_at (settings_get_mycall w) (path_of msg) i) \<le> AX25_MAX_RPT
    then \<exists>msg' ctx' af' w'. digi_repeat_at msg i (ctx, af, w) = Some (True, ctx', af', w') \<and>
      path_of msg' = hop_at (settings_get_mycall w) (path_of msg) i \<and> same_payload msg' msg \<and>
      sent af' = sent af @ on_channel (msg_body msg') \<and> tx_ok (stat ctx') = tx_ok (stat ctx) + 1
    else \<exists>w'. digi_repeat_at msg i (ctx, af, w) = Some (False, ctx, af, w')"
proof -
  let ?me = "settings_get_mycall w" and ?c = "rpt_lst msg ! i"
  let ?path = "hop_at ?me (path_of msg) i"
  obtain c n where w1: "snd (digi_check_is_duplicated msg w) = w\<lparr>cache := c, cacheIndex := n\<rparr>"
    using check_keeps_globals by blast
  let ?w1 = "w\<lparr>cache := c, cacheIndex := n\<rparr>"
  have dc: "digi_check_is_duplicated msg w = (False, ?w1)" using d w1 by (cases "digi_check_is_duplicated msg w") simp
  obtain bs ser1 where 1: "g_printf (str ''>[%d]original:'' @ [13, 10]) (va_long (digi_count ?w1)) ?w1 = Some (?w1\<lparr>g_serial := ser1\<rparr>)"
    "ser_tx_ok ser1" using g_puts_title(1) [of ?w1 "digi_count ?w1"] s by (auto elim!: g_putsE)
  let ?w2 = "?w1\<lparr>g_serial := ser1\<rparr>"
  obtain ser2 where 2: "g_print_msg msg ?w2 = Some (?w2\<lparr>g_serial := ser2\<rparr>)" "ser_tx_ok ser2"
    using g_puts_print_msg [OF msg_ok_printable [OF m], of ?w2] 1(2) by (auto elim!: g_putsE)
  let ?w3 = "w\<lparr>cache := c, cacheIndex := n, g_serial := ser2\<rparr>"
  have me: "settings_get_mycall ?w3 = ?me" by (simp add: settings_get_mycall_def)
  have eq: "digi_repeat_at msg i (ctx, af, w) =
      (case digi_spread msg i of None \<Rightarrow> Some (False, ctx, af, ?w3)
       | Some m' \<Rightarrow> digi_repeat_message (digi_sign ?me m' i) (ctx, af, ?w3))"
    using 1 2 me by (simp add: digi_repeat_at_def dc Let_def split: option.split)
  have c8: "unat (rpt_cnt msg) \<le> 8" using m by (simp add: msg_ok_def AX25_MAX_RPT_def)
  have go: "\<exists>msg' ctx' af' w'. digi_repeat_message (digi_sign ?me m' i) (ctx, af, ?w3) = Some (True, ctx', af', w') \<and>
      path_of msg' = ?path \<and> same_payload msg' msg \<and>
      sent af' = sent af @ on_channel (msg_body msg') \<and> tx_ok (stat ctx') = tx_ok (stat ctx) + 1"
    if m': "msg_ok m'" "same_payload m' msg" "path_of (digi_sign ?me m' i) = ?path" for m'
  proof -
    have ok: "msg_ok (digi_sign ?me m' i)" "same_payload (digi_sign ?me m' i) msg"
      using sign_ok [OF m'(1) get_mycall_ok [OF st], of i] m'(2) by (simp_all add: same_payload_def)
    have "?path \<noteq> []" by (simp add: hop_at_def Let_def)
    then have "rpt_cnt (digi_sign ?me m' i) \<noteq> 0" using m'(3) path_length_sign by metis
    from digi_repeat_ok [OF ok(1) _ a this, of ?w3 ctx] 2(2) m'(3) ok(2) show ?thesis
      by (auto simp: stat_tx_ok_def)
  qed
  have len: "length ?path \<le> AX25_MAX_RPT \<longleftrightarrow> \<not> 1 < ssid ?c \<or> i < 7"
    using i c8 by (auto simp: hop_at_def Let_def path_of_nth AX25_MAX_RPT_def)
  show ?thesis
  proof (cases "1 < ssid ?c")
    case False
    then have "digi_spread msg i = Some msg" by (simp add: digi_spread_def Let_def)
    with go [OF m _ sign_last [OF m i False]] eq len False show ?thesis by (simp add: same_payload_def)
  next
    case True
    show ?thesis
    proof (cases "i < 7")
      case j: True
      from go [OF _ _ spread_sign [OF m i True j]] spread_ok [OF m i j] eq len digi_spread_eq [OF True j] j
      show ?thesis by simp
    next
      case False
      with True have "digi_spread msg i = None" by (simp add: digi_spread_def Let_def AX25_MAX_RPT_def)
      with eq len True False show ?thesis by simp
    qed
  qed
qed

lemma handle_at:
  assumes "hop me (path_of msg) = Some path"
  obtains i where "i < unat (rpt_cnt msg)" "path = hop_at me (path_of msg) i"
    "digi_handle_aprs_message msg s = digi_repeat_at msg i s"
proof -
  obtain i where i: "i < unat (rpt_cnt msg)" "digi_due msg i" "\<forall>j<i. \<not> digi_due msg j" "path = hop_at me (path_of msg) i"
    using hop_first [OF assms] hop_due_digi by (auto dest: less_trans)
  from digi_scan_first [OF i(1-3), of 0] have "digi_handle_aprs_message msg s = digi_repeat_at msg i s"
    by (simp add: digi_handle_aprs_message_def)
  with i(1,4) show thesis by (rule that)
qed

text \<open>
  C9. What the digipeater does with a message that is not in its cache, against the hop a path should
  make: without an unused \<^verbatim>\<open>WIDEn-N\<close> nothing happens; with one, the message is sent once, its content
  unchanged and its path the hop's; if the hop's path would be longer than eight stations, nothing is
  sent. In every case the operation returns.
\<close>

theorem digi_repeats:
  assumes "msg_ok msg" and "ser_tx_ok (g_serial w)" and "afsk_tx_ok af" and "store_ok w"
    and "\<not> fst (digi_check_is_duplicated msg w)"
  shows "case hop (settings_get_mycall w) (path_of msg) of
      None \<Rightarrow> digi_handle_aprs_message msg (ctx, af, w) = Some (False, ctx, af, w)
    | Some path \<Rightarrow>
        if length path \<le> AX25_MAX_RPT
        then \<exists>msg' ctx' af' w'. digi_handle_aprs_message msg (ctx, af, w) = Some (True, ctx', af', w') \<and>
          path_of msg' = path \<and> same_payload msg' msg \<and> sent af' = sent af @ on_channel (msg_body msg') \<and>
          tx_ok (stat ctx') = tx_ok (stat ctx) + 1
        else \<exists>w'. digi_handle_aprs_message msg (ctx, af, w) = Some (False, ctx, af, w')"
proof (cases "hop (settings_get_mycall w) (path_of msg)")
  case None
  then have "\<forall>j < length (path_of msg). \<not> hop_due (path_of msg ! j)" by (rule hop_none)
  then have "\<forall>j \<in> set [0..<unat (rpt_cnt msg)]. \<not> digi_due msg j" using hop_due_digi by auto
  from digi_scan_none [OF this, of "(ctx, af, w)"] None show ?thesis by (simp add: digi_handle_aprs_message_def)
next
  case (Some path)
  then obtain i where i: "i < unat (rpt_cnt msg)" "path = hop_at (settings_get_mycall w) (path_of msg) i"
    "digi_handle_aprs_message msg (ctx, af, w) = digi_repeat_at msg i (ctx, af, w)" using handle_at [OF Some] by blast
  with digi_repeat_at_ok [OF assms i(1), of ctx] Some show ?thesis by (simp only: option.case)
qed

definition example_digi :: Digi where
  "example_digi = digi_init (Kiss.extend example_kiss \<lparr>cache = [], cacheIndex = 0, digi_count = 1\<rparr>)"

definition example_wide :: AX25Msg where
  "example_wide = example_msg\<lparr>rpt_lst := replicate 8 \<lparr>call = str ''WIDE1'' @ [0], ssid = 1\<rparr>, rpt_flags := 0\<rparr>"

lemma example_digi_ok:
  "ser_tx_ok (g_serial example_digi)" "store_ok example_digi" "cacheIndex example_digi = 0" "length (cache example_digi) = 8"
  "clock example_digi = 0"
  using example_kiss_ok(2,3)
  by (simp_all add: example_digi_def digi_init_def Kiss.defs store_ok_def CACHE_SIZE_def example_kiss_def)

lemma example_wide_ok: "msg_ok example_wide" "path_of example_wide = [(\<lparr>call = str ''WIDE1'' @ [0], ssid = 1\<rparr>, False)]"
  by (simp_all add: msg_ok_def example_wide_def example_msg_def example_call_def AX25_MAX_RPT_def str_def path_of_def
      AX25_REPEATED_def list_all_iff)

lemma empty_cache_search: "cache_search hash now c 0 n = False"
  by (cases n) simp_all

lemma example_hop: "hop me (path_of example_wide) = Some [(me, True)]"
  by (simp add: example_wide_ok hop_due_def is_wide_def str_def c_strncaseeq_def)

theorem digi_repeats_witness:
  "\<exists>msg' ctx' af' w'. digi_handle_aprs_message example_wide (ax25_init, afsk_init 0 0, example_digi) =
      Some (True, ctx', af', w') \<and> path_of msg' = [(settings_get_mycall example_digi, True)] \<and>
    sent af' = on_channel (msg_body msg')"
proof -
  have "\<not> fst (digi_check_is_duplicated example_wide example_digi)"
    by (simp add: check_eq seen_def example_digi_ok empty_cache_search)
  from digi_repeats [OF example_wide_ok(1) example_digi_ok(1) example_csma(1) example_digi_ok(2) this, of ax25_init]
  show ?thesis by (auto simp: example_hop example_csma AX25_MAX_RPT_def)
qed

section \<open>Duplicates within the interval\<close>

lemma cache_search_iff:
  assumes "n \<le> CACHE_SIZE"
  shows "cache_search hash now c idx n \<longleftrightarrow>
    0 < idx \<and> (\<exists>j \<in> {1..n}. entry_matches hash now (c ! ((idx - 1 + j) mod CACHE_SIZE)))"
  using assms
proof (induction n)
  case (Suc n)
  have "{1..Suc n} = insert (Suc n) {1..n}" by auto
  with Suc show ?case by auto
qed simp

lemma residues_covered: "k < CACHE_SIZE \<Longrightarrow> \<exists>j \<in> {1..CACHE_SIZE}. (m + j) mod CACHE_SIZE = k"
proof -
  assume k: "k < CACHE_SIZE"
  let ?d = "k + CACHE_SIZE - m mod CACHE_SIZE"
  have m: "m mod CACHE_SIZE < CACHE_SIZE" by (simp add: CACHE_SIZE_def)
  let ?j = "if ?d \<le> CACHE_SIZE then ?d else ?d - CACHE_SIZE"
  have "(m + ?d) mod CACHE_SIZE = (m mod CACHE_SIZE + ?d) mod CACHE_SIZE" by (simp add: mod_simps)
  also have "m mod CACHE_SIZE + ?d = k + CACHE_SIZE" using m by simp
  finally have d: "(m + ?d) mod CACHE_SIZE = k" using k by simp
  have "(m + ?j) mod CACHE_SIZE = k"
    using d by (auto simp: le_mod_geq not_le)
  moreover have "1 \<le> ?j \<and> ?j \<le> CACHE_SIZE" using k m by (auto simp del: mod_less_divisor)
  ultimately show ?thesis by (meson atLeastAtMost_iff)
qed

text \<open>The cache holds an entry at \<open>p\<close>, with at most \<open>k\<close> others stored after it.\<close>

definition holds :: "nat \<Rightarrow> CacheEntry \<Rightarrow> nat \<Rightarrow> 'a Digi_scheme \<Rightarrow> bool" where
  "holds p e k w \<longleftrightarrow> length (cache w) = CACHE_SIZE \<and> p < CACHE_SIZE \<and> cache w ! p = e \<and>
     1 \<le> unat (cacheIndex w) \<and> unat (cacheIndex w) \<le> CACHE_SIZE \<and> (unat (cacheIndex w) - 1 + CACHE_SIZE - p) mod CACHE_SIZE \<le> k"

lemma holds_seen:
  "holds p e k w \<Longrightarrow> entry_matches (digi_calc_hash msg) (timer_clock_seconds (clock w)) e \<Longrightarrow> seen msg w"
  using residues_covered [of p "unat (cacheIndex w) - 1"]
  by (auto simp: seen_def cache_search_iff holds_def)

lemma unat_next_index: "unat i \<le> 8 \<Longrightarrow> unat (next_index i) = (if unat i = 8 then 1 else Suc (unat i))"
proof -
  assume i: "unat i \<le> 8"
  then have s: "unat (i + 1) = Suc (unat i)" by (intro unat_suc_u8) simp
  show ?thesis
  proof (cases "unat i = 8")
    case True
    then have "word_of_nat (unat i) = (word_of_nat 8 :: u8)" by (simp only:)
    then have "i = 8" by simp
    then show ?thesis by (simp add: next_index_def CACHE_SIZE_def)
  qed (use i s in \<open>simp add: next_index_def CACHE_SIZE_def\<close>)
qed

definition cache_ok :: "'a Digi_scheme \<Rightarrow> bool" where
  "cache_ok w \<longleftrightarrow> length (cache w) = CACHE_SIZE \<and> unat (cacheIndex w) \<le> CACHE_SIZE"

definition entry_for :: "AX25Msg \<Rightarrow> 'a Digi_scheme \<Rightarrow> CacheEntry" where
  "entry_for msg w = \<lparr>ce_hash = digi_calc_hash msg, ce_timestamp = timer_clock_seconds (clock w)\<rparr>"

lemma remember_holds: "cache_ok w \<Longrightarrow> \<exists>p. holds p (entry_for msg w) 0 (remember msg w)"
  by (rule exI [of _ "unat (next_index (cacheIndex w)) - 1"])
    (simp add: holds_def cache_ok_def remember_def entry_for_def unat_next_index CACHE_SIZE_def)

lemma ring_age:
  fixes i p k :: nat
  assumes "1 \<le> i" and "i < 8" and "p < 8" and "(i - 1 + 8 - p) mod 8 \<le> k" and "k < 7"
  shows "i \<noteq> p \<and> (i + 8 - p) mod 8 \<le> Suc k"
proof (cases "p < i")
  case True
  then have "(i - 1 + 8 - p) mod 8 = i - 1 - p" "(i + 8 - p) mod 8 = i - p" using assms(2) by (simp_all add: mod_if)
  with True assms(4) show ?thesis by simp
next
  case False
  then have "(i - 1 + 8 - p) mod 8 = i + 7 - p" using assms(1-3) by (simp add: mod_if add.commute)
  with False assms have p: "i < p" "i + 7 - p \<le> k" by auto
  then have "(i + 8 - p) mod 8 = i + 8 - p" by simp
  with p show ?thesis by linarith
qed

lemma holds_remember:
  assumes "holds p e k w" and "k < 7"
  shows "holds p e (Suc k) (remember msg w)"
proof -
  let ?i = "unat (cacheIndex w)"
  have h: "length (cache w) = 8" "p < 8" "cache w ! p = e" "1 \<le> ?i" "?i \<le> 8" "(?i - 1 + 8 - p) mod 8 \<le> k"
    using assms(1) by (simp_all only: holds_def CACHE_SIZE_def)
  show ?thesis
  proof (cases "?i = 8")
    case True
    have m: "(15 - p) mod 8 = 7 - p" using h(2) by (simp add: mod_if)
    with True h assms(2) have "p \<noteq> 0" by auto
    with m show ?thesis using True h
      by (simp add: holds_def CACHE_SIZE_def remember_def unat_next_index)
  next
    case False
    then have "?i \<noteq> p \<and> (?i + 8 - p) mod 8 \<le> Suc k" using h assms(2) by (intro ring_age) simp_all
    then show ?thesis using False h
      by (simp add: holds_def CACHE_SIZE_def remember_def unat_next_index)
  qed
qed

lemma holds_cong: "cache w' = cache w \<Longrightarrow> cacheIndex w' = cacheIndex w \<Longrightarrow> holds p e k w' = holds p e k w"
  by (simp add: holds_def)

lemma holds_clock [simp]: "holds p e k (w\<lparr>clock := t\<rparr>) = holds p e k w"
  by (rule holds_cong) simp_all

lemma holds_mono: "holds p e k w \<Longrightarrow> k \<le> k' \<Longrightarrow> holds p e k' w"
  by (auto simp: holds_def)

text \<open>Only the check for duplicates touches the cache.\<close>

lemma keeps_cache:
  fixes w :: "'a Digi_scheme"
  shows "g_printf fmt args w = Some w' \<Longrightarrow> cache w' = cache w \<and> cacheIndex w' = cacheIndex w"
    and "g_print_msg msg w = Some w' \<Longrightarrow> cache w' = cache w \<and> cacheIndex w' = cacheIndex w"
    and "g_delay ms w = Some w' \<Longrightarrow> cache w' = cache w \<and> cacheIndex w' = cacheIndex w"
  by (auto simp: g_printf_def g_print_msg_def g_delay_def bind_eq_Some_conv)

lemma repeat_keeps_cache:
  "digi_repeat_message msg (ctx, af, w) = Some (b, ctx', af', w') \<Longrightarrow> cache w' = cache w \<and> cacheIndex w' = cacheIndex w"
  by (auto simp: digi_repeat_message_def Let_def bind_eq_Some_conv dest!: keeps_cache)

lemma repeat_at_cache:
  assumes "digi_repeat_at msg i (ctx, af, w) = Some (b, ctx', af', w')"
  shows "cache w' = cache (snd (digi_check_is_duplicated msg w)) \<and> cacheIndex w' = cacheIndex (snd (digi_check_is_duplicated msg w))"
  using assms
  by (auto simp: digi_repeat_at_def split_beta Let_def bind_eq_Some_conv split: if_splits option.splits
      dest!: keeps_cache repeat_keeps_cache)

lemma scan_cases:
  "digi_scan msg is s = Some (False, s) \<or> (\<exists>i. digi_scan msg is s = digi_repeat_at msg i s)"
  by (induction "is") auto

lemma handle_holds:
  assumes "holds p e k w" and "k < 7" and "digi_handle_aprs_message msg (ctx, af, w) = Some (b, ctx', af', w')"
  shows "holds p e (Suc k) w'"
proof -
  have "w' = w \<or> (\<exists>i. digi_repeat_at msg i (ctx, af, w) = Some (b, ctx', af', w'))"
    using scan_cases [of msg "[0..<unat (rpt_cnt msg)]" "(ctx, af, w)"] assms(3)
    by (auto simp: digi_handle_aprs_message_def)
  then show ?thesis
  proof
    assume "w' = w"
    with holds_mono [OF assms(1)] show ?thesis by simp
  next
    assume "\<exists>i. digi_repeat_at msg i (ctx, af, w) = Some (b, ctx', af', w')"
    then have "holds p e (Suc k) w' = holds p e (Suc k) (snd (digi_check_is_duplicated msg w))"
      using repeat_at_cache holds_cong by blast
    with holds_remember [OF assms(1,2)] holds_mono [OF assms(1)] show ?thesis by (simp add: check_eq)
  qed
qed

text \<open>Messages handled one after the other, each at the given reading of the clock.\<close>

fun digi_runs :: "(i32 \<times> AX25Msg) list \<Rightarrow> 'a Digi_scheme tnc \<Rightarrow> 'a Digi_scheme tnc option" where
  "digi_runs [] s = Some s"
| "digi_runs ((t, m) # ms) (ctx, af, w) =
     do { (_, s) \<leftarrow> digi_handle_aprs_message m (ctx, af, w\<lparr>clock := t\<rparr>); digi_runs ms s }"

lemma runs_holds:
  "holds p e k w \<Longrightarrow> k + length ms \<le> 7 \<Longrightarrow> digi_runs ms (ctx, af, w) = Some (ctx', af', w') \<Longrightarrow>
   holds p e (k + length ms) w'"
proof (induction ms arbitrary: k ctx af w)
  case (Cons tm ms)
  obtain t m where tm: "tm = (t, m)" by (cases tm)
  with Cons.prems(3) obtain b ctx1 af1 w1 where
    1: "digi_handle_aprs_message m (ctx, af, w\<lparr>clock := t\<rparr>) = Some (b, ctx1, af1, w1)"
    "digi_runs ms (ctx1, af1, w1) = Some (ctx', af', w')" by (auto simp: bind_eq_Some_conv)
  have "holds p e k (w\<lparr>clock := t\<rparr>)" using Cons.prems(1) by simp
  from handle_holds [OF this _ 1(1)] Cons.prems(2) have "holds p e (Suc k) w1" by simp
  from Cons.IH [OF this _ 1(2)] Cons.prems(2) show ?case by simp
qed simp

lemma seen_dropped: "seen msg w \<Longrightarrow> digi_handle_aprs_message msg (ctx, af, w) = Some (False, ctx, af, w)"
  using scan_cases [of msg "[0..<unat (rpt_cnt msg)]" "(ctx, af, w)"]
  by (auto simp: digi_handle_aprs_message_def digi_repeat_at_def check_eq)

text \<open>
  C10. A message that was handled is not repeated again: when the same source, destination and content
  arrive within 15 seconds, over whatever path, and at most seven other messages in between, at
  whatever times, nothing is sent and nothing changes.
\<close>

theorem digi_drops_duplicates:
  assumes "cache_ok w" and "hop me (path_of msg) \<noteq> None" and "\<not> fst (digi_check_is_duplicated msg w)"
    and "digi_handle_aprs_message msg (ctx, af, w) = Some (b, s1)" and "digi_runs ms s1 = Some (ctx2, af2, w2)"
    and "length ms \<le> 7" and "m_src msg' = m_src msg" and "m_dst msg' = m_dst msg"
    and "m_len msg' = m_len msg" and "take (unat (m_len msg)) (m_info msg') = take (unat (m_len msg)) (m_info msg)"
    and "timer_clock_seconds t - timer_clock_seconds (clock w) < DUP_CHECK_INTERVAL"
  shows "digi_handle_aprs_message msg' (ctx2, af2, w2\<lparr>clock := t\<rparr>) = Some (False, ctx2, af2, w2\<lparr>clock := t\<rparr>)"
proof -
  obtain i where i: "digi_handle_aprs_message msg (ctx, af, w) = digi_repeat_at msg i (ctx, af, w)"
    using assms(2) handle_at by blast
  obtain ctx1 af1 w1 where s1: "s1 = (ctx1, af1, w1)" by (cases s1)
  have "holds p e k w1 = holds p e k (remember msg w)" for p e k
    using assms(3,4) i repeat_at_cache [of msg i ctx af w b ctx1 af1 w1] holds_cong [of w1 "remember msg w"]
    by (simp add: check_eq s1 split: if_splits)
  then obtain p where "holds p (entry_for msg w) 0 w1" using remember_holds [OF assms(1)] by blast
  from runs_holds [OF this _ assms(5) [unfolded s1]] assms(6)
  have "holds p (entry_for msg w) (length ms) (w2\<lparr>clock := t\<rparr>)" by simp
  moreover have "digi_calc_hash msg' = digi_calc_hash msg" using assms(7-10) by (simp add: digi_calc_hash_def)
  ultimately have "seen msg' (w2\<lparr>clock := t\<rparr>)" using assms(11)
    by (auto intro!: holds_seen simp: entry_matches_def entry_for_def)
  then show ?thesis by (rule seen_dropped)
qed

theorem digi_drops_duplicates_witness:
  "\<exists>ctx' af' w'. digi_handle_aprs_message example_wide (ax25_init, afsk_init 0 0, example_digi) = Some (True, ctx', af', w') \<and>
     digi_handle_aprs_message example_wide (ctx', af', w'\<lparr>clock := 14999\<rparr>) = Some (False, ctx', af', w'\<lparr>clock := 14999\<rparr>)"
proof -
  have d: "\<not> fst (digi_check_is_duplicated example_wide example_digi)"
    by (simp add: check_eq seen_def example_digi_ok empty_cache_search)
  have c: "cache_ok example_digi" by (simp add: cache_ok_def example_digi_ok CACHE_SIZE_def)
  have t: "timer_clock_seconds 14999 - timer_clock_seconds (clock example_digi) < DUP_CHECK_INTERVAL"
    by (simp add: example_digi_ok timer_clock_seconds_def ticks_to_ms_def c_div_def TIMER_TICKS_PER_SEC_def DUP_CHECK_INTERVAL_def)
  obtain i where i: "i < unat (rpt_cnt example_wide)"
    "[(settings_get_mycall example_digi, True)] = hop_at (settings_get_mycall example_digi) (path_of example_wide) i"
    "digi_handle_aprs_message example_wide (ax25_init, afsk_init 0 0, example_digi) =
      digi_repeat_at example_wide i (ax25_init, afsk_init 0 0, example_digi)"
    using handle_at [OF example_hop] by blast
  then obtain ctx' af' w' where h: "digi_handle_aprs_message example_wide (ax25_init, afsk_init 0 0, example_digi) =
      Some (True, ctx', af', w')"
    using digi_repeat_at_ok [OF example_wide_ok(1) example_digi_ok(1) example_csma(1) example_digi_ok(2) d i(1), of ax25_init] i(3)
    by (auto simp: AX25_MAX_RPT_def i(2) [symmetric])
  from digi_drops_duplicates [OF c _ d h, of me Nil ctx' af' w' example_wide 14999] t h show ?thesis
    by (simp add: example_hop)
qed

end
