(* ===== verification/Beacon.thy ===== *)
theory Beacon
  imports Digi
begin

text \<open>
  The beacon of \<^verbatim>\<open>TinyAPRS/beacon.[ch]\<close>: the stored text is sent over the stored path, once at the start and
  then whenever more than the configured interval has passed. The clock is read again after a text is
  sent; how long sending takes is the parameter \<open>busy\<close>, in ticks.
\<close>

section \<open>Operations\<close>

record Beacon = Digi +
  lastSendTimeSeconds :: i32

definition beacon_init :: "'a Beacon_scheme \<Rightarrow> 'a Beacon_scheme" where
  "beacon_init w = w\<lparr>lastSendTimeSeconds := 0\<rparr>"

definition beacon_path :: "CallData \<Rightarrow> AX25Call list" where
  "beacon_path d =
     (let pathCount = 2;
          pathCount = (if 0 < sint (call (path1 d) ! 0) then Suc pathCount else pathCount);
          pathCount = (if 0 < sint (call (path2 d) ! 0) then Suc pathCount else pathCount)
      in take pathCount [destCall d, myCall d, path1 d, path2 d])"

definition beacon_send :: "bytes \<Rightarrow> u8 \<Rightarrow> 'a Globals_scheme tnc \<Rightarrow> 'a Globals_scheme tnc option" where
  "beacon_send payload payloadLen s =
     (let (ctx, af, w) = s
      in if length payload < unat payloadLen then None
         else
           do { (ctx, af) \<leftarrow> ax25_sendVia afsk_fd (beacon_path (settings_get_call_data w)) (take (unat payloadLen) payload) (ctx, af);
                w \<leftarrow> g_putchar (chr CHR ''.'') w;
                Some (ctx, af, w) })"

definition send_fixed_text :: "i32 \<Rightarrow> 'a Globals_scheme tnc \<Rightarrow> 'a Globals_scheme tnc option" where
  "send_fixed_text busy s =
     do { (payload, payloadLen) \<leftarrow> settings_get_beacon_text 127 (snd (snd s));
          (ctx, af, w) \<leftarrow> (if 0 < payloadLen then beacon_send payload payloadLen s else Some s);
          Some (ctx, af, w\<lparr>clock := clock w + busy\<rparr>) }"

text \<open>The test messages, with the time each of them takes.\<close>

fun beacon_send_test_message_immediate :: "i32 \<Rightarrow> nat \<Rightarrow> 'a Globals_scheme tnc \<Rightarrow> 'a Globals_scheme tnc option" where
  "beacon_send_test_message_immediate busy 0 s = Some s"
| "beacon_send_test_message_immediate busy (Suc repeats) s =
     do { (ctx, af, w) \<leftarrow> send_fixed_text busy s;
          w \<leftarrow> (if 0 < repeats then g_delay 2000 w else Some w);
          beacon_send_test_message_immediate busy repeats (ctx, af, w) }"

definition beacon_broadcast_poll :: "i32 \<Rightarrow> 'a Beacon_scheme tnc \<Rightarrow> 'a Beacon_scheme tnc option" where
  "beacon_broadcast_poll busy s =
     (let (ctx, af, w) = s;
          beaconSendInterval = interval (beacon (g_settings w));
          currentTimestamp = timer_clock_seconds (clock w)
      in if beaconSendInterval = 0 then Some s
         else if lastSendTimeSeconds w = 0 then
           let w = w\<lparr>lastSendTimeSeconds := timer_clock_seconds (clock w)\<rparr>
           in if 0 < sint (lastSendTimeSeconds w) then send_fixed_text busy (ctx, af, w) else Some (ctx, af, w)
         else if int (unat beaconSendInterval) < sint (currentTimestamp - lastSendTimeSeconds w) then
           do { (ctx, af, w) \<leftarrow> send_fixed_text busy s;
                Some (ctx, af, w\<lparr>lastSendTimeSeconds := timer_clock_seconds (clock w)\<rparr>) }
         else Some s)"

section \<open>Sending the text\<close>

text \<open>What a beacon puts on the channel.\<close>

definition beacon_text_of :: "'a Store_scheme \<Rightarrow> bytes" where
  "beacon_text_of st =
     (if nvBeaconTextHeadByte st \<noteq> NV_BEACON_TEXT_HEAD_BYTE_VALUE then DEFAULT_BEACON_TEXT
      else c_str (take 126 (nvBeaconText st)))"

definition beacon_frame :: "'a Store_scheme \<Rightarrow> bytes" where
  "beacon_frame st =
     (if beacon_text_of st = [] then []
      else on_channel (via_body (beacon_path (settings_get_call_data st)) (beacon_text_of st)))"

lemma length_c_str: "length (c_str xs) \<le> length xs"
  by (simp add: c_str_def length_takeWhile_le)

lemma beacon_text_ok:
  "settings_get_beacon_text 127 st = Some (beacon_text_of st, word_of_nat (length (beacon_text_of st)))"
  "length (beacon_text_of st) \<le> 126"
proof -
  have "length (c_str (take 126 (nvBeaconText st))) \<le> 126"
    using length_c_str [of "take 126 (nvBeaconText st)"] by simp
  then show "length (beacon_text_of st) \<le> 126"
    by (simp add: beacon_text_of_def DEFAULT_BEACON_TEXT_def str_def)
  show "settings_get_beacon_text 127 st = Some (beacon_text_of st, word_of_nat (length (beacon_text_of st)))"
    by (simp add: settings_get_beacon_text_def beacon_text_of_def Let_def SETTINGS_BEACON_TEXT_MAX_LEN_def
        eeprom_read_block_def) (simp add: DEFAULT_BEACON_TEXT_def str_def)
qed

lemma unat_small_u8: "n < 256 \<Longrightarrow> unat (word_of_nat n :: u8) = n"
  by (simp add: unat_of_nat)

lemma send_fixed_text_ok:
  assumes "afsk_tx_ok af" and "ser_tx_ok (g_serial w)"
  shows "\<exists>ctx' af' ser. send_fixed_text busy (ctx, af, w) = Some (ctx', af', w\<lparr>g_serial := ser, clock := clock w + busy\<rparr>) \<and>
    afsk_tx_ok af' \<and> ser_tx_ok ser \<and> sent af' = sent af @ beacon_frame w"
proof -
  let ?t = "beacon_text_of w" and ?p = "beacon_path (settings_get_call_data w)"
  have n: "unat (word_of_nat (length ?t) :: u8) = length ?t" using beacon_text_ok(2) [of w] by (intro unat_small_u8) simp
  show ?thesis
  proof (cases "?t = []")
    case True
    then show ?thesis using assms
      by (intro exI [of _ ctx] exI [of _ af] exI [of _ "g_serial w"]) (simp add: send_fixed_text_def beacon_text_ok beacon_frame_def)
  next
    case False
    then have p: "0 < (word_of_nat (length ?t) :: u8)" using n by (simp add: word_less_nat_alt)
    obtain af' where a: "ax25_sendVia afsk_fd ?p ?t (ctx, af) = Some (stat_tx_ok (ctx\<lparr>crc_out := AX25_CRC_CORRECT\<rparr>), af')"
      "afsk_tx_ok af'" "sent af' = sent af @ on_channel (via_body ?p ?t)"
      using modem_sendVia_ok [OF assms(1), of ?p ?t ctx] by blast
    obtain ser where s: "g_putchar (chr CHR ''.'') w = Some (w\<lparr>g_serial := ser\<rparr>)" "ser_tx_ok ser"
      using g_puts_char [OF assms(2), of "chr CHR ''.''"] by (auto elim!: g_putsE)
    show ?thesis using a s p n False
      by (auto simp: send_fixed_text_def beacon_send_def beacon_text_ok beacon_frame_def)
  qed
qed
section \<open>The schedule\<close>

text \<open>
  Polls at given readings of the clock, each with the time sending would take; and the number of
  beacons they should produce, over the integers: \<open>prev\<close> is 0 until the first beacon.
\<close>

fun beacon_polls :: "(i32 \<times> i32) list \<Rightarrow> 'a Beacon_scheme tnc \<Rightarrow> 'a Beacon_scheme tnc option" where
  "beacon_polls [] s = Some s"
| "beacon_polls ((t, busy) # ts) (ctx, af, w) =
     do { s \<leftarrow> beacon_broadcast_poll busy (ctx, af, w\<lparr>clock := t\<rparr>); beacon_polls ts s }"

fun schedule :: "int \<Rightarrow> int \<Rightarrow> (int \<times> int) list \<Rightarrow> nat" where
  "schedule iv prev [] = 0"
| "schedule iv prev ((t, d) # ts) =
     (let s = t div 1000
      in if iv = 0 then 0
         else if prev = 0 then (if s = 0 then schedule iv 0 ts else Suc (schedule iv s ts))
         else if iv < s - prev then Suc (schedule iv ((t + d) div 1000) ts)
         else schedule iv prev ts)"

text \<open>Clock readings of one run, before the tick counter overflows after 24 days.\<close>

fun readings :: "int \<Rightarrow> (int \<times> int) list \<Rightarrow> bool" where
  "readings t0 [] = (t0 < 2147483648)"
| "readings t0 ((t, d) # ts) = (t0 \<le> t \<and> 0 \<le> d \<and> readings (t + d) ts)"

lemma readings_bound: "readings t0 ts \<Longrightarrow> t0 < 2147483648"
  by (induction ts arbitrary: t0) (force dest: order_le_less_trans)+

lemma sint_i32: "0 \<le> t \<Longrightarrow> t < 2147483648 \<Longrightarrow> sint (word_of_int t :: i32) = t"
  by (simp add: signed_of_int signed_take_bit_int_eq_self)

lemma seconds_of:
  assumes "0 \<le> t" and "t < 2147483648"
  shows "timer_clock_seconds (word_of_int t) = word_of_int (t div 1000)" "sint (word_of_int (t div 1000) :: i32) = t div 1000"
proof -
  have "0 \<le> t div 1000" "t div 1000 < 2147483648" using assms by auto
  then show "sint (word_of_int (t div 1000) :: i32) = t div 1000" by (rule sint_i32)
  have z: "c_div t 1000 = t div 1000" "c_div t 1 = t" using assms(1) by (auto simp: c_div_def sgn_if)
  then show "timer_clock_seconds (word_of_int t) = word_of_int (t div 1000)"
    using assms by (simp add: timer_clock_seconds_def ticks_to_ms_def sint_i32 TIMER_TICKS_PER_SEC_def)
qed

lemma sint_diff_i32:
  assumes "0 \<le> a" and "a < 2147483648" and "0 \<le> b" and "b < 2147483648"
  shows "sint (word_of_int a - word_of_int b :: i32) = a - b"
proof -
  have "(word_of_int a - word_of_int b :: i32) = word_of_int (a - b)" by simp
  moreover have "signed_take_bit 31 (a - b) = a - b" using assms by (intro signed_take_bit_int_eq_self) simp_all
  ultimately show ?thesis by (simp only: signed_of_int) simp
qed

lemma word_of_int_i32_0: "0 \<le> a \<Longrightarrow> a < 2147483648 \<Longrightarrow> (word_of_int a :: i32) = 0 \<longleftrightarrow> a = 0"
  using sint_i32 [of a] by auto

text \<open>One poll: how many beacons it sends, and the time it keeps.\<close>

definition due_now :: "int \<Rightarrow> int \<Rightarrow> int \<Rightarrow> int \<Rightarrow> nat \<times> int" where
  "due_now iv prev t d =
     (if iv = 0 then (0, prev)
      else if prev = 0 then (if t div 1000 = 0 then 0 else 1, t div 1000)
      else if iv < t div 1000 - prev then (1, (t + d) div 1000) else (0, prev))"

lemma schedule_step: "iv \<noteq> 0 \<or> ts = [] \<Longrightarrow> schedule iv prev ((t, d) # ts) = (let (n, p) = due_now iv prev t d in n + schedule iv p ts)"
  by (auto simp: due_now_def Let_def)

lemma poll_cases:
  assumes t: "0 \<le> t" "t < 2147483648" and p: "lastSendTimeSeconds w = word_of_int prev" "0 \<le> prev" "prev < 2147483648"
  shows "beacon_broadcast_poll busy (ctx, af, w\<lparr>clock := word_of_int t\<rparr>) =
    (let w = w\<lparr>clock := word_of_int t\<rparr>; iv = interval (beacon (g_settings w)); s = word_of_int (t div 1000)
     in if iv = 0 then Some (ctx, af, w)
        else if prev = 0 then
          if t div 1000 = 0 then Some (ctx, af, w\<lparr>lastSendTimeSeconds := s\<rparr>)
          else send_fixed_text busy (ctx, af, w\<lparr>lastSendTimeSeconds := s\<rparr>)
        else if int (unat iv) < t div 1000 - prev then
          do { (ctx, af, w) \<leftarrow> send_fixed_text busy (ctx, af, w);
               Some (ctx, af, w\<lparr>lastSendTimeSeconds := timer_clock_seconds (clock w)\<rparr>) }
        else Some (ctx, af, w))"
proof -
  have sb: "0 \<le> t div 1000" "t div 1000 < 2147483648" using t by auto
  have "lastSendTimeSeconds w = 0 \<longleftrightarrow> prev = 0" using p word_of_int_i32_0 by simp
  moreover have "sint (word_of_int (t div 1000) - lastSendTimeSeconds w) = t div 1000 - prev"
    using sint_diff_i32 [OF sb p(2,3)] p(1) by simp
  moreover have "0 < t div 1000 \<longleftrightarrow> t div 1000 \<noteq> 0" using sb by linarith
  ultimately show ?thesis using seconds_of [OF t] by (simp add: beacon_broadcast_poll_def Let_def)
qed

lemma beacon_frame_cong [simp]:
  "beacon_frame (w\<lparr>clock := c\<rparr>) = beacon_frame w" "beacon_frame (w\<lparr>clock := c, lastSendTimeSeconds := l\<rparr>) = beacon_frame w"
  "beacon_frame (w\<lparr>g_serial := ser\<rparr>) = beacon_frame w"
  by (simp_all add: beacon_frame_def beacon_text_of_def settings_get_call_data_def)

lemma poll_step:
  assumes ok: "afsk_tx_ok af" "ser_tx_ok (g_serial w)" and t: "0 \<le> t" "0 \<le> d" "t + d < 2147483648"
    and p: "lastSendTimeSeconds w = word_of_int prev" "0 \<le> prev" "prev < 2147483648"
    and r: "due_now (int (unat (interval (beacon (g_settings w))))) prev t d = (n, p')"
  shows "\<exists>ctx' af' ser c. beacon_broadcast_poll (word_of_int d) (ctx, af, w\<lparr>clock := word_of_int t\<rparr>) =
      Some (ctx', af', w\<lparr>g_serial := ser, clock := c, lastSendTimeSeconds := word_of_int p'\<rparr>) \<and>
    afsk_tx_ok af' \<and> ser_tx_ok ser \<and> sent af' = sent af @ concat (replicate n (beacon_frame w))"
proof -
  let ?iv = "interval (beacon (g_settings w))" and ?s = "word_of_int (t div 1000) :: i32" and ?w = "w\<lparr>clock := word_of_int t\<rparr>"
  have t2: "t < 2147483648" "0 \<le> t + d" using t by simp_all
  note poll = poll_cases [OF t(1) t2(1) p, of "word_of_int d" ctx af, unfolded Let_def]
  have swap: "w\<lparr>clock := a, lastSendTimeSeconds := l, g_serial := s, clock := c\<rparr> = w\<lparr>g_serial := s, clock := c, lastSendTimeSeconds := l\<rparr>" for a l s c
    by simp
  consider (idle) "?iv = 0 \<or> prev \<noteq> 0 \<and> \<not> int (unat ?iv) < t div 1000 - prev" | (start) "?iv \<noteq> 0" "prev = 0" "t div 1000 = 0"
    | (first) "?iv \<noteq> 0" "prev = 0" "t div 1000 \<noteq> 0" | (due) "?iv \<noteq> 0" "prev \<noteq> 0" "int (unat ?iv) < t div 1000 - prev"
    by blast
  then show ?thesis
  proof cases
    case idle
    then have "n = 0" "p' = prev" using r by (auto simp: due_now_def uint_0_iff split: if_splits)
    moreover from idle have "beacon_broadcast_poll (word_of_int d) (ctx, af, ?w) = Some (ctx, af, ?w)"
      unfolding poll by (cases "prev = 0") auto
    ultimately show ?thesis using ok by (intro exI [of _ ctx] exI [of _ af] exI [of _ "g_serial w"] exI [of _ "word_of_int t"])
        (simp add: p(1) [symmetric])
  next
    case start
    then have "n = 0" "p' = t div 1000" using r by (simp_all add: due_now_def uint_0_iff)
    with start ok show ?thesis unfolding poll
      by (intro exI [of _ ctx] exI [of _ af] exI [of _ "g_serial w"] exI [of _ "word_of_int t"]) simp
  next
    case first
    then have "n = 1" "p' = t div 1000" using r by (simp_all add: due_now_def uint_0_iff)
    with first show ?thesis unfolding poll
      using send_fixed_text_ok [OF ok(1), of "?w\<lparr>lastSendTimeSeconds := ?s\<rparr>" "word_of_int d" ctx, unfolded swap] ok(2) by simp blast
  next
    case due
    obtain ctx' af' ser where o: "send_fixed_text (word_of_int d) (ctx, af, ?w) =
        Some (ctx', af', w\<lparr>g_serial := ser, clock := word_of_int (t + d)\<rparr>)"
      "afsk_tx_ok af'" "ser_tx_ok ser" "sent af' = sent af @ beacon_frame w"
      using send_fixed_text_ok [OF ok(1), of ?w "word_of_int d" ctx] ok(2) by auto
    have "n = 1" "p' = (t + d) div 1000" using r due by (simp_all add: due_now_def uint_0_iff)
    with due o show ?thesis unfolding poll using seconds_of [OF t2(2) t(3)] by simp blast
  qed
qed

abbreviation poll_times :: "(int \<times> int) list \<Rightarrow> (i32 \<times> i32) list" where
  "poll_times ts \<equiv> map (\<lambda>(t, d). (word_of_int t, word_of_int d)) ts"

lemma schedule_off: "schedule 0 prev ts = 0"
  by (cases ts) auto

lemma polls_follow_schedule:
  assumes "afsk_tx_ok af" and "ser_tx_ok (g_serial w)" and "readings t0 ts" and "0 \<le> t0"
    and "lastSendTimeSeconds w = word_of_int prev" and "0 \<le> prev" and "prev \<le> t0"
  shows "\<exists>ctx' af' w'. beacon_polls (poll_times ts) (ctx, af, w) = Some (ctx', af', w') \<and>
    sent af' = sent af @ concat (replicate (schedule (int (unat (interval (beacon (g_settings w))))) prev ts) (beacon_frame w))"
  using assms
proof (induction ts arbitrary: t0 prev ctx af w)
  case Nil
  then show ?case by simp
next
  case (Cons td ts)
  obtain t d where td: "td = (t, d)" by (cases td)
  let ?iv = "int (unat (interval (beacon (g_settings w))))"
  obtain n p' where d: "due_now ?iv prev t d = (n, p')" by (cases "due_now ?iv prev t d")
  have r: "t0 \<le> t" "0 \<le> d" "readings (t + d) ts" using Cons.prems(3) td by simp_all
  have tb: "0 \<le> t" "t + d < 2147483648" "0 \<le> t + d" "prev < 2147483648" "prev \<le> t + d"
    using r Cons.prems(4,7) readings_bound [OF r(3)] by simp_all
  have p': "0 \<le> p'" "p' \<le> t + d" using d tb r Cons.prems(6) by (auto simp: due_now_def split: if_splits)
  obtain ctx1 af1 ser c where s: "beacon_broadcast_poll (word_of_int d) (ctx, af, w\<lparr>clock := word_of_int t\<rparr>) =
      Some (ctx1, af1, w\<lparr>g_serial := ser, clock := c, lastSendTimeSeconds := word_of_int p'\<rparr>)"
    "afsk_tx_ok af1" "ser_tx_ok ser" "sent af1 = sent af @ concat (replicate n (beacon_frame w))"
    using poll_step [OF Cons.prems(1,2) tb(1) r(2) tb(2) Cons.prems(5,6) tb(4) d, of ctx] by blast
  let ?w1 = "w\<lparr>g_serial := ser, clock := c, lastSendTimeSeconds := word_of_int p'\<rparr>"
  obtain ctx2 af2 w2 where s2: "beacon_polls (poll_times ts) (ctx1, af1, ?w1) = Some (ctx2, af2, w2)"
    "sent af2 = sent af1 @ concat (replicate (schedule ?iv p' ts) (beacon_frame w))"
    using Cons.IH [OF s(2) _ r(3) tb(3) _ p', of ?w1 ctx1] s(3) by auto
  have "schedule ?iv prev (td # ts) = n + schedule ?iv p' ts"
  proof (cases "?iv = 0")
    case True
    with d have "n = 0" by (simp add: due_now_def)
    with True show ?thesis by (simp only: schedule_off)
  next
    case False
    then show ?thesis using schedule_step [of ?iv ts prev t d] by (simp only: td d Let_def prod.case) simp
  qed
  with s s2 show ?case by (simp add: td replicate_add)
qed

text \<open>No two beacons come within the interval.\<close>

lemma schedule_rate:
  assumes "readings t0 ts" and "0 < iv" and "0 < prev" and "0 \<le> t0" and "prev \<le> t0 div 1000"
    and "\<forall>(t, d) \<in> set ts. t \<le> tn"
  shows "prev + int (schedule iv prev ts) * (iv + 1) \<le> max prev (tn div 1000)"
  using assms
proof (induction ts arbitrary: prev t0)
  case (Cons td ts)
  obtain t d where td: "td = (t, d)" by (cases td)
  have r: "t0 \<le> t" "0 \<le> d" "readings (t + d) ts" "t \<le> tn" "\<forall>(t, d) \<in> set ts. t \<le> tn"
    using Cons.prems td by auto
  have m: "t0 div 1000 \<le> t div 1000" "t div 1000 \<le> (t + d) div 1000" "t div 1000 \<le> tn div 1000"
    using r by (simp_all add: zdiv_mono1)
  show ?case
  proof (cases "iv < t div 1000 - prev")
    case True
    let ?p = "(t + d) div 1000"
    have "schedule iv prev (td # ts) = Suc (schedule iv ?p ts)" using True Cons.prems(2,3) by (simp add: td)
    moreover have "?p + int (schedule iv ?p ts) * (iv + 1) \<le> max ?p (tn div 1000)"
      using Cons.IH [OF r(3) Cons.prems(2) _ _ _ r(5)] m Cons.prems(2-5) True r by simp
    ultimately show ?thesis using True m by (cases "schedule iv ?p ts = 0") (auto simp: distrib_right max_def split: if_splits)
  next
    case False
    then have "schedule iv prev (td # ts) = schedule iv prev ts" using Cons.prems(2,3) by (simp add: td)
    with Cons.IH [OF r(3) Cons.prems(2,3) _ _ r(5)] m Cons.prems(4,5) r show ?thesis by simp
  qed
qed simp

lemma schedule_rate_start:
  assumes "readings t0 ts" and "0 \<le> t0" and "\<forall>(t, d) \<in> set ts. t \<le> tn" and "0 \<le> tn" and "0 \<le> iv"
  shows "int (schedule iv 0 ts) \<le> 1 + tn div 1000 div (iv + 1)"
  using assms
proof (induction ts arbitrary: t0)
  case Nil
  then show ?case by (simp add: pos_imp_zdiv_nonneg_iff)
next
  case (Cons td ts)
  obtain t d where td: "td = (t, d)" by (cases td)
  have r: "t0 \<le> t" "0 \<le> d" "readings (t + d) ts" "t \<le> tn" "\<forall>(t, d) \<in> set ts. t \<le> tn"
    using Cons.prems td by auto
  have pos: "0 \<le> tn div 1000 div (iv + 1)" using Cons.prems(4,5) by (simp add: pos_imp_zdiv_nonneg_iff)
  consider "iv = 0" | "iv \<noteq> 0" "t div 1000 = 0" | "iv \<noteq> 0" "t div 1000 \<noteq> 0" by blast
  then show ?case
  proof cases
    case 1
    with pos show ?thesis by (simp only: schedule_off)
  next
    case 2
    then show ?thesis using Cons.IH [OF r(3) _ r(5) Cons.prems(4,5)] r Cons.prems(2) by (simp add: td)
  next
    case 3
    let ?s = "t div 1000" and ?n = "int (schedule iv (t div 1000) ts)"
    have s: "0 < ?s" "?s \<le> (t + d) div 1000" "?s \<le> tn div 1000"
      using 3 r Cons.prems(2) by (simp_all add: zdiv_mono1 order_less_le pos_imp_zdiv_nonneg_iff)
    have "?s + ?n * (iv + 1) \<le> max ?s (tn div 1000)"
      using schedule_rate [OF r(3) _ s(1) _ s(2) r(5), of iv] 3 r Cons.prems(2,5) by simp
    then have "?n * (iv + 1) \<le> tn div 1000" using s by simp
    then have "?n \<le> tn div 1000 div (iv + 1)" 
      using zdiv_mono1 [of "?n * (iv + 1)" "tn div 1000" "iv + 1"] Cons.prems(5) by simp
    then show ?thesis using 3 by (simp add: td)
  qed
qed

text \<open>
  C12. The beacon keeps its schedule. Polled at any readings of the clock of one run, it sends the
  stored text over the stored path at the first poll after the first second, then at each poll more
  than the interval after the end of the last beacon, and never when the interval is 0; so no more
  than one beacon per interval and a second is sent up to any time. Every poll returns.
\<close>

theorem beacon_keeps_schedule:
  assumes "afsk_tx_ok af" and "ser_tx_ok (g_serial w)" and "readings 0 ts"
  shows "\<exists>ctx' af' w' n. beacon_polls (poll_times ts) (ctx, af, beacon_init w) = Some (ctx', af', w') \<and>
    sent af' = sent af @ concat (replicate n (beacon_frame w)) \<and>
    n = schedule (int (unat (interval (beacon (g_settings w))))) 0 ts \<and>
    (\<forall>tn. (\<forall>(t, d) \<in> set ts. t \<le> tn) \<longrightarrow> 0 \<le> tn \<longrightarrow>
      int n \<le> 1 + tn div 1000 div (int (unat (interval (beacon (g_settings w)))) + 1))"
proof -
  let ?iv = "int (unat (interval (beacon (g_settings w))))"
  have fr: "beacon_frame (beacon_init w) = beacon_frame w"
    by (simp add: beacon_init_def beacon_frame_def beacon_text_of_def settings_get_call_data_def)
  have "\<exists>ctx' af' w'. beacon_polls (poll_times ts) (ctx, af, beacon_init w) = Some (ctx', af', w') \<and>
      sent af' = sent af @ concat (replicate (schedule ?iv 0 ts) (beacon_frame w))"
    using polls_follow_schedule [OF assms(1) _ assms(3), of "beacon_init w" 0 ctx] assms(2) fr
    by (simp add: beacon_init_def)
  moreover have "int (schedule ?iv 0 ts) \<le> 1 + tn div 1000 div (?iv + 1)"
    if "\<forall>(t, d) \<in> set ts. t \<le> tn" "0 \<le> tn" for tn
    using schedule_rate_start [OF assms(3) _ that] by simp
  ultimately show ?thesis by blast
qed

definition example_beacon :: Beacon where
  "example_beacon = (Digi.extend example_digi \<lparr>lastSendTimeSeconds = 0\<rparr>)
     \<lparr>g_settings := default_settings\<lparr>beacon := (beacon default_settings)\<lparr>interval := 30\<rparr>\<rparr>\<rparr>"

lemma example_beacon_ok:
  "ser_tx_ok (g_serial example_beacon)" "store_ok example_beacon" "interval (beacon (g_settings example_beacon)) = 30"
  using example_digi_ok(1,2) by (simp_all add: example_beacon_def Digi.defs store_ok_def default_settings_def str_def)

theorem beacon_keeps_schedule_witness:
  "\<exists>ctx' af' w'. beacon_polls (poll_times [(500, 0), (2000, 700), (20000, 0), (40000, 0)])
      (ax25_init, afsk_init 0 0, beacon_init example_beacon) = Some (ctx', af', w') \<and>
    sent af' = beacon_frame example_beacon @ beacon_frame example_beacon"
proof -
  have "readings 0 [(500, 0), (2000, 700), (20000, 0), (40000, 0)]" by simp
  from beacon_keeps_schedule [OF example_csma(1) example_beacon_ok(1) this, of ax25_init] show ?thesis
    by (auto simp: example_beacon_ok example_csma)
qed

end
