(* ===== verification/Console.thy ===== *)
theory Console
  imports Beacon
begin

text \<open>
  The AT command console of \<^verbatim>\<open>TinyAPRS/console.[ch]\<close>. A handler is a function pointer; here it is the name
  of the handler, and the two that \<^verbatim>\<open>main.c\<close> registers are run by a parameter. A command line is passed by
  value: the console writes into the reader's buffer, but nothing reads it before the next line has
  been stored over it. Writing past a local buffer is undefined (\<open>None\<close>).
\<close>

section \<open>Helpers of the C library\<close>

definition c_isspace :: "u8 \<Rightarrow> bool" where
  "c_isspace c \<longleftrightarrow> c = 32 \<or> (9 \<le> c \<and> c \<le> 13)"

text \<open>\<^verbatim>\<open>atoi\<close> with 16-bit integers, which wrap.\<close>

definition c_atoi :: "bytes \<Rightarrow> u16" where
  "c_atoi s =
     (let s = dropWhile c_isspace (c_str s);
          neg = (s \<noteq> [] \<and> hd s = chr CHR ''-'');
          s = (if s \<noteq> [] \<and> (hd s = chr CHR ''-'' \<or> hd s = chr CHR ''+'') then tl s else s);
          n = fold (\<lambda>c n. n * 10 + ucast (c - chr CHR ''0'')) (takeWhile c_isdigit s) 0
      in if neg then - n else n)"

text \<open>\<^verbatim>\<open>strtok\<close> with the delimiter comma: the token and what is left for the next call.\<close>

definition c_strtok :: "bytes \<Rightarrow> (bytes \<times> bytes) option" where
  "c_strtok s =
     (let s = dropWhile (\<lambda>c. c = chr CHR '','') (c_str s)
      in if s = [] then None
         else Some (takeWhile (\<lambda>c. c \<noteq> chr CHR '','') s, drop 1 (dropWhile (\<lambda>c. c \<noteq> chr CHR '','') s)))"

definition c_strupr :: "bytes \<Rightarrow> bytes" where
  "c_strupr s = map c_toupper (c_str s) @ drop (c_strlen s) s"

section \<open>The registry\<close>

datatype CmdHandler =
  h_mycall | h_path | h_reset | h_symbol
| h_beacon_interval | h_beacon_text | h_switch_mode | h_enter_kiss_mode

record COMMAND_ENTRY =
  cmdName :: "bytes option"
  cmdHandler :: "CmdHandler option"

record Console = Beacon +
  cmdEntries :: "COMMAND_ENTRY list"
  cmdCount :: u8

definition CONSOLE_MAX_COMMAND :: nat where "CONSOLE_MAX_COMMAND = 12"

definition console_add_command :: "bytes \<Rightarrow> CmdHandler \<Rightarrow> 'a Console_scheme \<Rightarrow> 'a Console_scheme" where
  "console_add_command cmd handler w =
     (if CONSOLE_MAX_COMMAND \<le> unat (cmdCount w) then w
      else w\<lparr>cmdEntries := (cmdEntries w)[unat (cmdCount w) := \<lparr>cmdName = Some cmd, cmdHandler = Some handler\<rparr>],
             cmdCount := cmdCount w + 1\<rparr>)"

fun lookup_entries :: "bytes \<Rightarrow> COMMAND_ENTRY list \<Rightarrow> CmdHandler option" where
  "lookup_entries command [] = None"
| "lookup_entries command (e # es) =
     (case cmdName e of
        None \<Rightarrow> None
      | Some name \<Rightarrow> if c_strcaseeq command name then cmdHandler e else lookup_entries command es)"

definition console_lookup_command :: "bytes \<Rightarrow> 'a Console_scheme \<Rightarrow> CmdHandler option" where
  "console_lookup_command command w = lookup_entries command (take CONSOLE_MAX_COMMAND (cmdEntries w))"

section \<open>Command handlers\<close>

definition CONFIG_AFSK_FILTER :: u16 where "CONFIG_AFSK_FILTER = 1"
definition CONFIG_AFSK_ADC_USE_EXTERNAL_AREF :: u16 where "CONFIG_AFSK_ADC_USE_EXTERNAL_AREF = 0"

definition BANNER :: bytes where
  "BANNER = [13, 10] @ str ''TinyAPRS Firmware 1.2-SNAPSHOT (f%da%d-%d) BG5HHP'' @ [13, 10]"

definition RESTRICTIONS :: bytes where
  "RESTRICTIONS = str ''Non-Commercial Use Only, All Rights Reserved.'' @ [13, 10]"

definition COPYRIGHTS :: bytes where
  "COPYRIGHTS = str ''Copyright 2015-2017, BG5HHP(shawn.chain@gmail.com)'' @ [13, 10]"

definition call_to_buffer :: "nat \<Rightarrow> AX25Call \<Rightarrow> va_word option" where
  "call_to_buffer sz c = (let s = ax25call_to_string c in if sz < length s then None else Some (P (Some s)))"

definition cmd_info :: "nat \<Rightarrow> 'a Console_scheme tnc \<Rightarrow> (bool \<times> 'a Console_scheme tnc) option" where
  "cmd_info len s =
     (let (ctx, af, w) = s
      in do { w \<leftarrow> g_printf BANNER [W CONFIG_AFSK_FILTER, W CONFIG_AFSK_ADC_USE_EXTERNAL_AREF, W VERS_BUILD] w;
              w \<leftarrow> (if len = 0 then Some w
                    else
                      do { buf \<leftarrow> call_to_buffer 10 (settings_get_mycall w);
                           w \<leftarrow> g_printf (str ''MyCall: %s'' @ [13, 10]) [buf] w;
                           w \<leftarrow> g_printf (str ''Mode: %d'' @ [13, 10]) [W (ucast (run_mode (g_settings w)))] w;
                           w \<leftarrow> g_printf (str ''RX:%d, TX:%d, ERR: %d'' @ [13, 10])
                                 (va_long (rx_ok (stat ctx)) @ va_long (tx_ok (stat ctx)) @ va_long (rx_err (stat ctx))) w;
                           g_printf (str ''Free RAM: %u'' @ [13, 10]) [W (free_ram w)] w });
              w \<leftarrow> g_flush w;
              Some (True, ctx, af, w) })"

fun print_lines :: "bytes list \<Rightarrow> 'a Globals_scheme \<Rightarrow> 'a Globals_scheme option" where
  "print_lines [] w = Some w"
| "print_lines (l # ls) w = do { w \<leftarrow> g_printf l [] w; print_lines ls w }"

definition HELP_LINES :: "bytes list" where
  "HELP_LINES =
     [[13, 10] @ str ''AT commands supported'' @ [13, 10],
      str ''-----------------------------------------------------------'' @ [13, 10],
      str ''AT+CALL=[CALLSIGN-SSID]'' @ [9, 9] @ str '';Set my callsign'' @ [13, 10],
      str ''AT+PATH=[WIDE1-1,WIDE2-2]'' @ [9] @ str '';Set PATH, max 2 allowed'' @ [13, 10],
      str ''AT+SYMBOL=[SYMBOL_TABLE/IDX]'' @ [9] @ str '';Set beacon symbol'' @ [13, 10],
      str ''AT+BEACON=[45]'' @ [9, 9, 9] @ str '';Set beacon interval, 0 to disable '' @ [13, 10],
      str ''AT+TEXT=[!3011.54N/12007.35E>]'' @ [9] @ str '';Set beacon text '' @ [13, 10],
      str ''AT+MODE=[0|1|2]'' @ [9, 9, 9] @ str '';Set device run mode, see manual'' @ [13, 10],
      str ''AT+KISS=[1]'' @ [9, 9, 9] @ str '';Enter kiss mode'' @ [13, 10],
      str ''??'' @ [9, 9, 9, 9] @ str '';Display this help messages'' @ [13, 10],
      [13, 10], RESTRICTIONS, COPYRIGHTS]"

definition cmd_help :: "'a Globals_scheme \<Rightarrow> 'a Globals_scheme option" where
  "cmd_help w = print_lines HELP_LINES w"

definition cmd_settings_mycall :: "bytes \<Rightarrow> nat \<Rightarrow> 'a Globals_scheme \<Rightarrow> 'a Globals_scheme option" where
  "cmd_settings_mycall val valueLen w =
     (let calldata = settings_get_call_data w;
          calldata = (if 0 < valueLen then calldata\<lparr>myCall := ax25call_from_string val\<rparr> else calldata);
          w = (if 0 < valueLen then settings_set_call_data calldata w else w)
      in do { callString \<leftarrow> call_to_buffer 16 (myCall calldata);
              g_printf (str ''My Call: %s'' @ [13, 10]) [callString] w })"

definition path_of_text :: "bytes \<Rightarrow> CallData \<Rightarrow> CallData option" where
  "path_of_text val calldata =
     (case c_strtok val of
        None \<Rightarrow> None
      | Some (p1, rest) \<Rightarrow>
          Some (calldata\<lparr>path1 := ax25call_from_string p1,
            path2 := (case c_strtok rest of None \<Rightarrow> \<lparr>call = replicate 6 0, ssid = 0\<rparr> | Some (p2, _) \<Rightarrow> ax25call_from_string p2)\<rparr>))"

definition cmd_settings_path :: "bytes \<Rightarrow> nat \<Rightarrow> 'a Globals_scheme \<Rightarrow> 'a Globals_scheme option" where
  "cmd_settings_path val valueLen w =
     (let (calldata, w) =
            (case if 0 < valueLen then path_of_text val (settings_get_call_data w) else None of
               None \<Rightarrow> (settings_get_call_data w, w)
             | Some calldata \<Rightarrow> (calldata, settings_set_call_data calldata w))
      in do { p1 \<leftarrow> call_to_buffer 10 (path1 calldata);
              p2 \<leftarrow> call_to_buffer 10 (path2 calldata);
              g_printf (str ''PATH: %s,%s'' @ [13, 10]) [p1, p2] w })"

definition cmd_settings_reset :: "bytes \<Rightarrow> nat \<Rightarrow> 'a Globals_scheme \<Rightarrow> 'a Globals_scheme option" where
  "cmd_settings_reset val len w =
     (if 0 < len \<and> (val ! 0 = chr CHR ''1'' \<or> val ! 0 = chr CHR ''2'') then
        do { w \<leftarrow> (if val ! 0 = chr CHR ''2'' then g_printf (str ''Settings cleared, '') [] (settings_clear w) else Some w);
             w \<leftarrow> g_printf (str ''Restarting...'' @ [13, 10]) [] w;
             Some (soft_reset w) }
      else Some w)"

definition cmd_settings_symbol :: "bytes \<Rightarrow> nat \<Rightarrow> 'a Globals_scheme \<Rightarrow> 'a Globals_scheme option" where
  "cmd_settings_symbol val len w =
     do { w \<leftarrow> (if 2 \<le> len then map_option snd (settings_save (settings_set_params SETTINGS_SYMBOL val w)) else Some w);
          let symbol = fst (settings_get_params SETTINGS_SYMBOL 2 w);
          g_printf (str ''SYMBOL: %c%c'' @ [13, 10]) [W (ucast (symbol ! 0)), W (ucast (symbol ! 1))] w }"

definition cmd_settings_beacon_text :: "bytes \<Rightarrow> nat \<Rightarrow> 'a Globals_scheme \<Rightarrow> 'a Globals_scheme option" where
  "cmd_settings_beacon_text val valueLen w =
     (let w = (if 0 < valueLen then snd (settings_set_beacon_text val (word_of_nat valueLen) w) else w)
      in do { (buf, _) \<leftarrow> settings_get_beacon_text 64 w;
              w \<leftarrow> g_printf (str ''>%s'' @ [10, 13]) [va_str buf] w;
              g_printf (str ''free mem: %d'' @ [10, 13]) [W (free_ram w)] w })"

definition cmd_settings_beacon_interval :: "bytes \<Rightarrow> nat \<Rightarrow> 'a Globals_scheme \<Rightarrow> 'a Globals_scheme option" where
  "cmd_settings_beacon_interval val valueLen w =
     do { w \<leftarrow> (if 0 < valueLen
                then map_option snd (settings_save (settings_set_params SETTINGS_BEACON_INTERVAL (le16 (c_atoi val)) w))
                else Some w);
          let i = fst (settings_get_params SETTINGS_BEACON_INTERVAL 2 w);
          g_printf (str ''Beacon Interval: %d seconds'' @ [13, 10]) [W (of_le16 (i ! 0) (i ! 1))] w }"

definition DEFAULT_REPEATS :: u8 where "DEFAULT_REPEATS = 3"

definition cmd_test_send :: "i32 \<Rightarrow> bytes \<Rightarrow> nat \<Rightarrow> 'a Globals_scheme tnc \<Rightarrow> 'a Globals_scheme tnc option" where
  "cmd_test_send busy command len s =
     (let (ctx, af, w) = s;
          repeats = (if 0 < len then ucast (c_atoi command) else 0 :: u8);
          repeats = (if repeats = 0 \<or> 99 < repeats then DEFAULT_REPEATS else repeats)
      in do { w \<leftarrow> g_printf (str ''Sending %d test packet'' @ [13, 10]) [W (ucast repeats)] w;
              (ctx, af, w) \<leftarrow> beacon_send_test_message_immediate busy (unat repeats) (ctx, af, w);
              w \<leftarrow> g_printf (str ''Done!'' @ [13, 10]) [W (ucast repeats)] w;
              Some (ctx, af, w) })"

text \<open>A call through the registry; the value is the handler's answer. \<open>ext\<close> runs the handlers of \<^verbatim>\<open>main.c\<close>.\<close>

type_synonym 'w ext_handlers = "CmdHandler \<Rightarrow> bytes \<Rightarrow> nat \<Rightarrow> 'w tnc \<Rightarrow> (bool \<times> 'w tnc) option"

definition cmd_run :: "'a Console_scheme ext_handlers \<Rightarrow> 'a Console_scheme ext_handlers" where
  "cmd_run ext h val valueLen s =
     (let run = (\<lambda>f. map_option (Pair True) (on_globals (f val valueLen) s))
      in case h of
           h_mycall \<Rightarrow> run cmd_settings_mycall
         | h_path \<Rightarrow> run cmd_settings_path
         | h_reset \<Rightarrow> run cmd_settings_reset
         | h_symbol \<Rightarrow> run cmd_settings_symbol
         | h_beacon_interval \<Rightarrow> run cmd_settings_beacon_interval
         | h_beacon_text \<Rightarrow> run cmd_settings_beacon_text
         | _ \<Rightarrow> ext h val valueLen s)"

section \<open>Parsing a command line\<close>

text \<open>
  The search for the equals sign with an 8-bit index, which never ends in a line of more than 255
  characters that has none.
\<close>

definition console_find_eq :: "bytes \<Rightarrow> nat \<Rightarrow> nat option option" where
  "console_find_eq command commandLen =
     (case filter (\<lambda>i. command ! i = chr CHR ''='') [3..<min commandLen 256] of
        i # _ \<Rightarrow> Some (Some i)
      | [] \<Rightarrow> if commandLen < 256 then Some None else None)"

text \<open>The line with the key and the value cut out: the buffer as the parser leaves it, the offsets of
  the two in it, and the length of the value. \<open>Some None\<close> if the line is not a command.\<close>

definition console_split :: "bytes \<Rightarrow> nat \<Rightarrow> (bytes \<times> nat \<times> nat \<times> nat) option option" where
  "console_split command commandLen =
     (if 6 \<le> commandLen \<and> (command ! 0 = chr CHR ''A'' \<or> command ! 0 = chr CHR ''a'') \<and>
         (command ! 1 = chr CHR ''T'' \<or> command ! 1 = chr CHR ''t'') \<and> command ! 2 = chr CHR ''+'' then
        map_option (map_option (\<lambda>t. (command[t := 0], 3, Suc t, c_strlen (drop (Suc t) command) mod 256)))
          (console_find_eq command commandLen)
      else if 10 \<le> commandLen \<and> c_strcaseeq command (str ''AMODE KISS'') then
        Some (Some (command[10 := 0, 0 := chr CHR ''1'', 1 := 0], 6, 0, 1))
      else if 7 \<le> commandLen \<and> c_strcaseeq command (str ''KISS ON'') then
        Some (Some (command[4 := 0, 5 := chr CHR ''1'', 6 := 0], 0, 5, 1))
      else Some None)"

definition console_parse_command ::
  "'a Console_scheme ext_handlers \<Rightarrow> i32 \<Rightarrow> bytes \<Rightarrow> u16 \<Rightarrow> 'a Console_scheme tnc \<Rightarrow> 'a Console_scheme tnc option" where
  "console_parse_command ext busy command commandLen s =
     (let len = unat commandLen
      in if 0 < len \<and> command ! 0 = chr CHR ''!'' then cmd_test_send busy (drop 1 command) (len - 1) s
         else if len = 1 \<and> command ! 0 = chr CHR ''?'' then map_option snd (cmd_info 1 s)
         else if len = 2 \<and> command ! 0 = chr CHR ''?'' \<and> command ! 1 = chr CHR ''?'' then
           do { (_, s) \<leftarrow> cmd_info 1 s; on_globals cmd_help s }
         else
           do { kv \<leftarrow> console_split command len;
                case kv of
                  None \<Rightarrow> on_globals (g_printf (str ''INVALID CMD: %.*s'' @ [13, 10]) [W commandLen, P (Some command)]) s
                | Some (command, k, v, valueLen) \<Rightarrow>
                    let command = take k command @ c_strupr (drop k command)
                    in case console_lookup_command (drop k command) (snd (snd s)) of
                         Some fun \<Rightarrow>
                           do { (ok, s) \<leftarrow> cmd_run ext fun (drop v command) valueLen s;
                                if ok then Some s
                                else on_globals (g_printf (str ''INVALID CMD VALUE'' @ [13, 10]) []) s }
                       | None \<Rightarrow>
                           on_globals (g_printf (str ''UNKNOWN CMD: %.*s'' @ [13, 10]) [W commandLen, P (Some command)]) s })"

definition console_init :: "'a Console_scheme tnc \<Rightarrow> 'a Console_scheme tnc option" where
  "console_init s =
     (let (ctx, af, w) = s;
          w = w\<lparr>cmdEntries := replicate CONSOLE_MAX_COMMAND \<lparr>cmdName = None, cmdHandler = None\<rparr>, cmdCount := 0\<rparr>;
          w = console_add_command (str ''CALL'') h_mycall w;
          w = console_add_command (str ''PATH'') h_path w;
          w = console_add_command (str ''RESET'') h_reset w;
          w = console_add_command (str ''SYMBOL'') h_symbol w;
          w = console_add_command (str ''BEACON'') h_beacon_interval w;
          w = console_add_command (str ''TEXT'') h_beacon_text w
      in map_option snd (cmd_info 0 (ctx, af, w)))"

definition console_poll ::
  "'a Console_scheme ext_handlers \<Rightarrow> i32 \<Rightarrow> 'a Console_scheme tnc \<Rightarrow> 'a Console_scheme tnc option" where
  "console_poll ext busy s =
     (let (ctx, af, w) = s; (n, w) = g_readline w
      in if 0 < n
         then console_parse_command ext busy (rd_buf (g_serialreader w)) (dataLen (g_serialreader w)) (ctx, af, w)
         else Some (ctx, af, w))"

section \<open>Dispatch\<close>

lemma tolower_toupper: "c_tolower (c_toupper c) = c_tolower c"
proof -
  have "65 \<le> c - 32 \<and> c - 32 \<le> 90 \<and> \<not> (65 \<le> c \<and> c \<le> 90)" if "97 \<le> c" "c \<le> 122"
  proof -
    have "unat (c - 32) = unat c - 32" using that by (subst unat_sub) (simp_all add: word_le_nat_alt)
    with that show ?thesis unfolding word_le_nat_alt by auto
  qed
  then show ?thesis by (auto simp: c_tolower_def c_toupper_def)
qed

lemma toupper_0 [simp]: "0 = c_toupper c \<longleftrightarrow> c = 0"
  by (auto simp: c_toupper_def)

lemma upper_no_nul: "0 \<notin> set s \<Longrightarrow> 0 \<notin> set (map c_toupper s)"
  by auto

lemma small_u16: "n < 32768 \<Longrightarrow> unat (word_of_nat n :: u16) = n \<and> sint (word_of_nat n :: u16) = int n"
  by (simp add: unat_of_nat signed_of_nat signed_take_bit_int_eq_self)

lemma lookup_upper: "c_str b = map c_toupper (c_str a) \<Longrightarrow> lookup_entries b es = lookup_entries a es"
  by (induction es) (simp_all add: c_strcaseeq_def tolower_toupper comp_def split: option.split)

lemma first_eq:
  assumes "\<And>i. i < k \<Longrightarrow> xs ! (3 + i) \<noteq> e" and "xs ! (3 + k) = e" and "3 + k < n"
  shows "\<exists>is. filter (\<lambda>i. xs ! i = e) [3..<n] = (3 + k) # is"
proof -
  have "[3..<n] = [3..<3 + k] @ (3 + k) # [Suc (3 + k)..<n]"
    using assms(3) upt_add_eq_append [of 3 "3 + k" "n - (3 + k)"] upt_conv_Cons [of "3 + k" n] by simp
  moreover have "xs ! i \<noteq> e" if "i \<in> set [3..<3 + k]" for i
  proof -
    have "i - 3 < k" "3 + (i - 3) = i" using that by auto
    with assms(1) [of "i - 3"] show ?thesis by simp
  qed
  then have "filter (\<lambda>i. xs ! i = e) [3..<3 + k] = []" by (simp only: filter_empty_conv) blast
  ultimately show ?thesis using assms(2) by simp
qed

abbreviation at_line :: "u8 \<Rightarrow> u8 \<Rightarrow> bytes \<Rightarrow> bytes \<Rightarrow> bytes \<Rightarrow> bytes" where
  "at_line a t key val rest \<equiv> a # t # chr CHR ''+'' # key @ chr CHR ''='' # val @ 0 # rest"

lemma split_at_line:
  assumes "a = 65 \<or> a = 97" and "t = 84 \<or> t = 116" and "chr CHR ''='' \<notin> set key" and "0 \<notin> set val"
    and "2 \<le> length key + length val" and "length key + length val \<le> 251"
  shows "console_split (at_line a t key val rest) (length key + length val + 4) =
    Some (Some (a # t # chr CHR ''+'' # key @ 0 # val @ 0 # rest, 3, length key + 4, length val))"
proof -
  let ?l = "at_line a t key val rest"
  have n: "?l ! (3 + i) = (key @ chr CHR ''='' # val @ 0 # rest) ! i" for i by (simp add: numeral_3_eq_3)
  obtain "is" where "filter (\<lambda>i. ?l ! i = chr CHR ''='') [3..<min (length key + length val + 4) 256] = (3 + length key) # is"
    using assms(3,6) first_eq [of "length key" ?l "chr CHR ''=''" "min (length key + length val + 4) 256"]
    by (auto simp: n nth_append in_set_conv_nth)
  then have f: "console_find_eq ?l (length key + length val + 4) = Some (Some (3 + length key))"
    by (simp only: console_find_eq_def list.case)
  have d: "drop (Suc (3 + length key)) ?l = val @ 0 # rest" by (simp add: numeral_3_eq_3)
  have s: "c_strlen (val @ 0 # rest) = length val" using assms(4) by (simp add: c_strlen_def c_str_append_nul)
  have u: "?l[3 + length key := 0] = a # t # chr CHR ''+'' # key @ 0 # val @ 0 # rest"
    by (simp add: numeral_3_eq_3 list_update_append)
  have "console_split ?l (length key + length val + 4) =
      map_option (map_option (\<lambda>t. (?l[t := 0], 3, Suc t, c_strlen (drop (Suc t) ?l) mod 256)))
        (console_find_eq ?l (length key + length val + 4))"
    using assms(1,2,5) unfolding console_split_def by (intro if_P) (auto simp: chr_def)
  then show ?thesis using assms(6) by (simp only: f option.map u d s) simp
qed

lemma upper_key:
  assumes "0 \<notin> set key"
  shows "take 3 (a # t # p # key @ 0 # r) @ c_strupr (drop 3 (a # t # p # key @ 0 # r)) = a # t # p # map c_toupper key @ 0 # r"
  using assms by (simp add: numeral_3_eq_3 c_strupr_def c_strlen_def c_str_append_nul)

lemma lookup_upper_key:
  assumes "0 \<notin> set key"
  shows "console_lookup_command (map c_toupper key @ 0 # r) w = console_lookup_command key w"
proof -
  have "0 \<notin> set (map c_toupper key)" by (rule upper_no_nul [OF assms])
  then show ?thesis unfolding console_lookup_command_def
    using assms by (intro lookup_upper) (simp add: c_str_append_nul c_str_no_nul)
qed

lemma parse_at_line:
  assumes "a = 65 \<or> a = 97" and "t = 84 \<or> t = 116" and "chr CHR ''='' \<notin> set key" and "0 \<notin> set key" and "0 \<notin> set val"
    and "2 \<le> length key + length val" and "length key + length val \<le> 251"
  shows "console_parse_command ext busy (at_line a t key val rest) (word_of_nat (length key + length val + 4)) s =
    (case console_lookup_command key (snd (snd s)) of
       Some h \<Rightarrow>
         do { (ok, s) \<leftarrow> cmd_run ext h (val @ 0 # rest) (length val) s;
              if ok then Some s else on_globals (g_printf (str ''INVALID CMD VALUE'' @ [13, 10]) []) s }
     | None \<Rightarrow>
         on_globals (g_printf (str ''UNKNOWN CMD: %.*s'' @ [13, 10]) [W (word_of_nat (length key + length val + 4)),
           P (Some (a # t # chr CHR ''+'' # map c_toupper key @ 0 # val @ 0 # rest))]) s)"
proof -
  let ?n = "length key + length val + 4" and ?c = "a # t # chr CHR ''+'' # map c_toupper key @ 0 # val @ 0 # rest"
  have n: "unat (word_of_nat ?n :: u16) = ?n" using small_u16 [of ?n] assms(7) by linarith
  have d: "drop (length key + 4) ?c = val @ 0 # rest" "drop 3 ?c = map c_toupper key @ 0 # val @ 0 # rest"
    by (simp_all add: numeral_3_eq_3 numeral_eq_Suc)
  have u: "take 3 (a # t # chr CHR ''+'' # key @ 0 # val @ 0 # rest) @ c_strupr (drop 3 (a # t # chr CHR ''+'' # key @ 0 # val @ 0 # rest)) = ?c"
    by (rule upper_key [OF assms(4)])
  have a: "a \<noteq> chr CHR ''!''" "a \<noteq> chr CHR ''?''" using assms(1) by (auto simp: chr_def)
  then have "console_parse_command ext busy (at_line a t key val rest) (word_of_nat ?n) s =
    do { kv \<leftarrow> console_split (at_line a t key val rest) ?n;
         case kv of
           None \<Rightarrow> on_globals (g_printf (str ''INVALID CMD: %.*s'' @ [13, 10]) [W (word_of_nat ?n), P (Some (at_line a t key val rest))]) s
         | Some (command, k, v, valueLen) \<Rightarrow>
             let command = take k command @ c_strupr (drop k command)
             in case console_lookup_command (drop k command) (snd (snd s)) of
                  Some fun \<Rightarrow>
                    do { (ok, s) \<leftarrow> cmd_run ext fun (drop v command) valueLen s;
                         if ok then Some s
                         else on_globals (g_printf (str ''INVALID CMD VALUE'' @ [13, 10]) []) s }
                | None \<Rightarrow>
                    on_globals (g_printf (str ''UNKNOWN CMD: %.*s'' @ [13, 10]) [W (word_of_nat ?n), P (Some command)]) s }"
    unfolding console_parse_command_def Let_def n by (simp only: nth_Cons_0 simp_thms if_False)
  also have "\<dots> = (case console_lookup_command key (snd (snd s)) of
       Some h \<Rightarrow>
         do { (ok, s) \<leftarrow> cmd_run ext h (val @ 0 # rest) (length val) s;
              if ok then Some s else on_globals (g_printf (str ''INVALID CMD VALUE'' @ [13, 10]) []) s }
     | None \<Rightarrow> on_globals (g_printf (str ''UNKNOWN CMD: %.*s'' @ [13, 10]) [W (word_of_nat ?n), P (Some ?c)]) s)"
    unfolding split_at_line [OF assms(1-3,5-7)]
    by (simp only: Option.bind.simps option.case prod.case Let_def u d lookup_upper_key [OF assms(4)])
  finally show ?thesis .
qed

text \<open>
  C28. The console runs the command a line names: for \<^verbatim>\<open>AT+KEY=VALUE\<close>, in any case, of up to 255
  characters, the handler registered for the key is called with the value and its length, and a
  refused value is reported; for a key that is not registered the line is answered with
  \<^verbatim>\<open>UNKNOWN CMD\<close>, its key in upper case, and nothing else happens.
\<close>

theorem console_dispatches:
  assumes "a = 65 \<or> a = 97" and "t = 84 \<or> t = 116" and "chr CHR ''='' \<notin> set key" and "0 \<notin> set key" and "0 \<notin> set val"
    and "2 \<le> length key + length val" and "length key + length val \<le> 251" and "ser_tx_ok (g_serial w)"
  shows "case console_lookup_command key w of
      Some h \<Rightarrow>
        console_parse_command ext busy (at_line a t key val rest) (word_of_nat (length key + length val + 4)) (ctx, af, w) =
          do { (ok, s) \<leftarrow> cmd_run ext h (val @ 0 # rest) (length val) (ctx, af, w);
               if ok then Some s else on_globals (g_printf (str ''INVALID CMD VALUE'' @ [13, 10]) []) s }
    | None \<Rightarrow>
        \<exists>ser. console_parse_command ext busy (at_line a t key val rest) (word_of_nat (length key + length val + 4)) (ctx, af, w) =
            Some (ctx, af, w\<lparr>g_serial := ser\<rparr>) \<and>
          ser_sent ser = ser_sent (g_serial w) @ str ''UNKNOWN CMD: '' @ [a, t, 43] @ map c_toupper key @ [13, 10]"
proof (cases "console_lookup_command key w")
  case None
  let ?n = "length key + length val + 4" and ?r = "map c_toupper key @ 0 # val @ 0 # rest"
  let ?c = "a # t # chr CHR ''+'' # ?r"
  have "sint (word_of_nat ?n :: u16) = int ?n" using small_u16 [of ?n] assms(7) by linarith
  moreover have "a \<noteq> 0" "t \<noteq> 0" "0 \<notin> set (map c_toupper key)" using assms(1,2) upper_no_nul [OF assms(4)] by auto
  then have "fmt_strn ?n ?c = Some (a # t # 43 # map c_toupper key)"
    using strn_terminated [of "a # t # 43 # map c_toupper key" ?n "val @ 0 # rest"] by (simp add: chr_def)
  ultimately have "formatted_write (str ''UNKNOWN CMD: %.*s'' @ [13, 10]) [W (word_of_nat ?n), P (Some ?c)] =
      Some (str ''UNKNOWN CMD: '' @ [a, t, 43] @ map c_toupper key @ [13, 10])"
    by (simp add: str_def printf_rules del: of_nat_add of_nat_numeral)
  from g_puts_printf [OF assms(8) this] None parse_at_line [OF assms(1-7), of ext busy rest "(ctx, af, w)"] show ?thesis
    by (auto simp: on_globals_def elim!: g_putsE)
next
  case (Some h)
  then show ?thesis using parse_at_line [OF assms(1-7), of ext busy rest "(ctx, af, w)"] by simp
qed

section \<open>The commands at work\<close>

text \<open>The registry after \<open>console_init\<close>.\<close>

definition console_table :: "COMMAND_ENTRY list" where
  "console_table =
     map (\<lambda>(n, h). \<lparr>cmdName = Some n, cmdHandler = Some h\<rparr>)
       [(str ''CALL'', h_mycall), (str ''PATH'', h_path), (str ''RESET'', h_reset),
        (str ''SYMBOL'', h_symbol), (str ''BEACON'', h_beacon_interval), (str ''TEXT'', h_beacon_text)] @
     replicate 6 \<lparr>cmdName = None, cmdHandler = None\<rparr>"

lemma g_puts_banner:
  "ser_tx_ok (g_serial g) \<Longrightarrow>
   \<exists>bs. g_puts g (g_printf BANNER [W CONFIG_AFSK_FILTER, W CONFIG_AFSK_ADC_USE_EXTERNAL_AREF, W VERS_BUILD] g) bs"
  by (rule exI, rule g_puts_printf, assumption) (simp add: BANNER_def str_def printf_rules)

lemma console_init_ok:
  assumes "ser_tx_ok (g_serial w)"
  shows "\<exists>ser. console_init (ctx, af, w) = Some (ctx, af, w\<lparr>cmdEntries := console_table, cmdCount := 6, g_serial := ser\<rparr>) \<and> ser_tx_ok ser"
proof -
  let ?w = "w\<lparr>cmdEntries := console_table, cmdCount := 6\<rparr>"
  let ?e = "\<lparr>cmdName = None, cmdHandler = None\<rparr>"
  let ?start = "w\<lparr>cmdEntries := replicate CONSOLE_MAX_COMMAND ?e, cmdCount := 0\<rparr>"
  have r: "replicate CONSOLE_MAX_COMMAND ?e = ?e # ?e # ?e # ?e # ?e # ?e # replicate 6 ?e"
    by (simp add: numeral_eq_Suc CONSOLE_MAX_COMMAND_def)
  have "console_add_command (str ''TEXT'') h_beacon_text (console_add_command (str ''BEACON'') h_beacon_interval
      (console_add_command (str ''SYMBOL'') h_symbol (console_add_command (str ''RESET'') h_reset
      (console_add_command (str ''PATH'') h_path (console_add_command (str ''CALL'') h_mycall ?start))))) = ?w"
    unfolding r by (simp add: console_add_command_def CONSOLE_MAX_COMMAND_def console_table_def)
  then have i: "console_init (ctx, af, w) = map_option snd (cmd_info 0 (ctx, af, ?w))"
    by (simp only: console_init_def Let_def prod.case)
  obtain ser1 where 1: "g_printf BANNER [W CONFIG_AFSK_FILTER, W CONFIG_AFSK_ADC_USE_EXTERNAL_AREF, W VERS_BUILD] ?w = Some (?w\<lparr>g_serial := ser1\<rparr>)"
    "ser_tx_ok ser1" using g_puts_banner [of ?w] assms by (auto elim!: g_putsE)
  obtain ser2 where 2: "g_flush (?w\<lparr>g_serial := ser1\<rparr>) = Some (?w\<lparr>g_serial := ser2\<rparr>)" "ser_tx_ok ser2"
    using g_puts_flush [of "?w\<lparr>g_serial := ser1\<rparr>"] 1(2) by (auto elim!: g_putsE)
  have "cmd_info 0 (ctx, af, ?w) = Some (True, ctx, af, ?w\<lparr>g_serial := ser2\<rparr>)"
    unfolding cmd_info_def Let_def prod.case 1(1) by (simp add: 2(1) del: Console.update_convs)
  with i 2(2) show ?thesis by auto
qed

definition example_console :: Console where
  "example_console = Beacon.extend example_beacon \<lparr>cmdEntries = console_table, cmdCount = 6\<rparr>"

lemma example_console_ok: "ser_tx_ok (g_serial example_console)" "store_ok example_console"
  "cmdEntries example_console = console_table"
  using example_beacon_ok(1,2) by (simp_all add: example_console_def Beacon.defs store_ok_def)

lemma lookup_table:
  assumes "cmdEntries w = console_table"
  shows "console_lookup_command (str ''CALL'') w = Some h_mycall" "console_lookup_command (str ''HELP'') w = None"
proof -
  have t: "take CONSOLE_MAX_COMMAND console_table = console_table" by (simp add: console_table_def CONSOLE_MAX_COMMAND_def)
  have e: "replicate 6 e = e # replicate 5 e" for e :: COMMAND_ENTRY by (simp add: numeral_eq_Suc)
  show "console_lookup_command (str ''CALL'') w = Some h_mycall" "console_lookup_command (str ''HELP'') w = None"
    unfolding console_lookup_command_def assms t unfolding console_table_def e
    by (simp_all add: c_strcaseeq_def c_str_def str_def c_tolower_def)
qed

theorem console_dispatches_witness:
  "\<exists>ser. console_parse_command (\<lambda>h v n s. None) 0 (at_line 65 84 (str ''help'') (str ''1'') []) 9 (ax25_init, afsk_init 0 0, example_console) =
      Some (ax25_init, afsk_init 0 0, example_console\<lparr>g_serial := ser\<rparr>) \<and>
    ser_sent ser = ser_sent (g_serial example_console) @ str ''UNKNOWN CMD: AT+HELP'' @ [13, 10]"
proof -
  have k: "chr CHR ''='' \<notin> set (str ''help'')" "0 \<notin> set (str ''help'')" "0 \<notin> set (str ''1'')"
    "2 \<le> length (str ''help'') + length (str ''1'')" "length (str ''help'') + length (str ''1'') \<le> 251"
    by (simp_all add: str_def chr_def)
  have "console_lookup_command (str ''help'') example_console = None"
    using lookup_table(2) [OF example_console_ok(3)] lookup_upper [of "str ''HELP''" "str ''help''"]
    by (simp add: console_lookup_command_def str_def c_str_def c_toupper_def)
  with console_dispatches [OF _ _ k example_console_ok(1), of 65 84 "\<lambda>h v n s. None" 0 Nil ax25_init "afsk_init 0 0"] show ?thesis
    by (simp add: str_def c_toupper_def)
qed

lemma store_of_serial [simp]:
  "settings_get_mycall (w\<lparr>g_serial := ser\<rparr>) = settings_get_mycall w"
  "settings_get_call_data (w\<lparr>g_serial := ser\<rparr>) = settings_get_call_data w"
  "store_ok (w\<lparr>g_serial := ser\<rparr>) = store_ok w"
  by (simp_all add: settings_get_mycall_def settings_get_call_data_def store_ok_def)

lemma call_text_ok:
  assumes "valid_call c" and "chr CHR ''-'' \<notin> set (call c)"
  shows "ax25call_to_string c = c_str (ax25call_to_string c) @ [0]" "length (c_str (ax25call_to_string c)) \<le> 9"
    "ax25call_from_string (c_str (ax25call_to_string c) @ 0 # r) = c"
    "c_str (ax25call_to_string c) = c_str (call c) @ ssid_text (ssid c)"
proof -
  have s: "ssid c < 16" "length (call c) = 6" using assms(1) by (auto simp: valid_call_def)
  let ?t = "c_str (call c) @ ssid_text (ssid c)"
  have str: "ax25call_to_string c = ?t @ [0]"
    using ssid_low [OF s(1)] s(2) by (simp add: ax25call_to_string_def ssid_text_def Let_def)
  have nn: "0 \<notin> set ?t" using ssid_text_no_nul [OF s(1)] by simp
  then have cs: "c_str (?t @ 0 # x) = ?t" for x by (rule c_str_append_nul)
  show "ax25call_to_string c = c_str (ax25call_to_string c) @ [0]"
    "c_str (ax25call_to_string c) = c_str (call c) @ ssid_text (ssid c)" using cs [of Nil] by (simp_all add: str)
  have l: "length ?t \<le> 9" using ssid_text_no_nul [OF s(1)] length_c_str_le [of "call c"] s(2) by simp
  with cs [of Nil] show "length (c_str (ax25call_to_string c)) \<le> 9" by (simp add: str)
  have "ax25call_from_string (?t @ 0 # r) = ax25call_from_string (?t @ 0 # [])"
    unfolding ax25call_from_string_def c_strlen_def cs using l by simp
  with call_string_roundtrip [OF assms] cs [of Nil] show "ax25call_from_string (c_str (ax25call_to_string c) @ 0 # r) = c"
    by (simp add: str)
qed

text \<open>
  The station's call sign can be set from the console: \<^verbatim>\<open>AT+CALL=\<close> with the text of a call sign
  stores it where \<^verbatim>\<open>settings_get_mycall\<close>, and so beacon and digipeater, read it, keeps the stored
  destination and path, and echoes the text.
\<close>

theorem console_sets_call:
  fixes c :: AX25Call
  assumes "valid_call c" and "chr CHR ''-'' \<notin> set (call c)" and "c_str (call c) \<noteq> []" and "store_ok w"
    and "ser_tx_ok (g_serial w)" and "console_lookup_command (str ''CALL'') w = Some h_mycall"
  shows "let txtc = c_str (ax25call_to_string c)
    in \<exists>w'. console_parse_command ext busy (at_line 65 84 (str ''CALL'') txtc rest) (word_of_nat (length txtc + 8)) (ctx, af, w) =
        Some (ctx, af, w') \<and> settings_get_mycall w' = c \<and>
      settings_get_call_data w' = (settings_get_call_data w)\<lparr>myCall := c\<rparr> \<and> store_ok w' \<and>
      ser_sent (g_serial w') = ser_sent (g_serial w) @ str ''My Call: '' @ txtc @ [13, 10]"
proof -
  let ?t = "c_str (ax25call_to_string c)" and ?d = "(settings_get_call_data w)\<lparr>myCall := c\<rparr>"
  note t = call_text_ok [OF assms(1,2)]
  have ne: "?t \<noteq> []"  using assms(3) t(4) by simp
  let ?w = "settings_set_call_data ?d w"
  have d: "calldata_ok ?d" using get_call_data_ok [OF assms(4)] assms(1) by (simp add: calldata_ok_def valid_call_def)
  have s: "ser_tx_ok (g_serial ?w)" using assms(5) by (simp add: settings_set_call_data_def)
  have "fmt_strn 10000 (?t @ [0]) = Some ?t" using t(2) by (intro strn_terminated) simp_all
  then have "formatted_write (str ''My Call: %s'' @ [13, 10]) [P (Some (?t @ [0]))] =
      Some (str ''My Call: '' @ ?t @ [13, 10])" by (simp add: str_def printf_rules)
  from g_puts_printf [OF s this [folded t(1)]] obtain ser where p: "g_printf (str ''My Call: %s'' @ [13, 10]) [P (Some (ax25call_to_string c))] ?w =
      Some (?w\<lparr>g_serial := ser\<rparr>)" "ser_sent ser = ser_sent (g_serial ?w) @ str ''My Call: '' @ ?t @ [13, 10]"
    by (auto elim!: g_putsE)
  have "call_to_buffer 16 c = Some (P (Some (ax25call_to_string c)))"
    using t(2) arg_cong [OF t(1), of length] by (simp add: call_to_buffer_def Let_def)
  then have h: "cmd_settings_mycall (?t @ 0 # rest) (length ?t) w = Some (?w\<lparr>g_serial := ser\<rparr>)"
    using p(1) ne t(3) by (simp add: cmd_settings_mycall_def Let_def)
  have w: "word_of_nat (length ?t + 8) = (word_of_nat (length (str ''CALL'') + length ?t + 4) :: u16)"
    by (simp add: str_def add.commute)
  have "console_parse_command ext busy (at_line 65 84 (str ''CALL'') ?t rest) (word_of_nat (length ?t + 8)) (ctx, af, w) =
      Some (ctx, af, ?w\<lparr>g_serial := ser\<rparr>)"
    unfolding w using t(2) assms(6) h
    by (subst parse_at_line) (simp_all add: str_def chr_def cmd_run_def on_globals_def)
  moreover have "settings_get_mycall (?w\<lparr>g_serial := ser\<rparr>) = c" "settings_get_call_data (?w\<lparr>g_serial := ser\<rparr>) = ?d"
    using call_data_persists [OF assms(4) d] by simp_all
  moreover have "store_ok (?w\<lparr>g_serial := ser\<rparr>)" using store_ok_set_call_data [OF assms(4) d] by simp
  ultimately show ?thesis using p(2) by (simp add: Let_def settings_set_call_data_def)
qed

theorem console_sets_call_witness:
  "\<exists>w'. console_parse_command (\<lambda>h v n s. None) 0 (at_line 65 84 (str ''CALL'') (c_str (ax25call_to_string example_call)) [])
      (word_of_nat (length (c_str (ax25call_to_string example_call)) + 8)) (ax25_init, afsk_init 0 0, example_console) =
      Some (ax25_init, afsk_init 0 0, w') \<and> settings_get_mycall w' = example_call"
proof -
  have "chr CHR ''-'' \<notin> set (call example_call)" "c_str (call example_call) \<noteq> []"
    by (simp_all add: example_call_def chr_def c_str_def)
  from console_sets_call [OF valid_example_call this example_console_ok(2,1) lookup_table(1) [OF example_console_ok(3)],
      of "\<lambda>h v n s. None" 0 Nil ax25_init "afsk_init 0 0"] show ?thesis by (auto simp: Let_def)
qed

end
