(* ===== verification/Gps.thy ===== *)
theory Gps
  imports Console Complex_Main
begin

text \<open>
  The NMEA decoder of \<^verbatim>\<open>TinyAPRS/gps.[ch]\<close>. A term is a pointer into the line buffer, here an offset, and
  the decoder cuts the buffer into terms by writing terminators; following an unset pointer is
  undefined (\<open>None\<close>). Floating point is a parameter: a record of the operations the program uses, on
  any type of floats. The signal LED is left out.
\<close>

section \<open>Data\<close>

record 'f floats =
  f_lit :: "rat \<Rightarrow> 'f"
  f_of_int :: "int \<Rightarrow> 'f"
  f_add :: "'f \<Rightarrow> 'f \<Rightarrow> 'f"
  f_sub :: "'f \<Rightarrow> 'f \<Rightarrow> 'f"
  f_mul :: "'f \<Rightarrow> 'f \<Rightarrow> 'f"
  f_div :: "'f \<Rightarrow> 'f \<Rightarrow> 'f"
  f_less :: "'f \<Rightarrow> 'f \<Rightarrow> bool"
  f_eq :: "'f \<Rightarrow> 'f \<Rightarrow> bool"
  f_floor :: "'f \<Rightarrow> 'f"
  f_fabs :: "'f \<Rightarrow> 'f"
  f_sin :: "'f \<Rightarrow> 'f"
  f_cos :: "'f \<Rightarrow> 'f"
  f_sqrt :: "'f \<Rightarrow> 'f"
  f_atan2 :: "'f \<Rightarrow> 'f \<Rightarrow> 'f"
  f_lround :: "'f \<Rightarrow> i32"

definition MAX_TERMS :: nat where "MAX_TERMS = 16"
definition MAX_SENTENCEN_CHARS :: nat where "MAX_SENTENCEN_CHARS = 80"
definition MIN_SENTENCEN_CHARS :: nat where "MIN_SENTENCEN_CHARS = 7"

definition GPRMC_TERM_UTC_TIME :: nat where "GPRMC_TERM_UTC_TIME = 0"
definition GPRMC_TERM_STATUS :: nat where "GPRMC_TERM_STATUS = 1"
definition GPRMC_TERM_LATITUDE :: nat where "GPRMC_TERM_LATITUDE = 2"
definition GPRMC_TERM_LATITUDE_NS :: nat where "GPRMC_TERM_LATITUDE_NS = 3"
definition GPRMC_TERM_LONGITUDE :: nat where "GPRMC_TERM_LONGITUDE = 4"
definition GPRMC_TERM_LONGITUDE_WE :: nat where "GPRMC_TERM_LONGITUDE_WE = 5"
definition GPRMC_TERM_SPEED :: nat where "GPRMC_TERM_SPEED = 6"
definition GPRMC_TERM_HEADING :: nat where "GPRMC_TERM_HEADING = 7"
definition GPGGA_TERM_FIXQUALITY :: nat where "GPGGA_TERM_FIXQUALITY = 5"
definition GPGGA_TERM_ALTITUDE :: nat where "GPGGA_TERM_ALTITUDE = 8"

record GPS =
  gps_valid :: bool
  gps_term :: "nat option list"
  gps_altitude :: u16

record 'f Location =
  latitude :: 'f
  longitude :: 'f
  speedInKMH :: 'f
  heading :: u16
  altitude :: u16
  timestamp :: u32

text \<open>The text behind a term pointer.\<close>

definition term_text :: "GPS \<Rightarrow> bytes \<Rightarrow> nat \<Rightarrow> bytes option" where
  "term_text gps buf i =
     (case gps_term gps ! i of None \<Rightarrow> None | Some off \<Rightarrow> if off < length buf then Some (drop off buf) else None)"

section \<open>Set-up\<close>

definition gps_zero :: GPS where
  "gps_zero = \<lparr>gps_valid = False, gps_term = replicate MAX_TERMS None, gps_altitude = 0\<rparr>"

definition g_setbaudrate :: "nat \<Rightarrow> 'a Globals_scheme \<Rightarrow> 'a Globals_scheme" where
  "g_setbaudrate rate g = g\<lparr>g_serial := ser_setbaudrate rate (g_serial g)\<rparr>"

definition g_print_P :: "bytes \<Rightarrow> 'a Globals_scheme \<Rightarrow> 'a Globals_scheme option" where
  "g_print_P s g = do { (_, ser) \<leftarrow> kfile_print_P ser_fd s (g_serial g); Some (g\<lparr>g_serial := ser\<rparr>) }"

definition gps_init :: "'a Globals_scheme \<Rightarrow> (GPS \<times> 'a Globals_scheme) option" where
  "gps_init g =
     do { g \<leftarrow> g_delay 150 (g_setbaudrate 4800 g);
          let g = g_purge g;
          g \<leftarrow> g_print_P ([13, 10] @ str ''$PSRF100,1,9600,8,1,0*0D'' @ [13, 10]) g;
          g \<leftarrow> g_delay 150 g;
          let g = g_setbaudrate 9600 (g_purge g);
          g \<leftarrow> g_delay 150 g;
          let g = g_purge g;
          g \<leftarrow> g_print_P ([13, 10] @ str ''$PSRF103,1,0,0,1*25'' @ [13, 10] @ str ''$PSRF103,2,0,0,1*26'' @ [13, 10] @
                 str ''$PSRF103,3,0,0,1*27'' @ [13, 10] @ str ''$PSRF103,5,0,0,1*21'' @ [13, 10]) g;
          g \<leftarrow> g_delay 150 g;
          Some (gps_zero, g_purge g) }"

section \<open>Numbers\<close>

definition nmea_dehex :: "u8 \<Rightarrow> u16" where
  "nmea_dehex a = (if 65 \<le> sint a then scast a - 55 else scast a - 48)"

definition nmea_decimal_int :: "bytes \<Rightarrow> u16" where
  "nmea_decimal_int s =
     (let s = c_str s;
          s = (if s \<noteq> [] \<and> (hd s = chr CHR ''-'' \<or> hd s = chr CHR ''+'') then tl s else s)
      in fold (\<lambda>c rl. 10 * rl + (scast c - 48)) (takeWhile (\<lambda>c. c \<noteq> chr CHR ''.'') s) 0)"

text \<open>The loop of \<^verbatim>\<open>nmea_decimal_float\<close>: the integer part (32 bits), the fraction and its next weight.\<close>

fun decimal_loop :: "'f floats \<Rightarrow> bytes \<Rightarrow> bool \<Rightarrow> i32 \<Rightarrow> 'f \<Rightarrow> 'f \<Rightarrow> i32 \<times> 'f" where
  "decimal_loop F [] dec rl rr rb = (rl, rr)"
| "decimal_loop F (c # cs) dec rl rr rb =
     (if c = chr CHR ''.'' then decimal_loop F cs True rl rr rb
      else if \<not> dec then decimal_loop F cs dec (10 * rl + (scast c - 48)) rr rb
      else decimal_loop F cs dec rl (f_add F rr (f_mul F rb (f_of_int F (sint c - 48)))) (f_div F rb (f_lit F 10)))"

definition nmea_decimal_float :: "'f floats \<Rightarrow> bytes \<Rightarrow> 'f" where
  "nmea_decimal_float F s =
     (let s = c_str s;
          t = (if s \<noteq> [] \<and> (hd s = chr CHR ''-'' \<or> hd s = chr CHR ''+'') then tl s else s);
          (rl, rr) = decimal_loop F t False 0 (f_lit F 0) (f_lit F (1 / 10));
          rr = f_add F rr (f_of_int F (sint rl))
      in if s \<noteq> [] \<and> hd s = chr CHR ''-'' then f_sub F (f_lit F 0) rr else rr)"

section \<open>Parsing a sentence\<close>

definition GPRMC_PARITY_INITIAL :: u16 where "GPRMC_PARITY_INITIAL = 0x4b"
definition GPGGA_PARITY_INITIAL :: u16 where "GPGGA_PARITY_INITIAL = 0x56"
definition METER_TO_FEET :: rat where "METER_TO_FEET = 32808399 / 10000000"

datatype sentence_type = GPRMC | GPGGA

record nmea_scan =
  sn_gps :: GPS
  sn_buf :: bytes
  sn_state :: nat
  sn_parity :: u16
  sn_terms :: nat

text \<open>The end of the checksum with a parity of zero: \<open>Inl\<close> returns from the parser, \<open>Inr\<close> goes on.\<close>

definition gps_accept :: "'f floats \<Rightarrow> sentence_type \<Rightarrow> nmea_scan \<Rightarrow> ((bool \<times> nmea_scan) + nmea_scan) option" where
  "gps_accept F ty sn =
     do { first \<leftarrow> term_text (sn_gps sn) (sn_buf sn) (if ty = GPRMC then GPRMC_TERM_STATUS else GPGGA_TERM_FIXQUALITY);
          let ok = (if ty = GPRMC then hd first = chr CHR ''A'' else hd first \<noteq> chr CHR ''0'');
          let sn = sn\<lparr>sn_gps := (sn_gps sn)\<lparr>gps_valid := ok\<rparr>\<rparr>;
          if ok then
            if ty = GPGGA then
              do { t \<leftarrow> term_text (sn_gps sn) (sn_buf sn) GPGGA_TERM_ALTITUDE;
                   let alt = nmea_decimal_float F t;
                   let a = ucast (f_lround F (f_mul F alt (f_lit F METER_TO_FEET)));
                   Some (Inl (False, sn\<lparr>sn_gps := (sn_gps sn)\<lparr>gps_altitude := a\<rparr>\<rparr>)) }
            else Some (Inl (True, sn))
          else Some (Inr sn) }"

fun gps_parse_loop :: "'f floats \<Rightarrow> sentence_type \<Rightarrow> nat list \<Rightarrow> nmea_scan \<Rightarrow> (bool \<times> nmea_scan) option" where
  "gps_parse_loop F ty [] sn = Some (False, sn)"
| "gps_parse_loop F ty (n # ns) sn =
     (let c = sn_buf sn ! n
      in if c = 10 \<or> c = 13 \<or> sn_terms sn = MAX_TERMS then Some (False, sn)
         else if sn_state sn = 0 then
           gps_parse_loop F ty ns
             (if c = chr CHR '','' then
                sn\<lparr>sn_buf := (sn_buf sn)[n := 0],
                   sn_gps := (sn_gps sn)\<lparr>gps_term := (gps_term (sn_gps sn))[sn_terms sn := Some (Suc n)]\<rparr>,
                   sn_terms := Suc (sn_terms sn), sn_parity := sn_parity sn XOR scast c\<rparr>
              else if c = chr CHR ''*'' then sn\<lparr>sn_buf := (sn_buf sn)[n := 0], sn_state := 1\<rparr>
              else sn\<lparr>sn_parity := sn_parity sn XOR scast c\<rparr>)
         else if sn_state sn = 1 then
           gps_parse_loop F ty ns
             (sn\<lparr>sn_gps := (sn_gps sn)\<lparr>gps_term := (gps_term (sn_gps sn))[sn_terms sn := Some n]\<rparr>,
                 sn_terms := Suc (sn_terms sn), sn_parity := sn_parity sn - 16 * nmea_dehex c, sn_state := 2\<rparr>)
         else
           let sn = sn\<lparr>sn_state := 0, sn_parity := sn_parity sn - nmea_dehex c\<rparr>
           in if sn_parity sn = 0 then
                do { r \<leftarrow> gps_accept F ty sn;
                     case r of Inl res \<Rightarrow> Some res | Inr sn \<Rightarrow> gps_parse_loop F ty ns sn }
              else gps_parse_loop F ty ns sn)"

text \<open>The parser: whether a position was read, the decoder's new state and the cut up buffer.\<close>

definition gps_parse :: "'f floats \<Rightarrow> GPS \<Rightarrow> bytes \<Rightarrow> u16 \<Rightarrow> (bool \<times> GPS \<times> bytes) option" where
  "gps_parse F gps sentence len =
     (let run = (\<lambda>ty parity.
            do { (r, sn) \<leftarrow> gps_parse_loop F ty [6..<unat len]
                   \<lparr>sn_gps = gps, sn_buf = sentence, sn_state = 0, sn_parity = parity, sn_terms = 0\<rparr>;
                 Some (r, sn_gps sn, sn_buf sn) })
      in if unat len \<le> MIN_SENTENCEN_CHARS \<or> MAX_SENTENCEN_CHARS < unat len then Some (False, gps, sentence)
         else if take 6 (c_str sentence) = str ''$GPRMC'' then run GPRMC GPRMC_PARITY_INITIAL
         else if take 6 (c_str sentence) = str ''$GPGGA'' then run GPGGA GPGGA_PARITY_INITIAL
         else Some (False, gps, sentence))"

section \<open>The position\<close>

definition KMPH :: rat where "KMPH = 1852 / 1000"

text \<open>Degrees and minutes to signed degrees; \<open>back\<close> is the letter of the negative hemisphere.\<close>

definition nmea_degrees :: "'f floats \<Rightarrow> bytes \<Rightarrow> bool \<Rightarrow> 'f" where
  "nmea_degrees F t neg =
     (let d = f_div F (nmea_decimal_float F t) (f_lit F 100);
          degs = f_floor F d;
          d = f_div F (f_mul F (f_lit F 100) (f_sub F d degs)) (f_lit F 60);
          d = f_add F d degs
      in if neg then f_sub F (f_lit F 0) d else d)"

definition TO_NUM :: "u8 \<Rightarrow> u16" where
  "TO_NUM x = scast x - 48"

text \<open>The time of day in seconds: each part is computed in 16 bits, then widened with its sign.\<close>

definition utc_seconds :: "bytes \<Rightarrow> u32" where
  "utc_seconds utc =
     scast ((TO_NUM (utc ! 0) * 10 + TO_NUM (utc ! 1)) * 3600) +
     scast ((TO_NUM (utc ! 2) * 10 + TO_NUM (utc ! 3)) * 60) +
     scast (TO_NUM (utc ! 4) * 10 + TO_NUM (utc ! 5))"

definition gps_get_location :: "'f floats \<Rightarrow> GPS \<Rightarrow> bytes \<Rightarrow> 'f Location option" where
  "gps_get_location F gps buf =
     do { lat \<leftarrow> term_text gps buf GPRMC_TERM_LATITUDE;
          ns \<leftarrow> term_text gps buf GPRMC_TERM_LATITUDE_NS;
          lon \<leftarrow> term_text gps buf GPRMC_TERM_LONGITUDE;
          we \<leftarrow> term_text gps buf GPRMC_TERM_LONGITUDE_WE;
          speed \<leftarrow> term_text gps buf GPRMC_TERM_SPEED;
          head \<leftarrow> term_text gps buf GPRMC_TERM_HEADING;
          Some \<lparr>latitude = nmea_degrees F lat (hd ns = chr CHR ''S''),
                longitude = nmea_degrees F lon (hd we = chr CHR ''W''),
                speedInKMH = f_mul F (nmea_decimal_float F speed) (f_lit F KMPH),
                heading = nmea_decimal_int head,
                altitude = gps_altitude gps,
                timestamp = (case term_text gps buf GPRMC_TERM_UTC_TIME of
                    Some utc \<Rightarrow> if 6 \<le> c_strlen utc then utc_seconds utc else 0 | None \<Rightarrow> 0)\<rparr> }"

definition DEG_TO_RAD :: rat where "DEG_TO_RAD = 17453292519943295769236907684886 / 1000000000000000000000000000000000"

definition gps_distance_between :: "'f floats \<Rightarrow> 'f Location \<Rightarrow> 'f Location \<Rightarrow> 'f \<Rightarrow> 'f" where
  "gps_distance_between F loc1 loc2 units_per_meter =
     (let radians = (\<lambda>x. f_mul F x (f_lit F DEG_TO_RAD)); sq = (\<lambda>x. f_mul F x x);
          delta = radians (f_sub F (longitude loc1) (longitude loc2));
          sdlong = f_sin F delta; cdlong = f_cos F delta;
          lat1 = radians (latitude loc1); lat2 = radians (latitude loc2);
          slat1 = f_sin F lat1; clat1 = f_cos F lat1; slat2 = f_sin F lat2; clat2 = f_cos F lat2;
          delta = f_sub F (f_mul F clat1 slat2) (f_mul F (f_mul F slat1 clat2) cdlong);
          delta = sq delta;
          delta = f_add F delta (sq (f_mul F clat2 sdlong));
          delta = f_sqrt F delta;
          denom = f_add F (f_mul F slat1 slat2) (f_mul F (f_mul F clat1 clat2) cdlong);
          delta = f_atan2 F delta denom
      in f_mul F (f_mul F (f_fabs F delta) (f_of_int F 6372795)) units_per_meter)"

section \<open>Checked sentences\<close>

text \<open>The characters of a field, and the checksum of NMEA: the exclusive or of all bytes.\<close>

definition field_char :: "u8 \<Rightarrow> bool" where
  "field_char c \<longleftrightarrow> c < 128 \<and> c \<noteq> 0 \<and> c \<noteq> 10 \<and> c \<noteq> 13 \<and> c \<noteq> chr CHR '','' \<and> c \<noteq> chr CHR ''*''"

definition xor_all :: "bytes \<Rightarrow> u16 \<Rightarrow> u16" where
  "xor_all bs p = fold (\<lambda>c p. p XOR ucast c) bs p"

lemma xor_all_simps [simp]:
  "xor_all [] p = p" "xor_all (c # bs) p = xor_all bs (p XOR ucast c)" "xor_all (bs @ cs) p = xor_all cs (xor_all bs p)"
  by (simp_all add: xor_all_def)

lemma scast_ascii: "c < (128 :: u8) \<Longrightarrow> scast c = (ucast c :: u16)"
proof -
  assume "c < 128"
  then have "uint c < 128" by (simp add: word_less_def)
  then have "signed_take_bit 7 (uint c) = uint c"
    by (intro signed_take_bit_int_eq_self) (auto intro: order_trans [of _ 0])
  then have "sint c = uint c" by (simp add: sint_uint)
  then have "(of_int (sint c) :: u16) = of_int (uint c)" by (rule arg_cong)
  then show ?thesis by simp
qed

abbreviation commas :: "bytes list \<Rightarrow> bytes" where
  "commas fs \<equiv> concat (map ((#) (chr CHR '','')) fs)"

abbreviation cuts :: "bytes list \<Rightarrow> bytes" where
  "cuts fs \<equiv> concat (map ((#) 0) fs)"

fun set_terms :: "nat \<Rightarrow> nat \<Rightarrow> bytes list \<Rightarrow> nat option list \<Rightarrow> nat option list" where
  "set_terms t n [] ts = ts"
| "set_terms t n (f # fs) ts = set_terms (Suc t) (Suc n + length f) fs (ts[t := Some (Suc n)])"

lemma scan_chars:
  assumes "list_all field_char cs" and "sn_state sn = 0" and "sn_terms sn \<noteq> MAX_TERMS"
    and "sn_buf sn = pre @ cs @ post"
  shows "gps_parse_loop F ty ([length pre..<length pre + length cs] @ ns) sn =
    gps_parse_loop F ty ns (sn\<lparr>sn_parity := xor_all cs (sn_parity sn)\<rparr>)"
  using assms
proof (induction cs arbitrary: pre sn)
  case (Cons c cs)
  have "[length pre..<length pre + length (c # cs)] = length pre # [length (pre @ [c])..<length (pre @ [c]) + length cs]"
    by (subst upt_conv_Cons) simp_all
  then show ?case using Cons.prems Cons.IH [of "sn\<lparr>sn_parity := sn_parity sn XOR ucast c\<rparr>" "pre @ [c]"]
    by (simp add: field_char_def scast_ascii Let_def nth_append)
qed simp

lemma scan_fields:
  assumes "list_all (list_all field_char) fs" and "sn_state sn = 0" and "sn_terms sn + length fs < MAX_TERMS"
    and "sn_buf sn = pre @ commas fs @ post"
  shows "gps_parse_loop F ty ([length pre..<length pre + length (commas fs)] @ ns) sn =
    gps_parse_loop F ty ns (sn\<lparr>sn_buf := pre @ cuts fs @ post, sn_terms := sn_terms sn + length fs,
      sn_gps := (sn_gps sn)\<lparr>gps_term := set_terms (sn_terms sn) (length pre) fs (gps_term (sn_gps sn))\<rparr>,
      sn_parity := xor_all (commas fs) (sn_parity sn)\<rparr>)"
  using assms
proof (induction fs arbitrary: pre sn)
  case Nil
  then have "sn\<lparr>sn_buf := pre @ post\<rparr> = sn" by (simp add: Nil.prems(4) [simplified, symmetric])
  then show ?case by simp
next
  case (Cons f fs)
  let ?p = "length pre" and ?comma = "chr CHR '',''"
  have up: "[?p..<?p + length (commas (f # fs))] @ ns =
      ?p # ([Suc ?p..<Suc ?p + length f] @ [Suc ?p + length f..<Suc ?p + length f + length (commas fs)] @ ns)"
  proof -
    have "[Suc ?p..<Suc ?p + length f + length (commas fs)] =
        [Suc ?p..<Suc ?p + length f] @ [Suc ?p + length f..<Suc ?p + length f + length (commas fs)]"
      by (rule upt_add_eq_append) simp
    moreover have "[?p..<?p + length (commas (f # fs))] = ?p # [Suc ?p..<Suc ?p + length f + length (commas fs)]"
      by (subst upt_conv_Cons) (simp_all add: add.assoc)
    ultimately show ?thesis by (simp only: append_Cons append_assoc)
  qed
  let ?sn = "sn\<lparr>sn_buf := pre @ 0 # f @ commas fs @ post,
      sn_gps := (sn_gps sn)\<lparr>gps_term := (gps_term (sn_gps sn))[sn_terms sn := Some (Suc ?p)]\<rparr>,
      sn_terms := Suc (sn_terms sn), sn_parity := sn_parity sn XOR ucast ?comma\<rparr>"
  have c: "scast ?comma = (ucast ?comma :: u16)" by (rule scast_ascii) (simp add: chr_def)
  have n: "?comma \<noteq> 10" "?comma \<noteq> 13" by (simp_all add: chr_def)
  have "gps_parse_loop F ty ([?p..<?p + length (commas (f # fs))] @ ns) sn =
      gps_parse_loop F ty ([Suc ?p..<Suc ?p + length f] @ [Suc ?p + length f..<Suc ?p + length f + length (commas fs)] @ ns) ?sn"
    unfolding up using Cons.prems n by (simp add: Let_def c list_update_append nth_append)
  also have "\<dots> = gps_parse_loop F ty ([Suc ?p + length f..<Suc ?p + length f + length (commas fs)] @ ns)
      (?sn\<lparr>sn_parity := xor_all f (sn_parity ?sn)\<rparr>)"
    using scan_chars [of f ?sn "pre @ [0]" "commas fs @ post" F ty] Cons.prems by simp
  also have "\<dots> = gps_parse_loop F ty ns (?sn\<lparr>sn_parity := xor_all f (sn_parity ?sn),
      sn_buf := pre @ 0 # f @ cuts fs @ post, sn_terms := Suc (sn_terms sn) + length fs,
      sn_gps := (sn_gps ?sn)\<lparr>gps_term := set_terms (Suc (sn_terms sn)) (Suc ?p + length f) fs (gps_term (sn_gps ?sn))\<rparr>,
      sn_parity := xor_all (commas fs) (xor_all f (sn_parity ?sn))\<rparr>)"
    using Cons.IH [of "?sn\<lparr>sn_parity := xor_all f (sn_parity ?sn)\<rparr>" "pre @ 0 # f"] Cons.prems by simp
  finally show ?case by simp
qed

lemma length_set_terms [simp]: "length (set_terms t n fs ts) = length ts"
  by (induction t n fs ts rule: set_terms.induct) simp_all

lemma set_terms_before: "i < t \<Longrightarrow> set_terms t n fs ts ! i = ts ! i"
  by (induction t n fs ts rule: set_terms.induct) simp_all

lemma set_terms_text:
  "j < length fs \<Longrightarrow> t + length fs \<le> length ts \<Longrightarrow> length pre = n \<Longrightarrow>
   \<exists>off. set_terms t n fs ts ! (t + j) = Some off \<and> off < length (pre @ cuts fs @ 0 # r) \<and>
     (\<exists>q. drop off (pre @ cuts fs @ 0 # r) = fs ! j @ 0 # q)"
proof (induction fs arbitrary: t n ts j pre)
  case (Cons f fs)
  show ?case
  proof (cases j)
    case 0
    obtain q where q: "cuts fs @ 0 # r = 0 # q" by (cases fs) auto
    have "set_terms t n (f # fs) ts ! t = Some (Suc n)" using Cons.prems(2) by (simp add: set_terms_before)
    moreover have "drop (Suc n) (pre @ cuts (f # fs) @ 0 # r) = f @ cuts fs @ 0 # r" using Cons.prems(3) by simp
    moreover have "Suc n < length (pre @ cuts (f # fs) @ 0 # r)" using Cons.prems(3) by simp
    ultimately show ?thesis using 0 q by (metis add.right_neutral nth_Cons_0)
  next
    case (Suc k)
    with Cons.IH [of k "Suc t" "ts[t := Some (Suc n)]" "pre @ 0 # f" "Suc n + length f"] Cons.prems show ?thesis by simp
  qed
qed simp

definition rmc_parity :: "bytes list \<Rightarrow> u16" where
  "rmc_parity fs = xor_all (commas fs) (xor_all (str ''GPRMC'') 0)"

lemma rmc_initial: "GPRMC_PARITY_INITIAL = xor_all (str ''GPRMC'') 0"
  by (simp add: GPRMC_PARITY_INITIAL_def str_def)

text \<open>The decoder after the fields and the two characters of the checksum.\<close>

definition rmc_gps :: "bytes list \<Rightarrow> GPS \<Rightarrow> GPS" where
  "rmc_gps fs gps = gps\<lparr>gps_term := (set_terms 0 6 fs (gps_term gps))[length fs := Some (7 + length (commas fs))]\<rparr>"

abbreviation rmc_line :: "bytes list \<Rightarrow> u8 \<Rightarrow> u8 \<Rightarrow> bytes \<Rightarrow> bytes" where
  "rmc_line fs h l r \<equiv> str ''$GPRMC'' @ commas fs @ [chr CHR ''*'', h, l] @ 0 # r"

abbreviation rmc_cut :: "bytes list \<Rightarrow> u8 \<Rightarrow> u8 \<Rightarrow> bytes \<Rightarrow> bytes" where
  "rmc_cut fs h l r \<equiv> str ''$GPRMC'' @ cuts fs @ 0 # h # l # 0 # r"

lemma length_cuts: "length (cuts fs) = length (commas fs)"
  by (induction fs) simp_all

lemma rmc_scan:
  assumes "list_all (list_all field_char) fs" and "length fs \<le> 14" and "h \<noteq> 10" and "h \<noteq> 13" and "l \<noteq> 10" and "l \<noteq> 13"
  shows "gps_parse_loop F GPRMC [6..<9 + length (commas fs)]
      \<lparr>sn_gps = gps, sn_buf = rmc_line fs h l r, sn_state = 0, sn_parity = GPRMC_PARITY_INITIAL, sn_terms = 0\<rparr> =
    (let sn = \<lparr>sn_gps = rmc_gps fs gps, sn_buf = rmc_cut fs h l r, sn_state = 0,
                sn_parity = rmc_parity fs - 16 * nmea_dehex h - nmea_dehex l, sn_terms = Suc (length fs)\<rparr>
     in if sn_parity sn = 0 then
          do { r \<leftarrow> gps_accept F GPRMC sn; case r of Inl res \<Rightarrow> Some res | Inr sn \<Rightarrow> Some (False, sn) }
        else Some (False, sn))"
proof -
  let ?k = "length (commas fs)" and ?star = "chr CHR ''*''"
  let ?sn = "\<lparr>sn_gps = gps, sn_buf = rmc_line fs h l r, sn_state = 0, sn_parity = GPRMC_PARITY_INITIAL, sn_terms = 0\<rparr>"
  have up: "[6..<9 + ?k] = [6..<6 + ?k] @ [6 + ?k, 7 + ?k, 8 + ?k]"
  proof -
    have "[6..<9 + ?k] = [6..<6 + ?k] @ [6 + ?k..<6 + ?k + 3]" by (subst upt_add_eq_append [symmetric]) simp_all
    moreover have "[6 + ?k..<6 + ?k + 3] = [6 + ?k, 7 + ?k, 8 + ?k]" by (simp add: upt_rec numeral_3_eq_3)
    ultimately show ?thesis by simp
  qed
  have dollar: "length (str ''$GPRMC'') = 6" by (simp add: str_def)
  let ?s1 = "?sn\<lparr>sn_buf := str ''$GPRMC'' @ cuts fs @ ?star # h # l # 0 # r, sn_terms := length fs,
      sn_gps := gps\<lparr>gps_term := set_terms 0 6 fs (gps_term gps)\<rparr>, sn_parity := rmc_parity fs\<rparr>"
  have "gps_parse_loop F GPRMC [6..<9 + ?k] ?sn = gps_parse_loop F GPRMC [6 + ?k, 7 + ?k, 8 + ?k] ?s1"
    unfolding up using scan_fields [OF assms(1), of ?sn "str ''$GPRMC''" "?star # h # l # 0 # r" F GPRMC "[6 + ?k, 7 + ?k, 8 + ?k]"] assms(2)
    by (simp add: dollar MAX_TERMS_def rmc_parity_def rmc_initial)
  moreover have b: "sn_buf ?s1 ! (6 + ?k) = ?star" "sn_buf ?s1 ! (7 + ?k) = h" "sn_buf ?s1 ! (8 + ?k) = l"
    "(sn_buf ?s1)[6 + ?k := 0] = rmc_cut fs h l r"
    "rmc_cut fs h l r ! (7 + ?k) = h" "rmc_cut fs h l r ! (8 + ?k) = l"
    by (simp_all add: nth_append dollar length_cuts list_update_append)
  moreover have "?star \<noteq> 10" "?star \<noteq> 13" "?star \<noteq> chr CHR '',''" by (simp_all add: chr_def)
  moreover have e: "gps_parse_loop F GPRMC [] = (\<lambda>sn. Some (False, sn))" by (rule ext) simp
  ultimately show ?thesis using assms(2-6)
    by (simp add: Let_def MAX_TERMS_def rmc_gps_def e)
qed

lemma rmc_text:
  assumes "j < length fs" and "length fs \<le> 14" and "length (gps_term gps) = MAX_TERMS"
  shows "\<exists>q. term_text (rmc_gps fs gps) (rmc_cut fs h l r) j = Some (fs ! j @ 0 # q)"
proof -
  have dollar: "length (str ''$GPRMC'') = 6" by (simp add: str_def)
  obtain off q where "set_terms 0 6 fs (gps_term gps) ! j = Some off" "off < length (rmc_cut fs h l r)"
    "drop off (rmc_cut fs h l r) = fs ! j @ 0 # q"
    using set_terms_text [OF assms(1), of 0 "gps_term gps" "str ''$GPRMC''" 6 "h # l # 0 # r"] assms(2,3) dollar
    by (auto simp: MAX_TERMS_def)
  with assms(1) show ?thesis by (auto simp: term_text_def rmc_gps_def)
qed

definition ascii_hex :: "u8 \<Rightarrow> bool" where
  "ascii_hex c \<longleftrightarrow> c_isdigit c \<or> (65 \<le> c \<and> c \<le> 70)"

lemma ascii_hex_plain: "ascii_hex c \<Longrightarrow> c \<noteq> 10 \<and> c \<noteq> 13"
  by (auto simp: ascii_hex_def c_isdigit_def)

text \<open>
  C29. A position sentence is accepted exactly when its checksum holds. For a \<^verbatim>\<open>$GPRMC\<close> sentence of up to 14
  fields and 80 characters the parser returns; it reports a position if and only if the two hexadecimal
  digits are the exclusive or of the characters between dollar and asterisk and the status field begins
  with A. With a wrong checksum the validity is left as it was; with a right one it is the status.
  In every case the terms point at the fields of the sentence, each terminated.
\<close>

theorem gps_accepts_checked:
  assumes "list_all (list_all field_char) fs" and "2 \<le> length fs" and "length fs \<le> 14" and "ascii_hex h" and "ascii_hex l"
    and "9 + length (commas fs) \<le> 80" and "length (gps_term gps) = MAX_TERMS"
  shows "\<exists>gps' buf'. gps_parse F gps (rmc_line fs h l r) (word_of_nat (9 + length (commas fs))) =
      Some (rmc_parity fs = 16 * nmea_dehex h + nmea_dehex l \<and> hd (fs ! 1 @ [0]) = chr CHR ''A'', gps', buf') \<and>
    gps_valid gps' = (if rmc_parity fs = 16 * nmea_dehex h + nmea_dehex l then hd (fs ! 1 @ [0]) = chr CHR ''A'' else gps_valid gps) \<and>
    (\<forall>j < length fs. \<exists>q. term_text gps' buf' j = Some (fs ! j @ 0 # q))"
proof -
  let ?n = "9 + length (commas fs)" and ?ok = "rmc_parity fs = 16 * nmea_dehex h + nmea_dehex l"
  let ?g = "rmc_gps fs gps" and ?b = "rmc_cut fs h l r"
  let ?sn = "\<lparr>sn_gps = ?g, sn_buf = ?b, sn_state = 0,
      sn_parity = rmc_parity fs - 16 * nmea_dehex h - nmea_dehex l, sn_terms = Suc (length fs)\<rparr>"
  have p: "sn_parity ?sn = 0 \<longleftrightarrow> ?ok" by (simp add: diff_diff_eq)
  have n: "unat (word_of_nat ?n :: u16) = ?n" using small_u16 [of ?n] assms(6) by linarith
  have "c_str (rmc_line fs h l r) = str ''$GPRMC'' @ c_str (commas fs @ [chr CHR ''*'', h, l] @ 0 # r)"
    by (simp add: c_str_def str_def)
  then have t: "take 6 (c_str (rmc_line fs h l r)) = str ''$GPRMC''" by (simp add: str_def)
  obtain q where q: "term_text ?g ?b GPRMC_TERM_STATUS = Some (fs ! 1 @ 0 # q)"
    using rmc_text [of 1 fs gps h l r] assms(2,3,7) by (auto simp: GPRMC_TERM_STATUS_def)
  have h: "hd (fs ! 1 @ 0 # q) = hd (fs ! 1 @ [0])" by (cases "fs ! 1") simp_all
  have scan: "gps_parse_loop F GPRMC [6..<?n]
      \<lparr>sn_gps = gps, sn_buf = rmc_line fs h l r, sn_state = 0, sn_parity = GPRMC_PARITY_INITIAL, sn_terms = 0\<rparr> =
      (if ?ok then Some (hd (fs ! 1 @ [0]) = chr CHR ''A'', ?sn\<lparr>sn_gps := ?g\<lparr>gps_valid := (hd (fs ! 1 @ [0]) = chr CHR ''A'')\<rparr>\<rparr>)
       else Some (False, ?sn))"
    using rmc_scan [OF assms(1,3), of h l F gps r] ascii_hex_plain [OF assms(4)] ascii_hex_plain [OF assms(5)] p
    by (simp add: Let_def gps_accept_def q h [unfolded One_nat_def])
  have "gps_parse F gps (rmc_line fs h l r) (word_of_nat ?n) =
      Some (?ok \<and> hd (fs ! 1 @ [0]) = chr CHR ''A'',
        if ?ok then ?g\<lparr>gps_valid := (hd (fs ! 1 @ [0]) = chr CHR ''A'')\<rparr> else ?g, ?b)"
    unfolding gps_parse_def n t using assms(2,6) scan
    by (simp add: MIN_SENTENCEN_CHARS_def MAX_SENTENCEN_CHARS_def)
  moreover have "gps_valid ?g = gps_valid gps" by (simp add: rmc_gps_def)
  moreover have "term_text (?g\<lparr>gps_valid := v\<rparr>) ?b j = term_text ?g ?b j" for v j by (simp add: term_text_def)
  ultimately show ?thesis using rmc_text [OF _ assms(3,7)] by auto
qed

text \<open>An instance of the floating point operations on exact fractions, for the examples.\<close>

definition example_floats :: "rat floats" where
  "example_floats = \<lparr>f_lit = id, f_of_int = of_int, f_add = (+), f_sub = (-), f_mul = (*), f_div = (/), f_less = (<), f_eq = (=),
     f_floor = (\<lambda>x. of_int \<lfloor>x\<rfloor>), f_fabs = abs, f_sin = id, f_cos = id, f_sqrt = id, f_atan2 = (\<lambda>y x. y), f_lround = (\<lambda>x. word_of_int (round x))\<rparr>"

definition example_fields :: "bytes list" where
  "example_fields = map str [''123519'', ''A'', ''4807.038'', ''N'', ''01131.000'', ''E'', ''022.4'', ''084.4'', ''230394'', ''003.1'', ''W'']"

lemma example_fields_ok:
  "list_all (list_all field_char) example_fields" "length example_fields = 11" "length (commas example_fields) = 59"
  "rmc_parity example_fields = 0x6A" "hd (example_fields ! 1 @ [0]) = chr CHR ''A''"
  by (simp_all add: example_fields_def str_def field_char_def chr_def rmc_parity_def)

theorem gps_accepts_checked_witness:
  "\<exists>gps' buf'. gps_parse example_floats gps_zero (rmc_line example_fields (chr CHR ''6'') (chr CHR ''A'') []) 68 =
     Some (True, gps', buf') \<and> gps_valid gps'"
proof -
  have "ascii_hex (chr CHR ''6'')" "ascii_hex (chr CHR ''A'')" by (simp_all add: ascii_hex_def chr_def c_isdigit_def)
  moreover have "0x6A = 16 * nmea_dehex (chr CHR ''6'') + nmea_dehex (chr CHR ''A'')" by (simp add: nmea_dehex_def chr_def)
  moreover have "length (gps_term gps_zero) = MAX_TERMS" by (simp add: gps_zero_def)
  ultimately show ?thesis
    using gps_accepts_checked [OF example_fields_ok(1), of "chr CHR ''6''" "chr CHR ''A''" gps_zero example_floats Nil] example_fields_ok
    by auto
qed

section \<open>Times of day\<close>

text \<open>The seconds of a time of day as they should be.\<close>

definition digits2 :: "u8 \<Rightarrow> u8 \<Rightarrow> int" where
  "digits2 a b = (int (unat a) - 48) * 10 + (int (unat b) - 48)"

definition day_seconds :: "bytes \<Rightarrow> int" where
  "day_seconds utc = digits2 (utc ! 0) (utc ! 1) * 3600 + digits2 (utc ! 2) (utc ! 3) * 60 + digits2 (utc ! 4) (utc ! 5)"

lemma down_add: "(ucast (a + b :: u32) :: u16) = ucast a + ucast b" "(ucast (a - b :: u32) :: u16) = ucast a - ucast b"
proof -
  have d: "(ucast w :: u16) = word_of_int (uint w)" for w :: u32 by simp
  have m: "(word_of_int (x mod 4294967296) :: u16) = word_of_int x" for x
    by (simp add: word_of_int_eq_iff take_bit_eq_mod mod_mod_cancel)
  show "(ucast (a + b :: u32) :: u16) = ucast a + ucast b" "(ucast (a - b :: u32) :: u16) = ucast a - ucast b"
    using m [of "uint a + uint b"] m [of "uint a - uint b"] by (simp_all only: d uint_word_ariths) simp_all
qed

lemma down_scast: "(ucast (scast (x :: u16) :: u32) :: u16) = x"
  by (rule bit_word_eqI) (auto simp: bit_simps)

lemma TO_NUM_ascii: "c < 128 \<Longrightarrow> TO_NUM c = word_of_int (int (unat c) - 48)"
  by (simp add: TO_NUM_def scast_ascii)

text \<open>Although the hours times 3600 overflow 16 bits from ten o'clock on, the low half of the sum is right.\<close>

lemma utc_seconds_low:
  assumes "\<forall>i<6. utc ! i < 128"
  shows "(ucast (utc_seconds utc) :: u16) = word_of_int (day_seconds utc)"
proof -
  have "utc ! 0 < 128" "utc ! 1 < 128" "utc ! 2 < 128" "utc ! 3 < 128" "utc ! 4 < 128" "utc ! 5 < 128" using assms by auto
  then show ?thesis
    by (simp add: utc_seconds_def down_add down_scast TO_NUM_ascii day_seconds_def digits2_def)
qed

end
