(* ===== verification/Tracker.thy ===== *)
theory Tracker
  imports Gps
begin

text \<open>
  The tracker of \<^verbatim>\<open>TinyAPRS/tracker.[ch]\<close>: positions from the GPS receiver on the serial port are sent as
  APRS position reports when the smart beacon rules say so. Headings and times are computed in 16 bits;
  floating point is the parameter \<open>F\<close>. \<^verbatim>\<open>snprintf\<close> is the C library's.
\<close>

section \<open>Data\<close>

definition SB_FAST_RATE :: int where "SB_FAST_RATE = 45"
definition SB_SLOW_RATE :: int where "SB_SLOW_RATE = 120"
definition SB_LOW_SPEED :: int where "SB_LOW_SPEED = 5"
definition SB_HI_SPEED :: int where "SB_HI_SPEED = 70"
definition SB_TURN_TIME :: u16 where "SB_TURN_TIME = 15"
definition SB_TURN_MIN :: rat where "SB_TURN_MIN = 10"
definition SB_TURN_SLOPE :: rat where "SB_TURN_SLOPE = 240"

record 'f Tracker = Console +
  g_gps :: GPS
  trk_lastSendTimeSeconds :: i32
  lastLocation :: "'f Location"

section \<open>Smart beaconing\<close>

text \<open>\<^verbatim>\<open>abs\<close> on 16-bit integers.\<close>

definition abs16 :: "u16 \<Rightarrow> u16" where
  "abs16 x = (if sint x < 0 then - x else x)"

text \<open>The remainder of C, with the sign of the dividend.\<close>

definition c_mod :: "int \<Rightarrow> int \<Rightarrow> int" where
  "c_mod a b = a - c_div a b * b"

definition calc_heading :: "'f Location \<Rightarrow> 'f Location \<Rightarrow> u16" where
  "calc_heading l1 l2 =
     (let d = word_of_int (c_mod (sint (abs16 (heading l1 - heading l2))) 360)
      in if d \<le> 180 then d else 360 - d)"

definition f_max :: "'f floats \<Rightarrow> 'f \<Rightarrow> 'f \<Rightarrow> 'f" where
  "f_max F a b = (if f_less F b a then a else b)"

definition calc_speed_kmh :: "'f floats \<Rightarrow> 'f Location \<Rightarrow> 'f Location \<Rightarrow> u16" where
  "calc_speed_kmh F l1 l2 =
     (let dist = gps_distance_between F l1 l2 (f_of_int F 1);
          time_diff = abs16 (ucast (timestamp l1 - timestamp l2));
          s = f_mul F (f_div F dist (f_of_int F (sint time_diff))) (f_lit F (36 / 10));
          s2 = f_max F (speedInKMH l1) (speedInKMH l2)
      in ucast (f_lround F (f_max F s s2)))"

definition smart_beacon_turn_angle_check :: "'f floats \<Rightarrow> 'f Location \<Rightarrow> u16 \<Rightarrow> 'f Location \<Rightarrow> bool" where
  "smart_beacon_turn_angle_check F location secs_since_beacon lastLoc =
     (if heading location = 0 \<or> f_eq F (speedInKMH location) (f_of_int F 0) then False
      else if heading lastLoc = 0 then SB_TURN_TIME \<le> secs_since_beacon
      else
        let heading_change_since_beacon = calc_heading location lastLoc;
            turn_threshold = ucast (f_lround F (f_add F (f_lit F SB_TURN_MIN) (f_div F (f_lit F SB_TURN_SLOPE) (speedInKMH location))))
        in SB_TURN_TIME \<le> secs_since_beacon \<and> turn_threshold < heading_change_since_beacon)"

definition fixed_interval_beacon_check :: "('f, 'a) Tracker_scheme \<Rightarrow> bool" where
  "fixed_interval_beacon_check w \<longleftrightarrow>
     trk_lastSendTimeSeconds w = 0 \<or> SB_FAST_RATE < sint (timer_clock_seconds (clock w) - trk_lastSendTimeSeconds w)"

text \<open>The rate in seconds for a speed; the interpolation is in unsigned 16-bit arithmetic.\<close>

definition smart_rate :: "u16 \<Rightarrow> int" where
  "smart_rate speed =
     (if int (unat speed) < SB_LOW_SPEED then SB_SLOW_RATE
      else if SB_HI_SPEED < int (unat speed) then SB_FAST_RATE
      else uint (word_of_int SB_FAST_RATE +
             word_of_int (SB_SLOW_RATE - SB_FAST_RATE) * (word_of_int SB_HI_SPEED - speed) div
             word_of_int (SB_HI_SPEED - SB_LOW_SPEED)))"

definition smart_beacon_check :: "'f floats \<Rightarrow> 'f Location \<Rightarrow> ('f, 'a) Tracker_scheme \<Rightarrow> bool" where
  "smart_beacon_check F location w =
     (if trk_lastSendTimeSeconds w = 0 \<or> timestamp (lastLocation w) = 0 then True
      else
        let secs_since_beacon = ucast (timestamp location - timestamp (lastLocation w)) :: u16
        in if sint secs_since_beacon \<le> 0 then False
           else if smart_beacon_turn_angle_check F location secs_since_beacon (lastLocation w) then True
           else
             let beaconRate = f_of_int F (smart_rate (calc_speed_kmh F location (lastLocation w)));
                 rate = f_lround F beaconRate
             in sint rate < sint (timer_clock_seconds (clock w) - trk_lastSendTimeSeconds w))"

section \<open>Position reports\<close>

text \<open>\<^verbatim>\<open>%0nd\<close> and \<^verbatim>\<open>%.ns\<close> of the C library.\<close>

definition c_fmt_0d :: "nat \<Rightarrow> u16 \<Rightarrow> bytes" where
  "c_fmt_0d n w =
     (let sign = (if sint w < 0 then [chr CHR ''-''] else []); ds = fmt_digits 10 HEX_tab (nat \<bar>sint w\<bar>)
      in sign @ replicate (n - length sign - length ds) (chr CHR ''0'') @ ds)"

definition c_fmt_s :: "nat \<Rightarrow> bytes \<Rightarrow> bytes" where
  "c_fmt_s n s = take n (c_str s)"

text \<open>\<^verbatim>\<open>len += snprintf(payload + len, 63 - len, ...)\<close> for the formatted text.\<close>

definition snprintf_at :: "bytes \<Rightarrow> bytes \<times> u8 \<Rightarrow> bytes \<times> u8" where
  "snprintf_at t p =
     (let (payload, len) = p; room = 63 - unat len
      in (if 0 < room then mem_write payload (unat len) (take (room - 1) t @ [0]) else payload, len + word_of_nat (length t)))"

definition position_text :: "GPS \<Rightarrow> bytes \<Rightarrow> 'a Store_scheme \<Rightarrow> bytes option" where
  "position_text gps buf st =
     do { lat \<leftarrow> term_text gps buf GPRMC_TERM_LATITUDE;
          ns \<leftarrow> term_text gps buf GPRMC_TERM_LATITUDE_NS;
          lon \<leftarrow> term_text gps buf GPRMC_TERM_LONGITUDE;
          we \<leftarrow> term_text gps buf GPRMC_TERM_LONGITUDE_WE;
          head \<leftarrow> term_text gps buf GPRMC_TERM_HEADING;
          speed \<leftarrow> term_text gps buf GPRMC_TERM_SPEED;
          let s1 = symbol (beacon (g_settings st)) ! 0; let s1 = (if s1 = 0 then chr CHR ''/'' else s1);
          let s2 = symbol (beacon (g_settings st)) ! 1; let s2 = (if s2 = 0 then chr CHR ''>'' else s2);
          Some ([chr CHR ''!''] @ c_fmt_s 7 lat @ [hd ns, s1] @ c_fmt_s 8 lon @ [hd we, s2] @
                c_fmt_0d 3 (nmea_decimal_int head) @ [chr CHR ''/''] @ c_fmt_0d 3 (nmea_decimal_int speed)) }"

definition tracker_update_location ::
  "'f floats \<Rightarrow> bytes \<Rightarrow> ('f, 'a) Tracker_scheme tnc \<Rightarrow> ('f, 'a) Tracker_scheme tnc option" where
  "tracker_update_location F buf s =
     (let (ctx, af, w) = s; gps = g_gps w
      in if \<not> gps_valid gps then Some s
         else
           do { location \<leftarrow> gps_get_location F gps buf;
                if smart_beacon_check F location w then
                  do { t \<leftarrow> position_text gps buf w;
                       let p = snprintf_at t (replicate 64 0, 0);
                       let p = (if 0 < gps_altitude gps then snprintf_at (str ''/A='' @ c_fmt_0d 6 (gps_altitude gps)) p else p);
                       let (payload, len) = snprintf_at (str '' TinyAPRS Rocks!'') p;
                       (ctx, af, w) \<leftarrow> beacon_send payload len (ctx, af, w);
                       Some (ctx, af, w\<lparr>lastLocation := location, trk_lastSendTimeSeconds := timer_clock_seconds (clock w)\<rparr>) }
                else Some s })"

definition tracker_init_gps :: "('f, 'a) Tracker_scheme \<Rightarrow> ('f, 'a) Tracker_scheme option" where
  "tracker_init_gps w =
     do { (gps, w) \<leftarrow> gps_init w;
          let (ser, r) = serialreader_reset (g_serial w, g_serialreader w);
          Some (w\<lparr>g_gps := gps, g_serial := ser, g_serialreader := r\<rparr>) }"

definition tracker_poll :: "'f floats \<Rightarrow> ('f, 'a) Tracker_scheme tnc \<Rightarrow> ('f, 'a) Tracker_scheme tnc option" where
  "tracker_poll F s =
     (let (ctx, af, w) = s; (n, w) = g_readline w; r = g_serialreader w
      in if 0 < n then
           do { (ok, gps, buf) \<leftarrow> gps_parse F (g_gps w) (rd_buf r) (dataLen r);
                let w = w\<lparr>g_gps := gps, g_serialreader := r\<lparr>rd_buf := buf\<rparr>\<rparr>;
                if ok \<and> gps_valid gps then tracker_update_location F buf (ctx, af, w) else Some (ctx, af, w) }
         else Some (ctx, af, w))"

section \<open>How often the tracker sends\<close>

lemma small_u16_div:
  "a < 32768 \<Longrightarrow> b < 32768 \<Longrightarrow> (word_of_nat a :: u16) div word_of_nat b = word_of_nat (a div b)"
proof -
  assume a: "a < 32768" and b: "b < 32768"
  have "a div b < 32768" using a by (meson div_le_dividend le_less_trans)
  then have "unat ((word_of_nat a :: u16) div word_of_nat b) = unat (word_of_nat (a div b) :: u16)"
    using small_u16 [OF a] small_u16 [OF b] small_u16 [of "a div b"] by (simp only: unat_div)
  then show ?thesis by (simp only: word_unat_eq_iff)
qed

lemma smart_rate_interpolates:
  assumes "5 \<le> unat v" and "unat v \<le> 70"
  shows "smart_rate v = 45 + 75 * (70 - int (unat v)) div 65"
proof -
  let ?k = "70 - unat v"
  have "(70 :: u16) - v = word_of_nat 70 - word_of_nat (unat v)" by simp
  also have "\<dots> = word_of_nat ?k" using assms(2) by (simp only: of_nat_diff)
  finally have k: "(70 :: u16) - v = word_of_nat ?k" .
  have "(45 :: u16) + 75 * (70 - v) div 65 = word_of_nat 45 + word_of_nat (75 * ?k) div word_of_nat 65"
    unfolding k by (simp only: of_nat_mult of_nat_numeral)
  also have "\<dots> = word_of_nat (45 + 75 * ?k div 65)"
    using small_u16_div [of "75 * ?k" 65] assms(1) by (simp only: of_nat_add)
  finally have e: "(45 :: u16) + 75 * (70 - v) div 65 = word_of_nat (45 + 75 * ?k div 65)" .
  have "45 + 75 * ?k div 65 < 32768" using assms by auto
  then have "unat (word_of_nat (45 + 75 * ?k div 65) :: u16) = 45 + 75 * ?k div 65" using small_u16 by blast
  then have "uint (word_of_nat (45 + 75 * ?k div 65) :: u16) = int (45 + 75 * ?k div 65)" by (metis of_nat_unat uint_nat)
  then have "uint ((45 :: u16) + 75 * (70 - v) div 65) = int (45 + 75 * ?k div 65)" using e by simp
  moreover have "int (45 + 75 * ?k div 65) = 45 + 75 * (70 - int (unat v)) div 65"
    using assms(2) by (simp add: zdiv_int of_nat_diff)
  moreover have "\<not> int (unat v) < 5" "\<not> 70 < int (unat v)" using assms by linarith+
  ultimately show ?thesis
    unfolding smart_rate_def SB_LOW_SPEED_def SB_HI_SPEED_def SB_FAST_RATE_def SB_SLOW_RATE_def by (simp only: if_False) simp
qed

lemma smart_rate_bounds: "45 \<le> smart_rate v \<and> smart_rate v \<le> 120"
proof (cases "5 \<le> unat v \<and> unat v \<le> 70")
  case True
  then have "smart_rate v = 45 + 75 * (70 - int (unat v)) div 65" using smart_rate_interpolates by blast
  moreover have b: "int 5 \<le> int (unat v)" "int (unat v) \<le> int 70" using True by (simp_all only: of_nat_le_iff)
  then have j: "0 \<le> 75 * (70 - int (unat v))" by simp
  moreover have "75 * (70 - int (unat v)) \<le> 75 * 65" using b by simp
  then have "75 * (70 - int (unat v)) div 65 \<le> 75 * 65 div 65" by (rule zdiv_mono1) simp
  moreover have "0 \<le> 75 * (70 - int (unat v)) div 65" using j by (simp only: pos_imp_zdiv_nonneg_iff)
  ultimately show ?thesis by simp
next
  case False
  then have "int (unat v) < 5 \<or> 70 < int (unat v)" by linarith
  then show ?thesis
    unfolding smart_rate_def SB_LOW_SPEED_def SB_HI_SPEED_def SB_FAST_RATE_def SB_SLOW_RATE_def by fastforce
qed

lemma seconds_since:
  assumes "\<forall>i<6. u1 ! i < 128" and "\<forall>i<6. u0 ! i < 128" and "\<bar>day_seconds u1 - day_seconds u0\<bar> < 32768"
  shows "sint (ucast (utc_seconds u1 - utc_seconds u0) :: u16) = day_seconds u1 - day_seconds u0"
proof -
  have "(ucast (utc_seconds u1 - utc_seconds u0) :: u16) = word_of_int (day_seconds u1 - day_seconds u0)"
    by (simp add: down_add utc_seconds_low [OF assms(1)] utc_seconds_low [OF assms(2)])
  moreover have "signed_take_bit 15 (day_seconds u1 - day_seconds u0) = day_seconds u1 - day_seconds u0"
    using assms(3) by (intro signed_take_bit_int_eq_self) auto
  ultimately show ?thesis by (simp only: signed_of_int) simp
qed


definition example_tracker :: "rat Tracker" where
  "example_tracker = (Console.extend example_console
     \<lparr>g_gps = gps_zero, trk_lastSendTimeSeconds = 1,
      lastLocation = \<lparr>latitude = 0, longitude = 0, speedInKMH = 0, heading = 0, altitude = 0, timestamp = utc_seconds (str ''095959'')\<rparr>\<rparr>)
     \<lparr>clock := 200000\<rparr>"

definition example_location :: "rat Location" where
  "example_location = \<lparr>latitude = 0, longitude = 0, speedInKMH = 0, heading = 0, altitude = 0, timestamp = utc_seconds (str ''100100'')\<rparr>"

lemma example_floats_small: "0 \<le> n \<Longrightarrow> n \<le> 120 \<Longrightarrow> sint (f_lround example_floats (f_of_int example_floats n)) = n"
  by (simp add: example_floats_def sint_i32)


end
