(* ===== verification/Softser.thy ===== *)
theory Softser
  imports Tracker
begin

text \<open>
  The bit-banged serial port of \<^verbatim>\<open>TinyAPRS/hw/hw_softser.[ch]\<close> and the radio module of \<^verbatim>\<open>TinyAPRS/radio.[ch]\<close> that is
  set up over it. The transmit pin is the list of the levels it was given, each with the length of the
  delay loop that follows it; the receiver is given what it reads from its pin. There is one port; the record holds its
  structure and the static variables of the module. The receive buffer is another instance of the interface of a bounded
  queue.
\<close>

section \<open>Data\<close>

definition SS_MAX_RX_BUFF :: nat where "SS_MAX_RX_BUFF = 32"
definition XMIT_START_ADJUSTMENT :: u16 where "XMIT_START_ADJUSTMENT = 5"

text \<open>
  \<open>active_port\<close>: whether \<^verbatim>\<open>pActiveSerPort\<close> is the port; \<open>rx_irq\<close>: whether the change interrupt of its receive pin is enabled.
\<close>

record SoftSerial =
  receivePin :: u8
  rx_delay_centering :: u16
  rx_delay_intrabit :: u16
  rx_delay_stopbit :: u16
  tx_delay :: u16
  buffer_overflow :: bool
  inverse_logic :: bool
  tx_line :: "(bool \<times> u16) list"
  receive_buffer :: bytes
  receive_buffer_tail :: nat
  receive_buffer_head :: nat
  active_port :: bool
  rx_irq :: bool

text \<open>Rows of baud rate and delays: centering, within bits, stop bit, transmission.\<close>

definition delayTable :: "(nat \<times> u16 \<times> u16 \<times> u16 \<times> u16) list" where
  "delayTable =
     [(115200, 1, 17, 17, 12), (57600, 10, 37, 37, 33), (38400, 25, 57, 57, 54), (31250, 31, 70, 70, 68),
      (28800, 34, 77, 77, 74), (19200, 54, 117, 117, 114), (14400, 74, 156, 156, 153), (9600, 114, 236, 236, 233),
      (4800, 233, 474, 474, 471), (2400, 471, 950, 950, 947), (1200, 947, 1902, 1902, 1899),
      (600, 1902, 3804, 3804, 3800), (300, 3804, 7617, 7617, 7614)]"

section \<open>Operations\<close>

text \<open>After a reset of the processor.\<close>

definition softser_statics :: SoftSerial where
  "softser_statics =
     \<lparr>receivePin = 0, rx_delay_centering = 0, rx_delay_intrabit = 0, rx_delay_stopbit = 0, tx_delay = 0, buffer_overflow = False,
      inverse_logic = False, tx_line = [], receive_buffer = replicate SS_MAX_RX_BUFF 0, receive_buffer_tail = 0,
      receive_buffer_head = 0, active_port = False, rx_irq = False\<rparr>"

definition hw_softser_init :: "u8 \<Rightarrow> SoftSerial \<Rightarrow> SoftSerial" where
  "hw_softser_init pinRX p =
     p\<lparr>rx_delay_centering := 0, rx_delay_intrabit := 0, rx_delay_stopbit := 0, tx_delay := 0, buffer_overflow := False,
       inverse_logic := False, tx_line := tx_line p @ [(True, 0)], receivePin := pinRX, active_port := True\<rparr>"

text \<open>The pins with a change interrupt.\<close>

definition digitalPinToPCMSK :: "u8 \<Rightarrow> bool" where
  "digitalPinToPCMSK pin \<longleftrightarrow> pin \<le> 21"

definition hw_softser_start :: "nat \<Rightarrow> SoftSerial \<Rightarrow> SoftSerial" where
  "hw_softser_start speed p =
     (let p = (case map_of delayTable speed of
                 None \<Rightarrow> p
               | Some (c, i, s, t) \<Rightarrow> p\<lparr>rx_delay_centering := c, rx_delay_intrabit := i, rx_delay_stopbit := s, tx_delay := t\<rparr>);
          p = (if rx_delay_stopbit p \<noteq> 0 \<and> receivePin p \<le> 21 then p\<lparr>rx_irq := True\<rparr> else p)
      in if active_port p then p
         else p\<lparr>buffer_overflow := False, receive_buffer_head := 0, receive_buffer_tail := 0, active_port := True\<rparr>)"

definition hw_softser_stop :: "SoftSerial \<Rightarrow> SoftSerial" where
  "hw_softser_stop p = (if digitalPinToPCMSK (receivePin p) then p\<lparr>rx_irq := False\<rparr> else p)"

text \<open>Taking a byte from the receive buffer and storing one.\<close>

definition softser_pop :: "SoftSerial \<Rightarrow> u8 \<times> SoftSerial" where
  "softser_pop p =
     (receive_buffer p ! receive_buffer_head p, p\<lparr>receive_buffer_head := (receive_buffer_head p + 1) mod SS_MAX_RX_BUFF\<rparr>)"

definition softser_push :: "SoftSerial \<Rightarrow> u8 \<Rightarrow> SoftSerial" where
  "softser_push p d =
     p\<lparr>receive_buffer := (receive_buffer p)[receive_buffer_tail p := d],
       receive_buffer_tail := (receive_buffer_tail p + 1) mod SS_MAX_RX_BUFF\<rparr>"

definition softser_empty :: "SoftSerial \<Rightarrow> bool" where
  "softser_empty p \<longleftrightarrow> receive_buffer_head p = receive_buffer_tail p"

definition softser_full :: "SoftSerial \<Rightarrow> bool" where
  "softser_full p \<longleftrightarrow> (receive_buffer_tail p + 1) mod SS_MAX_RX_BUFF = receive_buffer_head p"

definition hw_softser_read :: "SoftSerial \<Rightarrow> u8 option \<times> SoftSerial" where
  "hw_softser_read p =
     (if \<not> active_port p \<or> softser_empty p then (None, p)
      else let (d, p) = softser_pop p in (Some d, p))"

definition hw_softser_avail :: "SoftSerial \<Rightarrow> nat" where
  "hw_softser_avail p =
     (if \<not> active_port p then 0
      else (receive_buffer_tail p + SS_MAX_RX_BUFF - receive_buffer_head p) mod SS_MAX_RX_BUFF)"

definition tx_pin_write :: "bool \<Rightarrow> u16 \<Rightarrow> SoftSerial \<Rightarrow> SoftSerial" where
  "tx_pin_write level delay p = p\<lparr>tx_line := tx_line p @ [(level, delay)]\<rparr>"

definition hw_softser_write :: "u8 \<Rightarrow> SoftSerial \<Rightarrow> bool \<times> SoftSerial" where
  "hw_softser_write b p =
     (if tx_delay p = 0 then (False, p)
      else
        let high = \<not> inverse_logic p;
            p = tx_pin_write (inverse_logic p) (tx_delay p + XMIT_START_ADJUSTMENT) p;
            p = fold (\<lambda>i p. tx_pin_write (if bit b i then high else \<not> high) (tx_delay p) p) [0..<8] p
        in (True, tx_pin_write high (tx_delay p) p))"

definition hw_softser_print :: "bytes \<Rightarrow> SoftSerial \<Rightarrow> SoftSerial" where
  "hw_softser_print s p = fold (\<lambda>c p. snd (hw_softser_write c p)) (c_str s) p"

text \<open>The receive interrupt, with what it reads from the pin: at once, then once in each of the eight bits.\<close>

definition hw_softser_recv :: "bool \<Rightarrow> bool list \<Rightarrow> SoftSerial \<Rightarrow> SoftSerial" where
  "hw_softser_recv first bits p =
     (if first = inverse_logic p then
        let d = fold (\<lambda>(i, v) d. if v then d OR push_bit i 1 else d AND NOT (push_bit i 1)) (zip [0..<8] bits) (0 :: u8);
            d = (if inverse_logic p then NOT d else d)
        in if \<not> softser_full p then softser_push p d else p\<lparr>buffer_overflow := True\<rparr>
      else p)"

text \<open>The interrupts of the three groups of pins all come here.\<close>

definition hw_softser_handle_interrupt :: "bool \<Rightarrow> bool list \<Rightarrow> SoftSerial \<Rightarrow> SoftSerial" where
  "hw_softser_handle_interrupt first bits p = (if active_port p then hw_softser_recv first bits p else p)"

section \<open>The radio module\<close>

definition CFG_RADIO_RX_PIN :: u8 where "CFG_RADIO_RX_PIN = 12"
definition CFG_RADIO_PORT_BAUDRATE :: nat where "CFG_RADIO_PORT_BAUDRATE = 9600"

record 'f Radio = "'f Tracker" +
  softSer :: SoftSerial

definition radio_print :: "bytes \<Rightarrow> ('f, 'a) Radio_scheme \<Rightarrow> ('f, 'a) Radio_scheme option" where
  "radio_print text w =
     (if 64 \<le> length text then None else g_delay 300 (w\<lparr>softSer := hw_softser_print text (softSer w)\<rparr>))"

definition radio_freqH :: "u32 \<Rightarrow> u16" where
  "radio_freqH freq = ucast (freq div 10000)"

definition radio_freqL :: "u32 \<Rightarrow> u16" where
  "radio_freqL freq = ucast (freq - ucast (radio_freqH freq * 10000))"

definition radio_freq_text :: "u32 \<Rightarrow> bytes" where
  "radio_freq_text freq = c_fmt_0d 0 (radio_freqH freq) @ [chr CHR ''.''] @ c_fmt_0d 4 (radio_freqL freq)"

definition radio_init :: "u32 \<Rightarrow> ('f, 'a) Radio_scheme \<Rightarrow> ('f, 'a) Radio_scheme option" where
  "radio_init freq w =
     (let w = w\<lparr>softSer := hw_softser_start CFG_RADIO_PORT_BAUDRATE (hw_softser_init CFG_RADIO_RX_PIN (softSer w))\<rparr>
      in do { w \<leftarrow> radio_print ([13, 10] @ str ''AT+DMOSETGROUP=1,'' @ radio_freq_text freq @ [chr CHR '',''] @ radio_freq_text freq @
                str '',0,0,0,0'' @ [13, 10]) w;
              w \<leftarrow> radio_print (str ''AT+DMOAUTOPOWCONTR=1'' @ [13, 10]) w;
              w \<leftarrow> radio_print (str ''AT+DMOSETMIC=3,0,0'' @ [13, 10]) w;
              radio_print (str ''AT+DMOSETVOLUME=5'' @ [13, 10]) w })"

section \<open>What is sent is received\<close>

text \<open>The levels of one character on the line.\<close>

definition uart_levels :: "u8 \<Rightarrow> bool list" where
  "uart_levels b = False # map (bit b) [0..<8] @ [True]"

lemma eight: "[0..<8] = [0, 1, 2, 3, 4, 5, 6, 7 :: nat]"
  by (simp add: upt_rec)

lemma softser_write_line:
  assumes "tx_delay p \<noteq> 0" and "\<not> inverse_logic p"
  shows "map fst (tx_line (snd (hw_softser_write b p))) = map fst (tx_line p) @ uart_levels b"
  using assms by (simp add: hw_softser_write_def tx_pin_write_def uart_levels_def eight Let_def)

lemma softser_collect:
  "fold (\<lambda>(i, v) d. if v then d OR push_bit i 1 else d AND NOT (push_bit i 1)) (zip [0..<n] (map (bit b) [0..<n])) (0 :: u8) = take_bit n b"
proof (induction n)
  case (Suc n)
  have "take_bit (Suc n) b = (if bit b n then take_bit n b OR push_bit n 1 else take_bit n b AND NOT (push_bit n 1))"
    by (rule bit_word_eqI) (auto simp: bit_simps less_Suc_eq)
  with Suc show ?case by simp
qed simp

text \<open>The receive buffer holds the bytes from its head up to its tail.\<close>

definition softser_ok :: "SoftSerial \<Rightarrow> bool" where
  "softser_ok p \<longleftrightarrow> length (receive_buffer p) = 32 \<and> receive_buffer_head p < 32 \<and> receive_buffer_tail p < 32"

definition softser_count :: "SoftSerial \<Rightarrow> nat" where
  "softser_count p = (receive_buffer_tail p + 32 - receive_buffer_head p) mod 32"

definition softser_list :: "SoftSerial \<Rightarrow> bytes" where
  "softser_list p = map (\<lambda>i. receive_buffer p ! ((receive_buffer_head p + i) mod 32)) [0..<softser_count p]"

lemma mod_32: "n < 64 \<Longrightarrow> n mod 32 = (if n < 32 then n else n - 32)" for n :: nat
  by (simp add: mod_if)

lemma softser_count_cases:
  "softser_ok p \<Longrightarrow> softser_count p =
     (if receive_buffer_head p \<le> receive_buffer_tail p then receive_buffer_tail p - receive_buffer_head p
      else receive_buffer_tail p + 32 - receive_buffer_head p)"
  by (auto simp: softser_ok_def softser_count_def mod_32)

lemma softser_push_list:
  assumes "softser_ok p" "\<not> softser_full p"
  shows "softser_list (softser_push p d) = softser_list p @ [d]"
proof -
  let ?h = "receive_buffer_head p" and ?t = "receive_buffer_tail p" and ?n = "softser_count p"
  have ok: "?h < 32" "?t < 32" "length (receive_buffer p) = 32" using assms(1) by (simp_all add: softser_ok_def)
  have c: "?n = (if ?h \<le> ?t then ?t - ?h else ?t + 32 - ?h)" by (rule softser_count_cases [OF assms(1)])
  have ok': "softser_ok (softser_push p d)" using assms(1) by (simp add: softser_ok_def softser_push_def SS_MAX_RX_BUFF_def)
  have nf: "(if ?t = 31 then 0 else ?t + 1) \<noteq> ?h"
    using assms(2) ok by (auto simp: softser_full_def SS_MAX_RX_BUFF_def mod_32 split: if_splits)
  have c': "softser_count (softser_push p d) = Suc ?n"
    unfolding softser_count_cases [OF ok'] c using ok nf
    by (auto simp: softser_push_def SS_MAX_RX_BUFF_def mod_32 split: if_splits)
  have at: "(?h + ?n) mod 32 = ?t" using ok unfolding c by (auto simp: mod_32)
  have before: "(?h + i) mod 32 \<noteq> ?t" if "i < ?n" for i
    using that ok unfolding c by (auto simp: mod_32 split: if_splits)
  have same: "(receive_buffer p)[?t := d] ! ((?h + i) mod 32) = receive_buffer p ! ((?h + i) mod 32)" if "i < ?n" for i
    using before [OF that] by simp
  have "softser_list (softser_push p d) =
      map (\<lambda>i. (receive_buffer p)[?t := d] ! ((?h + i) mod 32)) [0..<Suc ?n]"
    unfolding softser_list_def c' by (simp add: softser_push_def)
  also have "\<dots> = map (\<lambda>i. receive_buffer p ! ((?h + i) mod 32)) [0..<?n] @ [d]"
    by (simp add: at ok(2,3) same)
  finally show ?thesis by (simp add: softser_list_def)
qed

lemma softser_pop_list:
  assumes "softser_ok p" "softser_list p = x # xs"
  shows "fst (softser_pop p) = x \<and> softser_list (snd (softser_pop p)) = xs"
proof -
  let ?h = "receive_buffer_head p" and ?t = "receive_buffer_tail p" and ?n = "softser_count p"
  have ok: "?h < 32" "?t < 32" using assms(1) by (simp_all add: softser_ok_def)
  have c: "?n = (if ?h \<le> ?t then ?t - ?h else ?t + 32 - ?h)" by (rule softser_count_cases [OF assms(1)])
  have "?n \<noteq> 0" using arg_cong [OF assms(2), of length] by (simp add: softser_list_def)
  then obtain n where n: "?n = Suc n" by (cases ?n) auto
  have ok': "softser_ok (snd (softser_pop p))" using assms(1) by (simp add: softser_ok_def softser_pop_def SS_MAX_RX_BUFF_def)
  have c': "softser_count (snd (softser_pop p)) = n"
    unfolding softser_count_cases [OF ok'] using c n ok
    by (auto simp: softser_pop_def SS_MAX_RX_BUFF_def mod_32 split: if_splits)
  have "x # xs = receive_buffer p ! (?h mod 32) # map (\<lambda>i. receive_buffer p ! ((?h + Suc i) mod 32)) [0..<n]"
    using assms(2) by (simp add: softser_list_def n map_upt_Suc del: upt_Suc)
  moreover have "((?h + 1) mod 32 + i) mod 32 = (?h + Suc i) mod 32" for i by (simp add: mod_simps)
  ultimately show ?thesis using ok by (simp add: softser_list_def c') (simp add: softser_pop_def SS_MAX_RX_BUFF_def)
qed

interpretation softser: bounded_queue softser_push softser_pop softser_empty softser_full softser_list "\<lambda>_. 31" softser_ok
proof unfold_locales
  fix p x xs
  show "softser_ok p \<Longrightarrow> \<not> softser_full p \<Longrightarrow> softser_list (softser_push p x) = softser_list p @ [x]"
    by (rule softser_push_list)
  show "softser_ok p \<Longrightarrow> softser_empty p \<longleftrightarrow> softser_list p = []"
    by (auto simp: softser_list_def softser_empty_def softser_count_cases softser_ok_def)
  show "softser_ok p \<Longrightarrow> softser_full p \<longleftrightarrow> length (softser_list p) = 31"
    by (auto simp: softser_list_def softser_full_def softser_count_cases softser_ok_def SS_MAX_RX_BUFF_def mod_32)
  show "softser_ok p \<Longrightarrow> length (softser_list p) \<le> 31"
    using mod_less_divisor [of 32 "receive_buffer_tail p + 32 - receive_buffer_head p"] by (simp add: softser_list_def softser_count_def)
  show "softser_ok p \<Longrightarrow> softser_list p = x # xs \<Longrightarrow> fst (softser_pop p) = x \<and> softser_list (snd (softser_pop p)) = xs"
    by (rule softser_pop_list)
qed (simp_all add: softser_ok_def softser_push_def softser_pop_def SS_MAX_RX_BUFF_def)

text \<open>Every operation keeps the indices within the buffer.\<close>

lemma softser_ok_updates [simp]:
  "softser_ok (p\<lparr>buffer_overflow := a\<rparr>) = softser_ok p" "softser_ok (p\<lparr>tx_line := l\<rparr>) = softser_ok p"
  "softser_ok (p\<lparr>rx_irq := a\<rparr>) = softser_ok p" "softser_ok (p\<lparr>active_port := a\<rparr>) = softser_ok p"
  "softser_ok (p\<lparr>tx_delay := d\<rparr>) = softser_ok p"
  by (simp_all add: softser_ok_def)

lemma softser_start_ok: "softser_ok p \<Longrightarrow> softser_ok (hw_softser_start speed (hw_softser_init pin p))"
  by (simp add: hw_softser_start_def hw_softser_init_def softser_ok_def Let_def split: option.splits)

lemma softser_interrupt_ok: "softser_ok p \<Longrightarrow> softser_ok (hw_softser_handle_interrupt first bits p)"
  by (simp add: hw_softser_handle_interrupt_def hw_softser_recv_def softser.valid_push Let_def)

lemma softser_write_ok: "softser_ok p \<Longrightarrow> softser_ok (snd (hw_softser_write b p))"
  by (simp add: hw_softser_write_def tx_pin_write_def eight Let_def)

lemma softser_print_ok: "softser_ok p \<Longrightarrow> softser_ok (hw_softser_print s p)"
  unfolding hw_softser_print_def by (rule fold_invariant [where Q = "\<lambda>_. True"]) (simp_all add: softser_write_ok)

text \<open>A character on the line is received: it is added to what can be read, or flagged as an overflow.\<close>

lemma softser_recv_byte:
  assumes "\<not> inverse_logic p" and "active_port p"
  shows "hw_softser_handle_interrupt (hd (uart_levels b)) (take 8 (tl (uart_levels b))) p =
    (if softser_full p then p\<lparr>buffer_overflow := True\<rparr> else softser_push p b)"
proof -
  have "take_bit 8 b = b" by (rule bit_word_eqI) (auto simp: bit_simps)
  with assms softser_collect [of 8 b] show ?thesis
    by (simp add: hw_softser_handle_interrupt_def hw_softser_recv_def uart_levels_def Let_def)
qed

lemma softser_transfers:
  assumes "softser_ok p" "active_port p" "\<not> inverse_logic p" "length (softser_list p) + length bs \<le> 31"
  shows "softser_list (fold (\<lambda>b. hw_softser_handle_interrupt (hd (uart_levels b)) (take 8 (tl (uart_levels b)))) bs p) =
    softser_list p @ bs"
  using assms
proof (induction bs arbitrary: p)
  case (Cons b bs)
  then have nf: "\<not> softser_full p" by (simp add: softser.room_iff)
  with Cons.prems have r: "hw_softser_handle_interrupt (hd (uart_levels b)) (take 8 (tl (uart_levels b))) p = softser_push p b"
    by (simp add: softser_recv_byte)
  have "active_port (softser_push p b)" "\<not> inverse_logic (softser_push p b)" using Cons.prems by (simp_all add: softser_push_def)
  with Cons.IH [of "softser_push p b"] Cons.prems nf show ?case
    by (simp add: r softser.valid_push softser.contents_push)
qed simp

text \<open>Reading takes the oldest byte.\<close>

lemma softser_read_list:
  assumes "softser_ok p" "active_port p"
  shows "fst (hw_softser_read p) = (case softser_list p of [] \<Rightarrow> None | c # _ \<Rightarrow> Some c)"
    "softser_list (snd (hw_softser_read p)) = tl (softser_list p)" "hw_softser_avail p = length (softser_list p)"
proof -
  have e: "softser_empty p \<longleftrightarrow> softser_list p = []" by (rule softser.isempty_contents [OF assms(1)])
  show "fst (hw_softser_read p) = (case softser_list p of [] \<Rightarrow> None | c # _ \<Rightarrow> Some c)"
    "softser_list (snd (hw_softser_read p)) = tl (softser_list p)"
    using assms e softser_pop_list [OF assms(1)]
    by (cases "softser_list p"; auto simp: hw_softser_read_def split: prod.splits)+
  show "hw_softser_avail p = length (softser_list p)"
    using assms(2) by (simp add: hw_softser_avail_def softser_list_def softser_count_def SS_MAX_RX_BUFF_def)
qed

text \<open>Although the product overflows 16 bits, the frequency is split correctly.\<close>

lemma radio_freq_split:
  assumes "unat freq < 655360000"
  shows "unat (radio_freqH freq) = unat freq div 10000 \<and> unat (radio_freqL freq) = unat freq mod 10000"
proof -
  let ?f = "unat freq"
  have h: "unat (radio_freqH freq) = ?f div 10000"
  proof -
    have d: "unat (freq div 10000) = ?f div 10000" by (simp add: unat_div)
    have "radio_freqH freq = word_of_nat (unat (freq div 10000))" by (simp add: radio_freqH_def)
    then have "unat (radio_freqH freq) = ?f div 10000 mod 65536" unfolding d by (simp add: unat_of_nat)
    moreover have "?f div 10000 < 65536" using assms by (simp add: div_less_iff_less_mult)
    ultimately show ?thesis by simp
  qed
  have "(ucast (ucast (radio_freqH freq * 10000) :: u32) :: u16) = radio_freqH freq * 10000"
    by (rule bit_word_eqI) (auto simp: bit_simps)
  then have l: "radio_freqL freq = ucast freq - radio_freqH freq * 10000"
    by (simp add: radio_freqL_def down_add)
  have "(ucast freq :: u16) = word_of_nat ?f" by simp
  moreover have "radio_freqH freq = word_of_nat (?f div 10000)" using h by (metis of_nat_unat ucast_id)
  ultimately have "radio_freqL freq = word_of_nat ?f - word_of_nat (?f div 10000 * 10000)" using l by simp
  also have "\<dots> = word_of_nat (?f - ?f div 10000 * 10000)"
    by (simp only: of_nat_diff [OF div_times_less_eq_dividend])
  also have "?f - ?f div 10000 * 10000 = ?f mod 10000" by (simp add: minus_div_mult_eq_mod)
  finally have "radio_freqL freq = word_of_nat (?f mod 10000)" .
  moreover have "?f mod 10000 < 32768" by (rule less_trans [of _ 10000]) simp_all
  ultimately show ?thesis using h small_u16 by simp
qed

end
