(* ===== verification/Lcd.thy ===== *)
theory Lcd
  imports Timer
begin

text \<open>
  The text display of \<^verbatim>\<open>TinyAPRS/lcd/hw_lcd_4884.[ch]\<close>, 84 by 48 pixels behind a PCD8544 controller that is driven bit
  by bit over five pins of port C. The state of the driver keeps every value the port is given; \<open>panel_pins\<close> is what
  the data sheet of the controller says that it makes of them: a serial bit at each rising edge of the clock while it is
  selected, bytes that are commands or columns of eight pixels, an address that moves on by itself. The driver is shown
  to display, on each line, the text that was last written to it.
\<close>

section \<open>The pins\<close>

definition PIN_SCLK :: nat where "PIN_SCLK = 1"
definition PIN_SDIN :: nat where "PIN_SDIN = 2"
definition PIN_DC :: nat where "PIN_DC = 3"
definition PIN_SCE :: nat where "PIN_SCE = 4"
definition PIN_RESET :: nat where "PIN_RESET = 5"

definition PCD8544_CMD :: u8 where "PCD8544_CMD = 0"
definition PCD8544_DATA :: u8 where "PCD8544_DATA = 1"

definition lcd_width :: nat where "lcd_width = 84"
definition lcd_height :: nat where "lcd_height = 48"

record Lcd =
  DDRC :: u8
  PORTC :: u8
  port_trace :: "u8 list"
  pix_x :: u8
  pix_y :: u8
  lcd_clock :: i32

definition set_PORTC :: "u8 \<Rightarrow> Lcd \<Rightarrow> Lcd" where
  "set_PORTC v l = l\<lparr>PORTC := v, port_trace := port_trace l @ [v]\<rparr>"

definition pin_hi :: "nat \<Rightarrow> Lcd \<Rightarrow> Lcd" where
  "pin_hi n l = set_PORTC (PORTC l OR BV n) l"

definition pin_lo :: "nat \<Rightarrow> Lcd \<Rightarrow> Lcd" where
  "pin_lo n l = set_PORTC (PORTC l AND NOT (BV n)) l"

definition HW_LCD_INIT :: "Lcd \<Rightarrow> Lcd" where
  "HW_LCD_INIT l = set_PORTC (PORTC l OR 62) (l\<lparr>DDRC := DDRC l OR 62\<rparr>)"

section \<open>Operations\<close>

text \<open>One turn of the loop that shifts a byte out.\<close>

definition lcd_shift_bit :: "bool \<Rightarrow> Lcd \<Rightarrow> Lcd" where
  "lcd_shift_bit b l =
     (let l = (if b then pin_hi PIN_SDIN l else pin_lo PIN_SDIN l)
      in pin_hi PIN_SCLK (pin_lo PIN_SCLK l))"

definition hw_lcd_4884_send :: "u8 \<Rightarrow> u8 \<Rightarrow> Lcd \<Rightarrow> Lcd" where
  "hw_lcd_4884_send type data l =
     (let l = pin_lo PIN_SCE l;
          l = (if type = 0 then pin_lo PIN_DC l else pin_hi PIN_DC l);
          l = fold (\<lambda>i. lcd_shift_bit (data AND BV (7 - i) \<noteq> 0)) [0..<8] l
      in pin_hi PIN_SCE l)"

definition HW_LCD_CMD :: "u8 \<Rightarrow> Lcd \<Rightarrow> Lcd" where
  "HW_LCD_CMD = hw_lcd_4884_send PCD8544_CMD"

definition HW_LCD_DATA :: "u8 \<Rightarrow> Lcd \<Rightarrow> Lcd" where
  "HW_LCD_DATA = hw_lcd_4884_send PCD8544_DATA"

definition lcd_4884_setCursor :: "u8 \<Rightarrow> u8 \<Rightarrow> Lcd \<Rightarrow> Lcd" where
  "lcd_4884_setCursor x y l =
     (let l = l\<lparr>pix_x := x mod of_nat lcd_width, pix_y := y mod of_nat lcd_height\<rparr>;
          l = HW_LCD_CMD (0x80 OR pix_x l) l
      in HW_LCD_CMD (0x40 OR pix_y l) l)"

definition lcd_4884_home :: "Lcd \<Rightarrow> Lcd" where
  "lcd_4884_home l = lcd_4884_setCursor 0 (pix_y l) l"

definition lcd_4884_clear :: "Lcd \<Rightarrow> Lcd" where
  "lcd_4884_clear l =
     (let l = lcd_4884_setCursor 0 0 l;
          l = fold (\<lambda>i. HW_LCD_DATA 0) [0..<lcd_width * (lcd_height div 8)] l
      in lcd_4884_setCursor 0 0 l)"

definition lcd_4884_clearLine :: "u8 \<Rightarrow> Lcd \<Rightarrow> Lcd" where
  "lcd_4884_clearLine aline l =
     (let l = lcd_4884_setCursor 0 aline l;
          l = fold (\<lambda>i. HW_LCD_DATA 0) [0..<lcd_width] l
      in lcd_4884_setCursor 0 aline l)"

text \<open>The columns of the characters from the blank on.\<close>

definition charset :: "bytes list" where
  "charset =
     [[0x00, 0x00, 0x00, 0x00, 0x00], [0x00, 0x00, 0x2f, 0x00, 0x00], [0x00, 0x07, 0x00, 0x07, 0x00],
      [0x14, 0x7f, 0x14, 0x7f, 0x14], [0x24, 0x2a, 0x7f, 0x2a, 0x12], [0x62, 0x64, 0x08, 0x13, 0x23],
      [0x36, 0x49, 0x55, 0x22, 0x50], [0x00, 0x05, 0x03, 0x00, 0x00], [0x00, 0x1c, 0x22, 0x41, 0x00],
      [0x00, 0x41, 0x22, 0x1c, 0x00], [0x14, 0x08, 0x3e, 0x08, 0x14], [0x08, 0x08, 0x3e, 0x08, 0x08],
      [0x00, 0x00, 0xa0, 0x60, 0x00], [0x08, 0x08, 0x08, 0x08, 0x08], [0x00, 0x60, 0x60, 0x00, 0x00],
      [0x20, 0x10, 0x08, 0x04, 0x02], [0x3e, 0x51, 0x49, 0x45, 0x3e], [0x00, 0x42, 0x7f, 0x40, 0x00],
      [0x42, 0x61, 0x51, 0x49, 0x46], [0x21, 0x41, 0x45, 0x4b, 0x31], [0x18, 0x14, 0x12, 0x7f, 0x10],
      [0x27, 0x45, 0x45, 0x45, 0x39], [0x3c, 0x4a, 0x49, 0x49, 0x30], [0x01, 0x71, 0x09, 0x05, 0x03],
      [0x36, 0x49, 0x49, 0x49, 0x36], [0x06, 0x49, 0x49, 0x29, 0x1e], [0x00, 0x36, 0x36, 0x00, 0x00],
      [0x00, 0x56, 0x36, 0x00, 0x00], [0x08, 0x14, 0x22, 0x41, 0x00], [0x14, 0x14, 0x14, 0x14, 0x14],
      [0x00, 0x41, 0x22, 0x14, 0x08], [0x02, 0x01, 0x51, 0x09, 0x06], [0x32, 0x49, 0x59, 0x51, 0x3e],
      [0x7c, 0x12, 0x11, 0x12, 0x7c], [0x7f, 0x49, 0x49, 0x49, 0x36], [0x3e, 0x41, 0x41, 0x41, 0x22],
      [0x7f, 0x41, 0x41, 0x22, 0x1c], [0x7f, 0x49, 0x49, 0x49, 0x41], [0x7f, 0x09, 0x09, 0x09, 0x01],
      [0x3e, 0x41, 0x49, 0x49, 0x7a], [0x7f, 0x08, 0x08, 0x08, 0x7f], [0x00, 0x41, 0x7f, 0x41, 0x00],
      [0x20, 0x40, 0x41, 0x3f, 0x01], [0x7f, 0x08, 0x14, 0x22, 0x41], [0x7f, 0x40, 0x40, 0x40, 0x40],
      [0x7f, 0x02, 0x0c, 0x02, 0x7f], [0x7f, 0x04, 0x08, 0x10, 0x7f], [0x3e, 0x41, 0x41, 0x41, 0x3e],
      [0x7f, 0x09, 0x09, 0x09, 0x06], [0x3e, 0x41, 0x51, 0x21, 0x5e], [0x7f, 0x09, 0x19, 0x29, 0x46],
      [0x46, 0x49, 0x49, 0x49, 0x31], [0x01, 0x01, 0x7f, 0x01, 0x01], [0x3f, 0x40, 0x40, 0x40, 0x3f],
      [0x1f, 0x20, 0x40, 0x20, 0x1f], [0x3f, 0x40, 0x38, 0x40, 0x3f], [0x63, 0x14, 0x08, 0x14, 0x63],
      [0x07, 0x08, 0x70, 0x08, 0x07], [0x61, 0x51, 0x49, 0x45, 0x43], [0x00, 0x7f, 0x41, 0x41, 0x00],
      [0x55, 0x2a, 0x55, 0x2a, 0x55], [0x00, 0x41, 0x41, 0x7f, 0x00], [0x04, 0x02, 0x01, 0x02, 0x04],
      [0x40, 0x40, 0x40, 0x40, 0x40], [0x00, 0x01, 0x02, 0x04, 0x00], [0x20, 0x54, 0x54, 0x54, 0x78],
      [0x7f, 0x48, 0x44, 0x44, 0x38], [0x38, 0x44, 0x44, 0x44, 0x20], [0x38, 0x44, 0x44, 0x48, 0x7f],
      [0x38, 0x54, 0x54, 0x54, 0x18], [0x08, 0x7e, 0x09, 0x01, 0x02], [0x18, 0xa4, 0xa4, 0xa4, 0x7c],
      [0x7f, 0x08, 0x04, 0x04, 0x78], [0x00, 0x44, 0x7d, 0x40, 0x00], [0x40, 0x80, 0x84, 0x7d, 0x00],
      [0x7f, 0x10, 0x28, 0x44, 0x00], [0x00, 0x41, 0x7f, 0x40, 0x00], [0x7c, 0x04, 0x18, 0x04, 0x78],
      [0x7c, 0x08, 0x04, 0x04, 0x78], [0x38, 0x44, 0x44, 0x44, 0x38], [0xfc, 0x24, 0x24, 0x24, 0x18],
      [0x18, 0x24, 0x24, 0x18, 0xfc], [0x7c, 0x08, 0x04, 0x04, 0x08], [0x48, 0x54, 0x54, 0x54, 0x20],
      [0x04, 0x3f, 0x44, 0x40, 0x20], [0x3c, 0x40, 0x40, 0x20, 0x7c], [0x1c, 0x20, 0x40, 0x20, 0x1c],
      [0x3c, 0x40, 0x30, 0x40, 0x3c], [0x44, 0x28, 0x10, 0x28, 0x44], [0x1c, 0xa0, 0xa0, 0xa0, 0x7c],
      [0x44, 0x64, 0x54, 0x4c, 0x44], [0x00, 0x08, 0x36, 0x41, 0x00], [0x00, 0x00, 0x7f, 0x00, 0x00],
      [0x00, 0x41, 0x36, 0x08, 0x00], [0x10, 0x08, 0x08, 0x10, 0x08], [0x00, 0x00, 0x00, 0x00, 0x00]]"

definition lcd_4884_write :: "u8 \<Rightarrow> Lcd \<Rightarrow> Lcd" where
  "lcd_4884_write c l =
     (if 0x80 \<le> c \<or> c < 0x20 then l
      else
        let glyph = charset ! unat (c - 0x20);
            l = HW_LCD_DATA 0 l;
            l = fold HW_LCD_DATA glyph l;
            l = l\<lparr>pix_x := of_nat ((unat (pix_x l) + 6) mod lcd_width)\<rparr>
        in if pix_x l = 0 then l\<lparr>pix_y := of_nat ((unat (pix_y l) + 1) mod lcd_height)\<rparr> else l)"

text \<open>The text is given as the array that holds it, with its terminator.\<close>

definition lcd_4884_writeString :: "bytes \<Rightarrow> u8 \<Rightarrow> Lcd \<Rightarrow> Lcd" where
  "lcd_4884_writeString text aline l =
     (let l = lcd_4884_setCursor 0 aline l;
          l = lcd_4884_clearLine aline l
      in fold lcd_4884_write (take 14 (c_str text)) l)"

definition lcd_delay :: "i32 \<Rightarrow> Lcd \<Rightarrow> Lcd option" where
  "lcd_delay ms l = do { t \<leftarrow> timer_delay ms (lcd_clock l); Some (l\<lparr>lcd_clock := t\<rparr>) }"

definition lcd_4884_init :: "Lcd \<Rightarrow> Lcd option" where
  "lcd_4884_init l =
     (let l = pin_hi PIN_RESET (HW_LCD_INIT l)
      in do { l \<leftarrow> lcd_delay 1 l;
              l \<leftarrow> lcd_delay 1 (pin_lo PIN_RESET l);
              l \<leftarrow> lcd_delay 100 (pin_hi PIN_RESET l);
              let l = fold HW_LCD_CMD [0x21, 0xc0, 0x06, 0x13, 0x20] l;
              let l = lcd_4884_clear l;
              let l = HW_LCD_CMD 0x0c l;
              Some (pin_lo PIN_SCE l) })"

section \<open>The controller\<close>

text \<open>
  Its memory is six lines of 84 columns; a column written moves the address on, from the end of a line to the next line
  and from the last line to the first. A function set command selects the instruction set; with the basic one the two
  address commands are understood.
\<close>

record Display =
  d_ext :: bool
  d_x :: nat
  d_y :: nat
  d_ram :: bytes

definition display_data :: "u8 \<Rightarrow> Display \<Rightarrow> Display" where
  "display_data b d =
     d\<lparr>d_ram := (d_ram d)[84 * d_y d + d_x d := b],
       d_x := (if d_x d = 83 then 0 else d_x d + 1),
       d_y := (if d_x d = 83 then (if d_y d = 5 then 0 else d_y d + 1) else d_y d)\<rparr>"

definition display_cmd :: "u8 \<Rightarrow> Display \<Rightarrow> Display" where
  "display_cmd b d =
     (if b AND 0xf8 = 0x20 then d\<lparr>d_ext := bit b 0\<rparr>
      else if d_ext d then d
      else if bit b 7 then d\<lparr>d_x := unat (b AND 0x7f)\<rparr>
      else if b AND 0xf8 = 0x40 then d\<lparr>d_y := unat (b AND 0x07)\<rparr>
      else d)"

record Panel =
  p_pins :: u8
  p_shift :: "bool list"
  p_disp :: Display

text \<open>What a new value of the port does: reset, deselect, or clock a bit in, most significant first.\<close>

definition panel_pins :: "u8 \<Rightarrow> Panel \<Rightarrow> Panel" where
  "panel_pins v p =
     (let q = p\<lparr>p_pins := v\<rparr>
      in if \<not> bit v PIN_RESET
         then q\<lparr>p_shift := [], p_disp := (p_disp p)\<lparr>d_ext := False, d_x := 0, d_y := 0\<rparr>\<rparr>
         else if bit v PIN_SCE then q\<lparr>p_shift := []\<rparr>
         else if \<not> bit (p_pins p) PIN_SCLK \<and> bit v PIN_SCLK
         then let bs = p_shift p @ [bit v PIN_SDIN]
              in if length bs < 8 then q\<lparr>p_shift := bs\<rparr>
                 else q\<lparr>p_shift := [],
                        p_disp := (if bit v PIN_DC then display_data else display_cmd) (bits_val (rev bs)) (p_disp p)\<rparr>
         else q)"

definition panel_of :: "Panel \<Rightarrow> Lcd \<Rightarrow> Panel" where
  "panel_of p0 l = fold panel_pins (port_trace l) p0"

abbreviation screen :: "Panel \<Rightarrow> Lcd \<Rightarrow> Display" where
  "screen p0 l \<equiv> p_disp (panel_of p0 l)"

section \<open>A byte sent is a byte received\<close>

lemmas pin_defs = PIN_SCLK_def PIN_SDIN_def PIN_DC_def PIN_SCE_def PIN_RESET_def

text \<open>The controller is between two bytes, follows the port and is not held in reset.\<close>

definition in_step :: "Panel \<Rightarrow> Lcd \<Rightarrow> bool" where
  "in_step p0 l \<longleftrightarrow> p_pins (panel_of p0 l) = PORTC l \<and> p_shift (panel_of p0 l) = [] \<and> bit (PORTC l) PIN_RESET"

lemma panel_of_set_PORTC [simp]:
  "panel_of p0 (set_PORTC v l) = panel_pins v (panel_of p0 l)" "PORTC (set_PORTC v l) = v"
  by (simp_all add: panel_of_def set_PORTC_def)

text \<open>Operations on other fields.\<close>

lemma panel_of_other [simp]:
  "panel_of p0 (l\<lparr>pix_x := x\<rparr>) = panel_of p0 l" "panel_of p0 (l\<lparr>pix_y := y\<rparr>) = panel_of p0 l"
  "panel_of p0 (l\<lparr>lcd_clock := t\<rparr>) = panel_of p0 l" "panel_of p0 (l\<lparr>DDRC := v\<rparr>) = panel_of p0 l"
  by (simp_all add: panel_of_def)

lemma in_step_other [simp]:
  "in_step p0 (l\<lparr>pix_x := x\<rparr>) = in_step p0 l" "in_step p0 (l\<lparr>pix_y := y\<rparr>) = in_step p0 l"
  "in_step p0 (l\<lparr>lcd_clock := t\<rparr>) = in_step p0 l"
  by (simp_all add: in_step_def)

text \<open>The five pins are distinct bits of the port.\<close>

lemma pins_distinct [simp]:
  "PIN_SCLK \<noteq> PIN_SDIN" "PIN_SCLK \<noteq> PIN_DC" "PIN_SCLK \<noteq> PIN_SCE" "PIN_SCLK \<noteq> PIN_RESET"
  "PIN_SDIN \<noteq> PIN_SCLK" "PIN_SDIN \<noteq> PIN_DC" "PIN_SDIN \<noteq> PIN_SCE" "PIN_SDIN \<noteq> PIN_RESET"
  "PIN_DC \<noteq> PIN_SCLK" "PIN_DC \<noteq> PIN_SDIN" "PIN_DC \<noteq> PIN_SCE" "PIN_DC \<noteq> PIN_RESET"
  "PIN_SCE \<noteq> PIN_SCLK" "PIN_SCE \<noteq> PIN_SDIN" "PIN_SCE \<noteq> PIN_DC" "PIN_SCE \<noteq> PIN_RESET"
  "PIN_RESET \<noteq> PIN_SCLK" "PIN_RESET \<noteq> PIN_SDIN" "PIN_RESET \<noteq> PIN_DC" "PIN_RESET \<noteq> PIN_SCE"
  by (simp_all add: pin_defs)

lemma pins_lt_8 [simp]: "PIN_SCLK < 8" "PIN_SDIN < 8" "PIN_DC < 8" "PIN_SCE < 8" "PIN_RESET < 8"
  by (simp_all add: pin_defs)

lemma bit_pin_hi [simp]: "n < 8 \<Longrightarrow> bit (v OR BV n) m \<longleftrightarrow> bit v m \<or> m = n"
  by (auto simp: bit_or_iff bit_BV)

lemma bit_pin_lo [simp]: "n < 8 \<Longrightarrow> bit (v AND NOT (BV n)) m \<longleftrightarrow> bit v m \<and> m \<noteq> n"
  by (auto simp: bit_and_iff bit_not_iff bit_BV dest: bit_imp_lt_8)

text \<open>While a byte is shifted the controller holds the bits so far.\<close>

definition shifting :: "Panel \<Rightarrow> bool \<Rightarrow> bool list \<Rightarrow> Display \<Rightarrow> Lcd \<Rightarrow> bool" where
  "shifting p0 dc bs d l \<longleftrightarrow>
     p_pins (panel_of p0 l) = PORTC l \<and> p_shift (panel_of p0 l) = bs \<and> p_disp (panel_of p0 l) = d \<and>
     bit (PORTC l) PIN_RESET \<and> \<not> bit (PORTC l) PIN_SCE \<and> (bit (PORTC l) PIN_DC \<longleftrightarrow> dc)"

definition display_byte :: "bool \<Rightarrow> u8 \<Rightarrow> Display \<Rightarrow> Display" where
  "display_byte dc = (if dc then display_data else display_cmd)"

lemma shifting_set_PORTC:
  assumes "shifting p0 dc bs d l" "bit v PIN_RESET" "\<not> bit v PIN_SCE" "bit v PIN_DC \<longleftrightarrow> dc"
    and "bit v PIN_SCLK \<longrightarrow> bit (PORTC l) PIN_SCLK"
  shows "shifting p0 dc bs d (set_PORTC v l)"
  using assms by (auto simp: shifting_def panel_pins_def Let_def)

lemma shifting_pin:
  assumes s: "shifting p0 dc bs d l"
  shows "shifting p0 dc bs d (pin_hi PIN_SDIN l)" "shifting p0 dc bs d (pin_lo PIN_SDIN l)"
    "shifting p0 dc bs d (pin_lo PIN_SCLK l)"
  unfolding pin_hi_def pin_lo_def using s by (intro shifting_set_PORTC [OF s]; simp add: shifting_def)+

lemma shifting_clock:
  assumes "shifting p0 dc bs d l" "\<not> bit (PORTC l) PIN_SCLK" "bit (PORTC l) PIN_SDIN \<longleftrightarrow> b"
  shows "shifting p0 dc (if length bs < 7 then bs @ [b] else [])
     (if length bs < 7 then d else display_byte dc (bits_val (rev (bs @ [b]))) d) (pin_hi PIN_SCLK l)"
  using assms by (simp add: shifting_def pin_hi_def panel_pins_def Let_def display_byte_def)

lemma shift_bit:
  assumes s: "shifting p0 dc bs d l"
  shows "shifting p0 dc (if length bs < 7 then bs @ [b] else [])
     (if length bs < 7 then d else display_byte dc (bits_val (rev (bs @ [b]))) d) (lcd_shift_bit b l)"
proof -
  let ?l = "if b then pin_hi PIN_SDIN l else pin_lo PIN_SDIN l"
  have 1: "shifting p0 dc bs d ?l" using shifting_pin [OF s] by simp
  have 2: "bit (PORTC ?l) PIN_SDIN \<longleftrightarrow> b" by (simp add: pin_hi_def pin_lo_def)
  show ?thesis unfolding lcd_shift_bit_def Let_def
    by (rule shifting_clock [OF shifting_pin(3) [OF 1]]) (use 2 in \<open>simp_all add: pin_lo_def\<close>)
qed

lemma bits_val_u8: "bits_val [bit c 0, bit c 1, bit c 2, bit c 3, bit c 4, bit c 5, bit c 6, bit c 7] = (c :: u8)"
proof (rule bit_word_eqI)
  fix n assume "n < LENGTH(8)"
  then consider "n = 0" | "n = 1" | "n = 2" | "n = 3" | "n = 4" | "n = 5" | "n = 6" | "n = 7" by fastforce
  then show "bit (bits_val [bit c 0, bit c 1, bit c 2, bit c 3, bit c 4, bit c 5, bit c 6, bit c 7] :: u8) n = bit c n"
    by cases (simp_all add: bit_bits_val)
qed

lemma and_BV: "c AND BV n \<noteq> 0 \<longleftrightarrow> bit c n"
proof -
  have b: "bit (c AND BV n) m \<longleftrightarrow> m = n \<and> bit c n" for m
    by (auto simp: bit_and_iff bit_BV dest: bit_imp_lt_8)
  show ?thesis
  proof
    assume "bit c n"
    with b [of n] show "c AND BV n \<noteq> 0" by auto
  next
    assume "c AND BV n \<noteq> 0"
    moreover have "\<not> bit c n \<Longrightarrow> c AND BV n = 0" by (rule bit_word_eqI) (simp add: b)
    ultimately show "bit c n" by blast
  qed
qed

text \<open>Selecting the controller and choosing commands or data.\<close>

lemma select_shifting:
  assumes "in_step p0 l"
  shows "shifting p0 dc [] (screen p0 l) (if dc then pin_hi PIN_DC (pin_lo PIN_SCE l) else pin_lo PIN_DC (pin_lo PIN_SCE l))"
  using assms by (simp add: in_step_def shifting_def pin_hi_def pin_lo_def panel_pins_def Let_def)

lemma shift_byte:
  assumes "shifting p0 dc [] d l"
  shows "shifting p0 dc [] (display_byte dc c d) (fold (\<lambda>i. lcd_shift_bit (c AND BV (7 - i) \<noteq> 0)) [0..<8] l)"
proof -
  have *: "[0..<8] = [0, 1, 2, 3, 4, 5, 6, 7::nat]" by (simp add: upt_rec)
  note s = shift_bit [where b = "bit c _"]
  have "shifting p0 dc [] (display_byte dc (bits_val [bit c 0, bit c 1, bit c 2, bit c 3, bit c 4, bit c 5, bit c 6, bit c 7]) d)
     (lcd_shift_bit (bit c 0) (lcd_shift_bit (bit c 1) (lcd_shift_bit (bit c 2) (lcd_shift_bit (bit c 3)
       (lcd_shift_bit (bit c 4) (lcd_shift_bit (bit c 5) (lcd_shift_bit (bit c 6) (lcd_shift_bit (bit c 7) l))))))))"
    using shift_bit [OF shift_bit [OF shift_bit [OF shift_bit [OF shift_bit [OF shift_bit [OF shift_bit [OF shift_bit [OF assms,
      of "bit c 7"], of "bit c 6"], of "bit c 5"], of "bit c 4"], of "bit c 3"], of "bit c 2"], of "bit c 1"], of "bit c 0"]
    by simp
  then show ?thesis by (simp only: bits_val_u8 and_BV) (simp add: *)
qed

text \<open>The line discipline: a byte sent reaches the display as a command or as data.\<close>

lemma send_received:
  assumes "in_step p0 l"
  shows "in_step p0 (hw_lcd_4884_send type c l) \<and>
    screen p0 (hw_lcd_4884_send type c l) = display_byte (type \<noteq> 0) c (screen p0 l)"
proof -
  from shift_byte [OF select_shifting [OF assms], of "type \<noteq> 0" c] show ?thesis
    unfolding hw_lcd_4884_send_def Let_def
    by (cases "type = 0") (simp_all add: shifting_def in_step_def pin_hi_def panel_pins_def Let_def)
qed

lemma send_keeps [simp]:
  "pix_x (hw_lcd_4884_send type c l) = pix_x l" "pix_y (hw_lcd_4884_send type c l) = pix_y l"
  "lcd_clock (hw_lcd_4884_send type c l) = lcd_clock l"
proof -
  have f: "pix_x (fold (\<lambda>i. lcd_shift_bit (b i)) is l) = pix_x l \<and> pix_y (fold (\<lambda>i. lcd_shift_bit (b i)) is l) = pix_y l \<and>
      lcd_clock (fold (\<lambda>i. lcd_shift_bit (b i)) is l) = lcd_clock l" for b :: "nat \<Rightarrow> bool" and "is" l
    by (induction "is" arbitrary: l) (simp_all add: lcd_shift_bit_def pin_hi_def pin_lo_def set_PORTC_def Let_def)
  show "pix_x (hw_lcd_4884_send type c l) = pix_x l" "pix_y (hw_lcd_4884_send type c l) = pix_y l"
    "lcd_clock (hw_lcd_4884_send type c l) = lcd_clock l"
    by (simp_all add: hw_lcd_4884_send_def Let_def f pin_hi_def pin_lo_def set_PORTC_def)
qed

section \<open>What is on the display\<close>

text \<open>A display that takes the basic instructions.\<close>

definition display_at :: "nat \<Rightarrow> nat \<Rightarrow> bytes \<Rightarrow> Display" where
  "display_at x y ram = \<lparr>d_ext = False, d_x = x, d_y = y, d_ram = ram\<rparr>"

text \<open>Columns written within a line; at its end the address moves to the next line.\<close>

lemma mem_write_Nil [simp]: "mem_write a off [] = a"
  by (simp add: mem_write_def)

lemma mem_write_Cons:
  assumes "off + Suc (length cs) \<le> length a"
  shows "mem_write (a[off := c]) (Suc off) cs = mem_write a off (c # cs)"
  using assms by (simp add: mem_write_def take_Suc_update drop_update_cancel)

lemma data_run:
  "x + length cs < 84 \<Longrightarrow> y < 6 \<Longrightarrow> length ram = 504 \<Longrightarrow>
   fold display_data cs (display_at x y ram) = display_at (x + length cs) y (mem_write ram (84 * y + x) cs)"
proof (induction cs arbitrary: x ram)
  case (Cons c cs)
  then have "display_data c (display_at x y ram) = display_at (Suc x) y (ram[84 * y + x := c])"
    by (simp add: display_data_def display_at_def)
  with Cons.IH [of "Suc x" "ram[84 * y + x := c]"] Cons.prems show ?case
    by (simp add: mem_write_Cons)
qed simp

text \<open>A run that fills the rest of a line.\<close>

lemma data_run_full:
  assumes "x + length cs = 84" "cs \<noteq> []" "y < 6" "length ram = 504"
  shows "fold display_data cs (display_at x y ram) =
    display_at 0 (if y = 5 then 0 else Suc y) (mem_write ram (84 * y + x) cs)"
proof -
  obtain bs b where cs: "cs = bs @ [b]" using assms(2) by (cases cs rule: rev_cases) auto
  then have x: "x + length bs = 83" using assms(1) by simp
  have "(mem_write a off bs)[off + length bs := b] = mem_write a off (bs @ [b])"
    if "off + length bs < length a" for a off
    using that by (simp add: mem_write_def list_update_append upd_conv_take_nth_drop Cons_nth_drop_Suc [symmetric])
  from this [of "84 * y + x" ram] x assms(3,4)
  have "(mem_write ram (84 * y + x) bs)[84 * y + 83 := b] = mem_write ram (84 * y + x) (bs @ [b])"
    by (simp add: add.assoc)
  then show ?thesis using data_run [of x bs y ram] assms x
    by (auto simp: cs display_data_def display_at_def)
qed

text \<open>The lines of the display.\<close>

definition d_line :: "Display \<Rightarrow> nat \<Rightarrow> bytes" where
  "d_line d r = take 84 (drop (84 * r) (d_ram d))"

lemma mem_write_line:
  assumes "length ram = 504" "length cs = 84" "y < 6" "r < 6"
  shows "take 84 (drop (84 * r) (mem_write ram (84 * y) cs)) = (if r = y then cs else take 84 (drop (84 * r) ram))"
proof (cases r y rule: linorder_cases)
  case less
  then have "84 * r + 84 \<le> 84 * y" by simp
  with less assms show ?thesis
    by (auto simp: mem_write_def drop_take)
next
  case equal
  with assms show ?thesis by (simp add: mem_write_def)
next
  case greater
  then have "84 * y + 84 \<le> 84 * r" by simp
  with greater assms show ?thesis
    by (simp add: mem_write_def)
qed

section \<open>The driver on the display\<close>

text \<open>The columns of a text: a blank one before each character that can be printed.\<close>

definition lcd_printable :: "u8 \<Rightarrow> bool" where
  "lcd_printable c \<longleftrightarrow> 0x20 \<le> c \<and> c < 0x80"

definition glyph_cols :: "u8 \<Rightarrow> bytes" where
  "glyph_cols c = 0 # charset ! unat (c - 0x20)"

definition text_cols :: "bytes \<Rightarrow> bytes" where
  "text_cols cs = concat (map glyph_cols (filter lcd_printable cs))"

definition text_row :: "bytes \<Rightarrow> bytes" where
  "text_row cs = text_cols cs @ replicate (84 - length (text_cols cs)) 0"

lemma charset_rows: "length charset = 96" "list_all (\<lambda>g. length g = 5) charset"
  by (simp_all add: charset_def)

lemma length_glyph_cols: "lcd_printable c \<Longrightarrow> length (glyph_cols c) = 6"
proof -
  assume "lcd_printable c"
  then have "unat (c - 0x20) < length charset"
    by (auto simp: lcd_printable_def charset_rows unat_sub word_le_nat_alt word_less_nat_alt)
  then have "length (charset ! unat (c - 0x20)) = 5" using charset_rows(2) by (simp add: list_all_length)
  then show ?thesis by (simp add: glyph_cols_def)
qed

lemma length_text_cols: "length (text_cols cs) = 6 * length (filter lcd_printable cs)"
  by (induction cs) (simp_all add: text_cols_def length_glyph_cols)

text \<open>What an operation that only sends does.\<close>

definition on_panel :: "Panel \<Rightarrow> Lcd \<Rightarrow> Display \<Rightarrow> bool" where
  "on_panel p0 l d \<longleftrightarrow> in_step p0 l \<and> screen p0 l = d"

lemma on_panel_other [simp]:
  "on_panel p0 (l\<lparr>pix_x := x\<rparr>) d = on_panel p0 l d" "on_panel p0 (l\<lparr>pix_y := y\<rparr>) d = on_panel p0 l d"
  by (simp_all add: on_panel_def)

lemma CMD_shows: "on_panel p0 l d \<Longrightarrow> on_panel p0 (HW_LCD_CMD c l) (display_cmd c d)"
  using send_received [of p0 l 0 c] by (simp add: on_panel_def HW_LCD_CMD_def PCD8544_CMD_def display_byte_def)

lemma DATA_shows: "on_panel p0 l d \<Longrightarrow> on_panel p0 (HW_LCD_DATA c l) (display_data c d)"
  using send_received [of p0 l 1 c] by (simp add: on_panel_def HW_LCD_DATA_def PCD8544_DATA_def display_byte_def)

lemma DATAs_shows: "on_panel p0 l d \<Longrightarrow> on_panel p0 (fold HW_LCD_DATA cs l) (fold display_data cs d)"
  by (induction cs arbitrary: l d) (simp_all add: DATA_shows)

lemma zeros_shows:
  "on_panel p0 l d \<Longrightarrow> on_panel p0 (fold (\<lambda>i. HW_LCD_DATA 0) [0..<n] l) (fold display_data (replicate n 0) d)"
proof (induction n)
  case (Suc n)
  have "fold display_data (replicate (Suc n) 0) d = display_data 0 (fold display_data (replicate n 0) d)"
    by (simp add: replicate_append_same [symmetric] del: replicate_Suc)
  with Suc show ?case by (simp add: DATA_shows)
qed simp

lemma lcd_sends_keep [simp]:
  "pix_x (HW_LCD_CMD c l) = pix_x l" "pix_y (HW_LCD_CMD c l) = pix_y l" "lcd_clock (HW_LCD_CMD c l) = lcd_clock l"
  "pix_x (HW_LCD_DATA c l) = pix_x l" "pix_y (HW_LCD_DATA c l) = pix_y l" "lcd_clock (HW_LCD_DATA c l) = lcd_clock l"
  by (simp_all add: HW_LCD_CMD_def HW_LCD_DATA_def)

lemma DATAs_keep [simp]:
  "pix_x (fold HW_LCD_DATA cs l) = pix_x l" "pix_y (fold HW_LCD_DATA cs l) = pix_y l"
  by (induction cs arbitrary: l) simp_all

lemma zeros_keep [simp]:
  "pix_x (fold (\<lambda>i. HW_LCD_DATA 0) is l) = pix_x l" "pix_y (fold (\<lambda>i. HW_LCD_DATA 0) is l) = pix_y l"
  by (induction "is" arbitrary: l) simp_all

text \<open>The cursor.\<close>

lemma cmd_x:
  assumes "unat x < 84"
  shows "display_cmd (0x80 OR x) (display_at x' y ram) = display_at (unat x) y ram"
proof -
  have m: "take_bit 7 x = x" using assms by (simp add: word_unat_eq_iff unsigned_take_bit_eq take_bit_nat_eq_self)
  have "(0x80 OR x) AND 0x7f = take_bit 7 (0x80 OR x)" by (simp add: take_bit_eq_mask mask_eq_exp_minus_1)
  also have "\<dots> = x" by (simp only: take_bit_or m) simp
  finally have a: "(0x80 OR x) AND 0x7f = x" .
  have b: "bit (0x80 OR x) 7" by (simp add: bit_or_iff)
  have "bit ((0x80 OR x) AND 0xf8) 7" by (simp add: bit_and_iff bit_or_iff)
  moreover have "\<not> bit (0x20 :: u8) 7" by simp
  ultimately have "(0x80 OR x) AND 0xf8 \<noteq> 0x20" by metis
  with a b show ?thesis by (simp add: display_cmd_def display_at_def)
qed

lemma cmd_y:
  assumes "unat y < 6"
  shows "display_cmd (0x40 OR y) (display_at x y' ram) = display_at x (unat y) ram"
proof -
  have "display_cmd (0x40 OR word_of_nat n) (display_at x y' ram) = display_at x n ram" if "n < 6" for n
  proof -
    from that have "n = 0 \<or> n = 1 \<or> n = 2 \<or> n = 3 \<or> n = 4 \<or> n = 5" by arith
    then show ?thesis by (elim disjE) (simp_all add: display_cmd_def display_at_def)
  qed
  from this [OF assms] show ?thesis by simp
qed

lemma setCursor_on_panel:
  assumes "on_panel p0 l (display_at x' y' ram)" "unat x < 84" "unat y < 6"
  shows "on_panel p0 (lcd_4884_setCursor x y l) (display_at (unat x) (unat y) ram)"
    "pix_x (lcd_4884_setCursor x y l) = x" "pix_y (lcd_4884_setCursor x y l) = y"
proof -
  have [simp]: "x mod 84 = x" "y mod 48 = y"
    using assms(2,3) by (simp_all add: word_unat_eq_iff unat_mod_distrib)
  show "on_panel p0 (lcd_4884_setCursor x y l) (display_at (unat x) (unat y) ram)"
    using CMD_shows [OF CMD_shows, of p0 "l\<lparr>pix_x := x, pix_y := y\<rparr>" "display_at x' y' ram" "0x40 OR y" "0x80 OR x"] assms
    by (simp add: lcd_4884_setCursor_def lcd_width_def lcd_height_def Let_def cmd_x cmd_y)
qed (simp_all add: lcd_4884_setCursor_def lcd_width_def lcd_height_def Let_def word_unat_eq_iff unat_mod_distrib
      assms(2,3) order.strict_trans [OF assms(3)])

lemma zero_line:
  "y < 6 \<Longrightarrow> length ram = 504 \<Longrightarrow>
   fold display_data (replicate 84 0) (display_at 0 y ram) =
     display_at 0 (if y = 5 then 0 else Suc y) (mem_write ram (84 * y) (replicate 84 0))"
  using data_run_full [of 0 "replicate 84 0" y ram] by simp

lemma clearLine_on_panel:
  assumes "on_panel p0 l (display_at x' y' ram)" "unat y < 6" "length ram = 504"
  shows "on_panel p0 (lcd_4884_clearLine y l) (display_at 0 (unat y) (mem_write ram (84 * unat y) (replicate 84 0)))"
    "pix_x (lcd_4884_clearLine y l) = 0" "pix_y (lcd_4884_clearLine y l) = y"
proof -
  note c = setCursor_on_panel [OF assms(1), of 0 y, simplified, OF assms(2)]
  note z = zeros_shows [OF c(1), of 84, unfolded zero_line [OF assms(2,3)]]
  note d = setCursor_on_panel [OF z, of 0 y, simplified, OF assms(2)]
  show "on_panel p0 (lcd_4884_clearLine y l) (display_at 0 (unat y) (mem_write ram (84 * unat y) (replicate 84 0)))"
    "pix_x (lcd_4884_clearLine y l) = 0" "pix_y (lcd_4884_clearLine y l) = y"
    using d by (simp_all add: lcd_4884_clearLine_def lcd_width_def Let_def)
qed

lemma not_lcd_printable: "0x80 \<le> c \<or> c < 0x20 \<longleftrightarrow> \<not> lcd_printable c"
  by (auto simp: lcd_printable_def not_le not_less)

lemma write_unprintable: "\<not> lcd_printable c \<Longrightarrow> lcd_4884_write c l = l"
  by (simp add: lcd_4884_write_def not_lcd_printable)

lemma write_printable:
  "lcd_printable c \<Longrightarrow> lcd_4884_write c l =
     (let m = (fold HW_LCD_DATA (glyph_cols c) l)\<lparr>pix_x := of_nat ((unat (pix_x l) + 6) mod 84)\<rparr>
      in if pix_x m = 0 then m\<lparr>pix_y := of_nat ((unat (pix_y l) + 1) mod 48)\<rparr> else m)"
  by (simp add: lcd_4884_write_def not_lcd_printable glyph_cols_def lcd_width_def lcd_height_def Let_def)

lemma write_on_panel:
  "on_panel p0 l d \<Longrightarrow> on_panel p0 (lcd_4884_write c l) (fold display_data (if lcd_printable c then glyph_cols c else []) d)"
  using DATAs_shows [of p0 l d "glyph_cols c"]
  by (cases "lcd_printable c") (simp_all add: write_printable write_unprintable Let_def)

lemma writes_on_panel:
  "on_panel p0 l d \<Longrightarrow> on_panel p0 (fold lcd_4884_write cs l) (fold display_data (text_cols cs) d)"
proof (induction cs arbitrary: l d)
  case (Cons c cs)
  from Cons.IH [OF write_on_panel [OF Cons.prems, of c]] show ?case
    by (cases "lcd_printable c") (simp_all add: text_cols_def)
qed (simp add: text_cols_def)

text \<open>The driver's own cursor: six columns for each character, the next line after the last column.\<close>

lemma writes_pix:
  "unat (pix_x l) = 6 * k \<Longrightarrow> k + length (filter lcd_printable cs) \<le> 14 \<Longrightarrow> k < 14 \<Longrightarrow> unat (pix_y l) < 47 \<Longrightarrow>
   unat (pix_x (fold lcd_4884_write cs l)) = 6 * (k + length (filter lcd_printable cs)) mod 84 \<and>
   unat (pix_y (fold lcd_4884_write cs l)) =
     unat (pix_y l) + (if k + length (filter lcd_printable cs) = 14 then 1 else 0)"
proof (induction cs arbitrary: l k)
  case (Cons c cs)
  show ?case
  proof (cases "lcd_printable c")
    case False
    with Cons show ?thesis by (simp add: write_unprintable)
  next
    case True
    note w = write_printable [OF this, of l, unfolded Cons.prems(1)]
    show ?thesis
    proof (cases "k = 13")
      case True
      then have "filter lcd_printable cs = []" using Cons.prems(2) \<open>lcd_printable c\<close> by simp
      moreover have "fold lcd_4884_write cs m = m" if "filter lcd_printable cs = []" for m cs
        using that by (induction cs) (auto simp: write_unprintable split: if_splits)
      ultimately show ?thesis using True \<open>lcd_printable c\<close> Cons.prems(4)
        by (simp add: w Let_def unat_of_nat unat_word_ariths)
    next
      case False
      then have k: "k < 13" using Cons.prems(3) by simp
      define v where "v = (of_nat ((6 * k + 6) mod 84) :: u8)"
      have v: "unat v = 6 * Suc k" using k by (simp only: v_def unat_of_nat) simp
      then have "v \<noteq> 0" by auto
      with v have "pix_y (lcd_4884_write c l) = pix_y l \<and> unat (pix_x (lcd_4884_write c l)) = 6 * Suc k"
        unfolding w by (simp add: Let_def v_def [symmetric])
      with Cons.IH [of "lcd_4884_write c l" "Suc k"] Cons.prems True k show ?thesis by simp
    qed
  qed
qed simp

lemma writeString_on_panel:
  assumes "on_panel p0 l (display_at x' y' ram)" "unat y < 6" "length ram = 504"
  shows "\<exists>x'' y''. on_panel p0 (lcd_4884_writeString s y l)
      (display_at x'' y'' (mem_write ram (84 * unat y) (text_row (take 14 (c_str s))))) \<and> x'' < 84 \<and> y'' < 6"
proof -
  let ?cs = "take 14 (c_str s)" and ?y = "unat y"
  have n: "length (text_cols ?cs) \<le> 84"
    using length_filter_le [of lcd_printable ?cs] by (simp add: length_text_cols)
  note a = clearLine_on_panel(1) [OF setCursor_on_panel(1) [OF assms(1), of 0 y, simplified, OF assms(2)] assms(2,3)]
  let ?r = "mem_write ram (84 * ?y) (replicate 84 0)"
  have r: "length ?r = 504" using assms(2,3) by simp
  have m: "mem_write ?r (84 * ?y) (text_cols ?cs) = mem_write ram (84 * ?y) (text_row ?cs)"
    using n assms(2,3) by (simp add: mem_write_def text_row_def min_def)
  have w: "on_panel p0 (lcd_4884_writeString s y l) (fold display_data (text_cols ?cs) (display_at 0 ?y ?r))"
    using writes_on_panel [OF a, of ?cs] by (simp add: lcd_4884_writeString_def Let_def)
  show ?thesis
  proof (cases "length (text_cols ?cs) = 84")
    case True
    then have "text_cols ?cs \<noteq> []" by auto
    from w [unfolded data_run_full [of 0 "text_cols ?cs", simplified, OF True this assms(2) r] m] assms(2)
    show ?thesis by (intro exI [of _ 0] exI [of _ "if ?y = 5 then 0 else Suc ?y"] conjI) auto
  next
    case False
    with n have "0 + length (text_cols ?cs) < 84" by simp
    from w [unfolded data_run [OF this assms(2) r]] m this assms(2)
    show ?thesis by (intro exI [of _ "length (text_cols ?cs)"] exI [of _ ?y] conjI) auto
  qed
qed

text \<open>Initialisation: the controller is reset, left with the basic instructions, and blank.\<close>

lemma zero_lines:
  "n < 6 \<Longrightarrow> length ram = 504 \<Longrightarrow>
   fold display_data (replicate (84 * n) 0) (display_at 0 0 ram) = display_at 0 n (replicate (84 * n) 0 @ drop (84 * n) ram)"
proof (induction n)
  case (Suc n)
  let ?r = "replicate (84 * n) 0 @ drop (84 * n) ram"
  have "replicate (84 * Suc n) (0 :: u8) = replicate (84 * n) 0 @ replicate 84 0"
    by (simp add: replicate_add [symmetric] add.commute)
  moreover have "mem_write ?r (84 * n) (replicate 84 0) = replicate (84 * Suc n) 0 @ drop (84 * Suc n) ram"
    using Suc.prems by (simp add: mem_write_def replicate_add [symmetric] add.commute)
  ultimately show ?case using Suc zero_line [of n ?r] by simp
qed simp

lemma zero_all:
  assumes "length ram = 504"
  shows "fold display_data (replicate 504 0) (display_at 0 0 ram) = display_at 0 0 (replicate 504 0)"
proof -
  have "replicate 504 (0 :: u8) = replicate (84 * 5) 0 @ replicate 84 0" by (simp add: replicate_add [symmetric])
  moreover have "mem_write (replicate 420 0 @ drop 420 ram) 420 (replicate 84 0) = replicate 504 0"
    using assms by (simp add: mem_write_def replicate_add [symmetric])
  ultimately show ?thesis using zero_lines [of 5 ram] zero_line [of 5 "replicate 420 0 @ drop 420 ram"] assms by simp
qed

lemma clear_on_panel:
  assumes "on_panel p0 l (display_at x y ram)" "length ram = 504"
  shows "on_panel p0 (lcd_4884_clear l) (display_at 0 0 (replicate 504 0))"
proof -
  note a = zeros_shows [OF setCursor_on_panel(1) [OF assms(1), of 0 0, simplified], of 504, unfolded zero_all [OF assms(2)]]
  from setCursor_on_panel(1) [OF a, of 0 0] show ?thesis
    by (simp add: lcd_4884_clear_def lcd_width_def lcd_height_def Let_def)
qed

lemma init_on_panel:
  assumes "length (d_ram (screen p0 l)) = 504"
  shows "\<exists>l'. lcd_4884_init l = Some l' \<and> on_panel p0 l' (display_at 0 0 (replicate 504 0))"
proof -
  let ?d = "display_at 0 0 (d_ram (screen p0 l))"
  have delay: "0 \<le> sint ms \<Longrightarrow> lcd_delay ms m = Some (m\<lparr>lcd_clock := lcd_clock m + ms\<rparr>)" for ms m
    by (simp add: lcd_delay_def timer_delay_returns)
  have b: "bit (PORTC l OR 62) PIN_RESET" "bit (PORTC l OR 62) PIN_SCE" by (simp_all add: pin_defs bit_or_iff)
  obtain l3 where l3: "lcd_4884_init l = Some (pin_lo PIN_SCE (HW_LCD_CMD 0x0c (lcd_4884_clear
      (fold HW_LCD_CMD [0x21, 0xc0, 0x06, 0x13, 0x20] l3))))" "on_panel p0 l3 ?d"
    using b by (auto simp: lcd_4884_init_def delay Let_def HW_LCD_INIT_def pin_hi_def pin_lo_def on_panel_def in_step_def
        panel_pins_def display_at_def)
  have "on_panel p0 (fold HW_LCD_CMD cs m) (fold display_cmd cs d)" if "on_panel p0 m d" for cs m d
    using that by (induction cs arbitrary: m d) (simp_all add: CMD_shows)
  from this [OF l3(2), of "[0x21, 0xc0, 0x06, 0x13, 0x20]"]
  have "on_panel p0 (fold HW_LCD_CMD [0x21, 0xc0, 0x06, 0x13, 0x20] l3) ?d"
    by (simp add: display_cmd_def display_at_def)
  from CMD_shows [OF clear_on_panel [OF this assms], where c = "0x0c"]
  have "on_panel p0 (HW_LCD_CMD 0x0c (lcd_4884_clear (fold HW_LCD_CMD [0x21, 0xc0, 0x06, 0x13, 0x20] l3)))
      (display_at 0 0 (replicate 504 0))"
    by (simp add: display_cmd_def display_at_def)
  then show ?thesis
    unfolding l3(1) by (auto simp: on_panel_def in_step_def pin_lo_def panel_pins_def Let_def)
qed

text \<open>Any number of texts: each line shows the last one written to it.\<close>

lemma writeStrings_on_panel:
  assumes "on_panel p0 l (display_at x y ram)" "length ram = 504" "\<forall>(s, line) \<in> set ws. unat line < 6"
  shows "\<exists>x' y' ram'. on_panel p0 (fold (\<lambda>(s, line). lcd_4884_writeString s line) ws l) (display_at x' y' ram') \<and>
      length ram' = 504 \<and>
      map (\<lambda>r. take 84 (drop (84 * r) ram')) [0..<6] =
        fold (\<lambda>(s, line) rows. rows[unat line := text_row (take 14 (c_str s))]) ws (map (\<lambda>r. take 84 (drop (84 * r) ram)) [0..<6])"
  using assms
proof (induction ws arbitrary: l x y ram)
  case Nil
  then show ?case by auto
next
  case (Cons w ws)
  obtain s line where w: "w = (s, line)" by (cases w)
  let ?t = "text_row (take 14 (c_str s))"
  have line: "unat line < 6" using Cons.prems(3) by (simp add: w)
  have t: "length ?t = 84"
    using length_filter_le [of lcd_printable "take 14 (c_str s)"] by (simp add: text_row_def length_text_cols)
  obtain x1 y1 where 1: "on_panel p0 (lcd_4884_writeString s line l) (display_at x1 y1 (mem_write ram (84 * unat line) ?t))"
    using writeString_on_panel [OF Cons.prems(1) line Cons.prems(2)] by blast
  have len: "length (mem_write ram (84 * unat line) ?t) = 504" using t line Cons.prems(2) by simp
  have "map (\<lambda>r. take 84 (drop (84 * r) (mem_write ram (84 * unat line) ?t))) [0..<6] =
      (map (\<lambda>r. take 84 (drop (84 * r) ram)) [0..<6])[unat line := ?t]"
    using mem_write_line [OF Cons.prems(2) t line] by (intro nth_equalityI) (auto simp: nth_list_update)
  with Cons.IH [OF 1 len] Cons.prems(3) show ?case by (simp add: w)
qed

text \<open>The cursor the driver keeps and the address of the controller after a text.\<close>

lemma writeString_addresses:
  assumes "on_panel p0 l (display_at x' y' ram)" "unat y < 6" "length ram = 504"
    and k: "k = length (filter lcd_printable (take 14 (c_str s)))" and l': "l' = lcd_4884_writeString s y l"
  shows "unat (pix_x l') = 6 * k mod 84" "unat (pix_y l') = unat y + (if k = 14 then 1 else 0)"
    "d_x (screen p0 l') = 6 * k mod 84"
    "d_y (screen p0 l') = (if k = 14 then if unat y = 5 then 0 else unat y + 1 else unat y)"
proof -
  let ?cs = "take 14 (c_str s)" and ?y = "unat y"
  let ?l = "lcd_4884_clearLine y (lcd_4884_setCursor 0 y l)" and ?r = "mem_write ram (84 * unat y) (replicate 84 0)"
  note c = clearLine_on_panel [OF setCursor_on_panel(1) [OF assms(1), of 0 y, simplified, OF assms(2)] assms(2,3)]
  have s: "l' = fold lcd_4884_write ?cs ?l" by (simp add: l' lcd_4884_writeString_def Let_def)
  have n: "k \<le> 14" using length_filter_le [of lcd_printable ?cs] by (simp add: k)
  show "unat (pix_x l') = 6 * k mod 84" "unat (pix_y l') = unat y + (if k = 14 then 1 else 0)"
    unfolding s using writes_pix [of ?l 0 ?cs] c(2,3) n assms(2) by (simp_all add: k)
  have r: "length ?r = 504" using assms(2,3) by simp
  have p: "screen p0 l' = fold display_data (text_cols ?cs) (display_at 0 ?y ?r)"
    unfolding s using writes_on_panel [OF c(1), of ?cs] by (simp add: on_panel_def)
  have cols: "length (text_cols ?cs) = 6 * k" by (simp add: length_text_cols k)
  have "d_x (screen p0 l') = 6 * k mod 84 \<and>
      d_y (screen p0 l') = (if k = 14 then if ?y = 5 then 0 else ?y + 1 else ?y)"
  proof (cases "k = 14")
    case True
    then have "text_cols ?cs \<noteq> []" using cols by auto
    with data_run_full [of 0 "text_cols ?cs" ?y ?r] r assms(2) cols True show ?thesis
      unfolding p by (simp add: display_at_def)
  next
    case False
    with n data_run [of 0 "text_cols ?cs" ?y ?r] r assms(2) cols show ?thesis
      unfolding p by (simp add: display_at_def)
  qed
  then show "d_x (screen p0 l') = 6 * k mod 84"
    "d_y (screen p0 l') = (if k = 14 then if ?y = 5 then 0 else ?y + 1 else ?y)" by simp_all
qed

text \<open>They agree, except when the last line is filled: then the driver counts on to a line that does not exist.\<close>

lemma writeString_cursor:
  assumes "on_panel p0 l (display_at x' y' ram)" "unat y < 6" "length ram = 504"
  shows "unat (pix_x (lcd_4884_writeString s y l)) = d_x (screen p0 (lcd_4884_writeString s y l)) \<and>
    (unat (pix_y (lcd_4884_writeString s y l)) = d_y (screen p0 (lcd_4884_writeString s y l)) \<longleftrightarrow>
      \<not> (unat y = 5 \<and> length (filter lcd_printable (take 14 (c_str s))) = 14))"
  using writeString_addresses [OF assms refl refl, of s] by simp

section \<open>Properties\<close>

text \<open>
  C40. After the initialisation of the display, whatever the controller held before, and any sequence of texts written to
  lines of the display, the pixels of every line are the character columns of the first fourteen characters of the text
  last written to that line, blank to its end, and a line nothing was written to is blank.
\<close>

theorem lcd_shows_texts:
  assumes "length (d_ram (screen p0 l)) = 504" "\<forall>(s, line) \<in> set ws. unat line < 6"
  shows "\<exists>l0. lcd_4884_init l = Some l0 \<and>
    map (d_line (screen p0 (fold (\<lambda>(s, line). lcd_4884_writeString s line) ws l0))) [0..<6] =
      fold (\<lambda>(s, line) rows. rows[unat line := text_row (take 14 (c_str s))]) ws (replicate 6 (replicate 84 0))"
proof -
  obtain l0 where 0: "lcd_4884_init l = Some l0" "on_panel p0 l0 (display_at 0 0 (replicate 504 0))"
    using init_on_panel [OF assms(1)] by blast
  have "take 84 (drop (84 * r) (replicate 504 (0 :: u8))) = replicate 84 0" if "r < 6" for r
    using that by (simp add: min_def)
  then have blank: "map (\<lambda>r. take 84 (drop (84 * r) (replicate 504 (0 :: u8)))) [0..<6] = replicate 6 (replicate 84 0)"
    by (intro nth_equalityI) simp_all
  from writeStrings_on_panel [OF 0(2) _ assms(2), unfolded blank] 0(1) show ?thesis
    by (auto simp: on_panel_def d_line_def [abs_def] display_at_def)
qed

theorem lcd_shows_texts_witness:
  "\<exists>l0. lcd_4884_init \<lparr>DDRC = 0, PORTC = 0, port_trace = [], pix_x = 0, pix_y = 0, lcd_clock = 0\<rparr> = Some l0 \<and>
    d_line (screen \<lparr>p_pins = 0, p_shift = [], p_disp = \<lparr>d_ext = True, d_x = 7, d_y = 3, d_ram = replicate 504 0xaa\<rparr>\<rparr>
      (lcd_4884_writeString (str ''HI'' @ [0]) 2 (lcd_4884_writeString (str ''first'' @ [0]) 2 l0))) 2 =
    [0, 0x7f, 8, 8, 8, 0x7f, 0, 0, 0x41, 0x7f, 0x41, 0] @ replicate 72 0"
proof -
  let ?l = "\<lparr>DDRC = 0, PORTC = 0, port_trace = [], pix_x = 0, pix_y = 0, lcd_clock = 0\<rparr>"
  let ?p = "\<lparr>p_pins = 0, p_shift = [], p_disp = \<lparr>d_ext = True, d_x = 7, d_y = 3, d_ram = replicate 504 0xaa\<rparr>\<rparr>"
  have "length (d_ram (screen ?p ?l)) = 504" by (simp add: panel_of_def)
  then obtain l0 where l0: "lcd_4884_init ?l = Some l0"
    "map (d_line (screen ?p (lcd_4884_writeString (str ''HI'' @ [0]) 2 (lcd_4884_writeString (str ''first'' @ [0]) 2 l0)))) [0..<6] =
      (replicate 6 (replicate 84 0))[2 := text_row (take 14 (c_str (str ''first'' @ [0]))), 2 := text_row (take 14 (c_str (str ''HI'' @ [0])))]"
    using lcd_shows_texts [of ?p ?l "[(str ''first'' @ [0], 2), (str ''HI'' @ [0], 2)]"] by auto
  have "text_row (take 14 (c_str (str ''HI'' @ [0]))) = [0, 0x7f, 8, 8, 8, 0x7f, 0, 0, 0x41, 0x7f, 0x41, 0] @ replicate 72 0"
    by (simp add: text_row_def text_cols_def glyph_cols_def lcd_printable_def c_str_def str_def charset_def)
  with arg_cong [OF l0(2), of "\<lambda>xs. xs ! 2"] l0(1) show ?thesis by (simp add: numeral_2_eq_2)
qed

end
