(* ===== verification/Firmware.thy ===== *)
theory Firmware
  imports Softser
begin

text \<open>
  The main program of \<^verbatim>\<open>TinyAPRS/main.c\<close> in the image with all modules: the run modes, the callback for received
  messages, the mode commands, the initialisation and one turn of the main loop. A turn gets what comes from
  outside it: the stack contents a message is decoded over (\<open>msg0\<close>), the turns of the carrier sense
  loop (\<open>env\<close>), the time a beacon takes (\<open>busy\<close>) and the floating point operations (\<open>F\<close>).
\<close>

section \<open>Run modes\<close>

datatype RunMode = MODE_CFG | MODE_KISS | MODE_TRACKER | MODE_DIGI | MODE_TEST_BEACON

fun mode_code :: "RunMode \<Rightarrow> u8" where
  "mode_code MODE_CFG = 0"
| "mode_code MODE_KISS = 1"
| "mode_code MODE_TRACKER = 2"
| "mode_code MODE_DIGI = 3"
| "mode_code MODE_TEST_BEACON = 0xf"

record 'f Main = "'f Radio" +
  currentMode :: RunMode
  run_start :: i32

section \<open>Callbacks\<close>

text \<open>The callback for a frame from the radio. In the pass-through mode of the AX.25 layer it is called
  without a message, and printing or repeating that is undefined (\<open>None\<close>).\<close>

definition ax25_msg_callback :: "(Afsk, ('f, 'a) Main_scheme) ax_hook" where
  "ax25_msg_callback msg s =
     (let (ctx, af, w) = s
      in case currentMode w of
           MODE_CFG \<Rightarrow> (case msg of None \<Rightarrow> None | Some msg \<Rightarrow> on_globals (g_print_msg msg) s)
         | MODE_KISS \<Rightarrow> on_globals (kiss_send_to_serial 0 0 (take (frm_len ctx - 2) (ax_buf ctx))) s
         | MODE_DIGI \<Rightarrow> (case msg of None \<Rightarrow> None | Some msg \<Rightarrow> map_option snd (digi_handle_aprs_message msg s))
         | _ \<Rightarrow> Some s)"

definition kiss_mode_exit_callback :: "('f, 'a) Main_scheme \<Rightarrow> ('f, 'a) Main_scheme option" where
  "kiss_mode_exit_callback w = g_printf (str ''Exit KISS mode'' @ [13, 10]) [] (w\<lparr>currentMode := MODE_CFG\<rparr>)"

definition beacon_mode_exit_callback :: "('f, 'a) Main_scheme \<Rightarrow> ('f, 'a) Main_scheme option" where
  "beacon_mode_exit_callback w = g_printf (str ''Exit Beacon mode'' @ [13, 10]) [] (w\<lparr>currentMode := MODE_CFG\<rparr>)"

section \<open>Mode commands\<close>

text \<open>The entry of a mode by number; \<open>None\<close> inside if there is no such mode.\<close>

definition enter_mode :: "u16 \<Rightarrow> ('f, 'a) Main_scheme tnc \<Rightarrow> ('f, 'a) Main_scheme tnc option option" where
  "enter_mode i s =
     (let (ctx, af, w) = s
      in if i = 0 then
           Some (on_globals (\<lambda>w. g_printf (str ''Enter Config mode'' @ [13, 10]) [] (g_purge (w\<lparr>currentMode := MODE_CFG\<rparr>)))
                   (ctx\<lparr>pass_through := False\<rparr>, af, w))
         else if i = 1 then
           Some (on_globals (\<lambda>w. g_printf (str ''Enter KISS mode'' @ [13, 10]) [] (g_purge (w\<lparr>currentMode := MODE_KISS\<rparr>)))
                   (ctx\<lparr>pass_through := True\<rparr>, af, w))
         else if i = 2 then
           Some (on_globals (\<lambda>w. do { w \<leftarrow> g_printf (str ''Enter Tracker mode'' @ [13, 10]) [] (w\<lparr>currentMode := MODE_TRACKER\<rparr>);
                                     w \<leftarrow> g_flush w;
                                     tracker_init_gps (g_purge w) }) s)
         else if i = 3 then
           Some (on_globals (\<lambda>w. g_printf (str ''Enter Digi mode'' @ [13, 10]) [] (w\<lparr>currentMode := MODE_DIGI\<rparr>))
                   (ctx\<lparr>pass_through := False\<rparr>, af, w))
         else None)"

text \<open>Saving the mode when it differs from the stored one.\<close>

definition save_mode :: "('f, 'a) Main_scheme \<Rightarrow> ('f, 'a) Main_scheme option" where
  "save_mode w =
     (if mode_code (currentMode w) \<noteq> run_mode (g_settings w)
      then map_option snd (settings_save (settings_set_params SETTINGS_RUN_MODE [mode_code (currentMode w)] w))
      else Some w)"

definition cmd_switch_mode :: "bytes \<Rightarrow> nat \<Rightarrow> ('f, 'a) Main_scheme tnc \<Rightarrow> (bool \<times> ('f, 'a) Main_scheme tnc) option" where
  "cmd_switch_mode val len s =
     (let w = snd (snd s)
      in if 0 < len then
           let i = c_atoi val
           in if i = ucast (mode_code (currentMode w)) \<and> i = ucast (run_mode (g_settings w)) then Some (True, s)
              else case enter_mode i s of
                     Some r \<Rightarrow> do { s \<leftarrow> r; s \<leftarrow> on_globals save_mode s; Some (True, s) }
                   | None \<Rightarrow>
                       do { s \<leftarrow> on_globals (g_printf (str ''Invalid mode %s, [0|1|2|3] is accepted'' @ [13, 10]) [P (Some val)]) s;
                            Some (True, s) }
         else
           do { s \<leftarrow> on_globals (g_printf (str ''Current mode %d/%d'' @ [13, 10])
                       [W (ucast (mode_code (currentMode w))), W (ucast (run_mode (g_settings w)))]) s;
                Some (True, s) })"

definition cmd_enter_kiss_mode :: "bytes \<Rightarrow> nat \<Rightarrow> ('f, 'a) Main_scheme tnc \<Rightarrow> (bool \<times> ('f, 'a) Main_scheme tnc) option" where
  "cmd_enter_kiss_mode val len s = cmd_switch_mode (str ''1'' @ [0]) 1 s"

definition main_handlers :: "('f, 'a) Main_scheme ext_handlers" where
  "main_handlers h val len s =
     (case h of h_switch_mode \<Rightarrow> cmd_switch_mode val len s | h_enter_kiss_mode \<Rightarrow> cmd_enter_kiss_mode val len s | _ \<Rightarrow> None)"

definition check_run_mode :: "('f, 'a) Main_scheme tnc \<Rightarrow> ('f, 'a) Main_scheme tnc option" where
  "check_run_mode s =
     (let (ctx, af, w) = s
      in if mode_code (currentMode w) = run_mode (g_settings w) then Some s
         else if run_start w = 0 then Some (ctx, af, w\<lparr>run_start := clock w\<rparr>)
         else if sint (ms_to_ticks 10000) < sint (clock w - run_start w)
         then map_option snd (cmd_switch_mode [run_mode (g_settings w) + 48, 0] 1 s)
         else Some s)"

section \<open>The program\<close>

definition SER_DEFAULT_BAUD_RATE :: nat where "SER_DEFAULT_BAUD_RATE = 115200"

text \<open>From the state after a reset: the EEPROM and the static variables.\<close>

definition main_init :: "('f, 'a) Main_scheme \<Rightarrow> ('f, 'a) Main_scheme tnc option" where
  "main_init w =
     (let w = w\<lparr>g_serial := ser_setbaudrate SER_DEFAULT_BAUD_RATE (ser_init 0), g_serialreader := serialreader_init\<rparr>
      in do { (_, w) \<leftarrow> settings_load w;
              let af = afsk_init 0 0;
              let ctx = ax25_init\<lparr>pass_through := False\<rparr>;
              let w = digi_init (beacon_init (kiss_init w));
              w \<leftarrow> radio_init 4310400 w;
              (ctx, af, w) \<leftarrow> console_init (ctx, af, w);
              let w = console_add_command (str ''MODE'') h_switch_mode w;
              let w = console_add_command (str ''KISS'') h_enter_kiss_mode w;
              Some (ctx, af, w) })"

definition main_turn ::
  "'f floats \<Rightarrow> AX25Msg \<Rightarrow> csma_turn list \<Rightarrow> i32 \<Rightarrow> ('f, 'a) Main_scheme tnc \<Rightarrow> ('f, 'a) Main_scheme tnc option" where
  "main_turn F msg0 env busy s =
     do { s \<leftarrow> ax25_poll afsk_fd (Some ax25_msg_callback) msg0 s;
          s \<leftarrow> check_run_mode s;
          (case currentMode (snd (snd s)) of
             MODE_CFG \<Rightarrow> do { s \<leftarrow> console_poll main_handlers busy s; beacon_broadcast_poll busy s }
           | MODE_TRACKER \<Rightarrow> tracker_poll F s
           | MODE_KISS \<Rightarrow> kiss_poll (Some ax25_msg_callback) msg0 env s
           | MODE_DIGI \<Rightarrow> do { s \<leftarrow> console_poll main_handlers busy s; beacon_broadcast_poll busy s }
           | MODE_TEST_BEACON \<Rightarrow> Some s) }"

text \<open>
  The running firmware: turns of the main loop, and between them the interrupts of the converter, the
  serial port, the timer and, where the port of the radio module enabled it, its receive pin. After \<^verbatim>\<open>soft_reset\<close> only interrupts happen until the watchdog restarts it.
\<close>

inductive firmware :: "'f floats \<Rightarrow> ('f, 'a) Main_scheme tnc \<Rightarrow> ('f, 'a) Main_scheme tnc \<Rightarrow> bool"
  for F :: "'f floats" and s0 :: "('f, 'a) Main_scheme tnc" where
  start: "firmware F s0 s0"
| turn: "firmware F s0 s \<Longrightarrow> \<not> resetting (snd (snd s)) \<Longrightarrow> main_turn F msg0 env busy s = Some s' \<Longrightarrow> firmware F s0 s'"
| adc: "firmware F s0 (ctx, af, w) \<Longrightarrow> firmware F s0 (ctx, snd (ADC_vect af sample), w)"
| rx: "firmware F s0 (ctx, af, w) \<Longrightarrow> firmware F s0 (ctx, af, w\<lparr>g_serial := USART0_RX_vect (g_serial w) st c\<rparr>)"
| tx: "firmware F s0 (ctx, af, w) \<Longrightarrow> firmware F s0 (ctx, af, w\<lparr>g_serial := ser_tx_tick (g_serial w)\<rparr>)"
| tick: "firmware F s0 (ctx, af, w) \<Longrightarrow> firmware F s0 (ctx, af, w\<lparr>clock := clock w + 1\<rparr>)"
| pin: "firmware F s0 (ctx, af, w) \<Longrightarrow> rx_irq (softSer w) \<Longrightarrow>
    firmware F s0 (ctx, af, w\<lparr>softSer := hw_softser_handle_interrupt first bits (softSer w)\<rparr>)"

end
