(* ===== verification/Modes.thy ===== *)
theory Modes
  imports Firmware
begin

text \<open>
  What the parts of the firmware leave alone: only the mode commands change the run mode, the command
  registry and the pass-through flag of the AX.25 layer. The rules are collected as \<open>kept\<close>
  and follow the structure of the program; with them the run mode stays coherent with the flag in every
  reachable state of the firmware.
\<close>

named_theorems kept "operations that keep run mode, registry and pass-through flag"

section \<open>Keeping\<close>

definition mview :: "('f, 'a) Main_scheme \<Rightarrow> RunMode \<times> COMMAND_ENTRY list" where
  "mview w = (currentMode w, cmdEntries w)"

section \<open>The shared operations\<close>

lemma mview_simps [simp]:
  fixes w :: "('f, 'a) Main_scheme"
  shows "mview (w\<lparr>g_serial := a\<rparr>) = mview w" "mview (w\<lparr>clock := b\<rparr>) = mview w" "mview (w\<lparr>g_serialreader := c\<rparr>) = mview w"
    "mview (w\<lparr>kiss_rxTick := d\<rparr>) = mview w" "mview (w\<lparr>kiss_escaped := e\<rparr>) = mview w" "mview (w\<lparr>digi_count := f\<rparr>) = mview w"
    "mview (w\<lparr>cache := g\<rparr>) = mview w" "mview (w\<lparr>cacheIndex := h\<rparr>) = mview w" "mview (w\<lparr>lastSendTimeSeconds := i\<rparr>) = mview w"
    "mview (w\<lparr>g_gps := j\<rparr>) = mview w" "mview (w\<lparr>trk_lastSendTimeSeconds := k\<rparr>) = mview w" "mview (w\<lparr>lastLocation := l\<rparr>) = mview w"
    "mview (w\<lparr>run_start := m\<rparr>) = mview w" "mview (w\<lparr>softSer := n\<rparr>) = mview w" "mview (w\<lparr>g_settings := o1\<rparr>) = mview w"
    "mview (w\<lparr>resetting := q\<rparr>) = mview w"
  by (simp_all add: mview_def)

lemma mview_ops [simp]:
  fixes w :: "('f, 'a) Main_scheme"
  shows "mview (settings_clear w) = mview w" "mview (settings_set_params key v w) = mview w"
    "mview (settings_set_call_data d w) = mview w" "mview (snd (settings_set_beacon_text b n w)) = mview w"
    "mview (snd (settings_set_params_bytes b2 n2 w)) = mview w" "mview (soft_reset w) = mview w" "mview (g_purge w) = mview w"
    "mview (g_setbaudrate r w) = mview w" "mview (set_readLen k w) = mview w" "mview (kiss_sanity w) = mview w"
    "mview (kiss_store c w) = mview w" "mview (snd (digi_check_is_duplicated msg w)) = mview w" "mview (snd (g_readline w)) = mview w"
  by (simp_all add: mview_def settings_clear_def settings_set_params_def settings_set_call_data_def settings_set_beacon_text_def
      settings_set_params_bytes_def soft_reset_def g_purge_def g_setbaudrate_def set_readLen_def kiss_sanity_def kiss_store_def
      digi_check_is_duplicated_def g_readline_def Let_def split_beta)

lemma globals_kept [kept]:
  fixes w :: "('f, 'a) Main_scheme"
  shows "g_printf fmt args w = Some w' \<Longrightarrow> mview w' = mview w" "g_putchar c w = Some w' \<Longrightarrow> mview w' = mview w"
    "g_flush w = Some w' \<Longrightarrow> mview w' = mview w" "g_delay ms w = Some w' \<Longrightarrow> mview w' = mview w"
    "g_print_msg msg w = Some w' \<Longrightarrow> mview w' = mview w" "g_print_P s w = Some w' \<Longrightarrow> mview w' = mview w"
    "settings_save w = Some (b, w') \<Longrightarrow> mview w' = mview w"
  by (auto simp: g_printf_def g_putchar_def g_flush_def g_delay_def g_print_msg_def g_print_P_def settings_save_def Let_def
      bind_eq_Some_conv mview_def)

section \<open>KISS configuration\<close>

lemma send_to_serial_kept [kept]:
  fixes w :: "('f, 'a) Main_scheme"
  shows "send_to_serial buf w = Some w' \<Longrightarrow> mview w' = mview w"
  by (induction buf arbitrary: w) (auto simp: bind_eq_Some_conv split: if_splits dest!: kept)

lemma kiss_respond_kept [kept]:
  fixes w :: "('f, 'a) Main_scheme"
  shows "kiss_send_to_serial port cmd buf w = Some w' \<Longrightarrow> mview w' = mview w"
    "kiss_respond cmd buf crc w = Some w' \<Longrightarrow> mview w' = mview w"
    "kiss_respond_config_magic_cmd buf n w = Some w' \<Longrightarrow> mview w' = mview w"
  by (auto simp: kiss_send_to_serial_def kiss_respond_def kiss_respond_config_magic_cmd_def send_to_serial_begin_def
      send_to_serial_end_def bind_eq_Some_conv simp del: send_to_serial.simps dest!: kept)

lemma kiss_handlers_kept [kept]:
  fixes w :: "('f, 'a) Main_scheme"
  shows "kiss_handle_config_params_cmd buf n w = Some w' \<Longrightarrow> mview w' = mview w"
    "kiss_handle_config_text_cmd buf n w = Some w' \<Longrightarrow> mview w' = mview w"
    "kiss_handle_config_call_cmd buf n w = Some w' \<Longrightarrow> mview w' = mview w"
    "kiss_handle_config_magic_cmd buf n w = Some w' \<Longrightarrow> mview w' = mview w"
  by (auto simp: kiss_handle_config_params_cmd_def kiss_handle_config_text_cmd_def kiss_handle_config_call_cmd_def
      kiss_handle_config_magic_cmd_def Let_def split_beta bind_eq_Some_conv split: if_splits dest!: kept)

section \<open>Sending\<close>

lemma putchar_kept [kept]: "ax25_putchar fd c (ctx, ch) = Some (ctx', ch') \<Longrightarrow> pass_through ctx' = pass_through ctx"
  by (auto simp: ax25_putchar_def Let_def bind_eq_Some_conv)

lemma putchars_kept [kept]: "ax25_putchars fd cs (ctx, ch) = Some (ctx', ch') \<Longrightarrow> pass_through ctx' = pass_through ctx"
  by (induction cs arbitrary: ctx ch) (auto simp: bind_eq_Some_conv dest!: kept)

lemma frame_parts_kept [kept]:
  "ax25_sendCall fd a l r (ctx, ch) = Some (ctx', ch') \<Longrightarrow> pass_through ctx' = pass_through ctx"
  "ax25_begin fd (ctx, ch) = Some (ctx', ch') \<Longrightarrow> pass_through ctx' = pass_through ctx"
  "ax25_end fd (ctx, ch) = Some (ctx', ch') \<Longrightarrow> pass_through ctx' = pass_through ctx"
  by (auto simp: ax25_sendCall_def ax25_begin_def ax25_end_def Let_def bind_eq_Some_conv dest!: kept)

lemma paths_kept [kept]:
  "ax25_sendPath fd path (ctx, ch) = Some (ctx', ch') \<Longrightarrow> pass_through ctx' = pass_through ctx"
  "ax25_sendRpts fd msg i rpts (ctx, ch) = Some (ctx', ch') \<Longrightarrow> pass_through ctx' = pass_through ctx"
proof -
  show "ax25_sendPath fd path (ctx, ch) = Some (ctx', ch') \<Longrightarrow> pass_through ctx' = pass_through ctx"
    by (induction path arbitrary: ctx ch) (auto simp: bind_eq_Some_conv dest!: kept)
  show "ax25_sendRpts fd msg i rpts (ctx, ch) = Some (ctx', ch') \<Longrightarrow> pass_through ctx' = pass_through ctx"
    by (induction rpts arbitrary: i ctx ch) (auto simp: bind_eq_Some_conv dest!: kept)
qed

lemma sends_kept [kept]:
  "ax25_sendVia fd path buf (ctx, ch) = Some (ctx', ch') \<Longrightarrow> pass_through ctx' = pass_through ctx"
  "ax25_sendRaw fd buf (ctx, ch) = Some (ctx', ch') \<Longrightarrow> pass_through ctx' = pass_through ctx"
  "ax25_sendMsg fd msg (ctx, ch) = Some (ctx', ch') \<Longrightarrow> pass_through ctx' = pass_through ctx"
  by (auto simp: ax25_sendVia_def ax25_sendRaw_def ax25_sendMsg_def stat_tx_ok_def bind_eq_Some_conv split: if_splits
      simp del: ax25_putchars.simps ax25_sendPath.simps ax25_sendRpts.simps dest!: kept)

section \<open>The modules\<close>

lemma digi_kept [kept]:
  fixes w :: "('f, 'a) Main_scheme"
  shows "digi_handle_aprs_message msg (ctx, af, w) = Some (b, ctx', af', w') \<Longrightarrow>
    pass_through ctx' = pass_through ctx \<and> mview w' = mview w"
proof -
  have rep: "pass_through ctx' = pass_through ctx \<and> mview w' = mview w"
    if "digi_repeat_message m (ctx, af, w) = Some (b, ctx', af', w')" for m ctx af and w w' :: "('f, 'a) Main_scheme" and b ctx' af'
    using that by (auto simp: digi_repeat_message_def Let_def bind_eq_Some_conv dest!: kept)
  have at: "pass_through ctx' = pass_through ctx \<and> mview w' = mview w"
    if "digi_repeat_at m i (ctx, af, w) = Some (b, ctx', af', w')" for m i
    using that mview_ops(12) [of m w]
    by (auto simp: digi_repeat_at_def split_beta Let_def bind_eq_Some_conv split: if_splits option.splits dest!: kept rep)
  assume "digi_handle_aprs_message msg (ctx, af, w) = Some (b, ctx', af', w')"
  then show ?thesis using scan_cases [of msg "[0..<unat (rpt_cnt msg)]" "(ctx, af, w)"]
    by (auto simp: digi_handle_aprs_message_def dest!: at [OF sym])
qed

lemma beacon_kept [kept]:
  fixes w :: "('f, 'a) Main_scheme"
  shows "beacon_send p n (ctx, af, w) = Some (ctx', af', w') \<Longrightarrow> pass_through ctx' = pass_through ctx \<and> mview w' = mview w"
    "send_fixed_text busy (ctx, af, w) = Some (ctx', af', w') \<Longrightarrow> pass_through ctx' = pass_through ctx \<and> mview w' = mview w"
    "beacon_broadcast_poll busy (ctx, af, w) = Some (ctx', af', w') \<Longrightarrow> pass_through ctx' = pass_through ctx \<and> mview w' = mview w"
proof -
  show b: "beacon_send p n (ctx, af, w) = Some (ctx', af', w') \<Longrightarrow> pass_through ctx' = pass_through ctx \<and> mview w' = mview w"
    for p n ctx af and w w' :: "('f, 'a) Main_scheme" and ctx' af'
    by (auto simp: beacon_send_def Let_def bind_eq_Some_conv split: if_splits dest!: kept)
  show s: "send_fixed_text busy (ctx, af, w) = Some (ctx', af', w') \<Longrightarrow> pass_through ctx' = pass_through ctx \<and> mview w' = mview w"
    for ctx af and w w' :: "('f, 'a) Main_scheme" and ctx' af'
    by (auto simp: send_fixed_text_def bind_eq_Some_conv split: if_splits dest!: b)
  show "beacon_broadcast_poll busy (ctx, af, w) = Some (ctx', af', w') \<Longrightarrow> pass_through ctx' = pass_through ctx \<and> mview w' = mview w"
    by (auto simp: beacon_broadcast_poll_def Let_def bind_eq_Some_conv split: if_splits dest!: s)
qed

lemma test_message_kept [kept]:
  fixes w :: "('f, 'a) Main_scheme"
  shows "beacon_send_test_message_immediate busy n (ctx, af, w) = Some (ctx', af', w') \<Longrightarrow>
    pass_through ctx' = pass_through ctx \<and> mview w' = mview w"
  by (induction n arbitrary: ctx af w) (auto simp: bind_eq_Some_conv split: if_splits dest!: kept)

lemma tracker_kept [kept]:
  fixes w :: "('f, 'a) Main_scheme"
  shows "tracker_init_gps w = Some w' \<Longrightarrow> mview w' = mview w"
    "tracker_poll F (ctx, af, w) = Some (ctx', af', w') \<Longrightarrow> pass_through ctx' = pass_through ctx \<and> mview w' = mview w"
proof -
  show "tracker_init_gps w = Some w' \<Longrightarrow> mview w' = mview w"
    by (auto simp: tracker_init_gps_def gps_init_def serialreader_reset_def Let_def bind_eq_Some_conv dest!: kept)
  have u: "pass_through ctx' = pass_through ctx \<and> mview w' = mview w"
    if "tracker_update_location F buf (ctx, af, w) = Some (ctx', af', w')" for buf and w w' :: "('f, 'a) Main_scheme"
    using that by (auto simp: tracker_update_location_def Let_def split_beta bind_eq_Some_conv split: if_splits dest!: kept)
  show "tracker_poll F (ctx, af, w) = Some (ctx', af', w') \<Longrightarrow> pass_through ctx' = pass_through ctx \<and> mview w' = mview w"
    using mview_ops(13) [of w] by (auto simp: tracker_poll_def Let_def split_beta bind_eq_Some_conv split: if_splits dest!: u)
qed

section \<open>The console\<close>

lemma print_lines_kept [kept]:
  fixes w :: "('f, 'a) Main_scheme"
  shows "print_lines ls w = Some w' \<Longrightarrow> mview w' = mview w"
  by (induction ls arbitrary: w) (auto simp: bind_eq_Some_conv dest!: kept)

lemma console_cmds_kept [kept]:
  fixes w :: "('f, 'a) Main_scheme"
  shows "cmd_help w = Some w' \<Longrightarrow> mview w' = mview w"
    "cmd_settings_mycall v n w = Some w' \<Longrightarrow> mview w' = mview w"
    "cmd_settings_path v n w = Some w' \<Longrightarrow> mview w' = mview w"
    "cmd_settings_reset v n w = Some w' \<Longrightarrow> mview w' = mview w"
    "cmd_settings_symbol v n w = Some w' \<Longrightarrow> mview w' = mview w"
    "cmd_settings_beacon_text v n w = Some w' \<Longrightarrow> mview w' = mview w"
    "cmd_settings_beacon_interval v n w = Some w' \<Longrightarrow> mview w' = mview w"
  by (auto simp: cmd_help_def cmd_settings_mycall_def cmd_settings_path_def cmd_settings_reset_def cmd_settings_symbol_def
      cmd_settings_beacon_text_def cmd_settings_beacon_interval_def Let_def bind_eq_Some_conv
      simp del: print_lines.simps split: if_splits option.splits dest!: kept)

lemma cmd_info_kept [kept]:
  fixes w :: "('f, 'a) Main_scheme"
  shows "cmd_info n (ctx, af, w) = Some (b, ctx', af', w') \<Longrightarrow> pass_through ctx' = pass_through ctx \<and> mview w' = mview w"
  by (auto simp: cmd_info_def Let_def bind_eq_Some_conv split: if_splits dest!: kept)

lemma cmd_test_send_kept [kept]:
  fixes w :: "('f, 'a) Main_scheme"
  shows "cmd_test_send busy v n (ctx, af, w) = Some (ctx', af', w') \<Longrightarrow> pass_through ctx' = pass_through ctx \<and> mview w' = mview w"
  by (auto simp: cmd_test_send_def Let_def bind_eq_Some_conv split: if_splits
      simp del: beacon_send_test_message_immediate.simps dest!: kept)

lemma on_globals_kept:
  fixes w :: "('f, 'a) Main_scheme"
  assumes "on_globals f (ctx, af, w) = Some (ctx', af', w')" and "\<And>v. f w = Some v \<Longrightarrow> mview v = mview w"
  shows "pass_through ctx' = pass_through ctx \<and> mview w' = mview w"
  using assms by (auto simp: on_globals_def bind_eq_Some_conv)

section \<open>Coherent modes\<close>

definition main_table :: "COMMAND_ENTRY list" where
  "main_table = console_table[6 := \<lparr>cmdName = Some (str ''MODE''), cmdHandler = Some h_switch_mode\<rparr>,
     7 := \<lparr>cmdName = Some (str ''KISS''), cmdHandler = Some h_enter_kiss_mode\<rparr>]"

fun mode_fits :: "RunMode \<Rightarrow> bool \<Rightarrow> bool" where
  "mode_fits MODE_CFG pass = (\<not> pass)"
| "mode_fits MODE_KISS pass = pass"
| "mode_fits MODE_TRACKER pass = True"
| "mode_fits MODE_DIGI pass = (\<not> pass)"
| "mode_fits MODE_TEST_BEACON pass = False"

definition coherent :: "('f, 'a) Main_scheme tnc \<Rightarrow> bool" where
  "coherent s \<longleftrightarrow> (let (ctx, af, w) = s in cmdEntries w = main_table \<and> mode_fits (currentMode w) (pass_through ctx))"

lemma coherent_mview: "coherent (ctx, af, w) \<longleftrightarrow> snd (mview w) = main_table \<and> mode_fits (fst (mview w)) (pass_through ctx)"
  by (simp add: coherent_def mview_def)

lemma coherent_kept:
  "coherent (ctx, af, w) \<Longrightarrow> pass_through ctx' = pass_through ctx \<and> mview w' = mview w \<Longrightarrow> coherent (ctx', af', w')"
  by (simp add: coherent_mview)

lemma mview_mode [simp]: "mview (w\<lparr>currentMode := m\<rparr>) = (m, snd (mview w))"
  by (simp add: mview_def)

lemma enter_mode_coherent:
  assumes "coherent (ctx, af, w)" and "enter_mode i (ctx, af, w) = Some (Some (ctx', af', w'))"
  shows "coherent (ctx', af', w')"
  using assms by (auto simp: enter_mode_def on_globals_def bind_eq_Some_conv coherent_mview split: if_splits dest!: kept)

lemma save_mode_kept: "save_mode w = Some w' \<Longrightarrow> mview w' = mview w"
  by (auto simp: save_mode_def split: if_splits dest!: kept)

lemma switch_mode_coherent:
  assumes "coherent (ctx, af, w)" and "cmd_switch_mode v n (ctx, af, w) = Some (b, ctx', af', w')"
  shows "coherent (ctx', af', w')"
proof (cases "0 < n \<and> \<not> (c_atoi v = ucast (mode_code (currentMode w)) \<and> c_atoi v = ucast (run_mode (g_settings w))) \<and>
    enter_mode (c_atoi v) (ctx, af, w) \<noteq> None")
  case True
  with assms(2) obtain ctx1 af1 w1 where 1: "enter_mode (c_atoi v) (ctx, af, w) = Some (Some (ctx1, af1, w1))"
    "on_globals save_mode (ctx1, af1, w1) = Some (ctx', af', w')"
    by (auto simp: cmd_switch_mode_def Let_def bind_eq_Some_conv split: if_splits)
  from on_globals_kept [OF 1(2) save_mode_kept] coherent_kept [OF enter_mode_coherent [OF assms(1) 1(1)]] show ?thesis by blast
next
  case False
  with assms show ?thesis
    by (auto simp: cmd_switch_mode_def on_globals_def Let_def bind_eq_Some_conv split: if_splits intro: coherent_kept dest!: kept)
qed

lemma cmd_run_coherent:
  assumes "coherent (ctx, af, w)" and "cmd_run main_handlers h v n (ctx, af, w) = Some (b, ctx', af', w')"
  shows "coherent (ctx', af', w')"
  using assms switch_mode_coherent [OF assms(1)]
  by (auto simp: cmd_run_def main_handlers_def cmd_enter_kiss_mode_def on_globals_def Let_def bind_eq_Some_conv
      split: CmdHandler.splits intro: coherent_kept dest!: kept)

lemma on_globals_coherent:
  assumes "coherent s" and "on_globals f s = Some s'" and "\<And>w w'. f w = Some w' \<Longrightarrow> mview w' = mview w"
  shows "coherent s'"
proof -
  obtain ctx af w ctx' af' w' where s: "s = (ctx, af, w)" "s' = (ctx', af', w')" by (cases s; cases s')
  show ?thesis using assms(1) unfolding s
    by (rule coherent_kept) (rule on_globals_kept [OF assms(2) [unfolded s] assms(3)])
qed

text \<open>A computation that ends coherently if it ends.\<close>

abbreviation coherently :: "('f, 'a) Main_scheme tnc option \<Rightarrow> bool" where
  "coherently r \<equiv> ensures r coherent"

lemma coherently_globals:
  assumes "coherent s" and "\<And>w w'. f w = Some w' \<Longrightarrow> mview w' = mview w"
  shows "coherently (on_globals f s)"
  by (rule ensuresI) (rule on_globals_coherent [OF assms(1) _ assms(2)])

lemma coherent_tnc:
  assumes "coherent s" and "f s = Some s'"
    and "\<And>ctx af w ctx' af' w'. f (ctx, af, w) = Some (ctx', af', w') \<Longrightarrow> pass_through ctx' = pass_through ctx \<and> mview w' = mview w"
  shows "coherent s'"
proof -
  obtain ctx af w ctx' af' w' where s: "s = (ctx, af, w)" "s' = (ctx', af', w')" by (cases s; cases s')
  show ?thesis using assms(1) unfolding s by (rule coherent_kept) (rule assms(3) [OF assms(2) [unfolded s]])
qed

lemma console_parse_coherent:
  assumes "coherent s"
  shows "coherently (console_parse_command main_handlers busy command n s)"
proof -
  have info: "coherent s'" if "cmd_info k s = Some (b, s')" for k b s'
    using coherent_tnc [OF assms, of "\<lambda>s. map_option snd (cmd_info k s)" s'] that cmd_info_kept by fastforce
  have "coherently (cmd_test_send busy v k s)" for v k
    using coherent_tnc [OF assms] cmd_test_send_kept by (intro ensuresI) blast
  moreover have "coherently (map_option snd (cmd_info k s))" for k
    using info by (intro ensuresI) auto
  moreover have "coherent s'" if "cmd_run main_handlers h v k s = Some (b, s')" for h v k b s'
    using cmd_run_coherent assms that by (cases s; cases s') blast
  ultimately show ?thesis unfolding console_parse_command_def Let_def
    by (intro ensures_steps coherently_globals assms) (blast intro: info assms dest: globals_kept console_cmds_kept)+
qed

lemma console_poll_coherent:
  assumes "coherent s"
  shows "coherently (console_poll main_handlers busy s)"
proof -
  obtain ctx af w where s: "s = (ctx, af, w)" by (cases s)
  have "coherent (ctx, af, snd (g_readline w))" by (rule coherent_kept [OF assms [unfolded s]]) simp
  from console_parse_coherent [OF this] this show ?thesis
    by (simp add: console_poll_def Let_def split_beta s ensures_def)
qed

lemma check_run_mode_coherent:
  assumes "coherent s"
  shows "coherently (check_run_mode s)"
proof -
  obtain ctx af w where s: "s = (ctx, af, w)" by (cases s)
  have "coherent (ctx, af, w\<lparr>run_start := clock w\<rparr>)" by (rule coherent_kept [OF assms [unfolded s]]) simp
  moreover have "coherently (map_option snd (cmd_switch_mode v n s))" for v n
    using switch_mode_coherent assms by (intro ensuresI) (cases s; auto)
  ultimately show ?thesis using assms by (simp add: check_run_mode_def s ensures_def)
qed

section \<open>Receiving\<close>

lemma callback_kept [kept]:
  fixes w :: "('f, 'a) Main_scheme"
  shows "ax25_msg_callback m (ctx, af, w) = Some (ctx', af', w') \<Longrightarrow> pass_through ctx' = pass_through ctx \<and> mview w' = mview w"
  by (auto simp: ax25_msg_callback_def on_globals_def bind_eq_Some_conv split: RunMode.splits option.splits dest!: kept)

lemma rx_char_kept [kept]:
  fixes w :: "('f, 'a) Main_scheme"
  assumes "ax25_rx_char (Some ax25_msg_callback) msg0 c (ctx, af, w) = Some (ctx', af', w')"
  shows "pass_through ctx' = pass_through ctx \<and> mview w' = mview w"
proof -
  have e: "pass_through ctx' = pass_through ctx \<and> mview w' = mview w"
    if "ax25_frame_end (Some ax25_msg_callback) msg0 (ctx, af, w) = Some (ctx', af', w')" for ctx'
    using that by (auto simp: ax25_frame_end_def ax25_decode_def stat_rx_ok_def stat_rx_err_def Let_def
        split: if_splits option.splits dest!: kept)
  have s: "pass_through (ax25_store ctx c) = pass_through ctx"
    by (simp add: ax25_store_def stat_rx_err_def Let_def)
  show ?thesis using assms s
    by (auto simp: ax25_rx_char_def ax25_flag_def bind_eq_Some_conv Let_def split: if_splits dest!: e)
qed

lemma poll_loop_view:
  assumes "ax25_poll_loop fd hook msg0 s = Some s'"
    and rx: "\<And>c s s'. ax25_rx_char hook msg0 c s = Some s' \<Longrightarrow> v s' = v s"
    and ch: "\<And>ctx ch ch' w. v (ctx, ch', w) = v (ctx, ch, w)"
  shows "v s' = v s"
proof -
  have "h = hook \<longrightarrow> m = msg0 \<longrightarrow> v r = v s" if "ax25_poll_loop fd h m s = Some r" for fd h m s r
    using that
  proof (rule ax25_poll_loop.raw_induct [rotated])
    fix f fd h m s r
    assume ih: "\<And>fd h m s r. f fd h m s = Some r \<Longrightarrow> h = hook \<longrightarrow> m = msg0 \<longrightarrow> v r = v s"
      and eq: "(case kfile_getc fd (fst (snd s)) of
          (None, ch) \<Rightarrow> Some (fst s, ch, snd (snd s))
        | (Some c, ch) \<Rightarrow> do { s \<leftarrow> ax25_rx_char h m c (fst s, ch, snd (snd s)); f fd h m s }) = Some r"
    obtain c ch1 where g: "kfile_getc fd (fst (snd s)) = (c, ch1)" by (cases "kfile_getc fd (fst (snd s))")
    have v: "v (fst s, ch1, snd (snd s)) = v s" using ch [of "fst s" ch1 "snd (snd s)" "fst (snd s)"] by simp
    show "h = hook \<longrightarrow> m = msg0 \<longrightarrow> v r = v s"
    proof (intro impI, cases c)
      case None
      then show "v r = v s" using eq g v by simp
    next
      case (Some x)
      assume h: "h = hook" "m = msg0"
      from Some eq g obtain s2 where s2: "ax25_rx_char h m x (fst s, ch1, snd (snd s)) = Some s2" "f fd h m s2 = Some r"
        by (simp add: bind_eq_Some_conv) blast
      from rx [OF s2(1) [unfolded h]] ih [OF s2(2)] h v show "v r = v s" by simp
    qed
  qed
  with assms(1) show ?thesis by blast
qed

lemma poll_loop_kept:
  fixes w :: "('f, 'a) Main_scheme"
  assumes "ax25_poll_loop fd (Some ax25_msg_callback) msg0 (ctx, ch, w) = Some (ctx', ch', w')"
  shows "pass_through ctx' = pass_through ctx \<and> mview w' = mview w"
proof -
  have rx: "(\<lambda>(ctx, ch, w). (pass_through ctx, mview w)) s' = (\<lambda>(ctx, ch, w). (pass_through ctx, mview w)) s"
    if "ax25_rx_char (Some ax25_msg_callback) msg0 c s = Some s'" for c and s s' :: "('f, 'a) Main_scheme tnc"
    using that rx_char_kept by (cases s; cases s') fastforce
  from poll_loop_view [where v = "\<lambda>(ctx, ch, w). (pass_through ctx, mview w)", OF assms rx] show ?thesis by simp
qed

lemma poll_kept [kept]:
  fixes w :: "('f, 'a) Main_scheme"
  assumes "ax25_poll afsk_fd (Some ax25_msg_callback) msg0 (ctx, af, w) = Some (ctx', af', w')"
  shows "pass_through ctx' = pass_through ctx \<and> mview w' = mview w"
proof -
  obtain ctx1 af1 w1 where l: "ax25_poll_loop afsk_fd (Some ax25_msg_callback) msg0 (ctx, af, w) = Some (ctx1, af1, w1)"
    using assms by (auto simp: ax25_poll_def bind_eq_Some_conv)
  from poll_loop_kept [OF this] have "pass_through ctx1 = pass_through ctx \<and> mview w1 = mview w" .
  with assms l show ?thesis by (auto simp: ax25_poll_def stat_rx_err_def Let_def split: if_splits)
qed

section \<open>KISS\<close>

lemma transmit_kept [kept]:
  "kiss_transmit buf (ctx, af, w) = Some (ctx', af', w') \<Longrightarrow> pass_through ctx' = pass_through ctx \<and> w' = w"
  by (auto simp: kiss_transmit_def bind_eq_Some_conv dest!: sends_kept)

lemma csma_kept [kept]:
  fixes w :: "('f, 'a) Main_scheme"
  shows "kiss_csma (Some ax25_msg_callback) msg0 env buf (ctx, af, w) = Some (ctx', af', w') \<Longrightarrow>
    pass_through ctx' = pass_through ctx \<and> mview w' = mview w"
proof (induction env arbitrary: ctx af w)
  case Nil
  then show ?case by simp
next
  case (Cons e env)
  obtain adcs rnd where e: "e = (adcs, rnd)" by (cases e)
  let ?af = "afsk_samples adcs af"
  show ?case
  proof (cases "rxstart (hdlc ?af)")
    case False
    then consider "kiss_transmit buf (ctx, ?af, w) = Some (ctx', af', w')"
      | w1 where "g_delay (ucast (slot_time (rf (g_settings w))) * 10) w = Some w1"
          "kiss_csma (Some ax25_msg_callback) msg0 env buf (ctx, ?af, w1) = Some (ctx', af', w')"
      using Cons.prems e by (auto simp: Let_def bind_eq_Some_conv split: if_splits)
    then show ?thesis
    proof cases
      case 1
      then show ?thesis using transmit_kept by fastforce
    next
      case 2
      then show ?thesis using Cons.IH [OF 2(2)] globals_kept(4) [OF 2(1)] by simp
    qed
  next
    case True
    then obtain ctx1 af1 w1 where 1: "ax25_poll afsk_fd (Some ax25_msg_callback) msg0 (ctx, ?af, w) = Some (ctx1, af1, w1)"
      and r: "(if status af1 \<noteq> 0 then Some (ctx1, af1\<lparr>status := 0\<rparr>, w1)
        else kiss_csma (Some ax25_msg_callback) msg0 env buf (ctx1, af1, w1)) = Some (ctx', af', w')"
      using Cons.prems e by (auto simp: Let_def bind_eq_Some_conv simp del: not_None_eq)
    from poll_kept [OF 1] Cons.IH [of ctx1 af1 w1] r show ?thesis by (cases "status af1 = 0") auto
  qed
qed

lemma config_kept:
  fixes w :: "('f, 'a) Main_scheme"
  assumes "kiss_config h payload sz w = Some w'" and "\<And>n. h payload n w = Some w' \<Longrightarrow> mview w' = mview w"
  shows "mview w' = mview w"
  using assms by (auto simp: kiss_config_def bind_eq_Some_conv split: if_splits)

lemma handle_frame_kept [kept]:
  fixes w :: "('f, 'a) Main_scheme"
  assumes "kiss_handle_frame (Some ax25_msg_callback) msg0 env frame sz (ctx, af, w) = Some (ctx', af', w')"
  shows "pass_through ctx' = pass_through ctx \<and> mview w' = mview w"
proof -
  have m: "pass_through ctx' = pass_through ctx \<and> mview w' = mview w"
    if "kiss_send_to_modem (Some ax25_msg_callback) msg0 env buf (ctx, af, w) = Some (ctx', af', w')" for buf
    using that csma_kept [of msg0 env buf ctx af w ctx' af' w'] transmit_kept [of buf ctx af w ctx' af' w']
    by (auto simp: kiss_send_to_modem_def split: if_splits)
  have c: "pass_through ctx' = pass_through ctx \<and> mview w' = mview w"
    if "on_globals (kiss_config h payload sz) (ctx, af, w) = Some (ctx', af', w')"
      "\<And>n. h payload n w = Some w' \<Longrightarrow> mview w' = mview w" for h payload
    using that config_kept [of h payload sz w w'] by (auto simp: on_globals_def bind_eq_Some_conv)
  note h = c [OF _ kiss_handlers_kept(1)] c [OF _ kiss_handlers_kept(2)] c [OF _ kiss_handlers_kept(3)] c [OF _ kiss_handlers_kept(4)]
  show ?thesis using assms by (auto simp: kiss_handle_frame_def Let_def split: if_splits dest: m h)
qed

lemma kiss_char_kept:
  fixes w :: "('f, 'a) Main_scheme"
  assumes "kiss_char (Some ax25_msg_callback) msg0 env c (ctx, af, w) = Some (ctx', af', w')"
  shows "pass_through ctx' = pass_through ctx \<and> mview w' = mview w"
  using assms handle_frame_kept
  by (auto simp: kiss_char_def Let_def bind_eq_Some_conv split: if_splits dest!: handle_frame_kept)

lemma kiss_poll_kept [kept]:
  fixes w :: "('f, 'a) Main_scheme"
  assumes "kiss_poll (Some ax25_msg_callback) msg0 env (ctx, af, w) = Some (ctx', af', w')"
  shows "pass_through ctx' = pass_through ctx \<and> mview w' = mview w"
  using assms by (auto simp: kiss_poll_def kiss_poll_serial_def split: prod.splits option.splits dest!: kiss_char_kept)

section \<open>The main loop\<close>

lemma main_turn_coherent:
  assumes "coherent s"
  shows "coherently (main_turn F msg0 env busy s)"
proof -
  have p: "coherent t" if "ax25_poll afsk_fd (Some ax25_msg_callback) msg0 s = Some t" for t
    by (rule coherent_tnc [where f = "ax25_poll afsk_fd (Some ax25_msg_callback) msg0", OF assms that]) (rule poll_kept)
  have r: "coherent u" if "coherent t" "check_run_mode t = Some u" for t u
    using check_run_mode_coherent that by (blast intro: ensuresD)
  have b: "coherently (beacon_broadcast_poll busy t)" if "coherent t" for t
    by (rule ensuresI) (rule coherent_tnc [where f = "beacon_broadcast_poll busy", OF that _ beacon_kept(3)])
  have c: "coherently (do { s \<leftarrow> console_poll main_handlers busy t; beacon_broadcast_poll busy s })" if "coherent t" for t
    using b ensuresD [OF console_poll_coherent [OF that]] by (intro ensures_steps) blast
  have "coherently (tracker_poll F t)" if "coherent t" for t
    by (rule ensuresI) (rule coherent_tnc [where f = "tracker_poll F", OF that _ tracker_kept(2)])
  moreover have "coherently (kiss_poll (Some ax25_msg_callback) msg0 env t)" if "coherent t" for t
    by (rule ensuresI) (rule coherent_tnc [where f = "kiss_poll (Some ax25_msg_callback) msg0 env", OF that _ kiss_poll_kept])
  moreover note c
  ultimately have "coherently (case currentMode (snd (snd t)) of
      MODE_CFG \<Rightarrow> do { s \<leftarrow> console_poll main_handlers busy t; beacon_broadcast_poll busy s }
    | MODE_TRACKER \<Rightarrow> tracker_poll F t | MODE_KISS \<Rightarrow> kiss_poll (Some ax25_msg_callback) msg0 env t
    | MODE_DIGI \<Rightarrow> do { s \<leftarrow> console_poll main_handlers busy t; beacon_broadcast_poll busy s }
    | MODE_TEST_BEACON \<Rightarrow> Some t)" if "coherent t" for t
    using that by (cases "currentMode (snd (snd t))") (simp_all add: ensures_steps(1))
  then show ?thesis unfolding main_turn_def by (intro ensures_steps) (blast intro: p r)
qed

section \<open>From power-on\<close>

lemma radio_init_ok:
  fixes w :: "('f, 'a) Main_scheme"
  shows "\<exists>w'. radio_init 4310400 w = Some w' \<and> mview w' = mview w \<and> g_serial w' = g_serial w"
proof -
  have p: "\<exists>w'. radio_print t v = Some w' \<and> mview w' = mview v \<and> g_serial w' = g_serial v"
    if "length t < 64" for t and v :: "('f, 'a) Main_scheme"
    using that by (simp add: radio_print_def g_delay_ok)
  have "radio_freq_text 4310400 = str ''431.0400''" by code_simp
  then have l: "length (radio_freq_text 4310400) = 8" by (simp add: str_def)
  let ?w = "w\<lparr>softSer := hw_softser_start CFG_RADIO_PORT_BAUDRATE (hw_softser_init CFG_RADIO_RX_PIN (softSer w))\<rparr>"
  obtain w1 where 1: "radio_print ([13, 10] @ str ''AT+DMOSETGROUP=1,'' @ radio_freq_text 4310400 @ [chr CHR '',''] @ radio_freq_text 4310400 @
      str '',0,0,0,0'' @ [13, 10]) ?w = Some w1" "mview w1 = mview ?w" "g_serial w1 = g_serial ?w"
    using p [of "[13, 10] @ str ''AT+DMOSETGROUP=1,'' @ radio_freq_text 4310400 @ [chr CHR '',''] @ radio_freq_text 4310400 @
      str '',0,0,0,0'' @ [13, 10]" ?w] l by (auto simp: str_def)
  obtain w2 where 2: "radio_print (str ''AT+DMOAUTOPOWCONTR=1'' @ [13, 10]) w1 = Some w2" "mview w2 = mview w1" "g_serial w2 = g_serial w1"
    using p [of "str ''AT+DMOAUTOPOWCONTR=1'' @ [13, 10]" w1] by (auto simp: str_def)
  obtain w3 where 3: "radio_print (str ''AT+DMOSETMIC=3,0,0'' @ [13, 10]) w2 = Some w3" "mview w3 = mview w2" "g_serial w3 = g_serial w2"
    using p [of "str ''AT+DMOSETMIC=3,0,0'' @ [13, 10]" w2] by (auto simp: str_def)
  obtain w4 where 4: "radio_print (str ''AT+DMOSETVOLUME=5'' @ [13, 10]) w3 = Some w4" "mview w4 = mview w3" "g_serial w4 = g_serial w3"
    using p [of "str ''AT+DMOSETVOLUME=5'' @ [13, 10]" w3] by (auto simp: str_def)
  from 1 2 3 4 have "radio_init 4310400 w = Some w4" by (simp add: radio_init_def Let_def)
  with 1 2 3 4 show ?thesis by auto
qed

lemma settings_load_kept:
  fixes w :: "('f, 'a) Main_scheme"
  shows "settings_load w = Some (b, w') \<Longrightarrow> mview w' = mview w \<and> g_serial w' = g_serial w"
  by (auto simp: settings_load_def settings_clear_def mview_def Let_def bind_eq_Some_conv split: if_splits)

lemma add_mode_commands:
  fixes w :: "('f, 'a) Main_scheme"
  assumes "cmdEntries w = console_table" and "cmdCount w = 6"
  shows "cmdEntries (console_add_command (str ''KISS'') h_enter_kiss_mode (console_add_command (str ''MODE'') h_switch_mode w)) = main_table"
    and "currentMode (console_add_command (str ''KISS'') h_enter_kiss_mode (console_add_command (str ''MODE'') h_switch_mode w)) = currentMode w"
  using assms by (simp_all add: console_add_command_def main_table_def CONSOLE_MAX_COMMAND_def)

lemma main_init_coherent:
  fixes w :: "('f, 'a) Main_scheme"
  assumes "store_ok w" and "currentMode w = MODE_CFG"
  shows "\<exists>s. main_init w = Some s \<and> coherent s"
proof -
  let ?w = "w\<lparr>g_serial := ser_setbaudrate SER_DEFAULT_BAUD_RATE (ser_init 0), g_serialreader := serialreader_init\<rparr>"
  have "store_ok ?w" using assms(1) by (simp add: store_ok_def)
  then obtain ok w1 where 1: "settings_load ?w = Some (ok, w1)" using settings_load_returns by blast
  let ?w1 = "digi_init (beacon_init (kiss_init w1))"
  obtain w2 where 2: "radio_init 4310400 ?w1 = Some w2" "mview w2 = mview ?w1" "g_serial w2 = g_serial ?w1"
    using radio_init_ok by blast
  have m1: "mview ?w1 = mview w1" "g_serial ?w1 = g_serial w1" by (simp_all add: digi_init_def beacon_init_def kiss_init_def mview_def)
  have "fst (mview w2) = MODE_CFG" and s: "ser_tx_ok (g_serial w2)"
    using settings_load_kept [OF 1] 2 m1 assms(2) ser_init_ok [of 0]
    by (simp_all add: mview_def ser_setbaudrate_def ser_tx_ok_def)
  then have m: "currentMode w2 = MODE_CFG" by (simp add: mview_def)
  let ?ctx = "ax25_init\<lparr>pass_through := False\<rparr>" and ?af = "afsk_init 0 0"
  obtain ser where 3: "console_init (?ctx, ?af, w2) = Some (?ctx, ?af, w2\<lparr>cmdEntries := console_table, cmdCount := 6, g_serial := ser\<rparr>)"
    using console_init_ok [OF s] by blast
  let ?w3 = "w2\<lparr>cmdEntries := console_table, cmdCount := 6, g_serial := ser\<rparr>"
  let ?w4 = "console_add_command (str ''KISS'') h_enter_kiss_mode (console_add_command (str ''MODE'') h_switch_mode ?w3)"
  have "main_init w = Some (?ctx, ?af, ?w4)"
    by (simp only: main_init_def Let_def 1 2 3 bind.bind_lunit prod.case)
  moreover have "coherent (?ctx, ?af, ?w4)" using m add_mode_commands [of ?w3] by (simp add: coherent_def)
  ultimately show ?thesis by blast
qed

section \<open>Properties\<close>

text \<open>
  C3. In whatever way the radio, the host and time drive it, the firmware stays coherent from power-on: the
  command registry is the one set up at start, the test mode is never entered, and in the console and digipeater
  modes the AX.25 layer decodes frames (so that the callback never gets a frame without a message there) while in KISS
  mode it passes them through.
\<close>

theorem firmware_coherent:
  assumes "store_ok w" and "currentMode w = MODE_CFG"
  shows "\<exists>s0. main_init w = Some s0 \<and> (\<forall>s. firmware F s0 s \<longrightarrow> coherent s)"
proof -
  obtain s0 where s0: "main_init w = Some s0" "coherent s0" using main_init_coherent [OF assms] by blast
  have "coherent s" if "firmware F s0 s" for s
    using that
  proof induction
    case start
    show ?case by (rule s0(2))
  next
    case turn
    then show ?case using ensuresD [OF main_turn_coherent] by blast
  qed (simp_all add: coherent_mview)
  with s0(1) show ?thesis by blast
qed

definition example_main :: "rat Main" where
  "example_main = Radio.extend (Tracker.extend example_tracker \<lparr>softSer = softser_statics\<rparr>) \<lparr>currentMode = MODE_CFG, run_start = 0\<rparr>"

theorem firmware_coherent_witness:
  "\<exists>s0. main_init example_main = Some s0 \<and> (\<forall>s. firmware example_floats s0 s \<longrightarrow> coherent s)"
  by (rule firmware_coherent)
    (use example_console_ok(2) in
      \<open>simp_all add: example_main_def example_tracker_def Console.defs Tracker.defs Radio.defs store_ok_def\<close>)

end
