(* ===== verification/Wellformed.thy ===== *)
theory Wellformed
  imports Modes
begin

text \<open>
  The types of the firmware's state: the length of every buffer and table, the validity of every queue and the ranges
  of the counters that index them. Every operation keeps them, whatever it is given, which the rules \<open>keeps\<close> state
  component by component, from the byte channels up to one turn of the main loop.
\<close>

section \<open>Channels\<close>

context kfile_writer
begin

lemma putc_keeps: "ready ch \<Longrightarrow> ensures (kfile_putc fd c ch) (\<lambda>r. ready (snd r))"
  using putc_ok [of ch c] by (auto simp: ensures_def)

lemma print_keeps: "ready ch \<Longrightarrow> ensures (kfile_print fd s ch) (\<lambda>r. ready (snd r))"
  using print_ok [of ch s] by (auto simp: ensures_def)

lemma printf_keeps: "ready ch \<Longrightarrow> ensures (kfile_printf fd fmt args ch) ready"
  using printf_ok [of fmt args _ ch] by (cases "formatted_write fmt args") (auto simp: ensures_def kfile_printf_def)

lemma print_call_keeps: "ready ch \<Longrightarrow> ensures (print_call fd c ch) ready"
  by (auto simp: print_call_def intro!: ensures_bind ensures_structure printf_keeps)

lemma print_rpts_keeps: "ready ch \<Longrightarrow> ensures (ax25_print_rpts fd msg i rpts ch) ready"
proof (induction rpts arbitrary: i ch)
  case (Cons p rpts)
  show ?case unfolding ax25_print_rpts.simps
    by (rule ensures_bind [OF putc_keeps [OF Cons.prems]], rule ensures_case_prod, rule ensures_bind, rule print_call_keeps)
      (auto intro!: ensures_bind [where Q = ready] ensures_structure Cons.IH
        intro: ensures_bind [OF putc_keeps])
qed simp

lemma print_msg_keeps: "ready ch \<Longrightarrow> ensures (ax25_print fd msg ch) ready"
  unfolding ax25_print_def by (auto intro!: ensures_bind ensures_structure printf_keeps print_call_keeps print_rpts_keeps putc_keeps)

text \<open>Sending leaves the receive buffer of the context alone.\<close>

definition sends :: "AX25Ctx \<Rightarrow> AX25Ctx \<times> 'ch \<Rightarrow> bool" where
  "sends ctx r \<longleftrightarrow> ready (snd r) \<and> ax_buf (fst r) = ax_buf ctx \<and> frm_len (fst r) = frm_len ctx"

lemma sendVia_keeps: "ready ch \<Longrightarrow> ensures (ax25_sendVia fd path buf (ctx, ch)) (sends ctx)"
  using sendVia_ok [of ch path buf ctx] by (auto simp: ensures_def sends_def stat_tx_ok_def)

end

context kfile_out
begin

lemma sendRaw_keeps: "ready ch \<Longrightarrow> ensures (ax25_sendRaw fd buf (ctx, ch)) (sends ctx)"
  using sendRaw_ok [of ch buf ctx] by (auto simp: ensures_def sends_def stat_tx_ok_def)

lemma sendMsg_keeps: "ready ch \<Longrightarrow> ensures (ax25_sendMsg fd msg (ctx, ch)) (sends ctx)"
proof -
  assume r: "ready ch"
  show ?thesis
  proof (cases "rpt_cnt msg = 0 \<or> m_len msg = 0")
    case True
    with r show ?thesis by (simp add: ax25_sendMsg_def sends_def)
  next
    case False
    show ?thesis
    proof (cases "unat (m_len msg) \<le> length (m_info msg) \<and> unat (rpt_cnt msg) \<le> length (rpt_lst msg)")
      case True
      with sendMsg_ok [OF r, of msg ctx] False show ?thesis by (auto simp: ensures_def sends_def stat_tx_ok_def)
    next
      case nl: False
      then have "ax25_sendMsg fd msg (ctx, ch) = None" using False by (auto simp: ax25_sendMsg_def)
      then show ?thesis by simp
    qed
  qed
qed

end

section \<open>The modem\<close>

definition modem_ok :: "Afsk \<Rightarrow> bool" where
  "modem_ok af \<longleftrightarrow> afsk_tx_ok af \<and> afsk_demod_ok af"

lemma waits_demod:
  shows "afsk_wait_room af = Some af' \<Longrightarrow> afsk_demod_ok af \<longrightarrow> afsk_demod_ok af'"
    and "afsk_flush af = Some af' \<Longrightarrow> afsk_demod_ok af \<longrightarrow> afsk_demod_ok af'"
proof -
  show "afsk_wait_room af = Some af' \<Longrightarrow> afsk_demod_ok af \<longrightarrow> afsk_demod_ok af'"
    by (erule afsk_wait_room.raw_induct [rotated]) (auto split: if_splits dest: tx_tick_demod)
  show "afsk_flush af = Some af' \<Longrightarrow> afsk_demod_ok af \<longrightarrow> afsk_demod_ok af'"
    by (erule afsk_flush.raw_induct [rotated]) (auto split: if_splits dest: tx_tick_demod)
qed

lemma txStart_same_rx: "same_rx af (afsk_txStart (af\<lparr>tx_fifo := f\<rparr>))"
  by (simp add: same_rx_def afsk_txStart_def AFSK_DAC_IRQ_START_def Let_def)

lemma write_demod: "afsk_write buf af = Some af' \<Longrightarrow> afsk_demod_ok af \<Longrightarrow> afsk_demod_ok af'"
proof (induction buf arbitrary: af)
  case (Cons c buf)
  then obtain af1 where 1: "afsk_wait_room af = Some af1"
    "afsk_write buf (afsk_txStart (af1\<lparr>tx_fifo := fifo_push (tx_fifo af1) c\<rparr>)) = Some af'"
    by (auto simp: bind_eq_Some_conv)
  from waits_demod(1) [OF 1(1)] Cons.prems(2) have "afsk_demod_ok af1" by blast
  then show ?case using Cons.IH [OF 1(2)] demod_ok_same [OF txStart_same_rx] by blast
qed simp

interpretation modem_wf: kfile_out afsk_fd modem_ok sent
proof unfold_locales
  show "modem_ok af \<Longrightarrow> \<exists>af'. k_write afsk_fd bs af = Some (length bs, af') \<and> modem_ok af' \<and> sent af' = sent af @ bs" for af bs
    using write_returns [of af bs] write_demod [of bs af] by (auto simp: afsk_fd_def modem_ok_def)
  show "modem_ok af \<Longrightarrow> \<exists>af'. k_flush afsk_fd af = Some af' \<and> modem_ok af' \<and> sent af' = sent af" for af
    using flush_returns [of af] waits_demod(2) [of af] by (auto simp: afsk_fd_def modem_ok_def)
qed

lemma modem_inv_ok: "modem_inv (af, False) = modem_ok af"
  by (auto simp: modem_inv_def modem_ok_def)

lemma modem_steps_ok:
  "modem_ok af \<Longrightarrow> modem_ok (snd (ADC_vect af adc))"
  "modem_ok af \<Longrightarrow> modem_ok (snd (afsk_read n af))"
  "modem_ok af \<Longrightarrow> modem_ok (afsk_clearerr af)"
  using modem_inv_step [of "(af, False)"] modem_step.sample [of af False adc] modem_step.read [of af False n]
    modem_step.clearerr [of af False] unfolding modem_inv_ok [symmetric] by blast+

lemma modem_samples_ok: "modem_ok af \<Longrightarrow> modem_ok (afsk_samples adcs af)"
  unfolding afsk_samples_def by (induction adcs arbitrary: af) (auto intro: modem_steps_ok)

lemma modem_getc_ok: "modem_ok af \<Longrightarrow> modem_ok (snd (kfile_getc afsk_fd af))"
  using modem_steps_ok(2) [of af 1]
  by (cases "afsk_read 1 af") (auto simp: kfile_getc_def afsk_fd_def split: list.splits)

section \<open>The serial port\<close>

definition ser_ok :: "Serial \<Rightarrow> bool" where
  "ser_ok port \<longleftrightarrow> ser_tx_ok port \<and> fifo_valid (rxfifo port) \<and> fifo_len (rxfifo port) = 31"

lemma ser_waits_rx:
  shows "ser_wait_tx port = Some port' \<Longrightarrow> rxfifo port' = rxfifo port"
    and "ser_flush port = Some port' \<Longrightarrow> rxfifo port' = rxfifo port"
proof -
  show "ser_wait_tx port = Some port' \<Longrightarrow> rxfifo port' = rxfifo port"
    by (erule ser_wait_tx.raw_induct [rotated]) (auto split: if_splits)
  show "ser_flush port = Some port' \<Longrightarrow> rxfifo port' = rxfifo port"
    by (erule ser_flush.raw_induct [rotated]) (auto split: if_splits)
qed

lemma ser_putchar_rx: "ser_putchar c port = Some (r, port') \<Longrightarrow> rxfifo port' = rxfifo port"
  by (auto simp: ser_putchar_def uart0_enabletxirq_def bind_eq_Some_conv split: if_splits dest!: ser_waits_rx)

lemma ser_write_rx: "ser_write buf i port = Some (n, port') \<Longrightarrow> rxfifo port' = rxfifo port"
  by (induction buf arbitrary: i port) (auto simp: bind_eq_Some_conv split: if_splits dest!: ser_putchar_rx)

interpretation serial_wf: kfile_out ser_fd ser_ok ser_sent
proof unfold_locales
  show "ser_ok port \<Longrightarrow> \<exists>port'. k_write ser_fd bs port = Some (length bs, port') \<and> ser_ok port' \<and> ser_sent port' = ser_sent port @ bs" for port bs
    using ser_out.write_all [of port bs] ser_write_rx [of bs 0 port] by (auto simp: ser_fd_def ser_ok_def)
  show "ser_ok port \<Longrightarrow> \<exists>port'. k_flush ser_fd port = Some port' \<and> ser_ok port' \<and> ser_sent port' = ser_sent port" for port
    using ser_out.flush_done [of port] ser_waits_rx(2) [of port] by (auto simp: ser_fd_def ser_ok_def)
qed

lemma ser_ops_ok:
  "ser_ok port \<Longrightarrow> ser_ok (ser_purge port)" "ser_ok port \<Longrightarrow> ser_ok (ser_setbaudrate r port)" "ser_ok port \<Longrightarrow> ser_ok (ser_clearerr port)"
  "ser_ok port \<Longrightarrow> ser_ok (USART0_RX_vect port st c)" "ser_ok port \<Longrightarrow> ser_ok (snd (ser_getchar_now port))"
  by (auto simp: ser_ok_def ser_purge_def ser_purgeTx_def ser_purgeRx_def ser_setbaudrate_def ser_clearerr_def USART0_RX_vect_def
      ser_getchar_now_def ser_take_def split_beta ser_tx_ok_def fifo_flush_valid fifo.valid_push fifo.valid_pop Let_def)

lemma ser_tick_keeps: "ser_ok port \<Longrightarrow> ser_ok (ser_tx_tick port)"
proof (cases "hw_sending port")
  case False
  assume "ser_ok port"
  with False have "ser_tx_tick port = port" by (simp add: ser_ok_def ser_tx_ok_def ser_tx_tick_def)
  with \<open>ser_ok port\<close> show ?thesis by simp
qed (simp add: ser_ok_def ser_tick_ok(1))

lemma ser_init_wf: "ser_ok (ser_init u)"
  using ser_init_ok [of u] by (simp add: ser_ok_def) (simp add: ser_init_def ser_open_def ser_settimeouts_def fifo_valid_init)

section \<open>The globals\<close>

definition modules_ok :: "('f, 'a) Main_scheme \<Rightarrow> bool" where
  "modules_ok w \<longleftrightarrow> ser_ok (g_serial w) \<and> reader_ok (g_serialreader w) \<and> cache_ok w \<and>
     length (cmdEntries w) = CONSOLE_MAX_COMMAND \<and> unat (cmdCount w) \<le> CONSOLE_MAX_COMMAND \<and>
     length (gps_term (g_gps w)) = MAX_TERMS \<and> softser_ok (softSer w)"

definition world_ok :: "('f, 'a) Main_scheme \<Rightarrow> bool" where
  "world_ok w \<longleftrightarrow> store_ok w \<and> modules_ok w"

lemma world_simps [simp]:
  fixes w :: "('f, 'a) Main_scheme"
  shows "world_ok (w\<lparr>clock := b\<rparr>) = world_ok w" "world_ok (w\<lparr>kiss_rxTick := d\<rparr>) = world_ok w" "world_ok (w\<lparr>kiss_escaped := e\<rparr>) = world_ok w"
    "world_ok (w\<lparr>digi_count := f\<rparr>) = world_ok w" "world_ok (w\<lparr>lastSendTimeSeconds := i\<rparr>) = world_ok w"
    "world_ok (w\<lparr>trk_lastSendTimeSeconds := k\<rparr>) = world_ok w" "world_ok (w\<lparr>lastLocation := l\<rparr>) = world_ok w"
    "world_ok (w\<lparr>run_start := m\<rparr>) = world_ok w" "world_ok (w\<lparr>resetting := q\<rparr>) = world_ok w" "world_ok (w\<lparr>currentMode := x\<rparr>) = world_ok w"
    "world_ok (soft_reset w) = world_ok w"
  by (simp_all add: world_ok_def modules_ok_def store_ok_def cache_ok_def soft_reset_def)

lemma world_updates:
  fixes w :: "('f, 'a) Main_scheme"
  shows "world_ok w \<Longrightarrow> ser_ok ser \<Longrightarrow> world_ok (w\<lparr>g_serial := ser\<rparr>)"
    "world_ok w \<Longrightarrow> reader_ok r \<Longrightarrow> world_ok (w\<lparr>g_serialreader := r\<rparr>)"
    "world_ok w \<Longrightarrow> length (gps_term gps) = MAX_TERMS \<Longrightarrow> world_ok (w\<lparr>g_gps := gps\<rparr>)"
    "world_ok w \<Longrightarrow> softser_ok sb \<Longrightarrow> world_ok (w\<lparr>softSer := sb\<rparr>)"
  by (simp_all add: world_ok_def modules_ok_def store_ok_def cache_ok_def)

lemma world_parts: "world_ok w \<Longrightarrow> ser_ok (g_serial w)" "world_ok w \<Longrightarrow> reader_ok (g_serialreader w)" "world_ok w \<Longrightarrow> store_ok w"
  "world_ok w \<Longrightarrow> length (gps_term (g_gps w)) = MAX_TERMS" "world_ok w \<Longrightarrow> softser_ok (softSer w)"
  by (simp_all add: world_ok_def modules_ok_def)

lemma modules_settings [simp]:
  fixes w :: "('f, 'a) Main_scheme"
  shows "modules_ok (settings_clear w) = modules_ok w" "modules_ok (settings_set_params key v w) = modules_ok w"
    "modules_ok (settings_set_call_data d w) = modules_ok w" "modules_ok (snd (settings_set_beacon_text b n w)) = modules_ok w"
    "modules_ok (snd (settings_set_params_bytes b2 n2 w)) = modules_ok w" "modules_ok (settings_saved w) = modules_ok w"
  by (simp_all add: modules_ok_def cache_ok_def settings_clear_def settings_set_params_def settings_set_call_data_def
      settings_set_beacon_text_def settings_set_params_bytes_def settings_saved_def Let_def)

lemma world_settings [keeps]:
  fixes w :: "('f, 'a) Main_scheme"
  shows "world_ok w \<Longrightarrow> world_ok (settings_clear w)" "world_ok w \<Longrightarrow> world_ok (settings_set_params key v w)"
    "world_ok w \<Longrightarrow> calldata_ok d \<Longrightarrow> world_ok (settings_set_call_data d w)"
    "world_ok w \<Longrightarrow> unat n \<le> length b \<Longrightarrow> world_ok (snd (settings_set_beacon_text b n w))"
    "world_ok w \<Longrightarrow> world_ok (snd (settings_set_params_bytes b2 n2 w))"
  by (simp_all add: world_ok_def inv_intros)

lemma store_ok_saved: "store_ok st \<Longrightarrow> store_ok (settings_saved st)"
  by (simp add: store_ok_def settings_saved_def eeprom_update_block_def length_settings_bytes)

lemma save_keeps [keeps]: "world_ok w \<Longrightarrow> ensures (settings_save w) (\<lambda>r. world_ok (snd r))"
  by (simp add: settings_save_ok world_parts) (simp add: world_ok_def store_ok_saved)

lemma globals_keeps [keeps]:
  fixes w :: "('f, 'a) Main_scheme"
  assumes "world_ok w"
  shows "ensures (g_printf fmt args w) world_ok" "ensures (g_putchar c w) world_ok" "ensures (g_flush w) world_ok"
    "ensures (g_delay ms w) world_ok" "ensures (g_print_msg msg w) world_ok" "ensures (g_print_P s w) world_ok"
proof -
  have bind: "ensures (do { ser \<leftarrow> m; Some (w\<lparr>g_serial := ser\<rparr>) }) world_ok" if "ensures m ser_ok" for m
    using that by (rule ensures_bind) (simp add: world_updates(1) assms)
  have bind2: "ensures (do { (a, ser) \<leftarrow> m; Some (w\<lparr>g_serial := ser\<rparr>) }) world_ok" if "ensures m (\<lambda>r. ser_ok (snd r))" for m :: "('b \<times> Serial) option"
    using that by (rule ensures_bind) (auto simp: world_updates(1) assms)
  note ok = world_parts(1) [OF assms]
  show "ensures (g_printf fmt args w) world_ok" "ensures (g_print_msg msg w) world_ok"
    unfolding g_printf_def g_print_msg_def by (intro bind serial_wf.printf_keeps serial_wf.print_msg_keeps ok)+
  have "ensures (ser_putchar c (g_serial w)) (\<lambda>r. ser_ok (snd r))"
    using ser_putchar_ok [of "g_serial w" c] ok ser_putchar_rx [of c "g_serial w"] by (auto simp: ensures_def ser_ok_def)
  then show "ensures (g_putchar c w) world_ok" unfolding g_putchar_def by (rule bind2)
  have "ensures (ser_flush (g_serial w)) ser_ok"
    using serial_wf.flush_done [OF ok] by (auto simp: ensures_def ser_fd_def)
  then show "ensures (g_flush w) world_ok" unfolding g_flush_def by (rule bind)
  show "ensures (g_delay ms w) world_ok" using assms by (auto simp: ensures_def g_delay_def bind_eq_Some_conv)
  have "ensures (kfile_print_P ser_fd s (g_serial w)) (\<lambda>r. ser_ok (snd r))"
    using serial_wf.print_keeps [OF ok] by (simp add: kfile_print_P_def)
  then show "ensures (g_print_P s w) world_ok" unfolding g_print_P_def by (rule bind2)
qed

lemma reader_updates [simp]: "reader_ok (r\<lparr>readLen := n\<rparr>) = reader_ok r" "reader_ok (r\<lparr>dataLen := m\<rparr>) = reader_ok r"
  "length b = READER_BUF_LEN \<Longrightarrow> reader_ok (r\<lparr>rd_buf := b\<rparr>) = (bufLen r = word_of_nat READER_BUF_LEN)"
  by (simp_all add: reader_ok_def)

lemma reader_okD: "reader_ok r \<Longrightarrow> length (rd_buf r) = READER_BUF_LEN" "reader_ok r \<Longrightarrow> bufLen r = word_of_nat READER_BUF_LEN"
  by (simp_all add: reader_ok_def)

lemma readline_ok: "ser_ok ser \<Longrightarrow> reader_ok r \<Longrightarrow> serialreader_readline (ser, r) = (n, ser', r') \<Longrightarrow> ser_ok ser' \<and> reader_ok r'"
  using ser_ops_ok(5) [of ser] reader_char_keeps [of r]
  by (auto simp: serialreader_readline_def split_beta split: prod.splits option.splits)

lemma duplicate_keeps: "world_ok w \<Longrightarrow> world_ok (snd (digi_check_is_duplicated msg w))"
proof -
  assume w: "world_ok w"
  then have c: "length (cache w) = CACHE_SIZE" "unat (cacheIndex w) \<le> 8" by (simp_all add: world_ok_def modules_ok_def cache_ok_def CACHE_SIZE_def)
  then have "unat (next_index (cacheIndex w)) \<le> CACHE_SIZE" by (auto simp: unat_next_index CACHE_SIZE_def)
  with w c show ?thesis
    by (simp add: check_eq remember_def world_ok_def modules_ok_def store_ok_def cache_ok_def)
qed

lemma world_ops [keeps]:
  fixes w :: "('f, 'a) Main_scheme"
  assumes "world_ok w"
  shows "world_ok (g_purge w)" "world_ok (g_setbaudrate r w)" "world_ok (set_readLen k w)" "world_ok (kiss_sanity w)"
    "world_ok (kiss_store c w)" "world_ok (snd (digi_check_is_duplicated msg w))" "world_ok (snd (g_readline w))"
proof -
  note p = world_parts [OF assms]
  show "world_ok (g_purge w)" "world_ok (g_setbaudrate r w)"
    by (simp_all add: g_purge_def g_setbaudrate_def world_updates assms p ser_ops_ok)
  show r: "world_ok (set_readLen k w)" for k by (simp add: set_readLen_def world_updates assms p)
  show "world_ok (kiss_sanity w)" using r by (simp add: kiss_sanity_def assms Let_def) (simp add: set_readLen_def world_updates assms p)
  show "world_ok (kiss_store c w)" using p(2)
    by (simp add: kiss_store_def Let_def world_updates assms reader_ok_def)
  show "world_ok (snd (digi_check_is_duplicated msg w))" by (rule duplicate_keeps) fact
  show "world_ok (snd (g_readline w))" using readline_ok [OF p(1,2)]
    by (auto simp: g_readline_def intro!: world_updates assms split: prod.splits)
qed

section \<open>KISS configuration\<close>

lemma send_to_serial_keeps [keeps]:
  fixes w :: "('f, 'a) Main_scheme"
  shows "world_ok w \<Longrightarrow> ensures (send_to_serial buf w) world_ok"
  by (induction buf arbitrary: w) (auto intro!: ensures_bind ensures_structure keeps)

lemma kiss_respond_keeps [keeps]:
  fixes w :: "('f, 'a) Main_scheme"
  assumes "world_ok w"
  shows "ensures (kiss_send_to_serial port cmd buf w) world_ok" "ensures (kiss_respond cmd buf crc w) world_ok"
    "ensures (kiss_respond_config_magic_cmd buf n w) world_ok"
proof -
  have b: "ensures (send_to_serial_begin port cmd v) world_ok" "ensures (send_to_serial_end v) world_ok"
    if "world_ok v" for port cmd and v :: "('f, 'a) Main_scheme"
    unfolding send_to_serial_begin_def send_to_serial_end_def by (rule ensures_bind keeps that | assumption)+
  show "ensures (kiss_send_to_serial port cmd buf w) world_ok"
    unfolding kiss_send_to_serial_def by (rule ensures_bind b keeps assms | assumption)+
  show r: "ensures (kiss_respond cmd buf crc w) world_ok" for cmd crc
    unfolding kiss_respond_def by (rule ensures_bind b keeps assms | assumption)+
  show "ensures (kiss_respond_config_magic_cmd buf n w) world_ok"
    unfolding kiss_respond_config_magic_cmd_def by (rule ensures_bind_pure, rule ensures_bind [OF r]) (rule keeps)
qed

lemma beacon_text_short: "settings_get_beacon_text n st = Some (t, k) \<Longrightarrow> length t \<le> 128"
proof -
  have "length (c_str (take (min m 128) xs)) \<le> 128" for m and xs :: bytes
    using length_c_str_le [of "take (min m 128) xs"] by (auto intro: order_trans)
  moreover have "length (take m DEFAULT_BEACON_TEXT) \<le> 128" for m by (simp add: DEFAULT_BEACON_TEXT_def str_def)
  ultimately show "settings_get_beacon_text n st = Some (t, k) \<Longrightarrow> length t \<le> 128"
    by (auto simp: settings_get_beacon_text_def Let_def eeprom_read_block_def SETTINGS_BEACON_TEXT_MAX_LEN_def
        simp del: length_take split: if_splits)
qed

lemma calldata_of_bytes_ok: "sizeof_CallData \<le> length b \<Longrightarrow> calldata_ok (calldata_of_bytes b)"
  by (simp add: calldata_ok_def calldata_of_bytes_def call_of_bytes_def sizeof_CallData_def)

lemma save_world: "settings_save w = Some (b, w') \<Longrightarrow> world_ok w \<Longrightarrow> world_ok w'"
  using ensuresD [OF save_keeps] by fastforce

lemma kiss_handlers_keep:
  fixes w :: "('f, 'a) Main_scheme"
  assumes "world_ok w" and "length buf = 329"
  shows "ensures (kiss_handle_config_params_cmd buf n w) world_ok"
    "ensures (kiss_handle_config_text_cmd buf n w) world_ok"
    "ensures (kiss_handle_config_call_cmd buf n w) world_ok"
    "ensures (kiss_handle_config_magic_cmd buf n w) world_ok"
proof -
  note c = calldata_of_bytes_ok [of buf]
  show "ensures (kiss_handle_config_params_cmd buf n w) world_ok"
    unfolding kiss_handle_config_params_cmd_def Let_def split_beta
    by (auto intro!: ensures_if ensures_bind_pure keeps intro: save_world simp: assms)
  have "world_ok (w\<lparr>g_serialreader := g_serialreader w\<lparr>readLen := 0, rd_buf := t @ [0] @ drop (length t + 1) (rd_buf (g_serialreader w))\<rparr>\<rparr>)"
    if "length t \<le> 128" for t
    using that world_parts(2) [OF assms(1)] by (intro world_updates assms) (simp add: reader_ok_def READER_BUF_LEN_def CONFIG_AX25_FRAME_BUF_LEN_def)
  note t = this [OF beacon_text_short, simplified]
  have "unat (ucast n :: u8) < 256" by (rule unat_u8_less)
  then have u: "unat (ucast n :: u8) \<le> 329" by linarith
  show "ensures (kiss_handle_config_text_cmd buf n w) world_ok"
    unfolding kiss_handle_config_text_cmd_def Let_def split_beta
    by (auto intro!: ensures_if ensures_bind_pure keeps simp: assms u t)
  show "ensures (kiss_handle_config_call_cmd buf n w) world_ok"
    unfolding kiss_handle_config_call_cmd_def Let_def
    by (auto intro!: ensures_if ensures_bind_pure keeps c simp: assms sizeof_CallData_def)
  show "ensures (kiss_handle_config_magic_cmd buf n w) world_ok"
    unfolding kiss_handle_config_magic_cmd_def Let_def
    by (auto intro!: ensures_if ensures_bind_pure [of "calc_crc _ _"] ensures_bind [OF kiss_respond_keeps(3)] keeps simp: assms)
qed

section \<open>The AX.25 layer\<close>

definition tnc_ok :: "('f, 'a) Main_scheme tnc \<Rightarrow> bool" where
  "tnc_ok s \<longleftrightarrow> (let (ctx, af, w) = s in ax25_ctx_ok ctx \<and> modem_ok af \<and> world_ok w)"

lemma tnc_ok_simps [simp]: "tnc_ok (ctx, af, w) \<longleftrightarrow> ax25_ctx_ok ctx \<and> modem_ok af \<and> world_ok w"
  by (simp add: tnc_ok_def)

lemma ctx_sends: "modem_wf.sends ctx r \<Longrightarrow> ax25_ctx_ok ctx \<Longrightarrow> ax25_ctx_ok (fst r) \<and> modem_ok (snd r)"
  by (simp add: modem_wf.sends_def ax25_ctx_ok_def)

lemma ctx_updates [simp]: "ax25_ctx_ok (ctx\<lparr>pass_through := b\<rparr>) = ax25_ctx_ok ctx" "ax25_ctx_ok (stat_rx_ok ctx) = ax25_ctx_ok ctx"
  "ax25_ctx_ok (stat_rx_err ctx) = ax25_ctx_ok ctx" "ax25_ctx_ok (ctx\<lparr>dcd := b\<rparr>) = ax25_ctx_ok ctx" "ax25_ctx_ok (ctx\<lparr>sync := b\<rparr>) = ax25_ctx_ok ctx"
  "ax25_ctx_ok (ctx\<lparr>escape := b\<rparr>) = ax25_ctx_ok ctx"
  by (simp_all add: ax25_ctx_ok_def stat_rx_ok_def stat_rx_err_def)

lemma ctx_flag: "ax25_ctx_ok ctx \<Longrightarrow> ax25_ctx_ok (ax25_flag ctx)"
  by (simp add: ax25_ctx_ok_def ax25_flag_def)

lemma ctx_store: "ax25_ctx_ok ctx \<Longrightarrow> ax25_ctx_ok (ax25_store ctx c)"
  by (auto simp: ax25_ctx_ok_def ax25_store_def stat_rx_err_def Let_def)

lemma sends_keep:
  assumes "ax25_ctx_ok ctx" and "modem_ok af"
  shows "ensures (ax25_sendVia afsk_fd path buf (ctx, af)) (\<lambda>r. ax25_ctx_ok (fst r) \<and> modem_ok (snd r))"
    "ensures (ax25_sendRaw afsk_fd buf (ctx, af)) (\<lambda>r. ax25_ctx_ok (fst r) \<and> modem_ok (snd r))"
    "ensures (ax25_sendMsg afsk_fd msg (ctx, af)) (\<lambda>r. ax25_ctx_ok (fst r) \<and> modem_ok (snd r))"
  using assms by (blast intro: ensures_weaken [OF modem_wf.sendVia_keeps] ensures_weaken [OF modem_wf.sendRaw_keeps]
      ensures_weaken [OF modem_wf.sendMsg_keeps] dest: ctx_sends)+

section \<open>The modules\<close>

lemma digi_keeps [keeps]:
  fixes s :: "('f, 'a) Main_scheme tnc"
  assumes "tnc_ok s"
  shows "ensures (digi_handle_aprs_message msg s) (\<lambda>r. tnc_ok (snd r))"
proof -
  have rep: "ensures (digi_repeat_message m (ctx, af, w)) (\<lambda>r. tnc_ok (snd r))"
    if "tnc_ok (ctx, af, w)" for m ctx af and w :: "('f, 'a) Main_scheme"
    using that unfolding digi_repeat_message_def Let_def
    by (auto intro!: ensures_bind [OF globals_keeps(4)] ensures_bind [OF globals_keeps(1)] ensures_bind [OF globals_keeps(5)]
        ensures_bind [OF sends_keep(3)])
  have at: "ensures (digi_repeat_at m i (ctx, af, w)) (\<lambda>r. tnc_ok (snd r))"
    if "tnc_ok (ctx, af, w)" for m i ctx af and w :: "('f, 'a) Main_scheme"
    using that duplicate_keeps [of w m] unfolding digi_repeat_at_def Let_def
    by (auto intro!: ensures_structure ensures_bind [OF globals_keeps(1)] ensures_bind [OF globals_keeps(5)] rep)
  obtain ctx af w where s: "s = (ctx, af, w)" by (cases s)
  have "ensures (digi_scan msg is s) (\<lambda>r. tnc_ok (snd r))" for "is"
    by (induction "is") (use assms at s in auto)
  then show ?thesis by (simp add: digi_handle_aprs_message_def)
qed

lemma beacon_send_keeps [keeps]:
  fixes s :: "('f, 'a) Main_scheme tnc"
  assumes "tnc_ok s"
  shows "ensures (beacon_send p n s) tnc_ok"
proof -
  obtain ctx af w where s: "s = (ctx, af, w)" by (cases s)
  with assms show ?thesis unfolding beacon_send_def Let_def s
    by (auto intro!: ensures_structure ensures_bind [OF sends_keep(1)] ensures_bind [OF globals_keeps(2)])
qed

lemma beacon_keeps [keeps]:
  fixes s :: "('f, 'a) Main_scheme tnc"
  assumes "tnc_ok s"
  shows "ensures (send_fixed_text busy s) tnc_ok" "ensures (beacon_broadcast_poll busy s) tnc_ok"
proof -
  have f: "ensures (send_fixed_text busy s) tnc_ok" if "tnc_ok s" for s :: "('f, 'a) Main_scheme tnc"
    unfolding send_fixed_text_def
    by (rule ensures_bind_pure, rule ensures_case_prod, rule ensures_bind [where Q = tnc_ok])
      (use that in \<open>auto intro!: ensures_structure keeps\<close>)
  show "ensures (send_fixed_text busy s) tnc_ok" by (rule f [OF assms])
  obtain ctx af w where s: "s = (ctx, af, w)" by (cases s)
  with assms show "ensures (beacon_broadcast_poll busy s) tnc_ok" unfolding beacon_broadcast_poll_def Let_def
    by (auto intro!: ensures_structure f ensures_bind [OF f])
qed

lemma test_message_keeps [keeps]:
  fixes s :: "('f, 'a) Main_scheme tnc"
  shows "tnc_ok s \<Longrightarrow> ensures (beacon_send_test_message_immediate busy n s) tnc_ok"
proof (induction n arbitrary: s)
  case (Suc n)
  then show ?case
    by (auto intro!: ensures_bind [OF beacon_keeps(1)] ensures_bind [where Q = world_ok] keeps ensures_structure)
qed simp

section \<open>The tracker\<close>

definition scan_sizes :: "nmea_scan \<Rightarrow> nat \<times> nat" where
  "scan_sizes sn = (length (gps_term (sn_gps sn)), length (sn_buf sn))"

lemma gps_accept_sizes:
  "ensures (gps_accept F ty sn) (\<lambda>r. scan_sizes (case r of Inl (b, sn') \<Rightarrow> sn' | Inr sn' \<Rightarrow> sn') = scan_sizes sn)"
  unfolding gps_accept_def Let_def by (intro ensures_bind_pure ensures_if) (simp_all add: scan_sizes_def)

lemma gps_parse_loop_sizes: "ensures (gps_parse_loop F ty ns sn) (\<lambda>r. scan_sizes (snd r) = scan_sizes sn)"
proof (induction ns arbitrary: sn)
  case (Cons n ns)
  have *: "ensures (gps_parse_loop F ty ns sn') (\<lambda>r. scan_sizes (snd r) = scan_sizes sn)" if "scan_sizes sn' = scan_sizes sn" for sn'
    using Cons.IH [of sn'] that by simp
  have "ensures (gps_accept F ty sn' \<bind> (\<lambda>r. case r of Inl res \<Rightarrow> Some res | Inr sn \<Rightarrow> gps_parse_loop F ty ns sn))
      (\<lambda>r. scan_sizes (snd r) = scan_sizes sn)" if "scan_sizes sn' = scan_sizes sn" for sn'
    by (rule ensures_bind [OF gps_accept_sizes]) (use that * in \<open>auto split: sum.splits\<close>)
  with * show ?case by (auto simp: Let_def scan_sizes_def)
qed simp

lemma gps_parse_sizes:
  "ensures (gps_parse F gps buf n) (\<lambda>(ok, gps', buf'). length (gps_term gps') = length (gps_term gps) \<and> length buf' = length buf)"
  unfolding gps_parse_def Let_def
  by (auto intro!: ensures_structure ensures_bind [OF gps_parse_loop_sizes] simp: scan_sizes_def)

lemma reader_reset_ok: "serialreader_reset (ser, r) = (ser', r') \<Longrightarrow> ser_ok ser \<Longrightarrow> reader_ok r \<Longrightarrow> ser_ok ser' \<and> reader_ok r'"
  by (auto simp: serialreader_reset_def ser_ops_ok)

lemma gps_init_keeps:
  fixes w :: "('f, 'a) Main_scheme"
  assumes "world_ok w"
  shows "ensures (gps_init w) (\<lambda>(gps, w'). length (gps_term gps) = MAX_TERMS \<and> world_ok w')"
  unfolding gps_init_def Let_def
  by (auto intro!: ensures_bind [OF globals_keeps(4)] ensures_bind [OF globals_keeps(6)] world_ops assms simp: gps_zero_def)

lemma tracker_keeps [keeps]:
  fixes w :: "('f, 'a) Main_scheme" and s :: "('f, 'a) Main_scheme tnc"
  shows "world_ok w \<Longrightarrow> ensures (tracker_init_gps w) world_ok" "tnc_ok s \<Longrightarrow> ensures (tracker_poll F s) tnc_ok"
proof -
  show "world_ok w \<Longrightarrow> ensures (tracker_init_gps w) world_ok" unfolding tracker_init_gps_def Let_def
    by (rule ensures_bind [OF gps_init_keeps])
      (auto intro!: ensures_case_prod world_updates dest: reader_reset_ok [OF _ world_parts(1,2)] split: prod.splits)
  have u: "ensures (tracker_update_location F buf (ctx, af, v)) tnc_ok" if "tnc_ok (ctx, af, v)" for buf ctx af and v :: "('f, 'a) Main_scheme"
    unfolding tracker_update_location_def Let_def prod.case
    by (auto intro!: ensures_structure ensures_bind_pure simp: that [simplified] dest!: ensuresD [OF beacon_send_keeps [OF that]])
  obtain ctx af v where s: "s = (ctx, af, v)" by (cases s)
  assume ok: "tnc_ok s"
  obtain n v1 where v1: "g_readline v = (n, v1)" by (cases "g_readline v")
  then have w1: "world_ok v1" using world_ops(7) [of v] ok s by simp
  have "world_ok (v1\<lparr>g_gps := gps, g_serialreader := g_serialreader v1\<lparr>rd_buf := buf\<rparr>\<rparr>)"
    if "length (gps_term gps) = length (gps_term (g_gps v1))" "length buf = length (rd_buf (g_serialreader v1))" for gps buf
    using that world_parts(2,4) [OF w1] by (intro world_updates w1) (simp_all add: reader_ok_def)
  with ok s have p: "ensures (case r of (ok, gps, buf) \<Rightarrow> if ok \<and> gps_valid gps
      then tracker_update_location F buf (ctx, af, v1\<lparr>g_gps := gps, g_serialreader := g_serialreader v1\<lparr>rd_buf := buf\<rparr>\<rparr>)
      else Some (ctx, af, v1\<lparr>g_gps := gps, g_serialreader := g_serialreader v1\<lparr>rd_buf := buf\<rparr>\<rparr>)) tnc_ok"
    if "case r of (ok, gps, buf) \<Rightarrow> length (gps_term gps) = length (gps_term (g_gps v1)) \<and> length buf = length (rd_buf (g_serialreader v1))" for r
    using that by (auto intro!: u split: prod.splits)
  show "ensures (tracker_poll F s) tnc_ok"
    unfolding tracker_poll_def s v1 Let_def prod.case
    by (rule ensures_if, rule ensures_bind [OF gps_parse_sizes p]) (use ok s w1 in auto)
qed

section \<open>The console\<close>

lemma from_string_ok: "length (call (ax25call_from_string b)) = 6"
proof -
  have "length (call (from_string_scan cs i st c)) = length (call c)" for cs i st c
    by (induction cs i st c rule: from_string_scan.induct) simp_all
  then show ?thesis by (simp add: ax25call_from_string_def)
qed

lemma path_of_text_ok: "calldata_ok d \<Longrightarrow> path_of_text b d = Some d' \<Longrightarrow> calldata_ok d'"
  by (auto simp: path_of_text_def calldata_ok_def from_string_ok split: option.splits)

lemma print_lines_keeps [keeps]:
  fixes w :: "('f, 'a) Main_scheme"
  shows "world_ok w \<Longrightarrow> ensures (print_lines ls w) world_ok"
  by (induction ls arbitrary: w) (auto intro!: ensures_bind [OF globals_keeps(1)])

lemma set_then_save:
  fixes w :: "('f, 'a) Main_scheme"
  shows "world_ok w \<Longrightarrow> ensures (map_option snd (settings_save (settings_set_params key v w))) world_ok"
  unfolding ensures_map by (rule save_keeps) (rule world_settings(2))

lemma console_cmds_keep:
  fixes w :: "('f, 'a) Main_scheme"
  assumes "world_ok w"
  shows "ensures (cmd_help w) world_ok" "ensures (cmd_settings_mycall v n w) world_ok" "ensures (cmd_settings_path v n w) world_ok"
    "ensures (cmd_settings_reset v n w) world_ok" "ensures (cmd_settings_symbol v n w) world_ok"
    "n \<le> length v \<Longrightarrow> ensures (cmd_settings_beacon_text v n w) world_ok" "ensures (cmd_settings_beacon_interval v n w) world_ok"
proof -
  note d = get_call_data_ok [OF world_parts(3) [OF assms]]
  show "ensures (cmd_help w) world_ok" by (simp add: cmd_help_def keeps assms)
  have "calldata_ok ((settings_get_call_data w)\<lparr>myCall := ax25call_from_string v\<rparr>)"
    using d by (simp add: calldata_ok_def from_string_ok)
  then show "ensures (cmd_settings_mycall v n w) world_ok" unfolding cmd_settings_mycall_def Let_def
    by (auto intro!: ensures_bind_pure keeps assms)
  show "ensures (cmd_settings_path v n w) world_ok" unfolding cmd_settings_path_def Let_def
    by (auto intro!: ensures_bind_pure keeps assms split: option.splits dest: path_of_text_ok [OF d])
  show "ensures (cmd_settings_reset v n w) world_ok" unfolding cmd_settings_reset_def
    by (auto intro!: ensures_if ensures_bind [where Q = world_ok] keeps assms)
  show "ensures (cmd_settings_symbol v n w) world_ok" "ensures (cmd_settings_beacon_interval v n w) world_ok"
    unfolding cmd_settings_symbol_def cmd_settings_beacon_interval_def Let_def
    by (rule ensures_bind [where Q = world_ok]; auto intro!: ensures_if set_then_save keeps assms)+
  assume "n \<le> length v"
  moreover have "unat (word_of_nat n :: u8) \<le> n" by (simp add: unat_of_nat)
  ultimately have "unat (word_of_nat n :: u8) \<le> length v" by simp
  then have ok: "world_ok (if 0 < n then snd (settings_set_beacon_text v (word_of_nat n) w) else w)" by (simp add: keeps assms)
  show "ensures (cmd_settings_beacon_text v n w) world_ok" unfolding cmd_settings_beacon_text_def Let_def
    by (rule ensures_bind_pure, rule ensures_case_prod, rule ensures_bind [OF globals_keeps(1) [OF ok] globals_keeps(1)])
qed

lemma on_globals_keeps:
  assumes "tnc_ok s" and "\<And>w. world_ok w \<Longrightarrow> ensures (f w) world_ok"
  shows "ensures (on_globals f s) tnc_ok"
  using assms by (cases s) (auto simp: on_globals_def intro!: ensures_bind [OF assms(2)])

lemma cmd_info_keeps [keeps]: "tnc_ok s \<Longrightarrow> ensures (cmd_info n s) (\<lambda>r. tnc_ok (snd r))"
  unfolding cmd_info_def Let_def
  by (cases s) (auto intro!: ensures_bind [where Q = world_ok] ensures_if keeps intro: ensures_bind_pure)

lemma cmd_test_send_keeps [keeps]: "tnc_ok s \<Longrightarrow> ensures (cmd_test_send busy v n s) tnc_ok"
  unfolding cmd_test_send_def Let_def
  by (cases s) (auto intro!: ensures_bind [OF globals_keeps(1)] ensures_bind [OF test_message_keeps])

lemma enter_mode_keeps:
  assumes "tnc_ok s" and "enter_mode i s = Some r"
  shows "ensures r tnc_ok"
  using assms unfolding enter_mode_def
  by (cases s) (auto intro!: on_globals_keeps keeps ensures_bind [OF globals_keeps(1)] ensures_bind [OF globals_keeps(3)] split: if_splits)

lemma save_mode_keeps: "world_ok w \<Longrightarrow> ensures (save_mode w) world_ok"
  unfolding save_mode_def by (auto intro!: ensures_if set_then_save)

lemma switch_mode_keeps [keeps]:
  assumes "tnc_ok s"
  shows "ensures (cmd_switch_mode v n s) (\<lambda>r. tnc_ok (snd r))"
proof -
  have g: "ensures (do { s \<leftarrow> on_globals (g_printf fmt args) s; Some (True, s) }) (\<lambda>r. tnc_ok (snd r))" for fmt args
    by (rule ensures_bind [OF on_globals_keeps [OF assms globals_keeps(1)]]) simp_all
  have "ensures (do { s \<leftarrow> r; s \<leftarrow> on_globals save_mode s; Some (True, s) }) (\<lambda>r. tnc_ok (snd r))" if "enter_mode i s = Some r" for i r
    by (rule ensures_bind [OF enter_mode_keeps [OF assms that]], rule ensures_bind [OF on_globals_keeps [OF _ save_mode_keeps]]) simp_all
  with g assms show ?thesis unfolding cmd_switch_mode_def Let_def by (simp split: option.splits)
qed

lemma cmd_run_keeps [keeps]:
  assumes "tnc_ok s" and "n \<le> length v"
  shows "ensures (cmd_run main_handlers h v n s) (\<lambda>r. tnc_ok (snd r))"
  using assms(2) unfolding cmd_run_def Let_def main_handlers_def cmd_enter_kiss_mode_def
  by (cases h) (auto simp: ensures_map intro!: on_globals_keeps [OF assms(1)] console_cmds_keep switch_mode_keeps assms(1))

lemma length_strupr: "length (c_strupr s) = length s"
  using length_c_str_le [of s] by (simp add: c_strupr_def c_strlen_def)

lemma split_ok:
  assumes "console_split command n = Some (Some (command', k, v, m))" and "length command = 330"
  shows "m \<le> length (drop v (take k command' @ c_strupr (drop k command')))"
proof -
  have "c_strlen (drop t command) mod 256 \<le> length (drop t command)" for t
    using length_c_str_le [of "drop t command"] by (auto simp: c_strlen_def intro: order_trans [OF mod_less_eq_dividend])
  then have "c_strlen (drop t command) mod 256 \<le> 330 - t" for t by (simp add: assms(2))
  then have "m \<le> 330 - v" "length command' = 330" using assms by (auto simp: console_split_def split: if_splits)
  moreover have "length (take k command' @ c_strupr (drop k command')) = length command'" by (simp add: length_strupr)
  ultimately show ?thesis by (simp only: length_drop)
qed

lemma console_parse_keeps [keeps]:
  fixes s :: "('f, 'a) Main_scheme tnc"
  assumes "tnc_ok s" and "length command = 330"
  shows "ensures (console_parse_command main_handlers busy command n s) tnc_ok"
proof -
  have g: "ensures (on_globals (g_printf fmt args) t) tnc_ok" if "tnc_ok t" for fmt args and t :: "('f, 'a) Main_scheme tnc"
    by (rule on_globals_keeps [OF that globals_keeps(1)])
  have i: "ensures (map_option snd (cmd_info k s)) tnc_ok" for k unfolding ensures_map by (rule cmd_info_keeps [OF assms(1)])
  have h: "ensures (do { (_, s) \<leftarrow> cmd_info k s; on_globals cmd_help s }) tnc_ok" for k
    by (rule ensures_bind [OF cmd_info_keeps [OF assms(1)]]) (auto intro!: on_globals_keeps console_cmds_keep(1))
  have r: "ensures (do { (ok, s) \<leftarrow> cmd_run main_handlers h v m s; if ok then Some s else on_globals (g_printf fmt args) s }) tnc_ok"
    if "m \<le> length v" for h v m fmt args
    by (rule ensures_bind [OF cmd_run_keeps [OF assms(1) that]]) (auto intro!: g)
  have c: "ensures (case console_lookup_command (drop k (take k c @ c_strupr (drop k c))) (snd (snd s)) of
        Some fun \<Rightarrow> do { (ok, s) \<leftarrow> cmd_run main_handlers fun (drop v (take k c @ c_strupr (drop k c))) m s;
          if ok then Some s else on_globals (g_printf (str ''INVALID CMD VALUE'' @ [13, 10]) []) s }
      | None \<Rightarrow> on_globals (g_printf (str ''UNKNOWN CMD: %.*s'' @ [13, 10]) [W n, P (Some (take k c @ c_strupr (drop k c)))]) s) tnc_ok"
    if "console_split command (unat n) = Some (Some (c, k, v, m))" for c k v m
    by (rule ensures_case_option [OF g [OF assms(1)] r [OF split_ok [OF that assms(2)]]])
  show ?thesis unfolding console_parse_command_def Let_def
    by (rule ensures_if, rule cmd_test_send_keeps [OF assms(1)], rule ensures_if, rule i, rule ensures_if, rule h,
        rule ensures_bind_pure, rule ensures_case_option, rule g [OF assms(1)], (rule ensures_case_prod)+, rule c) simp
qed

lemma console_poll_keeps [keeps]:
  assumes "tnc_ok s"
  shows "ensures (console_poll main_handlers busy s) tnc_ok"
proof -
  obtain ctx af w where s: "s = (ctx, af, w)" by (cases s)
  obtain n w1 where w1: "g_readline w = (n, w1)" by (cases "g_readline w")
  then have "world_ok w1" using world_ops(7) [of w] assms s by simp
  with assms s world_parts(2) [of w1] show ?thesis unfolding s
    by (auto simp: console_poll_def w1 Let_def intro!: console_parse_keeps simp: reader_ok_def READER_BUF_LEN_def CONFIG_AX25_FRAME_BUF_LEN_def)
qed

section \<open>Receiving\<close>

lemma callback_keeps [keeps]:
  assumes "tnc_ok s"
  shows "ensures (ax25_msg_callback m s) tnc_ok"
proof -
  have "ensures (map_option snd (digi_handle_aprs_message msg s)) tnc_ok" for msg
    unfolding ensures_map by (rule digi_keeps [OF assms])
  moreover have "ensures (on_globals (g_print_msg msg) s) tnc_ok" "ensures (on_globals (kiss_send_to_serial a b buf) s) tnc_ok" for msg a b buf
    by (rule on_globals_keeps [OF assms], rule keeps, assumption)+
  ultimately show ?thesis using assms
    by (cases s; cases "currentMode (snd (snd s))") (auto simp: ax25_msg_callback_def split: option.splits)
qed

lemma rx_char_keeps [keeps]:
  assumes "tnc_ok s"
  shows "ensures (ax25_rx_char (Some ax25_msg_callback) msg0 c s) tnc_ok"
proof -
  obtain ctx af w where s: "s = (ctx, af, w)" by (cases s)
  have "ensures (ax25_frame_end (Some ax25_msg_callback) msg0 s) tnc_ok"
    using assms unfolding s ax25_frame_end_def ax25_decode_def Let_def
    by (auto intro!: ensures_structure callback_keeps)
  then have "ensures (do { (ctx, r) \<leftarrow> ax25_frame_end (Some ax25_msg_callback) msg0 s; Some (ax25_flag ctx, r) }) tnc_ok"
    by (rule ensures_bind) (auto simp: ctx_flag)
  with assms show ?thesis unfolding s ax25_rx_char_def Let_def by (auto simp: ctx_store)
qed

lemma poll_loop_keeps: "ax25_poll_loop fd h m s = Some r \<Longrightarrow>
    fd = afsk_fd \<longrightarrow> h = Some ax25_msg_callback \<longrightarrow> tnc_ok s \<longrightarrow> tnc_ok r"
proof (erule ax25_poll_loop.raw_induct [rotated])
  fix f fd h m s r
  assume ih: "\<And>fd h m s r. f fd h m s = Some r \<Longrightarrow> fd = afsk_fd \<longrightarrow> h = Some ax25_msg_callback \<longrightarrow> tnc_ok s \<longrightarrow> tnc_ok r"
    and eq: "(case kfile_getc fd (fst (snd s)) of
        (None, ch) \<Rightarrow> Some (fst s, ch, snd (snd s))
      | (Some c, ch) \<Rightarrow> do { s \<leftarrow> ax25_rx_char h m c (fst s, ch, snd (snd s)); f fd h m s }) = Some r"
  obtain ctx af w where s: "s = (ctx, af, w)" by (cases s)
  show "fd = afsk_fd \<longrightarrow> h = Some ax25_msg_callback \<longrightarrow> tnc_ok s \<longrightarrow> tnc_ok r"
  proof (intro impI)
    assume fd: "fd = afsk_fd" and h: "h = Some ax25_msg_callback" and ok: "tnc_ok s"
    obtain c af1 where g: "kfile_getc afsk_fd af = (c, af1)" by (cases "kfile_getc afsk_fd af")
    then have ok1: "tnc_ok (ctx, af1, w)" using modem_getc_ok [of af] s ok by simp
    show "tnc_ok r"
    proof (cases c)
      case None
      with eq g ok1 show ?thesis by (simp add: s fd)
    next
      case (Some x)
      with eq g obtain s2 where "ax25_rx_char h m x (ctx, af1, w) = Some s2" "f fd h m s2 = Some r"
        by (simp add: s fd bind_eq_Some_conv) blast
      with ih [of fd h m s2 r] fd h ensuresD [OF rx_char_keeps [OF ok1]] show ?thesis by blast
    qed
  qed
qed

lemma poll_keeps [keeps]:
  assumes "tnc_ok s"
  shows "ensures (ax25_poll afsk_fd (Some ax25_msg_callback) msg0 s) tnc_ok"
proof -
  have "ensures (ax25_poll_loop afsk_fd (Some ax25_msg_callback) msg0 s) tnc_ok"
    using poll_loop_keeps assms by (blast intro: ensuresI)
  then show ?thesis unfolding ax25_poll_def
    by (rule ensures_bind) (auto simp: Let_def afsk_fd_def modem_steps_ok(3))
qed

section \<open>KISS frames\<close>

lemma transmit_keeps [keeps]: "tnc_ok s \<Longrightarrow> ensures (kiss_transmit buf s) tnc_ok"
  by (cases s) (auto simp: kiss_transmit_def intro!: ensures_bind [OF sends_keep(2)])

lemma csma_keeps [keeps]:
  fixes s :: "('f, 'a) Main_scheme tnc"
  shows "tnc_ok s \<Longrightarrow> ensures (kiss_csma (Some ax25_msg_callback) msg0 env buf s) tnc_ok"
proof (induction env arbitrary: s)
  case (Cons e env)
  obtain adcs rnd where e: "e = (adcs, rnd)" by (cases e)
  obtain ctx af w where s: "s = (ctx, af, w)" by (cases s)
  let ?af = "afsk_samples adcs af"
  have ok: "tnc_ok (ctx, ?af, w)" using Cons.prems s modem_samples_ok by simp
  have t: "ensures (kiss_transmit buf (ctx, ?af, w)) tnc_ok" by (rule transmit_keeps) fact
  have d: "ensures (do { w \<leftarrow> g_delay ms w; kiss_csma (Some ax25_msg_callback) msg0 env buf (ctx, ?af, w) }) tnc_ok" for ms
    using ok by (auto intro!: ensures_bind [OF globals_keeps(4)] Cons.IH)
  have p: "ensures (do { (ctx, af, w) \<leftarrow> ax25_poll afsk_fd (Some ax25_msg_callback) msg0 (ctx, ?af, w);
      if status af \<noteq> 0 then Some (ctx, af\<lparr>status := 0\<rparr>, w) else kiss_csma (Some ax25_msg_callback) msg0 env buf (ctx, af, w) }) tnc_ok"
    by (rule ensures_bind [OF poll_keeps [OF ok]])
      (use modem_steps_ok(3) in \<open>auto intro!: Cons.IH ensures_if simp: afsk_clearerr_def\<close>)
  show ?case unfolding e s kiss_csma.simps Let_def by (intro ensures_if t d p)
qed simp

lemma kiss_config_keeps:
  assumes "world_ok w" and "\<And>n. ensures (h payload n w) world_ok"
  shows "ensures (kiss_config h payload sz w) world_ok"
  unfolding kiss_config_def by (rule ensures_bind_pure) (auto intro: assms)

lemma handle_frame_keeps [keeps]:
  fixes s :: "('f, 'a) Main_scheme tnc"
  assumes "tnc_ok s" and "length frame = 330"
  shows "ensures (kiss_handle_frame (Some ax25_msg_callback) msg0 env frame sz s) tnc_ok"
proof -
  have l: "length (drop 1 frame) = 329" using assms(2) by simp
  have c: "ensures (on_globals (kiss_config h (drop 1 frame) sz) s) tnc_ok"
    if "\<And>n w. world_ok w \<Longrightarrow> ensures (h (drop 1 frame) n w) world_ok" for h
    by (rule on_globals_keeps [OF assms(1)], rule kiss_config_keeps) (rule that | assumption)+
  have m: "ensures (kiss_send_to_modem (Some ax25_msg_callback) msg0 env buf s) tnc_ok" for buf
    unfolding kiss_send_to_modem_def by (intro ensures_if keeps assms(1))
  show ?thesis unfolding kiss_handle_frame_def Let_def
    by (intro ensures_if m c kiss_handlers_keep l) (use assms(1) in auto)
qed

lemma kiss_char_keeps [keeps]:
  fixes s :: "('f, 'a) Main_scheme tnc"
  assumes "tnc_ok s"
  shows "ensures (kiss_char (Some ax25_msg_callback) msg0 env c s) tnc_ok"
proof -
  obtain ctx af w where s: "s = (ctx, af, w)" by (cases s)
  then have w: "world_ok (kiss_sanity w)" and ok: "tnc_ok (ctx, af, kiss_sanity w)" using assms by (simp_all add: world_ops(4))
  then have "length (rd_buf (g_serialreader (kiss_sanity w))) = 330"
    using world_parts(2) [OF w] by (simp add: reader_ok_def READER_BUF_LEN_def CONFIG_AX25_FRAME_BUF_LEN_def)
  note f = handle_frame_keeps [OF ok this]
  have "ensures (do { (ctx, af, w) \<leftarrow> (if b then kiss_handle_frame (Some ax25_msg_callback) msg0 env
        (rd_buf (g_serialreader (kiss_sanity w))) n (ctx, af, kiss_sanity w) else Some (ctx, af, kiss_sanity w));
      Some (ctx, af, (set_readLen 0 w)\<lparr>kiss_escaped := False\<rparr>) }) tnc_ok" for b n
    by (rule ensures_bind [where Q = tnc_ok]) (use ok f in \<open>auto simp: world_ops(3)\<close>)
  with ok show ?thesis unfolding s kiss_char_def Let_def by (auto simp: world_ops)
qed

lemma kiss_poll_keeps [keeps]:
  fixes s :: "('f, 'a) Main_scheme tnc"
  assumes "tnc_ok s"
  shows "ensures (kiss_poll (Some ax25_msg_callback) msg0 env s) tnc_ok"
proof -
  obtain ctx af w where s: "s = (ctx, af, w)" by (cases s)
  obtain c ser where g: "ser_getchar_now (g_serial w) = (c, ser)" by (cases "ser_getchar_now (g_serial w)")
  then have "tnc_ok (ctx, af, w\<lparr>g_serial := ser\<rparr>)"
    using assms s ser_ops_ok(5) [OF world_parts(1), of w] by (simp add: world_updates)
  then show ?thesis unfolding s kiss_poll_def kiss_poll_serial_def
    by (auto simp: g intro!: kiss_char_keeps split: option.splits)
qed

section \<open>The main loop\<close>

lemma check_run_mode_keeps [keeps]:
  fixes s :: "('f, 'a) Main_scheme tnc"
  assumes "tnc_ok s"
  shows "ensures (check_run_mode s) tnc_ok"
proof -
  have "ensures (map_option snd (cmd_switch_mode v n s)) tnc_ok" for v n
    unfolding ensures_map by (rule switch_mode_keeps [OF assms])
  with assms show ?thesis by (cases s) (auto simp: check_run_mode_def)
qed

lemma main_turn_keeps:
  fixes s :: "('f, 'a) Main_scheme tnc"
  assumes "tnc_ok s"
  shows "ensures (main_turn F msg0 env busy s) tnc_ok"
proof -
  have c: "ensures (do { s \<leftarrow> console_poll main_handlers busy t; beacon_broadcast_poll busy s }) tnc_ok" if "tnc_ok t" for t
    by (rule ensures_bind [OF console_poll_keeps [OF that] beacon_keeps(2)])
  show ?thesis unfolding main_turn_def
    by (rule ensures_bind [OF poll_keeps [OF assms]], rule ensures_bind [OF check_run_mode_keeps])
      (auto intro: c keeps split: RunMode.splits)
qed

section \<open>From power-on\<close>

text \<open>What holds before the registry of commands is set up.\<close>

definition booting :: "('f, 'a) Main_scheme \<Rightarrow> bool" where
  "booting w \<longleftrightarrow> store_ok w \<and> ser_ok (g_serial w) \<and> reader_ok (g_serialreader w) \<and> length (gps_term (g_gps w)) = MAX_TERMS \<and>
     softser_ok (softSer w)"

lemma booting_updates:
  "booting w \<Longrightarrow> softser_ok sb \<Longrightarrow> booting (w\<lparr>softSer := sb\<rparr>)" "booting w \<Longrightarrow> booting (w\<lparr>clock := c\<rparr>)"
  "booting w \<Longrightarrow> softser_ok (softSer w)"
  by (simp_all add: booting_def store_ok_def)

lemma load_boots: "booting w \<Longrightarrow> ensures (settings_load w) (\<lambda>r. booting (snd r))"
proof (rule ensuresI)
  fix r
  assume b: "booting w" and l: "settings_load w = Some r"
  obtain ok w' where r: "r = (ok, w')" by (cases r)
  have "length (symbol (beacon (settings_of_bytes x))) = 2" for x by (simp add: settings_of_bytes_def)
  with b l show "booting (snd r)"
    by (auto simp: r settings_load_def settings_clear_def booting_def store_ok_def Let_def bind_eq_Some_conv split: if_splits)
qed

definition radio_ready :: "('f, 'a) Main_scheme \<Rightarrow> bool" where
  "radio_ready w \<longleftrightarrow> booting w \<and> cache_ok w"

lemma radio_print_boots: "radio_ready w \<Longrightarrow> ensures (radio_print t w) radio_ready"
  by (auto simp: ensures_def radio_print_def g_delay_def bind_eq_Some_conv radio_ready_def cache_ok_def softser_print_ok booting_updates split: if_splits)

lemma radio_init_boots:
  assumes "booting w" and "cache_ok w"
  shows "ensures (radio_init f w) radio_ready"
proof -
  have "radio_ready (w\<lparr>softSer := hw_softser_start CFG_RADIO_PORT_BAUDRATE (hw_softser_init CFG_RADIO_RX_PIN (softSer w))\<rparr>)"
    using assms by (simp add: radio_ready_def cache_ok_def booting_updates softser_start_ok)
  then show ?thesis unfolding radio_init_def Let_def by (auto intro!: radio_print_boots ensures_bind [OF radio_print_boots])
qed

lemma add_command_ok: "world_ok w \<Longrightarrow> world_ok (console_add_command c h w)"
proof -
  assume w: "world_ok w"
  have "unat (cmdCount w + 1) \<le> CONSOLE_MAX_COMMAND" if "\<not> CONSOLE_MAX_COMMAND \<le> unat (cmdCount w)"
    using that unat_word_ariths(1) [of "cmdCount w" 1] by (simp add: CONSOLE_MAX_COMMAND_def)
  with w show ?thesis by (simp add: console_add_command_def world_ok_def modules_ok_def store_ok_def cache_ok_def)
qed

lemma console_init_keeps:
  assumes "ax25_ctx_ok ctx" and "modem_ok af" and "radio_ready w"
  shows "ensures (console_init (ctx, af, w)) tnc_ok"
proof -
  have "world_ok (w\<lparr>cmdEntries := replicate CONSOLE_MAX_COMMAND \<lparr>cmdName = None, cmdHandler = None\<rparr>, cmdCount := 0\<rparr>)"
    using assms(3) by (simp add: radio_ready_def booting_def world_ok_def modules_ok_def store_ok_def cache_ok_def)
  then show ?thesis unfolding console_init_def Let_def prod.case ensures_map
    by (intro cmd_info_keeps) (simp add: assms(1,2) add_command_ok)
qed

lemma main_init_keeps:
  assumes "store_ok w" and "length (gps_term (g_gps w)) = MAX_TERMS" and "softser_ok (softSer w)"
  shows "ensures (main_init w) tnc_ok"
proof -
  have "booting (w\<lparr>g_serial := ser_setbaudrate SER_DEFAULT_BAUD_RATE (ser_init 0), g_serialreader := serialreader_init\<rparr>)"
    using assms ser_ops_ok(2) [OF ser_init_wf] reader_ok_init by (simp add: booting_def store_ok_def)
  note load = load_boots [OF this]
  have "booting (digi_init (beacon_init (kiss_init v))) \<and> cache_ok (digi_init (beacon_init (kiss_init v)))"
    if "booting v" for v :: "('a, 'b) Main_scheme"
    using that by (simp add: booting_def digi_init_def beacon_init_def kiss_init_def store_ok_def cache_ok_def)
  note radio = radio_init_boots [OF this [THEN conjunct1] this [THEN conjunct2]]
  have c: "ax25_ctx_ok (ax25_init\<lparr>pass_through := False\<rparr>)" by (simp add: ax25_ctx_ok_def ax25_init_def)
  have m: "modem_ok (afsk_init 0 0)" by (simp add: modem_ok_def afsk_init_ok)
  show ?thesis unfolding main_init_def Let_def
    by (auto intro!: ensures_bind [OF load] ensures_bind [OF radio] ensures_bind [OF console_init_keeps] c m add_command_ok)
qed

section \<open>Properties\<close>

text \<open>
  C2. The types of the firmware's state hold in every state it reaches, whatever the radio, the host and time do: the
  frame buffer of the AX.25 layer and the line buffer of the serial reader keep their 330 bytes and the frame
  length stays within it, the queues of the modem and of the serial port stay valid with their capacities, the demodulator
  stays within its ranges, the settings, the call data and the beacon text keep their sizes in the
  EEPROM, the duplicate cache has 8 entries and its index stays within it, the command registry has 12 entries, the GPS
  decoder has 16 terms, and the receive buffer of the software serial port has 32 bytes with both indices within it.
\<close>

theorem firmware_well_formed:
  assumes "store_ok w" and "currentMode w = MODE_CFG" and "length (gps_term (g_gps w)) = MAX_TERMS" and "softser_ok (softSer w)"
  shows "\<exists>s0. main_init w = Some s0 \<and> (\<forall>s. firmware F s0 s \<longrightarrow> tnc_ok s)"
proof -
  obtain s0 where s0: "main_init w = Some s0" using main_init_coherent [OF assms(1,2)] by blast
  then have ok: "tnc_ok s0" using ensuresD [OF main_init_keeps [OF assms(1,3,4)]] by blast
  have "tnc_ok s" if "firmware F s0 s" for s
    using that
  proof induction
    case start
    show ?case by (rule ok)
  next
    case turn
    then show ?case using ensuresD [OF main_turn_keeps] by blast
  qed (simp_all add: modem_steps_ok ser_ops_ok ser_tick_keeps softser_interrupt_ok world_updates world_parts)
  with s0 show ?thesis by blast
qed

theorem firmware_well_formed_witness:
  "\<exists>s0. main_init example_main = Some s0 \<and> (\<forall>s. firmware example_floats s0 s \<longrightarrow> tnc_ok s)"
  by (rule firmware_well_formed)
    (use example_console_ok(2) in
      \<open>simp_all add: example_main_def example_tracker_def Console.defs Tracker.defs Radio.defs store_ok_def gps_zero_def
        softser_ok_def softser_statics_def SS_MAX_RX_BUFF_def\<close>)

end
