(* ===== verification/Radio_Link.thy ===== *)
theory Radio_Link
  imports Modes Afsk_Stream
begin

text \<open>
  Two stations on the air: what the AX.25 layer of one gives to its modem is, in the line code of the modulator, heard
  by the bit parser of the other while its main loop polls, and printed on its console. The demodulation of the
  samples into bits is outside: the receiver is given the bits of the line. The theory also connects the modem
  and the serial port to the interfaces for copying and receiving.
\<close>

section \<open>Channels of the program\<close>

interpretation serial_to_modem: kfile_copying ser_fd ser_rx_ok "\<lambda>port. fifo_list (rxfifo port)" afsk_fd afsk_tx_ok sent ..

interpretation modem_to_serial: kfile_copying afsk_fd afsk_rx_ok "\<lambda>af. fifo_list (rx_fifo af)" ser_fd ser_tx_ok ser_sent ..

text \<open>In the modes that do not look into the frames, receiving always comes back.\<close>

definition passing :: "Afsk \<times> ('f, 'a) Main_scheme \<Rightarrow> bool" where
  "passing s \<longleftrightarrow> currentMode (snd s) \<in> {MODE_KISS, MODE_TRACKER} \<and> ser_tx_ok (g_serial (snd s))"

lemma callback_passes:
  fixes w :: "('f, 'a) Main_scheme"
  assumes "passing (af, w)"
  shows "\<exists>w'. ax25_msg_callback m (ctx, af, w) = Some (ctx, af, w') \<and> passing (af, w')"
proof (cases "currentMode w = MODE_KISS")
  case True
  have "ser_tx_ok (g_serial w)" using assms by (simp add: passing_def)
  from puts_frame [OF this, of 0 0 "take (frm_len ctx - 2) (ax_buf ctx)"] obtain ser where
    "kiss_send_to_serial 0 0 (take (frm_len ctx - 2) (ax_buf ctx)) w = Some (w\<lparr>g_serial := ser\<rparr>)" "ser_tx_ok ser"
    by (auto elim!: g_putsE)
  with True show ?thesis by (simp add: ax25_msg_callback_def on_globals_def passing_def)
next
  case False
  with assms show ?thesis by (auto simp: ax25_msg_callback_def passing_def)
qed

interpretation main_rx: ax25_receiver afsk_fd afsk_rx_ok "\<lambda>af. fifo_list (rx_fifo af)" "Some ax25_msg_callback" passing
  by unfold_locales (use callback_passes in \<open>fastforce\<close>, simp add: passing_def)

lemma kiss_receive_returns:
  "afsk_rx_ok af \<Longrightarrow> passing (af, w) \<Longrightarrow> \<exists>s. ax25_poll afsk_fd (Some ax25_msg_callback) msg0 (ctx, af, w) = Some s"
  by (rule main_rx.poll_returns)

section \<open>The bit parser with room\<close>

text \<open>With room for two bytes in the FIFO the parser's output and its next state do not depend on the FIFO.\<close>

definition hdlc_shift :: "Hdlc \<Rightarrow> bool \<Rightarrow> u8" where
  "hdlc_shift h b = push_bit 1 (demod_bits h) OR (if b then 1 else 0)"

definition hdlc_char :: "Hdlc \<Rightarrow> bool \<Rightarrow> u8" where
  "hdlc_char h b = (if hdlc_shift h b AND 0x01 \<noteq> 0 then currchar h OR 0x80 else currchar h)"

definition hdlc_bytes :: "Hdlc \<Rightarrow> bool \<Rightarrow> bytes" where
  "hdlc_bytes h b =
     (let d = hdlc_shift h b
      in if d = HDLC_FLAG then [HDLC_FLAG]
         else if d AND HDLC_RESET = HDLC_RESET \<or> \<not> rxstart h \<or> d AND 0x3f = 0x3e \<or> \<not> 8 \<le> bit_idx h + 1 then []
         else ax25_escape [hdlc_char h b])"

definition hdlc_next :: "Hdlc \<Rightarrow> bool \<Rightarrow> Hdlc" where
  "hdlc_next h b =
     (let d = hdlc_shift h b; h = h\<lparr>demod_bits := d\<rparr>
      in if d = HDLC_FLAG then h\<lparr>rxstart := True, currchar := 0, bit_idx := 0\<rparr>
         else if d AND HDLC_RESET = HDLC_RESET then h\<lparr>rxstart := False\<rparr>
         else if \<not> rxstart h \<or> d AND 0x3f = 0x3e then h
         else if 8 \<le> bit_idx h + 1 then h\<lparr>currchar := 0, bit_idx := 0\<rparr>
         else h\<lparr>currchar := drop_bit 1 (if d AND 0x01 \<noteq> 0 then currchar h OR 0x80 else currchar h), bit_idx := bit_idx h + 1\<rparr>)"

lemma room_not_full: "fifo_room fifo [c] \<Longrightarrow> \<not> fifo_isfull fifo"
  by (simp add: fifo_room_def fifo.isfull_contents)

lemma room_push: "fifo_room fifo (c # cs) \<Longrightarrow> fifo_room (fifo_push fifo c) cs \<and> fifo_gains fifo [c] (fifo_push fifo c)"
  by (auto simp: fifo_room_def fifo_gains_def fifo.valid_push fifo.contents_push fifo.isfull_contents)

lemma parse_with_room:
  assumes "fifo_room fifo [c, e]"
  shows "\<exists>fifo'. hdlc_parse h b fifo = (True, hdlc_next h b, fifo') \<and> fifo_gains fifo (hdlc_bytes h b) fifo'"
proof -
  have n: "\<not> fifo_isfull fifo" "\<not> fifo_isfull (fifo_push fifo x)" for x
    using assms room_not_full room_push [of fifo x "[e]"] by (auto simp: fifo_room_def)
  have g: "fifo_gains fifo [] fifo" "fifo_gains fifo [x] (fifo_push fifo x)" for x
    using assms room_push [of fifo x "[e]"] by (auto simp: fifo_room_def fifo_gains_def)
  have g2: "fifo_gains fifo [x, y] (fifo_push (fifo_push fifo x) y)" for x y
    using room_push [of fifo x "[y]"] room_push [of "fifo_push fifo x" y "[]"] assms
    by (auto simp: fifo_room_def fifo_gains_def)
  show ?thesis
    by (auto simp: hdlc_parse_def hdlc_next_def hdlc_bytes_def hdlc_shift_def hdlc_char_def Let_def n g g2)
qed

text \<open>What a sequence of bits leaves: the bytes for the FIFO and the state of the parser.\<close>

fun hdlc_decode :: "Hdlc \<Rightarrow> bool list \<Rightarrow> bytes" where
  "hdlc_decode h [] = []"
| "hdlc_decode h (b # bs) = hdlc_bytes h b @ hdlc_decode (hdlc_next h b) bs"

definition hdlc_nexts :: "Hdlc \<Rightarrow> bool list \<Rightarrow> Hdlc" where
  "hdlc_nexts h bs = fold (\<lambda>b h. hdlc_next h b) bs h"

lemma hdlc_nexts_simps [simp]: "hdlc_nexts h [] = h" "hdlc_nexts h (b # bs) = hdlc_nexts (hdlc_next h b) bs"
  by (simp_all add: hdlc_nexts_def)

lemma hdlc_decode_append: "hdlc_decode h (xs @ ys) = hdlc_decode h xs @ hdlc_decode (hdlc_nexts h xs) ys"
  by (induction xs arbitrary: h) simp_all

lemma length_hdlc_bytes: "length (hdlc_bytes h b) \<le> 2"
  by (simp add: hdlc_bytes_def Let_def)

lemma length_hdlc_decode: "length (hdlc_decode h bs) \<le> 2 * length bs"
proof (induction bs arbitrary: h)
  case (Cons b bs)
  from Cons.IH [of "hdlc_next h b"] length_hdlc_bytes [of h b] show ?case by simp
qed simp

lemma parse_bits_with_room:
  "fifo_valid fifo \<Longrightarrow> length (fifo_list fifo) + 2 * length bs \<le> fifo_len fifo \<Longrightarrow>
   \<exists>fifo'. hdlc_parse_bits h bs fifo = (True, hdlc_nexts h bs, fifo') \<and> fifo_gains fifo (hdlc_decode h bs) fifo'"
proof (induction bs arbitrary: h fifo)
  case (Cons b bs)
  have "fifo_room fifo [0, 0]" using Cons.prems by (simp add: fifo_room_def)
  from parse_with_room [OF this, of h b] obtain f1 where
    1: "hdlc_parse h b fifo = (True, hdlc_next h b, f1)" "fifo_gains fifo (hdlc_bytes h b) f1" by blast
  have "fifo_valid f1" "length (fifo_list f1) + 2 * length bs \<le> fifo_len f1"
    using 1(2) Cons.prems length_hdlc_bytes [of h b] by (simp_all add: fifo_gains_def)
  from Cons.IH [OF this, of "hdlc_next h b"] obtain f2 where
    "hdlc_parse_bits (hdlc_next h b) bs f1 = (True, hdlc_nexts (hdlc_next h b) bs, f2)"
    "fifo_gains f1 (hdlc_decode (hdlc_next h b) bs) f2" by blast
  with 1 show ?case by (simp add: fifo_gains_trans)
qed (simp add: fifo_gains_refl)

lemma decode_line:
  assumes "well_framed False cs"
  shows "hdlc_decode hdlc_init (line_bits 0 cs) = rx_bytes cs"
proof -
  let ?k = "2 + length (rx_bytes cs) + 2 * length (line_bits 0 cs)"
  let ?f = "fifo_init (replicate ?k 0) ?k"
  have v: "fifo_valid ?f" by (rule fifo_valid_init) simp_all
  then have "fifo_room ?f (rx_bytes cs)" by (simp add: fifo_room_def)
  from parse_line [OF between_init _ this] assms obtain h1 f1 where
    "hdlc_parse_bits hdlc_init (line_bits 0 cs) ?f = (True, h1, f1)" "fifo_gains ?f (rx_bytes cs) f1"
    by (auto simp: hdlc_init_def)
  with parse_bits_with_room [OF v, of "line_bits 0 cs" hdlc_init] show ?thesis by (auto simp: fifo_gains_def)
qed

section \<open>The line code of a frame\<close>

lemma tx_chars_escape: "tx_chars (ax25_escape bs @ cs) = map Data bs @ tx_chars cs"
proof (induction bs)
  case (Cons c bs)
  show ?case
  proof (cases "hdlc_needs_esc c")
    case True
    then show ?thesis using Cons.IH by simp
  next
    case False
    then have "c \<noteq> AX25_ESC" "plain_char c = Data c" by (auto simp: hdlc_needs_esc_def plain_char_def)
    then have "tx_chars (c # ds) = Data c # tx_chars ds" for ds by (cases ds) simp_all
    with False Cons.IH show ?thesis by simp
  qed
qed simp

lemma tx_chars_on_channel: "tx_chars (on_channel body) = Raw HDLC_FLAG # map Data (with_fcs body) @ [Raw HDLC_FLAG]"
proof -
  have "tx_chars (HDLC_FLAG # ds) = Raw HDLC_FLAG # tx_chars ds" for ds
    by (cases ds) (simp_all add: plain_char_def hdlc_consts)
  then show ?thesis using tx_chars_escape [of "with_fcs body" "[HDLC_FLAG]"] by (simp add: on_channel_def plain_char_def)
qed

lemma well_framed_append:
  "well_framed s (xs @ ys) \<longleftrightarrow> well_framed s xs \<and> well_framed (s \<or> xs \<noteq> []) ys"
proof (induction xs arbitrary: s)
  case (Cons x xs)
  then show ?case by (cases x) auto
qed simp

lemma well_framed_data: "well_framed True (map Data bs)"
  by (induction bs) simp_all

lemma well_framed_flags: "well_framed s (replicate n (Raw HDLC_FLAG))"
  by (induction n arbitrary: s) simp_all

lemma well_framed_plan: "well_framed False (tx_plan p (on_channel body) t)"
  by (simp add: tx_plan_def tx_chars_on_channel well_framed_append well_framed_data well_framed_flags)

lemma rx_bytes_data: "rx_bytes (map Data bs) = ax25_escape bs"
  by (induction bs) (simp_all add: rx_char_def)

lemma rx_bytes_flags: "rx_bytes (replicate n (Raw HDLC_FLAG)) = replicate n HDLC_FLAG"
  by (induction n) (simp_all add: rx_char_def)

lemma rx_bytes_plan:
  "rx_bytes (tx_plan p (on_channel body) t) = replicate p HDLC_FLAG @ on_channel body @ replicate t HDLC_FLAG"
proof -
  have "rx_bytes (xs @ ys) = rx_bytes xs @ rx_bytes ys" for xs ys by (simp add: rx_bytes_def)
  then show ?thesis unfolding tx_plan_def tx_chars_on_channel
    by (simp add: rx_bytes_data rx_bytes_flags on_channel_def rx_char_def)
qed

section \<open>Hearing and polling\<close>

text \<open>A bit from the demodulator, and the main loop's polls between batches of bits.\<close>

definition hear_bit :: "bool \<Rightarrow> Afsk \<Rightarrow> Afsk" where
  "hear_bit b af =
     (let (ret, h, f) = hdlc_parse (hdlc af) b (rx_fifo af);
          af = af\<lparr>hdlc := h, rx_fifo := f\<rparr>
      in if \<not> ret then af\<lparr>status := status af OR AFSK_RXFIFO_OVERRUN\<rparr> else af)"

lemma take_bit_hears:
  "afsk_take_bit af =
     (let af = af\<lparr>curr_phase := word_of_int (sint (curr_phase af) mod PHASE_MAX), found_bits := afsk_found_bits af\<rparr>
      in hear_bit (\<not> EDGE_FOUND (found_bits af)) af)"
  by (simp add: afsk_take_bit_def hear_bit_def Let_def)

fun hear_and_poll ::
  "(Afsk, 'w) ax_hook option \<Rightarrow> AX25Msg \<Rightarrow> bool list list \<Rightarrow> 'w tnc \<Rightarrow> 'w tnc option" where
  "hear_and_poll hook msg0 [] s = Some s"
| "hear_and_poll hook msg0 (bits # batches) (ctx, af, w) =
     do { s \<leftarrow> ax25_poll afsk_fd hook msg0 (ctx, fold hear_bit bits af, w); hear_and_poll hook msg0 batches s }"

lemma hear_bits:
  "afsk_rx_ok af \<Longrightarrow> length (fifo_list (rx_fifo af)) + 2 * length bits \<le> 63 \<Longrightarrow>
   \<exists>f. fold hear_bit bits af = af\<lparr>hdlc := hdlc_nexts (hdlc af) bits, rx_fifo := f\<rparr> \<and>
     fifo_gains (rx_fifo af) (hdlc_decode (hdlc af) bits) f"
proof (induction bits arbitrary: af)
  case Nil
  then show ?case by (intro exI [of _ "rx_fifo af"]) (simp add: afsk_rx_ok_def fifo_gains_refl)
next
  case (Cons b bs)
  have "fifo_room (rx_fifo af) [0, 0]" using Cons.prems by (simp add: fifo_room_def afsk_rx_ok_def)
  from parse_with_room [OF this, of "hdlc af" b] obtain f1 where
    1: "hdlc_parse (hdlc af) b (rx_fifo af) = (True, hdlc_next (hdlc af) b, f1)" "fifo_gains (rx_fifo af) (hdlc_bytes (hdlc af) b) f1"
    by blast
  let ?af = "af\<lparr>hdlc := hdlc_next (hdlc af) b, rx_fifo := f1\<rparr>"
  have "hear_bit b af = ?af" using 1(1) by (simp add: hear_bit_def)
  moreover have "afsk_rx_ok ?af" "length (fifo_list (rx_fifo ?af)) + 2 * length bs \<le> 63"
    using 1(2) Cons.prems length_hdlc_bytes [of "hdlc af" b] by (simp_all add: fifo_gains_def afsk_rx_ok_def)
  ultimately show ?case using Cons.IH [of ?af] 1(2) by (auto intro: fifo_gains_trans)
qed

section \<open>The monitor\<close>

text \<open>What the callback does in the console mode, on a state without the modem.\<close>

definition monitor :: "(unit, ('f, 'a) Main_scheme) ax_hook" where
  "monitor m s =
     (let (ctx, u, w) = s in case m of None \<Rightarrow> None | Some msg \<Rightarrow> do { w \<leftarrow> g_print_msg msg w; Some (ctx, u, w) })"

lemma rx_char_monitor:
  fixes w :: "('f, 'a) Main_scheme"
  assumes "currentMode w = MODE_CFG"
  shows "ax25_rx_char (Some ax25_msg_callback) msg0 c (ctx, af, w) =
    map_option (\<lambda>(ctx, u, w). (ctx, af, w)) (ax25_rx_char (Some monitor) msg0 c (ctx, (), w))"
proof -
  have h: "ax25_msg_callback m (ctx, af, w) = map_option (\<lambda>(ctx, u, w). (ctx, af, w)) (monitor m (ctx, (), w))" for m ctx
    using assms by (cases m) (auto simp: ax25_msg_callback_def monitor_def on_globals_def split: Option.bind_splits)
  have "ax25_frame_end (Some ax25_msg_callback) msg0 (ctx, af, w) =
      map_option (\<lambda>(ctx, u, w). (ctx, af, w)) (ax25_frame_end (Some monitor) msg0 (ctx, (), w))"
    by (simp add: ax25_frame_end_def ax25_decode_def h Let_def split: option.splits)
  then show ?thesis by (auto simp: ax25_rx_char_def Let_def split: Option.bind_splits option.splits)
qed

lemma rx_chars_unit:
  assumes "ax25_rx_chars hook msg0 (cs @ ds) (ctx, (), w) = Some (ctx', (), w')"
  obtains ctx1 w1 where "ax25_rx_chars hook msg0 cs (ctx, (), w) = Some (ctx1, (), w1)"
    "ax25_rx_chars hook msg0 ds (ctx1, (), w1) = Some (ctx', (), w')"
proof -
  obtain s1 where s1: "ax25_rx_chars hook msg0 cs (ctx, (), w) = Some s1" "ax25_rx_chars hook msg0 ds s1 = Some (ctx', (), w')"
    using assms unfolding ax25_rx_chars_append bind_eq_Some_conv by blast
  obtain ctx1 w1 where "s1 = (ctx1, (), w1)" by (cases s1) auto
  with s1 show thesis using that by blast
qed

lemma rx_chars_one: "ax25_rx_chars hook msg0 [c] s = ax25_rx_char hook msg0 c s"
  by (cases "ax25_rx_char hook msg0 c s") simp_all

lemma modem_getc:
  assumes "afsk_rx_ok af"
  shows "\<exists>f. kfile_getc afsk_fd af = (case fifo_list (rx_fifo af) of [] \<Rightarrow> None | c # _ \<Rightarrow> Some c, af\<lparr>rx_fifo := f\<rparr>) \<and>
    afsk_rx_ok (af\<lparr>rx_fifo := f\<rparr>) \<and> fifo_list f = tl (fifo_list (rx_fifo af))"
proof -
  obtain bs af' where r: "afsk_read (Suc 0) af = (bs, af')" by (cases "afsk_read (Suc 0) af")
  from read_takes [OF assms r] have r': "bs = take (Suc 0) (fifo_list (rx_fifo af))"
    "fifo_list (rx_fifo af') = tl (fifo_list (rx_fifo af))" "afsk_rx_ok af'" "af' = af\<lparr>rx_fifo := rx_fifo af'\<rparr>"
    by (auto simp: drop_Suc)
  then have "kfile_getc afsk_fd af = (case fifo_list (rx_fifo af) of [] \<Rightarrow> None | c # _ \<Rightarrow> Some c, af')"
    using r by (simp add: kfile_getc_def afsk_fd_def split: list.splits)
  with r' show ?thesis by (intro exI [of _ "rx_fifo af'"]) simp
qed

lemma poll_monitor:
  fixes w :: "('f, 'a) Main_scheme"
  assumes "currentMode w = MODE_CFG" and "afsk_rx_ok af" and "status af = 0"
    and "ax25_rx_chars (Some monitor) msg0 (fifo_list (rx_fifo af)) (ctx, (), w) = Some (ctx', (), w')"
  shows "currentMode w' = MODE_CFG \<and> (\<exists>f. ax25_poll afsk_fd (Some ax25_msg_callback) msg0 (ctx, af, w) =
      Some (ctx', af\<lparr>rx_fifo := f\<rparr>, w') \<and> afsk_rx_ok (af\<lparr>rx_fifo := f\<rparr>) \<and> fifo_list f = [])"
proof -
  have "currentMode w' = MODE_CFG \<and> (\<exists>f. ax25_poll_loop afsk_fd (Some ax25_msg_callback) msg0 (ctx, af, w) =
      Some (ctx', af\<lparr>rx_fifo := f\<rparr>, w') \<and> afsk_rx_ok (af\<lparr>rx_fifo := f\<rparr>) \<and> fifo_list f = [])"
    using assms(1,2,4)
  proof (induction "fifo_list (rx_fifo af)" arbitrary: ctx af w)
    case Nil
    from modem_getc [OF Nil.prems(2)] Nil.hyps obtain f where
      "kfile_getc afsk_fd af = (None, af\<lparr>rx_fifo := f\<rparr>)" "afsk_rx_ok (af\<lparr>rx_fifo := f\<rparr>)" "fifo_list f = []" by auto
    with Nil show ?case by (subst ax25_poll_loop.simps) (auto intro: exI [of _ f])
  next
    case (Cons c cs)
    from modem_getc [OF Cons.prems(2)] Cons.hyps(2) obtain f where
      f: "kfile_getc afsk_fd af = (Some c, af\<lparr>rx_fifo := f\<rparr>)" "afsk_rx_ok (af\<lparr>rx_fifo := f\<rparr>)" "fifo_list f = cs"
      by (auto split: list.splits)
    obtain ctx1 w1 where
      1: "ax25_rx_char (Some monitor) msg0 c (ctx, (), w) = Some (ctx1, (), w1)"
      "ax25_rx_chars (Some monitor) msg0 cs (ctx1, (), w1) = Some (ctx', (), w')"
      using rx_chars_unit [of "Some monitor" msg0 "[c]" cs ctx w ctx' w'] Cons.prems(3) Cons.hyps(2) [symmetric]
      unfolding rx_chars_one by simp metis
    have 2: "ax25_rx_char (Some ax25_msg_callback) msg0 c (ctx, af\<lparr>rx_fifo := f\<rparr>, w) = Some (ctx1, af\<lparr>rx_fifo := f\<rparr>, w1)"
      using rx_char_monitor [OF Cons.prems(1)] 1(1) by simp
    from rx_char_kept [OF this] Cons.prems(1) have "currentMode w1 = MODE_CFG" by (simp add: mview_def)
    from Cons.hyps(1) [of "af\<lparr>rx_fifo := f\<rparr>", OF _ this f(2)] f(3) 1(2) show ?case
      by (subst ax25_poll_loop.simps) (simp add: f(1) 2)
  qed
  then show ?thesis using assms(3) by (auto simp: ax25_poll_def afsk_fd_def afsk_error_def)
qed

lemma hear_and_poll_monitor:
  fixes w :: "('f, 'a) Main_scheme"
  shows "currentMode w = MODE_CFG \<Longrightarrow> afsk_rx_ok af \<Longrightarrow> status af = 0 \<Longrightarrow> fifo_list (rx_fifo af) = [] \<Longrightarrow>
    list_all (\<lambda>bits. length bits \<le> 31) batches \<Longrightarrow>
    ax25_rx_chars (Some monitor) msg0 (hdlc_decode (hdlc af) (concat batches)) (ctx, (), w) = Some (ctx', (), w') \<Longrightarrow>
    \<exists>af'. hear_and_poll (Some ax25_msg_callback) msg0 batches (ctx, af, w) = Some (ctx', af', w')"
proof (induction batches arbitrary: ctx af w)
  case (Cons bits batches)
  obtain f where f: "fold hear_bit bits af = af\<lparr>hdlc := hdlc_nexts (hdlc af) bits, rx_fifo := f\<rparr>"
    "fifo_gains (rx_fifo af) (hdlc_decode (hdlc af) bits) f"
    using hear_bits [OF Cons.prems(2), of bits] Cons.prems(4,5) by auto
  let ?af = "af\<lparr>hdlc := hdlc_nexts (hdlc af) bits, rx_fifo := f\<rparr>"
  have af: "afsk_rx_ok ?af" "status ?af = 0" "fifo_list (rx_fifo ?af) = hdlc_decode (hdlc af) bits"
    using f(2) Cons.prems(2-4) by (simp_all add: afsk_rx_ok_def fifo_gains_def)
  from Cons.prems(6) obtain ctx1 w1 where
    1: "ax25_rx_chars (Some monitor) msg0 (fifo_list (rx_fifo ?af)) (ctx, (), w) = Some (ctx1, (), w1)"
    "ax25_rx_chars (Some monitor) msg0 (hdlc_decode (hdlc_nexts (hdlc af) bits) (concat batches)) (ctx1, (), w1) = Some (ctx', (), w')"
    using rx_chars_unit [of "Some monitor" msg0 "hdlc_decode (hdlc af) bits" _ ctx w ctx' w'] af(3)
    by (simp only: hdlc_decode_append concat.simps) blast
  from poll_monitor [OF Cons.prems(1) af(1,2) 1(1)] obtain f1 where
    2: "currentMode w1 = MODE_CFG" "ax25_poll afsk_fd (Some ax25_msg_callback) msg0 (ctx, ?af, w) = Some (ctx1, ?af\<lparr>rx_fifo := f1\<rparr>, w1)"
    "afsk_rx_ok (?af\<lparr>rx_fifo := f1\<rparr>)" "fifo_list f1 = []" by blast
  from Cons.IH [OF 2(1,3), of ctx1] 2(4) af(2) Cons.prems(5) 1(2) f(1) 2(2) show ?case by simp
qed simp

lemma rx_flags:
  assumes "\<not> escape ctx" and "frm_len ctx < AX25_MIN_FRAME_LEN"
  shows "\<exists>ctx'. ax25_rx_chars hook msg0 (replicate n HDLC_FLAG) (ctx, r) = Some (ctx', r) \<and> (idle ctx \<longrightarrow> idle ctx') \<and> stat ctx' = stat ctx"
  using assms
proof (induction n arbitrary: ctx)
  case (Suc n)
  have "ax25_rx_char hook msg0 HDLC_FLAG (ctx, r) = Some (ax25_flag ctx, r)"
    using Suc.prems by (simp add: ax25_rx_char_def ax25_frame_end_def)
  moreover have "\<not> escape (ax25_flag ctx)" "frm_len (ax25_flag ctx) < AX25_MIN_FRAME_LEN" "stat (ax25_flag ctx) = stat ctx"
    "idle ctx \<longrightarrow> idle (ax25_flag ctx)"
    using Suc.prems by (simp_all add: ax25_flag_def AX25_MIN_FRAME_LEN_def idle_def)
  ultimately show ?case using Suc.IH [of "ax25_flag ctx"] by auto
qed auto

lemma carries_printable:
  assumes "carries msg dst src rpts rep info" and "valid_call dst" "valid_call src" "list_all valid_call rpts"
    and "info \<noteq> []" and "length info < 32768"
  shows "printable msg"
proof -
  have "length info \<le> length (m_info msg)"
    using assms(1) length_take [of "length info" "m_info msg"] by (simp add: carries_def)
  moreover have "unat (m_len msg) \<noteq> 0" using assms(1,5) by (simp add: carries_def)
  then have "0 < m_len msg" by (simp add: word_gt_0 unat_eq_0)
  ultimately show ?thesis using assms by (simp add: printable_def carries_def valid_call_def list_all_iff)
qed

lemma monitored:
  fixes w :: "('f, 'a) Main_scheme"
  assumes "idle ctx" and "ser_tx_ok (g_serial w)" and "valid_call dst" and "valid_call src" and "list_all valid_call rpts"
    and "length rpts \<le> 8" and "7 * length rpts + length info \<le> 312" and "info \<noteq> []" and "length (rpt_lst msg0) = 8"
  shows "\<exists>ctx' w' msg. ax25_rx_chars (Some monitor) msg0
      (replicate p HDLC_FLAG @ on_channel (via_body (dst # src # rpts) info) @ replicate t HDLC_FLAG) (ctx, (), w) = Some (ctx', (), w') \<and>
    carries msg dst src rpts (\<lambda>i. False) info \<and> rx_ok (stat ctx') = rx_ok (stat ctx) + 1 \<and>
    ser_sent (g_serial w') = ser_sent (g_serial w) @ monitor_text msg"
proof -
  obtain ctx1 where 1: "ax25_rx_chars (Some monitor) msg0 (replicate p HDLC_FLAG) (ctx, (), w) = Some (ctx1, (), w)" "idle ctx1"
    "stat ctx1 = stat ctx" using rx_flags [of ctx "Some monitor" msg0 p "((), w)"] assms(1) by (auto simp: idle_def)
  from rx_message [OF 1(2) assms(3-7) assms(9), of monitor "\<lambda>i. False" "((), w)"] obtain ctx2 msg where
    2: "ax25_rx_chars (Some monitor) msg0 (on_channel (via_body (dst # src # rpts) info)) (ctx1, (), w) =
       do { (ctx, r) \<leftarrow> monitor (Some msg) (ctx2, (), w); Some (ax25_flag ctx, r) }"
    "carries msg dst src rpts (\<lambda>i. False) info" "stat ctx2 = (stat ctx1)\<lparr>rx_ok := rx_ok (stat ctx1) + 1\<rparr>" "\<not> escape ctx2"
    unfolding via_body_frame by blast
  have "printable msg" using carries_printable [OF 2(2) assms(3-5,8)] assms(7) by simp
  from g_puts_print_msg [OF this assms(2)] obtain ser where
    3: "g_print_msg msg w = Some (w\<lparr>g_serial := ser\<rparr>)" "ser_sent ser = ser_sent (g_serial w) @ monitor_text msg"
    by (auto elim!: g_putsE)
  obtain ctx3 where 4: "ax25_rx_chars (Some monitor) msg0 (replicate t HDLC_FLAG) (ax25_flag ctx2, (), w\<lparr>g_serial := ser\<rparr>) =
      Some (ctx3, (), w\<lparr>g_serial := ser\<rparr>)" "stat ctx3 = stat ctx2"
    using rx_flags [of "ax25_flag ctx2" "Some monitor" msg0 t "((), w\<lparr>g_serial := ser\<rparr>)"] 2(4)
    by (auto simp: ax25_flag_def AX25_MIN_FRAME_LEN_def)
  show ?thesis
    by (intro exI [of _ ctx3] exI [of _ "w\<lparr>g_serial := ser\<rparr>"] exI [of _ msg])
      (use 1(3) 2(2,3) 3(2) 4(2) in \<open>simp add: ax25_rx_chars_append 1(1) 2(1) 3(1) 4(1) monitor_def\<close>)
qed

section \<open>Properties\<close>

text \<open>
  C1. From station to station: a message given to \<^verbatim>\<open>ax25_sendVia\<close> of one firmware, whose transmitter is at rest, is
  printed on the console of another one that hears the line in console mode. The sending returns, however long the
  frame is compared with the modulator's FIFO, and so does flushing it; the bits that are on the line by then, heard
  by the other station in any batches between which its main loop polls at least every 31 bits, make it print
  one message, which carries exactly the addresses and the payload sent and is counted as one good frame.
\<close>

theorem heard_on_console:
  fixes w :: "('f, 'a) Main_scheme"
  assumes "afsk_tx_ok tx" and "tx_rest tx" and "valid_call dst" and "valid_call src" and "list_all valid_call rpts"
    and "length rpts \<le> 8" and "7 * length rpts + length info \<le> 312" and "info \<noteq> []"
    and "idle ctx" and "currentMode w = MODE_CFG" and "ser_tx_ok (g_serial w)" and "length (rpt_lst msg0) = 8"
    and "afsk_rx_ok af" and "hdlc af = hdlc_init" and "fifo_list (rx_fifo af) = []" and "status af = 0"
  shows "\<exists>ctx2 tx' tx''. ax25_sendVia afsk_fd (dst # src # rpts) info (ctx1, tx) = Some (ctx2, tx') \<and>
    afsk_flush tx' = Some tx'' \<and> tx_rest tx'' \<and> (\<exists>bits. tone_line tx'' = tone_line tx @ bits) \<and>
    (\<forall>batches. tone_line tx'' = tone_line tx @ concat batches \<longrightarrow> list_all (\<lambda>bits. length bits \<le> 31) batches \<longrightarrow>
      (\<exists>ctx' af' w' msg. hear_and_poll (Some ax25_msg_callback) msg0 batches (ctx, af, w) = Some (ctx', af', w') \<and>
        carries msg dst src rpts (\<lambda>i. False) info \<and> rx_ok (stat ctx') = rx_ok (stat ctx) + 1 \<and>
        ser_sent (g_serial w') = ser_sent (g_serial w) @ monitor_text msg))"
proof -
  let ?es = "on_channel (via_body (dst # src # rpts) info)"
  obtain ctx2 tx' tx'' where 1: "ax25_sendVia afsk_fd (dst # src # rpts) info (ctx1, tx) = Some (ctx2, tx')"
    "afsk_flush tx' = Some tx''" "tx_rest tx''" "tone_line tx'' = tone_line tx @ line_bits 0 (tx_plan 53 ?es 11)"
    using sendVia_on_line [OF assms(1,2), of "dst # src # rpts" info ctx1] by blast
  have "\<exists>ctx' af' w' msg. hear_and_poll (Some ax25_msg_callback) msg0 batches (ctx, af, w) = Some (ctx', af', w') \<and>
      carries msg dst src rpts (\<lambda>i. False) info \<and> rx_ok (stat ctx') = rx_ok (stat ctx) + 1 \<and>
      ser_sent (g_serial w') = ser_sent (g_serial w) @ monitor_text msg"
    if b: "tone_line tx'' = tone_line tx @ concat batches" "list_all (\<lambda>bits. length bits \<le> 31) batches" for batches
  proof -
    from monitored [OF assms(9,11,3-8,12), of 53 11] obtain ctx' w' msg where
      m: "ax25_rx_chars (Some monitor) msg0 (replicate 53 HDLC_FLAG @ ?es @ replicate 11 HDLC_FLAG) (ctx, (), w) = Some (ctx', (), w')"
      "carries msg dst src rpts (\<lambda>i. False) info" "rx_ok (stat ctx') = rx_ok (stat ctx) + 1"
      "ser_sent (g_serial w') = ser_sent (g_serial w) @ monitor_text msg" by blast
    have "concat batches = line_bits 0 (tx_plan 53 ?es 11)" using b(1) 1(4) by simp
    then have "hdlc_decode (hdlc af) (concat batches) = replicate 53 HDLC_FLAG @ ?es @ replicate 11 HDLC_FLAG"
      unfolding assms(14) by (simp only: decode_line [OF well_framed_plan] rx_bytes_plan)
    with hear_and_poll_monitor [OF assms(10,13,16,15) b(2), of msg0 ctx] m show ?thesis by fastforce
  qed
  with 1 show ?thesis by blast
qed

lemma example_receiver:
  "hdlc (afsk_init 0 0) = hdlc_init" "fifo_list (rx_fifo (afsk_init 0 0)) = []" "status (afsk_init 0 0) = 0"
  "currentMode example_main = MODE_CFG" "ser_tx_ok (g_serial example_main)" "afsk_rx_ok (afsk_init 0 0)"
  using example_console_ok(1) afsk_init_ok(2) [of 0 0]
  by (simp_all add: afsk_demod_ok_def)
    (simp_all add: afsk_init_def hdlc_init_def example_main_def example_tracker_def Console.defs Tracker.defs Radio.defs)

lemma rest_init: "tx_rest (afsk_init 0 0)"
  by (simp add: tx_rest_def afsk_init_def)

theorem heard_on_console_witness:
  "\<exists>ctx2 tx' tx'' bits ctx' af' w' msg.
    ax25_sendVia afsk_fd [example_call, example_call, example_call] [72, 105] (ax25_init, afsk_init 0 0) = Some (ctx2, tx') \<and>
    afsk_flush tx' = Some tx'' \<and> tone_line tx'' = tone_line (afsk_init 0 0) @ bits \<and>
    hear_and_poll (Some ax25_msg_callback) example_msg (map (\<lambda>b. [b]) bits)
      (ax25_init, afsk_init 0 0, example_main) = Some (ctx', af', w') \<and>
    carries msg example_call example_call [example_call] (\<lambda>i. False) [72, 105] \<and>
    ser_sent (g_serial w') = ser_sent (g_serial example_main) @ monitor_text msg"
proof -
  have m: "length (rpt_lst example_msg) = 8" by (simp add: example_msg_def)
  have "list_all valid_call [example_call]" "length [example_call] \<le> 8" "7 * length [example_call] + length [72, 105 :: u8] \<le> 312"
    "[72, 105 :: u8] \<noteq> []" by (simp_all add: valid_example_call)
  from heard_on_console [OF example_csma(1) rest_init valid_example_call valid_example_call this idle_init
      example_receiver(4,5) m example_receiver(6,1-3), of ax25_init]
  obtain ctx2 tx' tx'' bits where 1: "ax25_sendVia afsk_fd [example_call, example_call, example_call] [72, 105] (ax25_init, afsk_init 0 0) =
      Some (ctx2, tx')" "afsk_flush tx' = Some tx''" "tone_line tx'' = tone_line (afsk_init 0 0) @ bits"
    and r: "\<And>batches. tone_line tx'' = tone_line (afsk_init 0 0) @ concat batches \<Longrightarrow> list_all (\<lambda>bits. length bits \<le> 31) batches \<Longrightarrow>
      \<exists>ctx' af' w' msg. hear_and_poll (Some ax25_msg_callback) example_msg batches (ax25_init, afsk_init 0 0, example_main) = Some (ctx', af', w') \<and>
        carries msg example_call example_call [example_call] (\<lambda>i. False) [72, 105] \<and> rx_ok (stat ctx') = rx_ok (stat ax25_init) + 1 \<and>
        ser_sent (g_serial w') = ser_sent (g_serial example_main) @ monitor_text msg" by blast
  have "concat (map (\<lambda>b. [b]) bits) = bits" "list_all (\<lambda>bits. length bits \<le> 31) (map (\<lambda>b. [b]) bits)"
    by (induction bits) simp_all
  with r [of "map (\<lambda>b. [b]) bits"] 1 show ?thesis by (simp only:) blast
qed

end
