(* ===== verification/Heap_Alloc.thy ===== *)
theory Heap_Alloc
  imports Aprs_Prelude "HOL-Library.Monad_Syntax" "HOL-Library.Multiset"
begin

text \<open>
  The memory allocator of \<^verbatim>\<open>bertos/struct/heap.[ch]\<close> on a memory of bytes. A free chunk has in its first four bytes the
  address of the next one and its size; the free list is in the order of addresses. \<open>chain\<close> relates the memory to the
  list of the free chunks, on which allocation is a first fit (\<open>fit\<close>) and release an insertion that joins neighbours (\<open>give\<close>).
  A walk over a list that is not well formed need not end, and assertions can fail (\<open>None\<close>).
\<close>

section \<open>Data\<close>

type_synonym mem_addr = u16

record Heap =
  FreeList :: mem_addr
  ram :: "mem_addr \<Rightarrow> u8"

text \<open>A word in memory, low byte first.\<close>

definition rd16 :: "(mem_addr \<Rightarrow> u8) \<Rightarrow> mem_addr \<Rightarrow> u16" where
  "rd16 m a = ucast (m a) OR push_bit 8 (ucast (m (a + 1)))"

definition wr16 :: "mem_addr \<Rightarrow> u16 \<Rightarrow> (mem_addr \<Rightarrow> u8) \<Rightarrow> mem_addr \<Rightarrow> u8" where
  "wr16 a v m = m(a := ucast v, a + 1 := ucast (drop_bit 8 v))"

text \<open>The fields of a \<^verbatim>\<open>MemChunk\<close>, which has four bytes.\<close>

definition MemChunk_size :: u16 where "MemChunk_size = 4"

definition chunk_next :: "Heap \<Rightarrow> mem_addr \<Rightarrow> mem_addr" where
  "chunk_next h c = rd16 (ram h) c"

definition chunk_size :: "Heap \<Rightarrow> mem_addr \<Rightarrow> u16" where
  "chunk_size h c = rd16 (ram h) (c + 2)"

definition set_next :: "mem_addr \<Rightarrow> mem_addr \<Rightarrow> Heap \<Rightarrow> Heap" where
  "set_next c v h = h\<lparr>ram := wr16 c v (ram h)\<rparr>"

definition set_size :: "mem_addr \<Rightarrow> u16 \<Rightarrow> Heap \<Rightarrow> Heap" where
  "set_size c v h = h\<lparr>ram := wr16 (c + 2) v (ram h)\<rparr>"

section \<open>Operations\<close>

definition ROUND_UP2 :: "u16 \<Rightarrow> u16 \<Rightarrow> u16" where
  "ROUND_UP2 x pad = (x + (pad - 1)) AND NOT (pad - 1)"

text \<open>The first statements of \<^verbatim>\<open>heap_allocmem\<close> and \<^verbatim>\<open>heap_freemem\<close>.\<close>

definition heap_granule :: "u16 \<Rightarrow> u16" where
  "heap_granule n = (let n = ROUND_UP2 n MemChunk_size in if n = 0 then MemChunk_size else n)"

definition heap_init :: "mem_addr \<Rightarrow> u16 \<Rightarrow> (mem_addr \<Rightarrow> u8) \<Rightarrow> Heap" where
  "heap_init memory n m =
     (let h = \<lparr>FreeList = memory, ram = m\<rparr>;
          h = set_next (FreeList h) 0 h
      in set_size (FreeList h) n h)"

text \<open>The link that leads to a chunk is \<^verbatim>\<open>h->FreeList\<close> (\<open>None\<close>) or the field \<^verbatim>\<open>next\<close> of the chunk before.\<close>

definition set_link :: "mem_addr option \<Rightarrow> mem_addr \<Rightarrow> Heap \<Rightarrow> Heap" where
  "set_link p v h = (case p of None \<Rightarrow> h\<lparr>FreeList := v\<rparr> | Some c \<Rightarrow> set_next c v h)"

partial_function (option) alloc_walk :: "u16 \<Rightarrow> Heap \<Rightarrow> mem_addr option \<Rightarrow> mem_addr \<Rightarrow> (mem_addr \<times> Heap) option" where
  "alloc_walk n h prev chunk =
     (if chunk = 0 then Some (0, h)
      else if n \<le> chunk_size h chunk then
        if chunk_size h chunk = n then Some (chunk, set_link prev (chunk_next h chunk) h)
        else let h = set_size chunk (chunk_size h chunk - n) h in Some (chunk + chunk_size h chunk, h)
      else alloc_walk n h (Some chunk) (chunk_next h chunk))"

definition heap_allocmem :: "u16 \<Rightarrow> Heap \<Rightarrow> (mem_addr \<times> Heap) option" where
  "heap_allocmem n h = alloc_walk (heap_granule n) h None (FreeList h)"

partial_function (option) free_walk :: "Heap \<Rightarrow> mem_addr \<Rightarrow> mem_addr \<Rightarrow> mem_addr option" where
  "free_walk h mem prev =
     (if chunk_next h prev < mem \<and> chunk_next h prev \<noteq> 0 then free_walk h mem (chunk_next h prev) else Some prev)"

definition join_next :: "mem_addr \<Rightarrow> Heap \<Rightarrow> Heap" where
  "join_next prev h =
     (if prev + chunk_size h prev = chunk_next h prev then
        let h = set_size prev (chunk_size h prev + chunk_size h (chunk_next h prev)) h
        in set_next prev (chunk_next h (chunk_next h prev)) h
      else h)"

text \<open>With the assertion that one more chunk need not be joined.\<close>

definition merge_next :: "mem_addr \<Rightarrow> Heap \<Rightarrow> Heap option" where
  "merge_next prev h =
     (let h' = join_next prev h
      in if prev + chunk_size h prev = chunk_next h prev \<and> prev + chunk_size h' prev = chunk_next h' prev then None else Some h')"

definition heap_freemem :: "mem_addr \<Rightarrow> u16 \<Rightarrow> Heap \<Rightarrow> Heap option" where
  "heap_freemem mem n h =
     (if mem = 0 \<or> mem = FreeList h then None
      else let n = heap_granule n
      in if mem < FreeList h \<or> FreeList h = 0 then
           let h = set_next mem (FreeList h) h;
               h = set_size mem n h;
               h = h\<lparr>FreeList := mem\<rparr>
           in merge_next mem h
         else do {
           prev \<leftarrow> free_walk h mem (FreeList h);
           if mem < prev + chunk_size h prev then None
           else if prev + chunk_size h prev = mem then merge_next prev (set_size prev (chunk_size h prev + n) h)
           else
             let h = set_next mem (chunk_next h prev) h;
                 h = set_size mem n h;
                 h = set_next prev mem h
             in merge_next mem h })"

partial_function (option) free_sum :: "Heap \<Rightarrow> mem_addr \<Rightarrow> u16 \<Rightarrow> u16 option" where
  "free_sum h chunk free_mem =
     (if chunk = 0 then Some free_mem else free_sum h (chunk_next h chunk) (free_mem + chunk_size h chunk))"

definition heap_freeSpace :: "Heap \<Rightarrow> u16 option" where
  "heap_freeSpace h = free_sum h (FreeList h) 0"

definition heap_malloc :: "u16 \<Rightarrow> Heap \<Rightarrow> (mem_addr \<times> Heap) option" where
  "heap_malloc n h =
     (let n = n + 2
      in do { (mem, h) \<leftarrow> heap_allocmem n h;
              if mem \<noteq> 0 then Some (mem + 2, h\<lparr>ram := wr16 mem n (ram h)\<rparr>) else Some (mem, h) })"

definition heap_calloc :: "u16 \<Rightarrow> Heap \<Rightarrow> (mem_addr \<times> Heap) option" where
  "heap_calloc n h =
     do { (mem, h) \<leftarrow> heap_malloc n h;
          Some (mem, if mem \<noteq> 0 then h\<lparr>ram := \<lambda>a. if unat (a - mem) < unat n then 0 else ram h a\<rparr> else h) }"

definition heap_free :: "mem_addr \<Rightarrow> Heap \<Rightarrow> Heap option" where
  "heap_free mem h = (if mem \<noteq> 0 then heap_freemem (mem - 2) (rd16 (ram h) (mem - 2)) h else Some h)"

section \<open>Words in memory\<close>

lemma rd16_wr16 [simp]: "rd16 (wr16 a v m) a = v"
  by (rule bit_word_eqI) (auto simp: rd16_def wr16_def bit_simps)

lemma rd16_cong: "m a = m' a \<Longrightarrow> m (a + 1) = m' (a + 1) \<Longrightarrow> rd16 m a = rd16 m' a"
  by (simp add: rd16_def)

lemma wr16_other: "b \<noteq> a \<Longrightarrow> b \<noteq> a + 1 \<Longrightarrow> wr16 a v m b = m b"
  by (simp add: wr16_def)

lemma unat_add_small: "unat (a :: u16) + n < 65536 \<Longrightarrow> unat (a + word_of_nat n) = unat a + n"
  by (simp add: unat_word_ariths unat_of_nat)

lemma rd16_wr16_other:
  assumes "unat a + 2 \<le> unat b \<or> unat b + 2 \<le> unat a" "unat a + 1 < 65536" "unat b + 1 < 65536"
  shows "rd16 (wr16 a v m) b = rd16 m b"
proof -
  have "unat (a + 1) = unat a + 1" "unat (b + 1) = unat b + 1"
    using unat_add_small [of a 1] unat_add_small [of b 1] assms by simp_all
  with assms show ?thesis
    by (intro rd16_cong wr16_other) auto
qed

section \<open>Chains of free chunks\<close>

text \<open>
  \<open>seg m p xs q\<close>: the chunks \<open>xs\<close>, each an address with a size, are linked in this order from \<open>p\<close>, and the last leads to \<open>q\<close>.
\<close>

fun seg :: "(mem_addr \<Rightarrow> u8) \<Rightarrow> mem_addr \<Rightarrow> (nat \<times> nat) list \<Rightarrow> mem_addr \<Rightarrow> bool" where
  "seg m p [] q \<longleftrightarrow> p = q"
| "seg m p ((a, s) # xs) q \<longleftrightarrow> p \<noteq> 0 \<and> unat p = a \<and> unat (rd16 m (p + 2)) = s \<and> seg m (rd16 m p) xs q"

definition chain :: "Heap \<Rightarrow> (nat \<times> nat) list \<Rightarrow> bool" where
  "chain h cs \<longleftrightarrow> seg (ram h) (FreeList h) cs 0"

text \<open>Headers in the order of addresses that do not overlap.\<close>

definition laid :: "(nat \<times> nat) list \<Rightarrow> bool" where
  "laid cs \<longleftrightarrow> sorted_wrt (\<lambda>(a, s) (b, t). a + 4 \<le> b) cs \<and> (\<forall>(a, s) \<in> set cs. 0 < a \<and> a + 4 < 65536)"

text \<open>In the order of addresses, with something in between, so that no two can be joined.\<close>

definition spaced :: "nat \<Rightarrow> (nat \<times> nat) list \<Rightarrow> bool" where
  "spaced hi cs \<longleftrightarrow> sorted_wrt (\<lambda>(a, s) (b, t). a + s < b) cs \<and> (\<forall>(a, s) \<in> set cs. 0 < a \<and> 4 \<le> s \<and> 4 dvd s \<and> a + s \<le> hi)"

lemma seg_append: "seg m p (xs @ ys) q \<longleftrightarrow> (\<exists>r. seg m p xs r \<and> seg m r ys q)"
  by (induction m p xs q rule: seg.induct) auto

lemma seg_snoc: "seg m p (xs @ [(a, s)]) q \<longleftrightarrow> (\<exists>r. seg m p xs r \<and> r \<noteq> 0 \<and> unat r = a \<and> unat (rd16 m (r + 2)) = s \<and> rd16 m r = q)"
  by (auto simp: seg_append)

text \<open>Only the headers matter.\<close>

definition in_headers :: "nat \<Rightarrow> (nat \<times> nat) list \<Rightarrow> bool" where
  "in_headers x xs \<longleftrightarrow> (\<exists>(a, s) \<in> set xs. a \<le> x \<and> x < a + 4)"

lemma seg_cong:
  assumes "seg m p xs q" "\<forall>(a, s) \<in> set xs. a + 4 < 65536" "\<And>x. in_headers (unat x) xs \<Longrightarrow> m' x = m x"
  shows "seg m' p xs q"
  using assms
proof (induction m p xs q rule: seg.induct)
  case (2 m p a s xs q)
  have u: "unat (p + word_of_nat i) = a + i" if "i < 4" for i using "2.prems" that unat_add_small [of p i] by simp
  have e: "m' (p + word_of_nat i) = m (p + word_of_nat i)" if "i < 4" for i
    using that u [OF that] by (intro "2.prems"(3)) (auto simp: in_headers_def)
  have "rd16 m' p = rd16 m p" using e [of 0] e [of 1] by (intro rd16_cong) simp_all
  moreover have "rd16 m' (p + 2) = rd16 m (p + 2)" using e [of 2] e [of 3] by (intro rd16_cong) (simp_all add: add.assoc)
  moreover have "seg m' (rd16 m p) xs q" using 2 by (intro "2.IH") (auto simp: in_headers_def)
  ultimately show ?case using 2 by simp
qed simp

lemma seg_wr16:
  assumes "seg m p xs q" "\<forall>(b, s) \<in> set xs. b + 4 < 65536" "unat a + 1 < 65536"
    "\<forall>(b, s) \<in> set xs. unat a + 2 \<le> b \<or> b + 4 \<le> unat a"
  shows "seg (wr16 a v m) p xs q"
proof (rule seg_cong [OF assms(1,2)])
  fix x :: u16
  assume "in_headers (unat x) xs"
  then have "unat x \<noteq> unat a \<and> unat x \<noteq> unat a + 1" using assms(4) by (fastforce simp: in_headers_def)
  moreover have "unat (a + 1) = unat a + 1" using unat_add_small [of a 1] assms(3) by simp
  ultimately have "x \<noteq> a \<and> x \<noteq> a + 1" by auto
  then show "wr16 a v m x = m x" by (simp add: wr16_other)
qed

section \<open>Allocation\<close>

fun fit :: "nat \<Rightarrow> (nat \<times> nat) list \<Rightarrow> (nat \<times> (nat \<times> nat) list) option" where
  "fit n [] = None"
| "fit n ((a, s) # cs) =
     (if n < s then Some (a + (s - n), (a, s - n) # cs) else if s = n then Some (a, cs)
      else do { (r, cs) \<leftarrow> fit n cs; Some (r, (a, s) # cs) })"

lemma fit_None: "fit n cs = None \<longleftrightarrow> (\<forall>(a, s) \<in> set cs. s < n)"
  by (induction cs) (auto split: bind_splits if_splits)

lemma fit_Some:
  "fit n cs = Some (r, cs') \<Longrightarrow> \<exists>xs a s ys. cs = xs @ (a, s) # ys \<and> (\<forall>(b, t) \<in> set xs. t < n) \<and>
     (n < s \<and> r = a + (s - n) \<and> cs' = xs @ (a, s - n) # ys \<or> s = n \<and> r = a \<and> cs' = xs @ ys)"
proof (induction cs arbitrary: cs')
  case (Cons c cs)
  obtain a s where c: "c = (a, s)" by (cases c)
  show ?case
  proof (cases "n \<le> s")
    case True
    with Cons.prems show ?thesis unfolding c by (intro exI [of _ "[]"]) (auto split: if_splits)
  next
    case False
    with Cons.prems obtain ds where "fit n cs = Some (r, ds)" "cs' = c # ds" by (auto simp: c split: bind_splits if_splits)
    from Cons.IH [OF this(1)] this(2) False show ?thesis unfolding c by (elim exE conjE) (rule exI [of _ "(a, s) # _"], auto)
  qed
qed simp

lemma alloc_walk_skips:
  assumes "seg (ram h) p xs q" "\<forall>(a, s) \<in> set xs. s < unat n"
  shows "alloc_walk n h prev p =
    alloc_walk n h (if xs = [] then prev else Some (word_of_nat (fst (last xs)))) q"
  using assms
proof (induction xs arbitrary: p prev)
  case (Cons c xs)
  obtain a s where c: "c = (a, s)" by (cases c)
  have a: "p \<noteq> 0" "a = unat p" "unat (chunk_size h p) = s" "seg (ram h) (chunk_next h p) xs q" "s < unat n"
    using Cons.prems by (simp_all add: c chunk_size_def chunk_next_def)
  then have "alloc_walk n h prev p = alloc_walk n h (Some p) (chunk_next h p)"
    by (subst alloc_walk.simps) (auto simp: word_le_nat_alt)
  also have "\<dots> = alloc_walk n h (if xs = [] then Some p else Some (word_of_nat (fst (last xs)))) q"
    using Cons.prems(2) by (intro Cons.IH a) simp
  finally show ?case by (simp add: c a(2))
qed simp

lemma laid_append: "laid (xs @ ys) \<longleftrightarrow> laid xs \<and> laid ys \<and> (\<forall>(a, s) \<in> set xs. \<forall>(b, t) \<in> set ys. a + 4 \<le> b)"
  by (auto simp: laid_def sorted_wrt_append)

lemma laid_Cons: "laid ((a, s) # ys) \<longleftrightarrow> 0 < a \<and> a + 4 < 65536 \<and> laid ys \<and> (\<forall>(b, t) \<in> set ys. a + 4 \<le> b)"
  by (auto simp: laid_def)

lemma laid_Nil: "laid []"
  by (simp add: laid_def)

lemmas laid_simps = laid_append laid_Cons laid_Nil

lemma laid_small: "laid cs \<Longrightarrow> \<forall>(a, s) \<in> set cs. a + 4 < 65536"
  by (auto simp: laid_def)

lemma laid_before: "laid (xs @ (a, s) # ys) \<Longrightarrow> (b, t) \<in> set xs \<Longrightarrow> b + 4 \<le> a"
  by (auto simp: laid_append)

lemma laid_after: "laid (xs @ (a, s) # ys) \<Longrightarrow> (b, t) \<in> set ys \<Longrightarrow> a + 4 \<le> b"
  by (auto simp: laid_simps)

lemma laid_here: "laid (xs @ (a, s) # ys) \<Longrightarrow> 0 < a \<and> a + 4 < 65536"
  by (simp add: laid_simps)

lemma spaced_append:
  "spaced hi (xs @ ys) \<longleftrightarrow> spaced hi xs \<and> spaced hi ys \<and> (\<forall>(a, s) \<in> set xs. \<forall>(b, t) \<in> set ys. a + s < b)"
  by (auto simp: spaced_def sorted_wrt_append)

lemma spaced_Cons:
  "spaced hi ((a, s) # ys) \<longleftrightarrow> 0 < a \<and> 4 \<le> s \<and> 4 dvd s \<and> a + s \<le> hi \<and> spaced hi ys \<and> (\<forall>(b, t) \<in> set ys. a + s < b)"
  by (auto simp: spaced_def)

lemma spaced_Nil: "spaced hi []"
  by (simp add: spaced_def)

lemmas spaced_simps = spaced_append spaced_Cons spaced_Nil

lemma spaced_laid: "spaced hi cs \<Longrightarrow> hi < 65536 \<Longrightarrow> laid cs"
proof (induction cs)
  case (Cons c cs)
  obtain a s where c: "c = (a, s)" by (cases c)
  from Cons show ?case by (force simp: c spaced_Cons laid_Cons)
qed (simp add: laid_Nil)

text \<open>A new size or a new link in one of the chunks.\<close>

lemma seg_resize:
  assumes "seg m p (xs @ (a, s) # ys) q" "laid (xs @ (a, s) # ys)" "unat c = a"
  shows "seg (wr16 (c + 2) v m) p (xs @ (a, unat v) # ys) q"
proof -
  obtain r where r: "seg m p xs r" "r \<noteq> 0" "unat r = a" "seg m (rd16 m r) ys q" using assms(1) by (auto simp: seg_append)
  with assms(3) have c: "c = r" by (metis word_unat_eq_iff)
  have a: "a + 4 < 65536" using laid_here [OF assms(2)] by simp
  have u: "unat (r + 2) = a + 2" using unat_add_small [of r 2] r a by simp
  have "seg (wr16 (r + 2) v m) p xs r"
    by (rule seg_wr16 [OF r(1) laid_small])
      (use assms(2) u a in \<open>auto simp: laid_append dest!: laid_before [OF assms(2)]\<close>)
  moreover have "seg (wr16 (r + 2) v m) (rd16 m r) ys q"
    by (rule seg_wr16 [OF r(4) laid_small])
      (use assms(2) u a in \<open>auto simp: laid_simps dest!: laid_after [OF assms(2)]\<close>)
  moreover have "rd16 (wr16 (r + 2) v m) r = rd16 m r" using u a r(3) by (intro rd16_wr16_other) auto
  ultimately show ?thesis using r c by (auto simp: seg_append)
qed

lemma seg_relink:
  assumes "seg m p (xs @ [(a, s)]) q" "laid (xs @ [(a, s)])" "unat c = a"
  shows "seg (wr16 c v m) p (xs @ [(a, s)]) v"
proof -
  obtain r where r: "seg m p xs r" "r \<noteq> 0" "unat r = a" "unat (rd16 m (r + 2)) = s" using assms(1) by (auto simp: seg_snoc)
  with assms(3) have c: "c = r" by (metis word_unat_eq_iff)
  have a: "a + 4 < 65536" using laid_here [OF assms(2)] by simp
  have u: "unat (r + 2) = a + 2" using unat_add_small [of r 2] r a by simp
  have "seg (wr16 r v m) p xs r"
    by (rule seg_wr16 [OF r(1) laid_small])
      (use assms(2) r(3) a in \<open>auto simp: laid_append dest!: laid_before [OF assms(2)]\<close>)
  moreover have "rd16 (wr16 r v m) (r + 2) = rd16 m (r + 2)" using u a r(3) by (intro rd16_wr16_other) auto
  ultimately show ?thesis using r c by (auto simp: seg_snoc)
qed

lemma seg_last: "seg m p (xs @ [(a, s)]) q \<Longrightarrow> unat (word_of_nat a :: u16) = a"
  by (auto simp: seg_snoc)

text \<open>Where in memory an operation may write: the headers of the chunks, given as a predicate on addresses.\<close>

definition same_outside :: "(nat \<Rightarrow> bool) \<Rightarrow> Heap \<Rightarrow> Heap \<Rightarrow> bool" where
  "same_outside P h h' \<longleftrightarrow> (\<forall>x. \<not> P (unat x) \<longrightarrow> ram h' x = ram h x)"

lemma same_outside_refl [simp]: "same_outside P h h"
  by (simp add: same_outside_def)

lemma same_outside_trans: "same_outside P h h1 \<Longrightarrow> same_outside P h1 h2 \<Longrightarrow> same_outside P h h2"
  by (simp add: same_outside_def)

lemma same_outside_wr16:
  assumes "unat a + 1 < 65536" "P (unat a)" "P (unat a + 1)"
  shows "same_outside P h (h\<lparr>ram := wr16 a v (ram h)\<rparr>)"
proof -
  have u: "unat (a + 1) = unat a + 1" using unat_add_small [of a 1] assms(1) by simp
  have "x \<noteq> a \<and> x \<noteq> a + 1" if "\<not> P (unat x)" for x using that assms u by metis
  then show ?thesis by (auto simp: same_outside_def wr16_other)
qed

lemma same_outside_set:
  assumes "\<And>i. i < 4 \<Longrightarrow> P (unat c + i)" "unat c + 4 < 65536"
  shows "same_outside P h (set_next c v h)" "same_outside P h (set_size c v h)"
proof -
  have u: "unat (c + 2) = unat c + 2" using unat_add_small [of c 2] assms(2) by simp
  show "same_outside P h (set_next c v h)" unfolding set_next_def
    by (rule same_outside_wr16) (use assms(1) [of 0] assms(1) [of 1] assms(2) in simp_all)
  show "same_outside P h (set_size c v h)" unfolding set_size_def
    by (rule same_outside_wr16) (use assms(1) [of 2] assms(1) [of 3] assms(2) u in \<open>simp_all add: numeral_3_eq_3\<close>)
qed

lemma in_headers_at: "(a, s) \<in> set cs \<Longrightarrow> i < 4 \<Longrightarrow> in_headers (a + i) cs"
  unfolding in_headers_def by (rule bexI [of _ "(a, s)"]) simp_all

lemma set_size_resizes:
  assumes "chain h (xs @ (a, s) # ys)" "laid (xs @ (a, s) # ys)" "unat c = a"
  shows "chain (set_size c v h) (xs @ (a, unat v) # ys)"
    and "same_outside (\<lambda>x. in_headers x (xs @ (a, s) # ys)) h (set_size c v h)"
proof -
  show "chain (set_size c v h) (xs @ (a, unat v) # ys)"
    using seg_resize [OF _ assms(2,3)] assms(1) by (simp add: chain_def set_size_def)
  show "same_outside (\<lambda>x. in_headers x (xs @ (a, s) # ys)) h (set_size c v h)"
    by (rule same_outside_set) (use in_headers_at [of a s] laid_here [OF assms(2)] assms(3) in auto)
qed

text \<open>The chunk after those of \<open>xs\<close> is taken out of the list.\<close>

lemma set_link_drops:
  assumes "chain h (xs @ (a, s) # ys)" "laid (xs @ (a, s) # ys)" "unat c = a"
  defines "h' \<equiv> set_link (if xs = [] then None else Some (word_of_nat (fst (last xs)))) (chunk_next h c) h"
  shows "chain h' (xs @ ys) \<and> same_outside (\<lambda>x. in_headers x (xs @ (a, s) # ys)) h h'"
proof -
  obtain r where r: "seg (ram h) (FreeList h) xs r" "unat r = a" "seg (ram h) (rd16 (ram h) r) ys 0"
    using assms(1) by (auto simp: chain_def seg_append)
  with assms(3) have c: "c = r" by (metis word_unat_eq_iff)
  show ?thesis
  proof (cases xs rule: rev_cases)
    case Nil
    with r c show ?thesis by (simp add: h'_def set_link_def chain_def chunk_next_def same_outside_def)
  next
    case (snoc zs z)
    obtain b t where z: "z = (b, t)" by (cases z)
    let ?b = "word_of_nat b :: u16"
    have b: "unat ?b = b" using r(1) seg_last unfolding snoc z by blast
    have h': "h' = set_next ?b (chunk_next h r) h" by (simp add: h'_def set_link_def snoc z c)
    then have ram: "ram h' = wr16 ?b (chunk_next h r) (ram h)" by (simp add: set_next_def)
    have bz: "(b, t) \<in> set xs" by (simp add: snoc z)
    have lt: "b + 4 \<le> a" "a + 4 < 65536" using laid_before [OF assms(2) bz] laid_here [OF assms(2)] by auto
    have "laid xs" using assms(2) by (simp add: laid_append)
    then have "seg (ram h') (FreeList h) xs (chunk_next h r)"
      using seg_relink [OF r(1) [unfolded snoc z] _ b] unfolding snoc z by (simp add: h' set_next_def snoc z)
    moreover have "seg (ram h') (rd16 (ram h) r) ys 0" unfolding ram
      by (rule seg_wr16 [OF r(3) laid_small])
        (use assms(2) b lt in \<open>auto simp: laid_simps dest!: laid_after [OF assms(2)]\<close>)
    moreover have "FreeList h' = FreeList h" by (simp add: h' set_next_def)
    ultimately have "chain h' (xs @ ys)" by (auto simp: chain_def seg_append chunk_next_def)
    moreover have "same_outside (\<lambda>x. in_headers x (xs @ (a, s) # ys)) h h'" unfolding h'
      by (rule same_outside_set) (use in_headers_at [of b t] bz b lt in auto)
    ultimately show ?thesis ..
  qed
qed

lemma alloc_fits:
  assumes "chain h cs" "spaced hi cs" "hi < 65536" "0 < n"
  shows "case fit (unat n) cs of
      None \<Rightarrow> alloc_walk n h None (FreeList h) = Some (0, h)
    | Some (r, cs') \<Rightarrow> \<exists>q h'. alloc_walk n h None (FreeList h) = Some (q, h') \<and> q \<noteq> 0 \<and> unat q = r \<and> chain h' cs' \<and>
        same_outside (\<lambda>x. in_headers x cs) h h'"
proof (cases "fit (unat n) cs")
  case None
  then have "alloc_walk n h None (FreeList h) = Some (0, h)"
    using alloc_walk_skips [of h "FreeList h" cs 0 n None] assms(1)
    by (auto simp: fit_None chain_def alloc_walk.simps [of n h _ 0])
  with None show ?thesis by simp
next
  case (Some p)
  obtain r cs' where p: "p = (r, cs')" by (cases p)
  from fit_Some [OF Some [unfolded p]] obtain xs a s ys where d: "cs = xs @ (a, s) # ys" "\<forall>(b, t) \<in> set xs. t < unat n"
    "unat n < s \<and> r = a + (s - unat n) \<and> cs' = xs @ (a, s - unat n) # ys \<or> s = unat n \<and> r = a \<and> cs' = xs @ ys" by blast
  obtain c where c: "seg (ram h) (FreeList h) xs c" "c \<noteq> 0" "unat c = a" "unat (chunk_size h c) = s"
    using assms(1) by (auto simp: d(1) chain_def seg_append chunk_size_def)
  let ?prev = "if xs = [] then None else Some (word_of_nat (fst (last xs)))"
  have w: "alloc_walk n h None (FreeList h) = alloc_walk n h ?prev c" by (rule alloc_walk_skips [OF c(1) d(2)])
  have sp: "spaced hi (xs @ (a, s) # ys)" using assms(2) d(1) by simp
  then have la: "laid (xs @ (a, s) # ys)" by (rule spaced_laid [OF _ assms(3)])
  have sh: "0 < a" "a + s \<le> hi" using sp by (simp_all add: spaced_simps)
  have ch: "chain h (xs @ (a, s) # ys)" using assms(1) d(1) by simp
  from d(3) show ?thesis
  proof
    assume f: "unat n < s \<and> r = a + (s - unat n) \<and> cs' = xs @ (a, s - unat n) # ys"
    let ?h = "set_size c (chunk_size h c - n) h"
    have z: "unat (chunk_size h c - n) = s - unat n" using f c(4) by (simp add: unat_sub word_le_nat_alt)
    have "chunk_size ?h c = chunk_size h c - n" by (simp add: chunk_size_def set_size_def)
    then have "alloc_walk n h ?prev c = Some (c + (chunk_size h c - n), ?h)"
      using f c(2,4) by (subst alloc_walk.simps) (auto simp: word_le_nat_alt Let_def)
    moreover have "a + (s - unat n) < 65536" using sh assms(3) by auto
    then have "unat (c + (chunk_size h c - n)) = a + (s - unat n)" using z c(3) by (simp add: unat_word_ariths)
    ultimately show ?thesis
      using set_size_resizes [OF ch la c(3), of "chunk_size h c - n"] sh w f z Some p d(1) by auto
  next
    assume f: "s = unat n \<and> r = a \<and> cs' = xs @ ys"
    then have "chunk_size h c = n" using c(4) by (metis word_unat_eq_iff)
    then have "alloc_walk n h ?prev c = Some (c, set_link ?prev (chunk_next h c) h)"
      using c(2) by (subst alloc_walk.simps) simp
    then show ?thesis using set_link_drops [OF ch la c(3)] c(2,3) w f Some p d(1) by auto
  qed
qed

section \<open>Release\<close>

fun glue :: "nat \<times> nat \<Rightarrow> (nat \<times> nat) list \<Rightarrow> (nat \<times> nat) list" where
  "glue (a, s) ((b, t) # cs) = (if a + s = b then (a, s + t) # cs else (a, s) # (b, t) # cs)"
| "glue c [] = [c]"

definition give :: "nat \<Rightarrow> nat \<Rightarrow> (nat \<times> nat) list \<Rightarrow> (nat \<times> nat) list" where
  "give b n cs =
     (let xs = takeWhile (\<lambda>(a, s). a < b) cs; ys = dropWhile (\<lambda>(a, s). a < b) cs
      in if xs \<noteq> [] \<and> fst (last xs) + snd (last xs) = b then butlast xs @ glue (fst (last xs), snd (last xs) + n) ys
         else xs @ glue (b, n) ys)"

text \<open>A block is put between two chunks.\<close>

lemma insert_links:
  assumes "chain h (xs @ ys)" "laid (xs @ (b, n) # ys)" "unat mem = b" "n = unat v"
    "seg (ram h) (FreeList h) xs r" "seg (ram h) r ys 0"
  defines "h' \<equiv> set_link (if xs = [] then None else Some (word_of_nat (fst (last xs)))) mem (set_size mem v (set_next mem r h))"
  shows "chain h' (xs @ (b, n) # ys) \<and> same_outside (\<lambda>x. in_headers x (xs @ (b, n) # ys)) h h'"
proof -
  let ?h = "set_size mem v (set_next mem r h)" and ?in = "\<lambda>x. in_headers x (xs @ (b, n) # ys)"
  have b: "0 < b" "b + 4 < 65536" using laid_here [OF assms(2)] by auto
  have u: "unat (mem + 2) = b + 2" using unat_add_small [of mem 2] assms(3) b by simp
  have wr: "seg (wr16 (mem + 2) v (wr16 mem r m)) p zs q" if "seg m p zs q" "set zs \<subseteq> set xs \<union> set ys" for m p zs q
  proof -
    have la: "\<forall>(a, s) \<in> set zs. a + 4 < 65536" using laid_small [OF assms(2)] that(2) by auto
    have "\<forall>(a, s) \<in> set zs. b + 4 \<le> a \<or> a + 4 \<le> b"
      using that(2) laid_before [OF assms(2)] laid_after [OF assms(2)] by blast
    then show ?thesis using b u assms(3) by (intro seg_wr16 that(1) la) auto
  qed
  have ram: "ram ?h = wr16 (mem + 2) v (wr16 mem r (ram h))" "FreeList ?h = FreeList h" by (simp_all add: set_size_def set_next_def)
  have sx: "seg (ram ?h) (FreeList h) xs r" "seg (ram ?h) r ys 0" unfolding ram by (auto intro!: wr assms(5,6))
  have "rd16 (ram ?h) mem = r" using b u assms(3) unfolding ram by (subst rd16_wr16_other) auto
  then have my: "seg (ram ?h) mem ((b, n) # ys) 0" using assms(3,4) b sx(2) by (auto simp: ram)
  have so: "same_outside ?in h ?h"
    by (rule same_outside_trans [OF same_outside_set(1) same_outside_set(2)]) (use in_headers_at [of b n] b assms(3) in auto)
  show ?thesis
  proof (cases xs rule: rev_cases)
    case Nil
    then show ?thesis using my so by (simp add: h'_def set_link_def chain_def same_outside_def)
  next
    case (snoc zs z)
    obtain a s where z: "z = (a, s)" by (cases z)
    let ?a = "word_of_nat a :: u16"
    have a: "unat ?a = a" using sx(1) seg_last unfolding snoc z by blast
    have az: "(a, s) \<in> set xs" by (simp add: snoc z)
    have lt: "a + 4 \<le> b" using laid_before [OF assms(2) az] .
    have h': "h' = set_next ?a mem ?h" by (simp add: h'_def set_link_def snoc z)
    have ram': "ram h' = wr16 ?a mem (ram ?h)" "FreeList h' = FreeList h" by (simp_all add: h' set_next_def set_size_def)
    have "laid xs" using assms(2) by (simp add: laid_append)
    then have "seg (ram h') (FreeList h) xs mem"
      using seg_relink [OF sx(1) [unfolded snoc z] _ a] unfolding snoc z ram' by simp
    moreover have "seg (ram h') mem ((b, n) # ys) 0" unfolding ram'
      by (rule seg_wr16 [OF my laid_small]) (use assms(2) a lt b in \<open>auto simp: laid_simps dest!: laid_after [OF assms(2)]\<close>)
    ultimately have "chain h' (xs @ (b, n) # ys)" unfolding chain_def ram' by (auto simp: seg_append simp del: seg.simps(2))
    moreover have "same_outside ?in ?h h'" unfolding h'
      by (rule same_outside_set) (use in_headers_at [of a s] az a lt b in auto)
    ultimately show ?thesis using same_outside_trans [OF so] by blast
  qed
qed

lemma merge_glues:
  assumes "chain h (xs @ (a, s) # ys)" "laid (xs @ (a, s) # ys)" "unat c = a" "0 < s" "a + s < 65536"
    "\<forall>(b, t) \<in> set ys. a + s \<le> b \<and> b + t < 65536"
  shows "chain (join_next c h) (xs @ glue (a, s) ys) \<and> same_outside (\<lambda>x. in_headers x (xs @ (a, s) # ys)) h (join_next c h)"
proof -
  obtain r where r: "seg (ram h) (FreeList h) xs r" "r \<noteq> 0" "unat r = a" "unat (chunk_size h r) = s" "seg (ram h) (chunk_next h r) ys 0"
    using assms(1) by (auto simp: chain_def seg_append chunk_size_def chunk_next_def)
  with assms(3) have c: "c = r" by (metis word_unat_eq_iff)
  have e: "unat (r + chunk_size h r) = a + s" using r assms(5) by (simp add: unat_word_ariths)
  show ?thesis
  proof (cases ys)
    case Nil
    then have "r + chunk_size h r \<noteq> chunk_next h r" using r(5) e assms(4) by auto
    with Nil assms(1) c show ?thesis by (simp add: join_next_def)
  next
    case (Cons y zs)
    obtain b t where y: "y = (b, t)" by (cases y)
    let ?q = "chunk_next h r"
    have q: "?q \<noteq> 0" "unat ?q = b" "unat (chunk_size h ?q) = t" using r(5) by (simp_all add: Cons y chunk_size_def)
    show ?thesis
    proof (cases "a + s = b")
      case False
      then have "r + chunk_size h r \<noteq> ?q" using e q(2) by auto
      with False assms(1) c show ?thesis by (simp add: join_next_def Cons y)
    next
      case True
      then have m: "r + chunk_size h r = ?q" using e q(2) by (metis word_unat_eq_iff)
      let ?h = "set_size c (chunk_size h r + chunk_size h ?q) h"
      have st: "unat (chunk_size h r + chunk_size h ?q) = s + t"
        using assms(6) True r(4) q(3) by (simp add: Cons y unat_word_ariths)
      note rs = set_size_resizes [OF assms(1-3), of "chunk_size h r + chunk_size h ?q", unfolded st]
      have la: "laid ((xs @ [(a, s + t)]) @ (b, t) # zs)" using assms(2) by (simp add: Cons y laid_simps)
      have ch: "chain ?h ((xs @ [(a, s + t)]) @ (b, t) # zs)" using rs(1) by (simp add: Cons y)
      have u: "unat (r + 2) = a + 2" using unat_add_small [of r 2] r(3) laid_here [OF assms(2)] by simp
      have n: "chunk_next ?h r = ?q"
        unfolding chunk_next_def set_size_def c using u r(3) laid_here [OF assms(2)] by (simp add: rd16_wr16_other)
      have ra: "word_of_nat a = r" unfolding r(3) [symmetric] by simp
      have "join_next c h = set_next r (chunk_next ?h ?q) ?h" using m n by (simp add: join_next_def c Let_def)
      then have "chain (join_next c h) ((xs @ [(a, s + t)]) @ zs) \<and>
          same_outside (\<lambda>x. in_headers x ((xs @ [(a, s + t)]) @ (b, t) # zs)) ?h (join_next c h)"
        using set_link_drops [OF ch la q(2)] by (simp add: set_link_def ra)
      moreover have "in_headers x ((xs @ [(a, s + t)]) @ (b, t) # zs) = in_headers x (xs @ (a, s) # ys)" for x
        by (auto simp: in_headers_def Cons y)
      ultimately show ?thesis using True same_outside_trans [OF rs(2)] by (simp add: Cons y)
    qed
  qed
qed

lemma free_walk_stops:
  assumes "seg (ram h) p (xs @ (a, s) # ys) 0" "\<forall>(b, t) \<in> set (tl (xs @ [(a, s)])). b < unat mem" "ys = [] \<or> unat mem \<le> fst (hd ys)"
  shows "free_walk h mem p = Some (word_of_nat a)"
  using assms
proof (induction xs arbitrary: p)
  case Nil
  then have "\<not> (chunk_next h p < mem \<and> chunk_next h p \<noteq> 0)" by (cases ys) (auto simp: chunk_next_def word_less_nat_alt)
  with Nil show ?case by (subst free_walk.simps) auto
next
  case (Cons x xs)
  obtain b t where x: "x = (b, t)" by (cases x)
  have "chunk_next h p < mem \<and> chunk_next h p \<noteq> 0"
    using Cons.prems(1,2) by (cases xs) (auto simp: x chunk_next_def word_less_nat_alt)
  then have "free_walk h mem p = free_walk h mem (chunk_next h p)" by (subst free_walk.simps) simp
  also have "\<dots> = Some (word_of_nat a)"
    using Cons.prems by (intro Cons.IH) (cases xs, auto simp: x chunk_next_def)+
  finally show ?case .
qed

text \<open>Where the chunks before and after a block are that overlaps none of them.\<close>

lemma spaced_split:
  assumes "spaced hi cs" "\<forall>(a, s) \<in> set cs. a + s \<le> b \<or> b + n \<le> a" "0 < n"
  shows "\<forall>(a, s) \<in> set (takeWhile (\<lambda>(a, s). a < b) cs). a + s \<le> b" "\<forall>(a, s) \<in> set (dropWhile (\<lambda>(a, s). a < b) cs). b + n \<le> a"
proof -
  show "\<forall>(a, s) \<in> set (takeWhile (\<lambda>(a, s). a < b) cs). a + s \<le> b"
    using assms(2,3) by (fastforce dest: set_takeWhileD)
  show "\<forall>(a, s) \<in> set (dropWhile (\<lambda>(a, s). a < b) cs). b + n \<le> a"
    using assms(1,2)
  proof (induction cs)
    case (Cons c cs)
    obtain a s where c: "c = (a, s)" by (cases c)
    show ?case
    proof (cases "a < b")
      case True
      with Cons show ?thesis by (auto simp: c spaced_Cons)
    next
      case False
      then have "b + n \<le> a" using Cons.prems(1,2) by (auto simp: c spaced_Cons)
      with False Cons.prems(1) show ?thesis by (fastforce simp: c spaced_Cons)
    qed
  qed simp
qed

text \<open>\<open>around b n xs ys\<close>: the chunks \<open>xs\<close> lie before and \<open>ys\<close> after a block of \<open>n\<close> bytes at \<open>b\<close>.\<close>

definition around :: "nat \<Rightarrow> nat \<Rightarrow> (nat \<times> nat) list \<Rightarrow> (nat \<times> nat) list \<Rightarrow> bool" where
  "around b n xs ys \<longleftrightarrow> 0 < b \<and> 4 \<le> n \<and> b + n < 65536 \<and> laid (xs @ ys) \<and>
     (\<forall>(a, s) \<in> set xs. 4 \<le> s \<and> a + s \<le> b) \<and> (\<forall>(a, s) \<in> set ys. b + n \<le> a \<and> a + s < 65536)"

lemma around_laid: "around b n xs ys \<Longrightarrow> laid (xs @ (b, n) # ys)"
proof -
  assume ar: "around b n xs ys"
  have "a + 4 \<le> b" if "(a, s) \<in> set xs" for a s
  proof -
    have "4 \<le> s" "a + s \<le> b" using ar that by (auto simp: around_def)
    then show ?thesis by simp
  qed
  moreover have "b + 4 \<le> a" if "(a, s) \<in> set ys" for a s
  proof -
    have "4 \<le> n" "b + n \<le> a" using ar that by (auto simp: around_def)
    then show ?thesis by simp
  qed
  ultimately show ?thesis using ar by (auto simp: around_def laid_append laid_Cons)
qed

lemma spaced_around:
  assumes "spaced hi cs" "\<forall>(a, s) \<in> set cs. a + s \<le> b \<or> b + n \<le> a" "4 \<le> n" "0 < b" "b + n \<le> hi" "hi < 65536"
  shows "around b n (takeWhile (\<lambda>(a, s). a < b) cs) (dropWhile (\<lambda>(a, s). a < b) cs)"
proof -
  have "4 \<le> s \<and> a + s < 65536" if "(a, s) \<in> set cs" for a s using assms(1,6) that by (auto simp: spaced_def)
  then show ?thesis
    using spaced_split [OF assms(1,2)] spaced_laid [OF assms(1,6)] assms(3-6)
    by (auto simp: around_def dest: set_takeWhileD set_dropWhileD)
qed

text \<open>The block becomes a chunk of its own, or it extends the last one before it; then it may be joined with the one after it.\<close>

lemma insert_merges:
  assumes "chain h (xs @ ys)" "around b n xs ys" "unat mem = b" "unat v = n" "seg (ram h) (FreeList h) xs r" "seg (ram h) r ys 0"
    "h' = join_next mem (set_link (if xs = [] then None else Some (word_of_nat (fst (last xs)))) mem (set_size mem v (set_next mem r h)))"
  shows "chain h' (xs @ glue (b, n) ys) \<and> same_outside (\<lambda>x. in_headers x ((b, n) # xs @ ys)) h h'"
proof -
  let ?h = "set_link (if xs = [] then None else Some (word_of_nat (fst (last xs)))) mem (set_size mem v (set_next mem r h))"
  have hdr: "in_headers x (xs @ (b, n) # ys) = in_headers x ((b, n) # xs @ ys)" for x by (auto simp: in_headers_def)
  note la = around_laid [OF assms(2)]
  have i: "chain ?h (xs @ (b, n) # ys) \<and> same_outside (\<lambda>x. in_headers x (xs @ (b, n) # ys)) h ?h"
    by (rule insert_links [OF assms(1) la assms(3) assms(4) [symmetric] assms(5,6)])
  have "chain (join_next mem ?h) (xs @ glue (b, n) ys) \<and>
      same_outside (\<lambda>x. in_headers x (xs @ (b, n) # ys)) ?h (join_next mem ?h)"
    by (rule merge_glues [OF i [THEN conjunct1] la assms(3)]) (use assms(2) in \<open>auto simp: around_def\<close>)
  with i assms(7) show ?thesis unfolding hdr using same_outside_trans by blast
qed

lemma extend_merges:
  assumes "chain h (zs @ (a, s) # ys)" "around b n (zs @ [(a, s)]) ys" "a + s = b" "unat v = n" "unat q = a" "unat (chunk_size h q) = s"
    "h' = join_next q (set_size q (chunk_size h q + v) h)"
  shows "chain h' (zs @ glue (a, s + n) ys) \<and> same_outside (\<lambda>x. in_headers x (zs @ (a, s) # ys)) h h'"
proof -
  let ?h = "set_size q (chunk_size h q + v) h"
  have la: "laid (zs @ (a, s) # ys)" using assms(2) by (simp add: around_def)
  then have la': "laid (zs @ (a, s + n) # ys)" by (simp add: laid_simps)
  have sz: "unat (chunk_size h q + v) = s + n" using assms(2-6) by (simp add: around_def unat_word_ariths)
  note rs = set_size_resizes [OF assms(1) la assms(5), of "chunk_size h q + v", unfolded sz]
  have "chain (join_next q ?h) (zs @ glue (a, s + n) ys) \<and>
      same_outside (\<lambda>x. in_headers x (zs @ (a, s + n) # ys)) ?h (join_next q ?h)"
    by (rule merge_glues [OF rs(1) la' assms(5)]) (use assms(2,3) in \<open>auto simp: around_def\<close>)
  moreover have "in_headers x (zs @ (a, s + n) # ys) = in_headers x (zs @ (a, s) # ys)" for x by (auto simp: in_headers_def)
  ultimately show ?thesis using same_outside_trans [OF rs(2)] assms(7) by simp
qed

lemma spaced_glue:
  assumes "spaced hi ys" "0 < a" "4 \<le> s" "4 dvd s" "a + s \<le> hi" "\<forall>(b, t) \<in> set ys. a + s \<le> b"
  shows "spaced hi (glue (a, s) ys) \<and> (\<forall>(b, t) \<in> set (glue (a, s) ys). a \<le> b)"
proof (cases ys)
  case (Cons y zs)
  obtain b t where y: "y = (b, t)" by (cases y)
  show ?thesis using assms by (auto simp: Cons y spaced_simps split_beta)
qed (use assms in \<open>simp add: spaced_simps\<close>)

lemma spaced_join:
  "spaced hi xs \<Longrightarrow> spaced hi ys \<Longrightarrow> \<forall>(c, t) \<in> set xs. c + t < a \<Longrightarrow> \<forall>(c, t) \<in> set ys. a \<le> c \<Longrightarrow> spaced hi (xs @ ys)"
  unfolding spaced_append by (auto intro: less_le_trans)

lemma spaced_give:
  assumes "spaced hi cs" "\<forall>(a, s) \<in> set cs. a + s \<le> b \<or> b + n \<le> a" "4 \<le> n" "4 dvd n" "0 < b" "b + n \<le> hi"
  shows "spaced hi (give b n cs)"
proof -
  let ?xs = "takeWhile (\<lambda>(a, s). a < b) cs" and ?ys = "dropWhile (\<lambda>(a, s). a < b) cs"
  have sp: "spaced hi ?xs" "spaced hi ?ys" using assms(1) spaced_append [of hi ?xs ?ys] by (simp_all add: takeWhile_dropWhile_id)
  have before: "\<forall>(a, s) \<in> set ?xs. a + s \<le> b" and after: "\<forall>(a, s) \<in> set ?ys. b + n \<le> a"
    using spaced_split [OF assms(1,2)] assms(3) by simp_all
  show ?thesis
  proof (cases "?xs \<noteq> [] \<and> fst (last ?xs) + snd (last ?xs) = b")
    case True
    obtain a s where l: "last ?xs = (a, s)" by (cases "last ?xs")
    then have x: "?xs = butlast ?xs @ [(a, s)]" using True by (metis append_butlast_last_id)
    have s: "spaced hi (butlast ?xs)" "0 < a" "4 \<le> s" "4 dvd s" "\<forall>(c, t) \<in> set (butlast ?xs). c + t < a"
      using sp(1) by (subst (asm) x, simp add: spaced_simps split_beta)+
    have "spaced hi (glue (a, s + n) ?ys) \<and> (\<forall>(c, t) \<in> set (glue (a, s + n) ?ys). a \<le> c)"
      by (rule spaced_glue) (use sp(2) s assms(3-6) True l after in auto)
    with s(1,5) True l show ?thesis using spaced_join [of hi "butlast ?xs" "glue (a, s + n) ?ys" a] by (simp add: give_def Let_def)
  next
    case False
    have "\<forall>(c, t) \<in> set ?xs. c + t < b"
    proof (cases ?xs rule: rev_cases)
      case (snoc zs z)
      obtain a s where z: "z = (a, s)" by (cases z)
      have "a + s < b" using before False unfolding snoc z by auto
      moreover have "\<forall>(c, t) \<in> set zs. c + t < a" using sp(1) unfolding snoc z by (auto simp: spaced_simps)
      ultimately show ?thesis unfolding snoc z by (auto intro: less_trans)
    qed simp
    moreover have "spaced hi (glue (b, n) ?ys) \<and> (\<forall>(c, t) \<in> set (glue (b, n) ?ys). b \<le> c)"
      by (rule spaced_glue) (use sp(2) assms(3-6) after in auto)
    ultimately show ?thesis using sp(1) False spaced_join [of hi ?xs "glue (b, n) ?ys" b] by (auto simp: give_def Let_def)
  qed
qed

text \<open>No chunk of such a list can be joined with the next.\<close>

lemma merge_checked:
  assumes "chain (join_next c h) l" "spaced hi l" "hi < 65536" "(unat c, s) \<in> set l"
  shows "merge_next c h = Some (join_next c h)"
proof -
  let ?h = "join_next c h"
  obtain xs ys where l: "l = xs @ (unat c, s) # ys" using split_list [OF assms(4)] by blast
  obtain r where r: "unat r = unat c" "unat (chunk_size ?h r) = s" "seg (ram ?h) (chunk_next ?h r) ys 0"
    using assms(1) by (auto simp: l chain_def seg_append chunk_size_def chunk_next_def)
  then have rc: "r = c" by (simp add: word_unat_eq_iff)
  have "unat c + s \<le> hi" "4 \<le> s" using assms(2) by (simp_all add: l spaced_simps)
  then have e: "unat (c + chunk_size ?h c) = unat c + s" using r(2) assms(3) by (simp add: rc unat_word_ariths)
  have "c + chunk_size ?h c \<noteq> chunk_next ?h c"
  proof (cases ys)
    case Nil
    then have "chunk_next ?h c = 0" using r(3) rc by simp
    with e \<open>4 \<le> s\<close> show ?thesis by (metis add_is_0 not_numeral_le_zero unat_0)
  next
    case (Cons y zs)
    obtain b t where y: "y = (b, t)" by (cases y)
    then have "unat (chunk_next ?h c) = b" "unat c + s < b" using r(3) rc assms(2) Cons by (auto simp: l spaced_simps)
    with e show ?thesis by auto
  qed
  then show ?thesis by (simp add: merge_next_def Let_def)
qed

lemma glue_head: "\<exists>t. (a, t) \<in> set (glue (a, s) ys)"
  by (cases ys) (auto split: if_splits)

lemma freemem_gives:
  assumes ch: "chain h cs" and sp: "spaced hi cs" and hi: "hi < 65536" and b: "unat mem = b" "0 < b" "b + n \<le> hi"
    and n: "unat (heap_granule v) = n" "4 \<le> n" "4 dvd n" and ov: "\<forall>(a, s) \<in> set cs. a + s \<le> b \<or> b + n \<le> a"
  shows "\<exists>h'. heap_freemem mem v h = Some h' \<and> chain h' (give b n cs) \<and> same_outside (\<lambda>x. in_headers x ((b, n) # cs)) h h'"
proof -
  define xs ys where "xs = takeWhile (\<lambda>(a, s). a < b) cs" and "ys = dropWhile (\<lambda>(a, s). a < b) cs"
  have cs: "cs = xs @ ys" by (simp add: xs_def ys_def)
  have ar: "around b n xs ys" unfolding xs_def ys_def by (rule spaced_around [OF sp ov n(2) b(2,3) hi])
  have lt: "\<forall>(a, s) \<in> set xs. a < b" and gt: "\<forall>(a, s) \<in> set ys. b < a" using ar by (auto simp: around_def)
  obtain r where r: "seg (ram h) (FreeList h) xs r" "seg (ram h) r ys 0" using ch by (auto simp: chain_def cs seg_append)
  have mem: "mem \<noteq> 0" "mem \<noteq> FreeList h"
  proof -
    show "mem \<noteq> 0" using b(1,2) by auto
    have "unat (FreeList h) \<noteq> b" using b(2) ov n(2) sp ch by (cases cs) (auto simp: chain_def spaced_simps)
    then show "mem \<noteq> FreeList h" using b(1) by auto
  qed
  note sg = spaced_give [OF sp ov n(2,3) b(2,3)]
  note ins = insert_merges [OF ch [unfolded cs] ar b(1) n(1) r]
  show ?thesis
  proof (cases xs rule: rev_cases)
    case Nil
    have "mem < FreeList h \<or> FreeList h = 0" using r gt b(1) by (cases ys) (auto simp: Nil word_less_nat_alt)
    then have f: "heap_freemem mem v h = merge_next mem (set_link None mem (set_size mem (heap_granule v) (set_next mem r h)))"
      using r(1) Nil mem by (simp add: heap_freemem_def set_link_def)
    have g: "give b n cs = glue (b, n) ys" using Nil by (simp add: give_def Let_def flip: xs_def ys_def)
    have "chain (join_next mem (set_link None mem (set_size mem (heap_granule v) (set_next mem r h)))) (give b n cs) \<and>
        same_outside (\<lambda>x. in_headers x ((b, n) # cs)) h (join_next mem (set_link None mem (set_size mem (heap_granule v) (set_next mem r h))))"
      unfolding g using ins Nil cs by simp
    then show ?thesis using merge_checked [OF _ sg hi] glue_head [of b n ys] f g b(1) by auto
  next
    case (snoc zs z)
    obtain a s where z: "z = (a, s)" by (cases z)
    have as: "a + s \<le> b" "b + n < 65536" using ar by (simp_all add: around_def snoc z)
    obtain q where q: "seg (ram h) (FreeList h) zs q" "q \<noteq> 0" "unat q = a" "unat (chunk_size h q) = s" "chunk_next h q = r"
      using r(1) by (auto simp: snoc z seg_snoc chunk_size_def chunk_next_def)
    have qa: "word_of_nat a = q" unfolding q(3) [symmetric] by simp
    have "FreeList h \<noteq> 0 \<and> unat (FreeList h) < b" using q lt by (cases zs) (auto simp: snoc z)
    then have f: "\<not> (mem < FreeList h \<or> FreeList h = 0)" using b(1) by (auto simp: word_less_nat_alt)
    have w: "free_walk h mem (FreeList h) = Some q" unfolding qa [symmetric]
    proof (rule free_walk_stops)
      show "seg (ram h) (FreeList h) (zs @ (a, s) # ys) 0" using ch by (simp add: chain_def cs snoc z)
      show "\<forall>(b, t) \<in> set (tl (zs @ [(a, s)])). b < unat mem" using lt b(1) by (cases zs) (auto simp: snoc z)
      show "ys = [] \<or> unat mem \<le> fst (hd ys)" using gt b(1) by (cases ys) auto
    qed
    have "unat (q + chunk_size h q) = a + s" using q as by (simp add: unat_word_ariths)
    then have le: "\<not> mem < q + chunk_size h q" using b(1) as by (simp add: word_less_nat_alt)
    have e: "q + chunk_size h q = mem \<longleftrightarrow> a + s = b" using b(1) \<open>unat (q + chunk_size h q) = a + s\<close> by (metis word_unat_eq_iff)
    show ?thesis
    proof (cases "a + s = b")
      case False
      have g: "give b n cs = xs @ glue (b, n) ys" using False by (simp add: give_def Let_def snoc z flip: xs_def ys_def)
      have fm: "heap_freemem mem v h = merge_next mem (set_link (Some q) mem (set_size mem (heap_granule v) (set_next mem r h)))"
        using f w e False q(5) mem le by (simp add: heap_freemem_def set_link_def Let_def)
      have "chain (join_next mem (set_link (Some q) mem (set_size mem (heap_granule v) (set_next mem r h)))) (give b n cs) \<and>
        same_outside (\<lambda>x. in_headers x ((b, n) # cs)) h (join_next mem (set_link (Some q) mem (set_size mem (heap_granule v) (set_next mem r h))))"
        unfolding g using ins by (simp add: snoc z qa cs)
      then show ?thesis using merge_checked [OF _ sg hi] glue_head [of b n ys] fm g b(1) by auto
    next
      case True
      have g: "give b n cs = zs @ glue (a, s + n) ys" using True by (simp add: give_def Let_def snoc z flip: xs_def ys_def)
      have fm: "heap_freemem mem v h = merge_next q (set_size q (chunk_size h q + heap_granule v) h)"
        using f w e True mem by (simp add: heap_freemem_def Let_def)
      have x: "chain (join_next q (set_size q (chunk_size h q + heap_granule v) h)) (give b n cs) \<and>
          same_outside (\<lambda>x. in_headers x (zs @ (a, s) # ys)) h (join_next q (set_size q (chunk_size h q + heap_granule v) h))"
        using extend_merges [of h zs a s ys b n "heap_granule v" q, OF _ _ True n(1) q(3,4) refl] ch ar unfolding g by (simp add: cs snoc z)
      obtain t where "(unat q, t) \<in> set (give b n cs)" using glue_head [of a "s + n" ys] g q(3) by auto
      then have "heap_freemem mem v h = Some (join_next q (set_size q (chunk_size h q + heap_granule v) h))"
        unfolding fm using x by (intro merge_checked [OF _ sg hi]) auto
      with x show ?thesis by (auto simp: cs snoc z same_outside_def in_headers_def)
    qed
  qed
qed

section \<open>Sizes and cells\<close>

lemma ROUND_UP2_4: "unat n \<le> 65532 \<Longrightarrow> unat (ROUND_UP2 n 4) = (unat n + 3) div 4 * 4"
proof -
  assume n: "unat n \<le> 65532"
  have "ROUND_UP2 n 4 = (n + 3) AND NOT (mask 2)" by (simp add: ROUND_UP2_def mask_eq_exp_minus_1)
  moreover have "Suc (Suc (k - 2)) = k" if "2 \<le> k" for k :: nat using that by simp
  ultimately have "ROUND_UP2 n 4 = push_bit 2 (drop_bit 2 (n + 3))"
    by (auto simp: bit_simps intro!: bit_word_eqI simp del: mask_numeral)
  moreover have "unat (n + 3) = unat n + 3" using n unat_add_small [of n 3] by simp
  then have "unat (drop_bit 2 (n + 3)) = (unat n + 3) div 4" by (simp add: drop_bit_eq_div unat_div)
  moreover have "(unat n + 3) div 4 * 4 < 65536" using n by (simp add: less_eq_div_iff_mult_less_eq)
  ultimately show ?thesis by (simp add: push_bit_eq_mult unat_word_ariths mult.commute)
qed

lemma granule:
  assumes "unat n \<le> 65532"
  shows "unat (heap_granule n) = max 4 ((unat n + 3) div 4 * 4)" "4 dvd unat (heap_granule n)" "4 \<le> unat (heap_granule n)"
    "unat n \<le> unat (heap_granule n)"
proof -
  have "ROUND_UP2 n 4 = 0 \<longleftrightarrow> unat n = 0"
    using ROUND_UP2_4 [OF assms] by (auto simp: unat_eq_zero div_eq_0_iff simp flip: unat_eq_zero)
  then show e: "unat (heap_granule n) = max 4 ((unat n + 3) div 4 * 4)"
    using ROUND_UP2_4 [OF assms] by (auto simp: heap_granule_def MemChunk_size_def Let_def)
  show "4 dvd unat (heap_granule n)" "4 \<le> unat (heap_granule n)" "unat n \<le> unat (heap_granule n)"
    unfolding e by (auto simp: max_def)
qed

text \<open>The addresses of a list of chunks or blocks, one after the other.\<close>

definition cells :: "(nat \<times> nat) list \<Rightarrow> nat list" where
  "cells xs = concat (map (\<lambda>(a, s). [a..<a + s]) xs)"

lemma cells_simps [simp]: "cells [] = []" "cells ((a, s) # xs) = [a..<a + s] @ cells xs" "cells (xs @ ys) = cells xs @ cells ys"
  by (simp_all add: cells_def)

lemma in_cells: "x \<in> set (cells xs) \<longleftrightarrow> (\<exists>(a, s) \<in> set xs. a \<le> x \<and> x < a + s)"
  by (auto simp: cells_def)

lemma length_cells: "length (cells xs) = sum_list (map snd xs)"
  by (induction xs) (auto simp: cells_def)

lemma mset_upt_split: "mset_set {a..<a + (s + t)} = mset_set {a..<a + s} + mset_set {a + s..<a + s + t :: nat}"
proof -
  have "{a..<a + (s + t)} = {a..<a + s} \<union> {a + s..<a + s + t}" by auto
  then show ?thesis by (simp add: mset_set_Union)
qed

lemma cells_glue: "mset (cells (glue (a, s) ys)) = mset [a..<a + s] + mset (cells ys)"
  by (cases ys) (auto simp: mset_upt_split)

lemma cells_give: "mset (cells (give b n cs)) = mset [b..<b + n] + mset (cells cs)"
proof -
  let ?xs = "takeWhile (\<lambda>(a, s). a < b) cs" and ?ys = "dropWhile (\<lambda>(a, s). a < b) cs"
  have m: "mset (cells cs) = mset (cells ?xs) + mset (cells ?ys)"
    using cells_simps(3) [of ?xs ?ys] by (simp del: cells_simps add: takeWhile_dropWhile_id)
  show ?thesis
  proof (cases "?xs \<noteq> [] \<and> fst (last ?xs) + snd (last ?xs) = b")
    case True
    obtain a s where l: "last ?xs = (a, s)" by (cases "last ?xs")
    have "?xs = butlast ?xs @ [(a, s)]" using True l by (metis append_butlast_last_id)
    then have "mset (cells ?xs) = mset (cells (butlast ?xs)) + mset [a..<a + s]" by (metis add.right_neutral append_Nil2 cells_simps mset_append)
    with True m l show ?thesis by (auto simp: give_def Let_def cells_glue mset_upt_split)
  next
    case False
    then show ?thesis using m by (auto simp: give_def Let_def cells_glue)
  qed
qed

lemma cells_fit: "fit n cs = Some (r, cs') \<Longrightarrow> mset (cells cs) = mset [r..<r + n] + mset (cells cs')"
proof -
  assume "fit n cs = Some (r, cs')"
  from fit_Some [OF this] obtain xs a s ys where d: "cs = xs @ (a, s) # ys"
    "n < s \<and> r = a + (s - n) \<and> cs' = xs @ (a, s - n) # ys \<or> s = n \<and> r = a \<and> cs' = xs @ ys" by blast
  from d(2) show ?thesis
  proof
    assume f: "n < s \<and> r = a + (s - n) \<and> cs' = xs @ (a, s - n) # ys"
    then obtain k where "s = k + n" by (metis le_add_diff_inverse2 less_imp_le)
    with f d(1) show ?thesis by (simp add: mset_upt_split)
  qed (use d(1) in simp)
qed

lemma spaced_fit:
  assumes "fit n cs = Some (r, cs')" "spaced hi cs" "4 dvd n"
  shows "spaced hi cs'"
proof -
  from fit_Some [OF assms(1)] obtain xs a s ys where d: "cs = xs @ (a, s) # ys"
    "n < s \<and> r = a + (s - n) \<and> cs' = xs @ (a, s - n) # ys \<or> s = n \<and> r = a \<and> cs' = xs @ ys" by blast
  from d(2) show ?thesis
  proof
    assume f: "n < s \<and> r = a + (s - n) \<and> cs' = xs @ (a, s - n) # ys"
    then obtain k where k: "s = k + n" "0 < k" by (metis add.commute less_imp_add_positive)
    have "4 dvd k" using assms(2,3) k by (simp add: d(1) spaced_simps dvd_add_left_iff)
    with k have "4 dvd k \<and> 4 \<le> k" using dvd_imp_le by blast
    with f k d(1) assms(2) show ?thesis by (auto simp: spaced_simps split_beta)
  qed (use d(1) assms(2) in \<open>auto simp: spaced_simps split_beta\<close>)
qed

section \<open>Clients\<close>

text \<open>
  Any sequence of allocations, releases of what was allocated, with its size, and writes into it. The list has the blocks
  that are in use with the sizes asked for. Sizes above 65532 are left out: they are rounded up to 0 (\<open>alloc_wraps\<close>).
\<close>

inductive heap_run :: "mem_addr \<Rightarrow> u16 \<Rightarrow> Heap \<times> (mem_addr \<times> u16) list \<Rightarrow> bool" for memory :: mem_addr and n :: u16 where
  init: "heap_run memory n (heap_init memory n m, [])"
| alloc: "heap_run memory n (h, A) \<Longrightarrow> unat k \<le> 65532 \<Longrightarrow> heap_allocmem k h = Some (p, h') \<Longrightarrow>
    heap_run memory n (h', if p = 0 then A else (p, k) # A)"
| free: "heap_run memory n (h, A) \<Longrightarrow> (p, k) \<in> set A \<Longrightarrow> heap_freemem p k h = Some h' \<Longrightarrow> heap_run memory n (h', remove1 (p, k) A)"
| store: "heap_run memory n (h, A) \<Longrightarrow> (p, k) \<in> set A \<Longrightarrow> unat p \<le> unat a \<Longrightarrow> unat a < unat p + unat k \<Longrightarrow>
    heap_run memory n (h\<lparr>ram := (ram h)(a := v)\<rparr>, A)"

definition block :: "mem_addr \<times> u16 \<Rightarrow> nat \<times> nat" where
  "block b = (unat (fst b), unat (heap_granule (snd b)))"

text \<open>The free chunks and the blocks in use together are the buffer, each byte of it once.\<close>

definition heap_tiles :: "nat \<Rightarrow> nat \<Rightarrow> Heap \<Rightarrow> (mem_addr \<times> u16) list \<Rightarrow> (nat \<times> nat) list \<Rightarrow> bool" where
  "heap_tiles lo hi h A cs \<longleftrightarrow> chain h cs \<and> spaced hi cs \<and> (\<forall>(p, k) \<in> set A. unat k \<le> 65532) \<and>
     mset (cells (cs @ map block A)) = mset [lo..<hi]"

lemma tiles_cells:
  assumes "heap_tiles lo hi h A cs"
  shows "distinct (cells (cs @ map block A))" "set (cells (cs @ map block A)) = {lo..<hi}"
  using assms mset_eq_imp_distinct_iff [of "cells (cs @ map block A)" "[lo..<hi]"] mset_eq_setD [of "cells (cs @ map block A)" "[lo..<hi]"]
  by (simp_all add: heap_tiles_def del: cells_simps)

lemma heap_init_tiles:
  assumes "memory \<noteq> 0" "4 \<le> unat n" "4 dvd unat n" "unat memory + unat n < 65536"
  shows "heap_tiles (unat memory) (unat memory + unat n) (heap_init memory n m) [] [(unat memory, unat n)]"
proof -
  have u: "unat (memory + 2) = unat memory + 2" using unat_add_small [of memory 2] assms by simp
  have "rd16 (wr16 (memory + 2) n (wr16 memory 0 m)) memory = rd16 (wr16 memory 0 m) memory"
    using u assms by (intro rd16_wr16_other) auto
  then show ?thesis
    using assms by (auto simp: heap_tiles_def chain_def heap_init_def set_next_def set_size_def Let_def spaced_simps unat_gt_0)
qed

lemma in_cellsI: "(a, s) \<in> set xs \<Longrightarrow> a \<le> x \<Longrightarrow> x < a + s \<Longrightarrow> x \<in> set (cells xs)"
  unfolding in_cells by (rule bexI [of _ "(a, s)"]) simp_all

lemma cells_Cons: "cells (x # xs) = cells [x] @ cells xs"
  by (simp add: cells_def)

text \<open>A block in use overlaps no chunk and no other block.\<close>

lemma block_apart:
  assumes "heap_tiles lo hi h A cs" "(p, k) \<in> set A"
  defines "b \<equiv> unat p" and "n \<equiv> unat (heap_granule k)"
  shows "lo \<le> b \<and> b + n \<le> hi" "\<forall>(a, s) \<in> set cs. a + s \<le> b \<or> b + n \<le> a" "4 \<le> n" "4 dvd n" "unat k \<le> n"
proof -
  have k: "unat k \<le> 65532" using assms(1,2) by (auto simp: heap_tiles_def)
  then show n: "4 \<le> n" "4 dvd n" "unat k \<le> n" unfolding n_def by (rule granule)+
  note d = tiles_cells [OF assms(1)]
  have m: "(b, n) \<in> set (map block A)" using assms(2) by (force simp: block_def b_def n_def)
  have bc: "x \<in> set (cells (map block A))" if "b \<le> x" "x < b + n" for x
    by (rule in_cellsI [OF m that])
  then have "b \<in> {lo..<hi}" "b + n - 1 \<in> {lo..<hi}" using n unfolding d(2) [symmetric] by auto
  then show "lo \<le> b \<and> b + n \<le> hi" using n by auto
  show "\<forall>(a, s) \<in> set cs. a + s \<le> b \<or> b + n \<le> a"
  proof clarify
    fix a s assume a: "(a, s) \<in> set cs" "\<not> b + n \<le> a"
    have "4 \<le> s" using a(1) assms(1) by (auto simp: heap_tiles_def spaced_def)
    show "a + s \<le> b"
    proof (rule ccontr)
      assume "\<not> a + s \<le> b"
      then have "max a b \<in> set (cells cs)" using a n \<open>4 \<le> s\<close> by (intro in_cellsI [OF a(1)]) auto
      moreover have "max a b \<in> set (cells (map block A))" using a n by (intro bc) auto
      ultimately show False using d(1) by auto
    qed
  qed
qed

lemma alloc_tiles:
  assumes t: "heap_tiles lo hi h A cs" and hi: "hi < 65536" and k: "unat k \<le> 65532"
  shows "case fit (unat (heap_granule k)) cs of
      None \<Rightarrow> heap_allocmem k h = Some (0, h)
    | Some (r, cs') \<Rightarrow> \<exists>p h'. heap_allocmem k h = Some (p, h') \<and> p \<noteq> 0 \<and> heap_tiles lo hi h' ((p, k) # A) cs'"
proof -
  have c: "chain h cs" "spaced hi cs" "0 < heap_granule k"
    using t granule(3) [OF k] by (auto simp: heap_tiles_def word_less_nat_alt)
  note f = alloc_fits [OF c(1,2) hi c(3), folded heap_allocmem_def]
  show ?thesis
  proof (cases "fit (unat (heap_granule k)) cs")
    case (Some x)
    obtain r cs' where x: "x = (r, cs')" by (cases x)
    from f obtain p h' where p: "heap_allocmem k h = Some (p, h')" "p \<noteq> 0" "unat p = r" "chain h' cs'" by (auto simp: Some x)
    have "heap_tiles lo hi h' ((p, k) # A) cs'"
      using t k p(3,4) cells_fit [OF Some [unfolded x]] spaced_fit [OF Some [unfolded x] c(2) granule(2) [OF k]]
      by (auto simp: heap_tiles_def block_def ac_simps)
    with p show ?thesis by (auto simp: Some x)
  qed (use f in simp)
qed

lemma cells_remove1: "x \<in> set A \<Longrightarrow> mset (cells (map f A)) = mset (cells [f x]) + mset (cells (map f (remove1 x A)))"
proof (induction A)
  case (Cons a A)
  then show ?case using cells_Cons [of "f a" "map f A"] cells_Cons [of "f a" "map f (remove1 x A)"] by auto
qed simp

lemma free_tiles:
  assumes t: "heap_tiles lo hi h A cs" and hi: "hi < 65536" and lo: "0 < lo" and pk: "(p, k) \<in> set A"
  shows "\<exists>h'. heap_freemem p k h = Some h' \<and> heap_tiles lo hi h' (remove1 (p, k) A) (give (unat p) (unat (heap_granule k)) cs)"
proof -
  let ?b = "unat p" and ?n = "unat (heap_granule k)"
  note b = block_apart [OF t pk]
  have c: "chain h cs" "spaced hi cs" using t by (auto simp: heap_tiles_def)
  have b0: "0 < ?b" "?b + ?n \<le> hi" using b(1) lo by auto
  obtain h' where h': "heap_freemem p k h = Some h'" "chain h' (give ?b ?n cs)"
    using freemem_gives [OF c hi refl b0 refl b(3,4,2)] by blast
  have "mset (cells (map block A)) = mset [?b..<?b + ?n] + mset (cells (map block (remove1 (p, k) A)))"
    using cells_remove1 [OF pk, of block] by (simp add: block_def)
  then have "heap_tiles lo hi h' (remove1 (p, k) A) (give ?b ?n cs)"
    using t h'(2) spaced_give [OF c(2) b(2-4) b0] set_remove1_subset [of "(p, k)" A]
    by (auto simp: heap_tiles_def cells_give ac_simps)
  with h'(1) show ?thesis by blast
qed

lemma write_tiles:
  assumes t: "heap_tiles lo hi h A cs" and hi: "hi < 65536" and pk: "(p, k) \<in> set A" "unat p \<le> unat a" "unat a < unat p + unat k"
  shows "heap_tiles lo hi (h\<lparr>ram := (ram h)(a := v)\<rparr>) A cs"
proof -
  note b = block_apart [OF t pk(1)]
  have c: "chain h cs" "spaced hi cs" using t by (auto simp: heap_tiles_def)
  have "\<not> in_headers (unat a) cs"
  proof
    assume "in_headers (unat a) cs"
    then obtain x s where x: "(x, s) \<in> set cs" "x \<le> unat a" "unat a < x + 4" by (auto simp: in_headers_def)
    moreover have "4 \<le> s" using x(1) c(2) by (auto simp: spaced_def)
    moreover have "x + s \<le> unat p \<or> unat p + unat (heap_granule k) \<le> x" using b(2) x(1) by auto
    ultimately show False using pk(2,3) b(5) by linarith
  qed
  then have "seg ((ram h)(a := v)) (FreeList h) cs 0"
    by (intro seg_cong [OF c(1) [unfolded chain_def] laid_small [OF spaced_laid [OF c(2) hi]]]) auto
  then show ?thesis using t by (simp add: heap_tiles_def chain_def)
qed

lemma heap_run_tiles:
  assumes "heap_run memory n s" "memory \<noteq> 0" "4 \<le> unat n" "4 dvd unat n" "unat memory + unat n < 65536"
  shows "\<exists>cs. heap_tiles (unat memory) (unat memory + unat n) (fst s) (snd s) cs"
  using assms(1)
proof induction
  case (init m)
  then show ?case using heap_init_tiles [OF assms(2-5)] by auto
next
  case (alloc h A k p h')
  then obtain cs where "heap_tiles (unat memory) (unat memory + unat n) h A cs" by auto
  with alloc alloc_tiles [OF this assms(5) alloc(2)] show ?case by (fastforce split: option.splits)
next
  case (free h A p k h')
  then obtain cs where "heap_tiles (unat memory) (unat memory + unat n) h A cs" by auto
  with free free_tiles [OF this assms(5) _ free(2)] assms(2) show ?case by (auto simp: unat_gt_0)
next
  case (store h A p k a v)
  then obtain cs where "heap_tiles (unat memory) (unat memory + unat n) h A cs" by auto
  from write_tiles [OF this assms(5) store(2-4)] show ?case by auto
qed

section \<open>What clients may rely on\<close>

lemma cells_apart:
  "distinct (cells xs) \<Longrightarrow> \<forall>(a, s) \<in> set xs. 0 < s \<Longrightarrow> sorted_wrt (\<lambda>(a, s) (b, t). a + s \<le> b \<or> b + t \<le> a) xs"
proof (induction xs)
  case (Cons x xs)
  obtain a s where x: "x = (a, s)" by (cases x)
  have "a + s \<le> b \<or> b + t \<le> a" if "(b, t) \<in> set xs" for b t
  proof (rule ccontr)
    assume "\<not> (a + s \<le> b \<or> b + t \<le> a)"
    then have "max a b \<in> set (cells xs)" "max a b \<in> {a..<a + s}" using Cons.prems that by (auto simp: x intro!: in_cellsI [OF that])
    then show False using Cons.prems(1) unfolding x cells_simps distinct_append set_upt by blast
  qed
  with Cons show ?case by (auto simp: x)
qed simp

lemma free_sum_seg: "seg (ram h) p cs 0 \<Longrightarrow> free_sum h p acc = Some (acc + word_of_nat (sum_list (map snd cs)))"
proof (induction cs arbitrary: p acc)
  case (Cons c cs)
  obtain a s where c: "c = (a, s)" by (cases c)
  have "free_sum h p acc = free_sum h (chunk_next h p) (acc + chunk_size h p)"
    using Cons.prems by (subst free_sum.simps) (simp add: c)
  also have "\<dots> = Some (acc + chunk_size h p + word_of_nat (sum_list (map snd cs)))"
    using Cons.prems by (intro Cons.IH) (simp add: c chunk_next_def)
  finally show ?case using Cons.prems by (auto simp: c chunk_size_def)
qed (simp add: free_sum.simps)

text \<open>A gap between the blocks in use lies within one free chunk, since chunks next to each other are joined.\<close>

lemma gap_in_chunk:
  assumes t: "heap_tiles lo hi h A cs" and g: "lo \<le> a" "a + g \<le> hi" "0 < g"
    and gap: "\<forall>b \<in> set A. a + g \<le> fst (block b) \<or> fst (block b) + snd (block b) \<le> a"
  shows "\<exists>(c, s) \<in> set cs. g \<le> s"
proof -
  have free: "x \<in> set (cells cs)" if "a \<le> x" "x < a + g" for x
  proof -
    have "x \<in> set (cells (cs @ map block A))" using tiles_cells(2) [OF t] that g by simp
    moreover have "x \<notin> set (cells (map block A))" using gap that by (fastforce simp: in_cells)
    ultimately show ?thesis by simp
  qed
  have sp: "sorted_wrt (\<lambda>(a, s) (b, t). a + s < b) cs" using t by (simp add: heap_tiles_def spaced_def)
  obtain c s where c: "(c, s) \<in> set cs" "c \<le> a" "a < c + s" using free [of a] g(3) by (auto simp: in_cells)
  have "a + g \<le> c + s"
  proof (rule ccontr)
    assume "\<not> a + g \<le> c + s"
    then obtain d u where d: "(d, u) \<in> set cs" "d \<le> c + s" "c + s < d + u" using free [of "c + s"] c by (auto simp: in_cells)
    obtain i j where i: "i < length cs" "cs ! i = (c, s)" and j: "j < length cs" "cs ! j = (d, u)" using c(1) d(1) by (auto simp: in_set_conv_nth)
    have "i \<noteq> j" using d(3) i j by auto
    then show False
      using sorted_wrt_nth_less [OF sp, of i j] sorted_wrt_nth_less [OF sp, of j i] i j c d by (cases "i < j") auto
  qed
  with c have "g \<le> s" by simp
  with c(1) show ?thesis by blast
qed

text \<open>An example: ten bytes of a buffer of 64 bytes at address 256 are its last twelve.\<close>

lemma example_alloc: "\<exists>h. heap_allocmem 10 (heap_init 256 64 (\<lambda>_. 0)) = Some (308, h)"
proof -
  let ?h = "heap_init 256 64 (\<lambda>_. 0)"
  have "heap_granule 10 = 12" "chunk_size ?h 256 = 64" "FreeList ?h = 256" by code_simp+
  moreover have "chunk_size (set_size 256 52 ?h) 256 = 52" by (simp add: chunk_size_def set_size_def)
  ultimately show ?thesis unfolding heap_allocmem_def by (subst alloc_walk.simps) simp
qed

text \<open>
  C17. Whatever a client does, the blocks it holds are within the buffer and do not overlap, each can be released (the walk over the
  free list ends and no assertion fails), and the free
  space reported is the size of the buffer less that of the blocks, rounded up to multiples of four bytes.
\<close>

theorem heap_blocks_safe:
  assumes "heap_run memory n (h, A)" and "memory \<noteq> 0" and "4 \<le> unat n" and "4 dvd unat n" and "unat memory + unat n < 65536"
  shows "(\<forall>(p, k) \<in> set A. unat memory \<le> unat p \<and> unat p + unat k \<le> unat memory + unat n \<and> heap_freemem p k h \<noteq> None) \<and>
    sorted_wrt (\<lambda>(a, s) (b, t). a + s \<le> b \<or> b + t \<le> a) (map block A) \<and>
    heap_freeSpace h = Some (n - word_of_nat (\<Sum>b\<leftarrow>A. snd (block b)))"
proof -
  obtain cs where t: "heap_tiles (unat memory) (unat memory + unat n) h A cs" using heap_run_tiles [OF assms] by auto
  have "unat memory \<le> unat p \<and> unat p + unat k \<le> unat memory + unat n \<and> heap_freemem p k h \<noteq> None" if "(p, k) \<in> set A" for p k
    using block_apart [OF t that] free_tiles [OF t assms(5) _ that] assms(2) by (auto simp: unat_gt_0)
  moreover have "sorted_wrt (\<lambda>(a, s) (b, t). a + s \<le> b \<or> b + t \<le> a) (map block A)"
    using tiles_cells(1) [OF t] block_apart(3) [OF t] by (intro cells_apart) (fastforce simp: block_def)+
  moreover have "sum_list (map snd cs) + (\<Sum>b\<leftarrow>A. snd (block b)) = unat n"
  proof -
    have "length (cells (cs @ map block A)) = length [unat memory..<unat memory + unat n]"
      using t unfolding heap_tiles_def by (metis size_mset)
    then show ?thesis unfolding length_cells by (simp add: o_def)
  qed
  then have "n = word_of_nat (sum_list (map snd cs)) + word_of_nat (\<Sum>b\<leftarrow>A. snd (block b))"
    by (metis of_nat_add of_nat_unat ucast_id)
  then have "heap_freeSpace h = Some (n - word_of_nat (\<Sum>b\<leftarrow>A. snd (block b)))"
    using t free_sum_seg [of h "FreeList h" cs 0] by (simp add: heap_freeSpace_def heap_tiles_def chain_def)
  ultimately show ?thesis by blast
qed

theorem heap_blocks_safe_witness:
  "\<exists>h. heap_freeSpace h = Some 52 \<and> (\<forall>(p, k) \<in> set [(308, 10)]. unat (256 :: u16) \<le> unat p \<and>
     unat p + unat k \<le> unat (256 :: u16) + unat (64 :: u16) \<and> heap_freemem p k h \<noteq> None)"
proof -
  obtain h where a: "heap_allocmem 10 (heap_init 256 64 (\<lambda>_. 0)) = Some (308, h)" using example_alloc by blast
  have "heap_run 256 64 (h, [(308, 10)])" using heap_run.alloc [OF heap_run.init _ a] by simp
  note heap_blocks_safe [OF this]
  moreover have "snd (block (308, 10)) = 12" by code_simp
  ultimately show ?thesis by (intro exI [of _ h]) simp
qed

text \<open>
  C20. Allocation fails only when it must: it returns, and it returns a block exactly if somewhere in the buffer there are
  enough bytes in a row that belong to no block in use.
\<close>

theorem heap_alloc_complete:
  assumes "heap_run memory n (h, A)" and "memory \<noteq> 0" and "4 \<le> unat n" and "4 dvd unat n" and "unat memory + unat n < 65536"
    and "unat k \<le> 65532"
  shows "\<exists>p h'. heap_allocmem k h = Some (p, h') \<and>
    (p \<noteq> 0 \<longleftrightarrow> (\<exists>a. unat memory \<le> a \<and> a + unat (heap_granule k) \<le> unat memory + unat n \<and>
      (\<forall>b \<in> set A. a + unat (heap_granule k) \<le> fst (block b) \<or> fst (block b) + snd (block b) \<le> a)))"
proof -
  let ?g = "unat (heap_granule k)"
  obtain cs where t: "heap_tiles (unat memory) (unat memory + unat n) h A cs" using heap_run_tiles [OF assms(1-5)] by auto
  note al = alloc_tiles [OF t assms(5,6)]
  show ?thesis
  proof (cases "fit ?g cs")
    case None
    then have "\<forall>(c, s) \<in> set cs. s < ?g" by (simp add: fit_None)
    then have "\<not> (\<exists>a. unat memory \<le> a \<and> a + ?g \<le> unat memory + unat n \<and>
        (\<forall>b \<in> set A. a + ?g \<le> fst (block b) \<or> fst (block b) + snd (block b) \<le> a))"
      using gap_in_chunk [OF t, of _ ?g] granule(3) [OF assms(6)] by fastforce
    with al None show ?thesis by simp
  next
    case (Some x)
    then obtain p h' cs' where p: "heap_allocmem k h = Some (p, h')" "p \<noteq> 0" "heap_tiles (unat memory) (unat memory + unat n) h' ((p, k) # A) cs'"
      using al by (cases x) auto
    have "unat memory \<le> unat p \<and> unat p + ?g \<le> unat memory + unat n" using block_apart(1) [OF p(3), of p k] by simp
    moreover have "sorted_wrt (\<lambda>(a, s) (b, t). a + s \<le> b \<or> b + t \<le> a) (map block ((p, k) # A))"
      using tiles_cells(1) [OF p(3)] block_apart(3) [OF p(3)] by (intro cells_apart) (fastforce simp: block_def)+
    then have "\<forall>b \<in> set A. unat p + ?g \<le> fst (block b) \<or> fst (block b) + snd (block b) \<le> unat p"
      by (simp add: block_def)
    ultimately show ?thesis using p(1,2) by blast
  qed
qed

theorem heap_alloc_complete_witness:
  "\<exists>h p h'. heap_run 256 64 (h, [(308, 10)]) \<and> heap_allocmem 52 h = Some (p, h') \<and> p \<noteq> 0"
proof -
  obtain h where a: "heap_allocmem 10 (heap_init 256 64 (\<lambda>_. 0)) = Some (308, h)" using example_alloc by blast
  have r: "heap_run 256 64 (h, [(308, 10)])" using heap_run.alloc [OF heap_run.init _ a] by simp
  have "unat (heap_granule 52) = 52" "block (308, 10) = (308, 12)" by code_simp+
  with heap_alloc_complete [OF r, of 52] r show ?thesis by (fastforce intro: exI [of _ 256])
qed

text \<open>A request that is rounded up past the end of the type gets the smallest block.\<close>

lemma alloc_wraps: "65532 < unat k \<Longrightarrow> heap_granule k = 4"
proof -
  assume "65532 < unat k"
  moreover have "unat k < 65536" by (rule less_le_trans [OF unsigned_less]) simp
  ultimately have "unat k = 65533 \<or> unat k = 65534 \<or> unat k = 65535" by linarith
  then have "k = 65533 \<or> k = 65534 \<or> k = 65535" by (auto simp: word_unat_eq_iff)
  then show ?thesis by (auto simp: heap_granule_def ROUND_UP2_def MemChunk_size_def)
qed

text \<open>What \<^verbatim>\<open>heap_malloc\<close> returned is released with the size it was allocated with.\<close>

lemma malloc_free:
  assumes "heap_malloc k h = Some (p, h')" "p \<noteq> 0" "ram g (p - 2) = ram h' (p - 2)" "ram g (p - 1) = ram h' (p - 1)"
  shows "heap_free p g = heap_freemem (p - 2) (k + 2) g"
proof -
  obtain q h1 where q: "heap_allocmem (k + 2) h = Some (q, h1)" "q \<noteq> 0" "p = q + 2" "h' = h1\<lparr>ram := wr16 q (k + 2) (ram h1)\<rparr>"
    using assms(1,2) by (auto simp: heap_malloc_def Let_def bind_eq_Some_conv split: if_splits)
  have "rd16 (ram g) q = rd16 (ram h') q" using assms(3,4) by (intro rd16_cong) (simp_all add: q(3) add.commute)
  then show ?thesis using assms(2) by (simp add: heap_free_def q(3,4))
qed

section \<open>The interface of an allocator\<close>

text \<open>
  What a client that keeps the list of its blocks may rely on: \<open>inv lo hi h A\<close> says that the blocks \<open>A\<close> are in use.
\<close>

locale allocator =
  fixes alloc :: "u16 \<Rightarrow> 'h \<Rightarrow> (mem_addr \<times> 'h) option"
    and release :: "mem_addr \<Rightarrow> u16 \<Rightarrow> 'h \<Rightarrow> 'h option"
    and inv :: "nat \<Rightarrow> nat \<Rightarrow> 'h \<Rightarrow> (mem_addr \<times> u16) list \<Rightarrow> bool"
  assumes alloc_law: "inv lo hi h A \<Longrightarrow> unat k \<le> 65532 \<Longrightarrow>
      \<exists>p h'. alloc k h = Some (p, h') \<and> inv lo hi h' (if p = 0 then A else (p, k) # A)"
    and release_law: "inv lo hi h A \<Longrightarrow> (p, k) \<in> set A \<Longrightarrow> \<exists>h'. release p k h = Some h' \<and> inv lo hi h' (remove1 (p, k) A)"
    and within: "inv lo hi h A \<Longrightarrow> (p, k) \<in> set A \<Longrightarrow> p \<noteq> 0 \<and> lo \<le> unat p \<and> unat p + unat k \<le> hi \<and> hi < 65536"
    and apart: "inv lo hi h ((p, k) # A) \<Longrightarrow> (q, l) \<in> set A \<Longrightarrow> p \<noteq> q \<and> (unat p + unat k \<le> unat q \<or> unat q + unat l \<le> unat p)"
    and perm: "inv lo hi h A \<Longrightarrow> mset B = mset A \<Longrightarrow> inv lo hi h B"
begin

lemma inv_distinct: "inv lo hi h A \<Longrightarrow> distinct A"
proof (rule ccontr)
  assume i: "inv lo hi h A" and "\<not> distinct A"
  then obtain xs ys zs x where "A = xs @ [x] @ ys @ [x] @ zs" using not_distinct_decomp by blast
  then have "inv lo hi h (x # xs @ ys @ [x] @ zs)" by (intro perm [OF i]) simp
  then show False using apart [of lo hi h "fst x" "snd x" "xs @ ys @ [x] @ zs" "fst x" "snd x"] by simp
qed

text \<open>Two blocks in use are at different addresses and do not overlap.\<close>

lemma inv_apart:
  assumes "inv lo hi h A" "(p, k) \<in> set A" "(q, l) \<in> set A" "(p, k) \<noteq> (q, l)"
  shows "p \<noteq> q \<and> (unat p + unat k \<le> unat q \<or> unat q + unat l \<le> unat p)"
proof -
  have "inv lo hi h ((p, k) # remove1 (p, k) A)" using assms(2) by (intro perm [OF assms(1)]) simp
  moreover have "(q, l) \<in> set (remove1 (p, k) A)" using assms(3,4) inv_distinct [OF assms(1)] by (auto simp: set_remove1_eq)
  ultimately show ?thesis by (rule apart)
qed

end

definition heap_inv :: "nat \<Rightarrow> nat \<Rightarrow> Heap \<Rightarrow> (mem_addr \<times> u16) list \<Rightarrow> bool" where
  "heap_inv lo hi h A \<longleftrightarrow> 0 < lo \<and> hi < 65536 \<and> (\<exists>cs. heap_tiles lo hi h A cs)"

interpretation heap: allocator heap_allocmem heap_freemem heap_inv
proof
  fix lo hi h A k p q l B
  show "heap_inv lo hi h A \<Longrightarrow> unat k \<le> 65532 \<Longrightarrow>
      \<exists>p h'. heap_allocmem k h = Some (p, h') \<and> heap_inv lo hi h' (if p = 0 then A else (p, k) # A)"
    unfolding heap_inv_def using alloc_tiles by (fastforce split: option.splits)
  show "heap_inv lo hi h A \<Longrightarrow> (p, k) \<in> set A \<Longrightarrow> \<exists>h'. heap_freemem p k h = Some h' \<and> heap_inv lo hi h' (remove1 (p, k) A)"
    unfolding heap_inv_def using free_tiles by blast
  show w: "heap_inv lo hi h A \<Longrightarrow> (p, k) \<in> set A \<Longrightarrow> p \<noteq> 0 \<and> lo \<le> unat p \<and> unat p + unat k \<le> hi \<and> hi < 65536" for A
  proof -
    assume i: "heap_inv lo hi h A" and p: "(p, k) \<in> set A"
    then obtain cs where t: "heap_tiles lo hi h A cs" by (auto simp: heap_inv_def)
    show ?thesis using block_apart(1,5) [OF t p] i by (auto simp: heap_inv_def)
  qed
  show "heap_inv lo hi h ((p, k) # A) \<Longrightarrow> (q, l) \<in> set A \<Longrightarrow> p \<noteq> q \<and> (unat p + unat k \<le> unat q \<or> unat q + unat l \<le> unat p)"
  proof -
    assume i: "heap_inv lo hi h ((p, k) # A)" and q: "(q, l) \<in> set A"
    then obtain cs where t: "heap_tiles lo hi h ((p, k) # A) cs" by (auto simp: heap_inv_def)
    note bp = block_apart [OF t, of p k] and bq = block_apart [OF t, of q l]
    have "sorted_wrt (\<lambda>(a, s) (b, t). a + s \<le> b \<or> b + t \<le> a) (map block ((p, k) # A))"
      using tiles_cells(1) [OF t] block_apart(3) [OF t] by (intro cells_apart) (fastforce simp: block_def)+
    then have "unat p + unat (heap_granule k) \<le> unat q \<or> unat q + unat (heap_granule l) \<le> unat p" using q by (auto simp: block_def)
    then show ?thesis using bp(3,5) bq(3,5) q by auto
  qed
  show "heap_inv lo hi h A \<Longrightarrow> mset B = mset A \<Longrightarrow> heap_inv lo hi h B"
  proof -
    assume i: "heap_inv lo hi h A" and e: "mset B = mset A"
    have s: "sum_list (map g xs) = sum_mset (image_mset g (mset xs))" for g :: "mem_addr \<times> u16 \<Rightarrow> nat multiset" and xs
      by (induction xs) simp_all
    have "mset (cells (map block B)) = mset (cells (map block A))"
      unfolding cells_def mset_concat map_map s e ..
    then show ?thesis using i mset_eq_setD [OF e] by (auto simp: heap_inv_def heap_tiles_def)
  qed
qed

end
