(* ===== verification/Proc.thy ===== *)
theory Proc
  imports Heap_Alloc Linked_List
begin

text \<open>
  The multitasking kernel of BeRTOS: the scheduler of \<^verbatim>\<open>bertos/kern/proc.c\<close>, semaphores (\<^verbatim>\<open>kern/sem.c\<close>) and signals
  (\<^verbatim>\<open>kern/signal.c\<close>), in the configuration with priorities, preemption, signals and stacks from the heap, without priority
  inheritance and without the monitor. A process is the address of its structure. The lists of processes are lists of addresses
  (\<open>Linked_List\<close> relates them to the links), the saved stack of a process is where it goes on: \<open>Ret\<close>, back in its own code,
  or \<open>SigWait\<close>, in the loop of \<^verbatim>\<open>sig_waitSignal\<close>. \<open>None\<close> is a failed assertion of the kernel.
\<close>

section \<open>Data\<close>

type_synonym pid = addr
type_synonym sigmask = u8

datatype resume = Ret | SigWait sigmask

record Process =
  link_pri :: i16
  sig_wait :: sigmask
  sig_recv :: sigmask
  flags :: u16
  stack_base :: addr
  stack_size :: u16
  resume_at :: resume

record Semaphore =
  owner :: pid
  wait_queue :: "pid list"
  nest_count :: i16

record Kernel =
  procs :: "pid \<Rightarrow> Process"
  sems :: "addr \<Rightarrow> Semaphore"
  proc_ready_list :: "pid list"
  current_process :: pid
  zombie_list :: "pid list"
  preempt_count :: u8
  proc_quantum :: i16
  proc_heap :: Heap

definition PF_FREESTACK :: u16 where "PF_FREESTACK = 1"
definition CONFIG_KERN_QUANTUM :: i16 where "CONFIG_KERN_QUANTUM = 11"

text \<open>\<^verbatim>\<open>sizeof(Process)\<close> on the AVR, which is \<^verbatim>\<open>PROC_SIZE_WORDS\<close> as a stack cell is a byte; and the default stack.\<close>

definition PROC_SIZE :: u16 where "PROC_SIZE = 20"
definition KERN_MINSTACKSIZE :: u16 where "KERN_MINSTACKSIZE = PROC_SIZE + 18 * 2 + 32 * 2 * 2"

definition upd_proc :: "pid \<Rightarrow> (Process \<Rightarrow> Process) \<Rightarrow> Kernel \<Rightarrow> Kernel" where
  "upd_proc p f k = k\<lparr>procs := (procs k)(p := f (procs k p))\<rparr>"

definition upd_sem :: "addr \<Rightarrow> (Semaphore \<Rightarrow> Semaphore) \<Rightarrow> Kernel \<Rightarrow> Kernel" where
  "upd_sem s f k = k\<lparr>sems := (sems k)(s := f (sems k s))\<rparr>"

section \<open>The scheduler\<close>

definition prio_proc :: "Kernel \<Rightarrow> pid \<Rightarrow> int" where
  "prio_proc k p = sint (link_pri (procs k p))"

definition prio_next :: "Kernel \<Rightarrow> int" where
  "prio_next k = (case proc_ready_list k of [] \<Rightarrow> - 32768 | p # _ \<Rightarrow> prio_proc k p)"

definition prio_curr :: "Kernel \<Rightarrow> int" where
  "prio_curr k = prio_proc k (current_process k)"

text \<open>\<^verbatim>\<open>LIST_ENQUEUE\<close> inserts before the first node of lower priority, \<^verbatim>\<open>LIST_ENQUEUE_HEAD\<close> before the first of the same or lower.\<close>

definition SCHED_ENQUEUE :: "pid \<Rightarrow> Kernel \<Rightarrow> Kernel" where
  "SCHED_ENQUEUE p k = k\<lparr>proc_ready_list :=
     takeWhile (\<lambda>q. \<not> prio_proc k q < prio_proc k p) (proc_ready_list k) @ p #
     dropWhile (\<lambda>q. \<not> prio_proc k q < prio_proc k p) (proc_ready_list k)\<rparr>"

definition SCHED_ENQUEUE_HEAD :: "pid \<Rightarrow> Kernel \<Rightarrow> Kernel" where
  "SCHED_ENQUEUE_HEAD p k = k\<lparr>proc_ready_list :=
     takeWhile (\<lambda>q. \<not> prio_proc k q \<le> prio_proc k p) (proc_ready_list k) @ p #
     dropWhile (\<lambda>q. \<not> prio_proc k q \<le> prio_proc k p) (proc_ready_list k)\<rparr>"

definition sched_reenqueue :: "pid \<Rightarrow> Kernel \<Rightarrow> Kernel" where
  "sched_reenqueue p k =
     (if p \<in> set (proc_ready_list k) then SCHED_ENQUEUE p (k\<lparr>proc_ready_list := remove1 p (proc_ready_list k)\<rparr>) else k)"

definition proc_setPri :: "pid \<Rightarrow> i16 \<Rightarrow> Kernel \<Rightarrow> Kernel" where
  "proc_setPri p pri k =
     (if link_pri (procs k p) = pri then k
      else let k = upd_proc p (\<lambda>r. r\<lparr>link_pri := pri\<rparr>) k
           in if p \<noteq> current_process k then sched_reenqueue p k else k)"

definition proc_forbid :: "Kernel \<Rightarrow> Kernel" where
  "proc_forbid k = k\<lparr>preempt_count := preempt_count k + 1\<rparr>"

definition proc_permit :: "Kernel \<Rightarrow> Kernel option" where
  "proc_permit k = do { ASSERT (0 < preempt_count k); Some (k\<lparr>preempt_count := preempt_count k - 1\<rparr>) }"

definition proc_preemptAllowed :: "Kernel \<Rightarrow> bool" where
  "proc_preemptAllowed k \<longleftrightarrow> preempt_count k = 0"

definition preempt_reset_quantum :: "Kernel \<Rightarrow> Kernel" where
  "preempt_reset_quantum k = k\<lparr>proc_quantum := CONFIG_KERN_QUANTUM\<rparr>"

definition proc_decQuantum :: "Kernel \<Rightarrow> Kernel" where
  "proc_decQuantum k = (if 0 < sint (proc_quantum k) then k\<lparr>proc_quantum := proc_quantum k - 1\<rparr> else k)"

text \<open>One turn of the loop of \<^verbatim>\<open>proc_schedule\<close>: with nothing ready there is no current process, and interrupts are let in.\<close>

definition proc_schedule :: "Kernel \<Rightarrow> Kernel" where
  "proc_schedule k =
     (case proc_ready_list k of
        [] \<Rightarrow> k\<lparr>current_process := 0\<rparr>
      | p # ps \<Rightarrow> k\<lparr>proc_ready_list := ps, current_process := p\<rparr>)"

definition proc_needPreempt :: "Kernel \<Rightarrow> bool" where
  "proc_needPreempt k \<longleftrightarrow>
     current_process k \<noteq> 0 \<and> proc_preemptAllowed k \<and> proc_ready_list k \<noteq> [] \<and>
     (if proc_quantum k \<noteq> 0 then prio_curr k < prio_next k else prio_curr k \<le> prio_next k)"

definition proc_preempt :: "Kernel \<Rightarrow> Kernel option" where
  "proc_preempt k =
     do { ASSERT (current_process k \<noteq> 0);
          Some (proc_schedule (preempt_reset_quantum (SCHED_ENQUEUE (current_process k) k))) }"

definition proc_switchTo :: "pid \<Rightarrow> Kernel \<Rightarrow> Kernel" where
  "proc_switchTo p k = (preempt_reset_quantum (SCHED_ENQUEUE (current_process k) k))\<lparr>current_process := p\<rparr>"

definition proc_switch :: "Kernel \<Rightarrow> Kernel option" where
  "proc_switch k = do { ASSERT (proc_preemptAllowed k); Some (proc_schedule (preempt_reset_quantum k)) }"

definition proc_wakeup :: "pid \<Rightarrow> Kernel \<Rightarrow> Kernel option" where
  "proc_wakeup p k =
     do { ASSERT (proc_preemptAllowed k);
          ASSERT (current_process k \<noteq> 0);
          Some (if prio_curr k \<le> prio_proc k p then proc_switchTo p k else SCHED_ENQUEUE_HEAD p k) }"

definition proc_yield :: "Kernel \<Rightarrow> Kernel option" where
  "proc_yield k =
     do { ASSERT (proc_preemptAllowed k);
          Some (case proc_ready_list k of
                  [] \<Rightarrow> k
                | p # ps \<Rightarrow> proc_switchTo p (k\<lparr>proc_ready_list := ps\<rparr>)) }"

section \<open>Processes\<close>

definition proc_initStruct :: "Process \<Rightarrow> Process" where
  "proc_initStruct r = r\<lparr>sig_recv := 0, sig_wait := 0, flags := 0, link_pri := 0\<rparr>"

definition proc_init :: "addr \<Rightarrow> u16 \<Rightarrow> pid \<Rightarrow> Kernel \<Rightarrow> Kernel" where
  "proc_init heap_buf n main_process k =
     (let k = k\<lparr>proc_ready_list := [], zombie_list := [], proc_heap := heap_init heap_buf n (ram (proc_heap k))\<rparr>;
          k = upd_proc main_process (\<lambda>r. (proc_initStruct r)\<lparr>resume_at := Ret\<rparr>) k
      in k\<lparr>current_process := main_process\<rparr>)"

fun free_stacks :: "pid list \<Rightarrow> Kernel \<Rightarrow> Kernel option" where
  "free_stacks [] k = Some k"
| "free_stacks (p # ps) k =
     (if flags (procs k p) AND PF_FREESTACK \<noteq> 0 then
        do { h \<leftarrow> heap_freemem (stack_base (procs k p)) (stack_size (procs k p) + PROC_SIZE) (proc_heap k);
             free_stacks ps (k\<lparr>zombie_list := ps, proc_heap := h\<rparr>) }
      else free_stacks ps (k\<lparr>zombie_list := ps\<rparr>))"

definition proc_freeZombies :: "Kernel \<Rightarrow> Kernel option" where
  "proc_freeZombies k = free_stacks (zombie_list k) k"

definition proc_addZombie :: "pid \<Rightarrow> Kernel \<Rightarrow> Kernel option" where
  "proc_addZombie p k = do { ASSERT (\<not> proc_preemptAllowed k); Some (k\<lparr>zombie_list := zombie_list k @ [p]\<rparr>) }"

text \<open>The structure of a new process is at the top of its stack, which grows downwards.\<close>

definition proc_setup :: "addr \<Rightarrow> u16 \<Rightarrow> bool \<Rightarrow> Kernel \<Rightarrow> pid \<times> Kernel" where
  "proc_setup base n free_stack k =
     (let p = base + n - PROC_SIZE;
          k = upd_proc p (\<lambda>r. (proc_initStruct r)\<lparr>stack_base := base, stack_size := n - PROC_SIZE,
                flags := (if free_stack then PF_FREESTACK else 0), resume_at := Ret\<rparr>) k
      in (p, SCHED_ENQUEUE p k))"

definition proc_new :: "u16 \<Rightarrow> addr \<Rightarrow> Kernel \<Rightarrow> (pid \<times> Kernel) option" where
  "proc_new n base k =
     do { k \<leftarrow> proc_freeZombies k;
          if base \<noteq> 0 then Some (proc_setup base n False k)
          else let n = (if n = 0 then KERN_MINSTACKSIZE else n)
               in do { (b, h) \<leftarrow> heap_allocmem n (proc_heap k);
                       if b = 0 then Some (0, k\<lparr>proc_heap := h\<rparr>)
                       else Some (proc_setup b n True (k\<lparr>proc_heap := h\<rparr>)) } }"

definition proc_exit :: "Kernel \<Rightarrow> Kernel option" where
  "proc_exit k =
     do { k \<leftarrow> proc_addZombie (current_process k) (proc_forbid k);
          k \<leftarrow> proc_permit (k\<lparr>current_process := 0\<rparr>);
          proc_switch k }"

section \<open>Semaphores\<close>

definition sem_verify :: "addr \<Rightarrow> Kernel \<Rightarrow> unit option" where
  "sem_verify s k = ASSERT (0 \<le> sint (nest_count (sems k s)) \<and> sint (nest_count (sems k s)) < 128)"

definition sem_init :: "addr \<Rightarrow> Kernel \<Rightarrow> Kernel" where
  "sem_init s k = upd_sem s (\<lambda>_. \<lparr>owner = 0, wait_queue = [], nest_count = 0\<rparr>) k"

definition sem_take :: "addr \<Rightarrow> Kernel \<Rightarrow> Kernel" where
  "sem_take s k = upd_sem s (\<lambda>r. r\<lparr>owner := current_process k, nest_count := nest_count r + 1\<rparr>) k"

definition sem_attempt :: "addr \<Rightarrow> Kernel \<Rightarrow> (bool \<times> Kernel) option" where
  "sem_attempt s k =
     do { let k = proc_forbid k;
          sem_verify s k;
          if owner (sems k s) = 0 \<or> owner (sems k s) = current_process k
          then do { k \<leftarrow> proc_permit (sem_take s k); Some (True, k) }
          else do { k \<leftarrow> proc_permit k; Some (False, k) } }"

text \<open>\<^verbatim>\<open>sem_obtain\<close> up to \<^verbatim>\<open>proc_permit\<close>, with whether \<^verbatim>\<open>proc_switch\<close> is to follow; and the whole of it.\<close>

definition sem_request :: "addr \<Rightarrow> Kernel \<Rightarrow> (bool \<times> Kernel) option" where
  "sem_request s k =
     do { let k = proc_forbid k;
          sem_verify s k;
          if owner (sems k s) \<noteq> 0 \<and> owner (sems k s) \<noteq> current_process k
          then do { k \<leftarrow> proc_permit (upd_sem s (\<lambda>r. r\<lparr>wait_queue := wait_queue r @ [current_process k]\<rparr>) k); Some (True, k) }
          else do { ASSERT (wait_queue (sems k s) = []); k \<leftarrow> proc_permit (sem_take s k); Some (False, k) } }"

definition sem_obtain :: "addr \<Rightarrow> Kernel \<Rightarrow> Kernel option" where
  "sem_obtain s k = do { (block, k) \<leftarrow> sem_request s k; if block then proc_switch k else Some k }"

definition sem_release :: "addr \<Rightarrow> Kernel \<Rightarrow> Kernel option" where
  "sem_release s k =
     do { let k = proc_forbid k;
          sem_verify s k;
          ASSERT (owner (sems k s) = current_process k);
          let k = upd_sem s (\<lambda>r. r\<lparr>nest_count := nest_count r - 1\<rparr>) k;
          if nest_count (sems k s) = 0 then
            case wait_queue (sems k s) of
              [] \<Rightarrow> proc_permit (upd_sem s (\<lambda>r. r\<lparr>owner := 0\<rparr>) k)
            | p # ps \<Rightarrow> do { k \<leftarrow> proc_permit (upd_sem s (\<lambda>r. r\<lparr>wait_queue := ps, nest_count := 1, owner := p\<rparr>) k);
                            proc_wakeup p k }
          else proc_permit k }"

section \<open>Signals\<close>

definition sig_check :: "sigmask \<Rightarrow> Kernel \<Rightarrow> sigmask \<times> Kernel" where
  "sig_check sigs k =
     (let p = current_process k
      in (sig_recv (procs k p) AND sigs, upd_proc p (\<lambda>r. r\<lparr>sig_recv := sig_recv r AND NOT sigs\<rparr>) k))"

text \<open>The loop of \<^verbatim>\<open>sig_waitSignal\<close> for the current process: it ends with the signals that came, or the process goes to sleep.\<close>

definition sig_wait_loop :: "sigmask \<Rightarrow> Kernel \<Rightarrow> (sigmask \<times> Kernel) option" where
  "sig_wait_loop sigs k =
     (let p = current_process k; res = sig_recv (procs k p) AND sigs
      in if res = 0 then do { k \<leftarrow> proc_switch (upd_proc p (\<lambda>r. r\<lparr>sig_wait := sigs, resume_at := SigWait sigs\<rparr>) k); Some (0, k) }
         else Some (res, upd_proc p (\<lambda>r. r\<lparr>sig_recv := sig_recv r AND NOT sigs, resume_at := Ret\<rparr>) k))"

definition sig_waitSignal :: "sigmask \<Rightarrow> Kernel \<Rightarrow> (sigmask \<times> Kernel) option" where
  "sig_waitSignal sigs k = do { ASSERT (proc_preemptAllowed k); sig_wait_loop sigs k }"

text \<open>After the process was switched to again.\<close>

definition sig_resume :: "sigmask \<Rightarrow> Kernel \<Rightarrow> (sigmask \<times> Kernel) option" where
  "sig_resume sigs k =
     (let p = current_process k
      in do { ASSERT (sig_wait (procs k p) = 0);
              ASSERT (sig_recv (procs k p) AND sigs \<noteq> 0);
              sig_wait_loop sigs k })"

definition sig_signal :: "pid \<Rightarrow> sigmask \<Rightarrow> bool \<Rightarrow> Kernel \<Rightarrow> Kernel option" where
  "sig_signal p sigs wakeup k =
     (let k = upd_proc p (\<lambda>r. r\<lparr>sig_recv := sig_recv r OR sigs\<rparr>) k
      in if sig_recv (procs k p) AND sig_wait (procs k p) \<noteq> 0 then
           do { ASSERT (p \<noteq> current_process k);
                let k = upd_proc p (\<lambda>r. r\<lparr>sig_wait := 0\<rparr>) k;
                if wakeup then proc_wakeup p k else Some (SCHED_ENQUEUE_HEAD p k) }
         else Some k)"

definition sig_sendSignal :: "pid \<Rightarrow> sigmask \<Rightarrow> Kernel \<Rightarrow> Kernel option" where
  "sig_sendSignal p sigs k = do { ASSERT (proc_preemptAllowed k); sig_signal p sigs True k }"

definition sig_postSignal :: "pid \<Rightarrow> sigmask \<Rightarrow> Kernel \<Rightarrow> Kernel option" where
  "sig_postSignal p sigs k = sig_signal p sigs False k"

section \<open>Where the processes are\<close>

datatype place = Run | Ready | Sem addr | Sig | Zombie

text \<open>Every process has exactly one place, and the lists of the kernel agree with it.\<close>

definition placed :: "(pid \<Rightarrow> place option) \<Rightarrow> Kernel \<Rightarrow> bool" where
  "placed pl k \<longleftrightarrow> pl 0 = None \<and>
     (\<forall>p. pl p = Some Run \<longleftrightarrow> p = current_process k \<and> p \<noteq> 0) \<and>
     (\<forall>p. p \<in> set (proc_ready_list k) \<longleftrightarrow> pl p = Some Ready) \<and> distinct (proc_ready_list k) \<and>
     (\<forall>p s. p \<in> set (wait_queue (sems k s)) \<longleftrightarrow> pl p = Some (Sem s)) \<and> (\<forall>s. distinct (wait_queue (sems k s))) \<and>
     (\<forall>p. p \<in> set (zombie_list k) \<longleftrightarrow> pl p = Some Zombie) \<and> distinct (zombie_list k)"

text \<open>
  A process that sleeps waits for signals that have not come; one that was woken has signals it waited for. Only a process
  that sleeps, is ready or runs can be inside \<^verbatim>\<open>sig_waitSignal\<close>.
\<close>

definition sig_fine :: "place \<Rightarrow> Process \<Rightarrow> bool" where
  "sig_fine x r \<longleftrightarrow>
     (if x = Sig then sig_wait r \<noteq> 0 \<and> resume_at r = SigWait (sig_wait r) \<and> sig_recv r AND sig_wait r = 0
      else sig_wait r = 0 \<and> (case resume_at r of Ret \<Rightarrow> True | SigWait m \<Rightarrow> (x = Ready \<or> x = Run) \<and> sig_recv r AND m \<noteq> 0))"

definition sigs_ok :: "(pid \<Rightarrow> place option) \<Rightarrow> Kernel \<Rightarrow> bool" where
  "sigs_ok pl k \<longleftrightarrow> (\<forall>p x. pl p = Some x \<longrightarrow> sig_fine x (procs k p))"

definition sem_ok :: "Semaphore \<Rightarrow> bool" where
  "sem_ok r \<longleftrightarrow> (nest_count r = 0 \<longleftrightarrow> owner r = 0) \<and> (wait_queue r \<noteq> [] \<longrightarrow> owner r \<noteq> 0) \<and> owner r \<notin> set (wait_queue r) \<and>
     0 \<le> sint (nest_count r) \<and> sint (nest_count r) \<le> 128"

definition lists_ok :: "Kernel \<Rightarrow> bool" where
  "lists_ok k \<longleftrightarrow> by_priority (\<lambda>p. link_pri (procs k p)) (proc_ready_list k) \<and> (\<forall>s. sem_ok (sems k s))"

text \<open>The stacks of the processes created on the heap are the blocks in use; the structures of the others are elsewhere.\<close>

definition stack_block :: "Kernel \<Rightarrow> pid \<Rightarrow> mem_addr \<times> u16" where
  "stack_block k p = (stack_base (procs k p), stack_size (procs k p) + PROC_SIZE)"

definition on_heap :: "Kernel \<Rightarrow> pid \<Rightarrow> bool" where
  "on_heap k p \<longleftrightarrow> flags (procs k p) AND PF_FREESTACK \<noteq> 0"

definition stacks_ok :: "nat \<Rightarrow> nat \<Rightarrow> pid set \<Rightarrow> Kernel \<Rightarrow> bool" where
  "stacks_ok lo hi D k \<longleftrightarrow>
     (\<exists>A. heap_inv lo hi (proc_heap k) A \<and> set A = stack_block k ` {p \<in> D. on_heap k p}) \<and>
     (\<forall>p \<in> D. if on_heap k p then p = stack_base (procs k p) + stack_size (procs k p) \<and> 20 \<le> unat (snd (stack_block k p))
              else unat p < lo \<or> hi \<le> unat p)"

text \<open>The invariant of a kernel whose heap is between two addresses, with the set of the processes there are.\<close>

definition kernel_inv :: "nat \<Rightarrow> nat \<Rightarrow> pid set \<Rightarrow> Kernel \<Rightarrow> bool" where
  "kernel_inv lo hi D k \<longleftrightarrow> (\<exists>pl. dom pl = D \<and> placed pl k \<and> sigs_ok pl k \<and> lists_ok k \<and> stacks_ok lo hi D k)"

subsection \<open>Fields\<close>

lemma upd_sel [simp]:
  "procs (upd_proc p f k) q = (if q = p then f (procs k p) else procs k q)" "sems (upd_proc p f k) = sems k"
  "proc_ready_list (upd_proc p f k) = proc_ready_list k" "current_process (upd_proc p f k) = current_process k"
  "zombie_list (upd_proc p f k) = zombie_list k" "preempt_count (upd_proc p f k) = preempt_count k"
  "proc_quantum (upd_proc p f k) = proc_quantum k" "proc_heap (upd_proc p f k) = proc_heap k"
  "sems (upd_sem s g k) t = (if t = s then g (sems k s) else sems k t)" "procs (upd_sem s g k) = procs k"
  "proc_ready_list (upd_sem s g k) = proc_ready_list k" "current_process (upd_sem s g k) = current_process k"
  "zombie_list (upd_sem s g k) = zombie_list k" "preempt_count (upd_sem s g k) = preempt_count k"
  "proc_quantum (upd_sem s g k) = proc_quantum k" "proc_heap (upd_sem s g k) = proc_heap k"
  by (simp_all add: upd_proc_def upd_sem_def)

lemma enqueue_sel [simp]:
  "procs (SCHED_ENQUEUE p k) = procs k" "sems (SCHED_ENQUEUE p k) = sems k" "current_process (SCHED_ENQUEUE p k) = current_process k"
  "zombie_list (SCHED_ENQUEUE p k) = zombie_list k" "preempt_count (SCHED_ENQUEUE p k) = preempt_count k"
  "proc_heap (SCHED_ENQUEUE p k) = proc_heap k"
  "procs (SCHED_ENQUEUE_HEAD p k) = procs k" "sems (SCHED_ENQUEUE_HEAD p k) = sems k"
  "current_process (SCHED_ENQUEUE_HEAD p k) = current_process k" "zombie_list (SCHED_ENQUEUE_HEAD p k) = zombie_list k"
  "preempt_count (SCHED_ENQUEUE_HEAD p k) = preempt_count k" "proc_heap (SCHED_ENQUEUE_HEAD p k) = proc_heap k"
  "procs (preempt_reset_quantum k) = procs k" "sems (preempt_reset_quantum k) = sems k"
  "proc_ready_list (preempt_reset_quantum k) = proc_ready_list k" "current_process (preempt_reset_quantum k) = current_process k"
  "zombie_list (preempt_reset_quantum k) = zombie_list k" "preempt_count (preempt_reset_quantum k) = preempt_count k"
  "proc_heap (preempt_reset_quantum k) = proc_heap k"
  by (simp_all add: SCHED_ENQUEUE_def SCHED_ENQUEUE_HEAD_def preempt_reset_quantum_def)

lemma enqueue_set [simp]:
  "set (proc_ready_list (SCHED_ENQUEUE p k)) = insert p (set (proc_ready_list k))"
  "set (proc_ready_list (SCHED_ENQUEUE_HEAD p k)) = insert p (set (proc_ready_list k))"
proof -
  have "set (takeWhile P xs) \<union> set (dropWhile P xs) = set xs" for P and xs :: "pid list"
    by (metis set_append takeWhile_dropWhile_id)
  then show "set (proc_ready_list (SCHED_ENQUEUE p k)) = insert p (set (proc_ready_list k))"
    "set (proc_ready_list (SCHED_ENQUEUE_HEAD p k)) = insert p (set (proc_ready_list k))"
    by (auto simp: SCHED_ENQUEUE_def SCHED_ENQUEUE_HEAD_def)
qed

lemma enqueue_distinct:
  assumes "distinct (proc_ready_list k)" "p \<notin> set (proc_ready_list k)"
  shows "distinct (proc_ready_list (SCHED_ENQUEUE p k))" "distinct (proc_ready_list (SCHED_ENQUEUE_HEAD p k))"
proof -
  have "distinct (takeWhile P xs @ p # dropWhile P xs)" if "distinct xs" "p \<notin> set xs" for P and xs :: "pid list"
    using that distinct_append [of "takeWhile P xs" "dropWhile P xs"] by (auto dest: set_takeWhileD set_dropWhileD)
  with assms show "distinct (proc_ready_list (SCHED_ENQUEUE p k))" "distinct (proc_ready_list (SCHED_ENQUEUE_HEAD p k))"
    by (simp_all add: SCHED_ENQUEUE_def SCHED_ENQUEUE_HEAD_def)
qed

lemma enqueue_sorted:
  fixes k :: Kernel and p :: pid
  assumes "by_priority (\<lambda>p. link_pri (procs k p)) (proc_ready_list k)"
  shows "by_priority (\<lambda>p. link_pri (procs k p)) (proc_ready_list (SCHED_ENQUEUE p k))"
    "by_priority (\<lambda>p. link_pri (procs k p)) (proc_ready_list (SCHED_ENQUEUE_HEAD p k))"
proof -
  have ins: "by_priority (\<lambda>p. link_pri (procs k p)) (takeWhile (\<lambda>q. \<not> c q) xs @ p # dropWhile (\<lambda>q. \<not> c q) xs)"
    if "by_priority (\<lambda>p. link_pri (procs k p)) xs" "\<And>q. c q \<Longrightarrow> prio_proc k q \<le> prio_proc k p" "\<And>q. \<not> c q \<Longrightarrow> prio_proc k p \<le> prio_proc k q"
    for c xs
  proof (rule by_priority_insert)
    show s: "by_priority (\<lambda>p. link_pri (procs k p)) (takeWhile (\<lambda>q. \<not> c q) xs @ dropWhile (\<lambda>q. \<not> c q) xs)" using that(1) by simp
    show "\<forall>x \<in> set (takeWhile (\<lambda>q. \<not> c q) xs). sint (link_pri (procs k p)) \<le> sint (link_pri (procs k x))"
      using that(3) by (auto simp: prio_proc_def dest: set_takeWhileD)
    show "\<forall>y \<in> set (dropWhile (\<lambda>q. \<not> c q) xs). sint (link_pri (procs k y)) \<le> sint (link_pri (procs k p))"
    proof (cases "dropWhile (\<lambda>q. \<not> c q) xs")
      case (Cons z zs)
      then have "c z" using hd_dropWhile [of "\<lambda>q. \<not> c q" xs] by simp
      then have "prio_proc k z \<le> prio_proc k p" by (rule that(2))
      moreover have "\<forall>y \<in> set zs. prio_proc k y \<le> prio_proc k z"
        using s by (simp add: Cons by_priority_append) (simp add: by_priority_def prio_proc_def)
      ultimately show ?thesis by (auto simp: Cons prio_proc_def)
    qed (simp del: dropWhile_eq_Nil_conv)
  qed
  show "by_priority (\<lambda>p. link_pri (procs k p)) (proc_ready_list (SCHED_ENQUEUE p k))"
    using ins [OF assms, of "\<lambda>q. prio_proc k q < prio_proc k p"] by (simp add: SCHED_ENQUEUE_def)
  show "by_priority (\<lambda>p. link_pri (procs k p)) (proc_ready_list (SCHED_ENQUEUE_HEAD p k))"
    using ins [OF assms, of "\<lambda>q. prio_proc k q \<le> prio_proc k p"] by (simp add: SCHED_ENQUEUE_HEAD_def)
qed

subsection \<open>Moves\<close>

text \<open>A process in hand is in no list; the kernel takes one in hand, and puts it elsewhere.\<close>

lemma placed_fun_upd:
  assumes "placed pl k"
  shows take_current: "placed (pl(current_process k := None)) (k\<lparr>current_process := 0\<rparr>)"
    and take_ready: "proc_ready_list k = p # ps \<Longrightarrow> placed (pl(p := None)) (k\<lparr>proc_ready_list := ps\<rparr>)"
    and put_current: "pl p = None \<Longrightarrow> p \<noteq> 0 \<Longrightarrow> current_process k = 0 \<Longrightarrow> placed (pl(p \<mapsto> Run)) (k\<lparr>current_process := p\<rparr>)"
    and put_ready: "pl p = None \<Longrightarrow> p \<noteq> 0 \<Longrightarrow> placed (pl(p \<mapsto> Ready)) (SCHED_ENQUEUE p k)"
    and put_ready_head: "pl p = None \<Longrightarrow> p \<noteq> 0 \<Longrightarrow> placed (pl(p \<mapsto> Ready)) (SCHED_ENQUEUE_HEAD p k)"
    and put_sig: "pl p = None \<Longrightarrow> p \<noteq> 0 \<Longrightarrow> placed (pl(p \<mapsto> Sig)) k"
    and take_sig: "pl p = Some Sig \<Longrightarrow> placed (pl(p := None)) k"
    and put_zombie: "pl p = None \<Longrightarrow> p \<noteq> 0 \<Longrightarrow> placed (pl(p \<mapsto> Zombie)) (k\<lparr>zombie_list := zombie_list k @ [p]\<rparr>)"
    and take_zombie: "zombie_list k = p # ps \<Longrightarrow> placed (pl(p := None)) (k\<lparr>zombie_list := ps\<rparr>)"
proof -
  note pl = assms [unfolded placed_def]
  have np: "q \<noteq> current_process k \<or> q = 0" if "pl q \<noteq> Some Run" for q using pl that by blast
  have cur: "pl (current_process k) = (if current_process k = 0 then None else Some Run)" using pl by auto
  show "placed (pl(current_process k := None)) (k\<lparr>current_process := 0\<rparr>)"
    using pl cur by (auto simp: placed_def)
  show "proc_ready_list k = p # ps \<Longrightarrow> placed (pl(p := None)) (k\<lparr>proc_ready_list := ps\<rparr>)"
  proof -
    assume r: "proc_ready_list k = p # ps"
    then have p: "pl p = Some Ready" using pl by (metis list.set_intros(1))
    then have "p \<noteq> current_process k" using cur by (auto split: if_splits)
    moreover note p
    moreover have "q \<in> set ps \<longleftrightarrow> pl q = Some Ready \<and> q \<noteq> p" for q using pl r by (metis distinct.simps(2) list.set_intros(2) set_ConsD)
    ultimately show ?thesis using pl r cur by (auto simp: placed_def split: if_splits)
  qed
  show "pl p = None \<Longrightarrow> p \<noteq> 0 \<Longrightarrow> current_process k = 0 \<Longrightarrow> placed (pl(p \<mapsto> Run)) (k\<lparr>current_process := p\<rparr>)"
    using pl np [of p] by (auto simp: placed_def)
  show "pl p = None \<Longrightarrow> p \<noteq> 0 \<Longrightarrow> placed (pl(p \<mapsto> Ready)) (SCHED_ENQUEUE p k)"
    using pl np [of p] by (auto simp: placed_def intro!: enqueue_distinct)
  show "pl p = None \<Longrightarrow> p \<noteq> 0 \<Longrightarrow> placed (pl(p \<mapsto> Ready)) (SCHED_ENQUEUE_HEAD p k)"
    using pl np [of p] by (auto simp: placed_def intro!: enqueue_distinct)
  show "pl p = None \<Longrightarrow> p \<noteq> 0 \<Longrightarrow> placed (pl(p \<mapsto> Sig)) k" "pl p = Some Sig \<Longrightarrow> placed (pl(p := None)) k"
    using pl np [of p] by (auto simp: placed_def)
  show "pl p = None \<Longrightarrow> p \<noteq> 0 \<Longrightarrow> placed (pl(p \<mapsto> Zombie)) (k\<lparr>zombie_list := zombie_list k @ [p]\<rparr>)"
    using pl np [of p] by (auto simp: placed_def)
  show "zombie_list k = p # ps \<Longrightarrow> placed (pl(p := None)) (k\<lparr>zombie_list := ps\<rparr>)"
  proof -
    assume r: "zombie_list k = p # ps"
    then have p: "pl p = Some Zombie" using pl by (metis list.set_intros(1))
    then have "p \<noteq> current_process k" using cur by (auto split: if_splits)
    moreover note p
    moreover have "q \<in> set ps \<longleftrightarrow> pl q = Some Zombie \<and> q \<noteq> p" for q using pl r by (metis distinct.simps(2) list.set_intros(2) set_ConsD)
    ultimately show ?thesis using pl r cur by (auto simp: placed_def split: if_splits)
  qed
qed

lemma placed_not_current: "placed pl k \<Longrightarrow> pl p \<noteq> Some Run \<Longrightarrow> p \<noteq> 0 \<Longrightarrow> p \<noteq> current_process k"
  unfolding placed_def by blast

lemma placed_sem_moves:
  assumes "placed pl k"
  shows put_sem: "pl p = None \<Longrightarrow> p \<noteq> 0 \<Longrightarrow> placed (pl(p \<mapsto> Sem s)) (upd_sem s (\<lambda>r. r\<lparr>wait_queue := wait_queue r @ [p]\<rparr>) k)"
    and take_sem: "wait_queue (sems k s) = p # ps \<Longrightarrow>
      placed (pl(p := None)) (upd_sem s (\<lambda>r. r\<lparr>wait_queue := ps, nest_count := n, owner := q\<rparr>) k)"
    and keep_sem: "(\<And>r. wait_queue (f r) = wait_queue r) \<Longrightarrow> placed pl (upd_sem s f k)"
proof -
  note pl = assms [unfolded placed_def]
  show "pl p = None \<Longrightarrow> p \<noteq> 0 \<Longrightarrow> placed (pl(p \<mapsto> Sem s)) (upd_sem s (\<lambda>r. r\<lparr>wait_queue := wait_queue r @ [p]\<rparr>) k)"
  proof -
    assume p: "pl p = None" "p \<noteq> 0"
    then have "p \<noteq> current_process k" using placed_not_current [OF assms] by simp
    moreover have "p \<notin> set (wait_queue (sems k s))" using pl p by simp
    ultimately show ?thesis using pl p by (simp add: placed_def)
  qed
  show "wait_queue (sems k s) = p # ps \<Longrightarrow>
      placed (pl(p := None)) (upd_sem s (\<lambda>r. r\<lparr>wait_queue := ps, nest_count := n, owner := q\<rparr>) k)"
  proof -
    assume r: "wait_queue (sems k s) = p # ps"
    then have p: "pl p = Some (Sem s)" using pl by (metis list.set_intros(1))
    then have "p \<noteq> current_process k" using placed_not_current [OF assms, of p] pl by (cases "p = 0") auto
    moreover have "x \<in> set ps \<longleftrightarrow> pl x = Some (Sem s) \<and> x \<noteq> p" for x using pl r by (metis distinct.simps(2) list.set_intros(2) set_ConsD)
    moreover have "distinct ps" using pl r by (metis distinct.simps(2))
    ultimately show ?thesis using pl p by (auto simp: placed_def)
  qed
  show "(\<And>r. wait_queue (f r) = wait_queue r) \<Longrightarrow> placed pl (upd_sem s f k)" using pl by (auto simp: placed_def)
qed

lemma placed_cong:
  "placed pl k \<Longrightarrow> proc_ready_list k' = proc_ready_list k \<Longrightarrow> current_process k' = current_process k \<Longrightarrow>
   zombie_list k' = zombie_list k \<Longrightarrow> sems k' = sems k \<Longrightarrow> placed pl k'"
  by (simp add: placed_def)

text \<open>The invariant while the processes of \<open>D\<close> that have no place are in hand.\<close>

definition hand :: "nat \<Rightarrow> nat \<Rightarrow> (pid \<Rightarrow> place option) \<Rightarrow> pid set \<Rightarrow> Kernel \<Rightarrow> bool" where
  "hand lo hi pl D k \<longleftrightarrow> placed pl k \<and> sigs_ok pl k \<and> lists_ok k \<and> stacks_ok lo hi D k \<and> dom pl \<subseteq> D \<and> 0 \<notin> D"

lemma kernel_inv_hand: "kernel_inv lo hi D k \<longleftrightarrow> (\<exists>pl. hand lo hi pl D k \<and> dom pl = D)"
  by (auto simp: kernel_inv_def hand_def placed_def)

lemma sig_fine_put: "sig_fine x r \<Longrightarrow> x \<noteq> Sig \<Longrightarrow> y = Ready \<or> y = Run \<Longrightarrow> sig_fine y r"
  by (auto simp: sig_fine_def split: resume.splits)

lemma stacks_ok_cong:
  "stacks_ok lo hi D k \<Longrightarrow> proc_heap k' = proc_heap k \<Longrightarrow>
   (\<And>p. p \<in> D \<Longrightarrow> flags (procs k' p) = flags (procs k p) \<and> stack_base (procs k' p) = stack_base (procs k p) \<and>
      stack_size (procs k' p) = stack_size (procs k p)) \<Longrightarrow> stacks_ok lo hi D k'"
proof -
  assume a: "stacks_ok lo hi D k" "proc_heap k' = proc_heap k"
    and b: "\<And>p. p \<in> D \<Longrightarrow> flags (procs k' p) = flags (procs k p) \<and> stack_base (procs k' p) = stack_base (procs k p) \<and>
      stack_size (procs k' p) = stack_size (procs k p)"
  have "stack_block k' p = stack_block k p" "on_heap k' p = on_heap k p" if "p \<in> D" for p
    using b [OF that] by (simp_all add: stack_block_def on_heap_def)
  then have "stack_block k' ` {p \<in> D. on_heap k' p} = stack_block k ` {p \<in> D. on_heap k p}" by (auto intro!: image_cong)
  with a b show ?thesis by (auto simp: stacks_ok_def on_heap_def stack_block_def)
qed

lemma stacks_ok_same:
  "stacks_ok lo hi D k \<Longrightarrow> proc_heap k' = proc_heap k \<Longrightarrow> procs k' = procs k \<Longrightarrow> stacks_ok lo hi D k'"
  by (rule stacks_ok_cong) simp_all

lemma hand_moves:
  assumes h: "hand lo hi pl D k"
  shows hand_take_current: "hand lo hi (pl(current_process k := None)) D (k\<lparr>current_process := 0\<rparr>)"
    and hand_take_ready: "proc_ready_list k = p # ps \<Longrightarrow> hand lo hi (pl(p := None)) D (k\<lparr>proc_ready_list := ps\<rparr>)"
    and hand_put_current: "pl p = None \<Longrightarrow> p \<in> D \<Longrightarrow> current_process k = 0 \<Longrightarrow> sig_fine Run (procs k p) \<Longrightarrow>
      hand lo hi (pl(p \<mapsto> Run)) D (k\<lparr>current_process := p\<rparr>)"
    and hand_put_ready: "pl p = None \<Longrightarrow> p \<in> D \<Longrightarrow> sig_fine Ready (procs k p) \<Longrightarrow> hand lo hi (pl(p \<mapsto> Ready)) D (SCHED_ENQUEUE p k)"
    and hand_put_head: "pl p = None \<Longrightarrow> p \<in> D \<Longrightarrow> sig_fine Ready (procs k p) \<Longrightarrow> hand lo hi (pl(p \<mapsto> Ready)) D (SCHED_ENQUEUE_HEAD p k)"
    and hand_quantum: "hand lo hi pl D (k\<lparr>proc_quantum := n\<rparr>)" "hand lo hi pl D (k\<lparr>preempt_count := c\<rparr>)"
      "hand lo hi pl D (preempt_reset_quantum k)"
proof -
  have hd: "placed pl k" "sigs_ok pl k" "lists_ok k" "stacks_ok lo hi D k" "dom pl \<subseteq> D" "0 \<notin> D" using h by (auto simp: hand_def)
  show "hand lo hi (pl(current_process k := None)) D (k\<lparr>current_process := 0\<rparr>)"
    using hd take_current [OF hd(1)] stacks_ok_same [OF hd(4)] by (auto simp: hand_def sigs_ok_def lists_ok_def split: if_splits)
  show "proc_ready_list k = p # ps \<Longrightarrow> hand lo hi (pl(p := None)) D (k\<lparr>proc_ready_list := ps\<rparr>)"
    using hd take_ready [OF hd(1)] stacks_ok_same [OF hd(4)]
    by (auto simp: hand_def sigs_ok_def lists_ok_def by_priority_def split: if_splits)
  show "pl p = None \<Longrightarrow> p \<in> D \<Longrightarrow> current_process k = 0 \<Longrightarrow> sig_fine Run (procs k p) \<Longrightarrow>
      hand lo hi (pl(p \<mapsto> Run)) D (k\<lparr>current_process := p\<rparr>)"
    using hd put_current [OF hd(1), of p] stacks_ok_same [OF hd(4)] by (auto simp: hand_def sigs_ok_def lists_ok_def split: if_splits)
  show "pl p = None \<Longrightarrow> p \<in> D \<Longrightarrow> sig_fine Ready (procs k p) \<Longrightarrow> hand lo hi (pl(p \<mapsto> Ready)) D (SCHED_ENQUEUE p k)"
    using hd put_ready [OF hd(1), of p] stacks_ok_same [OF hd(4)] enqueue_sorted(1) [of k]
    by (auto simp: hand_def sigs_ok_def lists_ok_def split: if_splits)
  show "pl p = None \<Longrightarrow> p \<in> D \<Longrightarrow> sig_fine Ready (procs k p) \<Longrightarrow> hand lo hi (pl(p \<mapsto> Ready)) D (SCHED_ENQUEUE_HEAD p k)"
    using hd put_ready_head [OF hd(1), of p] stacks_ok_same [OF hd(4)] enqueue_sorted(2) [of k]
    by (auto simp: hand_def sigs_ok_def lists_ok_def split: if_splits)
  show "hand lo hi pl D (k\<lparr>proc_quantum := n\<rparr>)" "hand lo hi pl D (k\<lparr>preempt_count := c\<rparr>)" "hand lo hi pl D (preempt_reset_quantum k)"
    using hd stacks_ok_same [OF hd(4)] placed_cong [OF hd(1)]
    by (auto simp: hand_def sigs_ok_def lists_ok_def preempt_reset_quantum_def)
qed

section \<open>Every call keeps the invariant\<close>

lemma current_runs: "hand lo hi pl D k \<Longrightarrow> current_process k \<noteq> 0 \<Longrightarrow> pl (current_process k) = Some Run \<and> current_process k \<in> D"
  unfolding hand_def placed_def by blast

lemma fine_at: "hand lo hi pl D k \<Longrightarrow> pl p = Some x \<Longrightarrow> sig_fine x (procs k p) \<and> p \<in> D \<and> p \<noteq> 0"
  unfolding hand_def sigs_ok_def by blast

lemma schedule_no_current: "proc_schedule (k\<lparr>current_process := c\<rparr>) = proc_schedule k"
  by (simp add: proc_schedule_def split: list.splits)

lemma enqueue_no_current: "SCHED_ENQUEUE p (k\<lparr>current_process := c\<rparr>) = (SCHED_ENQUEUE p k)\<lparr>current_process := c\<rparr>"
  by (simp add: SCHED_ENQUEUE_def prio_proc_def)

lemma schedule_keeps:
  assumes "hand lo hi pl D k" "current_process k = 0"
  shows "\<exists>pl'. hand lo hi pl' D (proc_schedule k) \<and> dom pl' = dom pl"
proof (cases "proc_ready_list k")
  case Nil
  have "k\<lparr>current_process := 0\<rparr> = k" using assms(2) by (cases k) simp
  with Nil show ?thesis using assms(1) by (intro exI [of _ pl]) (simp add: proc_schedule_def)
next
  case (Cons p ps)
  then have p: "pl p = Some Ready" using assms(1) by (auto simp: hand_def placed_def)
  have "hand lo hi ((pl(p := None))(p \<mapsto> Run)) D ((k\<lparr>proc_ready_list := ps\<rparr>)\<lparr>current_process := p\<rparr>)"
    by (rule hand_put_current [OF hand_take_ready [OF assms(1) Cons]])
      (use assms(2) fine_at [OF assms(1) p] in \<open>auto intro: sig_fine_put\<close>)
  with Cons p show ?thesis by (intro exI [of _ "(pl(p := None))(p \<mapsto> Run)"]) (auto simp: proc_schedule_def)
qed

text \<open>The current process goes to the ready list.\<close>

lemma requeue_keeps:
  assumes "hand lo hi pl D k" "current_process k \<noteq> 0"
  shows "hand lo hi (pl(current_process k \<mapsto> Ready)) D (SCHED_ENQUEUE (current_process k) (k\<lparr>current_process := 0\<rparr>))"
proof -
  note c = current_runs [OF assms]
  have "hand lo hi ((pl(current_process k := None))(current_process k \<mapsto> Ready)) D
      (SCHED_ENQUEUE (current_process k) (k\<lparr>current_process := 0\<rparr>))"
    by (rule hand_put_ready [OF hand_take_current [OF assms(1)]])
      (use c fine_at [OF assms(1) c [THEN conjunct1]] in \<open>auto intro: sig_fine_put\<close>)
  then show ?thesis by simp
qed

lemma preempt_keeps:
  assumes "hand lo hi pl D k" "proc_preempt k = Some k'"
  shows "\<exists>pl'. hand lo hi pl' D k' \<and> dom pl' = dom pl"
proof -
  have c: "current_process k \<noteq> 0" and k': "k' = proc_schedule (preempt_reset_quantum (SCHED_ENQUEUE (current_process k) k))"
    using assms(2) by (auto simp: proc_preempt_def ASSERT_def split: if_splits)
  have "k' = proc_schedule (preempt_reset_quantum (SCHED_ENQUEUE (current_process k) (k\<lparr>current_process := 0\<rparr>)))"
    unfolding k' enqueue_no_current by (simp add: preempt_reset_quantum_def proc_schedule_def split: list.splits)
  moreover have "dom (pl(current_process k \<mapsto> Ready)) = dom pl" using current_runs [OF assms(1) c] by auto
  ultimately show ?thesis
    using schedule_keeps [OF hand_quantum(3) [OF requeue_keeps [OF assms(1) c]]] by simp
qed

lemma switchTo_keeps:
  assumes "hand lo hi pl D k" "current_process k \<noteq> 0" "pl p = None" "p \<in> D" "sig_fine Run (procs k p)"
  shows "\<exists>pl'. hand lo hi pl' D (proc_switchTo p k) \<and> dom pl' = insert p (dom pl)"
proof -
  let ?c = "current_process k"
  have c: "pl ?c = Some Run" using current_runs [OF assms(1,2)] by simp
  let ?k = "preempt_reset_quantum (SCHED_ENQUEUE ?c (k\<lparr>current_process := 0\<rparr>))"
  have "hand lo hi ((pl(?c \<mapsto> Ready))(p \<mapsto> Run)) D (?k\<lparr>current_process := p\<rparr>)"
    by (rule hand_put_current [OF hand_quantum(3) [OF requeue_keeps [OF assms(1,2)]]]) (use assms(3-5) c in auto)
  moreover have "?k\<lparr>current_process := p\<rparr> = proc_switchTo p k"
    by (simp add: proc_switchTo_def enqueue_no_current preempt_reset_quantum_def)
  moreover have "dom ((pl(?c \<mapsto> Ready))(p \<mapsto> Run)) = insert p (dom pl)" using c by auto
  ultimately show ?thesis by metis
qed

lemma wakeup_keeps:
  assumes "hand lo hi pl D k" "pl p = None" "p \<in> D" "sig_fine Run (procs k p)" "proc_wakeup p k = Some k'"
  shows "\<exists>pl'. hand lo hi pl' D k' \<and> dom pl' = insert p (dom pl)"
proof -
  have c: "current_process k \<noteq> 0" and k': "k' = (if prio_curr k \<le> prio_proc k p then proc_switchTo p k else SCHED_ENQUEUE_HEAD p k)"
    using assms(5) by (auto simp: proc_wakeup_def ASSERT_def bind_eq_Some_conv split: if_splits)
  show ?thesis
  proof (cases "prio_curr k \<le> prio_proc k p")
    case True
    then show ?thesis using switchTo_keeps [OF assms(1) c assms(2-4)] k' by simp
  next
    case False
    then show ?thesis using hand_put_head [OF assms(1-3)] assms(4) k'
      by (intro exI [of _ "pl(p \<mapsto> Ready)"]) (auto intro: sig_fine_put)
  qed
qed

lemma yield_keeps:
  assumes "hand lo hi pl D k" "current_process k \<noteq> 0" "proc_yield k = Some k'"
  shows "\<exists>pl'. hand lo hi pl' D k' \<and> dom pl' = dom pl"
proof (cases "proc_ready_list k")
  case Nil
  then have "k' = k" using assms(3) by (auto simp: proc_yield_def bind_eq_Some_conv)
  then show ?thesis using assms(1) by blast
next
  case (Cons p ps)
  let ?k = "k\<lparr>proc_ready_list := ps\<rparr>"
  have k': "k' = proc_switchTo p ?k" using assms(3) Cons by (auto simp: proc_yield_def bind_eq_Some_conv)
  have p: "pl p = Some Ready" using assms(1) Cons by (auto simp: hand_def placed_def)
  have "\<exists>pl'. hand lo hi pl' D (proc_switchTo p ?k) \<and> dom pl' = insert p (dom (pl(p := None)))"
    by (rule switchTo_keeps [OF hand_take_ready [OF assms(1) Cons]])
      (use assms(2) fine_at [OF assms(1) p] in \<open>auto intro: sig_fine_put\<close>)
  moreover have "insert p (dom (pl(p := None))) = dom pl" using p by auto
  ultimately show ?thesis using k' by auto
qed

lemma switch_keeps:
  assumes "hand lo hi pl D (k\<lparr>current_process := 0\<rparr>)" "proc_switch k = Some k'"
  shows "\<exists>pl'. hand lo hi pl' D k' \<and> dom pl' = dom pl"
proof -
  have "k' = proc_schedule (preempt_reset_quantum k)" using assms(2) by (auto simp: proc_switch_def bind_eq_Some_conv)
  then have "k' = proc_schedule (preempt_reset_quantum (k\<lparr>current_process := 0\<rparr>))"
    by (simp add: preempt_reset_quantum_def proc_schedule_def split: list.splits)
  then show ?thesis using schedule_keeps [OF hand_quantum(3) [OF assms(1)]] by simp
qed

lemma upd_proc_ready: "(upd_proc p f k)\<lparr>proc_ready_list := xs\<rparr> = upd_proc p f (k\<lparr>proc_ready_list := xs\<rparr>)"
  by (cases k) (simp add: upd_proc_def)

text \<open>A new priority moves a process within the ready list.\<close>

lemma setPri_keeps:
  assumes "hand lo hi pl D k"
  shows "\<exists>pl'. hand lo hi pl' D (proc_setPri p pri k) \<and> dom pl' = dom pl"
proof (cases "link_pri (procs k p) = pri")
  case True
  then show ?thesis using assms by (auto simp: proc_setPri_def)
next
  case False
  let ?f = "\<lambda>r. r\<lparr>link_pri := pri\<rparr>"
  have hd: "placed pl k" "sigs_ok pl k" "lists_ok k" "stacks_ok lo hi D k" "dom pl \<subseteq> D" "0 \<notin> D" using assms by (auto simp: hand_def)
  have fine: "sig_fine x (?f r) = sig_fine x r" for x r by (simp add: sig_fine_def split: resume.splits)
  have new: "hand lo hi pl' D (upd_proc p ?f k1)" if "hand lo hi pl' D k1" "p \<notin> set (proc_ready_list k1)" for pl' k1
  proof -
    have "placed pl' (upd_proc p ?f k1)" using that(1) by (auto simp: hand_def placed_def)
    moreover have "sigs_ok pl' (upd_proc p ?f k1)" using that(1) fine by (auto simp: hand_def sigs_ok_def)
    moreover have "stacks_ok lo hi D (upd_proc p ?f k1)" using that(1) by (auto simp: hand_def intro!: stacks_ok_cong [of lo hi D k1])
    moreover have "by_priority (\<lambda>q. link_pri (procs (upd_proc p ?f k1) q)) (proc_ready_list k1) =
        by_priority (\<lambda>q. link_pri (procs k1 q)) (proc_ready_list k1)"
      unfolding by_priority_def using that(2) by (intro arg_cong [of _ _ sorted] map_cong) auto
    then have "lists_ok (upd_proc p ?f k1)" using that(1) unfolding hand_def lists_ok_def upd_sel(2,3) by blast
    ultimately show ?thesis using that(1) by (auto simp: hand_def)
  qed
  show ?thesis
  proof (cases "p \<in> set (proc_ready_list k)")
    case True
    then have p: "pl p = Some Ready" using hd(1) by (simp add: placed_def)
    let ?k = "k\<lparr>proc_ready_list := remove1 p (proc_ready_list k)\<rparr>"
    have np: "p \<noteq> current_process k" using placed_not_current [OF hd(1), of p] p fine_at [OF assms p] by simp
    have "placed (pl(p := None)) ?k" using hd(1) p np by (auto simp: placed_def)
    moreover have "by_priority (\<lambda>p. link_pri (procs k p)) (remove1 p (proc_ready_list k))"
      using hd(3) by (auto simp: lists_ok_def by_priority_def filter_remove1 intro: sorted_map_remove1)
    ultimately have h: "hand lo hi (pl(p := None)) D ?k"
      using hd stacks_ok_same [OF hd(4)] by (auto simp: hand_def sigs_ok_def lists_ok_def split: if_splits)
    have "p \<notin> set (proc_ready_list ?k)" using hd(1) by (simp add: placed_def)
    note n = new [OF h this]
    have "hand lo hi ((pl(p := None))(p \<mapsto> Ready)) D (SCHED_ENQUEUE p (upd_proc p ?f ?k))"
      by (rule hand_put_ready [OF n]) (use fine_at [OF assms p] fine in auto)
    moreover have "proc_setPri p pri k = SCHED_ENQUEUE p (upd_proc p ?f ?k)"
      using False True np by (simp add: proc_setPri_def sched_reenqueue_def upd_proc_ready)
    moreover have "dom ((pl(p := None))(p \<mapsto> Ready)) = dom pl" using p by auto
    ultimately show ?thesis by metis
  next
    case out: False
    then have "proc_setPri p pri k = upd_proc p ?f k" using False by (simp add: proc_setPri_def sched_reenqueue_def Let_def)
    then show ?thesis using new [OF assms out] by auto
  qed
qed

subsection \<open>Semaphores\<close>

lemma sint_add_1: "sint (n :: i16) < 32767 \<Longrightarrow> sint (n + 1) = sint n + 1"
  using sint_ge [of n] by (simp add: sint_word_ariths signed_take_bit_int_eq_self)

lemma sint_diff_1: "0 < sint (n :: i16) \<Longrightarrow> sint (n - 1) = sint n - 1"
  using sint_lt [of n] by (simp add: sint_word_ariths signed_take_bit_int_eq_self)

lemma sint_zero: "sint (n :: i16) = 0 \<longleftrightarrow> n = 0"
  by (metis signed_0 signed_word_eqI)

text \<open>Only the fields of one semaphore change.\<close>

lemma hand_upd_sem:
  assumes "hand lo hi pl D k" "\<And>r. wait_queue (f r) = wait_queue r" "sem_ok (f (sems k s))"
  shows "hand lo hi pl D (upd_sem s f k)"
  using assms keep_sem [of pl k f s] stacks_ok_same [of lo hi D k "upd_sem s f k"]
  by (auto simp: hand_def sigs_ok_def lists_ok_def)

lemma sem_take_ok:
  assumes "sem_ok r" "c \<noteq> 0" "owner r = 0 \<or> owner r = c" "sint (nest_count r) < 128"
  shows "sem_ok (r\<lparr>owner := c, nest_count := nest_count r + 1\<rparr>)"
proof -
  have "0 \<le> sint (nest_count r)" using assms(1) by (simp add: sem_ok_def)
  then have "sint (nest_count r + 1) = sint (nest_count r) + 1" using assms(4) by (intro sint_add_1) simp
  moreover have "nest_count r + 1 \<noteq> 0" using calculation \<open>0 \<le> sint (nest_count r)\<close> sint_zero [of "nest_count r + 1"] by auto
  ultimately show ?thesis using assms by (auto simp: sem_ok_def)
qed

lemma take_keeps:
  assumes "hand lo hi pl D k" "current_process k \<noteq> 0" "owner (sems k s) = 0 \<or> owner (sems k s) = current_process k"
    "sint (nest_count (sems k s)) < 128"
  shows "hand lo hi pl D (sem_take s k)"
  unfolding sem_take_def
proof (rule hand_upd_sem [OF assms(1)])
  have "sem_ok (sems k s)" using assms(1) by (simp add: hand_def lists_ok_def)
  then show "sem_ok (sems k s\<lparr>owner := current_process k, nest_count := nest_count (sems k s) + 1\<rparr>)" by (rule sem_take_ok [OF _ assms(2-4)])
qed simp

lemmas kernel_unfold = ASSERT_def proc_permit_def proc_forbid_def sem_verify_def bind_eq_Some_conv Let_def

text \<open>The counter of nested \<^verbatim>\<open>proc_forbid\<close> is back where it was; what the operations do otherwise.\<close>

lemma attempt_cases:
  assumes "sem_attempt s k = Some (b, k')"
  shows "sint (nest_count (sems k s)) < 128" "owner (sems k s) = 0 \<or> owner (sems k s) = current_process k \<Longrightarrow> b \<and> k' = sem_take s k"
    "\<not> (owner (sems k s) = 0 \<or> owner (sems k s) = current_process k) \<Longrightarrow> \<not> b \<and> k' = k"
  using assms by (auto simp: sem_attempt_def kernel_unfold sem_take_def upd_sem_def split: if_splits)

lemma obtain_cases:
  assumes "sem_obtain s k = Some k'"
  shows "sint (nest_count (sems k s)) < 128"
    "owner (sems k s) = 0 \<or> owner (sems k s) = current_process k \<Longrightarrow> k' = sem_take s k"
    "\<not> (owner (sems k s) = 0 \<or> owner (sems k s) = current_process k) \<Longrightarrow>
      proc_switch (upd_sem s (\<lambda>r. r\<lparr>wait_queue := wait_queue r @ [current_process k]\<rparr>) k) = Some k'"
  using assms by (auto simp: sem_obtain_def sem_request_def kernel_unfold sem_take_def upd_sem_def split: if_splits)

lemma release_cases:
  assumes "sem_release s k = Some k'"
  shows "owner (sems k s) = current_process k"
    "nest_count (sems k s) \<noteq> 1 \<Longrightarrow> k' = upd_sem s (\<lambda>r. r\<lparr>nest_count := nest_count r - 1\<rparr>) k"
    "nest_count (sems k s) = 1 \<Longrightarrow> wait_queue (sems k s) = [] \<Longrightarrow> k' = upd_sem s (\<lambda>r. r\<lparr>nest_count := 0, owner := 0\<rparr>) k"
    "nest_count (sems k s) = 1 \<Longrightarrow> wait_queue (sems k s) = p # ps \<Longrightarrow>
      proc_wakeup p (upd_sem s (\<lambda>r. r\<lparr>wait_queue := ps, nest_count := 1, owner := p\<rparr>) k) = Some k'"
  using assms by (auto simp: sem_release_def kernel_unfold upd_sem_def split: if_splits)

lemma attempt_keeps:
  assumes "hand lo hi pl D k" "current_process k \<noteq> 0" "sem_attempt s k = Some (b, k')"
  shows "hand lo hi pl D k'"
  using take_keeps [OF assms(1,2) _ attempt_cases(1) [OF assms(3)]] attempt_cases(2,3) [OF assms(3)] assms(1) by metis

lemma obtain_keeps:
  assumes h: "hand lo hi pl D k" and c: "current_process k \<noteq> 0" "resume_at (procs k (current_process k)) = Ret"
    and k': "sem_obtain s k = Some k'"
  shows "\<exists>pl'. hand lo hi pl' D k' \<and> dom pl' = dom pl"
proof (cases "owner (sems k s) = 0 \<or> owner (sems k s) = current_process k")
  case True
  then show ?thesis using take_keeps [OF h c(1) True obtain_cases(1) [OF k']] obtain_cases(2) [OF k'] by auto
next
  case False
  let ?c = "current_process k" and ?k = "k\<lparr>current_process := 0\<rparr>" and ?f = "\<lambda>r. r\<lparr>wait_queue := wait_queue r @ [current_process k]\<rparr>"
  have sk: "sem_ok (sems k s)" using h by (simp add: hand_def lists_ok_def)
  have pc: "pl ?c = Some Run" "?c \<in> D" using current_runs [OF h c(1)] by auto
  have t: "hand lo hi (pl(?c := None)) D ?k" by (rule hand_take_current [OF h])
  have "sig_fine (Sem s) (procs k ?c)" using fine_at [OF h pc(1)] c(2) by (simp add: sig_fine_def)
  then have "hand lo hi (pl(?c \<mapsto> Sem s)) D (upd_sem s ?f ?k)"
    using t put_sem [of "pl(?c := None)" ?k ?c s] sk False c(1) pc stacks_ok_same [of lo hi D ?k "upd_sem s ?f ?k"]
    by (auto simp: hand_def sigs_ok_def lists_ok_def sem_ok_def split: if_splits)
  moreover have "upd_sem s ?f ?k = (upd_sem s ?f k)\<lparr>current_process := 0\<rparr>" by (cases k) (simp add: upd_sem_def)
  ultimately have "\<exists>pl'. hand lo hi pl' D k' \<and> dom pl' = dom (pl(?c \<mapsto> Sem s))"
    by (intro switch_keeps [OF _ obtain_cases(3) [OF k' False]]) simp
  moreover have "dom (pl(?c \<mapsto> Sem s)) = dom pl" using pc by auto
  ultimately show ?thesis by simp
qed

lemma release_keeps:
  assumes h: "hand lo hi pl D k" and c: "current_process k \<noteq> 0" and k': "sem_release s k = Some k'"
  shows "\<exists>pl'. hand lo hi pl' D k' \<and> dom pl' = dom pl"
proof -
  let ?c = "current_process k" and ?r = "sems k s"
  note rc = release_cases [OF k']
  have sk: "sem_ok ?r" using h by (simp add: hand_def lists_ok_def)
  then have n: "0 < sint (nest_count ?r)" "sint (nest_count ?r) \<le> 128" using rc(1) c sint_zero [of "nest_count ?r"] by (auto simp: sem_ok_def)
  consider (inner) "nest_count ?r \<noteq> 1" | (alone) "nest_count ?r = 1" "wait_queue ?r = []" | (pass) p ps where "nest_count ?r = 1" "wait_queue ?r = p # ps"
    by (cases "wait_queue ?r") auto
  then show ?thesis
  proof cases
    case inner
    then have "nest_count ?r - 1 \<noteq> 0" by simp
    then have "sem_ok (?r\<lparr>nest_count := nest_count ?r - 1\<rparr>)" using sk n sint_diff_1 [OF n(1)] rc(1) c by (auto simp: sem_ok_def)
    then have "hand lo hi pl D k'" unfolding rc(2) [OF inner] by (intro hand_upd_sem [OF h]) auto
    then show ?thesis by blast
  next
    case alone
    have "hand lo hi pl D k'" unfolding rc(3) [OF alone] by (rule hand_upd_sem [OF h]) (use alone in \<open>simp_all add: sem_ok_def\<close>)
    then show ?thesis by blast
  next
    case (pass p ps)
    let ?f = "\<lambda>r. r\<lparr>wait_queue := ps, nest_count := 1, owner := p\<rparr>"
    have p: "pl p = Some (Sem s)" using h pass(2) unfolding hand_def placed_def by (metis list.set_intros(1))
    have nd: "p \<notin> set ps" using h pass(2) by (metis distinct.simps(2) hand_def placed_def)
    have p0: "p \<noteq> 0" "p \<in> D" "sig_fine (Sem s) (procs k p)" using fine_at [OF h p] by auto
    have "sem_ok (?f ?r)" using nd p0 by (auto simp: sem_ok_def)
    then have t: "hand lo hi (pl(p := None)) D (upd_sem s ?f k)"
      using h take_sem [of pl k s p ps p 1] pass(2) stacks_ok_same [of lo hi D k "upd_sem s ?f k"]
      by (auto simp: hand_def sigs_ok_def lists_ok_def split: if_splits)
    have "\<exists>pl'. hand lo hi pl' D k' \<and> dom pl' = insert p (dom (pl(p := None)))"
      by (rule wakeup_keeps [OF t _ _ _ rc(4) [OF pass]]) (use p0 sig_fine_put [OF p0(3)] in auto)
    moreover have "insert p (dom (pl(p := None))) = dom pl" using p by auto
    ultimately show ?thesis by simp
  qed
qed

subsection \<open>Signals\<close>

lemma hand_upd_proc:
  assumes "hand lo hi pl D k" "\<And>r. link_pri (f r) = link_pri r \<and> flags (f r) = flags r \<and> stack_base (f r) = stack_base r \<and> stack_size (f r) = stack_size r"
    "\<And>x. pl p = Some x \<Longrightarrow> sig_fine x (f (procs k p))"
  shows "hand lo hi pl D (upd_proc p f k)"
proof -
  have hd: "placed pl k" "sigs_ok pl k" "lists_ok k" "stacks_ok lo hi D k" "dom pl \<subseteq> D" "0 \<notin> D" using assms(1) by (auto simp: hand_def)
  have "(\<lambda>q. link_pri (procs (upd_proc p f k) q)) = (\<lambda>q. link_pri (procs k q))" using assms(2) by auto
  then have "lists_ok (upd_proc p f k)" using hd(3) unfolding lists_ok_def upd_sel(2,3) by simp
  moreover have "stacks_ok lo hi D (upd_proc p f k)" using stacks_ok_cong [OF hd(4), of "upd_proc p f k"] assms(2) by auto
  ultimately show ?thesis using hd placed_cong [OF hd(1), of "upd_proc p f k"] assms(3) by (auto simp: hand_def sigs_ok_def)
qed

lemma check_keeps:
  assumes "hand lo hi pl D k" "current_process k \<noteq> 0" "resume_at (procs k (current_process k)) = Ret"
  shows "hand lo hi pl D (snd (sig_check sigs k))"
proof -
  have c: "pl (current_process k) = Some Run" using current_runs [OF assms(1,2)] by simp
  have "hand lo hi pl D (upd_proc (current_process k) (\<lambda>r. r\<lparr>sig_recv := sig_recv r AND NOT sigs\<rparr>) k)"
    by (rule hand_upd_proc [OF assms(1)]) (use c fine_at [OF assms(1) c] assms(3) in \<open>auto simp: sig_fine_def\<close>)
  then show ?thesis by (simp add: sig_check_def Let_def)
qed

lemma wait_loop_keeps:
  assumes h: "hand lo hi pl D k" and c: "current_process k \<noteq> 0" and s: "sigs \<noteq> 0" and k': "sig_wait_loop sigs k = Some (res, k')"
  shows "\<exists>pl'. hand lo hi pl' D k' \<and> dom pl' = dom pl"
proof -
  let ?c = "current_process k"
  have pc: "pl ?c = Some Run" "?c \<in> D" using current_runs [OF h c] by auto
  note fc = fine_at [OF h pc(1)]
  show ?thesis
  proof (cases "sig_recv (procs k ?c) AND sigs = 0")
    case False
    then have "k' = upd_proc ?c (\<lambda>r. r\<lparr>sig_recv := sig_recv r AND NOT sigs, resume_at := Ret\<rparr>) k"
      using k' by (simp add: sig_wait_loop_def Let_def)
    moreover have "hand lo hi pl D (upd_proc ?c (\<lambda>r. r\<lparr>sig_recv := sig_recv r AND NOT sigs, resume_at := Ret\<rparr>) k)"
      by (rule hand_upd_proc [OF h]) (use pc fc in \<open>auto simp: sig_fine_def\<close>)
    ultimately show ?thesis by blast
  next
    case True
    let ?f = "\<lambda>r. r\<lparr>sig_wait := sigs, resume_at := SigWait sigs\<rparr>" and ?k = "k\<lparr>current_process := 0\<rparr>"
    have d: "proc_switch (upd_proc ?c ?f k) = Some k'" using k' True by (auto simp: sig_wait_loop_def Let_def bind_eq_Some_conv)
    have t: "hand lo hi (pl(?c := None)) D ?k" by (rule hand_take_current [OF h])
    have "hand lo hi (pl(?c := None)) D (upd_proc ?c ?f ?k)" by (rule hand_upd_proc [OF t]) auto
    then have "hand lo hi (pl(?c \<mapsto> Sig)) D (upd_proc ?c ?f ?k)"
      using put_sig [of "pl(?c := None)" "upd_proc ?c ?f ?k" ?c] c pc s True
      by (auto simp: hand_def sigs_ok_def sig_fine_def split: if_splits)
    moreover have "upd_proc ?c ?f ?k = (upd_proc ?c ?f k)\<lparr>current_process := 0\<rparr>" by (cases k) (simp add: upd_proc_def)
    ultimately have "\<exists>pl'. hand lo hi pl' D k' \<and> dom pl' = dom (pl(?c \<mapsto> Sig))" by (intro switch_keeps [OF _ d]) simp
    moreover have "dom (pl(?c \<mapsto> Sig)) = dom pl" using pc by auto
    ultimately show ?thesis by simp
  qed
qed

lemma or_keeps_bits: "a AND m \<noteq> 0 \<Longrightarrow> (a OR b) AND m \<noteq> 0" for a b m :: u8
  by (auto simp: bit_eq_iff bit_simps)

lemma signal_keeps:
  assumes h: "hand lo hi pl D k" and p: "pl p = Some x" and k': "sig_signal p sigs w k = Some k'"
  shows "\<exists>pl'. hand lo hi pl' D k' \<and> dom pl' = dom pl"
proof -
  let ?f = "\<lambda>r. r\<lparr>sig_recv := sig_recv r OR sigs\<rparr>" and ?r = "procs k p"
  have fp: "sig_fine x ?r" "p \<in> D" "p \<noteq> 0" using fine_at [OF h p] by auto
  show ?thesis
  proof (cases "(sig_recv ?r OR sigs) AND sig_wait ?r = 0")
    case True
    then have "sig_fine x (?f ?r)" using fp(1) or_keeps_bits by (auto simp: sig_fine_def split: resume.splits if_splits)
    then have "hand lo hi pl D (upd_proc p ?f k)" using p by (intro hand_upd_proc [OF h]) auto
    moreover have "k' = upd_proc p ?f k" using k' True by (simp add: sig_signal_def Let_def)
    ultimately show ?thesis by blast
  next
    case False
    then have x: "x = Sig" using fp(1) by (auto simp: sig_fine_def split: if_splits)
    let ?g = "\<lambda>r. r\<lparr>sig_recv := sig_recv r OR sigs, sig_wait := 0\<rparr>"
    have "hand lo hi (pl(p := None)) D k" using h take_sig [of pl k p] p x by (auto simp: hand_def sigs_ok_def split: if_splits)
    then have t: "hand lo hi (pl(p := None)) D (upd_proc p ?g k)" by (rule hand_upd_proc) auto
    have fg: "sig_fine Ready (?g ?r)" "sig_fine Run (?g ?r)" using fp(1) False x by (auto simp: sig_fine_def)
    have k1: "upd_proc p (\<lambda>r. r\<lparr>sig_wait := 0\<rparr>) (upd_proc p ?f k) = upd_proc p ?g k" by (simp add: upd_proc_def)
    have "\<exists>pl'. hand lo hi pl' D k' \<and> dom pl' = insert p (dom (pl(p := None)))"
    proof (cases w)
      case True
      then have "proc_wakeup p (upd_proc p ?g k) = Some k'"
        using k' False by (auto simp: sig_signal_def Let_def bind_eq_Some_conv k1)
      then show ?thesis by (intro wakeup_keeps [OF t]) (use fp fg in auto)
    next
      case False
      then have "k' = SCHED_ENQUEUE_HEAD p (upd_proc p ?g k)"
        using k' \<open>\<not> (sig_recv ?r OR sigs) AND sig_wait ?r = 0\<close> by (auto simp: sig_signal_def Let_def bind_eq_Some_conv k1)
      then show ?thesis using hand_put_head [OF t, of p] fp fg by auto
    qed
    moreover have "insert p (dom (pl(p := None))) = dom pl" using p by auto
    ultimately show ?thesis by simp
  qed
qed

subsection \<open>Processes\<close>

lemma exit_keeps:
  assumes h: "hand lo hi pl D k" and c: "current_process k \<noteq> 0" "resume_at (procs k (current_process k)) = Ret" and k': "proc_exit k = Some k'"
  shows "\<exists>pl'. hand lo hi pl' D k' \<and> dom pl' = dom pl"
proof -
  let ?c = "current_process k" and ?k = "k\<lparr>current_process := 0\<rparr>"
  have pc: "pl ?c = Some Run" "?c \<in> D" using current_runs [OF h c(1)] by auto
  have d: "proc_switch (k\<lparr>zombie_list := zombie_list k @ [?c], current_process := 0\<rparr>) = Some k'"
    using k' by (auto simp: proc_exit_def proc_addZombie_def kernel_unfold split: if_splits)
  have t: "hand lo hi (pl(?c := None)) D ?k" by (rule hand_take_current [OF h])
  have "sig_fine Zombie (procs k ?c)" using fine_at [OF h pc(1)] c(2) by (simp add: sig_fine_def)
  then have "hand lo hi (pl(?c \<mapsto> Zombie)) D (?k\<lparr>zombie_list := zombie_list k @ [?c]\<rparr>)"
    using t put_zombie [of "pl(?c := None)" ?k ?c] c(1) pc stacks_ok_same [of lo hi D ?k "?k\<lparr>zombie_list := zombie_list k @ [?c]\<rparr>"]
    by (auto simp: hand_def sigs_ok_def lists_ok_def split: if_splits)
  then have "\<exists>pl'. hand lo hi pl' D k' \<and> dom pl' = dom (pl(?c \<mapsto> Zombie))"
    by (intro switch_keeps [OF _ d]) (cases k, simp)
  moreover have "dom (pl(?c \<mapsto> Zombie)) = dom pl" using pc by auto
  ultimately show ?thesis by simp
qed

text \<open>A process on the heap is inside its block, which no other process has.\<close>

lemma block_of:
  assumes "stacks_ok lo hi D k" "p \<in> D" "on_heap k p"
  shows "fst (stack_block k p) \<noteq> 0" "lo \<le> unat p" "unat p < hi" "unat (fst (stack_block k p)) \<le> unat p"
    "unat p < unat (fst (stack_block k p)) + unat (snd (stack_block k p))"
proof -
  obtain A where A: "heap_inv lo hi (proc_heap k) A" "stack_block k p \<in> set A" using assms by (auto simp: stacks_ok_def)
  let ?b = "stack_base (procs k p)" and ?n = "stack_size (procs k p)"
  have p: "p = ?b + ?n" "20 \<le> unat (?n + 20)" using assms by (auto simp: stacks_ok_def stack_block_def PROC_SIZE_def)
  have w: "?b \<noteq> 0" "lo \<le> unat ?b" "unat ?b + unat (?n + 20) \<le> hi" "hi < 65536"
    using heap.within [OF A(1), of ?b "?n + 20"] A(2) by (auto simp: stack_block_def PROC_SIZE_def)
  have nb: "unat ?n < 65536" by simp
  have n: "unat (?n + 20) = unat ?n + 20"
  proof (cases "unat ?n + 20 < 65536")
    case True
    have "unat (?n + 20) = (unat ?n + 20) mod 65536" by (simp add: unat_word_ariths)
    with True show ?thesis by simp
  next
    case False
    have "unat (?n + 20) = (unat ?n + 20) mod 65536" by (simp add: unat_word_ariths)
    also have "\<dots> = (unat ?n + 20 - 65536) mod 65536" using False by (intro le_mod_geq) simp
    also have "\<dots> = unat ?n + 20 - 65536" by (rule mod_less) (use nb in linarith)
    finally show ?thesis using p(2) nb by linarith
  qed
  then have "unat (?b + ?n) = unat ?b + unat ?n" using w by (simp add: unat_word_ariths)
  then have "unat p = unat ?b + unat ?n" using p(1) by metis
  with w n show "fst (stack_block k p) \<noteq> 0" "lo \<le> unat p" "unat p < hi" "unat (fst (stack_block k p)) \<le> unat p"
    "unat p < unat (fst (stack_block k p)) + unat (snd (stack_block k p))"
    by (auto simp: stack_block_def PROC_SIZE_def)
qed

lemma block_inj:
  assumes "stacks_ok lo hi D k" "p \<in> D" "q \<in> D" "on_heap k p" "on_heap k q" "stack_block k p = stack_block k q"
  shows "p = q"
proof -
  have "p = stack_base (procs k p) + stack_size (procs k p)" "q = stack_base (procs k q) + stack_size (procs k q)"
    using assms(1-5) by (auto simp: stacks_ok_def)
  with assms(6) show ?thesis by (simp add: stack_block_def)
qed

text \<open>The structures of zombies are given up and their blocks released, each once.\<close>

lemma free_stack_ok:
  assumes st: "stacks_ok lo hi D k" and p: "p \<in> D" "on_heap k p"
  shows "\<exists>h. heap_freemem (stack_base (procs k p)) (stack_size (procs k p) + PROC_SIZE) (proc_heap k) = Some h \<and>
    stacks_ok lo hi (D - {p}) (k\<lparr>proc_heap := h, zombie_list := zs\<rparr>)"
proof -
  let ?b = "stack_block k p"
  obtain A where A: "heap_inv lo hi (proc_heap k) A" "set A = stack_block k ` {p \<in> D. on_heap k p}" using st by (auto simp: stacks_ok_def)
  have "?b \<in> set A" using A(2) p by auto
  then obtain h where h: "heap_freemem (fst ?b) (snd ?b) (proc_heap k) = Some h" "heap_inv lo hi h (remove1 ?b A)"
    using heap.release_law [OF A(1), of "fst ?b" "snd ?b"] by auto
  have "set (remove1 ?b A) = set A - {?b}" using heap.inv_distinct [OF A(1)] by simp
  also have "\<dots> = stack_block k ` {q \<in> D - {p}. on_heap k q}"
    using block_inj [OF st p(1) _ p(2)] unfolding A(2) by auto
  finally have "set (remove1 ?b A) = stack_block k ` {q \<in> D - {p}. on_heap k q}" .
  then have "stacks_ok lo hi (D - {p}) (k\<lparr>proc_heap := h, zombie_list := zs\<rparr>)"
    using st h(2) by (auto simp: stacks_ok_def on_heap_def stack_block_def intro!: exI [of _ "remove1 ?b A"])
  with h(1) show ?thesis by (auto simp: stack_block_def)
qed

lemma zombies_freed:
  assumes "hand lo hi pl (dom pl) k"
  shows "\<exists>pl' k'. proc_freeZombies k = Some k' \<and> hand lo hi pl' (dom pl') k' \<and> dom pl' = dom pl - set (zombie_list k) \<and>
    procs k' = procs k \<and> current_process k' = current_process k \<and> preempt_count k' = preempt_count k"
  unfolding proc_freeZombies_def using assms
proof (induction "zombie_list k" arbitrary: pl k)
  case Nil
  then show ?case by (intro exI [of _ pl] exI [of _ k]) (simp flip: Nil(1))
next
  case (Cons p ps)
  have hd: "placed pl k" "sigs_ok pl k" "lists_ok k" "stacks_ok lo hi (dom pl) k" "0 \<notin> dom pl" using Cons.prems by (auto simp: hand_def)
  have p: "pl p = Some Zombie" "p \<in> dom pl" using hd(1) Cons(2) unfolding placed_def by (metis list.set_intros(1), metis domI list.set_intros(1))
  have dm: "dom (pl(p := None)) = dom pl - {p}" by auto
  have "\<exists>h. free_stacks (zombie_list k) k = free_stacks ps (k\<lparr>zombie_list := ps, proc_heap := h\<rparr>) \<and>
      stacks_ok lo hi (dom pl - {p}) (k\<lparr>zombie_list := ps, proc_heap := h\<rparr>)"
  proof (cases "on_heap k p")
    case True
    from free_stack_ok [OF hd(4) p(2) True, of ps] obtain h where
      h: "heap_freemem (stack_base (procs k p)) (stack_size (procs k p) + PROC_SIZE) (proc_heap k) = Some h"
        "stacks_ok lo hi (dom pl - {p}) (k\<lparr>proc_heap := h, zombie_list := ps\<rparr>)" by blast
    moreover have "k\<lparr>proc_heap := h, zombie_list := ps\<rparr> = k\<lparr>zombie_list := ps, proc_heap := h\<rparr>" by (cases k) simp
    moreover have "free_stacks (zombie_list k) k = free_stacks ps (k\<lparr>zombie_list := ps, proc_heap := h\<rparr>)"
      using True h(1) by (simp flip: Cons(2) add: on_heap_def)
    ultimately show ?thesis by auto
  next
    case False
    have "k\<lparr>zombie_list := ps, proc_heap := proc_heap k\<rparr> = k\<lparr>zombie_list := ps\<rparr>" by (cases k) simp
    moreover have "free_stacks (zombie_list k) k = free_stacks ps (k\<lparr>zombie_list := ps\<rparr>)"
      using False by (simp flip: Cons(2) add: on_heap_def)
    moreover have "stack_block k ` {q \<in> dom pl - {p}. on_heap k q} = stack_block k ` {q \<in> dom pl. on_heap k q}"
      using False by (intro arg_cong [of _ _ "image (stack_block k)"]) auto
    then have "stacks_ok lo hi (dom pl - {p}) k" using hd(4) by (auto simp: stacks_ok_def)
    then have "stacks_ok lo hi (dom pl - {p}) (k\<lparr>zombie_list := ps\<rparr>)" by (rule stacks_ok_same) simp_all
    ultimately show ?thesis by (intro exI [of _ "proc_heap k"]) simp
  qed
  then obtain h where h: "free_stacks (zombie_list k) k = free_stacks ps (k\<lparr>zombie_list := ps, proc_heap := h\<rparr>)"
    "stacks_ok lo hi (dom pl - {p}) (k\<lparr>zombie_list := ps, proc_heap := h\<rparr>)" by blast
  let ?k = "k\<lparr>zombie_list := ps, proc_heap := h\<rparr>"
  have "placed (pl(p := None)) ?k" using take_zombie [OF hd(1) Cons(2) [symmetric]] by (rule placed_cong) simp_all
  then have "hand lo hi (pl(p := None)) (dom (pl(p := None))) ?k"
    using hd h(2) by (auto simp: hand_def sigs_ok_def lists_ok_def dm simp del: dom_fun_upd split: if_splits)
  from Cons.hyps(1) [OF _ this] obtain pl' k' where "free_stacks ps ?k = Some k'" "hand lo hi pl' (dom pl') k'"
    "dom pl' = dom (pl(p := None)) - set ps" "procs k' = procs ?k" "current_process k' = current_process ?k" "preempt_count k' = preempt_count ?k"
    by auto
  then show ?case unfolding h(1) by (intro exI [of _ pl'] exI [of _ k']) (auto simp flip: Cons(2))
qed

text \<open>A new process.\<close>

lemma setup_keeps:
  assumes h: "hand lo hi pl (dom pl) k" and p: "p = base + n - PROC_SIZE" "p \<notin> dom pl" "p \<noteq> 0"
    and st: "stacks_ok lo hi (insert p (dom pl)) (upd_proc p (\<lambda>r. (proc_initStruct r)\<lparr>stack_base := base, stack_size := n - PROC_SIZE,
      flags := (if fr then PF_FREESTACK else 0), resume_at := Ret\<rparr>) k')"
    and k': "procs k' = procs k" "proc_ready_list k' = proc_ready_list k" "current_process k' = current_process k"
      "zombie_list k' = zombie_list k" "sems k' = sems k"
  shows "\<exists>pl'. hand lo hi pl' (dom pl') (snd (proc_setup base n fr k')) \<and> dom pl' = insert p (dom pl) \<and> fst (proc_setup base n fr k') = p"
proof -
  let ?f = "\<lambda>r. (proc_initStruct r)\<lparr>stack_base := base, stack_size := n - PROC_SIZE, flags := (if fr then PF_FREESTACK else 0), resume_at := Ret\<rparr>"
  let ?k = "upd_proc p ?f k'"
  have hd: "placed pl k" "sigs_ok pl k" "lists_ok k" "dom pl \<subseteq> dom pl" using h by (auto simp: hand_def)
  have pn: "pl p = None" using p(2) by auto
  then have nr: "p \<notin> set (proc_ready_list k)" using hd(1) by (simp add: placed_def)
  have "by_priority (\<lambda>q. link_pri (procs ?k q)) (proc_ready_list k) = by_priority (\<lambda>q. link_pri (procs k q)) (proc_ready_list k)"
    unfolding by_priority_def using nr k'(1) by (intro arg_cong [of _ _ sorted] map_cong) auto
  then have "lists_ok ?k" using hd(3) k' unfolding lists_ok_def upd_sel(2,3) by simp
  moreover have "placed pl ?k" using placed_cong [OF hd(1), of ?k] k' by simp
  moreover have "sigs_ok pl ?k" using hd(2) pn k'(1) by (auto simp: sigs_ok_def)
  moreover have "0 \<notin> insert p (dom pl)" using h p(3) by (auto simp: hand_def)
  ultimately have "hand lo hi pl (insert p (dom pl)) ?k" using st by (auto simp: hand_def)
  then have "hand lo hi (pl(p \<mapsto> Ready)) (insert p (dom pl)) (SCHED_ENQUEUE p ?k)"
    by (rule hand_put_ready) (use pn in \<open>auto simp: sig_fine_def proc_initStruct_def\<close>)
  moreover have "proc_setup base n fr k' = (p, SCHED_ENQUEUE p ?k)" by (simp add: proc_setup_def Let_def p(1))
  moreover have "dom (pl(p \<mapsto> Ready)) = insert p (dom pl)" by simp
  ultimately show ?thesis by (intro exI [of _ "pl(p \<mapsto> Ready)"]) simp
qed

end
