(* ===== verification/Kernel.thy ===== *)
theory Kernel
  imports Proc
begin

text \<open>
  The kernel at work: processes are created on the heap or on stacks of the caller, run, block, exit and are buried, in any order that
  the documentation of the calls allows. The calls of a process are atomic up to the context switch they make, interrupts are not:
  they come between the calls, and \<^verbatim>\<open>proc_preempt\<close> is what the return from one does.
\<close>

section \<open>New processes\<close>

abbreviation new_proc :: "addr \<Rightarrow> u16 \<Rightarrow> bool \<Rightarrow> Process \<Rightarrow> Process" where
  "new_proc b n fr r \<equiv> (proc_initStruct r)\<lparr>stack_base := b, stack_size := n - PROC_SIZE, flags := (if fr then PF_FREESTACK else 0), resume_at := Ret\<rparr>"

text \<open>The structure on the top of a new block is inside it, so it is none of the others.\<close>

lemma new_block_fresh:
  assumes st: "stacks_ok lo hi D k" and A: "heap_inv lo hi (proc_heap k) A" "set A = stack_block k ` {p \<in> D. on_heap k p}"
    and h: "heap_inv lo hi h ((b, n) # A)" and n: "20 \<le> unat n"
  shows "b + n - PROC_SIZE \<notin> D" "b + n - PROC_SIZE \<noteq> 0"
proof -
  let ?p = "b + n - PROC_SIZE"
  have w: "b \<noteq> 0" "lo \<le> unat b" "unat b + unat n \<le> hi" "hi < 65536" using heap.within [OF h, of b n] by auto
  have "unat (b + n) = unat b + unat n" using w by (simp add: unat_word_ariths)
  moreover have "20 \<le> b + n" using calculation n by (simp add: word_le_nat_alt)
  ultimately have p: "unat ?p = unat b + unat n - 20" by (simp add: PROC_SIZE_def unat_sub)
  have "0 < unat b" using w(1) by (simp add: unat_gt_0)
  with p n show "?p \<noteq> 0" by (metis add_gr_0 le_add_diff_inverse2 add_diff_assoc unat_0 less_not_refl)
  show "?p \<notin> D"
  proof
    assume d: "?p \<in> D"
    show False
    proof (cases "on_heap k ?p")
      case True
      note bl = block_of [OF st d True]
      have "stack_block k ?p \<in> set A" using A(2) d True by blast
      then have "unat b + unat n \<le> unat (fst (stack_block k ?p)) \<or>
          unat (fst (stack_block k ?p)) + unat (snd (stack_block k ?p)) \<le> unat b"
        using heap.apart [OF h, of "fst (stack_block k ?p)" "snd (stack_block k ?p)"] by simp
      with bl p n show False by linarith
    next
      case False
      then have "unat ?p < lo \<or> hi \<le> unat ?p" using st d by (auto simp: stacks_ok_def)
      with p n w show False by linarith
    qed
  qed
qed

lemma stacks_ok_upd:
  assumes st: "stacks_ok lo hi D k" and p: "p \<notin> D" and A: "heap_inv lo hi (proc_heap k') A"
    "set A = stack_block k ` {q \<in> D. on_heap k q} \<union> (if on_heap k' p then {stack_block k' p} else {})"
    and q: "\<And>q. q \<noteq> p \<Longrightarrow> procs k' q = procs k q"
    and new: "if on_heap k' p then p = stack_base (procs k' p) + stack_size (procs k' p) \<and> 20 \<le> unat (snd (stack_block k' p))
      else unat p < lo \<or> hi \<le> unat p"
  shows "stacks_ok lo hi (insert p D) k'"
proof -
  have s: "stack_block k' q = stack_block k q" "on_heap k' q = on_heap k q" if "q \<in> D" for q
  proof -
    have "procs k' q = procs k q" using q [of q] p that by blast
    then show "stack_block k' q = stack_block k q" "on_heap k' q = on_heap k q" by (simp_all add: stack_block_def on_heap_def)
  qed
  have "{q \<in> insert p D. on_heap k' q} = {q \<in> D. on_heap k q} \<union> (if on_heap k' p then {p} else {})" using s(2) by auto
  then have "stack_block k' ` {q \<in> insert p D. on_heap k' q} = stack_block k' ` {q \<in> D. on_heap k q} \<union> (if on_heap k' p then {stack_block k' p} else {})"
    by auto
  also have "stack_block k' ` {q \<in> D. on_heap k q} = stack_block k ` {q \<in> D. on_heap k q}" using s(1) by (intro image_cong) auto
  finally have "set A = stack_block k' ` {q \<in> insert p D. on_heap k' q}" using A(2) by simp
  moreover have "if on_heap k' r then r = stack_base (procs k' r) + stack_size (procs k' r) \<and> 20 \<le> unat (snd (stack_block k' r))
      else unat r < lo \<or> hi \<le> unat r" if "r \<in> insert p D" for r
  proof (cases "r = p")
    case True
    then show ?thesis using new by simp
  next
    case False
    then have "r \<in> D" "procs k' r = procs k r" using that q by auto
    then show ?thesis using st s by (simp add: stacks_ok_def)
  qed
  ultimately show ?thesis using A(1) unfolding stacks_ok_def by blast
qed

lemma new_heap_keeps:
  assumes h: "hand lo hi pl (dom pl) k" and n: "20 \<le> unat n" "unat n \<le> 65532"
  shows "\<exists>b h pl'. heap_allocmem n (proc_heap k) = Some (b, h) \<and>
    (if b = 0 then hand lo hi pl (dom pl) (k\<lparr>proc_heap := h\<rparr>)
     else hand lo hi pl' (dom pl') (snd (proc_setup b n True (k\<lparr>proc_heap := h\<rparr>))) \<and> b + n - PROC_SIZE \<notin> dom pl \<and>
       dom pl' = insert (b + n - PROC_SIZE) (dom pl))"
proof -
  have st: "stacks_ok lo hi (dom pl) k" using h by (simp add: hand_def)
  then obtain A where A: "heap_inv lo hi (proc_heap k) A" "set A = stack_block k ` {p \<in> dom pl. on_heap k p}" by (auto simp: stacks_ok_def)
  from heap.alloc_law [OF A(1) n(2)] obtain b h' where b: "heap_allocmem n (proc_heap k) = Some (b, h')"
    "heap_inv lo hi h' (if b = 0 then A else (b, n) # A)" by blast
  let ?p = "b + n - PROC_SIZE" and ?k = "k\<lparr>proc_heap := h'\<rparr>"
  show ?thesis
  proof (cases "b = 0")
    case True
    have "stack_block ?k = stack_block k" "on_heap ?k = on_heap k" by (simp_all add: fun_eq_iff stack_block_def on_heap_def)
    then have "stacks_ok lo hi (dom pl) ?k" using True st A(2) b(2) by (auto simp: stacks_ok_def)
    then have "hand lo hi pl (dom pl) ?k" using h placed_cong [of pl k ?k] by (auto simp: hand_def sigs_ok_def lists_ok_def)
    with b(1) True show ?thesis by auto
  next
    case False
    with b(2) have i: "heap_inv lo hi h' ((b, n) # A)" by simp
    note f = new_block_fresh [OF st A i n(1)]
    let ?k' = "upd_proc ?p (new_proc b n True) ?k"
    have blk: "stack_block ?k' ?p = (b, n)" "on_heap ?k' ?p" by (simp_all add: stack_block_def on_heap_def PF_FREESTACK_def)
    have "stacks_ok lo hi (insert ?p (dom pl)) ?k'"
      by (rule stacks_ok_upd [OF st f(1), where A = "(b, n) # A"]) (use i A(2) blk n in \<open>auto simp: algebra_simps\<close>)
    from setup_keeps [OF h refl f, where fr = True and k' = ?k] this
    obtain pl' where "hand lo hi pl' (dom pl') (snd (proc_setup b n True ?k))" "dom pl' = insert ?p (dom pl)" by auto
    with b(1) False f(1) show ?thesis by (intro exI [of _ b] exI [of _ h'] exI [of _ pl']) simp
  qed
qed

lemma new_static_keeps:
  assumes h: "hand lo hi pl (dom pl) k" and p: "p = b + n - PROC_SIZE" "p \<notin> dom pl" "p \<noteq> 0" "unat p < lo \<or> hi \<le> unat p"
  shows "\<exists>pl'. hand lo hi pl' (dom pl') (snd (proc_setup b n False k)) \<and> dom pl' = insert p (dom pl)"
proof -
  have st: "stacks_ok lo hi (dom pl) k" using h by (simp add: hand_def)
  then obtain A where A: "heap_inv lo hi (proc_heap k) A" "set A = stack_block k ` {p \<in> dom pl. on_heap k p}" by (auto simp: stacks_ok_def)
  let ?k' = "upd_proc p (new_proc b n False) k"
  have "\<not> on_heap ?k' p" by (simp add: on_heap_def)
  then have "stacks_ok lo hi (insert p (dom pl)) ?k'"
    by (intro stacks_ok_upd [OF st p(2), where A = A]) (use A p(4) in \<open>auto simp del: upd_sel(1)\<close>, simp_all)
  then show ?thesis using setup_keeps [OF h p(1-3), where fr = False and k' = k] by auto
qed

text \<open>\<^verbatim>\<open>proc_new\<close> is called with room for the structure; a stack of the caller is not on the heap and not that of another process.\<close>

definition new_ok :: "nat \<Rightarrow> nat \<Rightarrow> pid set \<Rightarrow> u16 \<Rightarrow> addr \<Rightarrow> bool" where
  "new_ok lo hi D n base \<longleftrightarrow>
     (if base = 0 then n = 0 \<or> 20 \<le> unat n \<and> unat n \<le> 65532
      else base + n - PROC_SIZE \<noteq> 0 \<and> base + n - PROC_SIZE \<notin> D \<and> (unat (base + n - PROC_SIZE) < lo \<or> hi \<le> unat (base + n - PROC_SIZE)))"

lemma new_keeps:
  assumes i: "kernel_inv lo hi D k" and ok: "new_ok lo hi (D - set (zombie_list k)) n base"
  shows "\<exists>p k'. proc_new n base k = Some (p, k') \<and> p \<notin> D - set (zombie_list k) \<and>
    kernel_inv lo hi (if p = 0 then D - set (zombie_list k) else insert p (D - set (zombie_list k))) k'"
proof -
  obtain pl0 where h0: "hand lo hi pl0 (dom pl0) k" and d0: "dom pl0 = D" using i by (auto simp: kernel_inv_hand)
  from zombies_freed [OF h0] obtain pl k1 where k1: "proc_freeZombies k = Some k1" and h: "hand lo hi pl (dom pl) k1"
    and d: "dom pl = D - set (zombie_list k)" by (auto simp: d0)
  show ?thesis
  proof (cases "base = 0")
    case True
    define m where "m = (if n = 0 then KERN_MINSTACKSIZE else n)"
    have m: "20 \<le> unat m" "unat m \<le> 65532"
      using ok True by (auto simp: m_def new_ok_def KERN_MINSTACKSIZE_def PROC_SIZE_def split: if_splits)
    from new_heap_keeps [OF h m] obtain b h' pl' where b: "heap_allocmem m (proc_heap k1) = Some (b, h')"
      "if b = 0 then hand lo hi pl (dom pl) (k1\<lparr>proc_heap := h'\<rparr>)
       else hand lo hi pl' (dom pl') (snd (proc_setup b m True (k1\<lparr>proc_heap := h'\<rparr>))) \<and> b + m - PROC_SIZE \<notin> dom pl \<and>
         dom pl' = insert (b + m - PROC_SIZE) (dom pl)" by metis
    have new: "proc_new n base k = Some (if b = 0 then (0, k1\<lparr>proc_heap := h'\<rparr>) else proc_setup b m True (k1\<lparr>proc_heap := h'\<rparr>))"
      using b(1) k1 True by (simp add: proc_new_def m_def Let_def)
    show ?thesis
    proof (cases "b = 0")
      case True
      have "0 \<notin> dom pl" using h by (simp add: hand_def)
      with True new b(2) d show ?thesis by (auto simp: kernel_inv_hand)
    next
      case False
      have "b + m - PROC_SIZE \<noteq> 0" using b(2) False unfolding hand_def by (metis insertCI)
      moreover have "fst (proc_setup b m True (k1\<lparr>proc_heap := h'\<rparr>)) = b + m - PROC_SIZE" by (simp add: proc_setup_def Let_def)
      ultimately show ?thesis using False new b(2) d by (cases "proc_setup b m True (k1\<lparr>proc_heap := h'\<rparr>)") (auto simp: kernel_inv_hand)
    qed
  next
    case False
    let ?p = "base + n - PROC_SIZE"
    have p: "?p \<notin> dom pl" "?p \<noteq> 0" "unat ?p < lo \<or> hi \<le> unat ?p" using ok False d by (auto simp: new_ok_def)
    from new_static_keeps [OF h refl p] obtain pl' where
      pl': "hand lo hi pl' (dom pl') (snd (proc_setup base n False k1))" "dom pl' = insert ?p (dom pl)" by blast
    have "proc_new n base k = Some (proc_setup base n False k1)" using k1 False by (simp add: proc_new_def)
    moreover have "fst (proc_setup base n False k1) = ?p" by (simp add: proc_setup_def Let_def)
    ultimately show ?thesis using pl' p d by (cases "proc_setup base n False k1") (auto simp: kernel_inv_hand)
  qed
qed

lemma init_inv:
  assumes "heap_buf \<noteq> 0" "4 \<le> unat n" "4 dvd unat n" "unat heap_buf + unat n < 65536"
    and main: "main \<noteq> 0" "unat main < unat heap_buf \<or> unat heap_buf + unat n \<le> unat main"
    and free: "\<And>s. sems k s = \<lparr>owner = 0, wait_queue = [], nest_count = 0\<rparr>"
  shows "kernel_inv (unat heap_buf) (unat heap_buf + unat n) {main} (proc_init heap_buf n main k)"
proof -
  let ?k = "proc_init heap_buf n main k" and ?pl = "[main \<mapsto> Run]"
  have f: "proc_ready_list ?k = []" "zombie_list ?k = []" "current_process ?k = main" "sems ?k = sems k"
    "proc_heap ?k = heap_init heap_buf n (ram (proc_heap k))" "procs ?k main = (proc_initStruct (procs k main))\<lparr>resume_at := Ret\<rparr>"
    by (simp_all add: proc_init_def Let_def upd_proc_def)
  have "placed ?pl ?k" using main(1) free by (auto simp: placed_def f)
  moreover have "sigs_ok ?pl ?k" by (auto simp: sigs_ok_def sig_fine_def f proc_initStruct_def split: if_splits)
  moreover have "lists_ok ?k" using free by (simp add: lists_ok_def f by_priority_def sem_ok_def)
  moreover have "stacks_ok (unat heap_buf) (unat heap_buf + unat n) {main} ?k"
  proof -
    have "\<not> on_heap ?k main" by (simp add: on_heap_def f proc_initStruct_def)
    moreover have "heap_inv (unat heap_buf) (unat heap_buf + unat n) (proc_heap ?k) []"
      using heap_init_tiles [OF assms(1-4), of "ram (proc_heap k)"] assms(1,4) by (auto simp: heap_inv_def f unat_gt_0)
    ultimately show ?thesis using main(2) by (auto simp: stacks_ok_def intro!: exI [of _ "[]"])
  qed
  ultimately show ?thesis unfolding kernel_inv_def by (intro exI [of _ ?pl]) simp
qed

section \<open>Runs\<close>

text \<open>A process makes its calls from its own code, not from inside \<^verbatim>\<open>sig_waitSignal\<close>.\<close>

definition own_code :: "Kernel \<Rightarrow> bool" where
  "own_code k \<longleftrightarrow> current_process k \<noteq> 0 \<and> resume_at (procs k (current_process k)) = Ret"

text \<open>
  A run with the set of processes there are. The calls that are not there are those without an effect on the state.
\<close>

inductive kernel_run :: "addr \<Rightarrow> u16 \<Rightarrow> pid \<Rightarrow> pid set \<times> Kernel \<Rightarrow> bool" for heap_buf :: addr and n :: u16 and main :: pid where
  start: "(\<And>s. sems k s = \<lparr>owner = 0, wait_queue = [], nest_count = 0\<rparr>) \<Longrightarrow> preempt_count k = 0 \<Longrightarrow>
    kernel_run heap_buf n main ({main}, proc_init heap_buf n main k)"
| tick: "kernel_run heap_buf n main (D, k) \<Longrightarrow> kernel_run heap_buf n main (D, proc_decQuantum k)"
| irq_return: "kernel_run heap_buf n main (D, k) \<Longrightarrow> proc_needPreempt k \<Longrightarrow> proc_preempt k = Some k' \<Longrightarrow> kernel_run heap_buf n main (D, k')"
| idle: "kernel_run heap_buf n main (D, k) \<Longrightarrow> current_process k = 0 \<Longrightarrow> kernel_run heap_buf n main (D, proc_schedule k)"
| post: "kernel_run heap_buf n main (D, k) \<Longrightarrow> p \<in> D \<Longrightarrow> sig_postSignal p sigs k = Some k' \<Longrightarrow> kernel_run heap_buf n main (D, k')"
| woken: "kernel_run heap_buf n main (D, k) \<Longrightarrow> current_process k \<noteq> 0 \<Longrightarrow> resume_at (procs k (current_process k)) = SigWait sigs \<Longrightarrow>
    sig_resume sigs k = Some (res, k') \<Longrightarrow> kernel_run heap_buf n main (D, k')"
| forbid: "kernel_run heap_buf n main (D, k) \<Longrightarrow> own_code k \<Longrightarrow> kernel_run heap_buf n main (D, proc_forbid k)"
| permit: "kernel_run heap_buf n main (D, k) \<Longrightarrow> own_code k \<Longrightarrow> proc_permit k = Some k' \<Longrightarrow> kernel_run heap_buf n main (D, k')"
| yields: "kernel_run heap_buf n main (D, k) \<Longrightarrow> own_code k \<Longrightarrow> proc_yield k = Some k' \<Longrightarrow> kernel_run heap_buf n main (D, k')"
| setPri: "kernel_run heap_buf n main (D, k) \<Longrightarrow> own_code k \<Longrightarrow> kernel_run heap_buf n main (D, proc_setPri p pri k)"
| new: "kernel_run heap_buf n main (D, k) \<Longrightarrow> own_code k \<Longrightarrow>
    new_ok (unat heap_buf) (unat heap_buf + unat n) (D - set (zombie_list k)) m base \<Longrightarrow> proc_new m base k = Some (p, k') \<Longrightarrow>
    kernel_run heap_buf n main (if p = 0 then D - set (zombie_list k) else insert p (D - set (zombie_list k)), k')"
| exit: "kernel_run heap_buf n main (D, k) \<Longrightarrow> own_code k \<Longrightarrow> proc_exit k = Some k' \<Longrightarrow> kernel_run heap_buf n main (D, k')"
| sem_init: "kernel_run heap_buf n main (D, k) \<Longrightarrow> own_code k \<Longrightarrow> owner (sems k s) = 0 \<Longrightarrow> kernel_run heap_buf n main (D, sem_init s k)"
| attempt: "kernel_run heap_buf n main (D, k) \<Longrightarrow> own_code k \<Longrightarrow> sem_attempt s k = Some (b, k') \<Longrightarrow> kernel_run heap_buf n main (D, k')"
| obtain_sem: "kernel_run heap_buf n main (D, k) \<Longrightarrow> own_code k \<Longrightarrow> sem_obtain s k = Some k' \<Longrightarrow> kernel_run heap_buf n main (D, k')"
| release: "kernel_run heap_buf n main (D, k) \<Longrightarrow> own_code k \<Longrightarrow> sem_release s k = Some k' \<Longrightarrow> kernel_run heap_buf n main (D, k')"
| send: "kernel_run heap_buf n main (D, k) \<Longrightarrow> own_code k \<Longrightarrow> p \<in> D \<Longrightarrow> sig_sendSignal p sigs k = Some k' \<Longrightarrow> kernel_run heap_buf n main (D, k')"
| check: "kernel_run heap_buf n main (D, k) \<Longrightarrow> own_code k \<Longrightarrow> kernel_run heap_buf n main (D, snd (sig_check sigs k))"
| wait: "kernel_run heap_buf n main (D, k) \<Longrightarrow> own_code k \<Longrightarrow> sigs \<noteq> 0 \<Longrightarrow> sig_waitSignal sigs k = Some (res, k') \<Longrightarrow>
    kernel_run heap_buf n main (D, k')"

text \<open>What a call keeps, in terms of the invariant.\<close>

lemma inv_keeps:
  assumes i: "kernel_inv lo hi D k"
  shows "kernel_inv lo hi D (proc_decQuantum k)" "kernel_inv lo hi D (proc_forbid k)" "proc_permit k = Some k' \<Longrightarrow> kernel_inv lo hi D k'"
    and "proc_preempt k = Some k' \<Longrightarrow> kernel_inv lo hi D k'"
    and "current_process k = 0 \<Longrightarrow> kernel_inv lo hi D (proc_schedule k)"
    and "kernel_inv lo hi D (proc_setPri p pri k)"
    and "p \<in> D \<Longrightarrow> sig_signal p sigs w k = Some k' \<Longrightarrow> kernel_inv lo hi D k'"
    and "owner (sems k s) = 0 \<Longrightarrow> kernel_inv lo hi D (sem_init s k)"
proof -
  obtain pl where h: "hand lo hi pl D k" "dom pl = D" using i by (auto simp: kernel_inv_hand)
  then show "kernel_inv lo hi D (proc_decQuantum k)" "kernel_inv lo hi D (proc_forbid k)" "proc_permit k = Some k' \<Longrightarrow> kernel_inv lo hi D k'"
    using hand_quantum [OF h(1)] by (auto simp: kernel_inv_hand proc_decQuantum_def proc_forbid_def proc_permit_def bind_eq_Some_conv)
  show "proc_preempt k = Some k' \<Longrightarrow> kernel_inv lo hi D k'" "current_process k = 0 \<Longrightarrow> kernel_inv lo hi D (proc_schedule k)"
    "kernel_inv lo hi D (proc_setPri p pri k)"
    using preempt_keeps [OF h(1), of k'] schedule_keeps [OF h(1)] setPri_keeps [OF h(1), of p pri] h(2) by (auto simp: kernel_inv_hand)
  show "p \<in> D \<Longrightarrow> sig_signal p sigs w k = Some k' \<Longrightarrow> kernel_inv lo hi D k'"
    using signal_keeps [OF h(1)] h(2) by (fastforce simp: kernel_inv_hand)
  show "owner (sems k s) = 0 \<Longrightarrow> kernel_inv lo hi D (sem_init s k)"
  proof -
    assume o: "owner (sems k s) = 0"
    have "sem_ok (sems k s)" using h(1) by (simp add: hand_def lists_ok_def)
    with o have "sems k s = \<lparr>owner = 0, wait_queue = [], nest_count = 0\<rparr>" by (cases "sems k s") (auto simp: sem_ok_def)
    then have "sem_init s k = k" by (cases k) (auto simp: sem_init_def upd_sem_def fun_eq_iff)
    with i show ?thesis by simp
  qed
qed

lemma inv_keeps_own:
  assumes i: "kernel_inv lo hi D k" and o: "own_code k"
  shows "proc_yield k = Some k' \<Longrightarrow> kernel_inv lo hi D k'" "proc_exit k = Some k' \<Longrightarrow> kernel_inv lo hi D k'"
    and "sem_attempt s k = Some (b, k') \<Longrightarrow> kernel_inv lo hi D k'" "sem_obtain s k = Some k' \<Longrightarrow> kernel_inv lo hi D k'"
    "sem_release s k = Some k' \<Longrightarrow> kernel_inv lo hi D k'"
    and "kernel_inv lo hi D (snd (sig_check sigs k))" "sigs \<noteq> 0 \<Longrightarrow> sig_waitSignal sigs k = Some (res, k') \<Longrightarrow> kernel_inv lo hi D k'"
proof -
  obtain pl where h: "hand lo hi pl D k" "dom pl = D" using i by (auto simp: kernel_inv_hand)
  have c: "current_process k \<noteq> 0" "resume_at (procs k (current_process k)) = Ret" using o by (auto simp: own_code_def)
  show "proc_yield k = Some k' \<Longrightarrow> kernel_inv lo hi D k'" "proc_exit k = Some k' \<Longrightarrow> kernel_inv lo hi D k'"
    using yield_keeps [OF h(1) c(1)] exit_keeps [OF h(1) c] h(2) by (auto simp: kernel_inv_hand)
  show "sem_attempt s k = Some (b, k') \<Longrightarrow> kernel_inv lo hi D k'" "sem_obtain s k = Some k' \<Longrightarrow> kernel_inv lo hi D k'"
    "sem_release s k = Some k' \<Longrightarrow> kernel_inv lo hi D k'"
    using attempt_keeps [OF h(1) c(1)] obtain_keeps [OF h(1) c] release_keeps [OF h(1) c(1)] h(2) by (auto simp: kernel_inv_hand)
  show "kernel_inv lo hi D (snd (sig_check sigs k))" "sigs \<noteq> 0 \<Longrightarrow> sig_waitSignal sigs k = Some (res, k') \<Longrightarrow> kernel_inv lo hi D k'"
    using check_keeps [OF h(1) c] wait_loop_keeps [OF h(1) c(1)] h(2) by (auto simp: kernel_inv_hand sig_waitSignal_def bind_eq_Some_conv)
qed

text \<open>A kernel is set up with its heap in a buffer of whole granules and the structure of the main process elsewhere.\<close>

definition kernel_config :: "addr \<Rightarrow> u16 \<Rightarrow> pid \<Rightarrow> bool" where
  "kernel_config heap_buf n main \<longleftrightarrow> heap_buf \<noteq> 0 \<and> 4 \<le> unat n \<and> 4 dvd unat n \<and> unat heap_buf + unat n < 65536 \<and>
     main \<noteq> 0 \<and> (unat main < unat heap_buf \<or> unat heap_buf + unat n \<le> unat main)"

lemma run_inv:
  assumes "kernel_run heap_buf n main s" "kernel_config heap_buf n main"
  shows "kernel_inv (unat heap_buf) (unat heap_buf + unat n) (fst s) (snd s)"
  using assms(1)
proof induction
  case (start k)
  then show ?case using init_inv [of heap_buf n main k] assms(2) by (simp add: kernel_config_def)
next
  case (woken D k sigs res k')
  then obtain pl where h: "hand (unat heap_buf) (unat heap_buf + unat n) pl D k" "dom pl = D" by (auto simp: kernel_inv_hand)
  have "sig_wait_loop sigs k = Some (res, k')" "sig_recv (procs k (current_process k)) AND sigs \<noteq> 0"
    using woken(4) by (auto simp: sig_resume_def ASSERT_def Let_def bind_eq_Some_conv split: if_splits)
  then show ?case using wait_loop_keeps [OF h(1) woken(2), of sigs res k'] h(2) by (force simp: kernel_inv_hand)
next
  case (new D k m base p k')
  then show ?case using new_keeps [of "unat heap_buf" "unat heap_buf + unat n" D k m base] by auto
qed (auto simp: sig_postSignal_def sig_sendSignal_def bind_eq_Some_conv intro: inv_keeps inv_keeps_own)

section \<open>What holds in every state\<close>

definition sleeping :: "pid \<Rightarrow> Kernel \<Rightarrow> bool" where
  "sleeping p k \<longleftrightarrow> p \<noteq> current_process k \<and> p \<notin> set (proc_ready_list k) \<and> (\<forall>s. p \<notin> set (wait_queue (sems k s))) \<and> p \<notin> set (zombie_list k)"

lemma sleeping_place:
  assumes "placed pl k" "p \<in> dom pl"
  shows "sleeping p k \<longleftrightarrow> pl p = Some Sig"
proof -
  obtain x where x: "pl p = Some x" using assms(2) by auto
  have "p = current_process k \<longleftrightarrow> x = Run" using x assms(1) unfolding placed_def by (metis option.distinct(1) option.inject)
  moreover have "p \<in> set (proc_ready_list k) \<longleftrightarrow> x = Ready" "p \<in> set (wait_queue (sems k s)) \<longleftrightarrow> x = Sem s" "p \<in> set (zombie_list k) \<longleftrightarrow> x = Zombie" for s
    using assms(1) x by (simp_all add: placed_def)
  ultimately show ?thesis unfolding sleeping_def x by (cases x) simp_all
qed

lemma ready_sorted: "lists_ok k \<Longrightarrow> sorted_wrt (\<lambda>p q. prio_proc k q \<le> prio_proc k p) (proc_ready_list k)"
  by (simp add: lists_ok_def by_priority_def prio_proc_def sorted_wrt_map)


text \<open>No call fails in a state with the invariant.\<close>

lemma signal_succeeds:
  assumes "kernel_inv lo hi D k" "p \<in> D" "w \<Longrightarrow> own_code k \<and> proc_preemptAllowed k"
  shows "sig_signal p sigs w k \<noteq> None"
proof (cases "sig_wait (procs k p) = 0")
  case True
  then show ?thesis by (simp add: sig_signal_def Let_def)
next
  case False
  obtain pl where d: "dom pl = D" and pl: "placed pl k" and sg: "sigs_ok pl k" using assms(1) by (auto simp: kernel_inv_def)
  have "sig_fine x (procs k p) \<Longrightarrow> x = Sig" for x using False by (auto simp: sig_fine_def split: if_splits)
  then have "pl p = Some Sig" using sg assms(2) d unfolding sigs_ok_def by blast
  then have "p \<noteq> current_process k" using pl unfolding placed_def by (metis option.distinct(1) option.inject place.distinct(5))
  then show ?thesis using assms(3) by (auto simp: sig_signal_def Let_def ASSERT_def proc_wakeup_def own_code_def proc_preemptAllowed_def)
qed

lemma resume_succeeds:
  assumes "kernel_inv lo hi D k" "current_process k \<noteq> 0" "resume_at (procs k (current_process k)) = SigWait sigs"
  shows "\<exists>res k'. sig_resume sigs k = Some (res, k') \<and> res \<noteq> 0"
proof -
  have "sig_fine Run (procs k (current_process k))" using assms(1,2) unfolding kernel_inv_def placed_def sigs_ok_def by blast
  with assms(3) show ?thesis by (auto simp: sig_resume_def sig_wait_loop_def sig_fine_def ASSERT_def Let_def)
qed

lemma sem_succeeds:
  assumes "kernel_inv lo hi D k" "own_code k" "proc_preemptAllowed k" "sint (nest_count (sems k s)) < 128"
  shows "sem_attempt s k \<noteq> None" "owner (sems k s) = current_process k \<Longrightarrow> sem_release s k \<noteq> None"
    "owner (sems k s) \<noteq> current_process k \<or> wait_queue (sems k s) = [] \<Longrightarrow> sem_obtain s k \<noteq> None"
proof -
  have so: "0 \<le> sint (nest_count (sems k s))" "owner (sems k s) = 0 \<Longrightarrow> wait_queue (sems k s) = []"
    using assms(1) by (auto simp: kernel_inv_def lists_ok_def sem_ok_def)
  note u = kernel_unfold proc_switch_def proc_wakeup_def proc_preemptAllowed_def own_code_def upd_sem_def sem_take_def
  show "sem_attempt s k \<noteq> None" using so assms(2-4) by (auto simp: sem_attempt_def u)
  show "owner (sems k s) = current_process k \<Longrightarrow> sem_release s k \<noteq> None"
    using so assms(2-4) by (auto simp: sem_release_def u split: list.splits)
  show "owner (sems k s) \<noteq> current_process k \<or> wait_queue (sems k s) = [] \<Longrightarrow> sem_obtain s k \<noteq> None"
    using so assms(2-4) by (auto simp: sem_obtain_def sem_request_def u)
qed

lemma proc_succeeds:
  assumes "own_code k" "proc_preemptAllowed k"
  shows "proc_yield k \<noteq> None" "proc_exit k \<noteq> None" "sig_waitSignal sigs k \<noteq> None"
  using assms by (auto simp: proc_yield_def proc_exit_def proc_addZombie_def proc_switch_def sig_waitSignal_def sig_wait_loop_def kernel_unfold
      proc_preemptAllowed_def)


section \<open>Scheduling\<close>

lemma enqueue_ready:
  assumes "lists_ok k"
  shows "proc_ready_list (SCHED_ENQUEUE p k) =
    filter (\<lambda>q. prio_proc k p \<le> prio_proc k q) (proc_ready_list k) @ p # filter (\<lambda>q. prio_proc k q < prio_proc k p) (proc_ready_list k)"
  unfolding SCHED_ENQUEUE_def using assms split_by_priority [of "\<lambda>p. link_pri (procs k p)" "proc_ready_list k" p]
  by (simp add: lists_ok_def prio_proc_def)

text \<open>The processes of a priority that are ready, in their order.\<close>

definition ready_at :: "int \<Rightarrow> Kernel \<Rightarrow> pid list" where
  "ready_at x k = filter (\<lambda>q. prio_proc k q = x) (proc_ready_list k)"

lemma preempt_ready:
  assumes "lists_ok k" "proc_preempt k = Some k'"
  shows "current_process k' # proc_ready_list k' = proc_ready_list (SCHED_ENQUEUE (current_process k) k)" "prio_proc k' = prio_proc k"
    "proc_quantum k' = 11" "preempt_count k' = preempt_count k"
proof -
  have k': "k' = proc_schedule (preempt_reset_quantum (SCHED_ENQUEUE (current_process k) k))" using assms(2) by (auto simp: proc_preempt_def bind_eq_Some_conv)
  have ne: "proc_ready_list (SCHED_ENQUEUE (current_process k) k) \<noteq> []" by (simp add: SCHED_ENQUEUE_def)
  then show "current_process k' # proc_ready_list k' = proc_ready_list (SCHED_ENQUEUE (current_process k) k)"
    by (auto simp: k' proc_schedule_def split: list.splits)
  show "prio_proc k' = prio_proc k" "proc_quantum k' = 11" "preempt_count k' = preempt_count k" using ne
    by (auto simp: k' proc_schedule_def prio_proc_def preempt_reset_quantum_def CONFIG_KERN_QUANTUM_def fun_eq_iff split: list.splits)
qed

text \<open>
  C18. Preemption is by priority and, among equals, in turn. When the return from an interrupt preempts, the process that is switched
  to has the highest priority of all that are ready, with a new quantum, and no preemption is due then; the processes of each
  priority keep their order, the one that was preempted going behind those of its own priority.
\<close>

theorem preempt_in_turn:
  assumes "kernel_run heap_buf n main (D, k)" "kernel_config heap_buf n main" "proc_needPreempt k"
  shows "\<exists>k'. proc_preempt k = Some k' \<and> current_process k' \<noteq> 0 \<and> current_process k' \<noteq> current_process k \<and>
    (\<forall>q \<in> set (proc_ready_list k'). prio_proc k' q \<le> prio_curr k') \<and> \<not> proc_needPreempt k' \<and>
    (\<forall>x. (if x = prio_curr k' then [current_process k'] else []) @ ready_at x k' =
         ready_at x k @ (if x = prio_curr k then [current_process k] else []))"
proof -
  have c: "current_process k \<noteq> 0" and r: "proc_ready_list k \<noteq> []" "prio_curr k \<le> prio_next k"
    using assms(3) by (auto simp: proc_needPreempt_def split: if_splits)
  then obtain k' where k': "proc_preempt k = Some k'" by (auto simp: proc_preempt_def ASSERT_def)
  obtain pl where pl: "placed pl k" and li: "lists_ok k" using run_inv [OF assms(1,2)] by (auto simp: kernel_inv_def)
  note pr = preempt_ready [OF li k']
  let ?c = "current_process k" and ?l = "current_process k' # proc_ready_list k'"
  have l: "?l = filter (\<lambda>q. prio_proc k ?c \<le> prio_proc k q) (proc_ready_list k) @ ?c # filter (\<lambda>q. prio_proc k q < prio_proc k ?c) (proc_ready_list k)"
    using pr(1) enqueue_ready [OF li] by simp
  have "by_priority (\<lambda>p. link_pri (procs k p)) (proc_ready_list (SCHED_ENQUEUE ?c k))" using li by (intro enqueue_sorted) (simp add: lists_ok_def)
  then have "sorted_wrt (\<lambda>p q. prio_proc k q \<le> prio_proc k p) ?l" unfolding pr(1) by (simp add: by_priority_def prio_proc_def sorted_wrt_map)
  then have top: "\<forall>q \<in> set (proc_ready_list k'). prio_proc k' q \<le> prio_curr k'" by (simp add: prio_curr_def pr(2))
  then have np: "\<not> proc_needPreempt k'" using pr(3) by (auto simp: proc_needPreempt_def prio_next_def split: list.splits)
  have turn: "filter (\<lambda>q. prio_proc k q = x) ?l = ready_at x k @ (if x = prio_curr k then [?c] else [])" for x
  proof -
    have "filter (\<lambda>q. prio_proc k q = x) (filter (\<lambda>q. prio_proc k ?c \<le> prio_proc k q) xs) =
        (if prio_proc k ?c \<le> x then filter (\<lambda>q. prio_proc k q = x) xs else [])"
      "filter (\<lambda>q. prio_proc k q = x) (filter (\<lambda>q. prio_proc k q < prio_proc k ?c) xs) =
        (if x < prio_proc k ?c then filter (\<lambda>q. prio_proc k q = x) xs else [])" for xs
      by (induction xs) auto
    then show ?thesis unfolding l by (auto simp: ready_at_def prio_curr_def)
  qed
  have "(if x = prio_curr k' then [current_process k'] else []) @ ready_at x k' = ready_at x k @ (if x = prio_curr k then [?c] else [])" for x
    unfolding turn [symmetric] by (simp add: ready_at_def prio_curr_def pr(2) eq_commute)
  moreover have "current_process k' \<in> set (proc_ready_list k)"
  proof -
    obtain p ps where p: "proc_ready_list k = p # ps" using r(1) by (cases "proc_ready_list k") auto
    then have "prio_proc k ?c \<le> prio_proc k p" using r(2) by (simp add: prio_next_def prio_curr_def)
    then show ?thesis using l by (simp add: p)
  qed
  then have "current_process k' \<noteq> 0 \<and> current_process k' \<noteq> ?c" using pl unfolding placed_def by (metis c option.distinct(1) option.inject place.distinct(1))
  ultimately show ?thesis using k' top np by blast
qed

section \<open>Semaphores are locks with a queue\<close>

text \<open>A lock is the queue of the processes that want it, its owner in front, and how often the owner has taken it.\<close>

type_synonym lock = "pid list \<times> int"

definition lock_of :: "Semaphore \<Rightarrow> lock" where
  "lock_of r = (if owner r = 0 then [] else owner r # wait_queue r, sint (nest_count r))"

fun lock_obtain :: "pid \<Rightarrow> lock \<Rightarrow> lock" where
  "lock_obtain c (q, d) = (if q = [] then ([c], 1) else if hd q = c then (q, d + 1) else (q @ [c], d))"

fun lock_release :: "lock \<Rightarrow> lock" where
  "lock_release (q, d) = (if d = 1 then (tl q, if tl q = [] then 0 else 1) else (q, d - 1))"

lemma switch_sems: "proc_switch k = Some k' \<Longrightarrow> sems k' = sems k"
  by (auto simp: proc_switch_def bind_eq_Some_conv proc_schedule_def split: list.splits)

lemma wakeup_sems: "proc_wakeup p k = Some k' \<Longrightarrow> sems k' = sems k \<and> (p = current_process k' \<or> p \<in> set (proc_ready_list k'))"
  by (auto simp: proc_wakeup_def bind_eq_Some_conv proc_switchTo_def)

lemma take_lock:
  assumes "sem_ok (sems k s)" "current_process k \<noteq> 0" "owner (sems k s) = 0 \<or> owner (sems k s) = current_process k" "sint (nest_count (sems k s)) < 128"
  shows "lock_of (sems (sem_take s k) s) = lock_obtain (current_process k) (lock_of (sems k s))"
proof -
  have "sint (nest_count (sems k s) + 1) = sint (nest_count (sems k s)) + 1" using assms(4) by (intro sint_add_1) simp
  then show ?thesis using assms(1-3) by (auto simp: lock_of_def sem_take_def sem_ok_def)
qed

lemma obtain_lock:
  assumes ok: "sem_ok (sems k s)" and pl: "placed pl k" and o: "own_code k" and k': "sem_obtain s k = Some k'"
  shows "lock_of (sems k' s) = lock_obtain (current_process k) (lock_of (sems k s))" "t \<noteq> s \<Longrightarrow> sems k' t = sems k t"
    "hd (fst (lock_of (sems k' s))) = current_process k \<longleftrightarrow> current_process k' = current_process k"
proof -
  note oc = obtain_cases [OF k']
  let ?c = "current_process k"
  have c: "?c \<noteq> 0" using o by (simp add: own_code_def)
  have "lock_of (sems k' s) = lock_obtain ?c (lock_of (sems k s)) \<and> (t \<noteq> s \<longrightarrow> sems k' t = sems k t) \<and>
    (hd (fst (lock_of (sems k' s))) = ?c \<longleftrightarrow> current_process k' = ?c)"
  proof (cases "owner (sems k s) = 0 \<or> owner (sems k s) = ?c")
    case True
    have k1: "k' = sem_take s k" using oc(2) [OF True] .
    have "hd (fst (lock_of (sems k' s))) = ?c" "current_process k' = ?c" "t \<noteq> s \<longrightarrow> sems k' t = sems k t"
      unfolding k1 using c by (simp_all add: sem_take_def lock_of_def)
    then show ?thesis using take_lock [OF ok c True oc(1)] k1 by simp
  next
    case False
    have w: "sems k' = sems (upd_sem s (\<lambda>r. r\<lparr>wait_queue := wait_queue r @ [?c]\<rparr>) k)"
      using switch_sems [OF oc(3) [OF False]] .
    have "?c \<notin> set (proc_ready_list k)" using pl c unfolding placed_def by (metis option.inject place.distinct(1))
    then have "current_process k' \<noteq> ?c" using oc(3) [OF False] c by (auto simp: proc_switch_def bind_eq_Some_conv proc_schedule_def split: list.splits)
    then show ?thesis using False w by (simp add: lock_of_def)
  qed
  then show "lock_of (sems k' s) = lock_obtain ?c (lock_of (sems k s))" "t \<noteq> s \<Longrightarrow> sems k' t = sems k t"
    "hd (fst (lock_of (sems k' s))) = ?c \<longleftrightarrow> current_process k' = ?c" by auto
qed

lemma release_lock:
  assumes ok: "sem_ok (sems k s)" and pl: "placed pl k" and o: "own_code k" and k': "sem_release s k = Some k'"
  shows "lock_of (sems k' s) = lock_release (lock_of (sems k s))" "t \<noteq> s \<Longrightarrow> sems k' t = sems k t"
    "fst (lock_of (sems k' s)) = p # ps \<Longrightarrow> p = current_process k \<or> p = current_process k' \<or> p \<in> set (proc_ready_list k')"
proof -
  note rc = release_cases [OF k']
  let ?c = "current_process k" and ?r = "sems k s"
  have c: "?c \<noteq> 0" using o by (simp add: own_code_def)
  have d: "0 < sint (nest_count ?r)" using ok rc(1) c sint_zero [of "nest_count ?r"] by (auto simp: sem_ok_def)
  have one: "sint (nest_count ?r) = 1 \<longleftrightarrow> nest_count ?r = 1" using signed_word_eqI [of "nest_count ?r" 1] by auto
  have "lock_of (sems k' s) = lock_release (lock_of ?r) \<and> (t \<noteq> s \<longrightarrow> sems k' t = sems k t) \<and>
    (fst (lock_of (sems k' s)) = p # ps \<longrightarrow> p = ?c \<or> p = current_process k' \<or> p \<in> set (proc_ready_list k'))"
  proof (cases "nest_count ?r = 1")
    case False
    then show ?thesis using sint_diff_1 [OF d] rc(1) rc(2) [OF False] one c by (simp add: lock_of_def)
  next
    case n: True
    show ?thesis
    proof (cases "wait_queue ?r")
      case Nil
      then show ?thesis using rc(3) [OF n Nil] rc(1) n c by (simp add: lock_of_def)
    next
      case (Cons q qs)
      have "pl q = Some (Sem s)" using pl Cons unfolding placed_def by (metis list.set_intros(1))
      then have "q \<noteq> 0" using pl by (auto simp: placed_def)
      then show ?thesis using wakeup_sems [OF rc(4) [OF n Cons]] rc(1) n c Cons by (auto simp: lock_of_def)
    qed
  qed
  then show "lock_of (sems k' s) = lock_release (lock_of ?r)" "t \<noteq> s \<Longrightarrow> sems k' t = sems k t"
    "fst (lock_of (sems k' s)) = p # ps \<Longrightarrow> p = ?c \<or> p = current_process k' \<or> p \<in> set (proc_ready_list k')" by auto
qed

text \<open>
  C16. Semaphores are fair locks. \<^verbatim>\<open>sem_obtain\<close> appends the caller to the queue of the lock, or counts one more when it owns it
  already, and the caller goes on only as the owner; \<^verbatim>\<open>sem_release\<close> of the last count removes the owner and the lock goes to the one
  that has waited longest, which runs or is ready; \<^verbatim>\<open>sem_attempt\<close> takes the lock if it is free or the caller's own and leaves it as it is
  otherwise. Other semaphores are not touched.
\<close>

theorem sem_fair_lock:
  assumes "kernel_run heap_buf n main (D, k)" "kernel_config heap_buf n main" "own_code k"
  shows "(\<forall>k'. sem_obtain s k = Some k' \<longrightarrow> lock_of (sems k' s) = lock_obtain (current_process k) (lock_of (sems k s)) \<and>
      (hd (fst (lock_of (sems k' s))) = current_process k \<longleftrightarrow> current_process k' = current_process k) \<and> (\<forall>t. t \<noteq> s \<longrightarrow> sems k' t = sems k t)) \<and>
    (\<forall>k'. sem_release s k = Some k' \<longrightarrow> lock_of (sems k' s) = lock_release (lock_of (sems k s)) \<and>
      (\<forall>p ps. fst (lock_of (sems k' s)) = p # ps \<longrightarrow> p = current_process k \<or> p = current_process k' \<or> p \<in> set (proc_ready_list k')) \<and>
      (\<forall>t. t \<noteq> s \<longrightarrow> sems k' t = sems k t)) \<and>
    (\<forall>b k'. sem_attempt s k = Some (b, k') \<longrightarrow> (b \<longleftrightarrow> fst (lock_of (sems k s)) = [] \<or> hd (fst (lock_of (sems k s))) = current_process k) \<and>
      (if b then lock_of (sems k' s) = lock_obtain (current_process k) (lock_of (sems k s)) \<and> (\<forall>t. t \<noteq> s \<longrightarrow> sems k' t = sems k t) else k' = k))"
proof -
  obtain pl where pl: "placed pl k" and ok: "sem_ok (sems k s)" using run_inv [OF assms(1,2)] by (auto simp: kernel_inv_def lists_ok_def)
  have c: "current_process k \<noteq> 0" using assms(3) by (simp add: own_code_def)
  have "(b \<longleftrightarrow> fst (lock_of (sems k s)) = [] \<or> hd (fst (lock_of (sems k s))) = current_process k) \<and>
      (if b then lock_of (sems k' s) = lock_obtain (current_process k) (lock_of (sems k s)) \<and> (\<forall>t. t \<noteq> s \<longrightarrow> sems k' t = sems k t) else k' = k)"
    if "sem_attempt s k = Some (b, k')" for b k'
  proof (cases "owner (sems k s) = 0 \<or> owner (sems k s) = current_process k")
    case True
    then show ?thesis using attempt_cases(1,2) [OF that] take_lock [OF ok c True] by (auto simp: lock_of_def sem_take_def)
  next
    case False
    then show ?thesis using attempt_cases(3) [OF that] by (simp add: lock_of_def)
  qed
  then show ?thesis using obtain_lock [OF ok pl assms(3)] release_lock [OF ok pl assms(3)] by blast
qed

section \<open>Signals arrive\<close>


section \<open>An example\<close>

text \<open>The kernel as the C start-up code leaves it, and a run of two processes on it, the second on a stack of its own.\<close>

definition boot :: Kernel where
  "boot = \<lparr>procs = (\<lambda>_. \<lparr>link_pri = 0, sig_wait = 0, sig_recv = 0, flags = 0, stack_base = 0, stack_size = 0, resume_at = Ret\<rparr>),
     sems = (\<lambda>_. \<lparr>owner = 0, wait_queue = [], nest_count = 0\<rparr>), proc_ready_list = [], current_process = 0, zombie_list = [],
     preempt_count = 0, proc_quantum = 0, proc_heap = \<lparr>FreeList = 0, ram = (\<lambda>_. 0)\<rparr>\<rparr>"

lemma boot_procs: "resume_at (procs boot p) = Ret" "link_pri (procs boot p) = 0"
  by (simp_all add: boot_def)

lemma example_config: "kernel_config 256 64 100"
  by (simp add: kernel_config_def)

text \<open>Both are ready at the end of the quantum; then the second sleeps until a signal; and it waits for a semaphore of the first.\<close>

lemma example_run:
  "\<exists>k. kernel_run 256 64 100 ({520, 100}, k) \<and> own_code k \<and> proc_needPreempt k \<and> current_process k = 100 \<and> proc_ready_list k = [520] \<and>
     sems k = (\<lambda>_. \<lparr>owner = 0, wait_queue = [], nest_count = 0\<rparr>) \<and> procs k 520 = new_proc 500 40 False (procs boot 520) \<and> procs k 100 = procs boot 100"
proof -
  let ?k0 = "proc_init 256 64 100 boot"
  have k0: "kernel_run 256 64 100 ({100}, ?k0)" by (rule kernel_run.start) (simp_all add: boot_def)
  have f: "zombie_list ?k0 = []" "proc_ready_list ?k0 = []" "current_process ?k0 = 100" "procs ?k0 = procs boot" "preempt_count ?k0 = 0"
    "proc_quantum ?k0 = 0" "sems ?k0 = (\<lambda>_. \<lparr>owner = 0, wait_queue = [], nest_count = 0\<rparr>)"
    by (simp_all add: proc_init_def boot_def Let_def upd_proc_def proc_initStruct_def fun_eq_iff)
  let ?k1 = "SCHED_ENQUEUE 520 (upd_proc 520 (new_proc 500 40 False) ?k0)"
  have "proc_new 40 500 ?k0 = Some (520, ?k1)"
    by (simp add: proc_new_def proc_freeZombies_def f proc_setup_def Let_def PROC_SIZE_def)
  from kernel_run.new [OF k0 _ _ this] have "kernel_run 256 64 100 ({520, 100}, ?k1)"
    by (simp add: f own_code_def boot_procs new_ok_def PROC_SIZE_def)
  moreover have "proc_ready_list ?k1 = [520]" by (simp add: SCHED_ENQUEUE_def f)
  moreover have "proc_quantum ?k1 = 0" by (simp add: SCHED_ENQUEUE_def f)
  moreover have "prio_proc ?k1 100 = 0" "prio_proc ?k1 520 = 0" by (simp_all add: prio_proc_def f boot_procs proc_initStruct_def)
  ultimately show ?thesis
    by (intro exI [of _ ?k1]) (simp add: f own_code_def proc_needPreempt_def proc_preemptAllowed_def prio_curr_def prio_next_def boot_procs)
qed



theorem preempt_in_turn_witness:
  "\<exists>k k'. kernel_run 256 64 100 ({520, 100}, k) \<and> proc_preempt k = Some k' \<and> current_process k' \<noteq> 100 \<and> \<not> proc_needPreempt k'"
proof -
  obtain k where k: "kernel_run 256 64 100 ({520, 100}, k)" "proc_needPreempt k" "current_process k = 100" using example_run by blast
  then show ?thesis using preempt_in_turn [OF k(1) example_config k(2)] by auto
qed

text \<open>The first takes a semaphore and is preempted; the second waits for it.\<close>

lemma example_wait:
  "\<exists>k. kernel_run 256 64 100 ({520, 100}, k) \<and> own_code k \<and> current_process k = 100 \<and> proc_preemptAllowed k \<and>
     sems k 7 = \<lparr>owner = 100, wait_queue = [520], nest_count = 1\<rparr>"
proof -
  obtain k where k: "kernel_run 256 64 100 ({520, 100}, k)" "own_code k" "proc_needPreempt k" "current_process k = 100" "proc_ready_list k = [520]"
    "sems k = (\<lambda>_. \<lparr>owner = 0, wait_queue = [], nest_count = 0\<rparr>)" "procs k 520 = new_proc 500 40 False (procs boot 520)" "procs k 100 = procs boot 100"
    using example_run by blast
  have c: "preempt_count k = 0" using k(3) by (simp add: proc_needPreempt_def proc_preemptAllowed_def)
  have "sem_obtain 7 k = Some (sem_take 7 k)"
    by (simp add: sem_obtain_def sem_request_def kernel_unfold k(6) c) (simp add: sem_take_def upd_sem_def k(6) c)
  from kernel_run.obtain_sem [OF k(1,2) this] have r1: "kernel_run 256 64 100 ({520, 100}, sem_take 7 k)" .
  let ?k2 = "proc_switchTo 520 ((sem_take 7 k)\<lparr>proc_ready_list := []\<rparr>)"
  have "proc_yield (sem_take 7 k) = Some ?k2" by (simp add: proc_yield_def sem_take_def k(5) c ASSERT_def proc_preemptAllowed_def)
  from kernel_run.yields [OF r1 _ this] have r2: "kernel_run 256 64 100 ({520, 100}, ?k2)" using k(2,4) by (simp add: own_code_def sem_take_def)
  have f: "current_process ?k2 = 520" "proc_ready_list ?k2 = [100]" "procs ?k2 = procs k" "preempt_count ?k2 = 0"
    "sems ?k2 7 = \<lparr>owner = 100, wait_queue = [], nest_count = 1\<rparr>"
    by (simp_all add: proc_switchTo_def sem_take_def SCHED_ENQUEUE_def preempt_reset_quantum_def k(4,6) c)
  let ?k3 = "proc_schedule (preempt_reset_quantum (upd_sem 7 (\<lambda>r. r\<lparr>wait_queue := wait_queue r @ [520]\<rparr>) ?k2))"
  have "upd_sem 7 g (?k2\<lparr>preempt_count := 1\<rparr>) \<lparr>preempt_count := 0\<rparr> = upd_sem 7 g ?k2" for g using f(4) by (cases ?k2) (simp add: upd_sem_def)
  then have "sem_obtain 7 ?k2 = Some ?k3" by (simp add: sem_obtain_def sem_request_def kernel_unfold f proc_switch_def proc_preemptAllowed_def)
  moreover have "own_code ?k2" using f(1,3) k(7) by (simp add: own_code_def)
  ultimately have r3: "kernel_run 256 64 100 ({520, 100}, ?k3)" using kernel_run.obtain_sem [OF r2] by blast
  have g: "current_process ?k3 = 100" "preempt_count ?k3 = 0" "procs ?k3 = procs k" "sems ?k3 7 = \<lparr>owner = 100, wait_queue = [520], nest_count = 1\<rparr>"
    by (simp_all add: proc_schedule_def f)
  have "own_code ?k3" "proc_preemptAllowed ?k3" using g(1,2,3) k(8) by (simp_all add: own_code_def boot_procs proc_preemptAllowed_def)
  with r3 g(1,4) show ?thesis by blast
qed

theorem sem_fair_lock_witness:
  "\<exists>k k'. kernel_run 256 64 100 ({520, 100}, k) \<and> sem_release 7 k = Some k' \<and> lock_of (sems k 7) = ([100, 520], 1) \<and> lock_of (sems k' 7) = ([520], 1)"
proof -
  obtain k where k: "kernel_run 256 64 100 ({520, 100}, k)" "own_code k" "current_process k = 100" "proc_preemptAllowed k"
    "sems k 7 = \<lparr>owner = 100, wait_queue = [520], nest_count = 1\<rparr>" using example_wait by blast
  then obtain k' where k': "sem_release 7 k = Some k'" using sem_succeeds(2) [OF run_inv [OF k(1) example_config], of 7] by auto
  have l: "lock_of (sems k 7) = ([100, 520], 1)" by (simp add: lock_of_def k(5))
  then have "lock_of (sems k' 7) = ([520], 1)" using sem_fair_lock [OF k(1) example_config k(2), of 7] k' by simp
  with k(1) k' l show ?thesis by blast
qed

text \<open>
  A process cannot nest a semaphore that another has come to wait for: the assertion that the queue is empty fails, although the
  semaphore is the caller's own.
\<close>

lemma nested_obtain_asserts:
  "\<exists>k. kernel_run 256 64 100 ({520, 100}, k) \<and> own_code k \<and> proc_preemptAllowed k \<and> owner (sems k 7) = current_process k \<and>
     sem_attempt 7 k \<noteq> None \<and> sem_obtain 7 k = None"
proof -
  obtain k where k: "kernel_run 256 64 100 ({520, 100}, k)" "own_code k" "current_process k = 100" "proc_preemptAllowed k"
    "sems k 7 = \<lparr>owner = 100, wait_queue = [520], nest_count = 1\<rparr>" using example_wait by blast
  have "sem_obtain 7 k = None" using k(3,5) by (simp add: sem_obtain_def sem_request_def kernel_unfold)
  moreover have "sem_attempt 7 k \<noteq> None" using sem_succeeds(1) [OF run_inv [OF k(1) example_config], of 7] k by simp
  ultimately show ?thesis using k by (intro exI [of _ k]) simp
qed

text \<open>The second process is given the processor and waits for a signal.\<close>

lemma example_sleep:
  "\<exists>k. kernel_run 256 64 100 ({520, 100}, k) \<and> sleeping 520 k \<and> sig_wait (procs k 520) = 1"
proof -
  obtain k where k: "kernel_run 256 64 100 ({520, 100}, k)" "own_code k" "proc_needPreempt k" "current_process k = 100" "proc_ready_list k = [520]"
    "sems k = (\<lambda>_. \<lparr>owner = 0, wait_queue = [], nest_count = 0\<rparr>)" "procs k 520 = new_proc 500 40 False (procs boot 520)" using example_run by blast
  have c: "preempt_count k = 0" using k(3) by (simp add: proc_needPreempt_def proc_preemptAllowed_def)
  let ?k2 = "proc_switchTo 520 (k\<lparr>proc_ready_list := []\<rparr>)"
  have "proc_yield k = Some ?k2" by (simp add: proc_yield_def k(5) c ASSERT_def proc_preemptAllowed_def)
  from kernel_run.yields [OF k(1,2) this] have r2: "kernel_run 256 64 100 ({520, 100}, ?k2)" .
  have f: "current_process ?k2 = 520" "proc_ready_list ?k2 = [100]" "procs ?k2 = procs k" "preempt_count ?k2 = 0" "sems ?k2 = sems k"
    by (simp_all add: proc_switchTo_def SCHED_ENQUEUE_def preempt_reset_quantum_def k(4) c)
  let ?k3 = "proc_schedule (preempt_reset_quantum (upd_proc 520 (\<lambda>r. r\<lparr>sig_wait := 1, resume_at := SigWait 1\<rparr>) ?k2))"
  have "sig_waitSignal 1 ?k2 = Some (0, ?k3)"
    by (simp add: sig_waitSignal_def sig_wait_loop_def kernel_unfold proc_switch_def proc_preemptAllowed_def f k(7) proc_initStruct_def)
  moreover have "own_code ?k2" using f(1,3) k(7) by (simp add: own_code_def)
  ultimately have r3: "kernel_run 256 64 100 ({520, 100}, ?k3)" using kernel_run.wait [OF r2, of 1] by simp
  have g: "current_process ?k3 = 100" "proc_ready_list ?k3 = []" "sig_wait (procs ?k3 520) = 1" "sems ?k3 = sems k"
    by (simp_all add: proc_schedule_def f)
  obtain pl where pl: "dom pl = {520, 100}" "placed pl ?k3" "sigs_ok pl ?k3" using run_inv [OF r3 example_config] by (auto simp: kernel_inv_def)
  have "pl 520 \<noteq> Some Zombie" using pl(3) g(3) by (auto simp: sigs_ok_def sig_fine_def)
  then have "520 \<notin> set (zombie_list ?k3)" using pl(2) by (simp add: placed_def)
  then have "sleeping 520 ?k3" by (simp add: sleeping_def g(1,2,4) k(6))
  with r3 g(3) show ?thesis by blast
qed


text \<open>
  In \<^verbatim>\<open>sem_obtain\<close> a process that has joined the queue permits preemption before it calls \<^verbatim>\<open>proc_switch\<close>. An interrupt there that
  finds the quantum used up, or a process of higher priority ready, preempts it: it is put into the ready list with the link
  that is in the queue.
\<close>

lemma obtain_race:
  assumes "current_process k \<noteq> 0" "sem_request s k = Some (True, k1)" "proc_needPreempt k1"
  shows "\<exists>k2. proc_preempt k1 = Some k2 \<and> current_process k \<in> set (wait_queue (sems k2 s)) \<and>
    current_process k \<in> insert (current_process k2) (set (proc_ready_list k2))"
proof -
  have k1: "current_process k1 = current_process k" "current_process k \<in> set (wait_queue (sems k1 s))"
    using assms(2) by (auto simp: sem_request_def kernel_unfold split: if_splits)
  let ?k = "SCHED_ENQUEUE (current_process k1) k1"
  have "proc_preempt k1 = Some (proc_schedule (preempt_reset_quantum ?k))" using assms(1) k1 by (simp add: proc_preempt_def ASSERT_def)
  moreover have "sems (proc_schedule (preempt_reset_quantum ?k)) = sems k1" by (simp add: proc_schedule_def split: list.splits)
  moreover have m: "current_process k \<in> set (proc_ready_list ?k)" using k1 by simp
  have "current_process k \<in> insert (current_process (proc_schedule (preempt_reset_quantum ?k))) (set (proc_ready_list (proc_schedule (preempt_reset_quantum ?k))))"
    using m by (cases "proc_ready_list ?k") (auto simp: proc_schedule_def simp del: enqueue_set)
  ultimately show ?thesis using k1 by simp
qed

end
