(* ===== verification/Kblock.thy ===== *)
theory Kblock
  imports Aprs_Prelude "HOL-Library.Monad_Syntax"
begin

text \<open>
  Block devices, \<^verbatim>\<open>bertos/io/kblock.[ch]\<close>, with the device in memory of \<^verbatim>\<open>kblock_ram.c\<close>. A device has a table of methods, where
  \<open>None\<close> is a null pointer; it may have a buffer for one block, its own or one in memory, which is written back when
  another block is needed. The locale \<open>block_device\<close> says what the methods promise; in it the buffer is shown to be invisible: the
  operations are those of an array of blocks (\<open>content\<close>). A call that fails an assertion, calls a null pointer or reads or writes
  outside the memory gives \<open>None\<close>; of the results \<open>0\<close> and \<^verbatim>\<open>EOF\<close> the first is \<open>True\<close>.
\<close>

section \<open>Devices\<close>

record 'd KBlock =
  kb_flags :: u16
  kb_buf :: bytes
  blk_start :: u32
  curr_blk :: u32
  blk_size :: u16
  blk_cnt :: u32
  dev :: 'd

record 'd KBlockVTable =
  readDirect :: "('d KBlock \<Rightarrow> u32 \<Rightarrow> u16 \<Rightarrow> u16 \<Rightarrow> (bytes \<times> 'd KBlock) option) option"
  writeDirect :: "('d KBlock \<Rightarrow> u32 \<Rightarrow> bytes \<Rightarrow> u16 \<Rightarrow> (u16 \<times> 'd KBlock) option) option"
  readBuf :: "('d KBlock \<Rightarrow> u16 \<Rightarrow> u16 \<Rightarrow> (bytes \<times> 'd KBlock) option) option"
  writeBuf :: "('d KBlock \<Rightarrow> bytes \<Rightarrow> u16 \<Rightarrow> (u16 \<times> 'd KBlock) option) option"
  vt_load :: "('d KBlock \<Rightarrow> u32 \<Rightarrow> (bool \<times> 'd KBlock) option) option"
  vt_store :: "('d KBlock \<Rightarrow> u32 \<Rightarrow> (bool \<times> 'd KBlock) option) option"

definition KB_BUFFERED :: u16 where "KB_BUFFERED = 1"
definition KB_CACHE_DIRTY :: u16 where "KB_CACHE_DIRTY = 2"
definition KB_PARTIAL_WRITE :: u16 where "KB_PARTIAL_WRITE = 4"

definition kblock_buffered :: "'d KBlock \<Rightarrow> bool" where
  "kblock_buffered b \<longleftrightarrow> kb_flags b AND KB_BUFFERED \<noteq> 0"

definition kblock_cacheDirty :: "'d KBlock \<Rightarrow> bool option" where
  "kblock_cacheDirty b = do { ASSERT (kblock_buffered b); Some (kb_flags b AND KB_CACHE_DIRTY \<noteq> 0) }"

definition kblock_partialWrite :: "'d KBlock \<Rightarrow> bool" where
  "kblock_partialWrite b \<longleftrightarrow> kb_flags b AND KB_PARTIAL_WRITE \<noteq> 0"

text \<open>The size of what is written is that of the list.\<close>

abbreviation sizeof :: "bytes \<Rightarrow> u16" where "sizeof bs \<equiv> word_of_nat (length bs)"

section \<open>Operations\<close>

definition kblock_readDirect :: "'d KBlockVTable \<Rightarrow> 'd KBlock \<Rightarrow> u32 \<Rightarrow> u16 \<Rightarrow> u16 \<Rightarrow> (bytes \<times> 'd KBlock) option" where
  "kblock_readDirect vt b index off n =
     do { f \<leftarrow> readDirect vt; ASSERT (index < blk_cnt b); f b (blk_start b + index) off n }"

definition kblock_writeDirect :: "'d KBlockVTable \<Rightarrow> 'd KBlock \<Rightarrow> u32 \<Rightarrow> bytes \<Rightarrow> u16 \<Rightarrow> (u16 \<times> 'd KBlock) option" where
  "kblock_writeDirect vt b index bs off =
     do { f \<leftarrow> writeDirect vt; ASSERT (index < blk_cnt b); f b (blk_start b + index) bs off }"

definition kblock_readBuf :: "'d KBlockVTable \<Rightarrow> 'd KBlock \<Rightarrow> u16 \<Rightarrow> u16 \<Rightarrow> (bytes \<times> 'd KBlock) option" where
  "kblock_readBuf vt b off n = do { f \<leftarrow> readBuf vt; ASSERT (off + n \<le> blk_size b); f b off n }"

definition kblock_writeBuf :: "'d KBlockVTable \<Rightarrow> 'd KBlock \<Rightarrow> bytes \<Rightarrow> u16 \<Rightarrow> (u16 \<times> 'd KBlock) option" where
  "kblock_writeBuf vt b bs off = do { f \<leftarrow> writeBuf vt; ASSERT (off + sizeof bs \<le> blk_size b); f b bs off }"

definition kblock_load :: "'d KBlockVTable \<Rightarrow> 'd KBlock \<Rightarrow> u32 \<Rightarrow> (bool \<times> 'd KBlock) option" where
  "kblock_load vt b index = do { f \<leftarrow> vt_load vt; ASSERT (index < blk_cnt b); f b (blk_start b + index) }"

definition kblock_store :: "'d KBlockVTable \<Rightarrow> 'd KBlock \<Rightarrow> u32 \<Rightarrow> (bool \<times> 'd KBlock) option" where
  "kblock_store vt b index = do { f \<leftarrow> vt_store vt; ASSERT (index < blk_cnt b); f b (blk_start b + index) }"

definition kblock_setDirty :: "bool \<Rightarrow> 'd KBlock \<Rightarrow> 'd KBlock" where
  "kblock_setDirty dirty b =
     b\<lparr>kb_flags := (if dirty then kb_flags b OR KB_CACHE_DIRTY else kb_flags b AND NOT KB_CACHE_DIRTY)\<rparr>"

definition kblock_read :: "'d KBlockVTable \<Rightarrow> 'd KBlock \<Rightarrow> u32 \<Rightarrow> u16 \<Rightarrow> u16 \<Rightarrow> (bytes \<times> 'd KBlock) option" where
  "kblock_read vt b idx off n =
     do { ASSERT (off + n \<le> blk_size b);
          if kblock_buffered b \<and> idx = curr_blk b then kblock_readBuf vt b off n else kblock_readDirect vt b idx off n }"

definition kblock_flush :: "'d KBlockVTable \<Rightarrow> 'd KBlock \<Rightarrow> (bool \<times> 'd KBlock) option" where
  "kblock_flush vt b =
     (if \<not> kblock_buffered b then Some (True, b)
      else do { dirty \<leftarrow> kblock_cacheDirty b;
                if dirty then do { (ok, b) \<leftarrow> kblock_store vt b (curr_blk b);
                                   Some (if ok then (True, kblock_setDirty False b) else (False, b)) }
                else Some (True, b) })"

definition kblock_loadPage :: "'d KBlockVTable \<Rightarrow> 'd KBlock \<Rightarrow> u32 \<Rightarrow> (bool \<times> 'd KBlock) option" where
  "kblock_loadPage vt b idx =
     (if idx \<noteq> curr_blk b then
        do { (ok, b) \<leftarrow> kblock_flush vt b;
             if \<not> ok then Some (False, b)
             else do { (ok, b) \<leftarrow> kblock_load vt b idx;
                       Some (if ok then (True, b\<lparr>curr_blk := idx\<rparr>) else (False, b)) } }
      else Some (True, b))"

definition kblock_trim :: "'d KBlockVTable \<Rightarrow> 'd KBlock \<Rightarrow> u32 \<Rightarrow> u32 \<Rightarrow> (bool \<times> 'd KBlock) option" where
  "kblock_trim vt b start count =
     do { ASSERT (start + count \<le> blk_cnt b);
          (ok, b) \<leftarrow> (if kblock_buffered b then kblock_loadPage vt b start else Some (True, b));
          Some (if ok then (True, b\<lparr>blk_start := blk_start b + start, curr_blk := 0, blk_cnt := count\<rparr>) else (False, b)) }"

definition kblock_write :: "'d KBlockVTable \<Rightarrow> 'd KBlock \<Rightarrow> u32 \<Rightarrow> bytes \<Rightarrow> u16 \<Rightarrow> (u16 \<times> 'd KBlock) option" where
  "kblock_write vt b idx bs off =
     do { ASSERT (idx < blk_cnt b);
          ASSERT (off + sizeof bs \<le> blk_size b);
          if kblock_buffered b then
            do { (ok, b) \<leftarrow> kblock_loadPage vt b idx;
                 if \<not> ok then Some (0, b) else kblock_writeBuf vt (kblock_setDirty True b) bs off }
          else do { ASSERT (off = 0 \<and> sizeof bs = blk_size b \<or> kblock_partialWrite b); kblock_writeDirect vt b idx bs off } }"

text \<open>Sixteen bytes at a time: \<open>left\<close> is what is still to be copied.\<close>

function copy_parts :: "'d KBlockVTable \<Rightarrow> u32 \<Rightarrow> u32 \<Rightarrow> u16 \<Rightarrow> u16 \<Rightarrow> 'd KBlock \<Rightarrow> (bool \<times> 'd KBlock) option" where
  "copy_parts vt src dest left off b =
     (if left = 0 then Some (True, b)
      else let n = min 16 left in
        do { (bs, b) \<leftarrow> kblock_readDirect vt b src off n;
             if sizeof bs \<noteq> n then Some (False, b)
             else do { (len, b) \<leftarrow> kblock_writeDirect vt b dest bs off;
                       if len \<noteq> n then Some (False, b) else copy_parts vt src dest (left - n) (off + n) b } })"
  by pat_completeness auto

termination
  by (relation "measure (\<lambda>(vt, src, dest, left, off, b). unat left)") (auto simp: min_def unat_sub word_le_nat_alt word_gt_0 unat_gt_0)

declare copy_parts.simps [simp del]

definition kblock_copy :: "'d KBlockVTable \<Rightarrow> 'd KBlock \<Rightarrow> u32 \<Rightarrow> u32 \<Rightarrow> (bool \<times> 'd KBlock) option" where
  "kblock_copy vt b src dest =
     do { ASSERT (src < blk_cnt b);
          ASSERT (dest < blk_cnt b);
          if kblock_buffered b then
            do { (ok, b) \<leftarrow> kblock_loadPage vt b src;
                 Some (if ok then (True, kblock_setDirty True (b\<lparr>curr_blk := dest\<rparr>)) else (False, b)) }
          else if kblock_partialWrite b then copy_parts vt src dest (blk_size b) 0 b
          else None }"

text \<open>The buffer in memory, with the physical number of the block as the methods have it.\<close>

definition kblock_swLoad :: "'d KBlockVTable \<Rightarrow> 'd KBlock \<Rightarrow> u32 \<Rightarrow> (bool \<times> 'd KBlock) option" where
  "kblock_swLoad vt b index =
     do { ASSERT (blk_start b \<le> index);
          (bs, b) \<leftarrow> kblock_readDirect vt b (index - blk_start b) 0 (blk_size b);
          Some (sizeof bs = blk_size b, b\<lparr>kb_buf := mem_write (kb_buf b) 0 bs\<rparr>) }"

definition kblock_swStore :: "'d KBlockVTable \<Rightarrow> 'd KBlock \<Rightarrow> u32 \<Rightarrow> (bool \<times> 'd KBlock) option" where
  "kblock_swStore vt b index =
     do { ASSERT (blk_start b \<le> index);
          (len, b) \<leftarrow> kblock_writeDirect vt b (index - blk_start b) (take (unat (blk_size b)) (kb_buf b)) 0;
          Some (len = blk_size b, b) }"

definition kblock_swReadBuf :: "'d KBlock \<Rightarrow> u16 \<Rightarrow> u16 \<Rightarrow> (bytes \<times> 'd KBlock) option" where
  "kblock_swReadBuf b off n =
     do { ASSERT (off + n \<le> blk_size b);
          if unat off + unat n \<le> length (kb_buf b) then Some (take (unat n) (drop (unat off) (kb_buf b)), b) else None }"

definition kblock_swWriteBuf :: "'d KBlock \<Rightarrow> bytes \<Rightarrow> u16 \<Rightarrow> (u16 \<times> 'd KBlock) option" where
  "kblock_swWriteBuf b bs off =
     do { ASSERT (off + sizeof bs \<le> blk_size b);
          if unat off + length bs \<le> length (kb_buf b) then Some (sizeof bs, b\<lparr>kb_buf := mem_write (kb_buf b) (unat off) bs\<rparr>) else None }"

section \<open>Blocks in memory\<close>

type_synonym KBlockRam = "bytes KBlock"

definition ram_addr :: "KBlockRam \<Rightarrow> u32 \<Rightarrow> nat" where
  "ram_addr b index = unat index * unat (blk_size b)"

definition kblockram_load :: "KBlockRam \<Rightarrow> u32 \<Rightarrow> (bool \<times> KBlockRam) option" where
  "kblockram_load b index =
     (if ram_addr b index + unat (blk_size b) \<le> length (dev b)
      then Some (True, b\<lparr>kb_buf := mem_write (kb_buf b) 0 (take (unat (blk_size b)) (drop (ram_addr b index) (dev b)))\<rparr>) else None)"

definition kblockram_store :: "KBlockRam \<Rightarrow> u32 \<Rightarrow> (bool \<times> KBlockRam) option" where
  "kblockram_store b index =
     (if ram_addr b index + unat (blk_size b) \<le> length (dev b)
      then Some (True, b\<lparr>dev := mem_write (dev b) (ram_addr b index) (take (unat (blk_size b)) (kb_buf b))\<rparr>) else None)"

definition kblockram_readBuf :: "KBlockRam \<Rightarrow> u16 \<Rightarrow> u16 \<Rightarrow> (bytes \<times> KBlockRam) option" where
  "kblockram_readBuf b off n =
     (if unat off + unat n \<le> length (kb_buf b) then Some (take (unat n) (drop (unat off) (kb_buf b)), b) else None)"

definition kblockram_readDirect :: "KBlockRam \<Rightarrow> u32 \<Rightarrow> u16 \<Rightarrow> u16 \<Rightarrow> (bytes \<times> KBlockRam) option" where
  "kblockram_readDirect b index off n =
     (if ram_addr b index + unat off + unat n \<le> length (dev b)
      then Some (take (unat n) (drop (ram_addr b index + unat off) (dev b)), b) else None)"

definition kblockram_writeBuf :: "KBlockRam \<Rightarrow> bytes \<Rightarrow> u16 \<Rightarrow> (u16 \<times> KBlockRam) option" where
  "kblockram_writeBuf b bs off =
     (if unat off + length bs \<le> length (kb_buf b) then Some (sizeof bs, b\<lparr>kb_buf := mem_write (kb_buf b) (unat off) bs\<rparr>) else None)"

definition kblockram_writeDirect :: "KBlockRam \<Rightarrow> u32 \<Rightarrow> bytes \<Rightarrow> u16 \<Rightarrow> (u16 \<times> KBlockRam) option" where
  "kblockram_writeDirect b index bs off =
     do { ASSERT (index < blk_cnt b);
          if ram_addr b index + unat off + length bs \<le> length (dev b)
          then Some (sizeof bs, b\<lparr>dev := mem_write (dev b) (ram_addr b index + unat off) bs\<rparr>) else None }"

definition kblockram_hwbuffered_vt :: "bytes KBlockVTable" where
  "kblockram_hwbuffered_vt =
     \<lparr>readDirect = Some kblockram_readDirect, writeDirect = None, readBuf = Some kblockram_readBuf, writeBuf = Some kblockram_writeBuf,
      vt_load = Some kblockram_load, vt_store = Some kblockram_store\<rparr>"

definition kblockram_unbuffered_vt :: "bytes KBlockVTable" where
  "kblockram_unbuffered_vt =
     \<lparr>readDirect = Some kblockram_readDirect, writeDirect = Some kblockram_writeDirect, readBuf = None, writeBuf = None,
      vt_load = None, vt_store = None\<rparr>"

text \<open>The buffer in memory is filled and written back with the direct methods, which are those of the table without a buffer.\<close>

definition kblockram_swbuffered_vt :: "bytes KBlockVTable" where
  "kblockram_swbuffered_vt =
     \<lparr>readDirect = Some kblockram_readDirect, writeDirect = Some kblockram_writeDirect,
      readBuf = Some kblock_swReadBuf, writeBuf = Some kblock_swWriteBuf,
      vt_load = Some (kblock_swLoad kblockram_unbuffered_vt), vt_store = Some (kblock_swStore kblockram_unbuffered_vt)\<rparr>"

text \<open>On a memory of \<open>n\<close> bytes, of which a buffered device takes the first block for its buffer.\<close>

definition kblockram_init :: "bytes \<Rightarrow> u16 \<Rightarrow> u16 \<Rightarrow> bool \<Rightarrow> bool \<Rightarrow> (bytes KBlockVTable \<times> KBlockRam) option" where
  "kblockram_init m n block_size buffered hwbuffered =
     do { ASSERT (n \<noteq> 0);
          ASSERT (block_size \<noteq> 0);
          if buffered then
            do { (_, b) \<leftarrow> kblockram_load \<lparr>kb_flags = KB_PARTIAL_WRITE OR KB_BUFFERED, kb_buf = take (unat block_size) m, blk_start = 0, curr_blk = 0,
                   blk_size = block_size, blk_cnt = ucast (n div block_size - 1), dev = drop (unat block_size) m\<rparr> 0;
                 Some (if hwbuffered then kblockram_hwbuffered_vt else kblockram_swbuffered_vt, b) }
          else Some (kblockram_unbuffered_vt, \<lparr>kb_flags = KB_PARTIAL_WRITE, kb_buf = [], blk_start = 0, curr_blk = 0,
                 blk_size = block_size, blk_cnt = ucast (n div block_size), dev = m\<rparr>) }"

section \<open>What the methods promise\<close>

definition kb_dirty :: "'d KBlock \<Rightarrow> bool" where
  "kb_dirty b \<longleftrightarrow> kb_flags b AND KB_CACHE_DIRTY \<noteq> 0"

text \<open>What a call does not change: the window of the device that is used, the kind of the device, the device's size.\<close>

definition same_window :: "'d KBlock \<Rightarrow> 'd KBlock \<Rightarrow> bool" where
  "same_window b b' \<longleftrightarrow> blk_start b' = blk_start b \<and> blk_cnt b' = blk_cnt b \<and> blk_size b' = blk_size b \<and>
     kblock_buffered b' = kblock_buffered b \<and> kblock_partialWrite b' = kblock_partialWrite b"

lemma same_window_refl [simp]: "same_window b b"
  by (simp add: same_window_def)

lemma same_window_trans [trans]: "same_window a b \<Longrightarrow> same_window b c \<Longrightarrow> same_window a c"
  by (simp add: same_window_def)

lemma flags_setDirty [simp]:
  "kblock_buffered (kblock_setDirty d b) = kblock_buffered b" "kblock_partialWrite (kblock_setDirty d b) = kblock_partialWrite b"
  "kb_dirty (kblock_setDirty d b) = d" "same_window b (kblock_setDirty d b)"
proof -
  have "(kb_flags b OR 2) AND 1 = kb_flags b AND 1" "(kb_flags b OR 2) AND 4 = kb_flags b AND 4" "(kb_flags b OR 2) AND 2 = 2"
    "(kb_flags b AND NOT 2) AND 1 = kb_flags b AND 1" "(kb_flags b AND NOT 2) AND 4 = kb_flags b AND 4" "(kb_flags b AND NOT 2) AND 2 = 0"
    by (simp_all add: bit.conj_disj_distrib2 and.assoc)
  then show "kblock_buffered (kblock_setDirty d b) = kblock_buffered b" "kblock_partialWrite (kblock_setDirty d b) = kblock_partialWrite b"
    "kb_dirty (kblock_setDirty d b) = d" "same_window b (kblock_setDirty d b)"
    by (auto simp: kblock_setDirty_def kblock_buffered_def kblock_partialWrite_def kb_dirty_def KB_BUFFERED_def KB_CACHE_DIRTY_def KB_PARTIAL_WRITE_def same_window_def)
qed

lemma sel_setDirty [simp]:
  "kb_buf (kblock_setDirty d b) = kb_buf b" "blk_start (kblock_setDirty d b) = blk_start b" "curr_blk (kblock_setDirty d b) = curr_blk b"
  "blk_size (kblock_setDirty d b) = blk_size b" "blk_cnt (kblock_setDirty d b) = blk_cnt b" "dev (kblock_setDirty d b) = dev b"
  by (simp_all add: kblock_setDirty_def)

lemma flags_upd [simp]:
  "kblock_buffered (b\<lparr>kb_buf := x\<rparr>) = kblock_buffered b" "kblock_buffered (b\<lparr>curr_blk := i\<rparr>) = kblock_buffered b" "kblock_buffered (b\<lparr>dev := d\<rparr>) = kblock_buffered b"
  "kb_dirty (b\<lparr>kb_buf := x\<rparr>) = kb_dirty b" "kb_dirty (b\<lparr>curr_blk := i\<rparr>) = kb_dirty b" "kb_dirty (b\<lparr>dev := d\<rparr>) = kb_dirty b"
  "same_window b (b\<lparr>kb_buf := x\<rparr>)" "same_window b (b\<lparr>curr_blk := i\<rparr>)" "same_window b (b\<lparr>dev := d\<rparr>)"
  by (simp_all add: kblock_buffered_def kb_dirty_def same_window_def kblock_partialWrite_def)

text \<open>
  A device is a sequence of \<open>nblk\<close> blocks \<open>blk\<close>; what a client sees of block \<open>i\<close> of its window is in the buffer or on the device. A
  buffer that is not dirty agrees with the device; \<open>wr_ok\<close> says which blocks the write methods accept.
\<close>

definition kb_phys :: "(u16 \<Rightarrow> 'd \<Rightarrow> nat \<Rightarrow> bytes) \<Rightarrow> 'd KBlock \<Rightarrow> nat \<Rightarrow> bytes" where
  "kb_phys blk b i = blk (blk_size b) (dev b) (unat (blk_start b) + i)"

definition kb_content :: "(u16 \<Rightarrow> 'd \<Rightarrow> nat \<Rightarrow> bytes) \<Rightarrow> 'd KBlock \<Rightarrow> nat \<Rightarrow> bytes" where
  "kb_content blk b i = (if kblock_buffered b \<and> i = unat (curr_blk b) then kb_buf b else kb_phys blk b i)"

definition kb_valid :: "(u16 \<Rightarrow> 'd \<Rightarrow> nat \<Rightarrow> bytes) \<Rightarrow> (u16 \<Rightarrow> 'd \<Rightarrow> nat) \<Rightarrow> ('d KBlock \<Rightarrow> nat \<Rightarrow> bool) \<Rightarrow> bool \<Rightarrow> 'd KBlock \<Rightarrow> bool" where
  "kb_valid blk nblk wr_ok buffered b \<longleftrightarrow> kblock_buffered b = buffered \<and> unat (blk_start b) + unat (blk_cnt b) \<le> nblk (blk_size b) (dev b) \<and>
     (\<forall>i < unat (blk_cnt b). wr_ok b (unat (blk_start b) + i)) \<and>
     (buffered \<longrightarrow> length (kb_buf b) = unat (blk_size b) \<and> unat (curr_blk b) < unat (blk_cnt b) \<and>
        (\<not> kb_dirty b \<longrightarrow> kb_buf b = kb_phys blk b (unat (curr_blk b))))"

text \<open>The methods have physical block numbers.\<close>

locale block_device =
  fixes vt :: "'d KBlockVTable"
    and blk :: "u16 \<Rightarrow> 'd \<Rightarrow> nat \<Rightarrow> bytes"
    and nblk :: "u16 \<Rightarrow> 'd \<Rightarrow> nat"
    and wr_ok :: "'d KBlock \<Rightarrow> nat \<Rightarrow> bool"
    and buffered :: bool
  assumes size_law: "j < nblk bs d \<Longrightarrow> length (blk bs d j) = unat bs"
    and count_law: "nblk bs d < 2 ^ 32"
    and readDirect_law: "unat i < nblk (blk_size b) (dev b) \<Longrightarrow> unat off + unat n \<le> unat (blk_size b) \<Longrightarrow>
      \<exists>f. readDirect vt = Some f \<and> f b i off n = Some (take (unat n) (drop (unat off) (blk (blk_size b) (dev b) (unat i))), b)"
    and writeDirect_law: "\<not> buffered \<Longrightarrow> unat i < nblk (blk_size b) (dev b) \<Longrightarrow> wr_ok b (unat i) \<Longrightarrow> unat off + length x \<le> unat (blk_size b) \<Longrightarrow>
      \<exists>f d. writeDirect vt = Some f \<and> f b i x off = Some (sizeof x, b\<lparr>dev := d\<rparr>) \<and> nblk (blk_size b) d = nblk (blk_size b) (dev b) \<and>
        blk (blk_size b) d = (blk (blk_size b) (dev b))(unat i := mem_write (blk (blk_size b) (dev b) (unat i)) (unat off) x)"
    and readBuf_law: "buffered \<Longrightarrow> length (kb_buf b) = unat (blk_size b) \<Longrightarrow> unat off + unat n \<le> unat (blk_size b) \<Longrightarrow>
      \<exists>f. readBuf vt = Some f \<and> f b off n = Some (take (unat n) (drop (unat off) (kb_buf b)), b)"
    and writeBuf_law: "buffered \<Longrightarrow> length (kb_buf b) = unat (blk_size b) \<Longrightarrow> unat off + length x \<le> unat (blk_size b) \<Longrightarrow>
      \<exists>f. writeBuf vt = Some f \<and> f b x off = Some (sizeof x, b\<lparr>kb_buf := mem_write (kb_buf b) (unat off) x\<rparr>)"
    and load_law: "buffered \<Longrightarrow> length (kb_buf b) = unat (blk_size b) \<Longrightarrow> unat i < nblk (blk_size b) (dev b) \<Longrightarrow>
      blk_start b \<le> i \<Longrightarrow> i - blk_start b < blk_cnt b \<Longrightarrow>
      \<exists>f. vt_load vt = Some f \<and> f b i = Some (True, b\<lparr>kb_buf := blk (blk_size b) (dev b) (unat i)\<rparr>)"
    and store_law: "buffered \<Longrightarrow> length (kb_buf b) = unat (blk_size b) \<Longrightarrow> unat i < nblk (blk_size b) (dev b) \<Longrightarrow> wr_ok b (unat i) \<Longrightarrow>
      blk_start b \<le> i \<Longrightarrow> i - blk_start b < blk_cnt b \<Longrightarrow>
      \<exists>f d. vt_store vt = Some f \<and> f b i = Some (True, b\<lparr>dev := d\<rparr>) \<and> nblk (blk_size b) d = nblk (blk_size b) (dev b) \<and>
        blk (blk_size b) d = (blk (blk_size b) (dev b))(unat i := kb_buf b)"
    and wr_ok_law: "wr_ok b j \<Longrightarrow> blk_cnt b' = blk_cnt b \<Longrightarrow> wr_ok b' j"
begin

abbreviation phys :: "'d KBlock \<Rightarrow> nat \<Rightarrow> bytes" where "phys \<equiv> kb_phys blk"
abbreviation content :: "'d KBlock \<Rightarrow> nat \<Rightarrow> bytes" where "content \<equiv> kb_content blk"
abbreviation valid :: "'d KBlock \<Rightarrow> bool" where "valid \<equiv> kb_valid blk nblk wr_ok buffered"

lemma phys_number:
  assumes "valid b" "index < blk_cnt b"
  shows "unat (blk_start b + index) = unat (blk_start b) + unat index" "unat (blk_start b) + unat index < nblk (blk_size b) (dev b)"
    "blk_start b \<le> blk_start b + index"
proof -
  have "unat (blk_start b) + unat index < nblk (blk_size b) (dev b)" using assms by (simp add: kb_valid_def word_less_nat_alt)
  moreover have "nblk (blk_size b) (dev b) < 2 ^ 32" by (rule count_law)
  ultimately show "unat (blk_start b + index) = unat (blk_start b) + unat index" "unat (blk_start b) + unat index < nblk (blk_size b) (dev b)"
    by (simp_all add: unat_word_ariths)
  then show "blk_start b \<le> blk_start b + index" by (simp add: word_le_nat_alt)
qed

lemma fits_word: "unat off + unat (n :: u16) \<le> unat m \<Longrightarrow> off + n \<le> (m :: u16)"
  using unat_u16_less [of m] by (simp add: word_le_nat_alt unat_word_ariths)

lemma sizeof_unat: "length x \<le> unat (m :: u16) \<Longrightarrow> unat (sizeof x) = length x"
proof -
  assume "length x \<le> unat m"
  then have "length x < 65536" using unat_u16_less [of m] by linarith
  then show ?thesis by (simp add: unat_of_nat)
qed

lemma content_size: "valid b \<Longrightarrow> i < unat (blk_cnt b) \<Longrightarrow> length (content b i) = unat (blk_size b)"
  by (auto simp: kb_content_def kb_phys_def kb_valid_def intro!: size_law)

lemma read_direct:
  assumes "valid b" "idx < blk_cnt b" "unat off + unat n \<le> unat (blk_size b)"
  shows "kblock_readDirect vt b idx off n = Some (take (unat n) (drop (unat off) (phys b (unat idx))), b)"
  using readDirect_law [of "blk_start b + idx" b off n] phys_number [OF assms(1,2)] assms(2,3)
  by (auto simp: kblock_readDirect_def ASSERT_def kb_phys_def)

text \<open>Reading.\<close>

lemma read_content:
  assumes "valid b" "idx < blk_cnt b" "unat off + unat n \<le> unat (blk_size b)"
  shows "kblock_read vt b idx off n = Some (take (unat n) (drop (unat off) (content b (unat idx))), b)"
proof (cases "kblock_buffered b \<and> idx = curr_blk b")
  case True
  then have "length (kb_buf b) = unat (blk_size b)" "buffered" using assms(1) by (auto simp: kb_valid_def)
  with True readBuf_law [of b off n] fits_word [OF assms(3)] assms(3) show ?thesis
    by (auto simp: kblock_read_def kblock_readBuf_def ASSERT_def kb_content_def)
next
  case False
  then have "content b (unat idx) = phys b (unat idx)" by (auto simp: kb_content_def word_unat_eq_iff)
  with False read_direct [OF assms] fits_word [OF assms(3)] show ?thesis by (auto simp: kblock_read_def ASSERT_def)
qed

text \<open>Writing back.\<close>

lemma flush_content:
  assumes v: "valid b"
  shows "\<exists>b'. kblock_flush vt b = Some (True, b') \<and> valid b' \<and> same_window b b' \<and> curr_blk b' = curr_blk b \<and> kb_buf b' = kb_buf b \<and>
    content b' = content b \<and> (buffered \<longrightarrow> \<not> kb_dirty b') \<and> (\<forall>i < unat (blk_cnt b). phys b' i = content b i)"
proof (cases "buffered \<and> kb_dirty b")
  case False
  have kb: "kblock_buffered b = buffered" using v by (simp add: kb_valid_def)
  have "kblock_flush vt b = Some (True, b)" using False kb by (auto simp: kblock_flush_def kblock_cacheDirty_def ASSERT_def kb_dirty_def)
  moreover have "\<forall>i < unat (blk_cnt b). phys b i = content b i" using False v by (auto simp: kb_content_def kb_valid_def)
  ultimately show ?thesis using v False by (intro exI [of _ b]) auto
next
  case True
  have bl: "length (kb_buf b) = unat (blk_size b)" "unat (curr_blk b) < unat (blk_cnt b)" "kblock_buffered b" using v True by (auto simp: kb_valid_def)
  then have cb: "curr_blk b < blk_cnt b" by (simp add: word_less_nat_alt)
  note pn = phys_number [OF v cb]
  have wo: "wr_ok b (unat (blk_start b + curr_blk b))" using v bl(2) pn(1) by (simp add: kb_valid_def)
  obtain f d where f: "vt_store vt = Some f" "f b (blk_start b + curr_blk b) = Some (True, b\<lparr>dev := d\<rparr>)" "nblk (blk_size b) d = nblk (blk_size b) (dev b)"
    "blk (blk_size b) d = (blk (blk_size b) (dev b))(unat (blk_start b + curr_blk b) := kb_buf b)"
    using store_law [of b "blk_start b + curr_blk b"] True bl(1) pn wo cb by auto
  let ?b = "kblock_setDirty False (b\<lparr>dev := d\<rparr>)"
  have fl: "kblock_flush vt b = Some (True, ?b)"
    using f(1,2) cb bl(3) True by (simp add: kblock_flush_def kblock_cacheDirty_def kblock_store_def ASSERT_def kb_dirty_def)
  have ph: "phys ?b i = (if i = unat (curr_blk b) then kb_buf b else phys b i)" for i using f(4) pn(1) by (simp add: kb_phys_def)
  have "valid ?b" using v f(3) bl True ph wr_ok_law [of b _ ?b] by (auto simp: kb_valid_def)
  moreover have "content ?b = content b" using bl(3) ph by (auto simp: kb_content_def)
  moreover have "\<forall>i < unat (blk_cnt b). phys ?b i = content b i" using ph bl(3) by (simp add: kb_content_def)
  ultimately show ?thesis using fl same_window_trans [OF flags_upd(9) flags_setDirty(4)] by (intro exI [of _ ?b]) simp
qed

lemma loadPage_content:
  assumes v: "valid b" and i: "idx < blk_cnt b" and bf: "buffered"
  shows "\<exists>b'. kblock_loadPage vt b idx = Some (True, b') \<and> valid b' \<and> same_window b b' \<and> curr_blk b' = idx \<and>
    (\<forall>i < unat (blk_cnt b). content b' i = content b i) \<and> (idx \<noteq> curr_blk b \<longrightarrow> (\<forall>i < unat (blk_cnt b). phys b' i = content b i)) \<and>
    (idx = curr_blk b \<longrightarrow> b' = b)"
proof (cases "idx = curr_blk b")
  case True
  then show ?thesis using v by (intro exI [of _ b]) (simp add: kblock_loadPage_def)
next
  case False
  obtain b1 where b1: "kblock_flush vt b = Some (True, b1)" "valid b1" "same_window b b1" "content b1 = content b" "\<not> kb_dirty b1"
    "\<forall>i < unat (blk_cnt b). phys b1 i = content b i" "length (kb_buf b1) = unat (blk_size b1)"
    using flush_content [OF v] bf by (auto simp: kb_valid_def)
  have i1: "idx < blk_cnt b1" using i b1(3) by (simp add: same_window_def)
  note pn = phys_number [OF b1(2) i1]
  have "\<exists>f. vt_load vt = Some f \<and> f b1 (blk_start b1 + idx) = Some (True, b1\<lparr>kb_buf := phys b1 (unat idx)\<rparr>)"
    using load_law [of b1 "blk_start b1 + idx"] bf b1(7) pn i1 by (simp add: kb_phys_def)
  then have "kblock_loadPage vt b idx = Some (True, b1\<lparr>kb_buf := phys b1 (unat idx), curr_blk := idx\<rparr>)"
    using False b1(1) i1 by (auto simp: kblock_loadPage_def kblock_load_def ASSERT_def)
  moreover let ?b = "b1\<lparr>kb_buf := phys b1 (unat idx), curr_blk := idx\<rparr>"
  have ph: "phys ?b = phys b1" by (simp add: kb_phys_def fun_eq_iff)
  have "valid ?b" using b1(2,5) i1 pn bf ph wr_ok_law [of b1 _ ?b] by (auto simp: kb_valid_def word_less_nat_alt kb_phys_def intro!: size_law)
  moreover have "content ?b i = content b i" if "i < unat (blk_cnt b)" for i
    using b1(6) that unfolding kb_content_def [of blk ?b] ph by simp
  moreover have "same_window b ?b" using same_window_trans [OF b1(3) same_window_trans [OF flags_upd(7) flags_upd(8)]] .
  ultimately show ?thesis using False ph b1(6) by (intro exI [of _ ?b]) simp
qed

text \<open>Writing.\<close>

lemma write_direct:
  assumes v: "valid b" and i: "idx < blk_cnt b" and n: "unat off + length x \<le> unat (blk_size b)" and u: "\<not> buffered"
  shows "\<exists>b'. kblock_writeDirect vt b idx x off = Some (sizeof x, b') \<and> valid b' \<and> same_window b b' \<and>
    content b' = (content b)(unat idx := mem_write (content b (unat idx)) (unat off) x)"
proof -
  note pn = phys_number [OF v i]
  have wo: "wr_ok b (unat (blk_start b + idx))" using v i pn(1) by (simp add: kb_valid_def word_less_nat_alt)
  have ub: "\<not> kblock_buffered b" using v u by (simp add: kb_valid_def)
  obtain f d where f: "writeDirect vt = Some f" "f b (blk_start b + idx) x off = Some (sizeof x, b\<lparr>dev := d\<rparr>)"
    "nblk (blk_size b) d = nblk (blk_size b) (dev b)"
    "blk (blk_size b) d = (blk (blk_size b) (dev b))(unat (blk_start b + idx) := mem_write (phys b (unat idx)) (unat off) x)"
    using writeDirect_law [OF u, of "blk_start b + idx" b off x] pn wo n by (auto simp: kb_phys_def)
  have "phys (b\<lparr>dev := d\<rparr>) = (phys b)(unat idx := mem_write (phys b (unat idx)) (unat off) x)"
    using f(4) pn(1) by (auto simp: kb_phys_def fun_eq_iff)
  then have "content (b\<lparr>dev := d\<rparr>) = (content b)(unat idx := mem_write (content b (unat idx)) (unat off) x)"
    using ub by (auto simp: kb_content_def fun_eq_iff)
  moreover have "valid (b\<lparr>dev := d\<rparr>)" using v f(3) u wr_ok_law [of b _ "b\<lparr>dev := d\<rparr>"] by (auto simp: kb_valid_def)
  ultimately show ?thesis using f(1,2) i by (intro exI [of _ "b\<lparr>dev := d\<rparr>"]) (auto simp: kblock_writeDirect_def ASSERT_def)
qed

lemma write_content:
  assumes v: "valid b" and i: "idx < blk_cnt b" and n: "unat off + length x \<le> unat (blk_size b)" and p: "buffered \<or> kblock_partialWrite b"
  shows "\<exists>b'. kblock_write vt b idx x off = Some (sizeof x, b') \<and> valid b' \<and> same_window b b' \<and>
    (\<forall>i < unat (blk_cnt b). content b' i = ((content b)(unat idx := mem_write (content b (unat idx)) (unat off) x)) i)"
proof -
  have kb: "kblock_buffered b = buffered" using v by (simp add: kb_valid_def)
  have "unat (sizeof x) = length x" using n by (intro sizeof_unat [of _ "blk_size b"]) simp
  then have fw: "off + sizeof x \<le> blk_size b" using n by (intro fits_word) simp
  show ?thesis
  proof (cases buffered)
    case False
    then show ?thesis using write_direct [OF v i n] kb fw i p by (auto simp: kblock_write_def ASSERT_def)
  next
    case True
    obtain b1 where b1: "kblock_loadPage vt b idx = Some (True, b1)" "valid b1" "same_window b b1" "curr_blk b1 = idx"
      "\<forall>i < unat (blk_cnt b). content b1 i = content b i" using loadPage_content [OF v i True] by blast
    let ?b1 = "kblock_setDirty True b1" and ?buf = "mem_write (kb_buf b1) (unat off) x"
    have sz: "blk_size b1 = blk_size b" "blk_cnt b1 = blk_cnt b" "kblock_buffered b1" using b1(3) kb True by (simp_all add: same_window_def)
    have lb: "length (kb_buf b1) = unat (blk_size b)" using b1(2) True sz by (simp add: kb_valid_def)
    have "\<exists>f. writeBuf vt = Some f \<and> f ?b1 x off = Some (sizeof x, ?b1\<lparr>kb_buf := ?buf\<rparr>)"
      using writeBuf_law [of ?b1 off x] True lb sz n by auto
    then have "kblock_write vt b idx x off = Some (sizeof x, ?b1\<lparr>kb_buf := ?buf\<rparr>)"
      using kb True fw i b1(1) sz by (auto simp: kblock_write_def kblock_writeBuf_def ASSERT_def)
    moreover let ?b = "?b1\<lparr>kb_buf := ?buf\<rparr>"
    have "length ?buf = unat (blk_size b)" using lb n by simp
    then have "valid ?b" using b1(2) True sz wr_ok_law [of b1 _ ?b] by (auto simp: kb_valid_def)
    moreover have cb: "content b1 (unat idx) = kb_buf b1" using sz(3) b1(4) by (simp add: kb_content_def)
    have "content ?b i = ((content b1)(unat idx := ?buf)) i" for i using sz(3) b1(4) by (simp add: kb_content_def kb_phys_def)
    then have "\<forall>i < unat (blk_cnt b). content ?b i = ((content b)(unat idx := mem_write (content b (unat idx)) (unat off) x)) i"
      using b1(5) cb i by (simp add: word_less_nat_alt)
    moreover have "same_window b ?b" using same_window_trans [OF b1(3) same_window_trans [OF flags_setDirty(4) flags_upd(7)]] .
    ultimately show ?thesis by (intro exI [of _ ?b]) blast
  qed
qed

text \<open>Copying a block, sixteen bytes at a time or through the buffer.\<close>

lemma mem_write_parts:
  assumes "length x = length y" "off + n \<le> length x"
  shows "mem_write (mem_write y 0 (take off x)) off (take n (drop off x)) = mem_write y 0 (take (off + n) x)"
proof -
  have "length (take off x) = off" "length (take n (drop off x)) = n" using assms by auto
  then show ?thesis using assms by (simp add: mem_write_def take_add) (simp add: add.commute)
qed

lemma mem_write_prefix [simp]: "mem_write x 0 (take n x) = x"
  by (cases "n \<le> length x") (simp_all add: mem_write_def min_def)

lemma copy_parts_content:
  assumes "valid b" "src < blk_cnt b" "dest < blk_cnt b" "\<not> buffered" "unat off + unat left = unat (blk_size b)"
    "content b (unat src) = x" "content b (unat dest) = mem_write y 0 (take (unat off) x)" "length x = unat (blk_size b)" "length y = length x"
    "src = dest \<longrightarrow> y = x"
  shows "\<exists>b'. copy_parts vt src dest left off b = Some (True, b') \<and> valid b' \<and> same_window b b' \<and> content b' = (content b)(unat dest := x)"
  using assms
proof (induction "unat left" arbitrary: left off b rule: less_induct)
  case less
  show ?case
  proof (cases "left = 0")
    case True
    then have "content b (unat dest) = x" using less.prems(5,7-9) by (simp add: mem_write_def)
    then have "content b = (content b)(unat dest := x)" using fun_upd_triv [of "content b" "unat dest"] by simp
    then show ?thesis using True less.prems(1) by (intro exI [of _ b]) (simp add: copy_parts.simps)
  next
    case False
    define n where "n = min 16 left"
    have n: "unat n \<le> unat left" "0 < unat n" using False by (auto simp: n_def min_def unat_gt_0 word_le_nat_alt)
    let ?x = "take (unat n) (drop (unat off) x)"
    have off: "unat off + unat n \<le> unat (blk_size b)" using less.prems(5) n by simp
    have nb: "\<not> kblock_buffered b" using less.prems(1,4) by (simp add: kb_valid_def)
    then have rd: "kblock_readDirect vt b src off n = Some (?x, b)"
      using read_direct [OF less.prems(1,2) off] less.prems(6) by (simp add: kb_content_def)
    have lx: "length ?x = unat n" using off less.prems(8) by simp
    then have sx: "sizeof ?x = n" by (metis of_nat_unat ucast_id)
    obtain b1 where b1: "kblock_writeDirect vt b dest ?x off = Some (n, b1)" "valid b1" "same_window b b1"
      "content b1 = (content b)(unat dest := mem_write (content b (unat dest)) (unat off) ?x)"
      using write_direct [OF less.prems(1,3) _ less.prems(4), of off ?x] lx sx off by auto
    have st: "copy_parts vt src dest left off b = copy_parts vt src dest (left - n) (off + n) b1"
      using False rd b1(1) sx by (subst copy_parts.simps) (simp flip: n_def)
    have u: "unat (left - n) = unat left - unat n" "unat (off + n) = unat off + unat n"
    proof -
      show "unat (left - n) = unat left - unat n" using n by (simp add: unat_sub word_le_nat_alt)
      have "unat off + unat n < 65536" using off unat_u16_less [of "blk_size b"] by linarith
      then show "unat (off + n) = unat off + unat n" by (simp add: unat_word_ariths)
    qed
    have d1: "content b1 (unat dest) = mem_write y 0 (take (unat (off + n)) x)"
      using b1(4) less.prems(7,8,9) off mem_write_parts [of x y "unat off" "unat n"] u(2) by simp
    have s1: "content b1 (unat src) = x"
      using d1 b1(4) less.prems(6,10) by (cases "src = dest") (auto simp: word_unat_eq_iff)
    have w: "blk_size b1 = blk_size b" "blk_cnt b1 = blk_cnt b" using b1(3) by (simp_all add: same_window_def)
    have "\<exists>b'. copy_parts vt src dest (left - n) (off + n) b1 = Some (True, b') \<and> valid b' \<and> same_window b1 b' \<and> content b' = (content b1)(unat dest := x)"
      by (rule less.hyps) (use less.prems n u w b1(2) d1 s1 in auto)
    then show ?thesis using st b1(3,4) same_window_trans by (metis fun_upd_upd)
  qed
qed

lemma copy_content:
  assumes v: "valid b" and s: "src < blk_cnt b" and d: "dest < blk_cnt b" and p: "buffered \<or> kblock_partialWrite b"
    and c: "\<not> (buffered \<and> kb_dirty b \<and> src = curr_blk b \<and> dest \<noteq> src)"
  shows "\<exists>b'. kblock_copy vt b src dest = Some (True, b') \<and> valid b' \<and> same_window b b' \<and>
    (\<forall>i < unat (blk_cnt b). content b' i = ((content b)(unat dest := content b (unat src))) i)"
proof -
  have kb: "kblock_buffered b = buffered" using v by (simp add: kb_valid_def)
  show ?thesis
  proof (cases buffered)
    case False
    have "length (content b (unat src)) = unat (blk_size b)" "length (content b (unat dest)) = unat (blk_size b)"
      using content_size [OF v] s d by (simp_all add: word_less_nat_alt)
    moreover have "content b (unat dest) = mem_write (content b (unat dest)) 0 (take (unat 0) (content b (unat src)))" by (simp add: mem_write_def)
    ultimately have "\<exists>b'. copy_parts vt src dest (blk_size b) 0 b = Some (True, b') \<and> valid b' \<and> same_window b b' \<and>
        content b' = (content b)(unat dest := content b (unat src))"
      using copy_parts_content [OF v s d False, of 0 "blk_size b" "content b (unat src)" "content b (unat dest)"] by simp
    then show ?thesis using kb False s d p by (auto simp: kblock_copy_def ASSERT_def)
  next
    case True
    obtain b1 where b1: "kblock_loadPage vt b src = Some (True, b1)" "valid b1" "same_window b b1" "curr_blk b1 = src"
      "\<forall>i < unat (blk_cnt b). content b1 i = content b i" "src \<noteq> curr_blk b \<longrightarrow> (\<forall>i < unat (blk_cnt b). phys b1 i = content b i)"
      "src = curr_blk b \<longrightarrow> b1 = b" using loadPage_content [OF v s True] by blast
    let ?b = "kblock_setDirty True (b1\<lparr>curr_blk := dest\<rparr>)"
    have k: "kblock_copy vt b src dest = Some (True, ?b)" using kb True s d b1(1) by (simp add: kblock_copy_def ASSERT_def)
    have bf: "kblock_buffered b1" "blk_cnt b1 = blk_cnt b" using b1(3) kb True by (simp_all add: same_window_def)
    have "valid ?b" using b1(2) True bf d wr_ok_law [of b1 _ ?b] by (auto simp: kb_valid_def word_less_nat_alt)
    moreover have sb: "content b (unat src) = kb_buf b1"
      using b1(4,5) bf(1) s by (metis kb_content_def word_less_nat_alt)
    have ph: "phys b1 i = content b i" if "i < unat (blk_cnt b)" "i \<noteq> unat dest" for i
    proof (cases "src = curr_blk b \<and> dest \<noteq> src")
      case False
      then show ?thesis using b1(6,7) that v by (auto simp: kb_content_def)
    next
      case nd: True
      then have "kb_buf b = phys b (unat src)" using c True v by (auto simp: kb_valid_def)
      then show ?thesis using b1(7) nd by (auto simp: kb_content_def)
    qed
    then have "content ?b i = ((content b)(unat dest := content b (unat src))) i" if "i < unat (blk_cnt b)" for i
      using that bf sb by (simp add: kb_content_def [of blk ?b]) (simp add: kb_phys_def)
    moreover have "same_window b ?b" using same_window_trans [OF b1(3) same_window_trans [OF flags_upd(8) flags_setDirty(4)]] .
    ultimately show ?thesis using k by (intro exI [of _ ?b]) blast
  qed
qed

text \<open>A window of the window.\<close>

lemma trim_content:
  assumes v: "valid b" and w: "unat start + unat count \<le> unat (blk_cnt b)" "0 < unat count"
    and o: "\<forall>b' i. blk_cnt b' = count \<longrightarrow> i < unat count \<longrightarrow> wr_ok b' (unat (blk_start b) + unat start + i)"
  shows "\<exists>b'. kblock_trim vt b start count = Some (True, b') \<and> valid b' \<and> blk_cnt b' = count \<and> blk_size b' = blk_size b \<and>
    (\<forall>i < unat count. content b' i = content b (unat start + i))"
proof -
  have kb: "kblock_buffered b = buffered" using v by (simp add: kb_valid_def)
  have a: "start + count \<le> blk_cnt b"
    using w unsigned_less [of "blk_cnt b", where 'a = nat] by (simp add: word_le_nat_alt unat_word_ariths)
  have s: "start < blk_cnt b" using w by (simp add: word_less_nat_alt)
  note pn = phys_number [OF v s]
  obtain b1 where b1: "(if kblock_buffered b then kblock_loadPage vt b start else Some (True, b)) = Some (True, b1)" "valid b1" "same_window b b1"
    "buffered \<longrightarrow> curr_blk b1 = start" "\<forall>i < unat (blk_cnt b). content b1 i = content b i"
    using loadPage_content [OF v s] v kb by (cases buffered) auto
  let ?b = "b1\<lparr>blk_start := blk_start b1 + start, curr_blk := 0, blk_cnt := count\<rparr>"
  have t: "kblock_trim vt b start count = Some (True, ?b)" using a b1(1) by (simp add: kblock_trim_def ASSERT_def)
  have sw: "blk_start b1 = blk_start b" "blk_size b1 = blk_size b" "kblock_buffered b1 = buffered" "blk_cnt b1 = blk_cnt b"
    using b1(3) kb by (simp_all add: same_window_def)
  have ph: "phys ?b i = phys b1 (unat start + i)" for i using pn(1) sw by (simp add: kb_phys_def add.assoc)
  have fl: "kblock_buffered ?b = buffered" "kb_dirty ?b = kb_dirty b1" using sw(3) by (simp_all add: kblock_buffered_def kb_dirty_def)
  have "valid ?b" using b1(2,4) w pn(1) sw fl ph o by (auto simp: kb_valid_def)
  moreover have "content ?b i = content b (unat start + i)" if "i < unat count" for i
  proof -
    have "content ?b i = content b1 (unat start + i)" using fl sw(3) b1(4) ph by (auto simp: kb_content_def)
    then show ?thesis using b1(5) that w by simp
  qed
  ultimately show ?thesis using t sw by (intro exI [of _ ?b]) simp
qed


end

section \<open>The device as an array\<close>

text \<open>Calls of a client. It writes back what is pending before it copies a block (see \<open>copy_loses_write\<close>).\<close>

datatype kb_op = KRead u32 u16 u16 | KWrite u32 bytes u16 | KFlush | KCopy u32 u32

datatype kb_out = Data bytes | Count u16 | Status bool

definition kb_step :: "'d KBlockVTable \<Rightarrow> kb_op \<Rightarrow> 'd KBlock \<Rightarrow> (kb_out \<times> 'd KBlock) option" where
  "kb_step vt op b = (case op of
     KRead i off n \<Rightarrow> do { (x, b) \<leftarrow> kblock_read vt b i off n; Some (Data x, b) }
   | KWrite i x off \<Rightarrow> do { (n, b) \<leftarrow> kblock_write vt b i x off; Some (Count n, b) }
   | KFlush \<Rightarrow> do { (ok, b) \<leftarrow> kblock_flush vt b; Some (Status ok, b) }
   | KCopy src dest \<Rightarrow> do { (ok, b) \<leftarrow> kblock_flush vt b;
                             if ok then do { (ok, b) \<leftarrow> kblock_copy vt b src dest; Some (Status ok, b) } else Some (Status False, b) })"

fun kb_steps :: "'d KBlockVTable \<Rightarrow> kb_op list \<Rightarrow> 'd KBlock \<Rightarrow> (kb_out list \<times> 'd KBlock) option" where
  "kb_steps vt [] b = Some ([], b)"
| "kb_steps vt (op # ops) b = do { (x, b) \<leftarrow> kb_step vt op b; (xs, b) \<leftarrow> kb_steps vt ops b; Some (x # xs, b) }"

text \<open>The same calls on an array of blocks.\<close>

fun arr_step :: "kb_op \<Rightarrow> bytes list \<Rightarrow> kb_out \<times> bytes list" where
  "arr_step (KRead i off n) a = (Data (take (unat n) (drop (unat off) (a ! unat i))), a)"
| "arr_step (KWrite i x off) a = (Count (sizeof x), a[unat i := mem_write (a ! unat i) (unat off) x])"
| "arr_step KFlush a = (Status True, a)"
| "arr_step (KCopy src dest) a = (Status True, a[unat dest := a ! unat src])"

fun arr_steps :: "kb_op list \<Rightarrow> bytes list \<Rightarrow> kb_out list \<times> bytes list" where
  "arr_steps [] a = ([], a)"
| "arr_steps (op # ops) a = (let (x, a) = arr_step op a; (xs, a) = arr_steps ops a in (x # xs, a))"

fun op_ok :: "u16 \<Rightarrow> nat \<Rightarrow> kb_op \<Rightarrow> bool" where
  "op_ok sz cnt (KRead i off n) \<longleftrightarrow> unat i < cnt \<and> unat off + unat n \<le> unat sz"
| "op_ok sz cnt (KWrite i x off) \<longleftrightarrow> unat i < cnt \<and> unat off + length x \<le> unat sz"
| "op_ok sz cnt KFlush \<longleftrightarrow> True"
| "op_ok sz cnt (KCopy src dest) \<longleftrightarrow> unat src < cnt \<and> unat dest < cnt"

definition kb_array :: "(u16 \<Rightarrow> 'd \<Rightarrow> nat \<Rightarrow> bytes) \<Rightarrow> 'd KBlock \<Rightarrow> bytes list" where
  "kb_array blk b = map (kb_content blk b) [0..<unat (blk_cnt b)]"

lemma kb_array_eqI:
  "blk_cnt b' = blk_cnt b \<Longrightarrow> \<forall>i < unat (blk_cnt b). kb_content blk b' i = ((kb_content blk b)(j := x)) i \<Longrightarrow>
   kb_array blk b' = (kb_array blk b)[j := x]"
  by (rule nth_equalityI) (auto simp: kb_array_def nth_list_update)

context block_device
begin

lemma step_array:
  assumes v: "valid b" and o: "op_ok (blk_size b) (unat (blk_cnt b)) op" and p: "buffered \<or> kblock_partialWrite b"
  shows "\<exists>b'. kb_step vt op b = Some (fst (arr_step op (kb_array blk b)), b') \<and> valid b' \<and> same_window b b' \<and>
    kb_array blk b' = snd (arr_step op (kb_array blk b))"
proof (cases op)
  case (KRead i off n)
  then show ?thesis using read_content [OF v, of i off n] v o by (simp add: kb_step_def kb_array_def word_less_nat_alt)
next
  case (KWrite i x off)
  then have i: "i < blk_cnt b" "unat i < unat (blk_cnt b)" "unat off + length x \<le> unat (blk_size b)" using o by (simp_all add: word_less_nat_alt)
  obtain b' where b': "kblock_write vt b i x off = Some (sizeof x, b')" "valid b'" "same_window b b'"
    "\<forall>j < unat (blk_cnt b). content b' j = ((content b)(unat i := mem_write (content b (unat i)) (unat off) x)) j"
    using write_content [OF v i(1,3) p] by blast
  have "kb_array blk b' = (kb_array blk b)[unat i := mem_write (content b (unat i)) (unat off) x]"
    using b'(3,4) by (intro kb_array_eqI) (simp_all add: same_window_def)
  moreover have "kb_array blk b ! unat i = content b (unat i)" using i(2) by (simp add: kb_array_def)
  ultimately show ?thesis using b' KWrite by (simp add: kb_step_def)
next
  case KFlush
  then show ?thesis using flush_content [OF v] by (auto simp: kb_step_def kb_array_def same_window_def)
next
  case (KCopy src dest)
  then have i: "src < blk_cnt b" "dest < blk_cnt b" "unat src < unat (blk_cnt b)" using o by (simp_all add: word_less_nat_alt)
  obtain b1 where b1: "kblock_flush vt b = Some (True, b1)" "valid b1" "same_window b b1" "content b1 = content b" "buffered \<longrightarrow> \<not> kb_dirty b1"
    using flush_content [OF v] by blast
  have w: "blk_cnt b1 = blk_cnt b" "kblock_partialWrite b1 = kblock_partialWrite b" using b1(3) by (simp_all add: same_window_def)
  obtain b' where b': "kblock_copy vt b1 src dest = Some (True, b')" "valid b'" "same_window b1 b'"
    "\<forall>j < unat (blk_cnt b). content b' j = ((content b)(unat dest := content b (unat src))) j"
    using copy_content [OF b1(2), of src dest] i w p b1(4,5) by auto
  have "kb_array blk b' = (kb_array blk b)[unat dest := content b (unat src)]"
    using b'(3,4) w by (intro kb_array_eqI) (simp_all add: same_window_def)
  moreover have "kb_array blk b ! unat src = content b (unat src)" using i(3) by (simp add: kb_array_def)
  ultimately show ?thesis using b1(1) b' KCopy same_window_trans [OF b1(3) b'(3)] by (simp add: kb_step_def)
qed

lemma steps_array:
  assumes "valid b" "\<forall>op \<in> set ops. op_ok (blk_size b) (unat (blk_cnt b)) op" "buffered \<or> kblock_partialWrite b"
  shows "\<exists>b'. kb_steps vt ops b = Some (fst (arr_steps ops (kb_array blk b)), b') \<and> valid b' \<and> same_window b b' \<and>
    kb_array blk b' = snd (arr_steps ops (kb_array blk b))"
  using assms
proof (induction ops arbitrary: b)
  case (Cons op ops)
  obtain b1 where b1: "kb_step vt op b = Some (fst (arr_step op (kb_array blk b)), b1)" "valid b1" "same_window b b1"
    "kb_array blk b1 = snd (arr_step op (kb_array blk b))" using step_array [of b op] Cons.prems by auto
  have "\<exists>b'. kb_steps vt ops b1 = Some (fst (arr_steps ops (kb_array blk b1)), b') \<and> valid b' \<and> same_window b1 b' \<and>
      kb_array blk b' = snd (arr_steps ops (kb_array blk b1))"
    using Cons.prems b1(2,3) by (intro Cons.IH) (auto simp: same_window_def)
  then show ?case using b1 same_window_trans [OF b1(3)] by (auto simp: split_beta Let_def)
qed simp

text \<open>After the last write back the device itself has the blocks.\<close>

lemma flush_array:
  assumes "valid b"
  shows "\<exists>b'. kblock_flush vt b = Some (True, b') \<and> kb_array blk b = map (phys b') [0..<unat (blk_cnt b)]"
  using flush_content [OF assms] by (auto simp: kb_array_def)

end

section \<open>Blocks in memory keep the promises\<close>

definition ram_blk :: "u16 \<Rightarrow> bytes \<Rightarrow> nat \<Rightarrow> bytes" where
  "ram_blk sz m i = take (unat sz) (drop (i * unat sz) m)"

definition ram_nblk :: "u16 \<Rightarrow> bytes \<Rightarrow> nat" where
  "ram_nblk sz m = min (length m div unat sz) (2 ^ 32 - 1)"

lemma ram_room: "i < ram_nblk sz m \<Longrightarrow> i * unat sz + unat sz \<le> length m"
proof -
  assume "i < ram_nblk sz m"
  then have "Suc i \<le> length m div unat sz" by (simp add: ram_nblk_def)
  then have "Suc i * unat sz \<le> length m" by (metis div_times_less_eq_dividend le_trans mult_le_mono1)
  then show ?thesis by simp
qed

lemma ram_nblk_write [simp]: "off + length x \<le> length m \<Longrightarrow> ram_nblk sz (mem_write m off x) = ram_nblk sz m"
  by (simp add: ram_nblk_def)

lemma mem_write_inside:
  "off + length x \<le> length b \<Longrightarrow> mem_write (a @ b @ c) (length a + off) x = a @ mem_write b off x @ c"
  by (simp add: mem_write_def)

lemma ram_blk_write:
  assumes "i < ram_nblk sz m" "off + length x \<le> unat sz"
  shows "ram_blk sz (mem_write m (i * unat sz + off) x) = (ram_blk sz m)(i := mem_write (ram_blk sz m i) off x)"
proof
  fix j
  let ?s = "unat sz"
  have r: "i * ?s + ?s \<le> length m" by (rule ram_room [OF assms(1)])
  show "ram_blk sz (mem_write m (i * ?s + off) x) j = ((ram_blk sz m)(i := mem_write (ram_blk sz m i) off x)) j"
  proof (cases j i rule: linorder_cases)
    case equal
    define a c where "a = take (i * ?s) m" and "c = drop ?s (drop (i * ?s) m)"
    have m: "m = a @ ram_blk sz m i @ c" by (simp add: a_def c_def ram_blk_def del: drop_drop)
    have l: "length a = i * ?s" "length (ram_blk sz m i) = ?s" using r by (simp_all add: a_def ram_blk_def)
    have "mem_write m (i * ?s + off) x = a @ mem_write (ram_blk sz m i) off x @ c"
      using mem_write_inside [of off x "ram_blk sz m i" a c] assms(2) l m by simp
    then have "ram_blk sz (mem_write m (i * ?s + off) x) i = mem_write (ram_blk sz m i) off x"
      using l assms(2) by (simp add: ram_blk_def [of sz "a @ _"])
    then show ?thesis using equal by simp
  next
    case less
    then have "Suc j * ?s \<le> i * ?s" by (intro mult_le_mono1) simp
    then have "take (j * ?s + ?s) (mem_write m (i * ?s + off) x) = take (j * ?s + ?s) m" using r by (simp add: mem_write_def)
    then have "take ?s (drop (j * ?s) (mem_write m (i * ?s + off) x)) = take ?s (drop (j * ?s) m)"
      by (metis drop_take diff_add_inverse)
    then show ?thesis using less by (simp add: ram_blk_def)
  next
    case greater
    then have "Suc i * ?s \<le> j * ?s" by (intro mult_le_mono1) simp
    then have "drop (j * ?s) (mem_write m (i * ?s + off) x) = drop (j * ?s) m"
      using r assms(2) by (simp add: mem_write_def)
    then show ?thesis using greater by (simp add: ram_blk_def)
  qed
qed

lemma mem_write_all: "length x = length y \<Longrightarrow> mem_write x 0 y = y"
  by (simp add: mem_write_def)

lemma ram_blk_size: "j < ram_nblk sz d \<Longrightarrow> length (ram_blk sz d j) = unat sz"
  using ram_room [of j sz d] by (simp add: ram_blk_def)

lemma ram_nblk_less: "ram_nblk sz d < 2 ^ 32"
  by (simp add: ram_nblk_def)

lemma ram_readDirect:
  assumes "unat i < ram_nblk (blk_size b) (dev b)" "unat off + unat n \<le> unat (blk_size b)"
  shows "kblockram_readDirect b i off n = Some (take (unat n) (drop (unat off) (ram_blk (blk_size b) (dev b) (unat i))), b)"
  using ram_room [OF assms(1)] assms(2) by (simp add: kblockram_readDirect_def ram_addr_def ram_blk_def take_drop min_def add.commute)

lemma ram_writeDirect:
  assumes "unat i < ram_nblk (blk_size b) (dev b)" "unat i < unat (blk_cnt b)" "unat off + length x \<le> unat (blk_size b)"
  shows "\<exists>d. kblockram_writeDirect b i x off = Some (sizeof x, b\<lparr>dev := d\<rparr>) \<and> ram_nblk (blk_size b) d = ram_nblk (blk_size b) (dev b) \<and>
    ram_blk (blk_size b) d = (ram_blk (blk_size b) (dev b))(unat i := mem_write (ram_blk (blk_size b) (dev b) (unat i)) (unat off) x)"
proof -
  have "unat i * unat (blk_size b) + unat off + length x \<le> length (dev b)" using ram_room [OF assms(1)] assms(3) by simp
  then show ?thesis using assms ram_blk_write [OF assms(1,3)]
    by (auto simp: kblockram_writeDirect_def ram_addr_def ASSERT_def word_less_nat_alt add.assoc intro!: exI)
qed

interpretation ram_plain: block_device kblockram_unbuffered_vt ram_blk ram_nblk "\<lambda>b j. j < unat (blk_cnt b)" False
  by unfold_locales (use ram_blk_size ram_nblk_less ram_readDirect ram_writeDirect in \<open>simp_all add: kblockram_unbuffered_vt_def\<close>)

interpretation ram_hw: block_device kblockram_hwbuffered_vt ram_blk ram_nblk "\<lambda>b j. True" True
proof
  fix b :: KBlockRam and i :: u32 and off n :: u16 and x :: bytes
  note vt = kblockram_hwbuffered_vt_def
  show "length (kb_buf b) = unat (blk_size b) \<Longrightarrow> unat off + unat n \<le> unat (blk_size b) \<Longrightarrow>
      \<exists>f. readBuf kblockram_hwbuffered_vt = Some f \<and> f b off n = Some (take (unat n) (drop (unat off) (kb_buf b)), b)"
    by (simp add: vt kblockram_readBuf_def)
  show "length (kb_buf b) = unat (blk_size b) \<Longrightarrow> unat off + length x \<le> unat (blk_size b) \<Longrightarrow>
      \<exists>f. writeBuf kblockram_hwbuffered_vt = Some f \<and> f b x off = Some (sizeof x, b\<lparr>kb_buf := mem_write (kb_buf b) (unat off) x\<rparr>)"
    by (simp add: vt kblockram_writeBuf_def)
  assume l: "length (kb_buf b) = unat (blk_size b)" and i: "unat i < ram_nblk (blk_size b) (dev b)"
  note r = ram_room [OF i]
  show "\<exists>f. vt_load kblockram_hwbuffered_vt = Some f \<and> f b i = Some (True, b\<lparr>kb_buf := ram_blk (blk_size b) (dev b) (unat i)\<rparr>)"
    using l r by (simp add: vt kblockram_load_def ram_addr_def ram_blk_def mem_write_all)
  show "\<exists>f d. vt_store kblockram_hwbuffered_vt = Some f \<and> f b i = Some (True, b\<lparr>dev := d\<rparr>) \<and> ram_nblk (blk_size b) d = ram_nblk (blk_size b) (dev b) \<and>
      ram_blk (blk_size b) d = (ram_blk (blk_size b) (dev b))(unat i := kb_buf b)"
    using l r ram_blk_write [OF i, of 0 "kb_buf b"] ram_blk_size [OF i]
    by (auto simp: vt kblockram_store_def ram_addr_def mem_write_all intro!: exI)
qed (use ram_blk_size ram_nblk_less ram_readDirect in \<open>simp_all add: kblockram_hwbuffered_vt_def\<close>)

lemma sw_direct [simp]:
  "index < blk_cnt b \<Longrightarrow> kblock_readDirect kblockram_unbuffered_vt b index off n = kblockram_readDirect b (blk_start b + index) off n"
  "index < blk_cnt b \<Longrightarrow> kblock_writeDirect kblockram_unbuffered_vt b index x off = kblockram_writeDirect b (blk_start b + index) x off"
  by (simp_all add: kblock_readDirect_def kblock_writeDirect_def kblockram_unbuffered_vt_def ASSERT_def)

interpretation ram_sw: block_device kblockram_swbuffered_vt ram_blk ram_nblk "\<lambda>b j. j < unat (blk_cnt b)" True
proof
  fix b :: KBlockRam and i :: u32 and off n :: u16 and x :: bytes
  note vt = kblockram_swbuffered_vt_def
  have s: "unat (sizeof x) = length x" if "length x \<le> unat (blk_size b)" for x :: bytes using that by (rule ram_hw.sizeof_unat)
  show "length (kb_buf b) = unat (blk_size b) \<Longrightarrow> unat off + unat n \<le> unat (blk_size b) \<Longrightarrow>
      \<exists>f. readBuf kblockram_swbuffered_vt = Some f \<and> f b off n = Some (take (unat n) (drop (unat off) (kb_buf b)), b)"
    using ram_hw.fits_word [of off n "blk_size b"] by (simp add: vt kblock_swReadBuf_def ASSERT_def)
  show "length (kb_buf b) = unat (blk_size b) \<Longrightarrow> unat off + length x \<le> unat (blk_size b) \<Longrightarrow>
      \<exists>f. writeBuf kblockram_swbuffered_vt = Some f \<and> f b x off = Some (sizeof x, b\<lparr>kb_buf := mem_write (kb_buf b) (unat off) x\<rparr>)"
    using ram_hw.fits_word [of off "sizeof x" "blk_size b"] s [of x] by (simp add: vt kblock_swWriteBuf_def ASSERT_def)
  assume l: "length (kb_buf b) = unat (blk_size b)" and i: "unat i < ram_nblk (blk_size b) (dev b)"
    and w: "blk_start b \<le> i" "i - blk_start b < blk_cnt b"
  have bl: "length (ram_blk (blk_size b) (dev b) (unat i)) = unat (blk_size b)" by (rule ram_blk_size [OF i])
  then have "sizeof (ram_blk (blk_size b) (dev b) (unat i)) = blk_size b" by (metis of_nat_unat ucast_id)
  then show "\<exists>f. vt_load kblockram_swbuffered_vt = Some f \<and> f b i = Some (True, b\<lparr>kb_buf := ram_blk (blk_size b) (dev b) (unat i)\<rparr>)"
    using ram_readDirect [OF i, of 0 "blk_size b"] w l bl by (simp add: vt kblock_swLoad_def ASSERT_def mem_write_all)
  assume "unat i < unat (blk_cnt b)"
  from ram_writeDirect [OF i this, of 0 "kb_buf b"] l
  obtain d where d: "kblockram_writeDirect b i (kb_buf b) 0 = Some (sizeof (kb_buf b), b\<lparr>dev := d\<rparr>)" "ram_nblk (blk_size b) d = ram_nblk (blk_size b) (dev b)"
    "ram_blk (blk_size b) d = (ram_blk (blk_size b) (dev b))(unat i := mem_write (ram_blk (blk_size b) (dev b) (unat i)) 0 (kb_buf b))" by auto
  have "sizeof (kb_buf b) = blk_size b" using l by (metis of_nat_unat ucast_id)
  then show "\<exists>f d. vt_store kblockram_swbuffered_vt = Some f \<and> f b i = Some (True, b\<lparr>dev := d\<rparr>) \<and> ram_nblk (blk_size b) d = ram_nblk (blk_size b) (dev b) \<and>
      ram_blk (blk_size b) d = (ram_blk (blk_size b) (dev b))(unat i := kb_buf b)"
    using d w l bl by (auto simp: vt kblock_swStore_def ASSERT_def mem_write_all intro!: exI)
qed (use ram_blk_size ram_nblk_less ram_readDirect in \<open>simp_all add: kblockram_swbuffered_vt_def\<close>)

section \<open>Buffers are invisible\<close>

text \<open>The memory that holds the blocks, and their number.\<close>

definition ram_area :: "bytes \<Rightarrow> u16 \<Rightarrow> bool \<Rightarrow> bytes list" where
  "ram_area m sz buffered =
     (let m = (if buffered then drop (unat sz) m else m) in map (ram_blk sz m) [0..<length m div unat sz])"

lemma unat_div_u16: "unat (x div y :: u16) = unat x div unat y"
  by (simp add: unat_div_distrib)

lemma unat_ucast_u32: "unat (ucast (x :: u16) :: u32) = unat x"
proof -
  have "unat x < 4294967296" using unat_u16_less [of x] by linarith
  then show ?thesis by (simp add: unsigned_ucast_eq take_bit_nat_eq_self)
qed

lemma ram_nblk_small: "length m < 65536 \<Longrightarrow> ram_nblk sz m = length m div unat sz"
proof -
  assume "length m < 65536"
  moreover have "length m div unat sz \<le> length m" by (rule div_le_dividend)
  ultimately have "length m div unat sz \<le> 4294967295" by linarith
  then show ?thesis by (simp add: ram_nblk_def)
qed

lemma init_buffered:
  assumes "length m = unat n" "sz \<noteq> 0" "2 * unat sz \<le> unat n" "kblockram_init m n sz True hw = Some (vt, b)"
  shows "vt = (if hw then kblockram_hwbuffered_vt else kblockram_swbuffered_vt)" "blk_size b = sz" "unat (blk_cnt b) = length (drop (unat sz) m) div unat sz"
    "kb_array ram_blk b = ram_area m sz True" "kb_valid ram_blk ram_nblk (\<lambda>b j. True) True b" "kb_valid ram_blk ram_nblk (\<lambda>b j. j < unat (blk_cnt b)) True b"
proof -
  let ?s = "unat sz" and ?m = "drop (unat sz) m"
  let ?init = "\<lparr>kb_flags = KB_PARTIAL_WRITE OR KB_BUFFERED, kb_buf = take ?s m, blk_start = 0, curr_blk = 0, blk_size = sz,
    blk_cnt = ucast (n div sz - 1), dev = ?m\<rparr>"
  have s0: "0 < ?s" using assms(2) by (simp add: unat_gt_0)
  have d2: "2 \<le> unat n div ?s" using assms(3) s0 by (simp add: less_eq_div_iff_mult_less_eq)
  have cnt: "unat (n div sz - 1) = unat n div ?s - 1"
    using d2 by (subst unat_sub) (simp_all add: word_le_nat_alt unat_div_u16)
  have ld: "length ?m div ?s = unat n div ?s - 1" using assms(1,3) s0 by (simp add: le_div_geq)
  have c: "unat (ucast (n div sz - 1) :: u32) = length ?m div ?s" using cnt ld by (simp add: unat_ucast_u32)
  let ?b = "?init\<lparr>kb_buf := take ?s ?m\<rparr>"
  have ld0: "kblockram_load ?init 0 = Some (True, ?b)"
    using assms(1,3) by (simp add: kblockram_load_def ram_addr_def mem_write_all)
  have "n \<noteq> 0" using s0 assms(3) by auto
  then have "kblockram_init m n sz True hw = Some (if hw then kblockram_hwbuffered_vt else kblockram_swbuffered_vt, ?b)"
    unfolding kblockram_init_def ld0 using assms(2) by (simp add: ASSERT_def)
  then have b: "b = ?b" and "vt = (if hw then kblockram_hwbuffered_vt else kblockram_swbuffered_vt)" using assms(4) by simp_all
  then show "vt = (if hw then kblockram_hwbuffered_vt else kblockram_swbuffered_vt)" "blk_size b = sz" "unat (blk_cnt b) = length ?m div ?s"
    using c by simp_all
  have fl: "kblock_buffered ?b" "\<not> kb_dirty ?b" by (simp_all add: kblock_buffered_def kb_dirty_def KB_PARTIAL_WRITE_def KB_BUFFERED_def KB_CACHE_DIRTY_def)
  have b0: "ram_blk sz ?m 0 = take ?s ?m" by (simp add: ram_blk_def)
  then show "kb_array ram_blk b = ram_area m sz True"
    using c unfolding b by (auto simp: kb_array_def ram_area_def kb_content_def kb_phys_def)
  have nb: "ram_nblk sz ?m = length ?m div ?s" using less_imp_diff_less [OF unat_u16_less [of n], of "unat sz"] assms(1) by (intro ram_nblk_small) simp
  have bl: "length (kb_buf b) = unat (blk_size b)" "0 < unat (blk_cnt b)" "kblock_buffered b" "\<not> kb_dirty b" "unat (curr_blk b) = 0"
    "unat (blk_start b) + unat (blk_cnt b) \<le> ram_nblk (blk_size b) (dev b)" "unat (blk_start b) = 0"
    unfolding b using assms(1,3) c ld d2 nb fl by simp_all
  moreover have "kb_buf b = kb_phys ram_blk b 0" unfolding b using b0 by (simp add: kb_phys_def)
  ultimately show "kb_valid ram_blk ram_nblk (\<lambda>b j. True) True b" "kb_valid ram_blk ram_nblk (\<lambda>b j. j < unat (blk_cnt b)) True b"
    by (simp_all add: kb_valid_def)
qed

lemma init_plain:
  assumes "length m = unat n" "sz \<noteq> 0" "kblockram_init m n sz False hw = Some (vt, b)"
  shows "vt = kblockram_unbuffered_vt" "blk_size b = sz" "unat (blk_cnt b) = length m div unat sz" "kblock_partialWrite b"
    "kb_array ram_blk b = ram_area m sz False" "kb_valid ram_blk ram_nblk (\<lambda>b j. j < unat (blk_cnt b)) False b"
proof -
  let ?b = "\<lparr>kb_flags = KB_PARTIAL_WRITE, kb_buf = [], blk_start = 0, curr_blk = 0, blk_size = sz, blk_cnt = ucast (n div sz), dev = m\<rparr>"
  have b: "vt = kblockram_unbuffered_vt" "b = ?b" using assms(3) by (auto simp: kblockram_init_def ASSERT_def bind_eq_Some_conv split: if_splits)
  then show "vt = kblockram_unbuffered_vt" "blk_size b = sz" by simp_all
  have c: "unat (ucast (n div sz) :: u32) = length m div unat sz" using assms(1) by (simp add: unat_ucast_u32 unat_div_u16)
  then show "unat (blk_cnt b) = length m div unat sz" using b by simp
  have fl: "\<not> kblock_buffered ?b" "kblock_partialWrite ?b" by (simp_all add: kblock_buffered_def kblock_partialWrite_def KB_PARTIAL_WRITE_def KB_BUFFERED_def)
  then show "kblock_partialWrite b" using b by simp
  show "kb_array ram_blk b = ram_area m sz False"
    using c fl unfolding b by (auto simp: kb_array_def ram_area_def kb_content_def kb_phys_def)
  have "ram_nblk sz m = length m div unat sz" using assms(1) by (intro ram_nblk_small) simp
  then show "kb_valid ram_blk ram_nblk (\<lambda>b j. j < unat (blk_cnt b)) False b" using c fl unfolding b by (simp add: kb_valid_def)
qed



text \<open>
  \<^verbatim>\<open>kblock_copy\<close> takes the buffer over for the destination without writing it back: what was written to the source and is still
  pending is lost, the source goes back to what the device has.
\<close>

lemma copy_loses_write:
  "do { (vt, b) \<leftarrow> kblockram_init (replicate 8 0) 8 2 True True;
        (before, b) \<leftarrow> kb_steps vt [KWrite 0 [7] 1, KRead 0 0 2] b;
        (ok, b) \<leftarrow> kblock_copy vt b 0 2;
        (after, b) \<leftarrow> kb_steps vt [KFlush, KRead 0 0 2] b;
        Some (before, ok, after) } = Some ([Count 1, Data [0, 7]], True, [Status True, Data [0, 0]])"
  by code_simp

text \<open>After a trim the write method in memory compares the physical number of a block with the number of blocks of the window.\<close>

lemma trim_write_asserts:
  "do { (vt, b) \<leftarrow> kblockram_init (replicate 8 0) 8 2 False False;
        (ok, b) \<leftarrow> kblock_trim vt b 2 2;
        (x, b) \<leftarrow> kblock_read vt b 0 0 2;
        Some (ok, x, map_option fst (kblock_write vt b 0 [1, 1] 0)) } = Some (True, [0, 0], None)"
  by code_simp

end
