(* ===== verification/Kfile_Block.thy ===== *)
theory Kfile_Block
  imports Kblock "HOL-Library.Signed_Division"
begin

text \<open>
  Files on a block device, \<^verbatim>\<open>bertos/io/kfile_block.c\<close>: reading and writing at a position that may lie anywhere in a block, in pieces
  that do not cross blocks. On a device that keeps the promises of \<open>block_device\<close> the file is the sequence of the bytes of its blocks.
  \<open>None\<close> is a failure of the device, a division by a block size of 0, or a loop that does not end.
\<close>

record 'd KFileBlock =
  fb_seek :: i32
  fb_size :: i32
  fb_blk :: "'d KBlock"

definition kfileblock_init :: "'d KBlock \<Rightarrow> 'd KFileBlock" where
  "kfileblock_init b = \<lparr>fb_seek = 0, fb_size = blk_cnt b * ucast (blk_size b), fb_blk = b\<rparr>"

definition kfb_block :: "'d KFileBlock \<Rightarrow> u32" where
  "kfb_block fb = word_of_int (sint (fb_seek fb) sdiv int (unat (blk_size (fb_blk fb))))"

definition kfb_offset :: "'d KFileBlock \<Rightarrow> u16" where
  "kfb_offset fb = word_of_int (sint (fb_seek fb) smod int (unat (blk_size (fb_blk fb))))"

definition kfb_count :: "u16 \<Rightarrow> 'd KFileBlock \<Rightarrow> u16" where
  "kfb_count n fb = min n (blk_size (fb_blk fb) - kfb_offset fb)"

partial_function (option) kfileblock_read :: "'d KBlockVTable \<Rightarrow> u16 \<Rightarrow> 'd KFileBlock \<Rightarrow> (bytes \<times> 'd KFileBlock) option" where
  "kfileblock_read vt n fb =
     (if n = 0 then Some ([], fb)
      else if blk_size (fb_blk fb) = 0 then None
      else if blk_cnt (fb_blk fb) \<le> kfb_block fb then Some ([], fb)
      else do { (x, b) \<leftarrow> kblock_read vt (fb_blk fb) (kfb_block fb) (kfb_offset fb) (kfb_count n fb);
                let fb' = fb\<lparr>fb_seek := fb_seek fb + ucast (sizeof x), fb_blk := b\<rparr>;
                if sizeof x \<noteq> kfb_count n fb then Some (x, fb')
                else do { (y, fb') \<leftarrow> kfileblock_read vt (n - sizeof x) fb'; Some (x @ y, fb') } })"

text \<open>The result is the number of bytes that were written.\<close>

partial_function (option) kfileblock_write :: "'d KBlockVTable \<Rightarrow> bytes \<Rightarrow> 'd KFileBlock \<Rightarrow> (u16 \<times> 'd KFileBlock) option" where
  "kfileblock_write vt buf fb =
     (if sizeof buf = 0 then Some (0, fb)
      else if blk_size (fb_blk fb) = 0 then None
      else if blk_cnt (fb_blk fb) \<le> kfb_block fb then Some (0, fb)
      else let count = kfb_count (sizeof buf) fb in
        do { (n, b) \<leftarrow> kblock_write vt (fb_blk fb) (kfb_block fb) (take (unat count) buf) (kfb_offset fb);
             let fb' = fb\<lparr>fb_seek := fb_seek fb + ucast n, fb_blk := b\<rparr>;
             if n \<noteq> count then Some (n, fb')
             else do { (k, fb') \<leftarrow> kfileblock_write vt (drop (unat n) buf) fb'; Some (n + k, fb') } })"

definition kfileblock_flush :: "'d KBlockVTable \<Rightarrow> 'd KFileBlock \<Rightarrow> (bool \<times> 'd KFileBlock) option" where
  "kfileblock_flush vt fb = do { (ok, b) \<leftarrow> kblock_flush vt (fb_blk fb); Some (ok, fb\<lparr>fb_blk := b\<rparr>) }"

section \<open>Blocks in a row\<close>

lemma concat_split:
  assumes "i < length a" "\<forall>x \<in> set a. length x = s"
  shows "concat a = concat (take i a) @ a ! i @ concat (drop (Suc i) a)" "length (concat (take i a)) = i * s"
proof -
  have "a = take i a @ a ! i # drop (Suc i) a" using assms(1) by (rule id_take_nth_drop)
  then have "concat a = concat (take i a @ a ! i # drop (Suc i) a)" by (rule arg_cong)
  then show "concat a = concat (take i a) @ a ! i @ concat (drop (Suc i) a)" by simp
  have "map length (take i a) = replicate i s" using assms by (intro replicate_eqI) (auto dest: in_set_takeD)
  then show "length (concat (take i a)) = i * s" by (simp add: length_concat sum_list_replicate)
qed

lemma concat_read:
  assumes "i < length a" "\<forall>x \<in> set a. length x = s" "off + n \<le> s"
  shows "take n (drop (i * s + off) (concat a)) = take n (drop off (a ! i))"
proof -
  note c = concat_split [OF assms(1,2)]
  have "length (a ! i) = s" using assms(1,2) by simp
  then show ?thesis using assms(3) unfolding c(1) by (simp add: c(2))
qed

lemma concat_write:
  assumes "i < length a" "\<forall>x \<in> set a. length x = s" "off + length x \<le> s"
  shows "mem_write (concat a) (i * s + off) x = concat (a[i := mem_write (a ! i) off x])"
proof -
  note c = concat_split [OF assms(1,2)]
  have "concat (a[i := y]) = concat (take i a) @ y @ concat (drop (Suc i) a)" for y
    using assms(1) by (simp add: upd_conv_take_nth_drop)
  moreover have "length (a ! i) = s" using assms(1,2) by simp
  ultimately show ?thesis using mem_write_inside [of off x "a ! i" "concat (take i a)"] assms(3) unfolding c(1) by (simp add: c(2))
qed

lemma mem_write_append:
  "p + length x + length y \<le> length f \<Longrightarrow> mem_write (mem_write f p x) (p + length x) y = mem_write f p (x @ y)"
  by (simp add: mem_write_def ac_simps)

section \<open>Files\<close>

text \<open>The bytes of a file; its position is in it and the positions are positive numbers.\<close>

definition file_bytes :: "(u16 \<Rightarrow> 'd \<Rightarrow> nat \<Rightarrow> bytes) \<Rightarrow> 'd KFileBlock \<Rightarrow> bytes" where
  "file_bytes blk fb = concat (kb_array blk (fb_blk fb))"

lemma sdiv_nat: "int p sdiv int s = int (p div s)" "int p smod int s = int (p mod s)"
proof -
  show d: "int p sdiv int s = int (p div s)" by (cases "p = 0"; cases "s = 0") (auto simp: signed_divide_int_def zdiv_int)
  show "int p smod int s = int (p mod s)" by (cases "p = 0"; cases "s = 0") (auto simp: signed_modulo_int_def zmod_int)
qed

lemma position:
  assumes "unat (fb_seek fb) = p" "p < 2 ^ 31" "blk_size (fb_blk fb) \<noteq> 0"
  shows "unat (kfb_block fb) = p div unat (blk_size (fb_blk fb))" "unat (kfb_offset fb) = p mod unat (blk_size (fb_blk fb))"
proof -
  let ?s = "unat (blk_size (fb_blk fb))"
  have s: "0 < ?s" "?s < 65536" using assms(3) by (simp_all add: unat_gt_0)
  have "uint (fb_seek fb) = int p" using assms(1) by (simp add: uint_nat)
  then have si: "sint (fb_seek fb) = int p" using assms(2) by (simp add: sint_uint signed_take_bit_int_eq_self)
  have "sint (fb_seek fb) sdiv int ?s = int (p div ?s)" "sint (fb_seek fb) smod int ?s = int (p mod ?s)"
    unfolding si by (rule sdiv_nat)+
  moreover have "p div ?s < 2 ^ 32" using assms(2) by (intro le_less_trans [OF div_le_dividend]) simp
  moreover have "p mod ?s < 65536" using s mod_less_divisor [of ?s p] by linarith
  ultimately show "unat (kfb_block fb) = p div ?s" "unat (kfb_offset fb) = p mod ?s"
    by (simp_all add: kfb_block_def kfb_offset_def unat_of_nat)
qed

context block_device
begin

definition fb_ok :: "'d KFileBlock \<Rightarrow> bool" where
  "fb_ok fb \<longleftrightarrow> valid (fb_blk fb) \<and> (buffered \<or> kblock_partialWrite (fb_blk fb)) \<and> blk_size (fb_blk fb) \<noteq> 0 \<and>
     unat (blk_cnt (fb_blk fb)) * unat (blk_size (fb_blk fb)) < 2 ^ 31 \<and> unat (fb_seek fb) \<le> length (file_bytes blk fb)"

lemma file_length:
  assumes "valid (fb_blk fb)"
  shows "length (file_bytes blk fb) = unat (blk_cnt (fb_blk fb)) * unat (blk_size (fb_blk fb))"
    "\<forall>x \<in> set (kb_array blk (fb_blk fb)). length x = unat (blk_size (fb_blk fb))"
proof -
  let ?a = "kb_array blk (fb_blk fb)" and ?s = "unat (blk_size (fb_blk fb))"
  show s: "\<forall>x \<in> set ?a. length x = ?s" using content_size [OF assms] by (auto simp: kb_array_def)
  then have "map length ?a = replicate (length ?a) ?s" by (intro replicate_eqI) auto
  then show "length (file_bytes blk fb) = unat (blk_cnt (fb_blk fb)) * ?s"
    by (simp add: file_bytes_def length_concat sum_list_replicate) (simp add: kb_array_def)
qed

text \<open>One piece of a transfer at a position inside the file.\<close>

lemma piece:
  assumes ok: "fb_ok fb" and p: "unat (fb_seek fb) = p" "p < length (file_bytes blk fb)" and n: "n \<noteq> 0"
  defines "s \<equiv> unat (blk_size (fb_blk fb))"
  shows "kfb_block fb < blk_cnt (fb_blk fb)" "unat (kfb_block fb) = p div s" "unat (kfb_offset fb) = p mod s"
    "unat (kfb_offset fb) + unat (kfb_count n fb) \<le> s" "0 < unat (kfb_count n fb)" "unat (kfb_count n fb) \<le> unat n"
    "p + unat (kfb_count n fb) \<le> length (file_bytes blk fb)" "p div s * s + p mod s = p"
proof -
  have v: "valid (fb_blk fb)" "blk_size (fb_blk fb) \<noteq> 0" and l: "length (file_bytes blk fb) < 2 ^ 31"
    using ok file_length(1) [of fb] by (auto simp: fb_ok_def)
  have s: "0 < s" using v(2) by (simp add: s_def unat_gt_0)
  have p31: "p < 2 ^ 31" using p(2) l by linarith
  note ps = position [OF p(1) p31 v(2)]
  then show b: "unat (kfb_block fb) = p div s" and o: "unat (kfb_offset fb) = p mod s" by (simp_all add: s_def)
  have i: "p div s < unat (blk_cnt (fb_blk fb))" using p(2) s file_length(1) [OF v(1)] by (simp add: s_def less_mult_imp_div_less)
  then show "kfb_block fb < blk_cnt (fb_blk fb)" using b by (simp add: word_less_nat_alt)
  have ob: "p mod s < s" using s by simp
  have d: "unat (blk_size (fb_blk fb) - kfb_offset fb) = s - p mod s"
    using o ob by (subst unat_sub) (simp_all add: word_le_nat_alt s_def)
  then have c: "unat (kfb_count n fb) = min (unat n) (s - p mod s)" by (simp add: kfb_count_def min_def word_le_nat_alt)
  then show "unat (kfb_offset fb) + unat (kfb_count n fb) \<le> s" "0 < unat (kfb_count n fb)" "unat (kfb_count n fb) \<le> unat n"
    using o ob n by (auto simp: unat_gt_0)
  show e: "p div s * s + p mod s = p" by simp
  have "Suc (p div s) * s \<le> unat (blk_cnt (fb_blk fb)) * s" using i by (intro mult_le_mono1) simp
  moreover have "unat (kfb_count n fb) \<le> s - p mod s" using c by simp
  moreover have "Suc (p div s) * s = p div s * s + s" by simp
  moreover have "length (file_bytes blk fb) = unat (blk_cnt (fb_blk fb)) * s" using file_length(1) [OF v(1)] by (simp add: s_def)
  ultimately show "p + unat (kfb_count n fb) \<le> length (file_bytes blk fb)" using ob e by linarith
qed

lemma at_end:
  assumes "fb_ok fb" "unat (fb_seek fb) = length (file_bytes blk fb)"
  shows "blk_cnt (fb_blk fb) \<le> kfb_block fb"
proof -
  have v: "valid (fb_blk fb)" "blk_size (fb_blk fb) \<noteq> 0" and l: "length (file_bytes blk fb) < 2 ^ 31"
    using assms(1) file_length(1) [of fb] by (auto simp: fb_ok_def)
  then show ?thesis using position(1) [OF assms(2) l v(2)] file_length(1) [OF v(1)] by (simp add: word_le_nat_alt unat_gt_0)
qed

lemma seek_forward:
  assumes "unat (fb_seek fb) = p" "p + unat c < 2 ^ 31"
  shows "unat (fb_seek fb + ucast (c :: u16)) = p + unat c"
  using assms by (simp add: unat_word_ariths unat_ucast_u32)

lemma file_read:
  assumes "fb_ok fb" "unat (fb_seek fb) = p"
  shows "\<exists>q. kfileblock_read vt n fb = Some (take (unat n) (drop p (file_bytes blk fb)), fb\<lparr>fb_seek := q\<rparr>) \<and>
    unat q = min (p + unat n) (length (file_bytes blk fb))"
  using assms
proof (induction "unat n" arbitrary: n fb p rule: less_induct)
  case less
  have pl: "p \<le> length (file_bytes blk fb)" and s0: "blk_size (fb_blk fb) \<noteq> 0" and v: "valid (fb_blk fb)" using less.prems by (auto simp: fb_ok_def)
  have same: "fb\<lparr>fb_seek := fb_seek fb\<rparr> = fb" by simp
  consider "n = 0" | "n \<noteq> 0" "p = length (file_bytes blk fb)" | "n \<noteq> 0" "p < length (file_bytes blk fb)" using pl by linarith
  then show ?case
  proof cases
    case 1
    then show ?thesis using less.prems(2) pl same by (intro exI [of _ "fb_seek fb"]) (subst kfileblock_read.simps, simp)
  next
    case 2
    then show ?thesis using less.prems s0 same at_end [OF less.prems(1)]
      by (intro exI [of _ "fb_seek fb"]) (subst kfileblock_read.simps, simp)
  next
    case 3
    let ?c = "kfb_count n fb" and ?s = "unat (blk_size (fb_blk fb))" and ?f = "file_bytes blk fb"
    note pc = piece [OF less.prems 3(2,1)]
    have i: "p div ?s < length (kb_array blk (fb_blk fb))" using pc(1,2) by (simp add: kb_array_def word_less_nat_alt)
    have x: "kblock_read vt (fb_blk fb) (kfb_block fb) (kfb_offset fb) ?c = Some (take (unat ?c) (drop p ?f), fb_blk fb)"
      using read_content [OF v pc(1,4)] concat_read [OF i file_length(2) [OF v], of "p mod ?s" "unat ?c"] pc(2-4,8) i
      by (simp add: file_bytes_def) (simp add: kb_array_def)
    have lx: "length (take (unat ?c) (drop p ?f)) = unat ?c" using pc(7) by simp
    then have sx: "sizeof (take (unat ?c) (drop p ?f)) = ?c" by (metis of_nat_unat ucast_id)
    have ne: "\<not> blk_cnt (fb_blk fb) \<le> kfb_block fb" using pc(1) by simp
    let ?fb = "fb\<lparr>fb_seek := fb_seek fb + ucast ?c\<rparr>"
    have l31: "length ?f < 2 ^ 31" using less.prems(1) file_length(1) [OF v] by (simp add: fb_ok_def)
    have q: "unat (fb_seek ?fb) = p + unat ?c" using seek_forward [OF less.prems(2), of ?c] pc(7) l31 by simp
    have ok: "fb_ok ?fb" using less.prems(1) q pc(7) by (simp add: fb_ok_def file_bytes_def)
    have u: "unat (n - ?c) = unat n - unat ?c" using pc(6) by (simp add: unat_sub word_le_nat_alt)
    obtain r where r: "kfileblock_read vt (n - ?c) ?fb = Some (take (unat n - unat ?c) (drop (p + unat ?c) ?f), ?fb\<lparr>fb_seek := r\<rparr>)"
      "unat r = min (p + unat n) (length ?f)"
      using less.hyps [OF _ ok q, of "n - ?c"] pc(5,6) u by (auto simp: file_bytes_def)
    have "kfileblock_read vt n fb = Some (take (unat ?c) (drop p ?f) @ take (unat n - unat ?c) (drop (p + unat ?c) ?f), fb\<lparr>fb_seek := r\<rparr>)"
      using 3(1) s0 ne x sx r(1) by (subst kfileblock_read.simps) (simp add: Let_def)
    also have "take (unat ?c) (drop p ?f) @ take (unat n - unat ?c) (drop (p + unat ?c) ?f) = take (unat n) (drop p ?f)"
      using take_add [of "unat ?c" "unat n - unat ?c" "drop p ?f"] pc(6) by (simp add: add.commute)
    finally show ?thesis using r(2) by blast
  qed
qed

end

context block_device
begin

lemma file_write:
  assumes "fb_ok fb" "unat (fb_seek fb) = p" "p + length x \<le> length (file_bytes blk fb)" "length x < 65536"
  shows "\<exists>fb'. kfileblock_write vt x fb = Some (sizeof x, fb') \<and> fb_ok fb' \<and> file_bytes blk fb' = mem_write (file_bytes blk fb) p x \<and>
    unat (fb_seek fb') = p + length x"
  using assms
proof (induction "length x" arbitrary: x fb p rule: less_induct)
  case less
  have s0: "blk_size (fb_blk fb) \<noteq> 0" and v: "valid (fb_blk fb)" using less.prems by (auto simp: fb_ok_def)
  have ux: "unat (sizeof x) = length x" using less.prems(4) by (simp add: unat_of_nat)
  show ?case
  proof (cases "x = []")
    case True
    then show ?thesis using less.prems by (intro exI [of _ fb]) (subst kfileblock_write.simps, simp add: mem_write_def)
  next
    case False
    let ?c = "kfb_count (sizeof x) fb" and ?s = "unat (blk_size (fb_blk fb))" and ?f = "file_bytes blk fb" and ?a = "kb_array blk (fb_blk fb)"
    have nz: "sizeof x \<noteq> 0" using ux False by auto
    have p: "p < length ?f" using less.prems(3) False by (cases x) auto
    note pc = piece [OF less.prems(1,2) p nz]
    let ?x = "take (unat ?c) x"
    have i: "p div ?s < length ?a" using pc(1,2) by (simp add: kb_array_def word_less_nat_alt)
    have lx: "length ?x = unat ?c" using pc(6) ux by simp
    then have sx: "sizeof ?x = ?c" by (metis of_nat_unat ucast_id)
    obtain b where b: "kblock_write vt (fb_blk fb) (kfb_block fb) ?x (kfb_offset fb) = Some (?c, b)" "valid b" "same_window (fb_blk fb) b"
      "\<forall>j < unat (blk_cnt (fb_blk fb)). content b j =
        ((content (fb_blk fb))(unat (kfb_block fb) := mem_write (content (fb_blk fb) (unat (kfb_block fb))) (unat (kfb_offset fb)) ?x)) j"
      using write_content [OF v pc(1), of "kfb_offset fb" ?x] pc(4) lx sx less.prems(1) by (auto simp: fb_ok_def)
    have sw: "blk_size b = blk_size (fb_blk fb)" "blk_cnt b = blk_cnt (fb_blk fb)" "kblock_partialWrite b = kblock_partialWrite (fb_blk fb)"
      using b(3) by (simp_all add: same_window_def)
    have "kb_array blk b = ?a[p div ?s := mem_write (content (fb_blk fb) (p div ?s)) (p mod ?s) ?x]"
      using b(4) pc(2,3) sw(2) by (intro kb_array_eqI) simp_all
    moreover have "?a ! (p div ?s) = content (fb_blk fb) (p div ?s)" using i by (simp add: kb_array_def)
    ultimately have fb1: "concat (kb_array blk b) = mem_write ?f p ?x"
      using concat_write [OF i file_length(2) [OF v], of "p mod ?s" ?x] pc(3,4,8) lx by (simp add: file_bytes_def)
    let ?fb = "fb\<lparr>fb_seek := fb_seek fb + ucast ?c, fb_blk := b\<rparr>"
    have l31: "length ?f < 2 ^ 31" using less.prems(1) file_length(1) [OF v] by (simp add: fb_ok_def)
    have q: "unat (fb_seek ?fb) = p + unat ?c" using seek_forward [OF less.prems(2), of ?c] pc(7) l31 by simp
    have f1: "file_bytes blk ?fb = mem_write ?f p ?x" using fb1 by (simp add: file_bytes_def)
    have l1: "length (file_bytes blk ?fb) = length ?f" using f1 lx pc(7) by simp
    have ok: "fb_ok ?fb" using less.prems(1) b(2) sw q l1 pc(7) by (simp add: fb_ok_def)
    let ?y = "drop (unat ?c) x"
    have "\<exists>fb'. kfileblock_write vt ?y ?fb = Some (sizeof ?y, fb') \<and> fb_ok fb' \<and> file_bytes blk fb' = mem_write (file_bytes blk ?fb) (p + unat ?c) ?y \<and>
        unat (fb_seek fb') = p + unat ?c + length ?y"
      by (rule less.hyps) (use pc(5-7) ux less.prems(3,4) q ok l1 in auto)
    then obtain fb' where r: "kfileblock_write vt ?y ?fb = Some (sizeof ?y, fb')" "fb_ok fb'"
      "file_bytes blk fb' = mem_write (mem_write ?f p ?x) (p + length ?x) ?y" "unat (fb_seek fb') = p + length x"
      using f1 lx pc(6) ux by auto
    have ne: "\<not> blk_cnt (fb_blk fb) \<le> kfb_block fb" using pc(1) by simp
    have "?c + sizeof ?y = sizeof (?x @ ?y)" using sx by (metis length_append of_nat_add)
    then have "kfileblock_write vt x fb = Some (sizeof x, fb')"
      using nz s0 ne b(1) r(1) by (subst kfileblock_write.simps) (simp add: Let_def)
    moreover have "file_bytes blk fb' = mem_write ?f p x"
      using r(3) mem_write_append [of p ?x ?y ?f] less.prems(3) by simp
    ultimately show ?thesis using r(2,4) by blast
  qed
qed

text \<open>What is written is read back, everything else stays.\<close>

lemma write_read:
  assumes "fb_ok fb" "unat (fb_seek fb) = p" "p + length x \<le> length (file_bytes blk fb)" "length x < 65536"
    "unat q \<le> length (file_bytes blk fb)"
  shows "\<exists>fb1 fb2. kfileblock_write vt x fb = Some (sizeof x, fb1) \<and>
    kfileblock_read vt n (fb1\<lparr>fb_seek := q\<rparr>) = Some (take (unat n) (drop (unat q) (mem_write (file_bytes blk fb) p x)), fb2)"
proof -
  obtain fb1 where w: "kfileblock_write vt x fb = Some (sizeof x, fb1)" "fb_ok fb1" "file_bytes blk fb1 = mem_write (file_bytes blk fb) p x"
    using file_write [OF assms(1-4)] by blast
  have f: "file_bytes blk (fb1\<lparr>fb_seek := q\<rparr>) = file_bytes blk fb1" by (simp add: file_bytes_def)
  have "fb_ok (fb1\<lparr>fb_seek := q\<rparr>)" using w(2,3) assms(3,5) f by (simp add: fb_ok_def)
  from file_read [OF this refl, of n] show ?thesis using w f by auto
qed

end

text \<open>
  C22. A file on a block device in memory, with or without a buffer, reads back what was written. Data of any length that fits, written
  at any position, across blocks, is what a later read at its position gives; a read anywhere else gives the bytes that were there.
\<close>

theorem kfileblock_roundtrip:
  assumes "kblockram_init m n sz buffered hw = Some (vt, b)" and "length m = unat n" and "buffered \<longrightarrow> 2 * unat sz \<le> unat n"
    and "unat p + length x \<le> length (concat (ram_area m sz buffered))" and "unat q \<le> length (concat (ram_area m sz buffered))"
  shows "\<exists>fb1 fb2. kfileblock_write vt x ((kfileblock_init b)\<lparr>fb_seek := p\<rparr>) = Some (sizeof x, fb1) \<and>
    kfileblock_read vt k (fb1\<lparr>fb_seek := q\<rparr>) =
      Some (take (unat k) (drop (unat q) (mem_write (concat (ram_area m sz buffered)) (unat p) x)), fb2)"
proof -
  have s0: "sz \<noteq> 0" using assms(1) by (auto simp: kblockram_init_def ASSERT_def bind_eq_Some_conv split: if_splits)
  let ?fb = "(kfileblock_init b)\<lparr>fb_seek := p\<rparr>" and ?a = "ram_area m sz buffered"
  have dev: "block_device vt ram_blk ram_nblk w buffered \<Longrightarrow> kb_valid ram_blk ram_nblk w buffered b \<Longrightarrow> buffered \<or> kblock_partialWrite b \<Longrightarrow>
      blk_size b = sz \<Longrightarrow> unat (blk_cnt b) * unat sz \<le> length m \<Longrightarrow> kb_array ram_blk b = ?a \<Longrightarrow> ?thesis" for w
  proof -
    assume d: "block_device vt ram_blk ram_nblk w buffered" and v: "kb_valid ram_blk ram_nblk w buffered b" and pw: "buffered \<or> kblock_partialWrite b"
      and bs: "blk_size b = sz" and bc: "unat (blk_cnt b) * unat sz \<le> length m" and a: "kb_array ram_blk b = ?a"
    have fb: "fb_blk ?fb = b" "fb_seek ?fb = p" "file_bytes ram_blk ?fb = concat ?a" using a by (simp_all add: kfileblock_init_def file_bytes_def)
    have l: "length (concat ?a) = unat (blk_cnt b) * unat sz" using block_device.file_length(1) [OF d, of ?fb] v fb bs by simp
    have m16: "length m < 65536" using assms(2) by simp
    have "block_device.fb_ok ram_blk ram_nblk w buffered ?fb"
      using v pw bs s0 bc m16 assms(4) l unfolding block_device.fb_ok_def [OF d] fb by simp
    from block_device.write_read [OF d this, of "unat p" x q k] show ?thesis using assms(4,5) l bc m16 fb by simp
  qed
  show ?thesis
  proof (cases buffered)
    case True
    then have t: "buffered = True" by simp
    note i = init_buffered [OF assms(2) s0 assms(3) [rule_format, OF True] assms(1) [unfolded t]]
    have "unat (blk_cnt b) * unat sz \<le> length m" using i(3) le_trans [OF div_times_less_eq_dividend [of "length m - unat sz" "unat sz"] diff_le_self] by simp
    then show ?thesis using dev [of "\<lambda>b j. True"] dev [of "\<lambda>b j. j < unat (blk_cnt b)"] i True
        ram_hw.block_device_axioms ram_sw.block_device_axioms by (cases hw) auto
  next
    case False
    then have t: "buffered = False" by simp
    note i = init_plain [OF assms(2) s0 assms(1) [unfolded t]]
    have "unat (blk_cnt b) * unat sz \<le> length m" using i(3) by simp
    then show ?thesis using dev [of "\<lambda>b j. j < unat (blk_cnt b)"] i False ram_plain.block_device_axioms by auto
  qed
qed

theorem kfileblock_roundtrip_witness:
  "\<exists>vt b fb1 fb2. kblockram_init (replicate 8 0) 8 2 True False = Some (vt, b) \<and>
     kfileblock_write vt [1, 2, 3, 4] ((kfileblock_init b)\<lparr>fb_seek := 1\<rparr>) = Some (4, fb1) \<and>
     kfileblock_read vt 6 (fb1\<lparr>fb_seek := 0\<rparr>) = Some ([0, 1, 2, 3, 4, 0], fb2)"
proof -
  have "\<exists>vt b. kblockram_init (replicate 8 0) 8 2 True False = Some (vt, b)" by (simp add: kblockram_init_def ASSERT_def kblockram_load_def ram_addr_def)
  then obtain vt b where b: "kblockram_init (replicate 8 0) 8 2 True False = Some (vt, b)" by blast
  have a: "ram_area (replicate 8 0) 2 True = [[0, 0], [0, 0], [0, 0]]" by code_simp
  from kfileblock_roundtrip [OF b, of 1 "[1, 2, 3, 4]" 0 6] b a show ?thesis by (auto simp: mem_write_def)
qed

end
