(* ===== verification/Hashtable.thy ===== *)
theory Hashtable
  imports Aprs_Prelude "HOL-Library.Monad_Syntax"
begin

text \<open>
  The hash table of \<^verbatim>\<open>bertos/struct/hashtable.[ch]\<close>: open addressing in a table of a power of two nodes, with double hashing and an odd
  step, so that the whole table is probed. A node is a pointer to the data, 0 for an empty one. The key is kept in the table, cut to 15
  bytes, or comes from the data by a hook of the client, here the parameter \<open>hook\<close>; a key is a list of at most 255 bytes, its length being
  an argument of 8 bits in the code. The probing loop is a partial function; that it ends is part of what is shown. The assertion of
  \<^verbatim>\<open>key_internal_get_ptr\<close> holds since every index is masked.
\<close>

section \<open>The table\<close>

type_synonym node = u16

record HashTable =
  ht_mem :: "node list"
  max_elts_log2 :: u16
  key_internal :: bool
  key_mem :: bytes

definition INTERNAL_KEY_MAX_LENGTH :: nat where "INTERNAL_KEY_MAX_LENGTH = 15"

definition ROTL :: "u16 \<Rightarrow> nat \<Rightarrow> u16" where
  "ROTL v r = push_bit r v OR drop_bit (16 - r) v"

definition ROTR :: "u16 \<Rightarrow> nat \<Rightarrow> u16" where
  "ROTR v r = drop_bit r v OR push_bit (16 - r) v"

definition key_internal_get_ptr :: "nat \<Rightarrow> nat" where
  "key_internal_get_ptr index = index * (INTERNAL_KEY_MAX_LENGTH + 1)"

text \<open>The first byte of a key in the table is its length.\<close>

definition node_get_key :: "(node \<Rightarrow> bytes) \<Rightarrow> HashTable \<Rightarrow> nat \<Rightarrow> bytes" where
  "node_get_key hook ht j =
     (if key_internal ht then let k = key_internal_get_ptr j in take (unat (key_mem ht ! k)) (drop (k + 1) (key_mem ht))
      else hook (ht_mem ht ! j))"

definition node_key_match :: "(node \<Rightarrow> bytes) \<Rightarrow> HashTable \<Rightarrow> nat \<Rightarrow> bytes \<Rightarrow> bool" where
  "node_key_match hook ht j key \<longleftrightarrow> length key = length (node_get_key hook ht j) \<and> key = node_get_key hook ht j"

text \<open>Characters are signed.\<close>

definition calc_hash :: "bytes \<Rightarrow> u16" where
  "calc_hash key =
     (let hash = fold (\<lambda>c h. ROTL h 4 XOR scast c) key (word_of_nat (length key))
      in hash XOR drop_bit 6 hash XOR drop_bit 13 hash)"

definition ht_mask :: "HashTable \<Rightarrow> u16" where
  "ht_mask ht = push_bit (unat (max_elts_log2 ht)) 1 - 1"

definition ht_step :: "HashTable \<Rightarrow> bytes \<Rightarrow> u16" where
  "ht_step ht key = (ROTR (calc_hash key) (unat (max_elts_log2 ht)) AND ht_mask ht) OR 1"

definition node_fits :: "(node \<Rightarrow> bytes) \<Rightarrow> HashTable \<Rightarrow> bytes \<Rightarrow> nat \<Rightarrow> bool" where
  "node_fits hook ht key j \<longleftrightarrow> ht_mem ht ! j = 0 \<or> node_key_match hook ht j key"

text \<open>The loop of \<^verbatim>\<open>perform_lookup\<close>; the result \<open>Some None\<close> is a null pointer.\<close>

partial_function (option) probe :: "(node \<Rightarrow> bytes) \<Rightarrow> HashTable \<Rightarrow> bytes \<Rightarrow> u16 \<Rightarrow> u16 \<Rightarrow> u16 option option" where
  "probe hook ht key first_index index =
     (let index = (index + ht_step ht key) AND ht_mask ht
      in if node_fits hook ht key (unat index) then Some (Some index)
         else if index \<noteq> first_index then probe hook ht key first_index index
         else Some None)"

definition perform_lookup :: "(node \<Rightarrow> bytes) \<Rightarrow> HashTable \<Rightarrow> bytes \<Rightarrow> u16 option option" where
  "perform_lookup hook ht key =
     (let index = calc_hash key AND ht_mask ht
      in if node_fits hook ht key (unat index) then Some (Some index) else probe hook ht key index index)"

definition ht_init :: "HashTable \<Rightarrow> HashTable" where
  "ht_init ht = ht\<lparr>ht_mem := replicate (2 ^ unat (max_elts_log2 ht)) 0\<rparr>"

definition cut_key :: "HashTable \<Rightarrow> bytes \<Rightarrow> bytes" where
  "cut_key ht key = (if key_internal ht then take INTERNAL_KEY_MAX_LENGTH key else key)"

definition insert_node :: "(node \<Rightarrow> bytes) \<Rightarrow> HashTable \<Rightarrow> bytes \<Rightarrow> node \<Rightarrow> (bool \<times> HashTable) option" where
  "insert_node hook ht key data =
     (if data = 0 then Some (False, ht)
      else let key = cut_key ht key in
        do { r \<leftarrow> perform_lookup hook ht key;
             Some (case r of
               None \<Rightarrow> (False, ht)
             | Some j \<Rightarrow>
                 let ht = (if key_internal ht
                           then ht\<lparr>key_mem := mem_write (key_mem ht) (key_internal_get_ptr (unat j)) (word_of_nat (length key) # key)\<rparr> else ht)
                 in (True, ht\<lparr>ht_mem := (ht_mem ht)[unat j := data]\<rparr>)) })"

text \<open>
  With keys that come from the data, the key given must be the one of the data; the hook cannot be used with keys in the table. Both
  are assertions of a build for debugging.
\<close>

definition ht_insert_with_key :: "(node \<Rightarrow> bytes) \<Rightarrow> HashTable \<Rightarrow> bytes \<Rightarrow> node \<Rightarrow> (bool \<times> HashTable) option" where
  "ht_insert_with_key hook ht key data =
     do { ASSERT (\<not> key_internal ht \<longrightarrow> hook data = key);
          insert_node hook ht key data }"

definition ht_insert :: "(node \<Rightarrow> bytes) \<Rightarrow> HashTable \<Rightarrow> node \<Rightarrow> (bool \<times> HashTable) option" where
  "ht_insert hook ht data =
     do { ASSERT (\<not> key_internal ht);
          insert_node hook ht (hook data) data }"

definition ht_find :: "(node \<Rightarrow> bytes) \<Rightarrow> HashTable \<Rightarrow> bytes \<Rightarrow> node option" where
  "ht_find hook ht key =
     do { r \<leftarrow> perform_lookup hook ht (cut_key ht key);
          Some (case r of None \<Rightarrow> 0 | Some j \<Rightarrow> ht_mem ht ! unat j) }"

text \<open>Iterators: the position in the table, which is at its end when there is no further node.\<close>

fun skip_empty :: "node list \<Rightarrow> nat \<Rightarrow> nat" where
  "skip_empty [] pos = pos"
| "skip_empty (x # xs) pos = (if x = 0 then skip_empty xs (pos + 1) else pos)"

definition ht_iter_begin :: "HashTable \<Rightarrow> nat" where
  "ht_iter_begin ht = skip_empty (ht_mem ht) 0"

definition ht_iter_end :: "HashTable \<Rightarrow> nat" where
  "ht_iter_end ht = 2 ^ unat (max_elts_log2 ht)"

definition ht_iter_get :: "HashTable \<Rightarrow> nat \<Rightarrow> node" where
  "ht_iter_get ht pos = ht_mem ht ! pos"

definition ht_iter_next :: "HashTable \<Rightarrow> nat \<Rightarrow> nat" where
  "ht_iter_next ht pos = skip_empty (drop (pos + 1) (ht_mem ht)) (pos + 1)"

section \<open>Probing\<close>

text \<open>The node of a key at its \<open>i\<close>-th probe.\<close>

definition slot :: "HashTable \<Rightarrow> bytes \<Rightarrow> nat \<Rightarrow> nat" where
  "slot ht key i = (unat (calc_hash key) + i * unat (ht_step ht key)) mod 2 ^ unat (max_elts_log2 ht)"

lemma unat_and_mask:
  assumes "unat (max_elts_log2 ht) < 16"
  shows "unat (x AND ht_mask ht) = unat x mod 2 ^ unat (max_elts_log2 ht)"
proof -
  have "ht_mask ht = mask (unat (max_elts_log2 ht))" by (simp add: ht_mask_def mask_eq_exp_minus_1 push_bit_eq_mult)
  then have "x AND ht_mask ht = take_bit (unat (max_elts_log2 ht)) x" by (simp add: take_bit_eq_mask)
  then show ?thesis by (metis take_bit_eq_mod unsigned_take_bit_eq)
qed

lemma unat_add_mask:
  assumes "unat (max_elts_log2 ht) < 16"
  shows "unat ((x + y) AND ht_mask ht) = (unat x + unat y) mod 2 ^ unat (max_elts_log2 ht)"
proof -
  have "(2 :: nat) ^ unat (max_elts_log2 ht) dvd 2 ^ 16" using assms by (intro le_imp_power_dvd) simp
  then have "(unat x + unat y) mod 2 ^ 16 mod 2 ^ unat (max_elts_log2 ht) = (unat x + unat y) mod 2 ^ unat (max_elts_log2 ht)"
    by (rule mod_mod_cancel)
  then show ?thesis unfolding unat_and_mask [OF assms] by (simp add: unat_word_ariths)
qed

lemma step_odd: "odd (unat (ht_step ht key))"
proof -
  have "bit (ht_step ht key) 0" by (simp add: ht_step_def bit_or_iff)
  then have "odd (ht_step ht key)" by (simp add: bit_0)
  then show ?thesis by (metis even_of_nat of_nat_unat ucast_id)
qed

text \<open>Every node is probed exactly once before the first comes again.\<close>

lemma odd_step_inj:
  fixes h s i j :: nat
  assumes "odd s" "i < 2 ^ k" "j < 2 ^ k" "(h + i * s) mod 2 ^ k = (h + j * s) mod 2 ^ k"
  shows "i = j"
proof -
  let ?n = "2 ^ k :: int"
  have "coprime (int s) ?n" using assms(1) by (simp add: coprime_power_right_iff)
  moreover have "?n dvd (int i - int j) * int s"
  proof -
    have "int ((h + i * s) mod 2 ^ k) = int ((h + j * s) mod 2 ^ k)" using assms(4) by simp
    then have "int (h + i * s) mod ?n = int (h + j * s) mod ?n" by (simp add: zmod_int)
    then have "?n dvd int (h + i * s) - int (h + j * s)" by (simp add: mod_eq_dvd_iff)
    then show ?thesis by (simp add: algebra_simps)
  qed
  ultimately have "?n dvd int i - int j" by (metis coprime_commute coprime_dvd_mult_left_iff)
  moreover have "int i < ?n" "int j < ?n" using assms(2,3) by (metis of_nat_less_iff of_nat_numeral of_nat_power)+
  then have "\<bar>int i - int j\<bar> < ?n" by linarith
  ultimately show ?thesis using dvd_imp_le_int [of "int i - int j" ?n] by (cases "int i = int j") auto
qed

lemma slot_inj: "inj_on (slot ht key) {0..<2 ^ unat (max_elts_log2 ht)}"
  using odd_step_inj [OF step_odd] by (auto simp: inj_on_def slot_def)

abbreviation ht_size :: "HashTable \<Rightarrow> nat" where "ht_size ht \<equiv> 2 ^ unat (max_elts_log2 ht)"

lemma slot_less: "slot ht key i < ht_size ht"
  by (simp add: slot_def)

lemma slot_Suc: "(slot ht key i + unat (ht_step ht key)) mod ht_size ht = slot ht key (Suc i)"
proof -
  let ?h = "unat (calc_hash key)" and ?s = "unat (ht_step ht key)"
  have "?h + Suc i * ?s = ?h + i * ?s + ?s" by simp
  then show ?thesis unfolding slot_def by (simp only: mod_add_left_eq)
qed

lemma slot_again: "slot ht key (ht_size ht) = slot ht key 0"
  by (simp add: slot_def)

lemma probe_finds:
  assumes k: "unat (max_elts_log2 ht) < 16" and i: "i < ht_size ht" "unat index = slot ht key i" "unat first_index = slot ht key 0"
    and no: "\<forall>j \<le> i. \<not> node_fits hook ht key (slot ht key j)"
  shows "\<exists>r. probe hook ht key first_index index = Some r \<and>
    map_option unat r = map_option (slot ht key) (find (\<lambda>j. node_fits hook ht key (slot ht key j)) [Suc i..<ht_size ht])"
  using i no
proof (induction "ht_size ht - i" arbitrary: i index)
  case (Suc x)
  let ?n = "ht_size ht" and ?ix = "(index + ht_step ht key) AND ht_mask ht" and ?fit = "\<lambda>j. node_fits hook ht key (slot ht key j)"
  have u: "unat ?ix = slot ht key (Suc i)" using unat_add_mask [OF k, of index "ht_step ht key"] slot_Suc [of ht key i] Suc.prems(2) by simp
  show ?case
  proof (cases "Suc i = ?n")
    case True
    then have "unat ?ix = slot ht key 0" using u slot_again [of ht key] by simp
    then have "?ix = first_index" "\<not> node_fits hook ht key (unat ?ix)" using Suc.prems(3,4) by (auto simp: word_unat_eq_iff)
    then show ?thesis using True by (subst probe.simps) simp
  next
    case False
    then have s: "Suc i < ?n" using Suc.prems(1) by simp
    then have f: "find ?fit [Suc i..<?n] = (if ?fit (Suc i) then Some (Suc i) else find ?fit [Suc (Suc i)..<?n])" by (simp add: upt_rec [of "Suc i"])
    show ?thesis
    proof (cases "?fit (Suc i)")
      case True
      then show ?thesis using u f by (subst probe.simps) simp
    next
      case no: False
      have "slot ht key (Suc i) \<noteq> slot ht key 0" using inj_onD [OF slot_inj, of ht key "Suc i" 0] s by auto
      then have ne: "?ix \<noteq> first_index" using u Suc.prems(3) by auto
      have all: "\<forall>j \<le> Suc i. \<not> ?fit j" using no Suc.prems(4) by (auto simp: le_Suc_eq)
      have "\<exists>r. probe hook ht key first_index ?ix = Some r \<and> map_option unat r = map_option (slot ht key) (find ?fit [Suc (Suc i)..<?n])"
        using Suc.hyps(2) s u Suc.prems(3) all by (intro Suc.hyps(1)) auto
      then show ?thesis using no ne u f by (subst probe.simps) simp
    qed
  qed
qed simp

text \<open>The lookup ends, with the first node in the order of probing that is empty or has the key.\<close>

lemma lookup_finds:
  assumes k: "unat (max_elts_log2 ht) < 16"
  shows "\<exists>r. perform_lookup hook ht key = Some r \<and>
    map_option unat r = map_option (slot ht key) (find (\<lambda>j. node_fits hook ht key (slot ht key j)) [0..<ht_size ht])"
proof -
  let ?n = "ht_size ht" and ?ix = "calc_hash key AND ht_mask ht" and ?fit = "\<lambda>j. node_fits hook ht key (slot ht key j)"
  have u: "unat ?ix = slot ht key 0" using unat_and_mask [OF k] by (simp add: slot_def)
  have f: "find ?fit [0..<?n] = (if ?fit 0 then Some 0 else find ?fit [Suc 0..<?n])" by (simp add: upt_rec [of 0])
  show ?thesis
  proof (cases "?fit 0")
    case True
    then show ?thesis using u f by (simp add: perform_lookup_def)
  next
    case False
    then show ?thesis using probe_finds [OF k _ u u, of hook] u f by (simp add: perform_lookup_def Let_def)
  qed
qed

section \<open>Finding what was inserted\<close>

text \<open>
  A table that is used: every node in use was free when its key was probed there, and no node before it has its key. Keys in the
  table have at most 15 bytes.
\<close>

definition before :: "(node \<Rightarrow> bytes) \<Rightarrow> HashTable \<Rightarrow> bytes \<Rightarrow> nat \<Rightarrow> bool" where
  "before hook ht key i \<longleftrightarrow> (\<forall>i' < i. \<not> node_fits hook ht key (slot ht key i'))"

definition ht_ok :: "(node \<Rightarrow> bytes) \<Rightarrow> HashTable \<Rightarrow> bool" where
  "ht_ok hook ht \<longleftrightarrow> unat (max_elts_log2 ht) < 16 \<and> length (ht_mem ht) = ht_size ht \<and>
     (key_internal ht \<longrightarrow> length (key_mem ht) = ht_size ht * 16) \<and>
     (\<forall>j < ht_size ht. ht_mem ht ! j \<noteq> 0 \<longrightarrow>
        (key_internal ht \<longrightarrow> unat (key_mem ht ! (j * 16)) \<le> 15) \<and>
        (\<exists>i < ht_size ht. slot ht (node_get_key hook ht j) i = j \<and> before hook ht (node_get_key hook ht j) i))"

text \<open>The data of a key, 0 if there is none.\<close>

definition ht_get :: "(node \<Rightarrow> bytes) \<Rightarrow> HashTable \<Rightarrow> bytes \<Rightarrow> node" where
  "ht_get hook ht key = (case find (\<lambda>i. node_fits hook ht key (slot ht key i)) [0..<ht_size ht] of None \<Rightarrow> 0 | Some i \<Rightarrow> ht_mem ht ! slot ht key i)"

lemma find_gets: "ht_ok hook ht \<Longrightarrow> ht_find hook ht key = Some (ht_get hook ht (cut_key ht key))"
proof -
  let ?key = "cut_key ht key"
  assume "ht_ok hook ht"
  then obtain r where r: "perform_lookup hook ht ?key = Some r"
    "map_option unat r = map_option (slot ht ?key) (find (\<lambda>i. node_fits hook ht ?key (slot ht ?key i)) [0..<ht_size ht])"
    using lookup_finds [of ht hook ?key] by (auto simp: ht_ok_def)
  show ?thesis
  proof (cases "find (\<lambda>i. node_fits hook ht ?key (slot ht ?key i)) [0..<ht_size ht]")
    case None
    then show ?thesis using r by (simp add: ht_find_def ht_get_def)
  next
    case (Some i)
    then obtain j where "r = Some j" "unat j = slot ht ?key i" using r(2) by (cases r) auto
    then show ?thesis using r(1) Some by (simp add: ht_find_def ht_get_def)
  qed
qed

lemma find_upt_Some: "find P [0..<n] = Some i \<longleftrightarrow> i < n \<and> P i \<and> (\<forall>i' < i. \<not> P i')"
  by (auto simp: find_Some_iff)

lemma find_upt_None: "find P [0..<n] = None \<longleftrightarrow> (\<forall>i < n. \<not> P i)"
  by (auto simp: find_None_iff)

text \<open>In terms of the nodes: a key has data exactly if a node in use has the key, and then the data of that node.\<close>

lemma get_iff:
  assumes ok: "ht_ok hook ht" and d: "d \<noteq> 0"
  shows "ht_get hook ht key = d \<longleftrightarrow> (\<exists>j < ht_size ht. ht_mem ht ! j = d \<and> node_get_key hook ht j = key)"
proof
  assume "ht_get hook ht key = d"
  then obtain i where i: "find (\<lambda>i. node_fits hook ht key (slot ht key i)) [0..<ht_size ht] = Some i" "ht_mem ht ! slot ht key i = d"
    using d by (auto simp: ht_get_def split: option.splits)
  then have "node_get_key hook ht (slot ht key i) = key" using d by (auto simp: find_upt_Some node_fits_def node_key_match_def)
  with i(2) slot_less [of ht key i] show "\<exists>j < ht_size ht. ht_mem ht ! j = d \<and> node_get_key hook ht j = key" by blast
next
  assume "\<exists>j < ht_size ht. ht_mem ht ! j = d \<and> node_get_key hook ht j = key"
  then obtain j where j: "j < ht_size ht" "ht_mem ht ! j = d" "node_get_key hook ht j = key" by blast
  then obtain i where i: "i < ht_size ht" "slot ht key i = j" "before hook ht key i" using ok d by (auto simp: ht_ok_def)
  have "node_fits hook ht key j" using j(3) by (simp add: node_fits_def node_key_match_def)
  then have "find (\<lambda>i. node_fits hook ht key (slot ht key i)) [0..<ht_size ht] = Some i" using i by (simp add: find_upt_Some before_def)
  then show "ht_get hook ht key = d" using i(2) j(2) by (simp add: ht_get_def)
qed

lemma mem_write_nth:
  "off + length x \<le> length m \<Longrightarrow> i < length m \<Longrightarrow> mem_write m off x ! i = (if off \<le> i \<and> i < off + length x then x ! (i - off) else m ! i)"
  by (auto simp: mem_write_def nth_append)

text \<open>The keys after a node has been written.\<close>

lemma key_written:
  assumes "length m = n * 16" "j < n" "length key \<le> 15" "j' < n" "j' \<noteq> j \<Longrightarrow> unat (m ! (j' * 16)) \<le> 15"
  defines "m' \<equiv> mem_write m (j * 16) ((word_of_nat (length key) :: u8) # key)"
  shows "take (unat (m' ! (j' * 16))) (drop (j' * 16 + 1) m') = (if j' = j then key else take (unat (m ! (j' * 16))) (drop (j' * 16 + 1) m))"
    "unat (m' ! (j' * 16)) = (if j' = j then length key else unat (m ! (j' * 16)))" "length m' = length m"
proof -
  have r: "j * 16 + 16 \<le> length m" "j' * 16 + 16 \<le> length m" using assms(1,2,4) by auto
  then have fit: "j * 16 + length ((word_of_nat (length key) :: u8) # key) \<le> length m" using assms(3) by simp
  then show l: "length m' = length m" by (simp add: m'_def)
  have nth: "m' ! i = (if j * 16 \<le> i \<and> i < j * 16 + length key + 1 then ((word_of_nat (length key) :: u8) # key) ! (i - j * 16) else m ! i)" if "i < length m" for i
    using mem_write_nth [OF fit that] by (simp add: m'_def)
  have lk: "unat (word_of_nat (length key) :: u8) = length key" using assms(3) by (simp add: unat_of_nat)
  have out: "\<not> (j * 16 \<le> i \<and> i < j * 16 + length key + 1)" if "j' \<noteq> j" "j' * 16 \<le> i" "i < j' * 16 + 16" for i using that assms(3) by linarith
  show b: "unat (m' ! (j' * 16)) = (if j' = j then length key else unat (m ! (j' * 16)))"
    using nth [of "j' * 16"] r lk out [of "j' * 16"] by auto
  show "take (unat (m' ! (j' * 16))) (drop (j' * 16 + 1) m') = (if j' = j then key else take (unat (m ! (j' * 16))) (drop (j' * 16 + 1) m))"
  proof (cases "j' = j")
    case True
    have "take (length key) (drop (j * 16 + 1) m') = key"
      by (rule nth_equalityI) (use l r assms(3) nth in \<open>auto simp: nth_Cons'\<close>)
    then show ?thesis using b True by simp
  next
    case False
    have same: "m' ! i = m ! i" if "j' * 16 \<le> i" "i < j' * 16 + 16" for i using nth [of i] out [OF False that] r that by auto
    have "take (unat (m ! (j' * 16))) (drop (j' * 16 + 1) m') = take (unat (m ! (j' * 16))) (drop (j' * 16 + 1) m)"
    proof (rule nth_equalityI)
      fix i
      assume "i < length (take (unat (m ! (j' * 16))) (drop (j' * 16 + 1) m'))"
      then show "take (unat (m ! (j' * 16))) (drop (j' * 16 + 1) m') ! i = take (unat (m ! (j' * 16))) (drop (j' * 16 + 1) m) ! i"
        using same [of "j' * 16 + 1 + i"] assms(5) [OF False] r l by (simp add: nth_drop)
    qed (simp add: l)
    then show ?thesis using b False by simp
  qed
qed

text \<open>What an insertion writes to node \<open>j\<close>.\<close>

definition put_node :: "HashTable \<Rightarrow> nat \<Rightarrow> bytes \<Rightarrow> node \<Rightarrow> HashTable" where
  "put_node ht j key d =
     (if key_internal ht then ht\<lparr>key_mem := mem_write (key_mem ht) (key_internal_get_ptr j) (word_of_nat (length key) # key)\<rparr> else ht)
       \<lparr>ht_mem := (ht_mem ht)[j := d]\<rparr>"

lemma put_sel [simp]:
  "max_elts_log2 (put_node ht j key d) = max_elts_log2 ht" "key_internal (put_node ht j key d) = key_internal ht"
  "ht_mem (put_node ht j key d) = (ht_mem ht)[j := d]" "slot (put_node ht j key d) = slot ht" "cut_key (put_node ht j key d) = cut_key ht"
  by (auto simp: put_node_def slot_def ht_step_def ht_mask_def cut_key_def fun_eq_iff)

lemma put_key:
  assumes ok: "ht_ok hook ht" and j: "j < ht_size ht" and key: "if key_internal ht then length key \<le> 15 else hook d = key"
    and j': "j' < ht_size ht" "j' \<noteq> j \<Longrightarrow> ht_mem ht ! j' \<noteq> 0"
  shows "node_get_key hook (put_node ht j key d) j' = (if j' = j then key else node_get_key hook ht j')"
    "key_internal ht \<Longrightarrow> unat (key_mem (put_node ht j key d) ! (j' * 16)) \<le> 15"
    "key_internal ht \<Longrightarrow> length (key_mem (put_node ht j key d)) = ht_size ht * 16"
proof -
  show "node_get_key hook (put_node ht j key d) j' = (if j' = j then key else node_get_key hook ht j')"
  proof (cases "key_internal ht")
    case True
    then show ?thesis using key_written(1) [of "key_mem ht" "ht_size ht" j key j'] ok key j j'
      by (auto simp: node_get_key_def put_node_def key_internal_get_ptr_def INTERNAL_KEY_MAX_LENGTH_def ht_ok_def Let_def)
  next
    case False
    then show ?thesis using ok key j by (auto simp: node_get_key_def put_node_def ht_ok_def)
  qed
  assume i: "key_internal ht"
  then show "unat (key_mem (put_node ht j key d) ! (j' * 16)) \<le> 15" "length (key_mem (put_node ht j key d)) = ht_size ht * 16"
    using key_written(2,3) [of "key_mem ht" "ht_size ht" j key j'] ok key j j'
    by (auto simp: put_node_def key_internal_get_ptr_def INTERNAL_KEY_MAX_LENGTH_def ht_ok_def split: if_splits)
qed

lemma put_fits:
  assumes ok: "ht_ok hook ht" and j: "j < ht_size ht" and key: "if key_internal ht then length key \<le> 15 else hook d = key" and d: "d \<noteq> 0"
    and fit: "node_fits hook ht key j" and k': "\<not> node_fits hook ht key' j'" "j' < ht_size ht" "key' = key \<longrightarrow> j' \<noteq> j"
  shows "\<not> node_fits hook (put_node ht j key d) key' j'"
proof -
  have l: "length (ht_mem ht) = ht_size ht" using ok by (simp add: ht_ok_def)
  have o: "ht_mem ht ! j' \<noteq> 0" "node_get_key hook ht j' \<noteq> key'" using k'(1) by (auto simp: node_fits_def node_key_match_def)
  have "node_get_key hook (put_node ht j key d) j' = (if j' = j then key else node_get_key hook ht j')"
    by (rule put_key(1) [OF ok j key k'(2)]) (rule o(1))
  moreover have "j' = j \<Longrightarrow> key \<noteq> key'" using fit o k'(3) by (auto simp: node_fits_def node_key_match_def)
  moreover have "ht_mem (put_node ht j key d) ! j' \<noteq> 0" using o(1) d k'(2) l by (cases "j' = j") auto
  ultimately show ?thesis using o(2) by (auto simp: node_fits_def node_key_match_def split: if_splits)
qed

text \<open>
  In what follows key \<open>key\<close> with data \<open>d\<close> is written to the node its lookup finds, the \<open>i\<close>-th of its probes.
\<close>

definition put_at :: "(node \<Rightarrow> bytes) \<Rightarrow> HashTable \<Rightarrow> bytes \<Rightarrow> node \<Rightarrow> nat \<Rightarrow> bool" where
  "put_at hook ht key d i \<longleftrightarrow> ht_ok hook ht \<and> i < ht_size ht \<and> node_fits hook ht key (slot ht key i) \<and> before hook ht key i \<and>
     (if key_internal ht then length key \<le> 15 else hook d = key) \<and> d \<noteq> 0"

lemma put_atD:
  assumes "put_at hook ht key d i"
  shows "ht_ok hook ht" "i < ht_size ht" "node_fits hook ht key (slot ht key i)" "before hook ht key i"
    "if key_internal ht then length key \<le> 15 else hook d = key" "d \<noteq> 0" "length (ht_mem ht) = ht_size ht" "unat (max_elts_log2 ht) < 16"
  using assms by (auto simp: put_at_def ht_ok_def)

lemma put_before:
  assumes p: "put_at hook ht key d i" and b: "before hook ht key' i'" "key' = key \<longrightarrow> i' \<le> i" "i' \<le> ht_size ht"
  shows "before hook (put_node ht (slot ht key i) key d) key' i'"
  unfolding before_def put_sel
proof (intro allI impI)
  fix m
  assume m: "m < i'"
  have "key' = key \<longrightarrow> slot ht key' m \<noteq> slot ht key i" using inj_onD [OF slot_inj, of ht key m i] m b(2,3) put_atD(2) [OF p] by auto
  then show "\<not> node_fits hook (put_node ht (slot ht key i) key d) key' (slot ht key' m)"
    using put_fits [OF put_atD(1) [OF p] slot_less put_atD(5) [OF p] put_atD(6) [OF p] put_atD(3) [OF p] _ slot_less] b(1) m
    by (auto simp: before_def)
qed

text \<open>No other node has the key.\<close>

lemma put_other:
  assumes p: "put_at hook ht key d i" and j: "j < ht_size ht" "ht_mem ht ! j \<noteq> 0" "j \<noteq> slot ht key i"
  shows "\<exists>i' < ht_size ht. slot ht (node_get_key hook ht j) i' = j \<and> before hook ht (node_get_key hook ht j) i'"
    and "node_get_key hook ht j \<noteq> key"
proof -
  let ?k = "node_get_key hook ht j"
  show ex: "\<exists>i' < ht_size ht. slot ht ?k i' = j \<and> before hook ht ?k i'" using put_atD(1) [OF p] j(1,2) unfolding ht_ok_def by blast
  show "?k \<noteq> key"
  proof
    assume e: "?k = key"
    obtain i' where i': "slot ht ?k i' = j" "before hook ht ?k i'" using ex by blast
    have "node_fits hook ht key j" using e by (simp add: node_fits_def node_key_match_def)
    then have "\<not> i' < i" "\<not> i < i'" using i' put_atD(3,4) [OF p] e unfolding before_def by auto
    then show False using i'(1) e j(3) by (metis linorder_neqE_nat)
  qed
qed

lemma put_nodes:
  assumes p: "put_at hook ht key d i" and j: "j < ht_size ht"
  defines "ht' \<equiv> put_node ht (slot ht key i) key d"
  shows "ht_mem ht' ! j = (if j = slot ht key i then d else ht_mem ht ! j)"
    and "ht_mem ht' ! j \<noteq> 0 \<Longrightarrow> node_get_key hook ht' j = (if j = slot ht key i then key else node_get_key hook ht j)"
    and "ht_mem ht' ! j \<noteq> 0 \<Longrightarrow> key_internal ht \<Longrightarrow> unat (key_mem ht' ! (j * 16)) \<le> 15"
    and "key_internal ht \<Longrightarrow> length (key_mem ht') = ht_size ht * 16"
proof -
  note pk = put_key [OF put_atD(1) [OF p] slot_less put_atD(5) [OF p]]
  show mem: "ht_mem ht' ! j = (if j = slot ht key i then d else ht_mem ht ! j)" using j put_atD(7) [OF p] by (auto simp: ht'_def)
  show "ht_mem ht' ! j \<noteq> 0 \<Longrightarrow> node_get_key hook ht' j = (if j = slot ht key i then key else node_get_key hook ht j)"
    unfolding ht'_def by (rule pk(1) [OF j]) (use mem in \<open>simp add: ht'_def\<close>)
  show "ht_mem ht' ! j \<noteq> 0 \<Longrightarrow> key_internal ht \<Longrightarrow> unat (key_mem ht' ! (j * 16)) \<le> 15"
    unfolding ht'_def by (rule pk(2) [OF j]) (use mem in \<open>simp_all add: ht'_def\<close>)
  show "key_internal ht \<Longrightarrow> length (key_mem ht') = ht_size ht * 16"
    unfolding ht'_def by (rule pk(3) [OF slot_less [of ht key i]]) simp_all
qed

lemma put_ok:
  assumes p: "put_at hook ht key d i"
  shows "ht_ok hook (put_node ht (slot ht key i) key d)"
proof -
  let ?ht = "put_node ht (slot ht key i) key d"
  have node: "\<exists>i' < ht_size ht. slot ht (node_get_key hook ?ht j) i' = j \<and> before hook ?ht (node_get_key hook ?ht j) i'"
    if j: "j < ht_size ht" and used: "ht_mem ?ht ! j \<noteq> 0" for j
  proof (cases "j = slot ht key i")
    case True
    then show ?thesis using put_nodes(2) [OF p j used] put_atD(2) [OF p] put_before [OF p put_atD(4) [OF p]] by (intro exI [of _ i]) simp
  next
    case False
    let ?k = "node_get_key hook ht j"
    have u: "ht_mem ht ! j \<noteq> 0" using put_nodes(1) [OF p j] used False by simp
    obtain i' where i': "i' < ht_size ht" "slot ht ?k i' = j" "before hook ht ?k i'" using put_other(1) [OF p j u False] by blast
    then show ?thesis using put_nodes(2) [OF p j used] False put_before [OF p i'(3)] put_other(2) [OF p j u False] by (intro exI [of _ i']) simp
  qed
  show ?thesis
    unfolding ht_ok_def using node put_nodes(3,4) [OF p] put_atD(7,8) [OF p] slot_less [of ht key i] by simp
qed

text \<open>The key has the new data, every other key what it had.\<close>

lemma put_has:
  assumes p: "put_at hook ht key d i" and e: "e \<noteq> 0"
  shows "(\<exists>j < ht_size ht. ht_mem (put_node ht (slot ht key i) key d) ! j = e \<and> node_get_key hook (put_node ht (slot ht key i) key d) j = key') \<longleftrightarrow>
    (if key' = key then d = e else \<exists>j < ht_size ht. ht_mem ht ! j = e \<and> node_get_key hook ht j = key')" (is "?l \<longleftrightarrow> ?r")
proof
  assume ?l
  then obtain j where j: "j < ht_size ht" "ht_mem (put_node ht (slot ht key i) key d) ! j = e"
    "node_get_key hook (put_node ht (slot ht key i) key d) j = key'" by blast
  note n = put_nodes(1,2) [OF p j(1)]
  show ?r
  proof (cases "j = slot ht key i")
    case True
    then show ?thesis using n j e by simp
  next
    case False
    then have "ht_mem ht ! j = e" "node_get_key hook ht j = key'" using n j e by simp_all
    then show ?thesis using put_other(2) [OF p j(1) _ False] e j(1) by auto
  qed
next
  assume r: ?r
  show ?l
  proof (cases "key' = key")
    case True
    then show ?thesis using r put_nodes(1,2) [OF p slot_less [of ht key i]] put_atD(6) [OF p] slot_less [of ht key i]
      by (intro exI [of _ "slot ht key i"]) simp
  next
    case False
    then obtain j where j: "j < ht_size ht" "ht_mem ht ! j = e" "node_get_key hook ht j = key'" using r by auto
    have "j \<noteq> slot ht key i" using put_atD(3) [OF p] j e False by (auto simp: node_fits_def node_key_match_def)
    then show ?thesis using j put_nodes(1,2) [OF p j(1)] e by (intro exI [of _ j]) simp
  qed
qed

lemma put_get:
  assumes p: "put_at hook ht key d i"
  shows "ht_get hook (put_node ht (slot ht key i) key d) key' = (if key' = key then d else ht_get hook ht key')"
proof -
  let ?ht = "put_node ht (slot ht key i) key d"
  have "ht_get hook ?ht key' = e \<longleftrightarrow> (if key' = key then d = e else ht_get hook ht key' = e)" if "e \<noteq> 0" for e
    using put_has [OF p that, of key'] get_iff [OF put_ok [OF p] that, of key'] get_iff [OF put_atD(1) [OF p] that, of key'] by auto
  then show ?thesis using put_atD(6) [OF p] by metis
qed


section \<open>The operations\<close>

lemma lookup_cases [consumes 1]:
  assumes ok: "ht_ok hook ht"
  obtains (found) i j where "perform_lookup hook ht key = Some (Some j)" "unat j = slot ht key i" "i < ht_size ht"
      "node_fits hook ht key (slot ht key i)" "before hook ht key i"
    | (full) "perform_lookup hook ht key = Some None" "\<And>j. j < ht_size ht \<Longrightarrow> \<not> node_fits hook ht key j"
proof -
  let ?f = "find (\<lambda>i. node_fits hook ht key (slot ht key i)) [0..<ht_size ht]"
  obtain r where r: "perform_lookup hook ht key = Some r" "map_option unat r = map_option (slot ht key) ?f"
    using lookup_finds [of ht hook key] ok by (auto simp: ht_ok_def)
  show thesis
  proof (cases ?f)
    case None
    have "slot ht key ` {0..<ht_size ht} = {0..<ht_size ht}"
      by (rule endo_inj_surj) (auto simp: slot_less slot_inj)
    then have "\<exists>i < ht_size ht. slot ht key i = j" if "j < ht_size ht" for j using that by (metis atLeastLessThan_iff imageE zero_le)
    moreover have "\<forall>i < ht_size ht. \<not> node_fits hook ht key (slot ht key i)" using None by (simp add: find_upt_None)
    ultimately have "\<And>j. j < ht_size ht \<Longrightarrow> \<not> node_fits hook ht key j" by blast
    then show thesis using full r None by simp
  next
    case (Some i)
    then obtain j where "r = Some j" "unat j = slot ht key i" using r(2) by (cases r) auto
    then show thesis using found [of j i] r(1) Some by (simp add: find_upt_Some before_def)
  qed
qed

lemma insert_puts:
  "d \<noteq> 0 \<Longrightarrow> insert_node hook ht key d =
     map_option (case_option (False, ht) (\<lambda>j. (True, put_node ht (unat j) (cut_key ht key) d))) (perform_lookup hook ht (cut_key ht key))"
  by (auto simp: insert_node_def put_node_def Let_def split: option.splits bind_split)

lemma cut_length: "key_internal ht \<Longrightarrow> length (cut_key ht key) \<le> 15" "\<not> key_internal ht \<Longrightarrow> cut_key ht key = key"
  by (simp_all add: cut_key_def INTERNAL_KEY_MAX_LENGTH_def)

lemma init_ok:
  assumes "unat (max_elts_log2 ht) < 16" "key_internal ht \<longrightarrow> length (key_mem ht) = ht_size ht * 16"
  shows "ht_ok hook (ht_init ht)" "ht_find hook (ht_init ht) key = Some 0"
proof -
  show ok: "ht_ok hook (ht_init ht)" using assms by (simp add: ht_ok_def ht_init_def)
  have "\<not> (\<exists>j < ht_size (ht_init ht). ht_mem (ht_init ht) ! j = e \<and> node_get_key hook (ht_init ht) j = k)" if "e \<noteq> 0" for e k
    using that by (auto simp: ht_init_def)
  then have "ht_get hook (ht_init ht) k = 0" for k using get_iff [OF ok, of _ k] by blast
  then show "ht_find hook (ht_init ht) key = Some 0" by (simp add: find_gets [OF ok])
qed

text \<open>
  C23. An insertion into a table that is in order ends and leaves it in order. If it succeeds, a lookup of the key ends with the data, and of
  every other key with what it found before; keys in the table are compared by their first 15 bytes. It fails only for a null pointer or
  when every node is used by another key, and then nothing changes.
\<close>

theorem ht_insert_finds:
  assumes "ht_ok hook ht" "key_internal ht \<or> hook data = key"
  shows "\<exists>r ht'. ht_insert_with_key hook ht key data = Some (r, ht') \<and> ht_ok hook ht' \<and>
    (if r then \<forall>key'. ht_find hook ht' key' = (if cut_key ht key' = cut_key ht key then Some data else ht_find hook ht key')
     else ht' = ht \<and> (data = 0 \<or> (\<forall>j < 2 ^ unat (max_elts_log2 ht). ht_mem ht ! j \<noteq> 0 \<and> node_get_key hook ht j \<noteq> cut_key ht key)))"
proof (cases "data = 0")
  case True
  then show ?thesis using assms by (auto simp: ht_insert_with_key_def insert_node_def ASSERT_def)
next
  case False
  let ?key = "cut_key ht key"
  have ins: "ht_insert_with_key hook ht key data = insert_node hook ht key data" using assms(2) by (auto simp: ht_insert_with_key_def ASSERT_def)
  show ?thesis
    using assms(1)
  proof (cases rule: lookup_cases [where key = ?key])
    case (found i j)
    then have p: "put_at hook ht ?key data i" using assms False cut_length [of ht key] by (auto simp: put_at_def)
    have "ht_find hook (put_node ht (slot ht ?key i) ?key data) key' = (if cut_key ht key' = ?key then Some data else ht_find hook ht key')" for key'
      by (simp add: find_gets [OF put_ok [OF p]] find_gets [OF assms(1)] put_get [OF p])
    then show ?thesis using ins found(1,2) put_ok [OF p] by (intro exI [of _ True]) (simp add: insert_puts [OF False])
  next
    case full
    have "ht_mem ht ! j \<noteq> 0 \<and> node_get_key hook ht j \<noteq> ?key" if "j < ht_size ht" for j
      using full(2) [OF that] by (auto simp: node_fits_def node_key_match_def)
    then show ?thesis using ins full(1) assms(1) by (intro exI [of _ False] exI [of _ ht]) (simp add: insert_puts [OF False])
  qed
qed

text \<open>An example: an empty table of two nodes, with the keys in the table.\<close>

definition ht_example :: HashTable where
  "ht_example = ht_init \<lparr>ht_mem = [], max_elts_log2 = 1, key_internal = True, key_mem = replicate 32 0\<rparr>"

theorem ht_insert_finds_witness:
  "ht_ok (\<lambda>_. []) ht_example \<and>
   (\<exists>ht'. ht_insert_with_key (\<lambda>_. []) ht_example [1, 2] 7 = Some (True, ht') \<and> ht_find (\<lambda>_. []) ht' [1, 2] = Some 7)"
proof -
  have ok: "ht_ok (\<lambda>_. []) ht_example" unfolding ht_example_def by (rule init_ok) (simp_all add: numeral_eq_Suc)
  obtain r ht' where i: "ht_insert_with_key (\<lambda>_. []) ht_example [1, 2] 7 = Some (r, ht')"
    "if r then \<forall>key'. ht_find (\<lambda>_. []) ht' key' = (if cut_key ht_example key' = cut_key ht_example [1, 2] then Some 7 else ht_find (\<lambda>_. []) ht_example key')
     else ht' = ht_example \<and> ((7 :: node) = 0 \<or> (\<forall>j < 2 ^ unat (max_elts_log2 ht_example). ht_mem ht_example ! j \<noteq> 0 \<and> node_get_key (\<lambda>_. []) ht_example j \<noteq> cut_key ht_example [1, 2]))"
    using ht_insert_finds [OF ok, where data = 7 and key = "[1, 2]"] by (auto simp: ht_example_def ht_init_def)
  have "ht_mem ht_example ! 0 = 0" by (simp add: ht_example_def ht_init_def)
  then have "r" using i(2) by (auto split: if_splits)
  then show ?thesis using ok i by simp
qed

section \<open>Iterators\<close>

lemma skip_empty_spec:
  "pos \<le> skip_empty xs pos \<and> skip_empty xs pos \<le> pos + length xs \<and> (\<forall>i < skip_empty xs pos - pos. xs ! i = 0) \<and>
   (skip_empty xs pos < pos + length xs \<longrightarrow> xs ! (skip_empty xs pos - pos) \<noteq> 0)"
proof (induction xs pos rule: skip_empty.induct)
  case (2 x xs pos)
  show ?case
  proof (cases "x = 0")
    case True
    have "pos + 1 \<le> skip_empty xs (pos + 1)" using 2 True by simp
    then have "skip_empty xs (pos + 1) - pos = Suc (skip_empty xs (pos + 1) - (pos + 1))" by simp
    then show ?thesis using 2 True by (auto simp: nth_Cons')
  qed simp
qed simp

text \<open>
  An iterator starts at the first node in use and goes to the next one, or to the end if there is none, so that a walk visits every
  node in use once.
\<close>

lemma iter_visits_used:
  assumes "ht_ok hook ht"
  shows "ht_iter_begin ht \<le> ht_iter_end ht" "j < ht_iter_begin ht \<Longrightarrow> ht_iter_get ht j = 0"
    "ht_iter_begin ht < ht_iter_end ht \<Longrightarrow> ht_iter_get ht (ht_iter_begin ht) \<noteq> 0"
    "pos < ht_iter_end ht \<Longrightarrow> pos < ht_iter_next ht pos \<and> ht_iter_next ht pos \<le> ht_iter_end ht"
    "pos < ht_iter_end ht \<Longrightarrow> pos < j \<Longrightarrow> j < ht_iter_next ht pos \<Longrightarrow> ht_iter_get ht j = 0"
    "pos < ht_iter_end ht \<Longrightarrow> ht_iter_next ht pos < ht_iter_end ht \<Longrightarrow> ht_iter_get ht (ht_iter_next ht pos) \<noteq> 0"
proof -
  have l: "length (ht_mem ht) = ht_iter_end ht" using assms by (simp add: ht_ok_def ht_iter_end_def)
  note b = skip_empty_spec [of 0 "ht_mem ht", folded ht_iter_begin_def] and n = skip_empty_spec [of "pos + 1" "drop (pos + 1) (ht_mem ht)", folded ht_iter_next_def]
  show "ht_iter_begin ht \<le> ht_iter_end ht" "j < ht_iter_begin ht \<Longrightarrow> ht_iter_get ht j = 0"
    "ht_iter_begin ht < ht_iter_end ht \<Longrightarrow> ht_iter_get ht (ht_iter_begin ht) \<noteq> 0"
    using b l by (auto simp: ht_iter_get_def)
  assume p: "pos < ht_iter_end ht"
  then show "pos < ht_iter_next ht pos \<and> ht_iter_next ht pos \<le> ht_iter_end ht" using n l by auto
  show "pos < j \<Longrightarrow> j < ht_iter_next ht pos \<Longrightarrow> ht_iter_get ht j = 0"
    using n l p by (auto simp: ht_iter_get_def dest: spec [of _ "j - (pos + 1)"])
  show "ht_iter_next ht pos < ht_iter_end ht \<Longrightarrow> ht_iter_get ht (ht_iter_next ht pos) \<noteq> 0"
    using n l p by (auto simp: ht_iter_get_def)
qed

end
