(* ===== verification/Rle.thy ===== *)
theory Rle
  imports Aprs_Prelude
begin

text \<open>
  The run-length code of \<^verbatim>\<open>bertos/algo/rle.c\<close>. The input of the encoder is a list and its positions are numbers, as the
  indices of the code; the result is what is written to the output, whose length is what the code returns. The decoder reads a list and has
  the result \<open>None\<close> if the input ends before its end mark, where the code reads on.
\<close>

section \<open>The code\<close>

text \<open>Bytes identical to the first one.\<close>

function same_run :: "bytes \<Rightarrow> nat \<Rightarrow> u8 \<Rightarrow> nat \<Rightarrow> nat" where
  "same_run input count byte index =
     (if index < length input \<and> index - count < 127 \<and> input ! index = byte then same_run input count byte (index + 1) else index)"
  by auto
termination by (relation "measure (\<lambda>(input, count, byte, index). length input - index)") auto

text \<open>Bytes to copy, until three identical ones.\<close>

function literal_run :: "bytes \<Rightarrow> nat \<Rightarrow> nat \<Rightarrow> nat" where
  "literal_run input count index =
     (if index < length input \<and> index - count < 127
      then if input ! index = input ! (index - 1) \<and> 1 < index \<and> input ! index = input ! (index - 2) then index - 2
           else literal_run input count (index + 1)
      else index)"
  by auto
termination by (relation "measure (\<lambda>(input, count, index). length input - index)") auto

declare same_run.simps [simp del] literal_run.simps [simp del]

lemma same_run_steps:
  "index < length input \<Longrightarrow> index - count < 127 \<Longrightarrow> input ! index = byte \<Longrightarrow> same_run input count byte index = same_run input count byte (index + 1)"
  "\<not> (index < length input \<and> index - count < 127 \<and> input ! index = byte) \<Longrightarrow> same_run input count byte index = index"
  by (auto simp: same_run.simps [of input count byte index])

definition triple :: "bytes \<Rightarrow> nat \<Rightarrow> bool" where
  "triple input index \<longleftrightarrow> input ! index = input ! (index - 1) \<and> 1 < index \<and> input ! index = input ! (index - 2)"

lemma literal_run_steps:
  "\<not> (index < length input \<and> index - count < 127) \<Longrightarrow> literal_run input count index = index"
  "index < length input \<Longrightarrow> index - count < 127 \<Longrightarrow> triple input index \<Longrightarrow> literal_run input count index = index - 2"
  "index < length input \<Longrightarrow> index - count < 127 \<Longrightarrow> \<not> triple input index \<Longrightarrow> literal_run input count index = literal_run input count (index + 1)"
  by (auto simp: triple_def literal_run.simps [of input count index])

lemma same_run_ge: "index \<le> same_run input count byte index"
proof (induction input count byte index rule: same_run.induct)
  case (1 input count byte index)
  show ?case
  proof (cases "index < length input \<and> index - count < 127 \<and> input ! index = byte")
    case True
    then have "index + 1 \<le> same_run input count byte (index + 1)" by (rule 1)
    then show ?thesis using True same_run_steps(1) [of index input count byte] by simp
  qed (simp add: same_run_steps(2))
qed

lemma same_run_stops:
  assumes "same_run input count byte index = index" "index < length input" "index - count < 127"
  shows "input ! index \<noteq> byte"
proof
  assume "input ! index = byte"
  then show False using same_run_steps(1) [of index input count byte] assms same_run_ge [of "index + 1" input count byte] by simp
qed

text \<open>At least one byte is copied: the second differs from the first.\<close>

lemma literal_run_ge:
  assumes "count < index" "index < count + 3 \<longrightarrow> count + 1 < length input \<longrightarrow> input ! (count + 1) \<noteq> input ! count"
  shows "count < literal_run input count index"
  using assms
proof (induction "length input - index" arbitrary: index rule: less_induct)
  case less
  show ?case
  proof (cases "index < length input \<and> index - count < 127")
    case True
    show ?thesis
    proof (cases "triple input index")
      case triple: True
      have "count + 3 \<le> index"
      proof (rule ccontr)
        assume "\<not> count + 3 \<le> index"
        then consider "index = count + 1" | "index = count + 2" using less by linarith
        then show False using less triple True by cases (auto simp: triple_def)
      qed
      then show ?thesis using True triple by (simp add: literal_run_steps(2))
    next
      case False
      have "count < literal_run input count (index + 1)" by (rule less.hyps) (use less True False in auto)
      then show ?thesis using True False by (simp add: literal_run_steps(3))
    qed
  qed (use less in \<open>simp add: literal_run_steps(1)\<close>)
qed

text \<open>The runs from position \<open>count\<close> on.\<close>

function rle_runs :: "bytes \<Rightarrow> nat \<Rightarrow> bytes" where
  "rle_runs input count =
     (if count < length input
      then let byte = input ! count; index = same_run input count byte (count + 1)
           in if index - count = 1
              then let index = literal_run input count index
                   in word_of_int (int count - int index) # take (index - count) (drop count input) @ rle_runs input index
              else word_of_nat (index - count) # byte # rle_runs input index
      else [])"
  by auto
termination
proof (relation "measure (\<lambda>(input, count). length input - count)", goal_cases)
  case (2 input count byte index i)
  then have "index = count + 1" by linarith
  then have "count + 1 < length input \<longrightarrow> input ! (count + 1) \<noteq> input ! count" using 2 same_run_stops [of input count byte "count + 1"] by simp
  then have "count < i" using 2 \<open>index = count + 1\<close> literal_run_ge [of count index input] by simp
  then show ?case using 2 by simp
next
  case (3 input count byte index)
  then show ?case using same_run_ge [of "count + 1" input count byte] by simp
qed simp

declare rle_runs.simps [simp del]

definition rle :: "bytes \<Rightarrow> bytes" where
  "rle input = rle_runs input 0 @ [0]"

function unrle :: "bytes \<Rightarrow> bytes option" where
  "unrle input =
     (case input of
        [] \<Rightarrow> None
      | count # input \<Rightarrow>
          if 0 <s count then (case input of [] \<Rightarrow> None | v # input \<Rightarrow> map_option (\<lambda>out. replicate (unat count) v @ out) (unrle input))
          else if count <s 0 then
            let n = nat (- sint count)
            in if length input < n then None else map_option (\<lambda>out. take n input @ out) (unrle (drop n input))
          else Some [])"
  by auto
termination by (relation "measure length") auto

declare unrle.simps [simp del]

section \<open>The round trip\<close>

lemma same_run_spec:
  assumes "count < index" "index \<le> length input" "index - count \<le> 127"
  shows "same_run input count byte index \<le> length input \<and> same_run input count byte index - count \<le> 127 \<and>
    (\<forall>i. index \<le> i \<and> i < same_run input count byte index \<longrightarrow> input ! i = byte)"
  using assms
proof (induction "length input - index" arbitrary: index rule: less_induct)
  case less
  show ?case
  proof (cases "index < length input \<and> index - count < 127 \<and> input ! index = byte")
    case True
    then have step: "same_run input count byte index = same_run input count byte (index + 1)" by (simp add: same_run_steps(1))
    have "i = index \<or> index + 1 \<le> i" if "index \<le> i" for i using that by linarith
    moreover have "same_run input count byte (index + 1) \<le> length input \<and> same_run input count byte (index + 1) - count \<le> 127 \<and>
        (\<forall>i. index + 1 \<le> i \<and> i < same_run input count byte (index + 1) \<longrightarrow> input ! i = byte)"
      by (rule less.hyps) (use less True in auto)
    ultimately show ?thesis unfolding step using True by blast
  qed (use less.prems in \<open>auto simp: same_run_steps(2)\<close>)
qed

lemma literal_run_spec:
  assumes "count < index" "index \<le> length input" "index - count \<le> 127"
  shows "literal_run input count index \<le> length input \<and> literal_run input count index - count \<le> 127"
  using assms
proof (induction "length input - index" arbitrary: index rule: less_induct)
  case less
  then consider "\<not> (index < length input \<and> index - count < 127)" | "index < length input" "index - count < 127" "triple input index"
    | "index < length input" "index - count < 127" "\<not> triple input index" by blast
  then show ?case
  proof cases
    case 3
    then have "literal_run input count (index + 1) \<le> length input \<and> literal_run input count (index + 1) - count \<le> 127"
      by (intro less.hyps) (use less in auto)
    then show ?thesis using 3 by (simp add: literal_run_steps(3))
  qed (use less.prems in \<open>auto simp: literal_run_steps(1,2)\<close>)
qed

text \<open>The two kinds of runs.\<close>

lemma runs_cases:
  assumes "count < length input"
  obtains (literal) index where "rle_runs input count = word_of_int (int count - int index) # take (index - count) (drop count input) @ rle_runs input index"
      "count < index" "index \<le> length input" "index - count \<le> 127"
    | (replicate) index where "rle_runs input count = word_of_nat (index - count) # input ! count # rle_runs input index"
      "count < index" "index \<le> length input" "index - count \<le> 127" "take (index - count) (drop count input) = List.replicate (index - count) (input ! count)"
proof -
  let ?s = "same_run input count (input ! count) (count + 1)"
  let ?l = "literal_run input count ?s"
  note spec = same_run_spec [of count "count + 1" input "input ! count"] and ge = same_run_ge [of "count + 1" input count "input ! count"]
  show thesis
  proof (cases "?s - count = 1")
    case True
    then have s: "?s = count + 1" by linarith
    then have "count < ?l" using same_run_stops [of input count "input ! count" "count + 1"] by (intro literal_run_ge) auto
    moreover have "?l \<le> length input \<and> ?l - count \<le> 127" by (rule literal_run_spec) (use s assms in auto)
    moreover have "rle_runs input count = word_of_int (int count - int ?l) # take (?l - count) (drop count input) @ rle_runs input ?l"
      using True assms by (subst rle_runs.simps) (simp add: Let_def)
    ultimately show thesis using literal [of ?l] by blast
  next
    case False
    have le: "?s \<le> length input" "?s - count \<le> 127" and eq: "\<And>i. count + 1 \<le> i \<Longrightarrow> i < ?s \<Longrightarrow> input ! i = input ! count"
      using spec assms by auto
    have "take (?s - count) (drop count input) = List.replicate (?s - count) (input ! count)"
    proof (rule nth_equalityI)
      show "length (take (?s - count) (drop count input)) = length (List.replicate (?s - count) (input ! count))" using le by simp
    next
      fix i
      assume i: "i < length (take (?s - count) (drop count input))"
      then have "count + i < ?s" by auto
      then show "take (?s - count) (drop count input) ! i = List.replicate (?s - count) (input ! count) ! i"
        using eq [of "count + i"] assms i by (cases "i = 0") (simp_all add: nth_drop)
    qed
    moreover have "rle_runs input count = word_of_nat (?s - count) # input ! count # rle_runs input ?s"
      using False assms by (subst rle_runs.simps) (simp add: Let_def)
    ultimately show thesis using replicate [of ?s] le ge by simp
  qed
qed

lemma count_byte:
  assumes "0 < n" "n \<le> 127"
  shows "0 <s (word_of_nat n :: u8)" "unat (word_of_nat n :: u8) = n" "(word_of_int (- int n) :: u8) <s 0" "nat (- sint (word_of_int (- int n) :: u8)) = n"
proof -
  have p: "sint (word_of_nat n :: u8) = int n" using assms by (simp add: signed_of_nat signed_take_bit_int_eq_self)
  have m: "sint (word_of_int (- int n) :: u8) = - int n"
    unfolding sint_sbintrunc' using assms by (intro signed_take_bit_int_eq_self) simp_all
  show "0 <s (word_of_nat n :: u8)" "(word_of_int (- int n) :: u8) <s 0" "nat (- sint (word_of_int (- int n) :: u8)) = n"
    using p m assms by (simp_all add: word_sless_alt)
  show "unat (word_of_nat n :: u8) = n" using assms by (simp add: unat_of_nat)
qed

lemma unrle_steps:
  "0 <s count \<Longrightarrow> unrle (count # v # input) = map_option (\<lambda>out. replicate (unat count) v @ out) (unrle input)"
  "count <s 0 \<Longrightarrow> nat (- sint count) = length xs \<Longrightarrow> unrle (count # xs @ input) = map_option (\<lambda>out. xs @ out) (unrle input)"
  "unrle (0 # input) = Some []"
  by (subst unrle.simps, simp add: word_sless_alt)+

lemma unrle_runs:
  assumes "count \<le> length input"
  shows "unrle (rle_runs input count @ 0 # rest) = Some (drop count input)"
  using assms
proof (induction "length input - count" arbitrary: count rule: less_induct)
  case less
  have split: "take (index - count) (drop count input) @ drop index input = drop count input" if "count < index" for index
    using that append_take_drop_id [of "index - count" "drop count input"] by simp
  show ?case
  proof (cases "count < length input")
    case True
    then show ?thesis
    proof (cases rule: runs_cases)
      case (literal index)
      let ?xs = "take (index - count) (drop count input)"
      have ih: "unrle (rle_runs input index @ 0 # rest) = Some (drop index input)" by (rule less.hyps) (use literal True in auto)
      have c: "int count - int index = - int (index - count)" "length ?xs = index - count" using literal(2,3) by simp_all
      have "unrle (word_of_int (- int (index - count)) # ?xs @ rle_runs input index @ 0 # rest) = Some (?xs @ drop index input)"
        by (subst unrle_steps(2)) (use count_byte [of "index - count"] literal c(2) ih in simp_all)
      then show ?thesis unfolding literal(1) c(1) using split [OF literal(2)] by simp
    next
      case (replicate index)
      have ih: "unrle (rle_runs input index @ 0 # rest) = Some (drop index input)" by (rule less.hyps) (use replicate True in auto)
      then show ?thesis using count_byte(1,2) [of "index - count"] replicate split [OF replicate(2)] by (simp add: unrle_steps(1) replicate(1))
    qed
  next
    case False
    then show ?thesis using less.prems by (simp add: rle_runs.simps unrle_steps(3))
  qed
qed

text \<open>What the run-length encoder writes, followed by anything, is decoded to the encoder's input.\<close>

theorem rle_roundtrip: "unrle (rle input @ rest) = Some input"
  using unrle_runs [of 0 input rest] by (simp add: rle_def)

end
