(* ===== verification/Tea.thy ===== *)
theory Tea
  imports Aprs_Prelude
begin

text \<open>
  The cipher of \<^verbatim>\<open>bertos/algo/tea.c\<close>, on a processor whose byte order is the cipher's, so that the conversions
  \<^verbatim>\<open>cpu_to_le32\<close> and \<^verbatim>\<open>le32_to_cpu\<close> are the identity. A block is two words, a key is four.
\<close>

definition DELTA :: u32 where "DELTA = 0x9E3779B9"

definition ROUNDS :: nat where "ROUNDS = 32"

record tea_key =
  k_0 :: u32
  k_1 :: u32
  k_2 :: u32
  k_3 :: u32

definition tea_func :: "u32 \<Rightarrow> u32 \<Rightarrow> u32 \<Rightarrow> u32 \<Rightarrow> u32" where
  "tea_func v sm k l = (push_bit 4 v + k) XOR (v + sm) XOR (drop_bit 5 v + l)"

text \<open>The loops, with the counter that runs down.\<close>

fun tea_enc_loop :: "tea_key \<Rightarrow> nat \<Rightarrow> u32 \<Rightarrow> u32 \<Rightarrow> u32 \<Rightarrow> u32 \<times> u32" where
  "tea_enc_loop k 0 sm y z = (y, z)"
| "tea_enc_loop k (Suc n) sm y z =
     (let sm = sm + DELTA;
          y = y + tea_func z sm (k_0 k) (k_1 k);
          z = z + tea_func y sm (k_2 k) (k_3 k)
      in tea_enc_loop k n sm y z)"

fun tea_dec_loop :: "tea_key \<Rightarrow> nat \<Rightarrow> u32 \<Rightarrow> u32 \<Rightarrow> u32 \<Rightarrow> u32 \<times> u32" where
  "tea_dec_loop k 0 sm y z = (y, z)"
| "tea_dec_loop k (Suc n) sm y z =
     (let z = z - tea_func y sm (k_2 k) (k_3 k);
          y = y - tea_func z sm (k_0 k) (k_1 k);
          sm = sm - DELTA
      in tea_dec_loop k n sm y z)"

definition tea_enc :: "u32 \<times> u32 \<Rightarrow> tea_key \<Rightarrow> u32 \<times> u32" where
  "tea_enc v k = tea_enc_loop k ROUNDS 0 (fst v) (snd v)"

definition tea_dec :: "u32 \<times> u32 \<Rightarrow> tea_key \<Rightarrow> u32 \<times> u32" where
  "tea_dec v k = tea_dec_loop k ROUNDS (DELTA * word_of_nat ROUNDS) (fst v) (snd v)"

text \<open>A round of the decryption, run after the others, takes back the first of the encryption.\<close>

lemma dec_loop_snoc:
  "tea_dec_loop k (Suc n) sm y z =
     (case tea_dec_loop k n sm y z of (y, z) \<Rightarrow> tea_dec_loop k 1 (sm - DELTA * word_of_nat n) y z)"
  by (induction n arbitrary: sm y z) (simp_all add: Let_def algebra_simps)

lemma dec_enc_loop: "case tea_enc_loop k n sm y z of (y', z') \<Rightarrow> tea_dec_loop k n (sm + DELTA * word_of_nat n) y' z' = (y, z)"
proof (induction n arbitrary: sm y z)
  case (Suc n)
  let ?s = "sm + DELTA"
  let ?y = "y + tea_func z ?s (k_0 k) (k_1 k)"
  let ?z = "z + tea_func ?y ?s (k_2 k) (k_3 k)"
  obtain y' z' where e: "tea_enc_loop k n ?s ?y ?z = (y', z')" by force
  have d: "tea_dec_loop k n (?s + DELTA * word_of_nat n) y' z' = (?y, ?z)" using Suc [of ?s ?y ?z] e by simp
  have "sm + DELTA * word_of_nat (Suc n) = ?s + DELTA * word_of_nat n" by (simp add: algebra_simps)
  then have "tea_dec_loop k (Suc n) (sm + DELTA * word_of_nat (Suc n)) y' z' = tea_dec_loop k 1 ?s ?y ?z"
    by (simp only: dec_loop_snoc d) simp
  also have "\<dots> = (y, z)" by (simp add: Let_def)
  finally show ?case using e by (simp add: Let_def)
qed simp

lemma enc_loop_snoc:
  "tea_enc_loop k (Suc n) sm y z =
     (case tea_enc_loop k n sm y z of (y, z) \<Rightarrow> tea_enc_loop k 1 (sm + DELTA * word_of_nat n) y z)"
proof (induction n arbitrary: sm y z)
  case (Suc n)
  let ?y = "y + tea_func z (sm + DELTA) (k_0 k) (k_1 k)"
  let ?z = "z + tea_func ?y (sm + DELTA) (k_2 k) (k_3 k)"
  have s: "sm + DELTA + DELTA * word_of_nat n = sm + DELTA * word_of_nat (Suc n)" by (simp add: algebra_simps)
  have "tea_enc_loop k (Suc (Suc n)) sm y z = tea_enc_loop k (Suc n) (sm + DELTA) ?y ?z" by (simp only: tea_enc_loop.simps Let_def)
  also have "\<dots> = (case tea_enc_loop k n (sm + DELTA) ?y ?z of (y, z) \<Rightarrow> tea_enc_loop k 1 (sm + DELTA * word_of_nat (Suc n)) y z)"
    by (simp only: Suc s)
  also have "tea_enc_loop k n (sm + DELTA) ?y ?z = tea_enc_loop k (Suc n) sm y z" by (simp only: tea_enc_loop.simps Let_def)
  finally show ?case .
qed simp

lemma enc_dec_loop: "case tea_dec_loop k n (sm + DELTA * word_of_nat n) y z of (y', z') \<Rightarrow> tea_enc_loop k n sm y' z' = (y, z)"
proof (induction n arbitrary: y z)
  case (Suc n)
  let ?s = "sm + DELTA * word_of_nat (Suc n)"
  let ?z = "z - tea_func y ?s (k_2 k) (k_3 k)"
  let ?y = "y - tea_func ?z ?s (k_0 k) (k_1 k)"
  have s: "?s - DELTA = sm + DELTA * word_of_nat n" by (simp add: algebra_simps)
  obtain y' z' where d: "tea_dec_loop k n (sm + DELTA * word_of_nat n) ?y ?z = (y', z')" by force
  have e: "tea_enc_loop k n sm y' z' = (?y, ?z)" using Suc [of ?y ?z] d by simp
  have "tea_enc_loop k (Suc n) sm y' z' = tea_enc_loop k 1 (sm + DELTA * word_of_nat n) ?y ?z" by (simp only: enc_loop_snoc e) simp
  also have "\<dots> = (y, z)" using s by (simp add: Let_def algebra_simps)
  finally show ?case using d s by (simp only: tea_dec_loop.simps Let_def) simp
qed simp

text \<open>Decryption and encryption of a block with the same key are the inverse of each other.\<close>

theorem tea_roundtrip: "tea_dec (tea_enc v k) k = v \<and> tea_enc (tea_dec v k) k = v"
proof
  show "tea_dec (tea_enc v k) k = v"
    using dec_enc_loop [of k ROUNDS 0 "fst v" "snd v"] by (simp add: tea_dec_def tea_enc_def split: prod.splits)
  show "tea_enc (tea_dec v k) k = v"
    using enc_dec_loop [of k ROUNDS 0 "fst v" "snd v"] by (simp add: tea_dec_def tea_enc_def split: prod.splits)
qed

end
