(* ===== verification/Spec2Isabelle.thy ===== *)
theory Spec2Isabelle
  imports Crc_Ccitt Fifobuf Hdlc Kfile Kfile_Generic Timer Linked_List Timer_Links Timer_Hp Afsk Afsk_Line Afsk_Channel Afsk_Stream
    Formatwr Ax25 Ax25_Link Utils Uart Ser Settings Printf_Rules Reader Kiss Digi Beacon Console
    Gps Tracker Softser Lcd Firmware Modes Wellformed Radio_Link
    Heap_Alloc Proc Kernel Kblock Kfile_Block Hashtable Rle Tea
begin

text \<open>
  Verification of TinyAPRS, the firmware of a packet radio terminal and tracker for an ATmega328, built on parts
  of the BeRTOS library. Paths below are under \<^verbatim>\<open>src/TinyAPRS\<close>.

  \<^bold>\<open>The program.\<close> A sample interrupt (\<^verbatim>\<open>TinyAPRS/hw/hw_afsk.c\<close>) runs the AFSK modem (\<^verbatim>\<open>bertos/net/afsk.c\<close>): its
  demodulator turns samples into bits, the HDLC parser turns bits into bytes in a FIFO
  (\<^verbatim>\<open>bertos/struct/fifobuf.h\<close>), its modulator sends what the main loop writes. The AX.25 layer
  (\<^verbatim>\<open>bertos/net/ax25.c\<close>) takes frames from the modem through the channel interface \<^verbatim>\<open>bertos/io/kfile.c\<close>, checks
  them with the CRC of \<^verbatim>\<open>bertos/algo/crc_ccitt.c\<close> and calls the main program back. Depending on the run mode,
  \<^verbatim>\<open>TinyAPRS/main.c\<close> prints the message, passes the frame to the host by KISS (\<^verbatim>\<open>net/kiss.c\<close>) or repeats it
  (\<^verbatim>\<open>digi.c\<close>). The host talks on the serial port (\<^verbatim>\<open>bertos/drv/ser.c\<close>, \<^verbatim>\<open>reader.c\<close>) with AT commands
  (\<^verbatim>\<open>console.c\<close>) or KISS frames; a GPS receiver on the same port feeds the tracker (\<^verbatim>\<open>gps.c\<close>, \<^verbatim>\<open>tracker.c\<close>).
  \<^verbatim>\<open>beacon.c\<close> sends the text and \<^verbatim>\<open>settings.c\<close> keeps the parameters in the EEPROM.

  \<^bold>\<open>The model.\<close> Machine integers are words of their width on the AVR (\<^verbatim>\<open>int\<close> and \<^verbatim>\<open>size_t\<close> have 16 bits),
  structures are records, the static variables of a module extend the record of the globals it uses, and operations
  pass the state on. \<open>None\<close> stands for not returning or for undefined behaviour (a read outside an object, a null
  pointer); each theory says which. The configuration is that of the headers under \<^verbatim>\<open>cfg\<close> with all modules.

  \<^item> \<open>Aprs_Prelude\<close>: types, byte strings, the C library functions used, rules on words and memory, and \<open>ensures\<close>, partial
    correctness of computations that may not return, with its rules by program structure.
  \<^item> \<open>Crc_Ccitt\<close>: the table driven CRC. It equals the bit serial one; the residue identifies the check bytes; any
    burst of up to 16 bits is detected. Locale \<open>frame_check\<close>, interpreted by the CRC.
  \<^item> \<open>Fifobuf\<close>: the circular buffer is a bounded queue (locale \<open>bounded_queue\<close>).
  \<^item> \<open>Hdlc\<close>: \<open>hdlc_parse\<close> decodes the line code of flags and bit stuffed characters.
  \<^item> \<open>Kfile\<close>, \<open>Kfile_Generic\<close>: the channel interface; locales \<open>kfile_writer\<close>, \<open>kfile_out\<close>, \<open>kfile_in\<close> and \<open>kfile_copying\<close>,
    interpreted for the modem in \<open>Afsk_Channel\<close> and \<open>Afsk_Stream\<close>, for the serial port in \<open>Ser\<close>, for both together in
    \<open>Radio_Link\<close>, and for a FIFO. Reading lines, resynchronisation, and files in memory, which are read back as written
    unless the position is moved past their end.
  \<^item> \<open>Afsk\<close>, \<open>Afsk_Line\<close>, \<open>Afsk_Channel\<close>: the modem. The modulator emits the line code of what is queued; under
    every interleaving of interrupts and main loop (the step relation \<open>modem_step\<close>) its state stays sound; the filter
    does not overflow; writing and flushing terminate.
  \<^item> \<open>Afsk_Stream\<close>: the main loop and the modulator together. A frame is written while it is being sent; the tones added to
    the line (\<open>tone_line\<close>) until the flush returns are the line code of exactly the bytes written, as long as the queue does
    not run dry, which is shown for the writes of the AX.25 layer.
  \<^item> \<open>Timer\<close>, \<open>Timer_Links\<close>, \<open>Timer_Hp\<close>: clock, delays, soft timers, correct across the wrap-around of the tick counter;
    the same queues as linked lists of timers in memory, a refinement; short delays on the hardware counter.
  \<^item> \<open>Linked_List\<close>: the doubly linked lists of \<^verbatim>\<open>bertos/struct/list.h\<close> on an explicit memory of nodes. Each operation is
    related to the list of the addresses linked, and leaves lists elsewhere alone.
  \<^item> \<open>Formatwr\<close>, \<open>Printf_Rules\<close>: \<^verbatim>\<open>printf\<close> on a channel, and rules that evaluate it on literal formats.
  \<^item> \<open>Ax25\<close>, \<open>Ax25_Link\<close>: the AX.25 layer. What the senders send is received as the same message; bad and over-long
    frames are dropped. Locale \<open>ax25_receiver\<close> for a receiver with a callback, interpreted by the main program.
  \<^item> \<open>Utils\<close>, \<open>Uart\<close>, \<open>Ser\<close>, \<open>Settings\<close>, \<open>Reader\<close>: call sign texts and the checksum, the registers of the UART with the
    exactness of the baud rate, the serial port with its interrupts, the EEPROM (round trips and detection of corruption), lines from the port and the shared globals.
  \<^item> \<open>Kiss\<close>, \<open>Digi\<close>, \<open>Beacon\<close>, \<open>Console\<close>, \<open>Gps\<close>, \<open>Tracker\<close>, \<open>Softser\<close>: the modules of the application. Framing is
    transparent and transmission waits for a free channel; one hop is refined from a specification on paths and
    duplicates are dropped; the beacon keeps its schedule; commands reach their handlers; sentences are accepted by
    their checksum; reports keep the limits of smart beaconing; a byte sent bit by bit is received.
  \<^item> \<open>Lcd\<close>: the display driver, from texts to the levels of five pins, against what the controller makes of them.
  \<^item> \<open>Firmware\<close>, \<open>Modes\<close>: the main program, its initialisation, one turn of its loop and the step relation
    \<open>firmware\<close> of turns and interrupts; in every reachable state the run mode agrees with the AX.25 layer.
  \<^item> \<open>Wellformed\<close>: the type invariant \<open>tnc_ok\<close> of the whole state, that every array, index and counter is within the bounds the
    code declares; each operation keeps it (rules \<open>keeps\<close>), so that it holds in every reachable state.
  \<^item> \<open>Radio_Link\<close>: from a frame sent at one station to its text on the console of another.
  \<^item> \<open>Heap_Alloc\<close>: the memory allocator of \<^verbatim>\<open>bertos/struct/heap.c\<close>, on the bytes of its buffer with the free list threaded through
    them. Blocks and free chunks tile the buffer, so that blocks never overlap and a request fails only when there is no room.
    Locale \<open>allocator\<close>, interpreted by the heap.
  \<^item> \<open>Proc\<close>, \<open>Kernel\<close>: the multitasking kernel of \<^verbatim>\<open>bertos/kern\<close> (\<^verbatim>\<open>proc.c\<close>, \<^verbatim>\<open>sem.c\<close>, \<^verbatim>\<open>signal.c\<close>), a client of \<open>allocator\<close>. The step relation
    \<open>kernel_run\<close> takes calls of processes and interrupts in any order; every process is in one place in every state, no
    assertion fails, no wake-up is lost, semaphores are first-come locks, preemption is by priority and in turn.
  \<^item> \<open>Kblock\<close>, \<open>Kfile_Block\<close>: block devices (\<^verbatim>\<open>bertos/io/kblock.c\<close>, \<^verbatim>\<open>kblock_ram.c\<close>) and files on them (\<^verbatim>\<open>kfile_block.c\<close>). Locale
    \<open>block_device\<close> for the methods of a device, interpreted by the device in memory without a buffer, with its own and with one in
    memory; the buffer is invisible, the device is an array of blocks and a file on it the row of their bytes.
  \<^item> \<open>Hashtable\<close>: the table of \<^verbatim>\<open>bertos/struct/hashtable.c\<close>. The probes of a key visit every node once, so that a lookup ends; what is
    inserted is found and other keys keep their data; an insertion fails only if the table is full.
  \<^item> \<open>Rle\<close>, \<open>Tea\<close>: the run-length code and the cipher of \<^verbatim>\<open>bertos/algo\<close>; decoding gives back what was encoded.

  \<^bold>\<open>Loops and fuel.\<close> Loops that wait for an interrupt are \<open>partial_function (option)\<close> over the state the interrupt
  changes; that they return is proved from the invariants of the modem, the serial port and the timer. The
  carrier sense loop of KISS takes the list of its turns (samples and random values); \<open>None\<close> at its end means that it
  still waits, and its liveness is stated for a list with a turn that allows sending. \<open>calc_crc\<close> does not end for
  blocks of 256 bytes or more, which is proved. Everything else is structural or has a measure.

  \<^bold>\<open>Parameters.\<close> The floating point operations of the C library (\<open>'f floats\<close>), the stack contents a message is decoded
  over (\<open>msg0\<close>), the random values, the time a transmission takes (\<open>busy\<close>), the free memory reported.

  \<^bold>\<open>Interrupts.\<close> In \<open>modem_step\<close> and \<open>firmware\<close> interrupts come between any two steps of the main loop. Inside one
  operation they are taken where it waits for them: the modulator runs while the writer waits for room in its queue or for
  the end of a transmission, the UART while the port waits.

  \<^bold>\<open>Not modelled.\<close> Demodulation quality: that the samples of a noisy tone give the bits sent is not stated, only that
  the arithmetic is exact; in \<open>Radio_Link\<close> the receiver is given the bits. Timing of the bit banged port,
  register set-up of the timers and the converter, LEDs, the watchdog beyond the flag \<open>resetting\<close>. Log output and
  module variants that are configured out (FIR filter, reduced and floating point formatter, AT+DEST, AT+SEND). The other
  UARTs and the SPI master of \<^verbatim>\<open>ser.c\<close>, which the board does not use. The firmware itself is
  configured without the kernel. Of the kernel: priority inheritance, the monitor, timeouts of signals and the saving
  of registers; calls are atomic up to the context switch they make. Block devices other than memory. The rest of BeRTOS (network stacks, file
  systems, graphics, drivers for other devices and processors), the boot loader and the desktop configuration tool, which
  are not part of the firmware image.
\<close>

end
